(* ===== verification/Prelude.thy ===== *)
theory Prelude
  imports "HOL-Library.Word"
begin

text \<open>
  Shared vocabulary of the development: bytes, fallible computations, the two library functions of
  Go the sources lean on (\<open>bytes.Compare\<close> and slicing), and the generic list lemmas that every
  component uses.

  A Go \<open>byte\<close> is an 8-bit word and a \<open>[]byte\<close> a list of them.  Nibble paths are byte slices with
  one nibble per element, as in the sources, so a nibble is a byte whose value is below 16 and
  that bound is a hypothesis wherever the code relies on it.  A function that returns
  \<open>(T, error)\<close> becomes one that returns \<open>'e + T\<close> with the error on the left.  A run-time panic is
  an error value too.
\<close>

section \<open>Bytes\<close>

unbundle bit_operations_syntax

type_synonym byte = "8 word"
type_synonym bytes = "byte list"
type_synonym u16 = "16 word"
type_synonym u64 = "64 word"

named_theorems slice_simps \<open>rewrites on slices of lists\<close>
named_theorems bind_simps \<open>rewrites on fallible computations\<close>
named_theorems cpl_simps \<open>facts on the common prefix length\<close>

lemma unat_byte_less [simp]: "unat (b :: byte) < 256"
  using unsigned_less [of b, where ?'a = nat] by simp

lemma unat_byte_eq_iff: "unat (a :: byte) = unat b \<longleftrightarrow> a = b"
  by (simp add: word_unat_eq_iff)

section \<open>Fallible computations\<close>

definition bindE :: "'e + 'a \<Rightarrow> ('a \<Rightarrow> 'e + 'b) \<Rightarrow> 'e + 'b" where
  "bindE m f = (case m of Inl e \<Rightarrow> Inl e | Inr x \<Rightarrow> f x)"

lemma bindE_Inl [simp]: "bindE (Inl e) f = Inl e"
  by (simp add: bindE_def)

lemma bindE_Inr [simp]: "bindE (Inr x) f = f x"
  by (simp add: bindE_def)

lemma bindE_assoc [bind_simps]: "bindE (bindE m f) g = bindE m (\<lambda>x. bindE (f x) g)"
  by (simp add: bindE_def split: sum.splits)

lemma bindE_eq_Inr: "bindE m f = Inr y \<longleftrightarrow> (\<exists>x. m = Inr x \<and> f x = Inr y)"
  by (simp add: bindE_def split: sum.splits)

lemma bindE_cong [fundef_cong]:
  "m = m' \<Longrightarrow> (\<And>x. m' = Inr x \<Longrightarrow> f x = g x) \<Longrightarrow> bindE m f = bindE m' g"
  by (simp add: bindE_def split: sum.splits)

text \<open>A sequence of effects on a world, stopped by the first failure.\<close>

fun foldE :: "('r \<Rightarrow> 'w \<Rightarrow> 'e + 'w) \<Rightarrow> 'r list \<Rightarrow> 'w \<Rightarrow> 'e + 'w" where
  "foldE f [] w = Inr w"
| "foldE f (r # rs) w = bindE (f r w) (foldE f rs)"

lemma foldE_append [bind_simps]: "foldE f (xs @ ys) w = bindE (foldE f xs w) (foldE f ys)"
proof (induction xs arbitrary: w)
  case (Cons x xs)
  then show ?case by (simp add: bindE_def split: sum.splits)
qed simp

lemma foldE_cong [fundef_cong]:
  "xs = ys \<Longrightarrow> w = w' \<Longrightarrow> (\<And>x w. x \<in> set ys \<Longrightarrow> f x w = g x w) \<Longrightarrow> foldE f xs w = foldE g ys w'"
proof (induction xs arbitrary: ys w w')
  case (Cons x xs)
  then show ?case by (auto simp: bindE_def split: sum.splits)
qed auto

lemma foldE_map: "foldE f (map g xs) w = foldE (\<lambda>x. f (g x)) xs w"
  by (induction xs arbitrary: w) (auto simp: bindE_def split: sum.splits)

lemma foldE_record: "foldE (\<lambda>r w. Inr (w @ [r])) rs w = Inr (w @ rs)"
  by (induction rs arbitrary: w) simp_all

section \<open>Slices\<close>

text \<open>\<open>subslice i j xs\<close> is Go's \<open>xs[i:j]\<close> for \<open>i \<le> j \<le> len(xs)\<close>.\<close>

definition subslice :: "nat \<Rightarrow> nat \<Rightarrow> 'a list \<Rightarrow> 'a list" where
  "subslice i j xs = take (j - i) (drop i xs)"

lemma length_subslice [simp]: "length (subslice i j xs) = min (j - i) (length xs - i)"
  by (simp add: subslice_def)

lemma subslice_0 [simp, slice_simps]: "subslice 0 j xs = take j xs"
  by (simp add: subslice_def)

lemma subslice_same [simp, slice_simps]: "subslice i i xs = []"
  by (simp add: subslice_def)

lemma subslice_empty_iff: "j \<le> length xs \<Longrightarrow> subslice i j xs = [] \<longleftrightarrow> j \<le> i"
  by (auto simp: subslice_def)

lemma take_append_subslice [slice_simps]: "i \<le> j \<Longrightarrow> take i xs @ subslice i j xs = take j xs"
  by (metis le_add_diff_inverse subslice_def take_add)

lemma subslice_append_drop [slice_simps]: "i \<le> j \<Longrightarrow> subslice i j xs @ drop j xs = drop i xs"
  by (metis append_take_drop_id drop_drop le_add_diff_inverse2 subslice_def)

section \<open>Lexicographic order of byte slices\<close>

text \<open>
  Go's \<open>bytes.Compare\<close> returns -1, 0 or 1.  Only the sign of the result is used by the sources.
\<close>

fun bytesCompare :: "bytes \<Rightarrow> bytes \<Rightarrow> int" where
  "bytesCompare [] [] = 0"
| "bytesCompare [] (y # ys) = -1"
| "bytesCompare (x # xs) [] = 1"
| "bytesCompare (x # xs) (y # ys) =
     (if x < y then -1 else if y < x then 1 else bytesCompare xs ys)"

definition bytesLess :: "bytes \<Rightarrow> bytes \<Rightarrow> bool" where
  "bytesLess a b \<longleftrightarrow> bytesCompare a b < 0"

lemma bytesCompare_self [simp]: "bytesCompare a a = 0"
  by (induction a) auto

lemma bytesCompare_swap: "bytesCompare b a = - bytesCompare a b"
  by (induction a b rule: bytesCompare.induct) auto

lemma bytesCompare_eq_0: "bytesCompare a b = 0 \<longleftrightarrow> a = b"
  by (induction a b rule: bytesCompare.induct) auto

lemma bytesLess_irrefl [simp]: "\<not> bytesLess a a"
  by (simp add: bytesLess_def)

lemma bytesLess_Cons:
  "bytesLess (x # xs) (y # ys) \<longleftrightarrow> x < y \<or> (x = y \<and> bytesLess xs ys)"
  by (auto simp: bytesLess_def)

lemma bytesLess_Nil_right [simp]: "\<not> bytesLess xs []"
  by (cases xs) (simp_all add: bytesLess_def)

lemma bytesLess_Nil_left [simp]: "bytesLess [] ys \<longleftrightarrow> ys \<noteq> []"
  by (cases ys) (simp_all add: bytesLess_def)

lemma bytesLess_trans: "bytesLess a b \<Longrightarrow> bytesLess b c \<Longrightarrow> bytesLess a c"
proof (induction a arbitrary: b c)
  case Nil
  then show ?case by (cases c) simp_all
next
  case (Cons x xs)
  then obtain y ys z zs where "b = y # ys" "c = z # zs"
    by (metis bytesLess_Nil_right list.exhaust)
  with Cons show ?case by (auto simp: bytesLess_Cons)
qed

lemma bytesCompare_le_0: "bytesCompare a b \<le> 0 \<longleftrightarrow> \<not> bytesLess b a"
  using bytesCompare_swap [of a b] by (auto simp: bytesLess_def)

section \<open>Common prefixes\<close>

text \<open>
  \<open>commonPrefixLen\<close> counts the leading elements two slices share.  The sources write the same
  loop three times (ethrex, nimbus and besu).
\<close>

fun commonPrefixLen :: "bytes \<Rightarrow> bytes \<Rightarrow> nat" where
  "commonPrefixLen (x # xs) (y # ys) = (if x = y then Suc (commonPrefixLen xs ys) else 0)"
| "commonPrefixLen xs ys = 0"

lemma commonPrefixLen_self [simp]: "commonPrefixLen a a = length a"
  by (induction a) auto

lemma commonPrefixLen_commute: "commonPrefixLen a b = commonPrefixLen b a"
  by (induction a b rule: commonPrefixLen.induct) auto

lemma commonPrefixLen_le [cpl_simps]:
  "commonPrefixLen a b \<le> length a" "commonPrefixLen a b \<le> length b"
  by (induction a b rule: commonPrefixLen.induct) auto

lemma take_commonPrefixLen:
  "n \<le> commonPrefixLen a b \<Longrightarrow> take n a = take n b"
proof (induction a b arbitrary: n rule: commonPrefixLen.induct)
  case (1 x xs y ys)
  then show ?case by (cases n) (auto split: if_splits)
qed simp_all

lemma nth_commonPrefixLen:
  "n < commonPrefixLen a b \<Longrightarrow> a ! n = b ! n"
proof (induction a b arbitrary: n rule: commonPrefixLen.induct)
  case (1 x xs y ys)
  then show ?case by (cases n) (auto split: if_splits)
qed simp_all

lemma commonPrefixLen_ge_iff:
  assumes "n \<le> length a" "n \<le> length b"
  shows "n \<le> commonPrefixLen a b \<longleftrightarrow> take n a = take n b"
  using assms
proof (induction a b arbitrary: n rule: commonPrefixLen.induct)
  case (1 x xs y ys)
  then show ?case by (cases n) auto
qed auto

lemma commonPrefixLen_less:
  assumes "length a = length b" "a \<noteq> b"
  shows "commonPrefixLen a b < length a"
  using assms by (induction a b rule: list_induct2) auto

lemma nth_at_commonPrefixLen:
  assumes "commonPrefixLen a b < length a" "commonPrefixLen a b < length b"
  shows "a ! commonPrefixLen a b \<noteq> b ! commonPrefixLen a b"
  using assms by (induction a b rule: commonPrefixLen.induct) auto

lemma commonPrefixLen_eqI:
  assumes "n < length a" "n < length b" "take n a = take n b" "a ! n \<noteq> b ! n"
  shows "commonPrefixLen a b = n"
  using assms
proof (induction a b arbitrary: n rule: commonPrefixLen.induct)
  case (1 x xs y ys)
  then show ?case by (cases n) auto
qed auto

text \<open>For slices of one length the order is decided at the first difference.\<close>

lemma bytesLess_iff_nth:
  assumes "length a = length b"
  shows "bytesLess a b \<longleftrightarrow>
    a \<noteq> b \<and> a ! commonPrefixLen a b < b ! commonPrefixLen a b"
  using assms by (induction a b rule: list_induct2) (auto simp: bytesLess_Cons)

lemma bytesLess_prefix_between:
  assumes "length a = length b" "length b = length c"
    and "bytesLess a b" "bytesLess b c" "take n a = take n c"
  shows "take n b = take n a"
  using assms
proof (induction a b arbitrary: c n rule: list_induct2)
  case Nil
  then show ?case by simp
next
  case (Cons x xs y ys)
  then obtain z zs where c: "c = z # zs" "length ys = length zs" by (cases c) auto
  show ?case
  proof (cases n)
    case 0
    then show ?thesis by simp
  next
    case (Suc m)
    with Cons.prems c have "x = z" "take m xs = take m zs" by auto
    moreover from this Cons.prems c have "y = x" "bytesLess xs ys" "bytesLess ys zs"
      by (auto simp: bytesLess_Cons)
    ultimately show ?thesis using Cons.IH [OF c(2)] Suc by simp
  qed
qed

lemma bytesLess_linear: "bytesLess a b \<or> a = b \<or> bytesLess b a"
  using bytesCompare_swap [of a b] bytesCompare_eq_0 [of a b] by (auto simp: bytesLess_def)

lemma sorted_wrt_set_unique:
  assumes irrefl: "\<And>x. \<not> R x x" and trans: "\<And>x y z. R x y \<Longrightarrow> R y z \<Longrightarrow> R x z"
  shows "set xs = set ys \<Longrightarrow> sorted_wrt R xs \<Longrightarrow> sorted_wrt R ys \<Longrightarrow> xs = ys"
proof (induction xs arbitrary: ys)
  case (Cons x xs)
  then obtain y ys' where ys: "ys = y # ys'" by (cases ys) auto
  have xy: "x = y"
  proof (rule ccontr)
    assume "x \<noteq> y"
    then have "x \<in> set ys'" "y \<in> set xs" using Cons.prems(1) by (auto simp: ys)
    then have "R y x" "R x y" using Cons.prems(2,3) by (auto simp: ys)
    then show False using irrefl trans by blast
  qed
  have "x \<notin> set xs" "x \<notin> set ys'" using Cons.prems(2,3) irrefl by (auto simp: ys xy)
  then have "set xs = set ys'" using Cons.prems(1) by (auto simp: ys xy)
  then show ?case using Cons by (simp add: ys xy)
qed simp

end
