(* ===== verification/Ethrex_Rlp.thy ===== *)
theory Ethrex_Rlp
  imports Prelude
begin

text \<open>
  The RLP helpers of \<open>internal/ethrex/node_rlp.go\<close> and \<open>internal/ethrex/account.go\<close>: byte strings, list
  headers and minimal big-endian integers.  Lengths are Go \<open>int\<close>s; they are natural numbers here and
  the round trips assume what the machine guarantees, a length below \<open>2^64\<close>.

  \<open>rlpSplit\<close> is the inverse the encoders are proved against: it takes the first RLP item off a byte
  sequence, as the RLP definition of the Ethereum yellow paper prescribes.
\<close>

section \<open>Encoders\<close>

fun minBEBytes :: "nat \<Rightarrow> bytes" where
  "minBEBytes n = (if n > 0 then minBEBytes (n div 256) @ [of_nat n] else [])"

declare minBEBytes.simps [simp del]

definition minBEBytesU64 :: "u64 \<Rightarrow> bytes" where
  "minBEBytesU64 n = minBEBytes (unat n)"

definition appendRLPBytes :: "bytes \<Rightarrow> bytes \<Rightarrow> bytes" where
  "appendRLPBytes dst b =
     (let n = length b in
      if n = 1 \<and> b ! 0 < 0x80 then dst @ [b ! 0]
      else if n = 0 then dst @ [0x80]
      else if n \<le> 55 then (dst @ [0x80 + of_nat n]) @ b
      else let lenBytes = minBEBytes n
           in (dst @ [0xb7 + of_nat (length lenBytes)] @ lenBytes) @ b)"

definition rlpEncodeBytes :: "bytes \<Rightarrow> bytes" where
  "rlpEncodeBytes b =
     (let n = length b in
      if n = 1 \<and> b ! 0 < 0x80 then [b ! 0]
      else if n = 0 then [0x80]
      else if n \<le> 55 then (0x80 + of_nat n) # b
      else let lenBytes = minBEBytes n in (0xb7 + of_nat (length lenBytes)) # lenBytes @ b)"

definition rlpEncodeListRaw :: "bytes \<Rightarrow> bytes" where
  "rlpEncodeListRaw payload =
     (let n = length payload in
      if n \<le> 55 then (0xc0 + of_nat n) # payload
      else let lenBytes = minBEBytes n in (0xf7 + of_nat (length lenBytes)) # lenBytes @ payload)"

definition rlpEncodeUint64 :: "u64 \<Rightarrow> bytes" where
  "rlpEncodeUint64 n = (if n = 0 then [0x80] else rlpEncodeBytes (minBEBytesU64 n))"

text \<open>
  \<open>uint256.Int.Bytes\<close> belongs to the library holiman/uint256 and is a parameter.  The code relies on
  its documented result, the minimal big-endian bytes of the value.  A nil pointer is \<open>None\<close>.
\<close>

type_synonym uint256 = "256 word"

definition uint256_Bytes_spec :: "(uint256 \<Rightarrow> bytes) \<Rightarrow> bool" where
  "uint256_Bytes_spec uBytes \<longleftrightarrow> (\<forall>v. uBytes v = minBEBytes (unat v))"

definition rlpEncodeUint256 :: "(uint256 \<Rightarrow> bytes) \<Rightarrow> uint256 option \<Rightarrow> bytes" where
  "rlpEncodeUint256 uBytes n =
     (case n of None \<Rightarrow> [0x80] | Some v \<Rightarrow> if v = 0 then [0x80] else rlpEncodeBytes (uBytes v))"

section \<open>Big-endian numbers\<close>

definition beNat :: "bytes \<Rightarrow> nat" where
  "beNat b = foldl (\<lambda>n x. 256 * n + unat x) 0 b"

lemma beNat_Nil [simp]: "beNat [] = 0"
  by (simp add: beNat_def)

lemma beNat_snoc [simp]: "beNat (b @ [x]) = 256 * beNat b + unat x"
  by (simp add: beNat_def)

lemma beNat_minBEBytes [simp]: "beNat (minBEBytes n) = n"
proof (induction n rule: minBEBytes.induct)
  case (1 n)
  then show ?case by (simp add: minBEBytes.simps [of n] unat_of_nat)
qed

lemma minBEBytes_0 [simp]: "minBEBytes 0 = []"
  by (simp add: minBEBytes.simps)

lemma minBEBytes_empty_iff [simp]: "minBEBytes n = [] \<longleftrightarrow> n = 0"
  by (metis beNat_Nil beNat_minBEBytes minBEBytes_0)

lemma length_minBEBytes_le: "n < 256 ^ k \<Longrightarrow> length (minBEBytes n) \<le> k"
proof (induction k arbitrary: n)
  case (Suc k)
  then have "n div 256 < 256 ^ k" by (simp add: less_mult_imp_div_less mult.commute)
  with Suc.IH show ?case by (simp add: minBEBytes.simps [of n])
qed simp

lemma hd_minBEBytes: "n > 0 \<Longrightarrow> hd (minBEBytes n) \<noteq> 0"
proof (induction n rule: minBEBytes.induct)
  case (1 n)
  show ?case
  proof (cases "n div 256 = 0")
    case True
    then have "n < 256" by simp
    with 1 show ?thesis
      by (simp add: minBEBytes.simps [of n] True word_unat_eq_iff unat_of_nat)
  next
    case False
    with 1 show ?thesis by (simp add: minBEBytes.simps [of n])
  qed
qed

lemma beNat_append: "beNat (a @ b) = beNat a * 256 ^ length b + beNat b"
proof (induction b rule: rev_induct)
  case (snoc x b)
  then show ?case by (simp flip: append_assoc add: algebra_simps)
qed simp

lemma beNat_Cons: "beNat (x # b) = unat x * 256 ^ length b + beNat b"
  using beNat_append [of "[x]" b] beNat_snoc [of "[]" x] by simp

lemma beNat_less: "beNat b < 256 ^ length b"
proof (induction b)
  case (Cons x b)
  have "unat x + 1 \<le> 256" using unat_byte_less [of x] by linarith
  then have "(unat x + 1) * 256 ^ length b \<le> 256 * 256 ^ length b" by (rule mult_right_mono) simp
  then have "unat x * 256 ^ length b + 256 ^ length b \<le> 256 * 256 ^ length b"
    by (simp only: add_mult_distrib mult_1)
  with Cons show ?case unfolding beNat_Cons length_Cons power_Suc by linarith
qed simp

lemma minBEBytes_beNat:
  assumes "b = [] \<or> hd b \<noteq> 0"
  shows "minBEBytes (beNat b) = b"
  using assms
proof (induction b rule: rev_induct)
  case (snoc x b)
  show ?case
  proof (cases "b = []")
    case True
    with snoc.prems have "unat x > 0" "unat x < 256"
      by (simp_all add: unat_gt_0)
    with True show ?thesis
      using beNat_snoc [of "[]" x] by (simp add: minBEBytes.simps [of "unat x"])
  next
    case False
    with snoc.prems have ne: "hd b \<noteq> 0" by simp
    with snoc.IH have IH: "minBEBytes (beNat b) = b" by simp
    have pos: "beNat b > 0" using IH False by (metis gr0I minBEBytes_0)
    have d: "(256 * beNat b + unat x) div 256 = beNat b"
      using unat_byte_less [of x] by simp
    have "of_nat (256 * beNat b + unat x) = x"
      by (simp add: word_unat_eq_iff unat_of_nat unat_word_ariths)
    then show ?thesis
      using pos d IH by (simp add: minBEBytes.simps [of "256 * beNat b + unat x"] del: of_nat_add)
  qed
qed simp

section \<open>Splitting off the first item\<close>

definition rlpTake :: "bool \<Rightarrow> nat \<Rightarrow> bytes \<Rightarrow> (bool \<times> bytes \<times> bytes) option" where
  "rlpTake isList n r = (if n \<le> length r then Some (isList, take n r, drop n r) else None)"

definition rlpTakeLong :: "bool \<Rightarrow> nat \<Rightarrow> bytes \<Rightarrow> (bool \<times> bytes \<times> bytes) option" where
  "rlpTakeLong isList k r =
     (if k \<le> length r then rlpTake isList (beNat (take k r)) (drop k r) else None)"

fun rlpSplit :: "bytes \<Rightarrow> (bool \<times> bytes \<times> bytes) option" where
  "rlpSplit [] = None"
| "rlpSplit (x # r) =
     (if x < 0x80 then Some (False, [x], r)
      else if x \<le> 0xb7 then rlpTake False (unat x - 0x80) r
      else if x \<le> 0xbf then rlpTakeLong False (unat x - 0xb7) r
      else if x \<le> 0xf7 then rlpTake True (unat x - 0xc0) r
      else rlpTakeLong True (unat x - 0xf7) r)"

lemma unat_header: "unat c + n < 256 \<Longrightarrow> unat (c + of_nat n :: byte) = unat c + n"
  by (simp add: unat_word_ariths(1) unat_of_nat)

lemma length_minBEBytes_8: "n < 2 ^ 64 \<Longrightarrow> length (minBEBytes n) \<le> 8"
  using length_minBEBytes_le [of n 8] by simp

lemma rlpTake_append [simp]: "rlpTake l (length b) (b @ r) = Some (l, b, r)"
  by (simp add: rlpTake_def)

lemma rlpTakeLong_append [simp]:
  "length b < 2 ^ 64 \<Longrightarrow>
   rlpTakeLong l (length (minBEBytes (length b))) (minBEBytes (length b) @ b @ r) = Some (l, b, r)"
  by (simp add: rlpTakeLong_def)

text \<open>How \<open>rlpSplit\<close> reads each kind of header.\<close>

lemma rlpSplit_short: "n \<le> 55 \<Longrightarrow> rlpSplit ((0x80 + of_nat n) # r) = rlpTake False n r"
  using unat_header [of "0x80" n] by (simp add: word_less_nat_alt word_le_nat_alt)

lemma rlpSplit_long:
  "0 < k \<Longrightarrow> k \<le> 8 \<Longrightarrow> rlpSplit ((0xb7 + of_nat k) # r) = rlpTakeLong False k r"
  using unat_header [of "0xb7" k] by (simp add: word_less_nat_alt word_le_nat_alt)

lemma rlpSplit_short_list: "n \<le> 55 \<Longrightarrow> rlpSplit ((0xc0 + of_nat n) # r) = rlpTake True n r"
  using unat_header [of "0xc0" n] by (simp add: word_less_nat_alt word_le_nat_alt)

lemma rlpSplit_long_list:
  "0 < k \<Longrightarrow> k \<le> 8 \<Longrightarrow> rlpSplit ((0xf7 + of_nat k) # r) = rlpTakeLong True k r"
  using unat_header [of "0xf7" k] by (simp add: word_less_nat_alt word_le_nat_alt)

lemma appendRLPBytes_eq: "appendRLPBytes dst b = dst @ rlpEncodeBytes b"
  by (simp add: appendRLPBytes_def rlpEncodeBytes_def Let_def)

lemma rlpSplit_rlpEncodeBytes:
  assumes "length b < 2 ^ 64"
  shows "rlpSplit (rlpEncodeBytes b @ r) = Some (False, b, r)"
proof -
  consider "length b = 1" "b ! 0 < 0x80" | "\<not> (length b = 1 \<and> b ! 0 < 0x80)" "length b \<le> 55"
    | "55 < length b" by linarith
  then show ?thesis
  proof cases
    case 1
    then show ?thesis by (cases b) (auto simp: rlpEncodeBytes_def Let_def)
  next
    case 2
    then have "rlpEncodeBytes b = (0x80 + of_nat (length b)) # b"
      by (auto simp: rlpEncodeBytes_def Let_def)
    with 2 show ?thesis by (simp add: rlpSplit_short del: rlpSplit.simps(2))
  next
    case 3
    then have "minBEBytes (length b) \<noteq> []" by auto
    with 3 assms show ?thesis
      using rlpSplit_long [of "length (minBEBytes (length b))" "minBEBytes (length b) @ b @ r"]
        length_minBEBytes_8 [of "length b"]
      by (auto simp: rlpEncodeBytes_def Let_def simp del: rlpSplit.simps(2))
  qed
qed

lemma rlpSplit_rlpEncodeListRaw:
  assumes "length p < 2 ^ 64"
  shows "rlpSplit (rlpEncodeListRaw p @ r) = Some (True, p, r)"
proof (cases "length p \<le> 55")
  case True
  then show ?thesis
    using rlpSplit_short_list [of "length p" "p @ r"]
    by (simp add: rlpEncodeListRaw_def Let_def del: rlpSplit.simps(2))
next
  case False
  then have "minBEBytes (length p) \<noteq> []" by auto
  with False assms show ?thesis
    using rlpSplit_long_list [of "length (minBEBytes (length p))" "minBEBytes (length p) @ p @ r"]
      length_minBEBytes_8 [of "length p"]
    by (simp add: rlpEncodeListRaw_def Let_def del: rlpSplit.simps(2))
qed

lemma rlpEncodeBytes_ne [simp]: "rlpEncodeBytes b \<noteq> []"
  by (simp add: rlpEncodeBytes_def Let_def)

lemma length_rlpEncodeListRaw_gt: "length p < length (rlpEncodeListRaw p)"
  by (simp add: rlpEncodeListRaw_def Let_def)

section \<open>Integers\<close>

lemma rlpSplit_rlpEncodeUint64: "rlpSplit (rlpEncodeUint64 n @ r) = Some (False, minBEBytes (unat n), r)"
proof (cases "n = 0")
  case True
  then show ?thesis using rlpSplit_rlpEncodeBytes [of "[]" r]
    by (simp add: rlpEncodeUint64_def rlpEncodeBytes_def)
next
  case False
  have "length (minBEBytes (unat n)) \<le> 8"
    using unsigned_less [of n, where ?'a = nat] by (intro length_minBEBytes_8) simp
  with False show ?thesis
    by (simp add: rlpEncodeUint64_def minBEBytesU64_def rlpSplit_rlpEncodeBytes)
qed

lemma rlpSplit_rlpEncodeUint256:
  assumes "uint256_Bytes_spec uBytes"
  shows "rlpSplit (rlpEncodeUint256 uBytes v @ r) =
    Some (False, minBEBytes (case v of None \<Rightarrow> 0 | Some n \<Rightarrow> unat n), r)"
proof -
  have zero: "rlpSplit (0x80 # r) = Some (False, [], r)"
    using rlpSplit_rlpEncodeBytes [of "[]" r] by (simp add: rlpEncodeBytes_def)
  have "length (minBEBytes (unat n)) < 2 ^ 64" for n :: uint256
  proof -
    have "unat n < 2 ^ 256" using unsigned_less [of n, where ?'a = nat] by simp
    then have "length (minBEBytes (unat n)) \<le> 32" using length_minBEBytes_le [of "unat n" 32] by simp
    then show ?thesis by simp
  qed
  then show ?thesis
    using assms zero
    by (auto simp: rlpEncodeUint256_def uint256_Bytes_spec_def rlpSplit_rlpEncodeBytes
        split: option.splits)
qed

end
