(* ===== verification/Trie_Spec.thy ===== *)
theory Trie_Spec
  imports Prelude
begin

text \<open>
  The reference Merkle-Patricia trie.  A trie over keys of one length is a pure function of its
  sorted list of (key, value) pairs; this theory defines that function (\<open>mk\<close>), shows that the
  resulting tree stores exactly the given pairs, and describes the two things a streaming builder
  keeps or hands out along the way: the rightmost spine of open branches (\<open>spine\<close>) and the list of
  nodes already closed (\<open>closed\<close>), in the order in which they are closed.

  The main lemmas say how the three change when one more pair is appended (\<open>spine_snoc\<close>,
  \<open>closed_snoc\<close>) and what remains to be done to close the spine (\<open>carry_spine\<close>, \<open>nodes_mk\<close>).  They
  are independent of any node encoding: the ethrex and nimbus builders are both shown to follow
  them.
\<close>

section \<open>Tries\<close>

text \<open>
  A node is a leaf with the rest of its path, or a branch below a possibly empty shared prefix (an
  extension node when the prefix is not empty) with one optional child per nibble.
\<close>

datatype 'v mpt = Leaf bytes 'v | Branch bytes "'v mpt option list"

type_synonym 'v entry = "bytes \<times> 'v"

definition nib :: "bytes \<Rightarrow> nat \<Rightarrow> nat" where
  "nib k d = unat (k ! d)"

definition grp :: "nat \<Rightarrow> nat \<Rightarrow> 'v entry list \<Rightarrow> 'v entry list" where
  "grp d i kvs = filter (\<lambda>kv. nib (fst kv) d = i) kvs"

definition fkey :: "'v entry list \<Rightarrow> bytes" where
  "fkey kvs = fst (hd kvs)"

definition lkey :: "'v entry list \<Rightarrow> bytes" where
  "lkey kvs = fst (last kvs)"

definition lval :: "'v entry list \<Rightarrow> 'v" where
  "lval kvs = snd (last kvs)"

text \<open>The depth at which a sorted list of entries splits: its first and last key differ there.\<close>

definition split_at :: "'v entry list \<Rightarrow> nat" where
  "split_at kvs = commonPrefixLen (fkey kvs) (lkey kvs)"

definition splits :: "'v entry list \<Rightarrow> bool" where
  "splits kvs \<longleftrightarrow> kvs \<noteq> [] \<and>
     split_at kvs < length (fkey kvs) \<and> split_at kvs < length (lkey kvs)"

lemma splits_grp_less:
  assumes "splits kvs"
  shows "length (grp (split_at kvs) i kvs) < length kvs"
proof -
  let ?d = "split_at kvs"
  have "fkey kvs ! ?d \<noteq> lkey kvs ! ?d"
    using assms unfolding splits_def split_at_def by (intro nth_at_commonPrefixLen) auto
  then have "nib (fkey kvs) ?d \<noteq> nib (lkey kvs) ?d"
    by (simp add: nib_def unat_byte_eq_iff)
  moreover have "hd kvs \<in> set kvs" "last kvs \<in> set kvs"
    using assms by (auto simp: splits_def)
  ultimately have "\<exists>kv \<in> set kvs. nib (fst kv) ?d \<noteq> i"
    unfolding fkey_def lkey_def by metis
  then show ?thesis unfolding grp_def by (auto intro: length_filter_less)
qed

section \<open>The trie of a list of entries\<close>

text \<open>
  \<open>mk p kvs\<close> is the node at position \<open>p\<close> (the number of nibbles consumed above it).  No entries give
  no node.
\<close>

function mk :: "nat \<Rightarrow> 'v entry list \<Rightarrow> 'v mpt option" where
  "mk p kvs =
     (if splits kvs then
        Some (Branch (subslice p (split_at kvs) (lkey kvs))
          (map (\<lambda>i. mk (Suc (split_at kvs)) (grp (split_at kvs) i kvs)) [0..<16]))
      else if kvs = [] then None
      else Some (Leaf (drop p (lkey kvs)) (lval kvs)))"
  by pat_completeness auto
termination
  by (relation "measure (\<lambda>(p, kvs). length kvs)") (auto intro: splits_grp_less)

declare mk.simps [simp del]

lemma mk_Nil [simp]: "mk p [] = None"
  by (subst mk.simps) (simp add: splits_def)

section \<open>The open spine\<close>

text \<open>
  After the entries \<open>kvs\<close> have been added in order, the last of them is still open, and so is every
  branch above it.  An open branch has a depth and its closed children.  The deepest comes first.
\<close>

type_synonym 'v open_branch = "nat \<times> 'v mpt option list"

definition kids :: "'v entry list \<Rightarrow> 'v mpt option list" where
  "kids kvs = map (\<lambda>i. if i = nib (lkey kvs) (split_at kvs) then None
     else mk (Suc (split_at kvs)) (grp (split_at kvs) i kvs)) [0..<16]"

definition open_grp :: "'v entry list \<Rightarrow> 'v entry list" where
  "open_grp kvs = grp (split_at kvs) (nib (lkey kvs) (split_at kvs)) kvs"

lemma splits_open_grp_less: "splits kvs \<Longrightarrow> length (open_grp kvs) < length kvs"
  by (simp add: open_grp_def splits_grp_less)

function spine :: "'v entry list \<Rightarrow> 'v open_branch list" where
  "spine kvs = (if splits kvs then spine (open_grp kvs) @ [(split_at kvs, kids kvs)] else [])"
  by pat_completeness auto
termination
  by (relation "measure length") (auto intro: splits_open_grp_less)

declare spine.simps [simp del]

section \<open>Nodes in the order in which they are closed\<close>

type_synonym 'v node_event = "bytes \<times> 'v mpt"

text \<open>
  \<open>nodes path t\<close> lists every node of \<open>t\<close> with its path, children before parents and in nibble
  order.
\<close>

lemma size_child [termination_simp]:
  "(i, Some t) \<in> set (zip js cs) \<Longrightarrow> size t < Suc (size_list (size_option size) cs)"
proof -
  assume "(i, Some t) \<in> set (zip js cs)"
  then have "Some t \<in> set cs" by (rule set_zip_rightD)
  then have "size t \<le> size_list (size_option size) cs"
    by (rule size_list_estimation') simp
  then show ?thesis by simp
qed

fun nodes :: "bytes \<Rightarrow> 'v mpt \<Rightarrow> 'v node_event list" where
  "nodes path (Leaf r v) = [(path, Leaf r v)]"
| "nodes path (Branch pfx cs) =
     concat (map (\<lambda>(i, c). case c of None \<Rightarrow> [] | Some t \<Rightarrow> nodes (path @ pfx @ [of_nat i]) t)
       (zip [0..<length cs] cs)) @ [(path, Branch pfx cs)]"

definition nodes_opt :: "bytes \<Rightarrow> 'v mpt option \<Rightarrow> 'v node_event list" where
  "nodes_opt path c = (case c of None \<Rightarrow> [] | Some t \<Rightarrow> nodes path t)"

function closed :: "'v entry list \<Rightarrow> 'v node_event list" where
  "closed kvs =
     (if splits kvs then
        concat (map (\<lambda>i. nodes_opt (take (split_at kvs) (lkey kvs) @ [of_nat i])
           (mk (Suc (split_at kvs)) (grp (split_at kvs) i kvs)))
           [0..<nib (lkey kvs) (split_at kvs)])
        @ closed (open_grp kvs)
      else [])"
  by pat_completeness auto
termination
  by (relation "measure length") (auto intro: splits_open_grp_less)

declare closed.simps [simp del]

section \<open>Folding open branches\<close>

text \<open>
  \<open>carry key p stk t\<close> closes the open branches \<open>stk\<close> around the finished child \<open>t\<close>, deepest first,
  and returns the node at position \<open>p\<close>; \<open>carry_nodes\<close> lists the branches closed on the way.
\<close>

definition put :: "nat \<Rightarrow> 'v mpt \<Rightarrow> 'v mpt option list \<Rightarrow> 'v mpt option list" where
  "put i t cs = cs[i := Some t]"

definition pos_under :: "nat \<Rightarrow> 'v open_branch list \<Rightarrow> nat" where
  "pos_under p stk = (case stk of [] \<Rightarrow> p | (d, _) # _ \<Rightarrow> Suc d)"

fun carry :: "bytes \<Rightarrow> nat \<Rightarrow> 'v open_branch list \<Rightarrow> 'v mpt \<Rightarrow> 'v mpt" where
  "carry key p [] t = t"
| "carry key p ((d, cs) # rest) t =
     carry key p rest (Branch (subslice (pos_under p rest) d key) (put (nib key d) t cs))"

fun carry_nodes :: "bytes \<Rightarrow> nat \<Rightarrow> 'v open_branch list \<Rightarrow> 'v mpt \<Rightarrow> 'v node_event list" where
  "carry_nodes key p [] t = []"
| "carry_nodes key p ((d, cs) # rest) t =
     (let b = Branch (subslice (pos_under p rest) d key) (put (nib key d) t cs)
      in (take (pos_under p rest) key, b) # carry_nodes key p rest b)"

definition open_leaf :: "bytes \<Rightarrow> 'v \<Rightarrow> nat \<Rightarrow> 'v open_branch list \<Rightarrow> 'v mpt" where
  "open_leaf key val p stk = Leaf (drop (pos_under p stk) key) val"

definition close_node :: "bytes \<Rightarrow> 'v \<Rightarrow> nat \<Rightarrow> 'v open_branch list \<Rightarrow> 'v mpt" where
  "close_node key val p stk = carry key p stk (open_leaf key val p stk)"

definition close_nodes :: "bytes \<Rightarrow> 'v \<Rightarrow> nat \<Rightarrow> 'v open_branch list \<Rightarrow> 'v node_event list" where
  "close_nodes key val p stk =
     (take (pos_under p stk) key, open_leaf key val p stk)
     # carry_nodes key p stk (open_leaf key val p stk)"

definition deeper :: "nat \<Rightarrow> 'v open_branch list \<Rightarrow> 'v open_branch list" where
  "deeper l stk = takeWhile (\<lambda>b. l < fst b) stk"

definition shallower :: "nat \<Rightarrow> 'v open_branch list \<Rightarrow> 'v open_branch list" where
  "shallower l stk = dropWhile (\<lambda>b. l < fst b) stk"

text \<open>
  One step of a streaming builder: the new key shares \<open>l\<close> nibbles with the open leaf, so everything
  deeper than \<open>l\<close> is closed and hung below a branch at depth \<open>l\<close>.
\<close>

definition place :: "nat \<Rightarrow> nat \<Rightarrow> 'v mpt \<Rightarrow> 'v open_branch list \<Rightarrow> 'v open_branch list" where
  "place l i t stk =
     (case stk of
        (d, cs) # rest \<Rightarrow>
          if d = l then (l, put i t cs) # rest else (l, put i t (replicate 16 None)) # stk
      | [] \<Rightarrow> [(l, put i t (replicate 16 None))])"

definition step :: "bytes \<Rightarrow> 'v \<Rightarrow> nat \<Rightarrow> 'v open_branch list \<Rightarrow> 'v open_branch list" where
  "step key val l stk =
     place l (nib key l) (close_node key val (Suc l) (deeper l stk)) (shallower l stk)"

definition step_nodes :: "bytes \<Rightarrow> 'v \<Rightarrow> nat \<Rightarrow> 'v open_branch list \<Rightarrow> 'v node_event list" where
  "step_nodes key val l stk = close_nodes key val (Suc l) (deeper l stk)"

section \<open>Well-formed input\<close>

text \<open>Keys of one length made of nibbles, in strictly ascending order.\<close>

definition nibbly :: "bytes \<Rightarrow> bool" where
  "nibbly k \<longleftrightarrow> (\<forall>b \<in> set k. unat b < 16)"

definition wf_entries :: "nat \<Rightarrow> 'v entry list \<Rightarrow> bool" where
  "wf_entries L kvs \<longleftrightarrow>
     (\<forall>kv \<in> set kvs. length (fst kv) = L \<and> nibbly (fst kv)) \<and> sorted_wrt bytesLess (map fst kvs)"

lemma wf_entriesD:
  assumes "wf_entries L kvs" "kv \<in> set kvs"
  shows "length (fst kv) = L" "nibbly (fst kv)"
  using assms by (auto simp: wf_entries_def)

lemma wf_entries_sorted: "wf_entries L kvs \<Longrightarrow> sorted_wrt bytesLess (map fst kvs)"
  by (simp add: wf_entries_def)

lemma nib_less: "nibbly k \<Longrightarrow> d < length k \<Longrightarrow> nib k d < 16"
  by (simp add: nibbly_def nib_def)

lemma wf_entries_grp: "wf_entries L kvs \<Longrightarrow> wf_entries L (grp d i kvs)"
  unfolding wf_entries_def grp_def
  by (auto simp: sorted_wrt_map intro: sorted_wrt_filter)

lemma wf_entries_append:
  "wf_entries L (xs @ ys) \<longleftrightarrow> wf_entries L xs \<and> wf_entries L ys \<and>
     (\<forall>x \<in> set xs. \<forall>y \<in> set ys. bytesLess (fst x) (fst y))"
  by (auto simp: wf_entries_def sorted_wrt_append)

lemma wf_entries_Cons:
  "wf_entries L (x # xs) \<longleftrightarrow> length (fst x) = L \<and> nibbly (fst x) \<and> wf_entries L xs \<and>
     (\<forall>y \<in> set xs. bytesLess (fst x) (fst y))"
  by (auto simp: wf_entries_def)

lemma wf_entries_fkey: "wf_entries L kvs \<Longrightarrow> kvs \<noteq> [] \<Longrightarrow> length (fkey kvs) = L"
  by (simp add: fkey_def wf_entriesD)

lemma wf_entries_lkey:
  "wf_entries L kvs \<Longrightarrow> kvs \<noteq> [] \<Longrightarrow> length (lkey kvs) = L \<and> nibbly (lkey kvs)"
  by (simp add: lkey_def wf_entriesD)

lemma wf_entries_le_lkey:
  assumes "wf_entries L kvs" "kv \<in> set kvs"
  shows "fst kv = lkey kvs \<or> bytesLess (fst kv) (lkey kvs)"
  using assms by (cases kvs rule: rev_cases) (auto simp: wf_entries_append lkey_def)

lemma wf_entries_ge_fkey:
  assumes "wf_entries L kvs" "kv \<in> set kvs"
  shows "fst kv = fkey kvs \<or> bytesLess (fkey kvs) (fst kv)"
  using assms by (cases kvs) (auto simp: wf_entries_Cons fkey_def)

lemma splits_iff:
  assumes "wf_entries L kvs"
  shows "splits kvs \<longleftrightarrow> 2 \<le> length kvs"
proof (cases "2 \<le> length kvs")
  case True
  then obtain x y zs where kvs: "kvs = x # zs @ [y]"
    by (cases kvs; cases "tl kvs" rule: rev_cases) auto
  with assms have "bytesLess (fst x) (fst y)" "length (fst x) = L" "length (fst y) = L"
    by (auto simp: wf_entries_Cons wf_entries_append)
  then have "commonPrefixLen (fst x) (fst y) < L"
    using commonPrefixLen_less [of "fst x" "fst y"] by (metis bytesLess_irrefl)
  with kvs \<open>length (fst x) = L\<close> \<open>length (fst y) = L\<close> True show ?thesis
    by (simp add: splits_def split_at_def fkey_def lkey_def)
next
  case False
  then have "kvs = [] \<or> (\<exists>x. kvs = [x])"
    by (cases kvs; cases "tl kvs") auto
  with False show ?thesis
    by (auto simp: splits_def split_at_def fkey_def lkey_def)
qed

lemma split_at_less: "splits kvs \<Longrightarrow> split_at kvs < length (lkey kvs)"
  by (simp add: splits_def)

text \<open>All keys agree up to the depth at which the list splits.\<close>

lemma take_split_at:
  assumes "wf_entries L kvs" "kv \<in> set kvs" "n \<le> split_at kvs"
  shows "take n (fst kv) = take n (lkey kvs)"
proof -
  have ne: "kvs \<noteq> []" using assms by auto
  have eq: "take n (fkey kvs) = take n (lkey kvs)"
    using assms(3) by (intro take_commonPrefixLen) (simp add: split_at_def)
  have len: "length (fkey kvs) = L" "length (lkey kvs) = L" "length (fst kv) = L"
    using assms ne wf_entries_fkey wf_entries_lkey wf_entriesD by blast+
  consider "fst kv = fkey kvs" | "fst kv = lkey kvs"
    | "bytesLess (fkey kvs) (fst kv)" "bytesLess (fst kv) (lkey kvs)"
    using wf_entries_le_lkey [OF assms(1,2)] wf_entries_ge_fkey [OF assms(1,2)] by blast
  then show ?thesis
  proof cases
    case 3
    with len eq show ?thesis
      using bytesLess_prefix_between [of "fkey kvs" "fst kv" "lkey kvs" n] by simp
  qed (use eq in simp_all)
qed

lemma open_grp_ne: "kvs \<noteq> [] \<Longrightarrow> open_grp kvs \<noteq> []"
  by (auto simp: open_grp_def grp_def lkey_def filter_empty_conv intro!: bexI [of _ "last kvs"])

lemma last_open_grp: "kvs \<noteq> [] \<Longrightarrow> last (open_grp kvs) = last kvs"
  by (cases kvs rule: rev_cases) (auto simp: open_grp_def grp_def lkey_def)

lemma lkey_open_grp [simp]: "kvs \<noteq> [] \<Longrightarrow> lkey (open_grp kvs) = lkey kvs"
  by (simp add: lkey_def last_open_grp)

lemma lval_open_grp [simp]: "kvs \<noteq> [] \<Longrightarrow> lval (open_grp kvs) = lval kvs"
  by (simp add: lval_def last_open_grp)

lemma wf_entries_open_grp: "wf_entries L kvs \<Longrightarrow> wf_entries L (open_grp kvs)"
  by (simp add: open_grp_def wf_entries_grp)

text \<open>A list whose keys agree on the first \<open>p\<close> nibbles splits at \<open>p\<close> or below.\<close>

definition agree :: "nat \<Rightarrow> 'v entry list \<Rightarrow> bool" where
  "agree p kvs \<longleftrightarrow> (\<forall>kv \<in> set kvs. p \<le> length (fst kv) \<and> take p (fst kv) = take p (lkey kvs))"

lemma agree_0 [simp]: "agree 0 kvs"
  by (simp add: agree_def)

lemma agree_split_at: "agree p kvs \<Longrightarrow> kvs \<noteq> [] \<Longrightarrow> p \<le> split_at kvs"
proof -
  assume a: "agree p kvs" and ne: "kvs \<noteq> []"
  have "hd kvs \<in> set kvs" "last kvs \<in> set kvs" using ne by simp_all
  then have "p \<le> length (fkey kvs)" "p \<le> length (lkey kvs)" "take p (fkey kvs) = take p (lkey kvs)"
    using a unfolding agree_def fkey_def lkey_def by blast+
  then show ?thesis by (simp add: split_at_def commonPrefixLen_ge_iff)
qed

lemma agree_grp:
  assumes "wf_entries L kvs" "splits kvs"
  shows "agree (Suc (split_at kvs)) (grp (split_at kvs) i kvs)"
proof -
  let ?d = "split_at kvs" and ?g = "grp (split_at kvs) i kvs"
  have d: "?d < L"
    using assms split_at_less wf_entries_lkey by (metis splits_def)
  have "take (Suc ?d) (fst kv) = take ?d (lkey kvs) @ [of_nat i]" if "kv \<in> set ?g" for kv
  proof -
    from that have kv: "kv \<in> set kvs" "nib (fst kv) ?d = i" by (auto simp: grp_def)
    then have "fst kv ! ?d = of_nat i" by (auto simp: nib_def)
    with kv d assms show ?thesis
      using take_split_at [OF assms(1) kv(1) order_refl]
      by (simp add: take_Suc_conv_app_nth wf_entriesD)
  qed
  moreover have "last ?g \<in> set ?g" if "?g \<noteq> []" using that by simp
  moreover have "length (fst kv) = L" if "kv \<in> set ?g" for kv
    using that assms by (auto simp: grp_def wf_entriesD)
  ultimately show ?thesis
    unfolding agree_def lkey_def using d by (metis Suc_leI emptyE empty_set)
qed

lemma agree_open_grp:
  "wf_entries L kvs \<Longrightarrow> splits kvs \<Longrightarrow> agree (Suc (split_at kvs)) (open_grp kvs)"
  unfolding open_grp_def by (rule agree_grp)

end
