(* ===== verification/Ethrex_Node.thy ===== *)
theory Ethrex_Node
  imports Ethrex_Nibbles Ethrex_Rlp Trie_Spec
begin

text \<open>
  Trie node encoders of \<open>internal/ethrex/node_rlp.go\<close> and the reference rule of
  \<open>internal/ethrex/node_hash.go\<close>.  Keccak-256 belongs to go-ethereum and is the parameter \<open>keccak\<close>;
  the one thing the encoders rely on is that a digest has 32 bytes.

  The encoder pool and the scratch buffers of the sources only save allocations and leave no trace
  in the results, so they do not appear here.
\<close>

type_synonym digest = "bytes \<Rightarrow> bytes"

definition keccak_spec :: "digest \<Rightarrow> bool" where
  "keccak_spec keccak \<longleftrightarrow> (\<forall>x. length (keccak x) = 32)"

section \<open>References to children\<close>

definition NodeRef :: "digest \<Rightarrow> bytes \<Rightarrow> bytes" where
  "NodeRef keccak encodedNode =
     (if length encodedNode < 32 then encodedNode else keccak encodedNode)"

definition appendChildRef :: "bytes \<Rightarrow> bytes \<Rightarrow> bytes" where
  "appendChildRef dst ref =
     (if length ref = 0 then dst @ [0x80]
      else if length ref = 32 then (dst @ [0xa0]) @ ref
      else dst @ ref)"

definition appendChildRefOf :: "digest \<Rightarrow> bytes \<Rightarrow> bytes \<Rightarrow> bytes" where
  "appendChildRefOf keccak dst child =
     (if length child < 32 then dst @ child else (dst @ [0xa0]) @ keccak child)"

section \<open>Nodes\<close>

definition EncodeLeaf :: "bytes \<Rightarrow> bytes \<Rightarrow> bytes" where
  "EncodeLeaf remainingPath val =
     rlpEncodeListRaw
       (appendRLPBytes (appendRLPBytes [] (appendCompact [] remainingPath True)) val)"

definition EncodeExtension :: "digest \<Rightarrow> bytes \<Rightarrow> bytes \<Rightarrow> bytes" where
  "EncodeExtension keccak prefixPath childEncoded =
     rlpEncodeListRaw
       (appendChildRefOf keccak (appendRLPBytes [] (appendCompact [] prefixPath False))
         childEncoded)"

fun appendChildren :: "digest \<Rightarrow> bytes \<Rightarrow> bytes list \<Rightarrow> bytes" where
  "appendChildren keccak p [] = p"
| "appendChildren keccak p (child # cs) =
     appendChildren keccak
       (if length child = 0 then p @ [0x80] else appendChildRefOf keccak p child) cs"

definition EncodeBranch :: "digest \<Rightarrow> bytes list \<Rightarrow> bytes \<Rightarrow> bytes" where
  "EncodeBranch keccak children val =
     rlpEncodeListRaw (appendRLPBytes (appendChildren keccak [] children) val)"

text \<open>
  The two ways the package writes a child reference agree: appending a child directly and appending
  the result of \<open>NodeRef\<close>.  An empty encoding is the exception: it stands for an absent child and is
  never passed to \<open>appendChildRefOf\<close>.
\<close>

lemma appendChildRefOf_NodeRef:
  assumes "keccak_spec keccak" "child \<noteq> []"
  shows "appendChildRefOf keccak dst child = appendChildRef dst (NodeRef keccak child)"
proof -
  have "length (keccak child) = 32" using assms(1) by (simp add: keccak_spec_def)
  then have "keccak child \<noteq> []" by auto
  with assms \<open>length (keccak child) = 32\<close> show ?thesis
    by (simp add: appendChildRefOf_def appendChildRef_def NodeRef_def)
qed

section \<open>The encoding of a trie\<close>

text \<open>
  The node encoding of the reference trie: a leaf, a branch, or a branch below an extension when the
  shared prefix is not empty.  An absent child is the empty slice.
\<close>

fun enc :: "digest \<Rightarrow> bytes mpt \<Rightarrow> bytes" where
  "enc keccak (Leaf r v) = EncodeLeaf r v"
| "enc keccak (Branch pfx cs) =
     (let b = EncodeBranch keccak
           (map (\<lambda>c. case c of None \<Rightarrow> [] | Some t \<Rightarrow> enc keccak t) cs) []
      in if pfx = [] then b else EncodeExtension keccak pfx b)"

definition enc_opt :: "digest \<Rightarrow> bytes mpt option \<Rightarrow> bytes" where
  "enc_opt keccak c = (case c of None \<Rightarrow> [] | Some t \<Rightarrow> enc keccak t)"

definition enc_branch :: "digest \<Rightarrow> bytes mpt option list \<Rightarrow> bytes" where
  "enc_branch keccak cs = EncodeBranch keccak (map (enc_opt keccak) cs) []"

lemma enc_Branch:
  "enc keccak (Branch pfx cs) =
     (if pfx = [] then enc_branch keccak cs
      else EncodeExtension keccak pfx (enc_branch keccak cs))"
  by (simp add: enc_branch_def enc_opt_def [abs_def])

declare enc.simps(2) [simp del]

lemma enc_opt_None [simp]: "enc_opt keccak None = []"
  by (simp add: enc_opt_def)

lemma enc_opt_Some [simp]: "enc_opt keccak (Some t) = enc keccak t"
  by (simp add: enc_opt_def)

lemma map_enc_put:
  "map (enc_opt keccak) (put i t cs) = (map (enc_opt keccak) cs)[i := enc keccak t]"
  by (simp add: put_def map_update)

lemma rlpEncodeListRaw_ne [simp]: "rlpEncodeListRaw p \<noteq> []"
  by (simp add: rlpEncodeListRaw_def Let_def)

lemma EncodeLeaf_ne [simp]: "EncodeLeaf r v \<noteq> []"
  by (simp add: EncodeLeaf_def)

lemma EncodeExtension_ne [simp]: "EncodeExtension keccak p c \<noteq> []"
  by (simp add: EncodeExtension_def)

lemma EncodeBranch_ne [simp]: "EncodeBranch keccak cs v \<noteq> []"
  by (simp add: EncodeBranch_def)

lemma enc_ne [simp]: "enc keccak t \<noteq> []"
  by (cases t) (simp_all add: enc_Branch enc_branch_def)

end
