(* ===== verification/Trie_Stream.thy ===== *)
theory Trie_Stream
  imports Trie_Spec
begin

text \<open>
  How the open spine and the list of closed nodes change when one entry is appended, and how
  closing the spine yields the trie of all entries.  These are the lemmas every streaming builder
  of the development is proved against.
\<close>

section \<open>Closing the spine gives the trie\<close>

lemma pos_under_snoc [simp]: "pos_under p (xs @ [(d, cs)]) = pos_under (Suc d) xs"
  by (cases xs) (auto simp: pos_under_def)

lemma pos_under_append [simp]: "xs \<noteq> [] \<Longrightarrow> pos_under p (xs @ ys) = pos_under q xs"
  by (cases xs) (auto simp: pos_under_def)

lemma open_leaf_snoc [simp]:
  "open_leaf key val p (xs @ [(d, cs)]) = open_leaf key val (Suc d) xs"
  by (simp add: open_leaf_def)

lemma carry_snoc:
  "carry key p (xs @ [(d, cs)]) t =
     Branch (subslice p d key) (put (nib key d) (carry key (Suc d) xs t) cs)"
proof (induction xs arbitrary: t)
  case Nil
  then show ?case by (simp add: pos_under_def)
next
  case (Cons b xs)
  then show ?case by (cases b) simp
qed

lemma carry_nodes_snoc:
  "carry_nodes key p (xs @ [(d, cs)]) t =
     carry_nodes key (Suc d) xs t @
     [(take p key, Branch (subslice p d key) (put (nib key d) (carry key (Suc d) xs t) cs))]"
proof (induction xs arbitrary: t)
  case Nil
  then show ?case by (simp add: pos_under_def)
next
  case (Cons b xs)
  then show ?case by (cases b) (simp add: Let_def)
qed

lemma close_node_snoc:
  "close_node key val p (xs @ [(d, cs)]) =
     Branch (subslice p d key) (put (nib key d) (close_node key val (Suc d) xs) cs)"
  by (simp add: close_node_def carry_snoc)

lemma close_nodes_snoc:
  "close_nodes key val p (xs @ [(d, cs)]) =
     close_nodes key val (Suc d) xs @
     [(take p key, close_node key val p (xs @ [(d, cs)]))]"
  by (simp add: close_nodes_def carry_nodes_snoc close_node_def carry_snoc)

lemma length_kids [simp]: "length (kids kvs) = 16"
  by (simp add: kids_def)

lemma put_kids:
  assumes "nib (lkey kvs) (split_at kvs) < 16"
    and "mk (Suc (split_at kvs)) (open_grp kvs) = Some t"
  shows "put (nib (lkey kvs) (split_at kvs)) t (kids kvs) =
    map (\<lambda>i. mk (Suc (split_at kvs)) (grp (split_at kvs) i kvs)) [0..<16]"
  using assms by (intro nth_equalityI) (auto simp: put_def kids_def nth_list_update open_grp_def)

lemma nib_lkey_less:
  "wf_entries L kvs \<Longrightarrow> splits kvs \<Longrightarrow> nib (lkey kvs) (split_at kvs) < 16"
  by (metis nib_less split_at_less splits_def wf_entries_lkey)

lemma splits_ne: "splits kvs \<Longrightarrow> kvs \<noteq> []"
  by (simp add: splits_def)

lemma mk_spine:
  assumes "wf_entries L kvs" "kvs \<noteq> []"
  shows "mk p kvs = Some (close_node (lkey kvs) (lval kvs) p (spine kvs))"
  using assms
proof (induction kvs arbitrary: p rule: spine.induct)
  case (1 kvs)
  show ?case
  proof (cases "splits kvs")
    case True
    let ?d = "split_at kvs"
    have IH: "mk (Suc ?d) (open_grp kvs) =
      Some (close_node (lkey kvs) (lval kvs) (Suc ?d) (spine (open_grp kvs)))"
      using 1 True by (simp add: wf_entries_open_grp open_grp_ne)
    show ?thesis
      using True put_kids [OF nib_lkey_less [OF "1.prems"(1) True] IH]
      by (simp add: mk.simps [of p kvs] spine.simps [of kvs] close_node_snoc)
  next
    case False
    with 1 show ?thesis
      by (simp add: mk.simps [of p kvs] spine.simps [of kvs] close_node_def open_leaf_def
          pos_under_def)
  qed
qed

section \<open>The nodes of the trie\<close>

lemma nodes_Branch_map:
  "nodes path (Branch pfx (map f [0..<16])) =
     concat (map (\<lambda>i. nodes_opt (path @ pfx @ [of_nat i]) (f i)) [0..<16]) @
     [(path, Branch pfx (map f [0..<16]))]"
proof -
  have "zip [0..<16] (map f [0..<16]) = map (\<lambda>i. (i, f i)) [0..<16]"
    by (simp add: zip_map2 zip_same_conv_map)
  then show ?thesis by (simp add: comp_def nodes_opt_def del: upt_rec_numeral)
qed

lemma nodes_opt_None [simp]: "nodes_opt path None = []"
  by (simp add: nodes_opt_def)

lemma nodes_opt_Some [simp]: "nodes_opt path (Some t) = nodes path t"
  by (simp add: nodes_opt_def)

lemma grp_above:
  assumes "wf_entries L kvs" "d \<le> split_at kvs" "d < L" "nib (lkey kvs) d < i"
  shows "grp d i kvs = []"
proof -
  have "nib (fst kv) d \<le> nib (lkey kvs) d" if "kv \<in> set kvs" for kv
  proof (cases "fst kv = lkey kvs")
    case False
    have lens: "length (fst kv) = L" "length (lkey kvs) = L"
      using that assms wf_entries_lkey wf_entriesD by (metis empty_iff empty_set)+
    from False that assms have less: "bytesLess (fst kv) (lkey kvs)"
      using wf_entries_le_lkey by blast
    have "d \<le> commonPrefixLen (fst kv) (lkey kvs)"
      using take_split_at [OF assms(1) that assms(2)] lens assms(3)
      by (simp add: commonPrefixLen_ge_iff)
    then show ?thesis
      using less lens nth_commonPrefixLen [of d "fst kv" "lkey kvs"]
      by (cases "d = commonPrefixLen (fst kv) (lkey kvs)")
        (auto simp: bytesLess_iff_nth nib_def word_less_nat_alt)
  qed simp
  then show ?thesis using assms(4) by (fastforce simp: grp_def filter_empty_conv)
qed

lemma upt_16_split: "n < 16 \<Longrightarrow> [0..<16] = [0..<n] @ n # [Suc n..<16]"
  by (metis less_imp_le_nat upt_add_eq_append upt_conv_Cons add_0 le_add_diff_inverse zero_le)

lemma take_Suc_nib: "d < length k \<Longrightarrow> take d k @ [of_nat (nib k d)] = take (Suc d) k"
  by (simp add: take_Suc_conv_app_nth nib_def)

lemma nodes_mk:
  assumes "wf_entries L kvs" "kvs \<noteq> []" "agree p kvs"
  shows "nodes_opt (take p (lkey kvs)) (mk p kvs) =
    closed kvs @ close_nodes (lkey kvs) (lval kvs) p (spine kvs)"
  using assms
proof (induction kvs arbitrary: p rule: spine.induct)
  case (1 kvs)
  show ?case
  proof (cases "splits kvs")
    case True
    let ?d = "split_at kvs" and ?k = "lkey kvs"
    let ?n = "nib (lkey kvs) (split_at kvs)"
    let ?f = "\<lambda>i. mk (Suc ?d) (grp ?d i kvs)"
    let ?g = "\<lambda>i. nodes_opt (take ?d ?k @ [of_nat i]) (?f i)"
    have d: "?d < length ?k" "length ?k = L"
      using True 1 split_at_less wf_entries_lkey by blast+
    have n: "?n < 16" using "1.prems"(1) True by (rule nib_lkey_less)
    have IH: "nodes_opt (take (Suc ?d) ?k) (?f ?n) =
      closed (open_grp kvs) @ close_nodes ?k (lval kvs) (Suc ?d) (spine (open_grp kvs))"
      using "1.IH" [OF True wf_entries_open_grp open_grp_ne agree_open_grp] 1 True
      by (simp add: open_grp_def [symmetric])
    have above: "?g i = []" if "i \<in> set [Suc ?n..<16]" for i
      using that d "1.prems"(1) grp_above [of L kvs ?d i] by auto
    have root: "mk p kvs = Some (Branch (subslice p ?d ?k) (map ?f [0..<16]))"
      using True by (simp add: mk.simps [of p kvs])
    have path: "take p ?k @ subslice p ?d ?k = take ?d ?k"
      using agree_split_at [OF "1.prems"(3,2)] by (rule take_append_subslice)
    have "nodes_opt (take p ?k) (mk p kvs) =
        concat (map ?g [0..<16]) @ [(take p ?k, the (mk p kvs))]"
      unfolding root nodes_opt_Some nodes_Branch_map
      by (simp only: append_assoc [symmetric] path option.sel)
    also have "concat (map ?g [0..<16]) = concat (map ?g [0..<?n]) @ ?g ?n"
      using above by (simp add: upt_16_split [OF n] concat_eq_Nil_conv del: upt_rec_numeral)
    also have "?g ?n = closed (open_grp kvs)
        @ close_nodes ?k (lval kvs) (Suc ?d) (spine (open_grp kvs))"
      using d IH by (simp add: take_Suc_nib)
    finally show ?thesis
      using True mk_spine [OF "1.prems"(1,2), of p]
      by (simp add: closed.simps [of kvs] spine.simps [of kvs] close_nodes_snoc)
  next
    case False
    with 1 show ?thesis
      by (simp add: mk.simps [of p kvs] spine.simps [of kvs] closed.simps [of kvs]
          close_nodes_def open_leaf_def pos_under_def)
  qed
qed

section \<open>Appending one entry\<close>

lemma lkey_snoc [simp]: "lkey (kvs @ [x]) = fst x"
  by (simp add: lkey_def)

lemma lval_snoc [simp]: "lval (kvs @ [x]) = snd x"
  by (simp add: lval_def)

lemma fkey_snoc [simp]: "kvs \<noteq> [] \<Longrightarrow> fkey (kvs @ [x]) = fkey kvs"
  by (simp add: fkey_def)

lemma grp_snoc:
  "grp d i (kvs @ [x]) = grp d i kvs @ (if nib (fst x) d = i then [x] else [])"
  by (simp add: grp_def)

lemma wf_snocD:
  assumes "wf_entries L (kvs @ [x])" "kvs \<noteq> []"
  shows "wf_entries L kvs" "length (fst x) = L" "length (lkey kvs) = L"
    "bytesLess (lkey kvs) (fst x)"
  using assms by (auto simp: wf_entries_def sorted_wrt_append lkey_def)

lemma splits_snoc: "wf_entries L (kvs @ [x]) \<Longrightarrow> kvs \<noteq> [] \<Longrightarrow> splits (kvs @ [x])"
  by (cases kvs) (auto simp: splits_iff)

lemma split_at_snoc_single:
  assumes "wf_entries L (kvs @ [x])" "kvs \<noteq> []" "\<not> splits kvs"
  shows "split_at (kvs @ [x]) = commonPrefixLen (lkey kvs) (fst x)"
proof -
  have "length kvs = 1"
    using assms splits_iff [OF wf_snocD(1) [OF assms(1,2)]] by (cases kvs) (auto simp: not_le)
  then have "fkey kvs = lkey kvs" by (cases kvs) (auto simp: fkey_def lkey_def)
  with assms(2) show ?thesis by (simp add: split_at_def)
qed

lemma split_at_snoc_above:
  assumes "wf_entries L (kvs @ [x])" "kvs \<noteq> []"
    and "commonPrefixLen (lkey kvs) (fst x) < split_at kvs"
  shows "split_at (kvs @ [x]) = commonPrefixLen (lkey kvs) (fst x)"
proof -
  let ?l = "commonPrefixLen (lkey kvs) (fst x)"
  note wf = wf_snocD [OF assms(1,2)]
  have f: "length (fkey kvs) = L" using wf(1) assms(2) by (rule wf_entries_fkey)
  have lt: "?l < L"
    using assms(3) commonPrefixLen_le(2) [of "fkey kvs" "lkey kvs"] wf
    by (simp add: split_at_def)
  have "take ?l (fkey kvs) = take ?l (lkey kvs)" "fkey kvs ! ?l = lkey kvs ! ?l"
    using assms(3) by (simp_all add: split_at_def take_commonPrefixLen nth_commonPrefixLen)
  moreover have "take ?l (lkey kvs) = take ?l (fst x)" by (rule take_commonPrefixLen) simp
  moreover have "lkey kvs ! ?l \<noteq> fst x ! ?l"
    using lt wf by (intro nth_at_commonPrefixLen) simp_all
  ultimately have "commonPrefixLen (fkey kvs) (fst x) = ?l"
    using lt wf f by (intro commonPrefixLen_eqI) simp_all
  then show ?thesis using assms(2) by (simp add: split_at_def)
qed

lemma split_at_snoc_below:
  assumes "wf_entries L (kvs @ [x])" "splits kvs"
    and "split_at kvs \<le> commonPrefixLen (lkey kvs) (fst x)"
  shows "split_at (kvs @ [x]) = split_at kvs"
proof -
  let ?d = "split_at kvs" and ?l = "commonPrefixLen (lkey kvs) (fst x)"
  have ne: "kvs \<noteq> []" using assms(2) by (rule splits_ne)
  note wf = wf_snocD [OF assms(1) ne]
  have f: "length (fkey kvs) = L" using wf(1) ne by (rule wf_entries_fkey)
  have d: "?d < L" using assms(2) f by (simp add: splits_def)
  have "fkey kvs ! ?d \<noteq> lkey kvs ! ?d"
    unfolding split_at_def using d f wf by (intro nth_at_commonPrefixLen) (simp_all add: split_at_def)
  then have "bytesLess (fkey kvs) (lkey kvs)"
    using wf(1) ne wf_entries_ge_fkey [of L kvs "last kvs"] by (auto simp: lkey_def)
  then have "fkey kvs ! ?d < lkey kvs ! ?d"
    using f wf by (simp add: bytesLess_iff_nth split_at_def)
  moreover have "lkey kvs ! ?d \<le> fst x ! ?d"
    using assms(3) wf nth_commonPrefixLen [of ?d "lkey kvs" "fst x"]
    by (cases "?d = ?l") (auto simp: bytesLess_iff_nth)
  moreover have "take ?d (fkey kvs) = take ?d (fst x)"
    using assms(3) take_commonPrefixLen [of ?d "fkey kvs" "lkey kvs"]
      take_commonPrefixLen [of ?d "lkey kvs" "fst x"] by (simp add: split_at_def)
  ultimately have "commonPrefixLen (fkey kvs) (fst x) = ?d"
    using d f wf by (intro commonPrefixLen_eqI) auto
  then show ?thesis using ne by (simp add: split_at_def)
qed

lemma nib_differ:
  assumes "wf_entries L (kvs @ [x])" "kvs \<noteq> []"
  shows "nib (lkey kvs) (commonPrefixLen (lkey kvs) (fst x)) <
    nib (fst x) (commonPrefixLen (lkey kvs) (fst x))"
  using wf_snocD [OF assms] by (simp add: bytesLess_iff_nth nib_def word_less_nat_alt)

lemma cpl_less:
  assumes "wf_entries L (kvs @ [x])" "kvs \<noteq> []"
  shows "commonPrefixLen (lkey kvs) (fst x) < L"
  using wf_snocD [OF assms] commonPrefixLen_less [of "lkey kvs" "fst x"]
  by (metis bytesLess_irrefl)

lemma agree_nib:
  assumes "agree (Suc d) kvs" "kv \<in> set kvs"
  shows "nib (fst kv) d = nib (lkey kvs) d"
  using assms unfolding agree_def nib_def by (metis lessI nth_take)

lemma spine_single [simp]: "spine [x] = []"
  by (simp add: spine.simps [of "[x]"] splits_def split_at_def fkey_def lkey_def)

lemma closed_single [simp]: "closed [x] = []"
  by (simp add: closed.simps [of "[x]"] splits_def split_at_def fkey_def lkey_def)

lemma spine_deeper:
  assumes "wf_entries L kvs" "agree (Suc d) kvs" "b \<in> set (spine kvs)"
  shows "d < fst b"
  using assms
proof (induction kvs arbitrary: d rule: spine.induct)
  case (1 kvs)
  then have sp: "splits kvs" by (auto simp: spine.simps [of kvs] split: if_splits)
  have d: "d < split_at kvs" using agree_split_at [OF "1.prems"(2)] sp splits_ne by fastforce
  show ?case
  proof (cases "b \<in> set (spine (open_grp kvs))")
    case True
    then have "split_at kvs < fst b"
      using "1.IH" [OF sp _ _ True] "1.prems" sp
      by (simp add: wf_entries_open_grp agree_open_grp)
    with d show ?thesis by simp
  next
    case False
    with "1.prems"(3) sp d show ?thesis by (simp add: spine.simps [of kvs])
  qed
qed

lemma deeper_all: "\<forall>b \<in> set xs. l < fst b \<Longrightarrow> deeper l xs = xs"
  by (simp add: deeper_def)

lemma shallower_all: "\<forall>b \<in> set xs. l < fst b \<Longrightarrow> shallower l xs = []"
  by (simp add: shallower_def)

lemma deeper_snoc: "d \<le> l \<Longrightarrow> deeper l (xs @ [(d, cs)]) = deeper l xs"
  unfolding deeper_def by (induction xs) auto

lemma shallower_snoc: "d \<le> l \<Longrightarrow> shallower l (xs @ [(d, cs)]) = shallower l xs @ [(d, cs)]"
  unfolding shallower_def by (induction xs) auto

lemma step_frame: "d < l \<Longrightarrow> step key val l (xs @ [(d, cs)]) = step key val l xs @ [(d, cs)]"
  by (simp add: step_def deeper_snoc shallower_snoc place_def split: list.splits prod.splits)

text \<open>The new key leaves the old trie at or above its root.\<close>

lemma apart:
  assumes l_def: "l = commonPrefixLen (lkey kvs) (fst x)"
    and wf: "wf_entries L (kvs @ [x])" "kvs \<noteq> []"
    and agree: "agree (Suc l) kvs" and split: "split_at (kvs @ [x]) = l"
  shows "open_grp (kvs @ [x]) = [x]"
    and "grp l i (kvs @ [x]) =
      (if i = nib (lkey kvs) l then kvs else if i = nib (fst x) l then [x] else [])"
proof -
  have lt: "nib (lkey kvs) l < nib (fst x) l"
    unfolding l_def using wf by (rule nib_differ)
  have same: "nib (fst kv) l = nib (lkey kvs) l" if "kv \<in> set kvs" for kv
    using agree that by (rule agree_nib)
  have g: "grp l i kvs = (if i = nib (lkey kvs) l then kvs else [])" for i
    using same by (auto simp: grp_def filter_empty_conv)
  show "grp l i (kvs @ [x]) =
      (if i = nib (lkey kvs) l then kvs else if i = nib (fst x) l then [x] else [])"
    using lt by (auto simp: grp_snoc g)
  show "open_grp (kvs @ [x]) = [x]"
    using lt by (simp add: open_grp_def split grp_snoc g)
qed

lemma spine_apart:
  assumes l_def: "l = commonPrefixLen (lkey kvs) (fst x)"
    and wf: "wf_entries L (kvs @ [x])" "kvs \<noteq> []"
    and agree: "agree (Suc l) kvs" and split: "split_at (kvs @ [x]) = l"
  shows "spine (kvs @ [x]) = step (lkey kvs) (lval kvs) l (spine kvs)"
proof -
  note a = apart [OF l_def wf agree split]
  have lt: "nib (lkey kvs) l < nib (fst x) l"
    unfolding l_def using wf by (rule nib_differ)
  note mk = mk_spine [OF wf_snocD(1) [OF wf] wf(2)]
  have "kids (kvs @ [x]) =
      put (nib (lkey kvs) l) (close_node (lkey kvs) (lval kvs) (Suc l) (spine kvs))
        (replicate 16 None)"
    using lt a(2) mk [of "Suc l"]
    by (intro nth_equalityI) (auto simp: kids_def split put_def nth_list_update)
  moreover have "\<forall>b \<in> set (spine kvs). l < fst b"
    using spine_deeper [OF wf_snocD(1) [OF wf] agree] by blast
  ultimately show ?thesis
    using splits_snoc [OF wf] a(1)
    by (simp add: spine.simps [of "kvs @ [x]"] split step_def deeper_all shallower_all place_def)
qed

text \<open>The new key leaves the open branch at its own depth: the open child is closed.\<close>

lemma beside:
  assumes wf: "wf_entries L (kvs @ [x])" and sp: "splits kvs"
    and l: "split_at kvs = commonPrefixLen (lkey kvs) (fst x)"
  shows "split_at (kvs @ [x]) = split_at kvs"
    and "open_grp (kvs @ [x]) = [x]"
    and "i \<noteq> nib (fst x) (split_at kvs) \<Longrightarrow> grp (split_at kvs) i (kvs @ [x]) = grp (split_at kvs) i kvs"
    and "nib (lkey kvs) (split_at kvs) < nib (fst x) (split_at kvs)"
    and "nib (lkey kvs) (split_at kvs) < i \<Longrightarrow> grp (split_at kvs) i kvs = []"
proof -
  have ne: "kvs \<noteq> []" using sp by (rule splits_ne)
  show split: "split_at (kvs @ [x]) = split_at kvs"
    using split_at_snoc_below [OF wf sp] l by simp
  show lt: "nib (lkey kvs) (split_at kvs) < nib (fst x) (split_at kvs)"
    using nib_differ [OF wf ne] l by simp
  show above: "grp (split_at kvs) i kvs = []" if "nib (lkey kvs) (split_at kvs) < i" for i
    using grp_above [OF wf_snocD(1) [OF wf ne] order_refl _ that] cpl_less [OF wf ne] l by simp
  show "open_grp (kvs @ [x]) = [x]"
    using above [OF lt] by (simp add: open_grp_def split grp_snoc)
  show "i \<noteq> nib (fst x) (split_at kvs) \<Longrightarrow>
      grp (split_at kvs) i (kvs @ [x]) = grp (split_at kvs) i kvs"
    by (auto simp: grp_snoc)
qed

lemma spine_beside:
  assumes wf: "wf_entries L (kvs @ [x])" and sp: "splits kvs"
    and l: "split_at kvs = commonPrefixLen (lkey kvs) (fst x)"
  shows "spine (kvs @ [x]) = step (lkey kvs) (lval kvs) (split_at kvs) (spine kvs)"
proof -
  let ?d = "split_at kvs"
  have ne: "kvs \<noteq> []" using sp by (rule splits_ne)
  note b = beside [OF wf sp l]
  note wf' = wf_snocD(1) [OF wf ne]
  have mk: "mk (Suc ?d) (open_grp kvs) =
      Some (close_node (lkey kvs) (lval kvs) (Suc ?d) (spine (open_grp kvs)))"
    using mk_spine [OF wf_entries_open_grp [OF wf'] open_grp_ne [OF ne]] ne by simp
  have "kids (kvs @ [x]) = put (nib (lkey kvs) ?d)
      (close_node (lkey kvs) (lval kvs) (Suc ?d) (spine (open_grp kvs))) (kids kvs)"
    using b(4,5) mk nib_lkey_less [OF wf' sp]
    by (intro nth_equalityI) (auto simp: kids_def b(1,3) put_def nth_list_update open_grp_def)
  moreover have "\<forall>b \<in> set (spine (open_grp kvs)). ?d < fst b"
    using spine_deeper [OF wf_entries_open_grp [OF wf'] agree_open_grp [OF wf' sp]] by blast
  ultimately show ?thesis
    using splits_snoc [OF wf ne] sp b(1,2)
    by (simp add: spine.simps [of "kvs @ [x]"] spine.simps [of kvs] step_def deeper_snoc
        shallower_snoc deeper_all shallower_all place_def)
qed

text \<open>The new key stays inside the open child.\<close>

lemma inside:
  assumes wf: "wf_entries L (kvs @ [x])" and sp: "splits kvs"
    and l: "split_at kvs < commonPrefixLen (lkey kvs) (fst x)"
  shows "split_at (kvs @ [x]) = split_at kvs"
    and "nib (fst x) (split_at kvs) = nib (lkey kvs) (split_at kvs)"
    and "open_grp (kvs @ [x]) = open_grp kvs @ [x]"
    and "kids (kvs @ [x]) = kids kvs"
    and "wf_entries L (open_grp kvs @ [x])"
proof -
  have ne: "kvs \<noteq> []" using sp by (rule splits_ne)
  show split: "split_at (kvs @ [x]) = split_at kvs"
    using split_at_snoc_below [OF wf sp] l by simp
  show n: "nib (fst x) (split_at kvs) = nib (lkey kvs) (split_at kvs)"
    using nth_commonPrefixLen [OF l] by (simp add: nib_def)
  show open_eq: "open_grp (kvs @ [x]) = open_grp kvs @ [x]"
    by (simp add: open_grp_def split n grp_snoc)
  show "kids (kvs @ [x]) = kids kvs"
    by (auto simp: kids_def split n grp_snoc)
  show "wf_entries L (open_grp kvs @ [x])"
    using wf_entries_open_grp [OF wf] by (simp add: open_eq)
qed

lemma agree_single:
  assumes "wf_entries L (kvs @ [x])" "kvs \<noteq> []" "\<not> splits kvs"
  shows "agree (Suc (commonPrefixLen (lkey kvs) (fst x))) kvs"
proof -
  note wf' = wf_snocD(1) [OF assms(1,2)]
  have "length kvs = 1"
    using assms(2,3) splits_iff [OF wf'] by (cases kvs; cases "tl kvs") auto
  then show ?thesis
    using cpl_less [OF assms(1,2)] wf' by (cases kvs) (auto simp: agree_def lkey_def wf_entries_def)
qed

lemma agree_above:
  assumes "wf_entries L (kvs @ [x])" "kvs \<noteq> []"
    and "commonPrefixLen (lkey kvs) (fst x) < split_at kvs"
  shows "agree (Suc (commonPrefixLen (lkey kvs) (fst x))) kvs"
  unfolding agree_def
  using assms(3) take_split_at [OF wf_snocD(1) [OF assms(1,2)]] cpl_less [OF assms(1,2)]
    wf_entriesD(1) [OF wf_snocD(1) [OF assms(1,2)]] by auto

lemma spine_snoc:
  assumes "wf_entries L (kvs @ [x])" "kvs \<noteq> []"
  shows "spine (kvs @ [x]) =
    step (lkey kvs) (lval kvs) (commonPrefixLen (lkey kvs) (fst x)) (spine kvs)"
  using assms
proof (induction kvs rule: spine.induct)
  case (1 kvs)
  let ?l = "commonPrefixLen (lkey kvs) (fst x)"
  note wf' = wf_snocD(1) [OF "1.prems"]
  consider "\<not> splits kvs" | "splits kvs" "?l < split_at kvs"
    | "splits kvs" "split_at kvs = ?l" | "splits kvs" "split_at kvs < ?l" by linarith
  then show ?case
  proof cases
    case 1
    then show ?thesis
      using spine_apart [OF refl "1.prems" agree_single [OF "1.prems"]]
        split_at_snoc_single [OF "1.prems"] by blast
  next
    case 2
    then show ?thesis
      using spine_apart [OF refl "1.prems" agree_above [OF "1.prems"]]
        split_at_snoc_above [OF "1.prems" 2(2)] by blast
  next
    case 3
    then show ?thesis using spine_beside [OF "1.prems"(1)] by simp
  next
    case 4
    note i = inside [OF "1.prems"(1) 4]
    have "spine (open_grp kvs @ [x]) = step (lkey kvs) (lval kvs) ?l (spine (open_grp kvs))"
      using "1.IH" [OF 4(1) i(5) open_grp_ne] "1.prems"(2) by simp
    then show ?thesis
      using 4 splits_snoc [OF "1.prems"] i
      by (simp add: spine.simps [of "kvs @ [x]"] spine.simps [of kvs] step_frame)
  qed
qed

section \<open>Nodes closed by appending one entry\<close>

lemma concat_upt_gap:
  assumes "n < m" "\<And>i. n < i \<Longrightarrow> f i = []"
  shows "concat (map f [0..<m]) = concat (map f [0..<n]) @ f n"
proof -
  have "[0..<m] = [0..<n] @ n # [Suc n..<m]"
    using assms(1) by (metis add_0 le_add_diff_inverse less_imp_le_nat upt_add_eq_append
        upt_conv_Cons zero_le)
  moreover have "concat (map f [Suc n..<m]) = []" using assms(2) by (simp add: concat_eq_Nil_conv)
  ultimately show ?thesis by simp
qed

lemma concat_upt_cong:
  "(\<And>i. i < n \<Longrightarrow> f i = g i) \<Longrightarrow> concat (map f [0..<n]) = concat (map g [0..<n])"
  by (rule arg_cong [where f = concat]) simp

lemma closed_apart:
  assumes l_def: "l = commonPrefixLen (lkey kvs) (fst x)"
    and wf: "wf_entries L (kvs @ [x])" "kvs \<noteq> []"
    and agree: "agree (Suc l) kvs" and split: "split_at (kvs @ [x]) = l"
  shows "closed (kvs @ [x]) = closed kvs @ step_nodes (lkey kvs) (lval kvs) l (spine kvs)"
proof -
  note a = apart [OF l_def wf agree split]
  note wf' = wf_snocD [OF wf]
  have lt: "nib (lkey kvs) l < nib (fst x) l"
    unfolding l_def using wf by (rule nib_differ)
  let ?f = "\<lambda>i. nodes_opt (take l (fst x) @ [of_nat i])
    (mk (Suc l) (if i = nib (lkey kvs) l then kvs else []))"
  have "take l (fst x) = take l (lkey kvs)"
    unfolding l_def by (rule take_commonPrefixLen [symmetric]) simp
  then have path: "take l (fst x) @ [of_nat (nib (lkey kvs) l)] = take (Suc l) (lkey kvs)"
    using cpl_less [OF wf] wf'(3) take_Suc_nib [of l "lkey kvs"] by (simp add: l_def)
  have "closed (kvs @ [x]) = concat (map (\<lambda>i. nodes_opt (take l (fst x) @ [of_nat i])
      (mk (Suc l) (grp l i (kvs @ [x])))) [0..<nib (fst x) l])"
    using splits_snoc [OF wf] a(1) by (simp add: closed.simps [of "kvs @ [x]"] split)
  also have "\<dots> = concat (map ?f [0..<nib (fst x) l])"
    by (rule concat_upt_cong) (simp add: a(2))
  also have "\<dots> = concat (map ?f [0..<nib (lkey kvs) l]) @ ?f (nib (lkey kvs) l)"
    using lt by (intro concat_upt_gap) auto
  also have "concat (map ?f [0..<nib (lkey kvs) l]) = []" by (simp add: concat_eq_Nil_conv)
  also have "?f (nib (lkey kvs) l) =
      closed kvs @ close_nodes (lkey kvs) (lval kvs) (Suc l) (spine kvs)"
    using nodes_mk [OF wf'(1) wf(2) agree] by (simp add: path)
  finally show ?thesis
    using spine_deeper [OF wf'(1) agree] by (simp add: step_nodes_def deeper_all)
qed

lemma closed_beside:
  assumes wf: "wf_entries L (kvs @ [x])" and sp: "splits kvs"
    and l: "split_at kvs = commonPrefixLen (lkey kvs) (fst x)"
  shows "closed (kvs @ [x]) =
    closed kvs @ step_nodes (lkey kvs) (lval kvs) (split_at kvs) (spine kvs)"
proof -
  let ?d = "split_at kvs" and ?n = "nib (lkey kvs) (split_at kvs)"
  let ?f = "\<lambda>i. nodes_opt (take ?d (lkey kvs) @ [of_nat i]) (mk (Suc ?d) (grp ?d i kvs))"
  have ne: "kvs \<noteq> []" using sp by (rule splits_ne)
  note b = beside [OF wf sp l]
  note wf' = wf_snocD [OF wf ne]
  have d: "?d < length (lkey kvs)" using sp by (rule split_at_less)
  have pre: "take ?d (fst x) = take ?d (lkey kvs)"
    using take_commonPrefixLen [of ?d "lkey kvs" "fst x"] l by simp
  have "closed (kvs @ [x]) = concat (map (\<lambda>i. nodes_opt (take ?d (lkey kvs) @ [of_nat i])
      (mk (Suc ?d) (grp ?d i (kvs @ [x])))) [0..<nib (fst x) ?d])"
    using splits_snoc [OF wf ne] b(2) by (simp add: closed.simps [of "kvs @ [x]"] b(1) pre)
  also have "\<dots> = concat (map ?f [0..<nib (fst x) ?d])"
    by (rule concat_upt_cong) (simp add: b(3))
  also have "\<dots> = concat (map ?f [0..<?n]) @ ?f ?n"
    using b(4,5) by (intro concat_upt_gap) auto
  also have "?f ?n = closed (open_grp kvs)
      @ close_nodes (lkey kvs) (lval kvs) (Suc ?d) (spine (open_grp kvs))"
    using nodes_mk [OF wf_entries_open_grp [OF wf'(1)] open_grp_ne [OF ne]
        agree_open_grp [OF wf'(1) sp]] ne d
    by (simp add: take_Suc_nib open_grp_def [symmetric])
  finally show ?thesis
    using sp spine_deeper [OF wf_entries_open_grp [OF wf'(1)] agree_open_grp [OF wf'(1) sp]]
    by (simp add: closed.simps [of kvs] spine.simps [of kvs] step_nodes_def deeper_snoc deeper_all)
qed

lemma closed_snoc:
  assumes "wf_entries L (kvs @ [x])" "kvs \<noteq> []"
  shows "closed (kvs @ [x]) = closed kvs @
    step_nodes (lkey kvs) (lval kvs) (commonPrefixLen (lkey kvs) (fst x)) (spine kvs)"
  using assms
proof (induction kvs rule: spine.induct)
  case (1 kvs)
  let ?l = "commonPrefixLen (lkey kvs) (fst x)"
  note wf' = wf_snocD(1) [OF "1.prems"]
  consider "\<not> splits kvs" | "splits kvs" "?l < split_at kvs"
    | "splits kvs" "split_at kvs = ?l" | "splits kvs" "split_at kvs < ?l" by linarith
  then show ?case
  proof cases
    case 1
    then show ?thesis
      using closed_apart [OF refl "1.prems" agree_single [OF "1.prems"]]
        split_at_snoc_single [OF "1.prems"] by blast
  next
    case 2
    then show ?thesis
      using closed_apart [OF refl "1.prems" agree_above [OF "1.prems"]]
        split_at_snoc_above [OF "1.prems" 2(2)] by blast
  next
    case 3
    then show ?thesis using closed_beside [OF "1.prems"(1)] by simp
  next
    case 4
    note i = inside [OF "1.prems"(1) 4]
    have pre: "take (split_at kvs) (fst x) = take (split_at kvs) (lkey kvs)"
      using take_commonPrefixLen [of "split_at kvs" "lkey kvs" "fst x"] 4(2) by simp
    have g: "concat (map (\<lambda>j. nodes_opt (take (split_at kvs) (lkey kvs) @ [of_nat j])
          (mk (Suc (split_at kvs)) (grp (split_at kvs) j (kvs @ [x]))))
          [0..<nib (lkey kvs) (split_at kvs)]) =
        concat (map (\<lambda>j. nodes_opt (take (split_at kvs) (lkey kvs) @ [of_nat j])
          (mk (Suc (split_at kvs)) (grp (split_at kvs) j kvs)))
          [0..<nib (lkey kvs) (split_at kvs)])"
      using i(2) by (intro concat_upt_cong) (simp add: grp_snoc)
    have "closed (open_grp kvs @ [x]) =
        closed (open_grp kvs) @ step_nodes (lkey kvs) (lval kvs) ?l (spine (open_grp kvs))"
      using "1.IH" [OF 4(1) i(5) open_grp_ne] "1.prems"(2) by simp
    then show ?thesis
      using 4 splits_snoc [OF "1.prems"] i(1,2,3)
      by (simp add: closed.simps [of "kvs @ [x]"] closed.simps [of kvs] spine.simps [of kvs]
          step_nodes_def deeper_snoc pre g)
  qed
qed

section \<open>Shape of the spine\<close>

text \<open>Depths fall from the top of the stack and stay inside the key.\<close>

definition stack_ok :: "bytes \<Rightarrow> 'v open_branch list \<Rightarrow> bool" where
  "stack_ok key stk \<longleftrightarrow>
     sorted_wrt (\<lambda>a b. fst b < fst a) stk \<and> (\<forall>b \<in> set stk. fst b < length key)"

lemma stack_ok_spine:
  assumes "wf_entries L kvs" "kvs \<noteq> []"
  shows "stack_ok (lkey kvs) (spine kvs)"
  using assms
proof (induction kvs rule: spine.induct)
  case (1 kvs)
  show ?case
  proof (cases "splits kvs")
    case True
    have "stack_ok (lkey kvs) (spine (open_grp kvs))"
      using "1.IH" [OF True] "1.prems" by (simp add: wf_entries_open_grp open_grp_ne)
    moreover have "\<forall>b \<in> set (spine (open_grp kvs)). split_at kvs < fst b"
      using spine_deeper [OF wf_entries_open_grp agree_open_grp] "1.prems"(1) True by blast
    ultimately show ?thesis
      using split_at_less [OF True]
      by (simp add: stack_ok_def spine.simps [of kvs] True sorted_wrt_append)
  next
    case False
    then show ?thesis by (simp add: stack_ok_def spine.simps [of kvs])
  qed
qed

lemma deeper_shallower: "deeper l stk @ shallower l stk = stk"
  by (simp add: deeper_def shallower_def)

end
