(* ===== verification/Ethrex_Builder.thy ===== *)
theory Ethrex_Builder
  imports Ethrex_Node Trie_Stream
begin

text \<open>
  The streaming trie builder of \<open>internal/ethrex/builder.go\<close>: \<open>NewBuilder\<close>, \<open>AddLeaf\<close>, \<open>insert\<close>,
  \<open>foldTo\<close>, \<open>finalizeBranch\<close>, \<open>emitLeafRows\<close> and \<open>Root\<close>.

  The Go stack grows at the end of a slice; here the top of the stack is the head of a list.  The
  sink is a closure with state: it is a function from a row and a world to a new world or an error.
  An index or slice bound that Go would reject is the error \<open>IndexOutOfRange\<close>.  After an error the
  callers abandon the builder, so an error carries no state.

  The theorem of this theory is that the builder's output does not depend on its streaming
  algorithm at all: for strictly ascending keys of one length it hands the sink exactly the rows of
  the reference trie, in order, returns the hash of that trie, and fails exactly when the sink does.
\<close>

section \<open>State\<close>

type_synonym row = "bytes \<times> bytes"

type_synonym ('w, 'e) sink = "row \<Rightarrow> 'w \<Rightarrow> 'e + 'w"

datatype 'e build_error =
    KeysOutOfOrder
  | KeyLength nat int
  | IndexOutOfRange
  | SinkError 'e

record openBranch =
  depth :: nat
  children :: "bytes list"

record 'w builder =
  started :: bool
  keyLen :: int
  prevKey :: bytes
  prevVal :: bytes
  stack :: "openBranch list"
  leafCount :: int
  world :: 'w

definition ethrex_NewBuilder :: "'w \<Rightarrow> 'w builder" where
  "ethrex_NewBuilder w =
     \<lparr>started = False, keyLen = -1, prevKey = [], prevVal = [], stack = [], leafCount = 0,
      world = w\<rparr>"

definition newOpenBranch :: "nat \<Rightarrow> openBranch" where
  "newOpenBranch d = \<lparr>depth = d, children = replicate 16 []\<rparr>"

text \<open>The constant \<open>EmptyTrieHashHex\<close>, decoded.\<close>

definition EmptyTrieHash :: bytes where
  "EmptyTrieHash =
     [0x56, 0xe8, 0x1f, 0x17, 0x1b, 0xcc, 0x55, 0xa6, 0xff, 0x83, 0x45, 0xe6, 0x92, 0xc0, 0xf8, 0x6e,
      0x5b, 0x48, 0xe0, 0x1b, 0x99, 0x6c, 0xad, 0xc0, 0x01, 0x62, 0x2f, 0xb5, 0xe3, 0x63, 0xb4, 0x21]"

section \<open>Operations\<close>

definition callSink :: "('w, 'e) sink \<Rightarrow> row \<Rightarrow> 'w \<Rightarrow> 'e build_error + 'w" where
  "callSink sink r w = (case sink r w of Inl e \<Rightarrow> Inl (SinkError e) | Inr w' \<Rightarrow> Inr w')"

definition goSlice :: "nat \<Rightarrow> nat \<Rightarrow> bytes \<Rightarrow> 'e build_error + bytes" where
  "goSlice i j b = (if i \<le> j \<and> j \<le> length b then Inr (subslice i j b) else Inl IndexOutOfRange)"

text \<open>\<open>x.children[prevKey[d]] = ref\<close>\<close>

definition setChild :: "bytes \<Rightarrow> nat \<Rightarrow> bytes \<Rightarrow> openBranch \<Rightarrow> 'e build_error + openBranch" where
  "setChild key d ref br =
     (if d < length key \<and> nib key d < 16
      then Inr (br\<lparr>children := (children br)[nib key d := ref]\<rparr>)
      else Inl IndexOutOfRange)"

definition emitLeafRows ::
  "('w, 'e) sink \<Rightarrow> bytes \<Rightarrow> bytes \<Rightarrow> bytes \<Rightarrow> 'w \<Rightarrow> 'e build_error + bytes \<times> 'w" where
  "emitLeafRows sink path rem val w =
     (let nodeRLP = EncodeLeaf rem val in
      bindE (callSink sink (path, nodeRLP) w) (\<lambda>w.
      bindE (callSink sink (path @ rem @ [LeafFlag], val) w) (\<lambda>w.
      Inr (nodeRLP, w))))"

definition ethrex_finalizeBranch ::
  "digest \<Rightarrow> ('w, 'e) sink \<Rightarrow> bytes \<Rightarrow> openBranch \<Rightarrow> int \<Rightarrow> 'w \<Rightarrow> 'e build_error + bytes \<times> 'w" where
  "ethrex_finalizeBranch keccak sink key p parentDepth w =
     (let branchRLP = EncodeBranch keccak (children p) [] in
      bindE (goSlice 0 (depth p) key) (\<lambda>path.
      bindE (callSink sink (path, branchRLP) w) (\<lambda>w.
      let extLen = int (depth p) - parentDepth - 1 in
      if extLen > 0 then
        bindE (goSlice (nat (parentDepth + 1)) (depth p) key) (\<lambda>pfx.
        let extRLP = EncodeExtension keccak pfx branchRLP in
        bindE (goSlice 0 (nat (parentDepth + 1)) key) (\<lambda>path.
        bindE (callSink sink (path, extRLP) w) (\<lambda>w.
        Inr (extRLP, w))))
      else Inr (branchRLP, w))))"

fun ethrex_foldTo ::
  "digest \<Rightarrow> ('w, 'e) sink \<Rightarrow> bytes \<Rightarrow> nat \<Rightarrow> openBranch list \<Rightarrow> 'w
    \<Rightarrow> 'e build_error + openBranch list \<times> 'w" where
  "ethrex_foldTo keccak sink key lcp [] w = Inl IndexOutOfRange"
| "ethrex_foldTo keccak sink key lcp [p] w =
     bindE (ethrex_finalizeBranch keccak sink key p (int lcp) w) (\<lambda>(pref, w).
     bindE (setChild key lcp pref (newOpenBranch lcp)) (\<lambda>nb.
     Inr ([nb], w)))"
| "ethrex_foldTo keccak sink key lcp (p # parent # rest) w =
     (let parentIsDeep = depth parent > lcp;
          parentDepth = (if parentIsDeep then int (depth parent) else int lcp)
      in
      bindE (ethrex_finalizeBranch keccak sink key p parentDepth w) (\<lambda>(pref, w).
      if parentIsDeep then
        bindE (setChild key (depth parent) pref parent) (\<lambda>parent.
        ethrex_foldTo keccak sink key lcp (parent # rest) w)
      else if depth parent = lcp then
        bindE (setChild key lcp pref parent) (\<lambda>tp.
        Inr (tp # rest, w))
      else
        bindE (setChild key lcp pref (newOpenBranch lcp)) (\<lambda>nb.
        Inr (nb # parent # rest, w))))"

definition ethrex_insert ::
  "digest \<Rightarrow> ('w, 'e) sink \<Rightarrow> 'w builder \<Rightarrow> bytes \<Rightarrow> 'e build_error + 'w builder" where
  "ethrex_insert keccak sink b key =
     (let lcp = commonPrefixLen (prevKey b) key;
          dTop = (case stack b of [] \<Rightarrow> -1 | tp # _ \<Rightarrow> int (depth tp));
          d = nat (max (int lcp) dTop)
      in
      bindE (goSlice 0 (d + 1) (prevKey b)) (\<lambda>path.
      bindE (goSlice (d + 1) (length (prevKey b)) (prevKey b)) (\<lambda>rem.
      bindE (emitLeafRows sink path rem (prevVal b) (world b)) (\<lambda>(prevLeafRLP, w).
      if int d > dTop then
        bindE (setChild (prevKey b) d prevLeafRLP (newOpenBranch d)) (\<lambda>nb.
        Inr (b\<lparr>stack := nb # stack b, world := w\<rparr>))
      else
        (case stack b of
           [] \<Rightarrow> Inl IndexOutOfRange
         | tp # rest \<Rightarrow>
             bindE (setChild (prevKey b) (nat dTop) prevLeafRLP tp) (\<lambda>tp.
             if int lcp = dTop then Inr (b\<lparr>stack := tp # rest, world := w\<rparr>)
             else
               bindE (ethrex_foldTo keccak sink (prevKey b) lcp (tp # rest) w) (\<lambda>(stk, w).
               Inr (b\<lparr>stack := stk, world := w\<rparr>))))))))"

definition ethrex_AddLeaf ::
  "digest \<Rightarrow> ('w, 'e) sink \<Rightarrow> 'w builder \<Rightarrow> bytes \<Rightarrow> bytes \<Rightarrow> 'e build_error + 'w builder" where
  "ethrex_AddLeaf keccak sink b keyNibbles val =
     (if \<not> started b then
        Inr (b\<lparr>started := True, keyLen := int (length keyNibbles), prevKey := keyNibbles,
               prevVal := val, leafCount := 1\<rparr>)
      else if bytesCompare keyNibbles (prevKey b) \<le> 0 then Inl KeysOutOfOrder
      else if int (length keyNibbles) \<noteq> keyLen b then
        Inl (KeyLength (length keyNibbles) (keyLen b))
      else
        bindE (ethrex_insert keccak sink b keyNibbles) (\<lambda>b.
        Inr (b\<lparr>leafCount := leafCount b + 1, prevKey := keyNibbles, prevVal := val\<rparr>)))"

text \<open>The loop of \<open>Root\<close> that folds the whole spine.\<close>

fun ethrex_foldRoot ::
  "digest \<Rightarrow> ('w, 'e) sink \<Rightarrow> bytes \<Rightarrow> bytes \<Rightarrow> openBranch list \<Rightarrow> 'w
    \<Rightarrow> 'e build_error + bytes \<times> 'w" where
  "ethrex_foldRoot keccak sink key rootRLP [] w = Inr (rootRLP, w)"
| "ethrex_foldRoot keccak sink key rootRLP [p] w =
     bindE (ethrex_finalizeBranch keccak sink key p (-1) w) (\<lambda>(pref, w).
     ethrex_foldRoot keccak sink key pref [] w)"
| "ethrex_foldRoot keccak sink key rootRLP (p # parent # rest) w =
     bindE (ethrex_finalizeBranch keccak sink key p (int (depth parent)) w) (\<lambda>(pref, w).
     bindE (setChild key (depth parent) pref parent) (\<lambda>parent.
     ethrex_foldRoot keccak sink key rootRLP (parent # rest) w))"

definition ethrex_Root ::
  "digest \<Rightarrow> ('w, 'e) sink \<Rightarrow> 'w builder \<Rightarrow> 'e build_error + bytes \<times> 'w builder" where
  "ethrex_Root keccak sink b =
     (if leafCount b = 0 then
        bindE (callSink sink ([], [0x80]) (world b)) (\<lambda>w.
        Inr (EmptyTrieHash, b\<lparr>world := w\<rparr>))
      else
        (case stack b of
           [] \<Rightarrow>
             bindE (emitLeafRows sink [] (prevKey b) (prevVal b) (world b)) (\<lambda>(leafRLP, w).
             Inr (keccak leafRLP, b\<lparr>world := w\<rparr>))
         | tp # rest \<Rightarrow>
             bindE (goSlice 0 (depth tp + 1) (prevKey b)) (\<lambda>path.
             bindE (goSlice (depth tp + 1) (length (prevKey b)) (prevKey b)) (\<lambda>rem.
             bindE (emitLeafRows sink path rem (prevVal b) (world b)) (\<lambda>(prevLeafRLP, w).
             bindE (setChild (prevKey b) (depth tp) prevLeafRLP tp) (\<lambda>tp.
             bindE (ethrex_foldRoot keccak sink (prevKey b) [] (tp # rest) w) (\<lambda>(rootRLP, w).
             Inr (keccak rootRLP, b\<lparr>stack := [], world := w\<rparr>))))))))"

text \<open>A whole build: a fresh builder, one \<open>AddLeaf\<close> per entry, \<open>Root\<close>.\<close>

fun ethrex_AddLeaves ::
  "digest \<Rightarrow> ('w, 'e) sink \<Rightarrow> 'w builder \<Rightarrow> bytes entry list \<Rightarrow> 'e build_error + 'w builder" where
  "ethrex_AddLeaves keccak sink b [] = Inr b"
| "ethrex_AddLeaves keccak sink b ((k, v) # kvs) =
     bindE (ethrex_AddLeaf keccak sink b k v) (\<lambda>b. ethrex_AddLeaves keccak sink b kvs)"

definition ethrex_build ::
  "digest \<Rightarrow> ('w, 'e) sink \<Rightarrow> 'w \<Rightarrow> bytes entry list \<Rightarrow> 'e build_error + bytes \<times> 'w" where
  "ethrex_build keccak sink w kvs =
     bindE (ethrex_AddLeaves keccak sink (ethrex_NewBuilder w) kvs) (\<lambda>b.
     bindE (ethrex_Root keccak sink b) (\<lambda>(h, b). Inr (h, world b)))"

section \<open>Rows of the reference trie\<close>

definition emitRows :: "('w, 'e) sink \<Rightarrow> row list \<Rightarrow> 'w \<Rightarrow> 'e build_error + 'w" where
  "emitRows sink rs w = foldE (callSink sink) rs w"

fun node_rows :: "digest \<Rightarrow> bytes node_event \<Rightarrow> row list" where
  "node_rows keccak (path, Leaf r v) =
     [(path, EncodeLeaf r v), (path @ r @ [LeafFlag], v)]"
| "node_rows keccak (path, Branch pfx cs) =
     (path @ pfx, enc_branch keccak cs)
     # (if pfx = [] then [] else [(path, EncodeExtension keccak pfx (enc_branch keccak cs))])"

definition rows :: "digest \<Rightarrow> bytes node_event list \<Rightarrow> row list" where
  "rows keccak evs = concat (map (node_rows keccak) evs)"

definition trie_rows :: "digest \<Rightarrow> bytes entry list \<Rightarrow> row list" where
  "trie_rows keccak kvs =
     (case mk 0 kvs of None \<Rightarrow> [([], [0x80])] | Some t \<Rightarrow> rows keccak (nodes [] t))"

definition trie_root :: "digest \<Rightarrow> bytes entry list \<Rightarrow> bytes" where
  "trie_root keccak kvs = (case mk 0 kvs of None \<Rightarrow> EmptyTrieHash | Some t \<Rightarrow> keccak (enc keccak t))"

lemma emitRows_simps [simp]:
  "emitRows sink [] w = Inr w"
  "emitRows sink (r # rs) w = bindE (callSink sink r w) (emitRows sink rs)"
  by (simp_all add: emitRows_def [abs_def])

lemma emitRows_append: "emitRows sink (xs @ ys) w = bindE (emitRows sink xs w) (emitRows sink ys)"
  by (simp add: emitRows_def [abs_def] foldE_append)

lemma rows_simps [simp]:
  "rows keccak [] = []" "rows keccak (e # evs) = node_rows keccak e @ rows keccak evs"
  "rows keccak (xs @ ys) = rows keccak xs @ rows keccak ys"
  by (simp_all add: rows_def)

section \<open>The builder follows the reference spine\<close>

definition conc :: "digest \<Rightarrow> bytes open_branch \<Rightarrow> openBranch" where
  "conc keccak b = \<lparr>depth = fst b, children = map (enc_opt keccak) (snd b)\<rparr>"

definition conc_stack :: "digest \<Rightarrow> bytes open_branch list \<Rightarrow> openBranch list" where
  "conc_stack keccak stk = map (conc keccak) stk"

lemma conc_stack_simps [simp]:
  "conc_stack keccak [] = []"
  "conc_stack keccak (b # stk) = conc keccak b # conc_stack keccak stk"
  by (simp_all add: conc_stack_def)

lemma conc_sel [simp]:
  "depth (conc keccak b) = fst b"
  "children (conc keccak b) = map (enc_opt keccak) (snd b)"
  by (simp_all add: conc_def)

lemma newOpenBranch_conc: "newOpenBranch l = conc keccak (l, replicate 16 None)"
  by (simp add: newOpenBranch_def conc_def)

lemma setChild_conc:
  "nibbly key \<Longrightarrow> d < length key \<Longrightarrow>
   setChild key d (enc keccak t) (conc keccak (l, cs)) = Inr (conc keccak (l, put (nib key d) t cs))"
  by (simp add: setChild_def nib_less conc_def map_enc_put)

lemma emitLeafRows_eq:
  "emitLeafRows sink path rem val w =
     bindE (emitRows sink (node_rows keccak (path, Leaf rem val)) w)
       (\<lambda>w. Inr (enc keccak (Leaf rem val), w))"
  by (simp add: emitLeafRows_def Let_def bindE_assoc bindE_def split: sum.splits)

lemma finalizeBranch_eq:
  assumes "q \<le> d" "d \<le> length key" "parentDepth = int q - 1"
  shows "ethrex_finalizeBranch keccak sink key (conc keccak (d, cs)) parentDepth w =
    bindE (emitRows sink (node_rows keccak (take q key, Branch (subslice q d key) cs)) w)
      (\<lambda>w. Inr (enc keccak (Branch (subslice q d key) cs), w))"
proof -
  have e: "subslice q d key = [] \<longleftrightarrow> q = d"
    using assms(1,2) by (auto simp: subslice_empty_iff)
  have path: "take q key @ subslice q d key = take d key"
    using assms(1) by (rule take_append_subslice)
  show ?thesis
  proof (cases "q = d")
    case True
    then show ?thesis
      using assms(2,3)
      by (simp add: ethrex_finalizeBranch_def goSlice_def enc_Branch enc_branch_def Let_def
          bindE_assoc)
  next
    case False
    then show ?thesis
      using assms e path
      by (simp add: ethrex_finalizeBranch_def goSlice_def enc_Branch enc_branch_def Let_def
          bindE_assoc)
  qed
qed

lemma foldTo_eq:
  assumes "nibbly key" "l < length key"
    and "stack_ok key ((d, cs) # hi)" "\<forall>b \<in> set ((d, cs) # hi). l < fst b"
    and "case lo of [] \<Rightarrow> True | b # _ \<Rightarrow> fst b \<le> l"
  shows "ethrex_foldTo keccak sink key l
      (conc_stack keccak ((d, put (nib key d) t cs) # hi @ lo)) w =
    bindE (emitRows sink (rows keccak (carry_nodes key (Suc l) ((d, cs) # hi) t)) w)
      (\<lambda>w. Inr (conc_stack keccak
         (place l (nib key l) (carry key (Suc l) ((d, cs) # hi) t) lo), w))"
  using assms(3,4)
proof (induction hi arbitrary: d cs t w)
  case Nil
  let ?b = "Branch (subslice (Suc l) d key) (put (nib key d) t cs)"
  have fin: "ethrex_finalizeBranch keccak sink key (conc keccak (d, put (nib key d) t cs)) (int l) w =
      bindE (emitRows sink (node_rows keccak (take (Suc l) key, ?b)) w)
        (\<lambda>w. Inr (enc keccak ?b, w))" for w
    using Nil by (intro finalizeBranch_eq) (auto simp: stack_ok_def)
  note set = setChild_conc [OF assms(1,2), of keccak ?b]
  show ?case
  proof (cases lo)
    case Nil
    then show ?thesis
      by (simp add: set fin bindE_assoc newOpenBranch_conc [of l keccak] place_def pos_under_def
          del: node_rows.simps)
  next
    case (Cons b lo')
    then obtain d' cs' where b: "b = (d', cs')" "d' \<le> l" using assms(5) by (cases b) auto
    with Cons show ?thesis
      by (cases "d' = l")
        (simp_all add: set fin bindE_assoc newOpenBranch_conc [of l keccak] place_def pos_under_def
          del: node_rows.simps)
  qed
next
  case (Cons b hi)
  obtain d' cs' where b: "b = (d', cs')" by (cases b)
  let ?b = "Branch (subslice (Suc d') d key) (put (nib key d) t cs)"
  have dd: "l < d'" "d' < d" "d < length key" using Cons.prems b by (auto simp: stack_ok_def)
  have fin: "ethrex_finalizeBranch keccak sink key (conc keccak (d, put (nib key d) t cs)) (int d') w =
      bindE (emitRows sink (node_rows keccak (take (Suc d') key, ?b)) w)
        (\<lambda>w. Inr (enc keccak ?b, w))" for w
    using dd by (intro finalizeBranch_eq) auto
  note set = setChild_conc [OF assms(1), of d']
  have IH: "ethrex_foldTo keccak sink key l
      (conc_stack keccak ((d', put (nib key d') ?b cs') # hi @ lo)) w =
    bindE (emitRows sink (rows keccak (carry_nodes key (Suc l) ((d', cs') # hi) ?b)) w)
      (\<lambda>w. Inr (conc_stack keccak
         (place l (nib key l) (carry key (Suc l) ((d', cs') # hi) ?b) lo), w))" for w
    using Cons.prems b by (intro Cons.IH) (auto simp: stack_ok_def)
  show ?case
    using dd IH
    by (simp add: b fin set bindE_assoc emitRows_append pos_under_def Let_def
        del: node_rows.simps carry_nodes.simps carry.simps)
      (simp add: pos_under_def Let_def emitRows_append bindE_assoc del: node_rows.simps)
qed

lemma foldRoot_eq:
  assumes "nibbly key" "stack_ok key ((d, cs) # hi)"
  shows "ethrex_foldRoot keccak sink key r (conc_stack keccak ((d, put (nib key d) t cs) # hi)) w =
    bindE (emitRows sink (rows keccak (carry_nodes key 0 ((d, cs) # hi) t)) w)
      (\<lambda>w. Inr (enc keccak (carry key 0 ((d, cs) # hi) t), w))"
  using assms(2)
proof (induction hi arbitrary: d cs t w r)
  case Nil
  let ?b = "Branch (subslice 0 d key) (put (nib key d) t cs)"
  have "ethrex_finalizeBranch keccak sink key (conc keccak (d, put (nib key d) t cs)) (-1) w =
      bindE (emitRows sink (node_rows keccak (take 0 key, ?b)) w) (\<lambda>w. Inr (enc keccak ?b, w))"
    using Nil by (intro finalizeBranch_eq) (auto simp: stack_ok_def)
  then show ?case
    by (simp add: bindE_assoc pos_under_def del: node_rows.simps)
next
  case (Cons b hi)
  obtain d' cs' where b: "b = (d', cs')" by (cases b)
  let ?b = "Branch (subslice (Suc d') d key) (put (nib key d) t cs)"
  have dd: "d' < d" "d < length key" using Cons.prems b by (auto simp: stack_ok_def)
  have fin: "ethrex_finalizeBranch keccak sink key (conc keccak (d, put (nib key d) t cs)) (int d') w =
      bindE (emitRows sink (node_rows keccak (take (Suc d') key, ?b)) w)
        (\<lambda>w. Inr (enc keccak ?b, w))" for w
    using dd by (intro finalizeBranch_eq) auto
  note set = setChild_conc [OF assms(1), of d']
  have IH: "ethrex_foldRoot keccak sink key r
      (conc_stack keccak ((d', put (nib key d') ?b cs') # hi)) w =
    bindE (emitRows sink (rows keccak (carry_nodes key 0 ((d', cs') # hi) ?b)) w)
      (\<lambda>w. Inr (enc keccak (carry key 0 ((d', cs') # hi) ?b), w))" for w
    using Cons.prems b by (intro Cons.IH) (auto simp: stack_ok_def)
  show ?case
    using dd IH
    by (simp add: b fin set bindE_assoc emitRows_append pos_under_def Let_def
        del: node_rows.simps carry_nodes.simps carry.simps)
      (simp add: pos_under_def Let_def emitRows_append bindE_assoc del: node_rows.simps)
qed

lemma insert_eq:
  assumes "nibbly (prevKey b)" "l = commonPrefixLen (prevKey b) key" "l < length (prevKey b)"
    and "stack b = conc_stack keccak stk" "stack_ok (prevKey b) stk"
  shows "ethrex_insert keccak sink b key =
    bindE (emitRows sink (rows keccak (step_nodes (prevKey b) (prevVal b) l stk)) (world b))
      (\<lambda>w. Inr (b\<lparr>stack := conc_stack keccak (step (prevKey b) (prevVal b) l stk), world := w\<rparr>))"
proof (cases "deeper l stk")
  case Nil
  then have sh: "shallower l stk = stk" using deeper_shallower [of l stk] by simp
  let ?t = "Leaf (drop (Suc l) (prevKey b)) (prevVal b)"
  have step: "step (prevKey b) (prevVal b) l stk = place l (nib (prevKey b) l) ?t stk"
    "step_nodes (prevKey b) (prevVal b) l stk = [(take (Suc l) (prevKey b), ?t)]"
    by (simp_all add: step_def step_nodes_def Nil sh close_node_def close_nodes_def open_leaf_def
        pos_under_def)
  have "case stk of [] \<Rightarrow> True | t # _ \<Rightarrow> fst t \<le> l"
    using Nil by (cases stk) (auto simp: deeper_def split: if_splits)
  then have d: "nat (max (int l) (case stack b of [] \<Rightarrow> -1 | tp # _ \<Rightarrow> int (depth tp))) = l"
    using assms(4) by (cases stk) auto
  note leaf = emitLeafRows_eq [of sink _ _ _ _ keccak]
  note set = setChild_conc [OF assms(1) assms(3), of keccak ?t]
  consider "stk = []" | d' cs' rest where "stk = (d', cs') # rest" "d' < l"
    | cs' rest where "stk = (l, cs') # rest"
    using \<open>case stk of [] \<Rightarrow> True | t # _ \<Rightarrow> fst t \<le> l\<close>
    by (cases stk) (auto simp: le_less)
  then show ?thesis
  proof cases
    case 1
    with assms(3,4) d step show ?thesis
      by (simp add: assms(2) [symmetric] ethrex_insert_def Let_def goSlice_def subslice_def leaf bindE_assoc place_def
          newOpenBranch_conc [of l keccak] set del: node_rows.simps enc.simps)
  next
    case 2
    with assms(3,4) d step show ?thesis
      by (simp add: assms(2) [symmetric] ethrex_insert_def Let_def goSlice_def subslice_def leaf bindE_assoc place_def
          newOpenBranch_conc [of l keccak] set del: node_rows.simps enc.simps)
  next
    case 3
    with assms(3,4) d step show ?thesis
      by (simp add: assms(2) [symmetric] ethrex_insert_def Let_def goSlice_def subslice_def leaf bindE_assoc place_def
          set del: node_rows.simps enc.simps)
  qed
next
  case (Cons b0 hi)
  obtain d cs where b0: "b0 = (d, cs)" by (cases b0)
  let ?lo = "shallower l stk"
  have stk: "stk = (d, cs) # hi @ ?lo"
    using deeper_shallower [of l stk] Cons b0 by simp
  have deep: "\<forall>b \<in> set ((d, cs) # hi). l < fst b"
    using Cons b0 by (metis deeper_def set_takeWhileD)
  have lo: "case ?lo of [] \<Rightarrow> True | b # _ \<Rightarrow> fst b \<le> l"
    by (auto simp: shallower_def dropWhile_eq_Cons_conv not_less split: list.split)
  have "stack_ok (prevKey b) ((d, cs) # hi @ ?lo)" using assms(5) stk by metis
  then have ok: "stack_ok (prevKey b) ((d, cs) # hi)" and dlen: "d < length (prevKey b)"
    by (auto simp: stack_ok_def sorted_wrt_append)
  let ?t = "Leaf (drop (Suc d) (prevKey b)) (prevVal b)"
  have step: "step (prevKey b) (prevVal b) l stk =
      place l (nib (prevKey b) l) (carry (prevKey b) (Suc l) ((d, cs) # hi) ?t) ?lo"
    "step_nodes (prevKey b) (prevVal b) l stk =
      (take (Suc d) (prevKey b), ?t) # carry_nodes (prevKey b) (Suc l) ((d, cs) # hi) ?t"
    by (simp_all add: step_def step_nodes_def Cons b0 close_node_def close_nodes_def open_leaf_def
        pos_under_def)
  have "stack b = conc_stack keccak ((d, cs) # hi @ ?lo)" using assms(4) stk by metis
  moreover note set = setChild_conc [OF assms(1) dlen, of keccak ?t]
    and fold = foldTo_eq [OF assms(1,3) ok deep lo, of keccak sink ?t]
    and leaf = emitLeafRows_eq [of sink _ _ _ _ keccak]
  ultimately show ?thesis
    using assms(3) dlen deep fold
    by (simp add: assms(2) [symmetric] set leaf ethrex_insert_def Let_def goSlice_def subslice_def bindE_assoc step
        emitRows_append del: node_rows.simps enc.simps carry.simps carry_nodes.simps)
qed

section \<open>A whole build\<close>

definition builder_of :: "digest \<Rightarrow> bytes entry list \<Rightarrow> 'w \<Rightarrow> 'w builder" where
  "builder_of keccak kvs w =
     \<lparr>started = True, keyLen = int (length (lkey kvs)), prevKey = lkey kvs, prevVal = lval kvs,
      stack = conc_stack keccak (spine kvs), leafCount = int (length kvs), world = w\<rparr>"

lemma AddLeaf_eq:
  assumes "wf_entries L (kvs @ [(k, v)])" "kvs \<noteq> []"
  shows "ethrex_AddLeaf keccak sink (builder_of keccak kvs w) k v =
    bindE (emitRows sink (rows keccak
        (step_nodes (lkey kvs) (lval kvs) (commonPrefixLen (lkey kvs) k) (spine kvs))) w)
      (\<lambda>w. Inr (builder_of keccak (kvs @ [(k, v)]) w))"
proof -
  let ?b = "builder_of keccak kvs w"
  note wf = wf_snocD [OF assms]
  have "\<not> bytesCompare k (lkey kvs) \<le> 0" "int (length k) = int (length (lkey kvs))"
    using wf by (simp_all add: bytesCompare_le_0)
  moreover have "ethrex_insert keccak sink ?b k =
    bindE (emitRows sink (rows keccak
        (step_nodes (lkey kvs) (lval kvs) (commonPrefixLen (lkey kvs) k) (spine kvs))) w)
      (\<lambda>w. Inr (?b\<lparr>stack := conc_stack keccak
         (step (lkey kvs) (lval kvs) (commonPrefixLen (lkey kvs) k) (spine kvs)), world := w\<rparr>))"
    using insert_eq [of ?b "commonPrefixLen (lkey kvs) k" k keccak "spine kvs" sink]
      cpl_less [OF assms] wf assms(2) stack_ok_spine [OF wf(1) assms(2)]
      wf_entries_lkey [OF wf(1) assms(2)]
    by (simp add: builder_of_def)
  ultimately show ?thesis
    using spine_snoc [OF assms] wf
    by (simp add: ethrex_AddLeaf_def builder_of_def bindE_assoc add.commute)
qed

lemma AddLeaves_append:
  "ethrex_AddLeaves keccak sink b (xs @ ys) =
     bindE (ethrex_AddLeaves keccak sink b xs) (\<lambda>b. ethrex_AddLeaves keccak sink b ys)"
  by (induction xs arbitrary: b) (auto simp: bindE_assoc)

lemma AddLeaves_eq:
  assumes "wf_entries L kvs" "kvs \<noteq> []"
  shows "ethrex_AddLeaves keccak sink (ethrex_NewBuilder w) kvs =
    bindE (emitRows sink (rows keccak (closed kvs)) w) (\<lambda>w. Inr (builder_of keccak kvs w))"
  using assms
proof (induction kvs rule: rev_induct)
  case Nil
  then show ?case by simp
next
  case (snoc x kvs)
  obtain k v where x: "x = (k, v)" by (cases x)
  show ?case
  proof (cases "kvs = []")
    case True
    then show ?thesis
      by (simp add: x ethrex_AddLeaf_def ethrex_NewBuilder_def builder_of_def lkey_def lval_def)
  next
    case False
    have "wf_entries L kvs" using snoc.prems(1) by (simp add: wf_entries_append)
    then show ?thesis
      using snoc.IH False AddLeaf_eq [OF snoc.prems(1) [unfolded x] False, of keccak sink]
        closed_snoc [OF snoc.prems(1) [unfolded x] False]
      by (simp add: AddLeaves_append x bindE_assoc emitRows_append)
  qed
qed

lemma Root_eq:
  assumes "wf_entries L kvs" "kvs \<noteq> []"
  shows "bindE (ethrex_Root keccak sink (builder_of keccak kvs w)) (\<lambda>(h, b). Inr (h, world b)) =
    bindE (emitRows sink (rows keccak (close_nodes (lkey kvs) (lval kvs) 0 (spine kvs))) w)
      (\<lambda>w. Inr (keccak (enc keccak (close_node (lkey kvs) (lval kvs) 0 (spine kvs))), w))"
proof (cases "spine kvs")
  case Nil
  then show ?thesis
    using assms(2) emitLeafRows_eq [of sink "[]" "lkey kvs" "lval kvs" w keccak]
    by (simp add: ethrex_Root_def builder_of_def close_nodes_def close_node_def open_leaf_def
        pos_under_def bindE_assoc)
next
  case (Cons b hi)
  obtain d cs where b: "b = (d, cs)" by (cases b)
  have key: "nibbly (lkey kvs)" using wf_entries_lkey [OF assms] by simp
  have ok: "stack_ok (lkey kvs) ((d, cs) # hi)" using stack_ok_spine [OF assms] Cons b by simp
  then have d: "d < length (lkey kvs)" by (simp add: stack_ok_def)
  let ?t = "Leaf (drop (Suc d) (lkey kvs)) (lval kvs)"
  note set = setChild_conc [OF key d, of keccak ?t]
    and leaf = emitLeafRows_eq [of sink _ _ _ _ keccak]
    and fold = foldRoot_eq [OF key ok, of keccak sink "[]" ?t]
  show ?thesis
    using assms(2) d fold
    by (simp add: ethrex_Root_def builder_of_def Cons b goSlice_def subslice_def set leaf bindE_assoc
        close_nodes_def close_node_def open_leaf_def pos_under_def emitRows_append
        del: node_rows.simps enc.simps carry.simps carry_nodes.simps)
qed

text \<open>
  The builder hands the sink the rows of the reference trie, in order, returns its root hash, and
  fails exactly when the sink rejects one of those rows.
\<close>

lemma ethrex_build_eq:
  assumes "wf_entries L kvs"
  shows "ethrex_build keccak sink w kvs =
    bindE (emitRows sink (trie_rows keccak kvs) w) (\<lambda>w. Inr (trie_root keccak kvs, w))"
proof (cases "kvs = []")
  case True
  then show ?thesis
    by (simp add: ethrex_build_def ethrex_Root_def ethrex_NewBuilder_def trie_rows_def
        trie_root_def bindE_assoc)
next
  case False
  have mk: "mk 0 kvs = Some (close_node (lkey kvs) (lval kvs) 0 (spine kvs))"
    using assms False by (rule mk_spine)
  have "nodes [] (close_node (lkey kvs) (lval kvs) 0 (spine kvs)) =
      closed kvs @ close_nodes (lkey kvs) (lval kvs) 0 (spine kvs)"
    using nodes_mk [OF assms False agree_0] by (simp add: mk)
  then show ?thesis
    using Root_eq [OF assms False, of keccak sink] AddLeaves_eq [OF assms False, of keccak sink w]
    by (simp add: ethrex_build_def bindE_assoc trie_rows_def trie_root_def mk emitRows_append)
qed

section \<open>Leaf rows\<close>

definition leaf_entry :: "'v node_event \<Rightarrow> 'v entry list" where
  "leaf_entry ev = (case ev of (path, Leaf r v) \<Rightarrow> [(path @ r, v)] | _ \<Rightarrow> [])"

definition leaf_entries :: "'v node_event list \<Rightarrow> 'v entry list" where
  "leaf_entries evs = concat (map leaf_entry evs)"

lemma leaf_entries_append [simp]: "leaf_entries (xs @ ys) = leaf_entries xs @ leaf_entries ys"
  by (simp add: leaf_entries_def)

lemma leaf_entries_carry [simp]: "leaf_entries (carry_nodes key p stk t) = []"
  by (induction key p stk t rule: carry_nodes.induct)
    (simp_all add: leaf_entries_def leaf_entry_def Let_def)

lemma leaf_entries_close [simp]: "leaf_entries (close_nodes key val p stk) = [(key, val)]"
  using leaf_entries_carry [of key p stk]
  by (simp add: close_nodes_def open_leaf_def leaf_entries_def leaf_entry_def)

text \<open>Every node sits on a prefix of a key, and so does the branch below an extension.\<close>

definition on_key :: "bytes \<Rightarrow> 'v node_event \<Rightarrow> bool" where
  "on_key key ev = (\<exists>q. fst ev = take q key \<and>
     (case snd ev of Leaf _ _ \<Rightarrow> True | Branch pfx _ \<Rightarrow> \<exists>d. take q key @ pfx = take d key))"

lemma subslice_prefix: "\<exists>d. take q key @ subslice q r key = take d key"
  by (metis append_Nil2 linorder_le_cases subslice_def diff_is_0_eq take_0 take_append_subslice)

lemma on_key_carry: "ev \<in> set (carry_nodes key p stk t) \<Longrightarrow> on_key key ev"
  by (induction key p stk t rule: carry_nodes.induct)
    (auto simp: on_key_def Let_def subslice_prefix)

lemma on_key_close: "ev \<in> set (close_nodes key val p stk) \<Longrightarrow> on_key key ev"
  by (auto simp: close_nodes_def open_leaf_def on_key_carry) (auto simp: on_key_def)

lemma closed_leaf_entries:
  assumes "wf_entries L kvs" "kvs \<noteq> []"
  shows "leaf_entries (closed kvs) = butlast kvs \<and>
    (\<forall>ev \<in> set (closed kvs). \<exists>kv \<in> set kvs. on_key (fst kv) ev)"
  using assms
proof (induction kvs rule: rev_induct)
  case (snoc x kvs)
  show ?case
  proof (cases "kvs = []")
    case True
    then show ?thesis by (simp add: leaf_entries_def)
  next
    case False
    have IH: "leaf_entries (closed kvs) = butlast kvs"
      "\<forall>ev \<in> set (closed kvs). \<exists>kv \<in> set kvs. on_key (fst kv) ev"
      using snoc.IH False snoc.prems(1) by (simp_all add: wf_entries_append)
    have l: "(lkey kvs, lval kvs) = last kvs" by (simp add: lkey_def lval_def)
    have "\<exists>kv \<in> set (kvs @ [x]). on_key (fst kv) ev"
      if "ev \<in> set (step_nodes (lkey kvs) (lval kvs) m (spine kvs))" for ev m
      using on_key_close [of ev "lkey kvs" "lval kvs"] that False
      by (auto simp: step_nodes_def lkey_def intro!: bexI [of _ "last kvs"])
    then show ?thesis
      using IH False l closed_snoc [OF snoc.prems(1) False]
      by (auto simp: step_nodes_def append_butlast_last_id)
  qed
qed simp

lemma nodes_leaf_entries:
  assumes "wf_entries L kvs" "mk 0 kvs = Some t"
  shows "leaf_entries (nodes [] t) = kvs"
    and "ev \<in> set (nodes [] t) \<Longrightarrow> \<exists>kv \<in> set kvs. on_key (fst kv) ev"
proof -
  have ne: "kvs \<noteq> []" using assms(2) by auto
  have n: "nodes [] t = closed kvs @ close_nodes (lkey kvs) (lval kvs) 0 (spine kvs)"
    using nodes_mk [OF assms(1) ne agree_0] assms(2) by simp
  have l: "(lkey kvs, lval kvs) = last kvs" by (simp add: lkey_def lval_def)
  show "leaf_entries (nodes [] t) = kvs"
    using closed_leaf_entries [OF assms(1) ne] l ne by (simp add: n)
  show "\<exists>kv \<in> set kvs. on_key (fst kv) ev" if "ev \<in> set (nodes [] t)"
  proof (cases "ev \<in> set (closed kvs)")
    case True
    then show ?thesis using closed_leaf_entries [OF assms(1) ne] by blast
  next
    case False
    then have "on_key (lkey kvs) ev"
      using that on_key_close [of ev "lkey kvs" "lval kvs"] by (auto simp: n)
    then show ?thesis using last_in_set [OF ne] unfolding lkey_def by blast
  qed
qed

definition is_leaf_row :: "row \<Rightarrow> bool" where
  "is_leaf_row r \<longleftrightarrow> fst r \<noteq> [] \<and> last (fst r) = LeafFlag"

lemma nibbly_take_not_leaf: "nibbly key \<Longrightarrow> \<not> is_leaf_row (take q key, v)"
proof
  assume n: "nibbly key" and "is_leaf_row (take q key, v)"
  then have "LeafFlag \<in> set key"
    unfolding is_leaf_row_def by (metis fst_conv in_set_takeD last_in_set)
  with n show False by (auto simp: nibbly_def LeafFlag_def)
qed

lemma leaf_rows_of_node:
  assumes "on_key key ev" "nibbly key"
  shows "filter is_leaf_row (node_rows keccak ev) =
    map (\<lambda>(k, v). (k @ [LeafFlag], v)) (leaf_entry ev)"
proof (cases ev)
  case (Pair path node)
  show ?thesis
  proof (cases node)
    case (Leaf r v)
    with assms Pair show ?thesis
      using nibbly_take_not_leaf [OF assms(2)]
      by (auto simp: on_key_def leaf_entry_def) (simp add: is_leaf_row_def)
  next
    case (Branch pfx cs)
    then obtain q d where "path = take q key" "path @ pfx = take d key"
      using assms(1) Pair by (auto simp: on_key_def)
    with Branch Pair show ?thesis
      using nibbly_take_not_leaf [OF assms(2)] by (simp add: leaf_entry_def)
  qed
qed

lemma leaf_rows_eq:
  assumes "wf_entries L kvs"
  shows "filter is_leaf_row (trie_rows keccak kvs) = map (\<lambda>(k, v). (k @ [LeafFlag], v)) kvs"
proof (cases "mk 0 kvs")
  case None
  then have "kvs = []" using mk_spine [OF assms] by fastforce
  then show ?thesis by (simp add: trie_rows_def is_leaf_row_def)
next
  case (Some t)
  have *: "filter is_leaf_row (rows keccak evs) =
      map (\<lambda>(k, v). (k @ [LeafFlag], v)) (leaf_entries evs)"
    if "\<forall>ev \<in> set evs. \<exists>key. on_key key ev \<and> nibbly key" for evs
    using that
  proof (induction evs)
    case (Cons ev evs)
    then obtain key where "on_key key ev" "nibbly key" by auto
    then show ?case
      using Cons leaf_rows_of_node [of key ev keccak] by (simp add: leaf_entries_def)
  qed (simp add: leaf_entries_def)
  have "\<forall>ev \<in> set (nodes [] t). \<exists>key. on_key key ev \<and> nibbly key"
    using nodes_leaf_entries(2) [OF assms Some] wf_entriesD(2) [OF assms] by blast
  from * [OF this] show ?thesis
    by (simp add: trie_rows_def Some nodes_leaf_entries(1) [OF assms Some])
qed

section \<open>Arbitrary input\<close>

lemma emitRows_SinkError: "emitRows sink rs w = Inl e \<Longrightarrow> \<exists>e'. e = SinkError e'"
proof (induction rs arbitrary: w)
  case (Cons r rs)
  then show ?case
    by (auto simp: bindE_def callSink_def split: sum.splits)
qed simp

lemma AddLeaf_reject:
  assumes "wf_entries L kvs" "kvs \<noteq> []" "nibbly k" "\<not> wf_entries L (kvs @ [(k, v)])"
  shows "ethrex_AddLeaf keccak sink (builder_of keccak kvs w) k v =
    Inl (if bytesLess (lkey kvs) k then KeyLength (length k) (int L) else KeysOutOfOrder)"
proof -
  have len: "length (lkey kvs) = L" using wf_entries_lkey [OF assms(1,2)] by simp
  have "length k \<noteq> L" if "bytesLess (lkey kvs) k"
  proof
    assume l: "length k = L"
    have "bytesLess (fst kv) k" if "kv \<in> set kvs" for kv
      using wf_entries_le_lkey [OF assms(1) that] \<open>bytesLess (lkey kvs) k\<close> bytesLess_trans by metis
    then have "wf_entries L (kvs @ [(k, v)])"
      using assms(1,3) l by (simp add: wf_entries_append) (simp add: wf_entries_def)
    with assms(4) show False by simp
  qed
  then show ?thesis
    using len by (simp add: ethrex_AddLeaf_def builder_of_def bytesCompare_le_0)
qed

definition clean_error :: "'e build_error + 'a \<Rightarrow> bool" where
  "clean_error r \<longleftrightarrow> (\<exists>e. r = Inl e \<and> e \<noteq> IndexOutOfRange)"

lemma emitRows_clean: "emitRows sink rs w = Inl e \<Longrightarrow> e \<noteq> IndexOutOfRange"
  using emitRows_SinkError by fastforce

lemma AddLeaves_total:
  assumes "\<forall>kv \<in> set kvs. nibbly (fst kv)" "kvs \<noteq> []"
  shows "wf_entries (length (fkey kvs)) kvs \<or>
    clean_error (ethrex_AddLeaves keccak sink (ethrex_NewBuilder w) kvs)"
  using assms
proof (induction kvs rule: rev_induct)
  case (snoc x kvs)
  obtain k v where x: "x = (k, v)" by (cases x)
  show ?case
  proof (cases "kvs = []")
    case True
    with snoc.prems show ?thesis by (simp add: wf_entries_def fkey_def)
  next
    case ne: False
    let ?L = "length (fkey kvs)"
    let ?r = "ethrex_AddLeaves keccak sink (ethrex_NewBuilder w) kvs"
    consider "clean_error ?r" | "wf_entries ?L kvs" "wf_entries ?L (kvs @ [x])"
      | "wf_entries ?L kvs" "\<not> wf_entries ?L (kvs @ [x])"
      using snoc ne by auto
    then show ?thesis
    proof cases
      case 1
      then show ?thesis by (auto simp: clean_error_def AddLeaves_append)
    next
      case 2
      then show ?thesis using ne by simp
    next
      case 3
      have "nibbly k" using snoc.prems(1) x by simp
      note rej = AddLeaf_reject [OF 3(1) ne this 3(2) [unfolded x], of keccak sink]
      show ?thesis
      proof (cases "emitRows sink (rows keccak (closed kvs)) w")
        case (Inl e)
        then show ?thesis
          using AddLeaves_eq [OF 3(1) ne, of keccak sink w] emitRows_clean [OF Inl]
          by (simp add: clean_error_def AddLeaves_append)
      next
        case (Inr w')
        then show ?thesis
          using AddLeaves_eq [OF 3(1) ne, of keccak sink w] rej
          by (simp add: clean_error_def AddLeaves_append x)
      qed
    qed
  qed
qed simp

section \<open>Properties\<close>

text \<open>
  C1: Streaming construction equals the reference.  For strictly ascending keys of one length, made
  of nibbles, the builder hands the sink exactly the rows of the reference trie, in the order
  children before parents, returns the hash of that trie (the empty-trie hash for no keys), and
  fails just when the sink rejects one of those rows, at that row.
\<close>

theorem ethrex_builder_equals_reference:
  assumes "wf_entries L kvs"
  shows "ethrex_build keccak sink w kvs =
    bindE (emitRows sink (trie_rows keccak kvs) w) (\<lambda>w. Inr (trie_root keccak kvs, w))"
  using assms by (rule ethrex_build_eq)

theorem ethrex_builder_equals_reference_witness:
  "ethrex_build (\<lambda>x. replicate 32 0) (\<lambda>r w. Inr (w @ [r])) [] [([1, 2], [7]), ([1, 5], [8])] =
   bindE (emitRows (\<lambda>r w. Inr (w @ [r]))
       (trie_rows (\<lambda>x. replicate 32 0) [([1, 2], [7]), ([1, 5], [8])]) [])
     (\<lambda>w. Inr (trie_root (\<lambda>x. replicate 32 0) [([1, 2], [7]), ([1, 5], [8])], w) ::
       unit build_error + _)"
  using ethrex_builder_equals_reference [of 2 "[([1, 2], [7]), ([1, 5], [8])]"]
  by (simp add: wf_entries_def nibbly_def bytesLess_def)

text \<open>
  The leaf rows are exactly the input.  Among the rows the builder emits, those whose path ends
  in the leaf flag are the given entries, each under its full key followed by the flag, in order
  and with nothing added or lost.
\<close>

theorem ethrex_leaf_rows_are_entries:
  assumes "wf_entries L kvs"
  shows "\<exists>rs. ethrex_build keccak (\<lambda>r w. Inr (w @ [r])) [] kvs =
      (Inr (trie_root keccak kvs, rs) :: unit build_error + _) \<and>
    filter is_leaf_row rs = map (\<lambda>(k, v). (k @ [LeafFlag], v)) kvs"
proof -
  have rec: "emitRows (\<lambda>r w. Inr (w @ [r])) rs w = (Inr (w @ rs) :: unit build_error + _)"
    for rs :: "row list" and w
    by (induction rs arbitrary: w) (simp_all add: callSink_def)
  show ?thesis by (simp add: ethrex_build_eq [OF assms] rec leaf_rows_eq [OF assms])
qed

theorem ethrex_leaf_rows_are_entries_witness:
  "\<exists>rs. ethrex_build (\<lambda>x. replicate 32 0) (\<lambda>r w. Inr (w @ [r])) [] [([1, 2], [7]), ([1, 5], [8])] =
      (Inr (trie_root (\<lambda>x. replicate 32 0) [([1, 2], [7]), ([1, 5], [8])], rs) ::
        unit build_error + _) \<and>
    filter is_leaf_row rs = [([1, 2, 16], [7]), ([1, 5, 16], [8])]"
  using ethrex_leaf_rows_are_entries [of 2 "[([1, 2], [7]), ([1, 5], [8])]" "\<lambda>x. replicate 32 0"]
  by (simp add: wf_entries_def nibbly_def bytesLess_def LeafFlag_def)

text \<open>
  C17: No sequence of nibble keys makes the builder index out of range.  For any entries at all, in
  any order and of any lengths, a build succeeds or ends with one of the declared errors; it never
  reaches an index or slice bound that would panic.
\<close>

theorem ethrex_builder_never_panics:
  assumes "\<forall>kv \<in> set kvs. nibbly (fst kv)"
  shows "ethrex_build keccak sink w kvs \<noteq> Inl IndexOutOfRange"
proof (cases "kvs = []")
  case True
  then have "wf_entries 0 kvs" by (simp add: wf_entries_def)
  then show ?thesis
    by (auto simp: ethrex_build_eq bindE_def dest: emitRows_clean split: sum.splits)
next
  case False
  then consider "wf_entries (length (fkey kvs)) kvs"
    | "clean_error (ethrex_AddLeaves keccak sink (ethrex_NewBuilder w) kvs)"
    using AddLeaves_total [OF assms False, of keccak sink w] by blast
  then show ?thesis
  proof cases
    case 1
    then show ?thesis
      by (auto simp: ethrex_build_eq bindE_def dest: emitRows_clean split: sum.splits)
  next
    case 2
    then show ?thesis by (auto simp: ethrex_build_def clean_error_def)
  qed
qed

theorem ethrex_builder_never_panics_witness:
  "ethrex_build (\<lambda>x. x) (\<lambda>r w. Inr w) () [([3, 1], [7]), ([1], [8])] \<noteq>
     (Inl IndexOutOfRange :: unit build_error + _)"
  using ethrex_builder_never_panics [of "[([3, 1], [7]), ([1], [8])]" "\<lambda>x. x" "\<lambda>r w. Inr w" "()"]
  by (simp add: nibbly_def)

text \<open>
  C18: Misuse is rejected.  After any accepted sequence of entries, a key that is not greater than the
  last one is refused as out of order, and a greater key of another length as a length mismatch.
\<close>

theorem ethrex_AddLeaf_rejects:
  assumes "wf_entries L kvs" "kvs \<noteq> []" "nibbly k"
    and "\<not> bytesLess (lkey kvs) k \<or> length k \<noteq> L"
    and "ethrex_AddLeaves keccak sink (ethrex_NewBuilder w) kvs = Inr b"
  shows "ethrex_AddLeaf keccak sink b k v =
    Inl (if bytesLess (lkey kvs) k then KeyLength (length k) (int L) else KeysOutOfOrder)"
proof -
  obtain w' where b: "b = builder_of keccak kvs w'"
    using assms(5) by (auto simp: AddLeaves_eq [OF assms(1,2)] bindE_eq_Inr)
  have "\<not> wf_entries L (kvs @ [(k, v)])"
    using assms(4) wf_snocD [of L kvs "(k, v)"] assms(2) by auto
  then show ?thesis unfolding b by (rule AddLeaf_reject [OF assms(1-3)])
qed

theorem ethrex_AddLeaf_rejects_witness:
  "ethrex_AddLeaf (\<lambda>x. x) (\<lambda>r w. Inr w) (builder_of (\<lambda>x. x) [([1, 2], [7])] ()) [1, 2] [9] =
     (Inl KeysOutOfOrder :: unit build_error + _)"
proof -
  have "ethrex_AddLeaves (\<lambda>x. x) (\<lambda>r w. Inr w) (ethrex_NewBuilder ()) [([1, 2], [7])] =
      (Inr (builder_of (\<lambda>x. x) [([1, 2], [7])] ()) :: unit build_error + _)"
    by (simp add: ethrex_AddLeaf_def ethrex_NewBuilder_def builder_of_def lkey_def lval_def)
  then show ?thesis
    using ethrex_AddLeaf_rejects [of 2 "[([1, 2], [7])]" "[1, 2]" "\<lambda>x. x" "\<lambda>r w. Inr w" "()"
        "builder_of (\<lambda>x. x) [([1, 2], [7])] ()" "[9]"]
    by (simp add: wf_entries_def nibbly_def lkey_def)
qed

end
