(* ===== verification/Ethrex_Account.thy ===== *)
theory Ethrex_Account
  imports Ethrex_Rlp Ethrex_Builder
begin

text \<open>
  Account, storage-value and bytecode rows of ethrex: \<open>internal/ethrex/account.go\<close>, \<open>code.go\<close>,
  \<open>storage_key.go\<close> and \<open>stream_builder.go\<close>.  A \<open>common.Hash\<close> is a byte list of length 32.
\<close>

section \<open>Accounts and storage values\<close>

definition EncodeAccountState ::
  "(uint256 \<Rightarrow> bytes) \<Rightarrow> u64 \<Rightarrow> uint256 option \<Rightarrow> bytes \<Rightarrow> bytes \<Rightarrow> bytes" where
  "EncodeAccountState uBytes nonce balance storageRoot codeHash =
     (let encNonce = rlpEncodeUint64 nonce;
          encBal = rlpEncodeUint256 uBytes balance;
          encStorage = rlpEncodeBytes storageRoot;
          encCode = rlpEncodeBytes codeHash
      in rlpEncodeListRaw (encNonce @ encBal @ encStorage @ encCode))"

definition EncodeStorageValue :: "(uint256 \<Rightarrow> bytes) \<Rightarrow> uint256 option \<Rightarrow> bytes" where
  "EncodeStorageValue uBytes v = rlpEncodeUint256 uBytes v"

text \<open>The loop \<open>for i < 32 && v[i] == 0\<close>: the index of the first non-zero byte.\<close>

fun leadingZeros :: "bytes \<Rightarrow> nat" where
  "leadingZeros [] = 0"
| "leadingZeros (x # v) = (if x = 0 then Suc (leadingZeros v) else 0)"

definition EncodeStorageValueBytes32 :: "bytes \<Rightarrow> bytes" where
  "EncodeStorageValueBytes32 v = rlpEncodeBytes (drop (leadingZeros v) v)"

definition StorageValueRLPLength :: "bytes \<Rightarrow> nat" where
  "StorageValueRLPLength v =
     (let i = leadingZeros v; n = 32 - i in
      if n = 1 \<and> v ! i < 0x80 then 1
      else if n = 0 then 1
      else 1 + n)"

section \<open>Bytecode\<close>

text \<open>The scanning loop of \<open>ComputeJumpdestBitmap\<close>.\<close>

function jumpdestScan :: "bytes \<Rightarrow> nat \<Rightarrow> bytes \<Rightarrow> bool \<Rightarrow> bytes \<times> bool" where
  "jumpdestScan code i bitmap found =
     (if i < length code then
        (let opc = code ! i in
         if opc = 0x5B then
           jumpdestScan code (i + 1)
             (bitmap[i div 8 := bitmap ! (i div 8) OR push_bit (i mod 8) 1]) True
         else if 0x60 \<le> opc \<and> opc \<le> 0x7F then
           jumpdestScan code (i + (unat (opc - 0x5F) + 1)) bitmap found
         else jumpdestScan code (i + 1) bitmap found)
      else (bitmap, found))"
  by pat_completeness auto
termination
  by (relation "measure (\<lambda>(code, i, _). length code - i)") auto

declare jumpdestScan.simps [simp del]

definition ComputeJumpdestBitmap :: "bytes \<Rightarrow> bytes" where
  "ComputeJumpdestBitmap code =
     (let (bitmap, found) = jumpdestScan code 0 (replicate ((length code + 7) div 8) 0) False
      in if found then bitmap else [])"

definition EncodeCode :: "bytes \<Rightarrow> bytes" where
  "EncodeCode code = rlpEncodeBytes code @ rlpEncodeBytes (ComputeJumpdestBitmap code)"

definition CodeLengthMetadata :: "bytes \<Rightarrow> bytes" where
  "CodeLengthMetadata code =
     (let n = of_nat (length code) :: u64
      in map (\<lambda>s. ucast (drop_bit s n)) [56, 48, 40, 32, 24, 16, 8, 0])"

section \<open>Storage tries\<close>

definition StoragePrefix :: "bytes \<Rightarrow> bytes" where
  "StoragePrefix addrHash = BytesToNibbles addrHash @ [LeafFlag, StorageSeparator]"

definition PrefixedSink :: "bytes \<Rightarrow> ('w, 'e) sink \<Rightarrow> ('w, 'e) sink" where
  "PrefixedSink addrHash sink =
     (let pfx = StoragePrefix addrHash in (\<lambda>(path, val) w. sink (pfx @ path, val) w))"

definition SuppressEmptyTrieSentinel :: "('w, 'e) sink \<Rightarrow> ('w, 'e) sink" where
  "SuppressEmptyTrieSentinel sink =
     (\<lambda>(path, val) w.
        if length path = 0 \<and> length val = 1 \<and> val ! 0 = 0x80 then Inr w else sink (path, val) w)"

text \<open>\<open>StreamHashBuilder\<close> expands each 32-byte key hash and delegates to the builder.\<close>

definition NewStreamHashBuilder :: "'w \<Rightarrow> 'w builder" where
  "NewStreamHashBuilder w = ethrex_NewBuilder w"

definition StreamHashBuilder_AddLeaf ::
  "digest \<Rightarrow> ('w, 'e) sink \<Rightarrow> 'w builder \<Rightarrow> bytes \<Rightarrow> bytes \<Rightarrow> 'e build_error + 'w builder" where
  "StreamHashBuilder_AddLeaf keccak sink b keyHash valueRLP =
     ethrex_AddLeaf keccak sink b (BytesToNibbles keyHash) valueRLP"

definition StreamHashBuilder_Root ::
  "digest \<Rightarrow> ('w, 'e) sink \<Rightarrow> 'w builder \<Rightarrow> 'e build_error + bytes \<times> 'w builder" where
  "StreamHashBuilder_Root keccak sink b = ethrex_Root keccak sink b"

section \<open>Encoded accounts can be read back\<close>

lemma length_rlpEncodeBytes_short: "length b \<le> 55 \<Longrightarrow> length (rlpEncodeBytes b) \<le> Suc (length b)"
  by (auto simp: rlpEncodeBytes_def Let_def)

lemma length_rlpEncodeUint64: "length (rlpEncodeUint64 n) \<le> 9"
proof -
  have "length (minBEBytes (unat n)) \<le> 8"
    using unsigned_less [of n, where ?'a = nat] by (intro length_minBEBytes_8) simp
  then show ?thesis
    using length_rlpEncodeBytes_short [of "minBEBytes (unat n)"]
    by (simp add: rlpEncodeUint64_def minBEBytesU64_def)
qed

lemma length_rlpEncodeUint256:
  assumes "uint256_Bytes_spec uBytes"
  shows "length (rlpEncodeUint256 uBytes v) \<le> 33"
proof -
  have "length (rlpEncodeBytes (minBEBytes (unat n))) \<le> 33" for n :: uint256
  proof -
    have "length (minBEBytes (unat n)) \<le> 32"
      using unsigned_less [of n, where ?'a = nat] length_minBEBytes_le [of "unat n" 32] by simp
    then show ?thesis using length_rlpEncodeBytes_short [of "minBEBytes (unat n)"] by linarith
  qed
  with assms show ?thesis
    by (auto simp: rlpEncodeUint256_def uint256_Bytes_spec_def split: option.split)
qed

text \<open>Reads the four fields of an encoded account.\<close>

definition readAccount :: "bytes \<Rightarrow> (nat \<times> nat \<times> bytes \<times> bytes) option" where
  "readAccount b =
     (case rlpSplit b of
        Some (True, p, []) \<Rightarrow>
          (case rlpSplit p of Some (False, n, r1) \<Rightarrow>
          (case rlpSplit r1 of Some (False, bal, r2) \<Rightarrow>
          (case rlpSplit r2 of Some (False, sr, r3) \<Rightarrow>
          (case rlpSplit r3 of Some (False, ch, []) \<Rightarrow> Some (beNat n, beNat bal, sr, ch)
           | _ \<Rightarrow> None) | _ \<Rightarrow> None) | _ \<Rightarrow> None) | _ \<Rightarrow> None)
      | _ \<Rightarrow> None)"

lemma readAccount_EncodeAccountState:
  assumes "uint256_Bytes_spec uBytes" "length storageRoot = 32" "length codeHash = 32"
  shows "readAccount (EncodeAccountState uBytes nonce balance storageRoot codeHash) =
    Some (unat nonce, (case balance of None \<Rightarrow> 0 | Some v \<Rightarrow> unat v), storageRoot, codeHash)"
proof -
  let ?p = "rlpEncodeUint64 nonce @ rlpEncodeUint256 uBytes balance
    @ rlpEncodeBytes storageRoot @ rlpEncodeBytes codeHash"
  have "length ?p \<le> 9 + 33 + 33 + 33"
    using length_rlpEncodeUint64 [of nonce] length_rlpEncodeUint256 [OF assms(1), of balance]
      length_rlpEncodeBytes_short [of storageRoot] length_rlpEncodeBytes_short [of codeHash] assms
    by simp
  then have "rlpSplit (rlpEncodeListRaw ?p) = Some (True, ?p, [])"
    using rlpSplit_rlpEncodeListRaw [of ?p "[]"] by simp
  moreover have "rlpSplit (rlpEncodeBytes codeHash) = Some (False, codeHash, [])"
    using rlpSplit_rlpEncodeBytes [of codeHash "[]"] assms by simp
  ultimately show ?thesis
    using assms
    by (simp add: readAccount_def EncodeAccountState_def Let_def rlpSplit_rlpEncodeUint64
        rlpSplit_rlpEncodeUint256 rlpSplit_rlpEncodeBytes)
qed

lemma leadingZeros_le: "leadingZeros v \<le> length v"
  by (induction v) auto

lemma StorageValueRLPLength_eq:
  assumes "length v = 32"
  shows "StorageValueRLPLength v = length (EncodeStorageValueBytes32 v)"
proof -
  let ?i = "leadingZeros v"
  have "?i \<le> 32" using leadingZeros_le [of v] assms by simp
  moreover have "?i < 32 \<Longrightarrow> drop ?i v ! 0 = v ! ?i" using assms by simp
  ultimately show ?thesis
    using assms
    by (auto simp: StorageValueRLPLength_def EncodeStorageValueBytes32_def rlpEncodeBytes_def Let_def)
qed

lemma hd_drop_leadingZeros: "drop (leadingZeros v) v = [] \<or> hd (drop (leadingZeros v) v) \<noteq> 0"
  by (induction v) auto

text \<open>
  \<open>EncodeStorageValueBytes32\<close> trims by slicing, \<open>EncodeStorageValue\<close> goes through an integer; on a
  32-byte value both give the same bytes, zero included.
\<close>

lemma beNat_drop_leadingZeros: "beNat (drop (leadingZeros v) v) = beNat v"
  by (induction v) (auto simp: beNat_Cons)

lemma EncodeStorageValueBytes32_eq:
  assumes "uint256_Bytes_spec uBytes" "length v = 32"
  shows "EncodeStorageValueBytes32 v = EncodeStorageValue uBytes (Some (of_nat (beNat v)))"
proof -
  have "beNat v < 2 ^ 256" using beNat_less [of v] assms(2) by simp
  then have u: "unat (of_nat (beNat v) :: uint256) = beNat v"
    by (simp add: unat_of_nat)
  have t: "minBEBytes (beNat v) = drop (leadingZeros v) v"
    using minBEBytes_beNat [OF hd_drop_leadingZeros, of v] by (simp add: beNat_drop_leadingZeros)
  show ?thesis
  proof (cases "beNat v = 0")
    case True
    with t show ?thesis
      by (simp add: EncodeStorageValueBytes32_def EncodeStorageValue_def rlpEncodeUint256_def
          rlpEncodeBytes_def)
  next
    case False
    then have "(of_nat (beNat v) :: uint256) \<noteq> 0" using u by (metis unat_0)
    with u t assms(1) show ?thesis
      by (simp add: EncodeStorageValueBytes32_def EncodeStorageValue_def rlpEncodeUint256_def
          uint256_Bytes_spec_def)
  qed
qed

section \<open>Jump destinations\<close>

text \<open>
  An offset is an instruction boundary when it is reached by stepping over whole instructions, a
  push and its immediate counting as one.
\<close>

definition nextInstr :: "bytes \<Rightarrow> nat \<Rightarrow> nat" where
  "nextInstr code i =
     (if 0x60 \<le> code ! i \<and> code ! i \<le> 0x7F then i + 2 + (unat (code ! i) - 0x60) else i + 1)"

inductive boundary_from :: "bytes \<Rightarrow> nat \<Rightarrow> nat \<Rightarrow> bool" for code :: bytes where
  here: "boundary_from code i i"
| later: "i < length code \<Longrightarrow> boundary_from code (nextInstr code i) j \<Longrightarrow> boundary_from code i j"

definition is_jumpdest :: "bytes \<Rightarrow> nat \<Rightarrow> bool" where
  "is_jumpdest code j \<longleftrightarrow> boundary_from code 0 j \<and> j < length code \<and> code ! j = 0x5B"

lemma boundary_from_iff:
  "boundary_from code i j \<longleftrightarrow> i = j \<or> (i < length code \<and> boundary_from code (nextInstr code i) j)"
  by (auto intro: boundary_from.intros elim: boundary_from.cases)

lemma boundary_from_ge: "boundary_from code i j \<Longrightarrow> i \<le> j"
  by (induction rule: boundary_from.induct) (auto simp: nextInstr_def split: if_splits)

lemma nextInstr_push:
  assumes "0x60 \<le> code ! i" "code ! i \<le> (0x7F :: byte)"
  shows "i + (unat (code ! i - 0x5F) + 1) = nextInstr code i"
proof -
  have "(0x5F :: byte) \<le> code ! i" using assms(1) by (simp add: word_le_nat_alt)
  then have "unat (code ! i - 0x5F) = unat (code ! i) - 0x5F"
    by (simp add: unat_sub)
  moreover have "0x60 \<le> unat (code ! i)" using assms(1) by (simp add: word_le_nat_alt)
  ultimately show ?thesis using assms by (simp add: nextInstr_def)
qed

lemma scan_length: "length (fst (jumpdestScan code i bitmap found)) = length bitmap"
proof (induction code i bitmap found rule: jumpdestScan.induct)
  case (1 code i bitmap found)
  then show ?case by (simp add: jumpdestScan.simps [of code i bitmap found] Let_def)
qed

lemma scan_found:
  "snd (jumpdestScan code i bitmap found) \<longleftrightarrow>
     found \<or> (\<exists>j < length code. boundary_from code i j \<and> code ! j = 0x5B)"
proof (induction code i bitmap found rule: jumpdestScan.induct)
  case (1 code i bitmap found)
  consider "\<not> i < length code" | "i < length code" "code ! i = 0x5B"
    | "i < length code" "code ! i \<noteq> 0x5B" "0x60 \<le> code ! i \<and> code ! i \<le> 0x7F"
    | "i < length code" "code ! i \<noteq> 0x5B" "\<not> (0x60 \<le> code ! i \<and> code ! i \<le> 0x7F)" by blast
  then show ?case
  proof cases
    case 1
    then show ?thesis
      by (auto simp: jumpdestScan.simps [of code i bitmap found] dest: boundary_from_ge)
  next
    case 2
    then show ?thesis
      using "1.IH"(1) by (auto simp: jumpdestScan.simps [of code i bitmap found] intro: boundary_from.here)
  next
    case 3
    then show ?thesis
      using "1.IH"(2) nextInstr_push [of code i]
      by (simp add: jumpdestScan.simps [of code i bitmap found] Let_def)
        (metis boundary_from_iff)
  next
    case 4
    then have "nextInstr code i = i + 1" by (simp add: nextInstr_def)
    with 4 show ?thesis
      using "1.IH"(3)
      by (simp add: jumpdestScan.simps [of code i bitmap found] Let_def) (metis boundary_from_iff)
  qed
qed

lemma bit_set_one:
  assumes "i div 8 < length bm"
  shows "bit (bm[i div 8 := bm ! (i div 8) OR push_bit (i mod 8) 1] ! (j div 8)) (j mod 8) \<longleftrightarrow>
    bit (bm ! (j div 8) :: byte) (j mod 8) \<or> i = j"
proof -
  have "i = j" if "i div 8 = j div 8" "i mod 8 = j mod 8"
    using that by (metis div_mult_mod_eq)
  then show ?thesis
    using assms by (auto simp: nth_list_update bit_simps bit_1_iff)
qed

lemma scan_bit:
  assumes "length bitmap = (length code + 7) div 8" "j < length code"
  shows "bit (fst (jumpdestScan code i bitmap found) ! (j div 8)) (j mod 8) \<longleftrightarrow>
    bit (bitmap ! (j div 8)) (j mod 8) \<or> (boundary_from code i j \<and> code ! j = 0x5B)"
  using assms
proof (induction code i bitmap found rule: jumpdestScan.induct)
  case (1 code i bitmap found)
  consider "\<not> i < length code" | "i < length code" "code ! i = 0x5B"
    | "i < length code" "code ! i \<noteq> 0x5B" "0x60 \<le> code ! i \<and> code ! i \<le> 0x7F"
    | "i < length code" "code ! i \<noteq> 0x5B" "\<not> (0x60 \<le> code ! i \<and> code ! i \<le> 0x7F)" by blast
  then show ?case
  proof cases
    case 1
    then show ?thesis
      using \<open>j < length code\<close>
      by (auto simp: jumpdestScan.simps [of code i bitmap found] dest: boundary_from_ge)
  next
    case 2
    then have "nextInstr code i = i + 1" by (simp add: nextInstr_def)
    moreover have "i div 8 < length bitmap" using 2(1) "1.prems"(1) by (simp add: div_less_iff_less_mult)
    ultimately show ?thesis
      using 2 "1.IH"(1) "1.prems" bit_set_one [of i bitmap j] boundary_from_iff [of code i j]
      by (auto simp: jumpdestScan.simps [of code i bitmap found])
  next
    case 3
    then show ?thesis
      using "1.IH"(2) "1.prems" nextInstr_push [of code i] boundary_from_iff [of code i j]
      by (auto simp: jumpdestScan.simps [of code i bitmap found])
  next
    case 4
    then have "nextInstr code i = i + 1" by (simp add: nextInstr_def)
    with 4 show ?thesis
      using "1.IH"(3) "1.prems" boundary_from_iff [of code i j]
      by (auto simp: jumpdestScan.simps [of code i bitmap found])
  qed
qed

section \<open>Sinks for storage tries\<close>

lemma emitRows_PrefixedSink:
  "emitRows (PrefixedSink addrHash sink) rs w =
     emitRows sink (map (\<lambda>(path, val). (StoragePrefix addrHash @ path, val)) rs) w"
proof (induction rs arbitrary: w)
  case (Cons r rs)
  obtain path val where r: "r = (path, val)" by (cases r)
  have "callSink (PrefixedSink addrHash sink) r w = callSink sink (StoragePrefix addrHash @ path, val) w"
    by (simp add: callSink_def PrefixedSink_def Let_def r)
  moreover have "emitRows (PrefixedSink addrHash sink) rs =
      emitRows sink (map (\<lambda>(path, val). (StoragePrefix addrHash @ path, val)) rs)"
    using Cons.IH by blast
  ultimately show ?case by (simp add: r)
qed simp

lemma emitRows_Suppress:
  assumes "([], [0x80]) \<notin> set rs"
  shows "emitRows (SuppressEmptyTrieSentinel sink) rs w = emitRows sink rs w"
  using assms
proof (induction rs arbitrary: w)
  case (Cons r rs)
  obtain path val where r: "r = (path, val)" by (cases r)
  have "\<not> (length path = 0 \<and> length val = 1 \<and> val ! 0 = 0x80)"
    using Cons.prems r by (cases val) auto
  then have "callSink (SuppressEmptyTrieSentinel sink) r w = callSink sink r w"
    by (auto simp: callSink_def SuppressEmptyTrieSentinel_def r)
  moreover have "emitRows (SuppressEmptyTrieSentinel sink) rs = emitRows sink rs"
    using Cons by auto
  ultimately show ?case by simp
qed simp

text \<open>A node encoding is an RLP list: its first byte is \<open>0xc0\<close> or above, never the sentinel.\<close>

lemma rlpEncodeListRaw_not_sentinel: "rlpEncodeListRaw p \<noteq> [0x80]"
proof
  assume a: "rlpEncodeListRaw p = [0x80]"
  have "p = []" using a by (auto simp: rlpEncodeListRaw_def Let_def split: if_splits)
  with a show False by (simp add: rlpEncodeListRaw_def)
qed

lemma enc_branch_not_sentinel: "enc_branch keccak cs \<noteq> [0x80]"
  by (simp add: enc_branch_def EncodeBranch_def rlpEncodeListRaw_not_sentinel)

lemma node_rows_not_sentinel: "([], [0x80]) \<notin> set (node_rows keccak ev)"
proof (cases ev)
  case (Pair path node)
  then show ?thesis
    by (cases node)
      (auto simp: EncodeLeaf_def EncodeExtension_def rlpEncodeListRaw_not_sentinel [THEN not_sym]
        enc_branch_not_sentinel [THEN not_sym])
qed

lemma trie_rows_not_sentinel: "mk 0 kvs = Some t \<Longrightarrow> ([], [0x80]) \<notin> set (trie_rows keccak kvs)"
  using node_rows_not_sentinel by (auto simp: trie_rows_def rows_def)

section \<open>Building from key hashes\<close>

definition nibble_entries :: "bytes entry list \<Rightarrow> bytes entry list" where
  "nibble_entries kvs = map (\<lambda>(k, v). (BytesToNibbles k, v)) kvs"

definition sorted_hashes :: "bytes entry list \<Rightarrow> bool" where
  "sorted_hashes kvs \<longleftrightarrow>
     (\<forall>kv \<in> set kvs. length (fst kv) = 32) \<and> sorted_wrt bytesLess (map fst kvs)"

lemma nibbly_BytesToNibbles: "nibbly (BytesToNibbles k)"
  using BytesToNibbles_nibbles [of k] by (simp add: nibbly_def list_all_iff is_nibble_def)

lemma wf_nibble_entries: "sorted_hashes kvs \<Longrightarrow> wf_entries 64 (nibble_entries kvs)"
  unfolding sorted_hashes_def wf_entries_def nibble_entries_def
  by (auto simp: sorted_wrt_map nibbly_BytesToNibbles bytesLess_BytesToNibbles case_prod_beta)

fun StreamHashBuilder_AddLeaves ::
  "digest \<Rightarrow> ('w, 'e) sink \<Rightarrow> 'w builder \<Rightarrow> bytes entry list \<Rightarrow> 'e build_error + 'w builder" where
  "StreamHashBuilder_AddLeaves keccak sink b [] = Inr b"
| "StreamHashBuilder_AddLeaves keccak sink b ((k, v) # kvs) =
     bindE (StreamHashBuilder_AddLeaf keccak sink b k v)
       (\<lambda>b. StreamHashBuilder_AddLeaves keccak sink b kvs)"

lemma StreamHashBuilder_AddLeaves_eq:
  "StreamHashBuilder_AddLeaves keccak sink b kvs = ethrex_AddLeaves keccak sink b (nibble_entries kvs)"
proof (induction kvs arbitrary: b)
  case (Cons kv kvs)
  then show ?case by (cases kv) (simp add: nibble_entries_def StreamHashBuilder_AddLeaf_def)
qed (simp add: nibble_entries_def)

definition StreamHashBuilder_build ::
  "digest \<Rightarrow> ('w, 'e) sink \<Rightarrow> 'w \<Rightarrow> bytes entry list \<Rightarrow> 'e build_error + bytes \<times> 'w" where
  "StreamHashBuilder_build keccak sink w kvs =
     bindE (StreamHashBuilder_AddLeaves keccak sink (NewStreamHashBuilder w) kvs) (\<lambda>b.
     bindE (StreamHashBuilder_Root keccak sink b) (\<lambda>(h, b). Inr (h, world b)))"

lemma StreamHashBuilder_build_eq:
  assumes "sorted_hashes kvs"
  shows "StreamHashBuilder_build keccak sink w kvs =
    bindE (emitRows sink (trie_rows keccak (nibble_entries kvs)) w)
      (\<lambda>w. Inr (trie_root keccak (nibble_entries kvs), w))"
  using ethrex_build_eq [OF wf_nibble_entries [OF assms], of keccak sink w]
  by (simp add: StreamHashBuilder_build_def StreamHashBuilder_AddLeaves_eq ethrex_build_def
      NewStreamHashBuilder_def StreamHashBuilder_Root_def)

section \<open>Properties\<close>

text \<open>
  C20: An encoded account can be read back: splitting the RLP written by \<open>EncodeAccountState\<close> gives
  exactly nonce, balance, storage root and code hash, nothing more.  The hypothesis on \<open>uBytes\<close> is
  the documented behaviour of \<open>uint256.Int.Bytes\<close>.
\<close>

theorem account_roundtrip:
  assumes "uint256_Bytes_spec uBytes" "length storageRoot = 32" "length codeHash = 32"
  shows "readAccount (EncodeAccountState uBytes nonce balance storageRoot codeHash) =
    Some (unat nonce, (case balance of None \<Rightarrow> 0 | Some v \<Rightarrow> unat v), storageRoot, codeHash)"
  using assms by (rule readAccount_EncodeAccountState)

theorem account_roundtrip_witness:
  "readAccount (EncodeAccountState (\<lambda>v. minBEBytes (unat v)) 7 (Some 1000) (replicate 32 1)
     (replicate 32 2)) = Some (7, 1000, replicate 32 1, replicate 32 2)"
  using account_roundtrip [of "\<lambda>v. minBEBytes (unat v)" "replicate 32 1" "replicate 32 2" 7
      "Some 1000"] by (simp add: uint256_Bytes_spec_def)

text \<open>
  For a 32-byte slot value, the encoder that slices off leading zeros and the encoder that goes
  through an integer write the same bytes, and \<open>StorageValueRLPLength\<close> is their length.
\<close>

theorem storage_value_encoders_agree:
  assumes "uint256_Bytes_spec uBytes" "length v = 32"
  shows "EncodeStorageValueBytes32 v = EncodeStorageValue uBytes (Some (of_nat (beNat v))) \<and>
    StorageValueRLPLength v = length (EncodeStorageValueBytes32 v)"
  using EncodeStorageValueBytes32_eq [OF assms] StorageValueRLPLength_eq [OF assms(2)] by blast

theorem storage_value_encoders_agree_witness:
  "StorageValueRLPLength (replicate 31 0 @ [200]) =
     length (EncodeStorageValueBytes32 (replicate 31 0 @ [200]))"
  using storage_value_encoders_agree [of "\<lambda>v. minBEBytes (unat v)" "replicate 31 0 @ [200]"]
  by (simp add: uint256_Bytes_spec_def)

text \<open>
  C21: The jump-destination bitmap is exact.  If the code has a JUMPDEST at an instruction boundary,
  the bitmap has one bit per byte of code and bit \<open>j\<close> is set just for those; if it has none, the
  bitmap is empty.
\<close>

theorem jumpdest_bitmap_exact:
  "(if \<exists>j. is_jumpdest code j
    then length (ComputeJumpdestBitmap code) = (length code + 7) div 8 \<and>
      (\<forall>j < length code.
        bit (ComputeJumpdestBitmap code ! (j div 8)) (j mod 8) = is_jumpdest code j)
    else ComputeJumpdestBitmap code = [])"
proof -
  let ?bm = "replicate ((length code + 7) div 8) 0 :: bytes"
  let ?s = "jumpdestScan code 0 ?bm False"
  have found: "snd ?s \<longleftrightarrow> (\<exists>j. is_jumpdest code j)"
    by (auto simp: scan_found is_jumpdest_def)
  have bm: "ComputeJumpdestBitmap code = (if snd ?s then fst ?s else [])"
    by (simp add: ComputeJumpdestBitmap_def case_prod_beta)
  have "bit (fst ?s ! (j div 8)) (j mod 8) = is_jumpdest code j" if "j < length code" for j
  proof -
    have "j div 8 < (length code + 7) div 8" using that by (simp add: div_less_iff_less_mult)
    then show ?thesis using that scan_bit [of ?bm code j 0 False] by (simp add: is_jumpdest_def)
  qed
  then show ?thesis using found bm scan_length [of code 0 ?bm False] by simp
qed

theorem jumpdest_bitmap_exact_witness:
  "bit (ComputeJumpdestBitmap [0x60, 0x01, 0x5b, 0x00] ! (2 div 8)) (2 mod 8)"
proof -
  let ?c = "[0x60, 0x01, 0x5b, 0x00] :: bytes"
  have "nextInstr ?c 0 = 2" by (simp add: nextInstr_def)
  then have "boundary_from ?c 0 2"
    using boundary_from.later [of 0 ?c 2] boundary_from.here [of ?c 2] by simp
  then have "is_jumpdest ?c 2" by (simp add: is_jumpdest_def)
  moreover from this have "\<exists>j. is_jumpdest ?c j" by blast
  moreover have "2 < length ?c" by simp
  ultimately show ?thesis using jumpdest_bitmap_exact [of ?c] by presburger
qed

text \<open>
  C19: A storage trie built from strictly ascending 32-byte key hashes through
  \<open>SuppressEmptyTrieSentinel\<close> over \<open>PrefixedSink\<close> writes each row of the reference trie under the
  66-nibble prefix of its account and nothing for an empty trie, whose root is the empty-trie hash.
\<close>

theorem storage_trie_rows:
  assumes "sorted_hashes kvs"
  shows "StreamHashBuilder_build keccak
      (SuppressEmptyTrieSentinel (PrefixedSink addrHash sink)) w kvs =
    (if kvs = [] then Inr (EmptyTrieHash, w)
     else bindE (emitRows sink
         (map (\<lambda>(path, val). (StoragePrefix addrHash @ path, val))
           (trie_rows keccak (nibble_entries kvs))) w)
       (\<lambda>w. Inr (trie_root keccak (nibble_entries kvs), w)))"
proof (cases "kvs = []")
  case True
  have "callSink (SuppressEmptyTrieSentinel (PrefixedSink addrHash sink)) ([], [0x80]) w = Inr w"
    by (simp add: callSink_def SuppressEmptyTrieSentinel_def)
  with True show ?thesis
    using StreamHashBuilder_build_eq [OF assms, of keccak
        "SuppressEmptyTrieSentinel (PrefixedSink addrHash sink)" w]
    by (simp add: nibble_entries_def trie_rows_def trie_root_def)
next
  case False
  then have "nibble_entries kvs \<noteq> []" by (simp add: nibble_entries_def)
  then have "([], [0x80]) \<notin> set (trie_rows keccak (nibble_entries kvs))"
    using mk_spine [OF wf_nibble_entries [OF assms], of 0] by (intro trie_rows_not_sentinel)
  then show ?thesis
    using False by (simp add: StreamHashBuilder_build_eq [OF assms] emitRows_Suppress
        emitRows_PrefixedSink)
qed

theorem storage_trie_rows_witness:
  "StreamHashBuilder_build (\<lambda>x. replicate 32 0)
     (SuppressEmptyTrieSentinel (PrefixedSink (replicate 32 1) (\<lambda>r w. Inr (w @ [r])))) [] [] =
   (Inr (EmptyTrieHash, []) :: unit build_error + _)"
  using storage_trie_rows [of "[]" "\<lambda>x. replicate 32 0" "replicate 32 1"
      "\<lambda>r w. Inr (w @ [r])" "[]"] by (simp add: sorted_hashes_def)

end
