(* ===== verification/Trie_Masks.thy ===== *)
theory Trie_Masks
  imports Trie_Stream
begin

text \<open>
  The 16-bit occupancy mask of a branch: bit \<open>i\<close> is set iff child \<open>i\<close> is present.  The nimbus vertices
  store it, and the mask-driven builders of besu and reth keep their open branches as such masks.
\<close>

unbundle bit_operations_syntax

definition usedOf :: "'v mpt option list \<Rightarrow> u16" where
  "usedOf cs = horner_sum of_bool 2 (map (\<lambda>c. c \<noteq> None) cs)"

lemma bit_usedOf: "length cs = 16 \<Longrightarrow> bit (usedOf cs) i \<longleftrightarrow> i < 16 \<and> cs ! i \<noteq> None"
  by (auto simp: usedOf_def bit_horner_sum_bit_word_iff)

lemma usedOf_put:
  assumes "length cs = 16" "i < 16"
  shows "usedOf (put i t cs) = usedOf cs OR push_bit i 1"
proof (rule bit_eqI)
  fix n
  have "length (put i t cs) = 16" using assms(1) by (simp add: put_def)
  then show "bit (usedOf (put i t cs)) n \<longleftrightarrow> bit (usedOf cs OR push_bit i 1) n"
    using assms by (auto simp: bit_usedOf bit_or_iff push_bit_eq_mult bit_exp_iff put_def nth_list_update)
qed

lemma usedOf_replicate [simp]: "usedOf (replicate n None) = 0"
  by (induction n) (simp_all add: usedOf_def)

definition full :: "'v open_branch list \<Rightarrow> bool" where
  "full stk \<longleftrightarrow> (\<forall>b \<in> set stk. length (snd b) = 16)"

lemma full_simps [simp]: "full []" "full ((d, cs) # stk) \<longleftrightarrow> length cs = 16 \<and> full stk"
  by (simp_all add: full_def)

lemma length_put [simp]: "length (put i t cs) = length cs"
  by (simp add: put_def)

lemma full_spine: "full (spine kvs)"
proof (induction kvs rule: spine.induct)
  case (1 kvs)
  then show ?case by (cases "splits kvs") (simp_all add: spine.simps [of kvs] full_def ball_Un)
qed

section \<open>Children in slot order\<close>

definition present :: "'v mpt option list \<Rightarrow> 'v mpt list" where
  "present cs = map the (filter (\<lambda>c. c \<noteq> None) cs)"

lemma present_simps [simp]:
  "present [] = []" "present (None # cs) = present cs" "present (Some t # cs) = t # present cs"
  by (simp_all add: present_def)

lemma present_append [simp]: "present (xs @ ys) = present xs @ present ys"
  by (simp add: present_def)

lemma present_replicate [simp]: "present (replicate n None) = []"
  by (simp add: present_def)

lemma present_Nil_iff: "present cs = [] \<longleftrightarrow> (\<forall>c \<in> set cs. c = None)"
  by (simp add: present_def filter_empty_conv)

lemma present_put:
  assumes "i < length cs" "\<And>j. i \<le> j \<Longrightarrow> j < length cs \<Longrightarrow> cs ! j = None"
  shows "present (put i t cs) = present cs @ [t]"
proof -
  have rest: "drop (Suc i) cs = replicate (length cs - Suc i) None"
    using assms by (intro nth_equalityI) auto
  have "cs = take i cs @ None # drop (Suc i) cs"
    using assms id_take_nth_drop [of i cs] by simp
  then have "present cs = present (take i cs)" unfolding rest by (metis append_Nil2 present_append present_replicate present_simps(2))
  then show ?thesis
    using assms(1) by (simp add: put_def upd_conv_take_nth_drop rest)
qed

lemma usedOf_eq_0_iff:
  assumes "length cs = 16"
  shows "usedOf cs = 0 \<longleftrightarrow> present cs = []"
proof -
  have "usedOf cs = 0 \<longleftrightarrow> (\<forall>i < 16. cs ! i = None)"
    using bit_usedOf [OF assms] by (auto simp: bit_eq_iff [of "usedOf cs"])
  then show ?thesis using assms by (simp add: present_Nil_iff all_set_conv_all_nth)
qed

section \<open>Open branches as masks\<close>

text \<open>
  The open branches of a spine as one mask per depth, none beyond the deepest: an absent depth has
  the mask 0.
\<close>

definition mask_at :: "'v open_branch list \<Rightarrow> nat \<Rightarrow> u16" where
  "mask_at stk i = (case map_of stk i of None \<Rightarrow> 0 | Some cs \<Rightarrow> usedOf cs)"

definition masksOf :: "'v open_branch list \<Rightarrow> u16 list" where
  "masksOf stk = (case stk of [] \<Rightarrow> [] | (d, _) # _ \<Rightarrow> map (mask_at stk) [0..<Suc d])"

lemma masksOf_simps [simp]:
  "masksOf [] = []" "masksOf ((d, cs) # stk) = map (mask_at ((d, cs) # stk)) [0..<Suc d]"
  by (simp_all add: masksOf_def del: upt_Suc)

lemma length_masksOf: "length (masksOf stk) = (case stk of [] \<Rightarrow> 0 | (d, _) # _ \<Rightarrow> Suc d)"
  by (cases stk) (auto simp del: upt_Suc)

lemma mask_at_Cons: "mask_at ((d, cs) # stk) i = (if i = d then usedOf cs else mask_at stk i)"
  by (simp add: mask_at_def)

lemma mask_at_above: "\<forall>b \<in> set stk. fst b < i \<Longrightarrow> mask_at stk i = 0"
  by (auto simp: mask_at_def split: option.splits dest!: map_of_SomeD)

text \<open>Setting the bit of a digit at some depth, and dropping the empty masks at the end.\<close>

definition orMask :: "nat \<Rightarrow> nat \<Rightarrow> u16 list \<Rightarrow> u16 list" where
  "orMask len digit ms =
     (let ms = ms @ replicate (Suc len - length ms) 0 in ms[len := ms ! len OR push_bit digit 1])"

definition trimMasks :: "u16 list \<Rightarrow> u16 list" where
  "trimMasks ms = rev (dropWhile (\<lambda>m. m = 0) (rev ms))"

lemma trimMasks_snoc: "trimMasks (ms @ [m]) = (if m = 0 then trimMasks ms else ms @ [m])"
  by (simp add: trimMasks_def)

lemma trimMasks_Nil [simp]: "trimMasks [] = []"
  by (simp add: trimMasks_def)

lemma trimMasks_zeros: "\<forall>i < n. f i = 0 \<Longrightarrow> trimMasks (map f [0..<n]) = []"
  by (induction n) (auto simp: trimMasks_snoc)

lemma trimMasks_upt:
  assumes "d < n" "f d \<noteq> 0" "\<And>i. d < i \<Longrightarrow> f i = 0"
  shows "trimMasks (map f [0..<n]) = map f [0..<Suc d]"
  using assms(1)
proof (induction n)
  case (Suc n)
  then show ?case using assms(2,3) by (cases "n = d") (simp_all add: trimMasks_snoc)
qed simp

definition open_ok :: "bytes \<Rightarrow> 'v open_branch list \<Rightarrow> bool" where
  "open_ok key stk \<longleftrightarrow> (\<forall>(d, cs) \<in> set stk. length cs = 16 \<and> present cs \<noteq> [] \<and>
     (\<forall>j. nib key d \<le> j \<longrightarrow> j < 16 \<longrightarrow> cs ! j = None))"

lemma open_ok_simps [simp]:
  "open_ok key []"
  "open_ok key ((d, cs) # stk) \<longleftrightarrow> length cs = 16 \<and> present cs \<noteq> [] \<and>
     (\<forall>j. nib key d \<le> j \<longrightarrow> j < 16 \<longrightarrow> cs ! j = None) \<and> open_ok key stk"
  "open_ok key (xs @ ys) \<longleftrightarrow> open_ok key xs \<and> open_ok key ys"
  by (auto simp: open_ok_def)

lemma mk_eq_None [simp]: "mk p kvs = None \<longleftrightarrow> kvs = []"
  by (subst mk.simps) (auto simp: splits_def)

lemma open_ok_spine:
  assumes "wf_entries L kvs" "kvs \<noteq> []"
  shows "open_ok (lkey kvs) (spine kvs)"
  using assms
proof (induction kvs rule: spine.induct)
  case (1 kvs)
  show ?case
  proof (cases "splits kvs")
    case True
    let ?d = "split_at kvs"
    have dL: "?d < L" using True "1.prems" wf_entries_lkey by (fastforce simp: splits_def)
    have up: "kids kvs ! j = None" if "nib (lkey kvs) ?d \<le> j" "j < 16" for j
      using grp_above [OF "1.prems"(1) order_refl dL] that by (cases "j = nib (lkey kvs) ?d") (auto simp: kids_def)
    have "nib (fkey kvs) ?d \<noteq> nib (lkey kvs) ?d"
      using True nth_at_commonPrefixLen [of "fkey kvs" "lkey kvs"]
      by (auto simp: splits_def split_at_def nib_def unat_byte_eq_iff)
    moreover have "hd kvs \<in> set (grp ?d (nib (fkey kvs) ?d) kvs)"
      using "1.prems"(2) by (simp add: grp_def fkey_def)
    moreover have "nib (fkey kvs) ?d < 16"
      using "1.prems" dL wf_entriesD [OF "1.prems"(1), of "hd kvs"] nib_less by (auto simp: fkey_def)
    ultimately have "kids kvs ! nib (fkey kvs) ?d \<noteq> None"
      by (auto simp: kids_def)
    then have "present (kids kvs) \<noteq> []"
      using \<open>nib (fkey kvs) ?d < 16\<close> by (auto simp: present_Nil_iff all_set_conv_all_nth simp del: not_None_eq)
    moreover have "open_ok (lkey kvs) (spine (open_grp kvs))"
      using "1.IH" [OF True wf_entries_open_grp [OF "1.prems"(1)]] True
      by (simp add: open_grp_ne lkey_open_grp splits_ne)
    ultimately show ?thesis using True up by (simp add: spine.simps [of kvs])
  qed (simp add: spine.simps [of kvs])
qed

lemma orMask_place:
  assumes "full stk" "i < 16" "sorted_wrt (\<lambda>a b. fst b < fst a) stk" "\<forall>b \<in> set stk. fst b \<le> l"
  shows "orMask l i (masksOf stk) = masksOf (place l i t stk)"
proof (cases stk)
  case Nil
  have "map (mask_at [(l, put i t (replicate 16 None))]) [0..<Suc l] = replicate l 0 @ [push_bit i 1]"
    using assms(2) by (intro nth_equalityI)
      (auto simp: nth_append mask_at_Cons usedOf_put mask_at_above less_Suc_eq simp del: upt_Suc)
  then show ?thesis using Nil
    by (simp add: place_def orMask_def Let_def nth_append list_update_append replicate_append_same [of l 0, symmetric]
        del: upt_Suc)
next
  case (Cons b rest)
  obtain d cs where b: "b = (d, cs)" by (cases b)
  have r: "\<forall>b \<in> set rest. fst b < d" using assms(3) by (simp add: Cons b)
  show ?thesis
  proof (cases "d = l")
    case True
    have "orMask l i (masksOf stk) ! j = masksOf (place l i t stk) ! j" if "j < Suc l" for j
      using that True assms r
      by (simp add: Cons b place_def orMask_def Let_def mask_at_Cons usedOf_put nth_list_update del: upt_Suc)
    then show ?thesis
      using True by (intro nth_equalityI) (auto simp: Cons b place_def orMask_def Let_def simp del: upt_Suc)
  next
    case False
    then have dl: "d < l" using assms(4) by (simp add: Cons b)
    then have lt: "\<forall>b \<in> set stk. fst b < l" using r by (auto simp: Cons b)
    have "orMask l i (masksOf stk) ! j = masksOf (place l i t stk) ! j" if "j < Suc l" for j
    proof -
      have "mask_at stk j = 0" if "d < j" using that r by (intro mask_at_above) (auto simp: Cons b)
      then show ?thesis
        using that dl False assms(2) mask_at_above [OF lt]
        by (auto simp: Cons b place_def orMask_def Let_def mask_at_Cons usedOf_put nth_list_update nth_append
            simp del: upt_Suc)
    qed
    then show ?thesis
      using False dl by (intro nth_equalityI) (auto simp: Cons b place_def orMask_def Let_def simp del: upt_Suc)
  qed
qed

lemma trimMasks_masksOf:
  assumes "full rest" "\<forall>(d, cs) \<in> set rest. present cs \<noteq> []" "sorted_wrt (\<lambda>a b. fst b < fst a) ((d, cs) # rest)"
  shows "trimMasks (take d (masksOf ((d, cs) # rest))) = masksOf rest"
proof -
  have "take d (masksOf ((d, cs) # rest)) = map (mask_at rest) [0..<d]"
    by (auto simp: take_map mask_at_Cons simp del: upt_Suc)
  moreover have "trimMasks (map (mask_at rest) [0..<d]) = masksOf rest"
  proof (cases rest)
    case Nil
    then show ?thesis by (simp add: trimMasks_zeros mask_at_above)
  next
    case (Cons b r)
    obtain d2 cs2 where b: "b = (d2, cs2)" by (cases b)
    have "mask_at rest d2 \<noteq> 0" using assms by (simp add: Cons b mask_at_Cons usedOf_eq_0_iff)
    moreover have "mask_at rest i = 0" if "d2 < i" for i
      using that assms(3) by (intro mask_at_above) (auto simp: Cons b)
    moreover have "d2 < d" using assms(3) by (simp add: Cons b)
    ultimately show ?thesis using trimMasks_upt [of d2 d "mask_at rest"] by (simp add: Cons b del: upt_Suc)
  qed
  ultimately show ?thesis by (simp only:)
qed

end
