(* ===== verification/Trie_Branches.thy ===== *)
theory Trie_Branches
  imports Trie_Stream "HOL-Library.Sublist"
begin

text \<open>
  Where a trie branches, and in which order a streaming builder creates its branches.

  A trie branches at a path exactly when two of its keys part there.  A builder creates a branch when
  a new key parts from the last one at a depth where no branch is open yet; the lemmas show that no
  path is created twice and that every branch a node mentions has been created before.
\<close>

section \<open>Depths of the open branches\<close>

lemma spine_depths:
  assumes "wf_entries L kvs" "kvs \<noteq> []"
  shows "fst ` set (spine kvs) = (\<lambda>kv. commonPrefixLen (fst kv) (lkey kvs)) ` {kv \<in> set kvs. fst kv \<noteq> lkey kvs}"
  using assms
proof (induction kvs rule: spine.induct)
  case (1 kvs)
  let ?d = "split_at kvs" and ?k = "lkey kvs"
  show ?case
  proof (cases "splits kvs")
    case True
    have len: "length (fst kv) = L" if "kv \<in> set kvs" for kv using that 1 wf_entriesD by blast
    have kl: "length ?k = L" using 1 wf_entries_lkey by blast
    have d: "?d < L" using split_at_less [OF True] kl by simp
    have IH: "fst ` set (spine (open_grp kvs)) =
        (\<lambda>kv. commonPrefixLen (fst kv) ?k) ` {kv \<in> set (open_grp kvs). fst kv \<noteq> ?k}"
      using "1.IH" [OF True wf_entries_open_grp open_grp_ne] "1.prems" by simp
    have out: "commonPrefixLen (fst kv) ?k = ?d" if "kv \<in> set kvs" "nib (fst kv) ?d \<noteq> nib ?k ?d" for kv
      using that d kl len take_split_at [OF "1.prems"(1) that(1) order_refl]
      by (intro commonPrefixLen_eqI) (auto simp: nib_def)
    have f: "hd kvs \<in> set kvs" "fst (hd kvs) \<noteq> ?k" "commonPrefixLen (fst (hd kvs)) ?k = ?d"
      using True kl by (auto simp: splits_def split_at_def fkey_def)
    have split: "{kv \<in> set kvs. fst kv \<noteq> ?k} =
        {kv \<in> set (open_grp kvs). fst kv \<noteq> ?k} \<union> {kv \<in> set kvs. nib (fst kv) ?d \<noteq> nib ?k ?d}"
      by (auto simp: open_grp_def grp_def)
    have "hd kvs \<in> {kv \<in> set kvs. nib (fst kv) ?d \<noteq> nib ?k ?d}"
      using f nth_at_commonPrefixLen [of "fst (hd kvs)" ?k] d kl len [OF f(1)]
      by (auto simp: nib_def unat_byte_eq_iff)
    then have "(\<lambda>kv. ?d) ` {kv \<in> set kvs. nib (fst kv) ?d \<noteq> nib ?k ?d} = {?d}" by (rule image_constant)
    moreover have "(\<lambda>kv. commonPrefixLen (fst kv) ?k) ` {kv \<in> set kvs. nib (fst kv) ?d \<noteq> nib ?k ?d} =
        (\<lambda>kv. ?d) ` {kv \<in> set kvs. nib (fst kv) ?d \<noteq> nib ?k ?d}"
      using out by (intro image_cong) auto
    ultimately have "(\<lambda>kv. commonPrefixLen (fst kv) ?k) ` {kv \<in> set kvs. nib (fst kv) ?d \<noteq> nib ?k ?d} = {?d}"
      by simp
    then show ?thesis
      unfolding split image_Un IH [symmetric] by (simp add: spine.simps [of kvs] True)
  next
    case False
    then have "length kvs = 1" using splits_iff [OF "1.prems"(1)] "1.prems"(2) by (cases kvs) (auto simp: not_le)
    then obtain x where "kvs = [x]" by (cases kvs) auto
    then show ?thesis by (auto simp: lkey_def)
  qed
qed

section \<open>Creation of branches\<close>

definition branches_at :: "bytes \<Rightarrow> 'v entry list \<Rightarrow> bool" where
  "branches_at q kvs \<longleftrightarrow> (\<exists>x \<in> set kvs. \<exists>y \<in> set kvs. fst x \<noteq> fst y \<and>
     q = take (commonPrefixLen (fst x) (fst y)) (fst x))"

definition new_branch :: "'v entry list \<Rightarrow> bytes \<Rightarrow> bytes list" where
  "new_branch kvs k =
     (let l = commonPrefixLen (lkey kvs) k in
      if l \<in> fst ` set (spine kvs) then [] else [take l (lkey kvs)])"

fun creates_rev :: "'v entry list \<Rightarrow> bytes list" where
  "creates_rev [] = []"
| "creates_rev (x # ys) = creates_rev ys @ (if ys = [] then [] else new_branch (rev ys) (fst x))"

definition creates :: "'v entry list \<Rightarrow> bytes list" where
  "creates kvs = creates_rev (rev kvs)"

lemma creates_Nil [simp]: "creates [] = []"
  by (simp add: creates_def)

lemma creates_snoc:
  "creates (kvs @ [x]) = creates kvs @ (if kvs = [] then [] else new_branch kvs (fst x))"
  by (simp add: creates_def)

lemma length_creates: "length (creates kvs) \<le> length kvs"
proof (induction kvs rule: rev_induct)
  case (snoc x kvs)
  then show ?case by (auto simp: creates_snoc new_branch_def Let_def)
qed simp

text \<open>An open branch sits where its key parts from another one.\<close>

lemma spine_branches:
  assumes "wf_entries L kvs" "kvs \<noteq> []" "d \<in> fst ` set (spine kvs)"
  shows "branches_at (take d (lkey kvs)) kvs"
proof -
  obtain kv where kv: "kv \<in> set kvs" "fst kv \<noteq> lkey kvs" "d = commonPrefixLen (fst kv) (lkey kvs)"
    using assms(3) unfolding spine_depths [OF assms(1,2)] by auto
  then have "take d (lkey kvs) = take (commonPrefixLen (lkey kvs) (fst kv)) (lkey kvs)"
    by (simp add: commonPrefixLen_commute)
  moreover have "last kvs \<in> set kvs" using assms(2) by simp
  ultimately show ?thesis
    unfolding branches_at_def using kv(1,2) by (metis lkey_def)
qed

text \<open>A path at which two keys part, and that the last key extends, is that of an open branch.\<close>

lemma branch_is_open:
  assumes wf: "wf_entries L kvs" "kvs \<noteq> []" and q: "branches_at (take l (lkey kvs)) kvs" and l: "l < L"
  shows "l \<in> fst ` set (spine kvs)"
proof -
  let ?k = "lkey kvs"
  have kl: "length ?k = L" using wf wf_entries_lkey by blast
  obtain x y where xy: "x \<in> set kvs" "y \<in> set kvs" "fst x \<noteq> fst y"
      "take l ?k = take (commonPrefixLen (fst x) (fst y)) (fst x)"
    using q by (auto simp: branches_at_def)
  have len: "length (fst x) = L" "length (fst y) = L" using xy wf(1) wf_entriesD(1) by blast+
  have "commonPrefixLen (fst x) (fst y) < L" using commonPrefixLen_less [of "fst x" "fst y"] xy(3) len by simp
  then have c: "commonPrefixLen (fst x) (fst y) = l"
    using arg_cong [OF xy(4), of length] l kl len by simp
  then have t: "take l (fst x) = take l ?k" "take l (fst y) = take l ?k"
    using xy(4) take_commonPrefixLen [of l "fst x" "fst y"] by simp_all
  have "fst x ! l \<noteq> fst y ! l" using nth_at_commonPrefixLen [of "fst x" "fst y"] c l len by simp
  then obtain z where z: "z \<in> set kvs" "fst z ! l \<noteq> ?k ! l" "take l (fst z) = take l ?k"
    using xy(1,2) t by metis
  then have "commonPrefixLen (fst z) ?k = l"
    using l kl wf_entriesD(1) [OF wf(1) z(1)] by (intro commonPrefixLen_eqI) simp_all
  then show ?thesis unfolding spine_depths [OF wf] using z by force
qed

lemma creates_branches:
  assumes "wf_entries L kvs" "q \<in> set (creates kvs)"
  shows "branches_at q kvs"
  using assms
proof (induction kvs rule: rev_induct)
  case (snoc x kvs)
  have wf: "wf_entries L kvs" using snoc.prems(1) by (simp add: wf_entries_append)
  show ?case
  proof (cases "q \<in> set (creates kvs)")
    case True
    then show ?thesis using snoc.IH [OF wf] by (auto simp: branches_at_def)
  next
    case False
    then have ne: "kvs \<noteq> []" and q: "q = take (commonPrefixLen (lkey kvs) (fst x)) (lkey kvs)"
      using snoc.prems(2) by (auto simp: creates_snoc new_branch_def Let_def split: if_splits)
    have "lkey kvs \<noteq> fst x" using wf_snocD(4) [OF snoc.prems(1) ne] by (metis bytesLess_irrefl)
    then show ?thesis
      unfolding branches_at_def using q ne
      by (intro bexI [of _ "last kvs"] bexI [of _ x]) (auto simp: lkey_def)
  qed
qed simp

lemma creates_distinct: "wf_entries L kvs \<Longrightarrow> distinct (creates kvs)"
proof (induction kvs rule: rev_induct)
  case (snoc x kvs)
  have wf: "wf_entries L kvs" using snoc.prems by (simp add: wf_entries_append)
  show ?case
  proof (cases "kvs = [] \<or> new_branch kvs (fst x) = []")
    case True
    then show ?thesis using snoc.IH [OF wf] by (auto simp: creates_snoc)
  next
    case False
    let ?l = "commonPrefixLen (lkey kvs) (fst x)"
    have ne: "kvs \<noteq> []" using False by simp
    have n: "?l \<notin> fst ` set (spine kvs)" "new_branch kvs (fst x) = [take ?l (lkey kvs)]"
      using False by (auto simp: new_branch_def Let_def split: if_splits)
    have "take ?l (lkey kvs) \<notin> set (creates kvs)"
      using creates_branches [OF wf] branch_is_open [OF wf ne _ cpl_less [OF snoc.prems ne]] n(1) by blast
    then show ?thesis using snoc.IH [OF wf] n(2) by (simp add: creates_snoc)
  qed
qed simp

section \<open>Branches that nodes mention\<close>

text \<open>The path of the branch above a node, and of the node itself when it is a branch.\<close>

definition parent_path :: "bytes \<Rightarrow> bytes set" where
  "parent_path path = (if path = [] then {} else {butlast path})"

definition ev_branches :: "'v node_event \<Rightarrow> bytes set" where
  "ev_branches ev = parent_path (fst ev) \<union>
     (case snd ev of Leaf _ _ \<Rightarrow> {} | Branch pfx _ \<Rightarrow> {fst ev @ pfx})"

definition above :: "bytes \<Rightarrow> nat \<Rightarrow> bytes set" where
  "above key p = (if p = 0 then {} else {take (p - 1) key})"

lemma stack_ok_Cons:
  "stack_ok key ((d, cs) # rest) \<longleftrightarrow> d < length key \<and> (\<forall>b \<in> set rest. fst b < d) \<and> stack_ok key rest"
  by (auto simp: stack_ok_def)

lemma butlast_take_above:
  "p \<le> length key \<Longrightarrow> parent_path (take p key) \<subseteq> above key p"
  by (cases p) (auto simp: above_def parent_path_def butlast_take)

lemma pos_under_bounds:
  assumes "stack_ok key rest" "\<forall>b \<in> set rest. fst b < d" "p \<le> d"
  shows "pos_under p rest \<le> d"
  using assms by (cases rest) (auto simp: pos_under_def)

lemma above_pos_under: "above key (pos_under p rest) \<subseteq> above key p \<union> (\<lambda>b. take (fst b) key) ` set rest"
  by (cases rest) (auto simp: above_def pos_under_def)

lemma carry_branches:
  assumes "stack_ok key stk" "\<forall>b \<in> set stk. p \<le> fst b" "ev \<in> set (carry_nodes key p stk t)"
  shows "ev_branches ev \<subseteq> above key p \<union> (\<lambda>b. take (fst b) key) ` set stk"
  using assms
proof (induction key p stk t rule: carry_nodes.induct)
  case (2 key p d cs rest t)
  let ?q = "pos_under p rest"
  have ok: "d < length key" "\<forall>b \<in> set rest. fst b < d" "stack_ok key rest" "p \<le> d"
    using "2.prems"(1,2) by (auto simp: stack_ok_Cons)
  have q: "?q \<le> d" using pos_under_bounds [OF ok(3,2,4)] .
  show ?case
  proof (cases "ev = (take ?q key, Branch (subslice ?q d key) (put (nib key d) t cs))")
    case True
    have "parent_path (take ?q key) \<subseteq> above key ?q"
      using q ok(1) by (intro butlast_take_above) simp
    then have "ev_branches ev \<subseteq> above key ?q \<union> {take d key}"
      using True take_append_subslice [OF q, of key] by (auto simp: ev_branches_def)
    then show ?thesis using above_pos_under [of key p rest] by auto
  next
    case False
    then have "ev_branches ev \<subseteq> above key p \<union> (\<lambda>b. take (fst b) key) ` set rest"
      using "2.prems"(2,3) ok by (intro "2.IH" [OF refl]) (auto simp: Let_def)
    then show ?thesis by auto
  qed
qed simp

lemma close_branches:
  assumes "stack_ok key stk" "\<forall>b \<in> set stk. p \<le> fst b" "p \<le> length key"
    and "ev \<in> set (close_nodes key val p stk)"
  shows "ev_branches ev \<subseteq> above key p \<union> (\<lambda>b. take (fst b) key) ` set stk"
proof (cases "ev = (take (pos_under p stk) key, open_leaf key val p stk)")
  case True
  have "pos_under p stk \<le> length key"
    using assms(1,3) by (cases stk) (auto simp: pos_under_def stack_ok_def)
  from butlast_take_above [OF this] show ?thesis
    using True above_pos_under [of key p stk] by (auto simp: ev_branches_def open_leaf_def)
next
  case False
  then show ?thesis
    using assms by (intro carry_branches) (auto simp: close_nodes_def)
qed

lemma shallower_depth:
  assumes "stack_ok key stk" "b \<in> set (shallower l stk)"
  shows "b \<in> set stk \<and> fst b \<le> l"
proof -
  have so: "sorted_wrt (\<lambda>a b. fst b < fst a) (shallower l stk)"
    using assms(1) sorted_wrt_append deeper_shallower [of l stk] unfolding stack_ok_def by metis
  have "shallower l stk \<noteq> []" using assms(2) by (cases "shallower l stk = []") simp_all
  then obtain c rest where c: "shallower l stk = c # rest" by (meson list.exhaust)
  then have "fst c \<le> l" by (auto simp: shallower_def dropWhile_eq_Cons_conv)
  with so c assms(2) have "fst b \<le> l" by auto
  then show ?thesis using assms(2) set_dropWhileD unfolding shallower_def by fastforce
qed

lemma spine_snoc_depths:
  assumes "wf_entries L (kvs @ [x])" "kvs \<noteq> []" "d \<in> fst ` set (spine (kvs @ [x]))"
  defines "l \<equiv> commonPrefixLen (lkey kvs) (fst x)"
  shows "d \<le> l" "d = l \<or> d \<in> fst ` set (spine kvs)"
proof -
  have "d = l \<or> d \<in> fst ` set (shallower l (spine kvs))"
    using assms(3) unfolding spine_snoc [OF assms(1,2)] step_def place_def l_def
    by (auto split: list.splits if_splits)
  then show "d \<le> l" "d = l \<or> d \<in> fst ` set (spine kvs)"
    using shallower_depth [OF stack_ok_spine [OF wf_snocD(1) [OF assms(1,2)] assms(2)]] by auto
qed

lemma spine_creates:
  assumes "wf_entries L kvs" "kvs \<noteq> []" "d \<in> fst ` set (spine kvs)"
  shows "take d (lkey kvs) \<in> set (creates kvs)"
  using assms
proof (induction kvs arbitrary: d rule: rev_induct)
  case (snoc x kvs)
  show ?case
  proof (cases "kvs = []")
    case True
    with snoc.prems show ?thesis by simp
  next
    case ne: False
    let ?l = "commonPrefixLen (lkey kvs) (fst x)"
    have wf: "wf_entries L kvs" using snoc.prems(1) by (simp add: wf_entries_append)
    note d = spine_snoc_depths [OF snoc.prems(1) ne snoc.prems(3)]
    have t: "take d (fst x) = take d (lkey kvs)" using take_commonPrefixLen [OF d(1)] by simp
    show ?thesis
    proof (cases "d \<in> fst ` set (spine kvs)")
      case True
      then show ?thesis using snoc.IH [OF wf ne] t by (simp add: creates_snoc)
    next
      case False
      with d(2) have "d = ?l" by simp
      with False ne t show ?thesis by (simp add: creates_snoc new_branch_def)
    qed
  qed
qed simp

lemma above_creates:
  assumes "wf_entries L (kvs @ [x])" "kvs \<noteq> []"
  shows "above (lkey kvs) (Suc (commonPrefixLen (lkey kvs) (fst x))) \<subseteq> set (creates (kvs @ [x]))"
  using assms(2) spine_creates [OF wf_snocD(1) [OF assms] assms(2)]
  by (auto simp: above_def creates_snoc new_branch_def Let_def)

lemma step_branches:
  assumes "wf_entries L (kvs @ [x])" "kvs \<noteq> []"
    and "ev \<in> set (step_nodes (lkey kvs) (lval kvs) (commonPrefixLen (lkey kvs) (fst x)) (spine kvs))"
  shows "ev_branches ev \<subseteq> set (creates (kvs @ [x]))"
proof -
  let ?l = "commonPrefixLen (lkey kvs) (fst x)"
  note wf = wf_snocD [OF assms(1,2)]
  have ok: "stack_ok (lkey kvs) (deeper ?l (spine kvs))"
    using stack_ok_spine [OF wf(1) assms(2)] deeper_shallower [of ?l "spine kvs"]
    by (metis (no_types, lifting) UnCI set_append sorted_wrt_append stack_ok_def)
  have deep: "\<forall>b \<in> set (deeper ?l (spine kvs)). Suc ?l \<le> fst b"
    using set_takeWhileD unfolding deeper_def by fastforce
  have "ev_branches ev \<subseteq> above (lkey kvs) (Suc ?l) \<union> (\<lambda>b. take (fst b) (lkey kvs)) ` set (deeper ?l (spine kvs))"
    using assms(3) cpl_less [OF assms(1,2)] wf(3) ok deep unfolding step_nodes_def
    by (intro close_branches) auto
  moreover have "take (fst b) (lkey kvs) \<in> set (creates kvs)" if "b \<in> set (deeper ?l (spine kvs))" for b
    using spine_creates [OF wf(1) assms(2)] that set_takeWhileD unfolding deeper_def by fastforce
  moreover have "set (creates kvs) \<subseteq> set (creates (kvs @ [x]))" by (auto simp: creates_snoc)
  ultimately show ?thesis using above_creates [OF assms(1,2)] by blast
qed

lemma closed_branches:
  assumes "wf_entries L kvs" "ev \<in> set (closed kvs)"
  shows "ev_branches ev \<subseteq> set (creates kvs)"
  using assms
proof (induction kvs rule: rev_induct)
  case Nil
  then show ?case by (simp add: closed.simps splits_def)
next
  case (snoc x kvs)
  have wf: "wf_entries L kvs" using snoc.prems(1) by (simp add: wf_entries_append)
  show ?case
  proof (cases "kvs = []")
    case True
    with snoc.prems show ?thesis by simp
  next
    case ne: False
    then show ?thesis
      using snoc.IH [OF wf] snoc.prems(2) step_branches [OF snoc.prems(1) ne, of ev]
      unfolding closed_snoc [OF snoc.prems(1) ne] set_append creates_snoc by blast
  qed
qed

lemma root_branches:
  assumes "wf_entries L kvs" "kvs \<noteq> []"
    and "ev \<in> set (close_nodes (lkey kvs) (lval kvs) 0 (spine kvs))"
  shows "ev_branches ev \<subseteq> set (creates kvs)"
  using close_branches [OF stack_ok_spine [OF assms(1,2)] _ _ assms(3)] spine_creates [OF assms(1,2)]
  by (auto simp: above_def)

section \<open>Every node has its own path\<close>

lemma nodes_prefix: "ev \<in> set (nodes path t) \<Longrightarrow> prefix path (fst ev)"
proof (induction path t arbitrary: ev rule: nodes.induct)
  case (2 path pfx cs)
  show ?case
  proof (cases "ev = (path, Branch pfx cs)")
    case False
    then obtain i c where ic: "(i, Some c) \<in> set (zip [0..<length cs] cs)"
        "ev \<in> set (nodes (path @ pfx @ [of_nat i]) c)"
      using "2.prems" by (auto split: option.splits)
    have "prefix (path @ pfx @ [of_nat i]) (fst ev)" by (rule "2.IH" [OF ic(1) refl refl ic(2)])
    then show ?thesis by (metis append_prefixD)
  qed simp
qed simp

lemma nodes_opt_prefix: "ev \<in> set (nodes_opt path c) \<Longrightarrow> prefix path (fst ev)"
  by (cases c) (auto dest: nodes_prefix)

lemma snoc_prefix_differ:
  assumes "prefix (p @ [x]) q" "prefix (p @ [y]) q"
  shows "x = y"
  using assms by (auto elim!: prefixE)

lemma distinct_concat_upt:
  assumes "\<And>i. i < n \<Longrightarrow> distinct (f i)" "\<And>i j. i < n \<Longrightarrow> j < n \<Longrightarrow> i \<noteq> j \<Longrightarrow> set (f i) \<inter> set (f j) = {}"
  shows "distinct (concat (map f [0..<n]))"
  using assms
proof (induction n)
  case (Suc n)
  have "set (f i) \<inter> set (f n) = {}" if "i < n" for i using that by (intro Suc.prems(2)) auto
  then have "set (concat (map f [0..<n])) \<inter> set (f n) = {}" by fastforce
  moreover have "distinct (concat (map f [0..<n]))" using Suc.prems by (intro Suc.IH) auto
  ultimately show ?case using Suc.prems(1) by simp
qed simp

lemma nodes_mk_distinct: "distinct (map fst (nodes_opt path (mk p kvs)))"
proof (induction p kvs arbitrary: path rule: mk.induct)
  case (1 p kvs)
  show ?case
  proof (cases "splits kvs")
    case True
    let ?d = "split_at kvs" and ?pfx = "subslice p (split_at kvs) (lkey kvs)"
    let ?f = "\<lambda>i. mk (Suc ?d) (grp ?d i kvs)"
    let ?g = "\<lambda>i. map fst (nodes_opt (path @ ?pfx @ [of_nat i]) (?f i))"
    have IH: "distinct (?g i)" if "i < 16" for i using "1.IH" [OF True, of i] that by simp
    have pre: "prefix ((path @ ?pfx) @ [of_nat i]) q" if "q \<in> set (?g i)" for i q
      using that nodes_opt_prefix by fastforce
    have "set (?g i) \<inter> set (?g j) = {}" if "i < 16" "j < 16" "i \<noteq> j" for i j
    proof -
      have "(of_nat i :: byte) \<noteq> of_nat j" using that by (simp add: word_unat_eq_iff unat_of_nat)
      moreover have False if "q \<in> set (?g i)" "q \<in> set (?g j)" for q
        using snoc_prefix_differ [OF pre [OF that(1)] pre [OF that(2)]] \<open>(of_nat i :: byte) \<noteq> of_nat j\<close> by simp
      ultimately show ?thesis by (intro equals0I) blast
    qed
    then have "distinct (concat (map ?g [0..<16]))"
      using IH by (rule distinct_concat_upt [rotated])
    moreover have "path \<notin> set (concat (map ?g [0..<16]))"
    proof
      assume "path \<in> set (concat (map ?g [0..<16]))"
      then obtain i where "path \<in> set (?g i)" unfolding set_concat by (auto simp del: upt_rec_numeral)
      from prefix_length_le [OF pre [OF this]] show False by simp
    qed
    moreover have "map fst (nodes_opt path (mk p kvs)) = concat (map ?g [0..<16]) @ [path]"
      using True by (simp add: mk.simps [of p kvs] nodes_Branch_map map_concat comp_def
          del: upt_rec_numeral nodes.simps)
    ultimately show ?thesis by simp
  next
    case False
    then show ?thesis by (simp add: mk.simps [of p kvs])
  qed
qed

end
