(* ===== verification/Nimbus_Codec.thy ===== *)
theory Nimbus_Codec
  imports Ethrex_Nibbles Ethrex_Rlp
begin

text \<open>
  The byte codecs of \<open>internal/nimbus\<close>: short big-endian integers (\<open>sbe.go\<close>), hex-prefix paths
  (\<open>hexprefix.go\<close>), key-value row keys (\<open>kvt.go\<close>) and the admin record (\<open>savedstate.go\<close>).

  Every encoder that has a decoder in the sources is shown to be inverted by it; the short
  big-endian encoding is related to the minimal big-endian bytes of RLP.
\<close>

section \<open>Fixed-width big-endian bytes\<close>

text \<open>
  \<open>encoding/binary\<close> of the standard library: \<open>BigEndian.PutUint64\<close>, \<open>LittleEndian.PutUint64\<close> and
  \<open>BigEndian.Uint16\<close>/\<open>Uint64\<close>.
\<close>

definition beBytes :: "nat \<Rightarrow> nat \<Rightarrow> bytes" where
  "beBytes k n = map (\<lambda>i. of_nat (n div 256 ^ i)) (rev [0..<k])"

definition putUint64BE :: "u64 \<Rightarrow> bytes" where
  "putUint64BE v = map (\<lambda>i. ucast (drop_bit (8 * i) v)) (rev [0..<8])"

definition putUint64LE :: "u64 \<Rightarrow> bytes" where
  "putUint64LE v = map (\<lambda>i. ucast (drop_bit (8 * i) v)) [0..<8]"

lemma length_beBytes [simp]: "length (beBytes k n) = k"
  by (simp add: beBytes_def)

lemma beBytes_Suc: "beBytes (Suc k) n = beBytes k (n div 256) @ [of_nat n]"
proof -
  have "rev [0..<Suc k] = map Suc (rev [0..<k]) @ [0]"
    by (simp add: rev_map [symmetric] upt_conv_Cons map_Suc_upt del: upt_Suc)
  then show ?thesis by (simp add: beBytes_def div_mult2_eq)
qed

lemma beBytes_0 [simp]: "beBytes 0 n = []"
  by (simp add: beBytes_def)

lemma beNat_beBytes: "beNat (beBytes k n) = n mod 256 ^ k"
proof (induction k arbitrary: n)
  case (Suc k)
  have "256 * (n div 256 mod 256 ^ k) + n mod 256 = n mod 256 ^ Suc k"
    using mod_mult2_eq [of n 256 "256 ^ k"] by simp
  with Suc show ?case by (simp add: beBytes_Suc unat_of_nat)
qed simp

lemma beBytes_minBEBytes: "beBytes (length (minBEBytes n)) n = minBEBytes n"
proof (induction n rule: minBEBytes.induct)
  case (1 n)
  then show ?case by (simp add: minBEBytes.simps [of n] beBytes_Suc)
qed

lemma ucast_of_nat_unat: "(ucast x :: 'b::len word) = of_nat (unat (x :: 'a::len word))"
  by simp

lemma ucast_drop_bit: "(ucast (drop_bit (8 * i) (v :: u64)) :: byte) = of_nat (unat v div 256 ^ i)"
proof -
  have "drop_bit (8 * i) (unat v) = unat v div 256 ^ i"
    by (simp add: drop_bit_eq_div power_mult)
  then have "unat (drop_bit (8 * i) v) = unat v div 256 ^ i"
    by (simp only: unat_drop_bit_eq)
  then show ?thesis by (metis ucast_of_nat_unat)
qed

lemma putUint64BE_eq: "putUint64BE v = beBytes 8 (unat v)"
  by (simp add: putUint64BE_def beBytes_def ucast_drop_bit)

section \<open>Short big-endian integers\<close>

function SBELen_loop :: "u64 \<Rightarrow> nat \<Rightarrow> nat" where
  "SBELen_loop v n = (if 0x100 \<le> v then SBELen_loop (drop_bit 8 v) (n + 1) else n)"
  by pat_completeness auto
termination
proof (relation "measure (\<lambda>(v, n). unat v)")
  fix v :: u64 and n :: nat
  assume "0x100 \<le> v"
  then have "unat v \<ge> 256" by (simp add: word_le_nat_alt)
  moreover have "unat (drop_bit 8 v) = unat v div 256"
    by (simp only: unat_drop_bit_eq) (simp add: drop_bit_nat_def)
  ultimately show "((drop_bit 8 v, n + 1), v, n) \<in> measure (\<lambda>(v, n). unat v)" by simp
qed simp

declare SBELen_loop.simps [simp del]

definition SBELen :: "u64 \<Rightarrow> nat" where
  "SBELen v = SBELen_loop v 1"

definition AppendSBE :: "bytes \<Rightarrow> u64 \<Rightarrow> bytes" where
  "AppendSBE dst v = dst @ map (\<lambda>i. ucast (drop_bit (8 * i) v)) (rev [0..<SBELen v])"

datatype codec_error =
    SBELength nat
  | SBE256Length nat
  | BadHexPrefix
  | BadKey
  | BadSavedState
  | BadVertex string

definition DecodeSBE :: "bytes \<Rightarrow> codec_error + u64" where
  "DecodeSBE b =
     (if length b < 1 \<or> length b > 8 then Inl (SBELength (length b))
      else Inr (foldl (\<lambda>v c. push_bit 8 v OR ucast c) 0 b))"

text \<open>
  The methods of \<open>uint256.Int\<close> the package uses, from the library holiman/uint256, as one parameter:
  \<open>Bytes\<close>, \<open>SetBytes\<close> and \<open>Bytes32\<close>, with their documented results.
\<close>

record uint256_lib =
  u_Bytes :: "uint256 \<Rightarrow> bytes"
  u_SetBytes :: "bytes \<Rightarrow> uint256"
  u_Bytes32 :: "uint256 \<Rightarrow> bytes"

definition uint256_lib_spec :: "uint256_lib \<Rightarrow> bool" where
  "uint256_lib_spec U \<longleftrightarrow>
     uint256_Bytes_spec (u_Bytes U) \<and>
     (\<forall>b. length b \<le> 32 \<longrightarrow> u_SetBytes U b = of_nat (beNat b)) \<and>
     (\<forall>v. u_Bytes32 U v = beBytes 32 (unat v))"

definition AppendSBE256 :: "uint256_lib \<Rightarrow> bytes \<Rightarrow> uint256 option \<Rightarrow> bytes" where
  "AppendSBE256 U dst v =
     (case v of None \<Rightarrow> dst @ [0] | Some n \<Rightarrow> if n = 0 then dst @ [0] else dst @ u_Bytes U n)"

text \<open>The loop \<open>for i < 31 && v[i] == 0\<close>: leading zeros, but the last byte stays.\<close>

fun sbeTrim :: "bytes \<Rightarrow> bytes" where
  "sbeTrim [] = []"
| "sbeTrim [x] = [x]"
| "sbeTrim (x # y # v) = (if x = 0 then sbeTrim (y # v) else x # y # v)"

definition AppendSBEBytes32 :: "bytes \<Rightarrow> bytes \<Rightarrow> bytes" where
  "AppendSBEBytes32 dst v = dst @ sbeTrim v"

definition DecodeSBE256 :: "uint256_lib \<Rightarrow> bytes \<Rightarrow> codec_error + uint256" where
  "DecodeSBE256 U b =
     (if length b < 1 \<or> length b > 32 then Inl (SBE256Length (length b)) else Inr (u_SetBytes U b))"

lemma SBELen_loop_eq: "SBELen_loop v n = n + (if v = 0 then 0 else length (minBEBytes (unat v)) - 1)"
proof (induction v n rule: SBELen_loop.induct)
  case (1 v n)
  show ?case
  proof (cases "0x100 \<le> v")
    case True
    have u: "unat (drop_bit 8 v) = unat v div 256"
      by (simp only: unat_drop_bit_eq) (simp add: drop_bit_nat_def)
    have big: "unat v \<ge> 256" using True by (simp add: word_le_nat_alt)
    then have "unat v div 256 \<noteq> 0" by simp
    then have nz: "drop_bit 8 v \<noteq> 0" using u by (metis unat_0)
    have "minBEBytes (unat v div 256) \<noteq> []" using \<open>unat v div 256 \<noteq> 0\<close> by simp
    then have "length (minBEBytes (unat v div 256)) \<ge> 1" by (cases "minBEBytes (unat v div 256)") auto
    moreover have "v \<noteq> 0" using True by auto
    ultimately show ?thesis
      using 1 [OF True] True nz u big
      by (simp add: SBELen_loop.simps [of v n] minBEBytes.simps [of "unat v"])
  next
    case False
    then have "unat v div 256 = 0" by (simp add: word_le_nat_alt)
    with False show ?thesis
      by (auto simp: SBELen_loop.simps [of v n] minBEBytes.simps [of "unat v"])
  qed
qed

lemma AppendSBE_eq: "AppendSBE dst v = dst @ (if v = 0 then [0] else minBEBytes (unat v))"
proof (cases "v = 0")
  case True
  then show ?thesis by (simp add: AppendSBE_def SBELen_def SBELen_loop_eq)
next
  case False
  then have "unat v \<noteq> 0" by (simp add: unat_eq_0)
  then have "minBEBytes (unat v) \<noteq> []" by simp
  then have "SBELen v = length (minBEBytes (unat v))"
    using False by (cases "minBEBytes (unat v)") (auto simp: SBELen_def SBELen_loop_eq)
  then show ?thesis
    using False beBytes_minBEBytes [of "unat v"]
    by (simp add: AppendSBE_def beBytes_def ucast_drop_bit)
qed

lemma length_AppendSBE: "length (AppendSBE [] v) = SBELen v"
  by (simp add: AppendSBE_def)

lemma length_minBEBytes_u64: "length (minBEBytes (unat (v :: u64))) \<le> 8"
  using unsigned_less [of v, where ?'a = nat] by (intro length_minBEBytes_8) simp

lemma SBELen_bounds: "1 \<le> SBELen v" "SBELen v \<le> 8"
proof -
  show "1 \<le> SBELen v" by (simp add: SBELen_def SBELen_loop_eq)
  show "SBELen v \<le> 8"
    using length_minBEBytes_u64 [of v] by (auto simp: SBELen_def SBELen_loop_eq)
qed

lemma push_or_u64: "push_bit 8 (v :: u64) OR ucast (c :: byte) = push_bit 8 v + ucast c"
  by (rule disjunctive_add_eq_or [symmetric])
    (auto simp: bit_eq_iff bit_simps dest: bit_imp_le_length)

lemma foldl_be_u64:
  "foldl (\<lambda>v c. push_bit 8 v OR ucast c) 0 b = (of_nat (beNat b) :: u64)"
proof (induction b rule: rev_induct)
  case (snoc c b)
  have "foldl (\<lambda>v c. push_bit 8 v OR ucast c) 0 (b @ [c]) = push_bit 8 (of_nat (beNat b) :: u64) + ucast c"
    by (simp only: foldl_append foldl.simps snoc) (rule push_or_u64)
  also have "\<dots> = of_nat (beNat (b @ [c]))"
    by (simp only: push_bit_eq_mult ucast_of_nat_unat beNat_snoc of_nat_add of_nat_mult) simp
  finally show ?case .
qed simp

lemma DecodeSBE_AppendSBE: "DecodeSBE (AppendSBE [] v) = Inr v"
  using SBELen_bounds [of v] length_AppendSBE [of v]
  by (simp add: DecodeSBE_def foldl_be_u64) (simp add: AppendSBE_eq beNat_snoc [of "[]", simplified])

lemma DecodeSBE_Inr_iff: "(\<exists>v. DecodeSBE b = Inr v) \<longleftrightarrow> 1 \<le> length b \<and> length b \<le> 8"
  by (cases b) (auto simp: DecodeSBE_def)

lemma AppendSBE_append: "AppendSBE dst v = dst @ AppendSBE [] v"
  by (simp add: AppendSBE_def)

lemma AppendSBE256_eq:
  assumes "uint256_lib_spec U"
  shows "AppendSBE256 U dst (Some v) = dst @ (if v = 0 then [0] else minBEBytes (unat v))"
  using assms by (simp add: AppendSBE256_def uint256_lib_spec_def uint256_Bytes_spec_def)

lemma length_minBEBytes_u256: "length (minBEBytes (unat (v :: uint256))) \<le> 32"
  using unsigned_less [of v, where ?'a = nat] by (intro length_minBEBytes_le) simp

lemma DecodeSBE256_AppendSBE256:
  assumes "uint256_lib_spec U"
  shows "DecodeSBE256 U (AppendSBE256 U [] (Some v)) = Inr v"
proof (cases "v = 0")
  case True
  then show ?thesis
    using assms by (simp add: AppendSBE256_eq DecodeSBE256_def uint256_lib_spec_def
        beNat_snoc [of "[]", simplified])
next
  case False
  then have "minBEBytes (unat v) \<noteq> []" by (simp add: unat_eq_0)
  then show ?thesis
    using assms False length_minBEBytes_u256 [of v]
    by (simp add: AppendSBE256_eq [OF assms] DecodeSBE256_def uint256_lib_spec_def not_le)
qed

lemma beNat_0_append: "beNat (0 # b) = beNat b"
  by (simp add: beNat_def)

lemma beNat_sbeTrim: "beNat (sbeTrim b) = beNat b"
  by (induction b rule: sbeTrim.induct) (auto simp: beNat_0_append)

lemma length_sbeTrim: "length (sbeTrim b) \<le> length b" "b \<noteq> [] \<Longrightarrow> sbeTrim b \<noteq> []"
  by (induction b rule: sbeTrim.induct) auto

lemma minBEBytes_sbeTrim: "b \<noteq> [] \<Longrightarrow> sbeTrim b = (if beNat b = 0 then [0] else minBEBytes (beNat b))"
proof (induction b rule: sbeTrim.induct)
  case (3 x y v)
  show ?case
  proof (cases "x = 0")
    case False
    then have "beNat (x # y # v) \<noteq> 0" by (simp add: beNat_Cons unat_eq_0)
    with False show ?thesis by (simp add: minBEBytes_beNat)
  qed (use 3 in \<open>simp add: beNat_0_append\<close>)
next
  case (2 x)
  then show ?case
    using beNat_snoc [of "[]" x] minBEBytes_beNat [of "[x]"] by (auto simp: unat_eq_0)
qed simp

section \<open>Hex-prefix paths\<close>

text \<open>The Go loop \<open>for i := 0; i+1 < len(rest); i += 2\<close> is the one of \<open>packNibbles\<close>.\<close>

definition AppendHexPrefix :: "bytes \<Rightarrow> bytes \<Rightarrow> bool \<Rightarrow> bytes" where
  "AppendHexPrefix dst nibbles leaf =
     (let odd = length nibbles mod 2 = 1;
          flag = (if odd then 0x10 OR nibbles ! 0 else 0);
          start = (if odd then 1 else 0);
          flag = (if leaf then flag OR 0x20 else flag)
      in dst @ [flag] @ packNibbles (drop start nibbles))"

definition HexPrefixLen :: "nat \<Rightarrow> nat" where
  "HexPrefixLen nibbleCount = 1 + nibbleCount div 2"

definition DecodeHexPrefix :: "bytes \<Rightarrow> codec_error + bytes \<times> bool" where
  "DecodeHexPrefix b =
     (case b of
        [] \<Rightarrow> Inl BadHexPrefix
      | flag # rest \<Rightarrow>
          if flag AND 0xc0 \<noteq> 0 then Inl BadHexPrefix
          else if flag AND 0x10 \<noteq> 0 then
            Inr ((flag AND 0x0f) # concat (map (\<lambda>c. [drop_bit 4 c, c AND 0x0f]) rest), flag AND 0x20 \<noteq> 0)
          else if flag AND 0x0f \<noteq> 0 then Inl BadHexPrefix
          else Inr (concat (map (\<lambda>c. [drop_bit 4 c, c AND 0x0f]) rest), flag AND 0x20 \<noteq> 0))"

lemma AppendHexPrefix_appendCompact: "AppendHexPrefix dst nibbles leaf = appendCompact dst nibbles leaf"
  by (simp add: AppendHexPrefix_def appendCompact_def Let_def flip: odd_iff_mod_2_eq_one)

lemma BytesToNibbles_concat: "concat (map (\<lambda>c. [drop_bit 4 c, c AND 15]) b) = BytesToNibbles b"
  by (induction b) simp_all

lemma length_packNibbles: "length (packNibbles r) = length r div 2"
  by (induction r rule: packNibbles.induct) auto

lemma HexPrefixLen_eq: "length (AppendHexPrefix [] nibbles leaf) = HexPrefixLen (length nibbles)"
proof -
  have "(length nibbles - Suc 0) div 2 = length nibbles div 2" if "length nibbles mod 2 = Suc 0"
    using that by presburger
  then show ?thesis by (simp add: AppendHexPrefix_def HexPrefixLen_def Let_def length_packNibbles)
qed

lemma BytesToNibbles_packNibbles:
  "list_all is_nibble r \<Longrightarrow> even (length r) \<Longrightarrow> BytesToNibbles (packNibbles r) = r"
  by (induction r rule: packNibbles.induct) (auto simp: high_join low_join simp del: drop_bit_or)

text \<open>A statement about a nibble can be decided on the sixteen values.\<close>

lemma nibble_all:
  assumes "list_all (\<lambda>m. P (of_nat m)) [0..<16]" "is_nibble n"
  shows "P n"
proof -
  have "unat n \<in> set [0..<16]" using assms by (simp add: is_nibble_def)
  with assms(1) have "P (of_nat (unat n))" unfolding list_all_iff by blast
  then show ?thesis by simp
qed

text \<open>The flag byte of a path: its three bit fields are read back exactly.\<close>

lemma flag_fields:
  assumes "is_nibble n"
  shows "(0x10 OR n) AND 0xc0 = 0 \<and> ((0x10 OR n) OR 0x20) AND 0xc0 = 0 \<and>
    (0x10 OR n) AND 0x10 \<noteq> 0 \<and> ((0x10 OR n) OR 0x20) AND 0x10 \<noteq> 0 \<and>
    (0x10 OR n) AND 0x20 = 0 \<and> ((0x10 OR n) OR 0x20) AND 0x20 \<noteq> 0 \<and>
    (0x10 OR n) AND 0x0f = n \<and> ((0x10 OR n) OR 0x20) AND 0x0f = n"
    (is "?P n")
  by (rule nibble_all [OF _ assms]) code_simp

lemma DecodeHexPrefix_AppendHexPrefix:
  assumes "list_all is_nibble nibbles"
  shows "DecodeHexPrefix (AppendHexPrefix [] nibbles leaf) = Inr (nibbles, leaf)"
proof (cases "odd (length nibbles)")
  case False
  with assms show ?thesis
    by (simp add: AppendHexPrefix_def DecodeHexPrefix_def BytesToNibbles_concat
        BytesToNibbles_packNibbles Let_def)
next
  case True
  then obtain n r where n: "nibbles = n # r" by (cases nibbles) auto
  with assms True have "is_nibble n" "list_all is_nibble r" "even (length r)" by auto
  moreover from this have "Suc (length r) mod 2 = 1" by presburger
  ultimately show ?thesis
    using flag_fields [OF \<open>is_nibble n\<close>]
    by (simp add: n AppendHexPrefix_def DecodeHexPrefix_def BytesToNibbles_concat
        BytesToNibbles_packNibbles Let_def)
qed

section \<open>Row keys of the key-value table\<close>

definition kindGenericHash :: byte where "kindGenericHash = 0"
definition kindBlockNumberToHash :: byte where "kindBlockNumberToHash = 1"
definition kindBlockHashToScore :: byte where "kindBlockHashToScore = 2"
definition kindCanonicalHeadHash :: byte where "kindCanonicalHeadHash = 4"
definition kindContractHash :: byte where "kindContractHash = 6"
definition kindFcuNumAndHash :: byte where "kindFcuNumAndHash = 8"

definition FcuHead :: u64 where "FcuHead = 0"
definition FcuFinalized :: u64 where "FcuFinalized = 1"
definition FcuSafe :: u64 where "FcuSafe = 2"

text \<open>\<open>common.Hash\<close> is an array of 32 bytes; here a byte list, of which \<open>copy\<close> takes the first 32.\<close>

definition hashKey :: "byte \<Rightarrow> bytes \<Rightarrow> bytes" where
  "hashKey kind h = kind # h"

definition u64Key :: "byte \<Rightarrow> u64 \<Rightarrow> bytes" where
  "u64Key kind u = kind # putUint64LE u"

definition KeyHeader :: "bytes \<Rightarrow> bytes" where "KeyHeader h = hashKey kindGenericHash h"
definition KeyBlockNumToHash :: "u64 \<Rightarrow> bytes" where "KeyBlockNumToHash n = u64Key kindBlockNumberToHash n"
definition KeyScore :: "bytes \<Rightarrow> bytes" where "KeyScore h = hashKey kindBlockHashToScore h"
definition KeyCanonicalHead :: bytes where "KeyCanonicalHead = [kindCanonicalHeadHash, 0x00]"
definition KeyCode :: "bytes \<Rightarrow> bytes" where "KeyCode codeHash = hashKey kindContractHash codeHash"
definition KeyFcu :: "u64 \<Rightarrow> bytes" where "KeyFcu idx = u64Key kindFcuNumAndHash idx"

definition RLPHash :: "bytes \<Rightarrow> bytes" where "RLPHash h = 0xa0 # h"
definition RLPZeroScore :: bytes where "RLPZeroScore = [0x80]"

definition FcuValue :: "u64 \<Rightarrow> bytes \<Rightarrow> bytes" where
  "FcuValue number hash = putUint64BE number @ hash"

lemma beBytes_beNat: "beBytes (length b) (beNat b) = b"
proof (induction b rule: rev_induct)
  case (snoc x b)
  have "(256 * beNat b + unat x) div 256 = beNat b" using unat_byte_less [of x] by simp
  moreover have "of_nat (256 * beNat b + unat x) = x"
    by (simp add: word_unat_eq_iff unat_of_nat unat_word_ariths)
  ultimately show ?case using snoc by (simp add: beBytes_Suc del: of_nat_add)
qed simp

lemma putUint64LE_rev: "putUint64LE v = rev (putUint64BE v)"
  by (simp add: putUint64LE_def putUint64BE_def rev_map)

lemma beNat_putUint64BE [simp]: "beNat (putUint64BE v) = unat v"
  using unsigned_less [of v, where ?'a = nat] by (simp add: putUint64BE_eq beNat_beBytes)

lemma putUint64BE_inj [simp]: "putUint64BE u = putUint64BE v \<longleftrightarrow> u = v"
  by (metis beNat_putUint64BE word_unat_eq_iff)

lemma length_putUint64BE [simp]: "length (putUint64BE v) = 8"
  by (simp add: putUint64BE_eq)

lemma putUint64LE_inj [simp]: "putUint64LE u = putUint64LE v \<longleftrightarrow> u = v"
  by (simp add: putUint64LE_rev)

lemma length_putUint64LE [simp]: "length (putUint64LE v) = 8"
  by (simp add: putUint64LE_rev)

text \<open>The row kinds as data: the table holds one row family per constructor.\<close>

datatype kvt_row =
    HeaderRow bytes
  | NumToHashRow u64
  | ScoreRow bytes
  | CanonicalHeadRow
  | CodeRow bytes
  | FcuRow u64

fun kvt_key :: "kvt_row \<Rightarrow> bytes" where
  "kvt_key (HeaderRow h) = KeyHeader h"
| "kvt_key (NumToHashRow n) = KeyBlockNumToHash n"
| "kvt_key (ScoreRow h) = KeyScore h"
| "kvt_key CanonicalHeadRow = KeyCanonicalHead"
| "kvt_key (CodeRow h) = KeyCode h"
| "kvt_key (FcuRow i) = KeyFcu i"

lemmas kvt_key_defs =
  KeyHeader_def KeyBlockNumToHash_def KeyScore_def KeyCanonicalHead_def KeyCode_def KeyFcu_def
  hashKey_def u64Key_def kindGenericHash_def kindBlockNumberToHash_def kindBlockHashToScore_def
  kindCanonicalHeadHash_def kindContractHash_def kindFcuNumAndHash_def

lemma kvt_key_inj: "kvt_key a = kvt_key b \<longleftrightarrow> a = b"
  by (cases a; cases b) (auto simp: kvt_key_defs)

section \<open>The admin record\<close>

record SavedState =
  VTop :: u64
  Serial :: u64

definition SavedStateMagic :: byte where "SavedStateMagic = 0x7e"
definition SavedStateLegacyMagic :: byte where "SavedStateLegacyMagic = 0x7f"
definition SavedStateLen :: nat where "SavedStateLen = 17"
definition AdminKey :: bytes where "AdminKey = []"

definition EncodeSavedState :: "SavedState \<Rightarrow> bytes" where
  "EncodeSavedState s = putUint64BE (VTop s) @ putUint64BE (Serial s) @ [SavedStateMagic]"

definition getUint64BE :: "bytes \<Rightarrow> u64" where
  "getUint64BE b = of_nat (beNat b)"

definition DecodeSavedState :: "bytes \<Rightarrow> codec_error + SavedState" where
  "DecodeSavedState b =
     (if length b \<noteq> SavedStateLen then Inl BadSavedState
      else if b ! 16 \<noteq> SavedStateMagic \<and> b ! 16 \<noteq> SavedStateLegacyMagic then Inl BadSavedState
      else Inr \<lparr>VTop = getUint64BE (subslice 0 8 b), Serial = getUint64BE (subslice 8 16 b)\<rparr>)"

lemma putUint64BE_getUint64BE: "length b = 8 \<Longrightarrow> putUint64BE (getUint64BE b) = b"
  using beNat_less [of b] beBytes_beNat [of b]
  by (simp add: putUint64BE_eq getUint64BE_def unat_of_nat)

lemma getUint64BE_putUint64BE [simp]: "getUint64BE (putUint64BE v) = v"
  by (simp add: getUint64BE_def)

lemma DecodeSavedState_EncodeSavedState: "DecodeSavedState (EncodeSavedState s) = Inr s"
  by (simp add: DecodeSavedState_def EncodeSavedState_def SavedStateLen_def subslice_def nth_append)

lemma DecodeSavedState_Inr_iff:
  "DecodeSavedState b = Inr s \<longleftrightarrow>
     b = EncodeSavedState s \<or> b = putUint64BE (VTop s) @ putUint64BE (Serial s) @ [SavedStateLegacyMagic]"
  (is "?L \<longleftrightarrow> ?R")
proof
  assume L: ?L
  then have len: "length b = 17"
    and m: "b ! 16 = SavedStateMagic \<or> b ! 16 = SavedStateLegacyMagic"
    and s: "VTop s = getUint64BE (take 8 b)" "Serial s = getUint64BE (take 8 (drop 8 b))"
    by (auto simp: DecodeSavedState_def SavedStateLen_def subslice_def split: if_splits)
  have "b = take 8 b @ take 8 (drop 8 b) @ drop 16 b"
    by (metis append_take_drop_id drop_drop numeral_Bit0 add.commute)
  moreover have "drop 16 b = [b ! 16]"
    using len by (metis Cons_nth_drop_Suc One_nat_def Suc_eq_plus1 add.commute drop_all
        lessI nat_le_linear numeral_plus_one semiring_norm(3,5) one_plus_numeral)
  ultimately show ?R using len m s by (auto simp: EncodeSavedState_def putUint64BE_getUint64BE)
next
  assume ?R
  then show ?L
    by (auto simp: DecodeSavedState_def EncodeSavedState_def SavedStateLen_def subslice_def nth_append)
qed

section \<open>Properties\<close>

text \<open>
  a nibble path survives its hex-prefix encoding, of even or odd length, together with the flag
  that tells leaf from extension, and the encoding has the length \<open>HexPrefixLen\<close> predicts.
\<close>

theorem hexprefix_roundtrip:
  assumes "list_all is_nibble nibbles"
  shows "DecodeHexPrefix (AppendHexPrefix [] nibbles leaf) = Inr (nibbles, leaf) \<and>
    length (AppendHexPrefix [] nibbles leaf) = HexPrefixLen (length nibbles)"
  using assms by (simp add: DecodeHexPrefix_AppendHexPrefix HexPrefixLen_eq)

theorem hexprefix_roundtrip_witness:
  "DecodeHexPrefix (AppendHexPrefix [] [1, 15, 7] True) = Inr ([1, 15, 7], True) \<and>
    length (AppendHexPrefix [] [1, 15, 7] True) = HexPrefixLen 3"
  using hexprefix_roundtrip [of "[1, 15, 7]" True] by (simp add: is_nibble_def numeral_3_eq_3)

text \<open>
  Two rows of the key-value table have the same key only when they are the same row, so the row
  families (headers, block numbers, scores, the canonical head, code, fork-choice records) never
  collide.
\<close>

theorem kvt_keys_never_collide: "kvt_key a = kvt_key b \<longleftrightarrow> a = b"
  by (rule kvt_key_inj)

text \<open>
  C26: the admin record is decoded from exactly two byte strings: the one \<open>EncodeSavedState\<close> writes
  and the same with the legacy trailer; everything else is rejected.
\<close>

theorem saved_state_decodes_exactly:
  "DecodeSavedState b = Inr s \<longleftrightarrow>
     b = EncodeSavedState s \<or> b = putUint64BE (VTop s) @ putUint64BE (Serial s) @ [SavedStateLegacyMagic]"
  by (rule DecodeSavedState_Inr_iff)

end
