(* ===== verification/Nimbus_Vid.thy ===== *)
theory Nimbus_Vid
  imports Nimbus_Codec "HOL-Library.Disjoint_Sets"
begin

text \<open>
  Vertex identifiers of Aristo, from \<open>internal/nimbus/constants.go\<close> and \<open>internal/nimbus/vid.go\<close>: the
  static numbering of the top levels of a trie, the row keys of the vertex table and the dynamic
  allocator.

  The lemmas show that the static numbering is injective and stays below the dynamic range, that a
  row key determines the vertex it addresses, and that the allocator hands out disjoint blocks
  under every interleaving of its two atomic steps.
\<close>

section \<open>Constants\<close>

type_synonym VertexID = u64

definition FirstStaticVID :: VertexID where "FirstStaticVID = 1"
definition StateRootVID :: VertexID where "StateRootVID = FirstStaticVID"
definition StaticVIDLevels :: nat where "StaticVIDLevels = 8"
definition FirstDynamicVID :: VertexID where "FirstDynamicVID = 0x111111112"
definition MaxVertexBlobSize :: nat where "MaxVertexBlobSize = 118"
definition MaxStoHint :: byte where "MaxStoHint = of_nat StaticVIDLevels + 1"

definition StaticOffset :: "u64 list" where
  "StaticOffset = [1, 2, 18, 274, 4370, 69906, 1118482, 17895698, 286331154, 4581298450]"

record RootedVertexID =
  Root :: VertexID
  Vid :: VertexID

section \<open>Static numbering\<close>

text \<open>Reading \<open>path[i]\<close> past the end, or \<open>StaticOffset[d]\<close> past its ten entries, is a panic: \<open>None\<close>.\<close>

definition StaticVid :: "bytes \<Rightarrow> nat \<Rightarrow> VertexID option" where
  "StaticVid path level =
     (if level = 0 then Some FirstStaticVID
      else if level > length path then None
      else Some (foldl (\<lambda>v i. v + push_bit (i * 4) 1 + push_bit ((level - i - 1) * 4) (ucast (path ! i)))
                   FirstStaticVID [0..<level]))"

definition StaticStartVid :: "bytes \<Rightarrow> nat \<Rightarrow> VertexID option" where
  "StaticStartVid path childPos =
     (if childPos \<ge> length StaticOffset \<or> childPos - 1 > length path then None
      else Some (foldl (\<lambda>v i. v + push_bit ((childPos - 1 - i) * 4) (ucast (path ! i)))
                   (StaticOffset ! childPos) [0..<childPos - 1]))"

definition IsStatic :: "VertexID \<Rightarrow> bool" where
  "IsStatic v \<longleftrightarrow> v \<ge> FirstStaticVID \<and> v < FirstDynamicVID"

section \<open>Row keys\<close>

definition AppendKey :: "bytes \<Rightarrow> RootedVertexID \<Rightarrow> bytes" where
  "AppendKey dst r =
     (let dst = dst @ [of_nat (SBELen (Root r))];
          dst = AppendSBE dst (Root r)
      in if Vid r \<noteq> Root r then AppendSBE dst (Vid r) else dst)"

definition ParseKey :: "bytes \<Rightarrow> codec_error + RootedVertexID" where
  "ParseKey b =
     (if length b < 2 then Inl BadKey
      else let rlen = unat (b ! 0) in
        if rlen < 1 \<or> rlen > 8 \<or> length b < rlen + 1 then Inl BadKey
        else bindE (DecodeSBE (subslice 1 (rlen + 1) b)) (\<lambda>root.
          if length b > rlen + 1 then
            bindE (DecodeSBE (drop (rlen + 1) b)) (\<lambda>vid.
              if vid = root then Inl BadKey else Inr \<lparr>Root = root, Vid = vid\<rparr>)
          else Inr \<lparr>Root = root, Vid = root\<rparr>))"

section \<open>The dynamic allocator\<close>

record VidAllocator =
  top :: u64
  touched :: bool

definition NewVidAllocator :: VidAllocator where
  "NewVidAllocator = \<lparr>top = FirstDynamicVID - 1, touched = False\<rparr>"

definition Alloc :: "u64 \<Rightarrow> VidAllocator \<Rightarrow> VertexID \<times> VidAllocator" where
  "Alloc n a =
     (let a = a\<lparr>touched := True\<rparr>;
          a = a\<lparr>top := top a + n\<rparr>
      in (top a - n + 1, a))"

definition AllocVTop :: "VidAllocator \<Rightarrow> u64" where
  "AllocVTop a = (if \<not> touched a then 0 else top a)"

section \<open>Facts on the static numbering\<close>

definition soff :: "nat \<Rightarrow> nat" where
  "soff d = 1 + (\<Sum>i<d. 16 ^ i)"

definition nibval :: "bytes \<Rightarrow> nat" where
  "nibval p = foldl (\<lambda>n x. 16 * n + unat x) 0 p"

lemma nibval_Nil [simp]: "nibval [] = 0"
  by (simp add: nibval_def)

lemma nibval_snoc [simp]: "nibval (p @ [x]) = 16 * nibval p + unat x"
  by (simp add: nibval_def)

lemma soff_Suc: "soff (Suc d) = soff d + 16 ^ d"
  by (simp add: soff_def)

lemma soff_0 [simp]: "soff 0 = 1"
  by (simp add: soff_def)

lemma soff_mono: "d \<le> e \<Longrightarrow> soff d \<le> soff e"
  by (induction rule: dec_induct) (auto simp: soff_Suc)

lemma soff_numeral: "soff (numeral k) = soff (pred_numeral k) + 16 ^ pred_numeral k"
  by (simp add: numeral_eq_Suc soff_Suc)

lemma soff_1: "soff (Suc 0) = 2"
  by (simp add: soff_Suc)

lemma StaticOffset_soff: "d < length StaticOffset \<Longrightarrow> StaticOffset ! d = of_nat (soff d)"
proof -
  have "StaticOffset = map of_nat (map soff [0, Suc 0, 2, 3, 4, 5, 6, 7, 8, 9])"
    by (simp add: StaticOffset_def soff_numeral soff_1)
  moreover have "[0, Suc 0, 2, 3, 4, 5, 6, 7, 8, 9] = [0..<10]" by (simp add: upt_rec)
  ultimately have e: "StaticOffset = map (\<lambda>d. of_nat (soff d)) [0..<10]" by (simp only: map_map comp_def)
  assume "d < length StaticOffset"
  then have "d < 10" by (simp add: StaticOffset_def)
  then show ?thesis unfolding e by (subst nth_map) simp_all
qed

lemma soff_9: "soff 9 = 0x111111112"
  by (simp add: soff_numeral soff_1)

lemma nibval_less: "list_all is_nibble p \<Longrightarrow> nibval p < 16 ^ length p"
  by (induction p rule: rev_induct) (auto simp: is_nibble_def)

lemma nibval_inj:
  "list_all is_nibble p \<Longrightarrow> list_all is_nibble q \<Longrightarrow> length p = length q \<Longrightarrow> nibval p = nibval q \<Longrightarrow> p = q"
proof (induction p arbitrary: q rule: rev_induct)
  case (snoc x p)
  then obtain y q' where q: "q = q' @ [y]" by (cases q rule: rev_cases) auto
  with snoc.prems have e: "16 * nibval p + unat x = 16 * nibval q' + unat y"
    and "unat x < 16" "unat y < 16" by (auto simp: is_nibble_def)
  then have "nibval p = nibval q'" by linarith
  moreover from this e have "unat x = unat y" by simp
  ultimately have "nibval p = nibval q'" "unat x = unat y" by simp_all
  with snoc q show ?case by (auto simp: word_unat_eq_iff)
qed simp

lemma nibval_take_Suc: "n < length p \<Longrightarrow> nibval (take (Suc n) p) = 16 * nibval (take n p) + unat (p ! n)"
  by (simp add: take_Suc_conv_app_nth)

text \<open>The value of a nibble string, as the sum the loops accumulate.\<close>

lemma nibval_sum:
  "n \<le> length p \<Longrightarrow> nibval (take n p) * 16 ^ k = (\<Sum>i<n. unat (p ! i) * 16 ^ (n - 1 - i + k))"
proof (induction n arbitrary: k)
  case (Suc n)
  have "(\<Sum>i<n. unat (p ! i) * 16 ^ (n - i + k)) = (\<Sum>i<n. unat (p ! i) * 16 ^ (n - 1 - i + Suc k))"
    by (rule sum.cong) (auto simp: Suc_diff_Suc simp flip: power_Suc)
  also have "\<dots> = nibval (take n p) * 16 ^ Suc k" using Suc.IH [of "Suc k"] Suc.prems by simp
  finally show ?case using Suc.prems by (simp add: nibval_take_Suc algebra_simps)
qed simp

lemma foldl_of_nat_sum:
  "foldl (\<lambda>v i. v + of_nat (f i)) (of_nat a) [0..<n] = (of_nat (a + (\<Sum>i<n. f i)) :: u64)"
  by (induction n) (simp_all add: algebra_simps)

lemma push_bit_u64: "push_bit (k * 4) (ucast (x :: byte)) = (of_nat (unat x * 16 ^ k) :: u64)"
proof -
  have "(2 :: u64) ^ (k * 4) = 16 ^ k" using power_mult [of "2 :: u64" 4 k] by (simp add: mult.commute)
  then show ?thesis by (simp add: push_bit_eq_mult)
qed

lemma StaticVid_eq:
  assumes "level \<le> length path"
  shows "StaticVid path level = Some (of_nat (soff level + nibval (take level path)))"
proof -
  have p1: "push_bit (i * 4) 1 = (of_nat (16 ^ i) :: u64)" for i
    using push_bit_u64 [of i 1] by simp
  have "(\<Sum>i<level. unat (path ! i) * 16 ^ (level - i - 1)) = nibval (take level path)"
    using nibval_sum [OF assms, of 0] by (simp add: diff_right_commute)
  then have s: "1 + (\<Sum>i<level. 16 ^ i + unat (path ! i) * 16 ^ (level - i - 1)) =
      soff level + nibval (take level path)"
    by (simp add: soff_def sum.distrib)
  have "foldl (\<lambda>v i. v + push_bit (i * 4) 1 + push_bit ((level - i - 1) * 4) (ucast (path ! i)))
      (1 :: u64) [0..<level] =
    foldl (\<lambda>v i. v + of_nat (16 ^ i + unat (path ! i) * 16 ^ (level - i - 1))) (of_nat 1) [0..<level]"
    by (simp only: p1 push_bit_u64 add.assoc of_nat_add of_nat_1)
  also have "\<dots> = of_nat (soff level + nibval (take level path))"
    unfolding foldl_of_nat_sum s ..
  finally show ?thesis
    using assms by (simp add: StaticVid_def FirstStaticVID_def del: of_nat_add)
qed

lemma StaticStartVid_eq:
  assumes "c \<le> length path" "c \<le> 8"
  shows "StaticStartVid path (Suc c) = Some (of_nat (soff (Suc c) + 16 * nibval (take c path)))"
proof -
  have "(\<Sum>i<c. unat (path ! i) * 16 ^ (c - i)) = (\<Sum>i<c. unat (path ! i) * 16 ^ (c - 1 - i + 1))"
    by (rule sum.cong) (auto simp: Suc_diff_Suc simp flip: power_Suc)
  then have s: "soff (Suc c) + (\<Sum>i<c. unat (path ! i) * 16 ^ (c - i)) = soff (Suc c) + 16 * nibval (take c path)"
    using nibval_sum [OF assms(1), of 1] by simp
  have l: "Suc c < length StaticOffset" using assms(2) by (simp add: StaticOffset_def)
  show ?thesis
    using assms l
    by (simp only: StaticStartVid_def StaticOffset_soff push_bit_u64 foldl_of_nat_sum diff_Suc_1 s)
      simp
qed

lemma static_value_bounds:
  assumes "list_all is_nibble p" "length p \<le> 8"
  shows "soff (length p) + nibval p < soff (Suc (length p))" "soff (length p) + nibval p < 0x111111112"
proof -
  show *: "soff (length p) + nibval p < soff (Suc (length p))"
    using nibval_less [OF assms(1)] by (simp add: soff_Suc)
  have "soff (Suc (length p)) \<le> soff 9" using assms(2) by (intro soff_mono) simp
  with * show "soff (length p) + nibval p < 0x111111112" by (simp add: soff_9)
qed

lemma static_value_inj:
  assumes "list_all is_nibble p" "length p \<le> 8" "list_all is_nibble q" "length q \<le> 8"
    and e: "soff (length p) + nibval p = soff (length q) + nibval q"
  shows "p = q"
proof -
  have "\<not> length p < length q" if "list_all is_nibble p" "length p \<le> 8"
    "soff (length p) + nibval p = soff (length q) + nibval q" for p q
    using static_value_bounds(1) [OF that(1,2)] soff_mono [of "Suc (length p)" "length q"] that(3) by linarith
  from this [OF assms(1,2) e] this [OF assms(3,4) e [symmetric]] have "length p = length q" by simp
  with nibval_inj [OF assms(1,3)] e show ?thesis by simp
qed

lemma unat_of_nat_u64: "n < 2 ^ 64 \<Longrightarrow> unat (of_nat n :: u64) = n"
  by (simp add: unat_of_nat)

lemma StaticVid_bounds:
  assumes "level \<le> 8" "level \<le> length path" "list_all is_nibble (take level path)"
  obtains v where "StaticVid path level = Some v" "IsStatic v"
    "unat v = soff level + nibval (take level path)"
proof
  show "StaticVid path level = Some (of_nat (soff level + nibval (take level path)))"
    by (rule StaticVid_eq) fact
  have b: "soff level + nibval (take level path) < 0x111111112"
    using static_value_bounds(2) [OF assms(3)] assms(1,2) by (simp add: min.absorb2)
  then show u: "unat (of_nat (soff level + nibval (take level path)) :: u64) = soff level + nibval (take level path)"
    by (intro unat_of_nat_u64) simp
  have "0 < soff level" by (simp add: soff_def)
  with b u show "IsStatic (of_nat (soff level + nibval (take level path)))"
    by (simp add: IsStatic_def FirstStaticVID_def FirstDynamicVID_def word_le_nat_alt word_less_nat_alt
        del: of_nat_add)
qed

section \<open>Row keys determine the vertex\<close>

lemma AppendKey_append: "AppendKey dst r = dst @ AppendKey [] r"
  by (simp add: AppendKey_def Let_def AppendSBE_append [of "dst @ _"] AppendSBE_append [of "_ # _"]
      AppendSBE_append [of "AppendSBE _ _"])

lemma ParseKey_AppendKey: "ParseKey (AppendKey [] r) = Inr r"
proof -
  have k: "AppendKey [] r = of_nat (SBELen (Root r)) # AppendSBE [] (Root r) @
      (if Vid r \<noteq> Root r then AppendSBE [] (Vid r) else [])"
    by (simp add: AppendKey_def Let_def AppendSBE_append [of "_ # _"] AppendSBE_append [of "AppendSBE _ _"])
  have u: "unat (of_nat (SBELen v) :: byte) = SBELen v" for v
    using SBELen_bounds [of v] by (simp add: unat_of_nat)
  have b: "1 \<le> SBELen v" "SBELen v \<le> 8" "SBELen v \<noteq> 0" for v
    using SBELen_bounds [of v] by auto
  have n: "AppendSBE [] v \<noteq> []" for v
    using b(3) [of v] length_AppendSBE [of v] by auto
  show ?thesis
    using b n
    by (simp add: ParseKey_def Let_def k u length_AppendSBE subslice_def DecodeSBE_AppendSBE not_less
        numeral_2_eq_2 Suc_le_eq)
qed

section \<open>Concurrent allocation\<close>

text \<open>
  A call of \<open>Alloc\<close> is two atomic operations, \<open>touched.Store(true)\<close> and \<open>top.Add(n)\<close>.  The state of one
  call is where it stands between them; a step performs one operation of one call.
\<close>

datatype alloc_call =
    Want u64
  | Stored u64
  | Got u64 VertexID

inductive alloc_step :: "VidAllocator \<times> alloc_call list \<Rightarrow> VidAllocator \<times> alloc_call list \<Rightarrow> bool" where
  store: "i < length ts \<Longrightarrow> ts ! i = Want n \<Longrightarrow>
    alloc_step (a, ts) (a\<lparr>touched := True\<rparr>, ts[i := Stored n])"
| add: "i < length ts \<Longrightarrow> ts ! i = Stored n \<Longrightarrow>
    alloc_step (a, ts) (a\<lparr>top := top a + n\<rparr>, ts[i := Got n (top a + n - n + 1)])"

inductive_cases alloc_stepE: "alloc_step (a, ts) s'"

fun call_size :: "alloc_call \<Rightarrow> nat" where
  "call_size (Want n) = unat n"
| "call_size (Stored n) = unat n"
| "call_size (Got n v) = unat n"

fun call_granted :: "alloc_call \<Rightarrow> nat" where
  "call_granted (Got n v) = unat n"
| "call_granted _ = 0"

fun call_block :: "alloc_call \<Rightarrow> nat set" where
  "call_block (Got n v) = {unat v ..< unat v + unat n}"
| "call_block _ = {}"

definition alloc_inv :: "nat \<Rightarrow> VidAllocator \<times> alloc_call list \<Rightarrow> bool" where
  "alloc_inv sz s =
     (let (a, ts) = s; base = unat (FirstDynamicVID - 1) in
        sum_list (map call_size ts) = sz \<and>
        unat (top a) = base + sum_list (map call_granted ts) \<and>
        (\<forall>i < length ts. call_block (ts ! i) \<subseteq> {base <.. unat (top a)}) \<and>
        (\<forall>i < length ts. \<forall>j < length ts. i \<noteq> j \<longrightarrow> call_block (ts ! i) \<inter> call_block (ts ! j) = {}) \<and>
        (\<forall>t \<in> set ts. t \<in> range Want \<or> touched a))"

lemma alloc_invD:
  assumes "alloc_inv sz (a, ts)"
  shows "sum_list (map call_size ts) = sz"
    "unat (top a) = unat (FirstDynamicVID - 1) + sum_list (map call_granted ts)"
    "\<forall>j < length ts. call_block (ts ! j) \<subseteq> {unat (FirstDynamicVID - 1) <.. unat (top a)}"
    "\<forall>i < length ts. \<forall>j < length ts. i \<noteq> j \<longrightarrow> call_block (ts ! i) \<inter> call_block (ts ! j) = {}"
    "\<forall>t \<in> set ts. t \<in> range Want \<or> touched a"
  using assms unfolding alloc_inv_def Let_def prod.case by blast+

lemma granted_le_size: "sum_list (map call_granted ts) \<le> sum_list (map call_size ts)"
proof (rule sum_list_mono)
  fix t show "call_granted t \<le> call_size t" by (cases t) auto
qed

lemma sum_list_map_update:
  "i < length ts \<Longrightarrow> sum_list (map f (ts[i := t])) + f (ts ! i) = sum_list (map f ts) + (f t :: nat)"
proof (induction ts arbitrary: i)
  case (Cons x ts)
  then show ?case by (cases i) auto
qed simp

lemma unat_add_u64: "unat a + unat b < 2 ^ 64 \<Longrightarrow> unat (a + b :: u64) = unat a + unat b"
  by (simp add: unat_word_ariths)

lemma alloc_inv_init:
  "alloc_inv (sum_list (map unat ns)) (NewVidAllocator, map Want ns)"
  by (auto simp: alloc_inv_def NewVidAllocator_def comp_def)

lemma alloc_inv_step:
  assumes inv: "alloc_inv sz s" and step: "alloc_step s s'"
    and room: "unat (FirstDynamicVID - 1) + sz < 2 ^ 64"
  shows "alloc_inv sz s'"
  using step
proof cases
  case (store i ts n a)
  have "sum_list (map f (ts[i := Stored n])) = sum_list (map f ts)"
    if "f (Stored n) = f (Want n)" for f :: "alloc_call \<Rightarrow> nat"
    using sum_list_map_update [OF store(3), of f "Stored n"] store(4) that by simp
  from this [of call_size] this [of call_granted]
  have "sum_list (map call_size (ts[i := Stored n])) = sum_list (map call_size ts)"
    "sum_list (map call_granted (ts[i := Stored n])) = sum_list (map call_granted ts)" by simp_all
  moreover have "call_block (ts[i := Stored n] ! j) = call_block (ts ! j)" for j
    using store(3,4) by (cases "i = j") simp_all
  ultimately show ?thesis
    using alloc_invD [OF inv [unfolded store(1)]] unfolding store(2) alloc_inv_def Let_def prod.case
    by simp
next
  case (add i ts n a)
  let ?ts = "ts[i := Got n (top a + n - n + 1)]"
  have size: "sum_list (map call_size ?ts) = sum_list (map call_size ts)"
    using sum_list_map_update [OF add(3), of call_size "Got n (top a + n - n + 1)"] add(4) by simp
  have grant: "sum_list (map call_granted ?ts) = sum_list (map call_granted ts) + unat n"
    using sum_list_map_update [OF add(3), of call_granted "Got n (top a + n - n + 1)"] add(4) by simp
  note I = alloc_invD [OF inv [unfolded add(1)]]
  have fits: "unat (top a) + unat n < 2 ^ 64"
    using granted_le_size [of ?ts] size grant I(1,2) room by linarith
  then have t: "unat (top a + n) = unat (top a) + unat n" by (rule unat_add_u64)
  have "touched a" using I(5) add(3,4) nth_mem [OF add(3)] by fastforce
  have blk: "call_block (Got n (top a + n - n + 1)) \<subseteq> {unat (top a) <.. unat (top a) + unat n}"
  proof (cases "n = 0")
    case False
    then have "0 < unat n" by (simp add: unat_gt_0)
    then have "unat (top a) + unat (1 :: u64) < 2 ^ 64" using fits by simp
    then have "unat (top a + 1) = unat (top a) + 1" using unat_add_u64 by fastforce
    then show ?thesis by auto
  qed simp
  have b: "call_block (?ts ! j) = (if j = i then call_block (Got n (top a + n - n + 1)) else call_block (ts ! j))"
    for j using add(3) by simp
  have low: "\<forall>j < length ts. call_block (?ts ! j) \<subseteq> {unat (FirstDynamicVID - 1) <.. unat (top a + n)}"
    unfolding b t
  proof (intro allI impI)
    fix j assume "j < length ts"
    then have "call_block (ts ! j) \<subseteq> {unat (FirstDynamicVID - 1) <.. unat (top a) + unat n}"
      using I(3) by fastforce
    moreover have "call_block (Got n (top a + n - n + 1)) \<subseteq> {unat (FirstDynamicVID - 1) <.. unat (top a) + unat n}"
      using blk I(2) by (auto simp del: call_block.simps)
    ultimately show "(if j = i then call_block (Got n (top a + n - n + 1)) else call_block (ts ! j))
        \<subseteq> {unat (FirstDynamicVID - 1) <.. unat (top a) + unat n}" by (simp del: call_block.simps)
  qed
  have "call_block (ts ! j) \<inter> call_block (Got n (top a + n - n + 1)) = {}" if "j < length ts" for j
    using I(3) that blk by (fastforce simp del: call_block.simps)
  then have "\<forall>j < length ts. \<forall>k < length ts. j \<noteq> k \<longrightarrow> call_block (?ts ! j) \<inter> call_block (?ts ! k) = {}"
    unfolding b using I(4) by (auto simp: Int_commute simp del: call_block.simps)
  with low show ?thesis
    using size grant I(1,2) t \<open>touched a\<close> unfolding add(2) alloc_inv_def Let_def prod.case
    by (simp del: call_block.simps)
qed

lemma alloc_inv_reachable:
  assumes "alloc_step\<^sup>*\<^sup>* s s'" "alloc_inv sz s" "unat (FirstDynamicVID - 1) + sz < 2 ^ 64"
  shows "alloc_inv sz s'"
  using assms by (induction rule: rtranclp_induct) (auto intro: alloc_inv_step)

text \<open>A call that runs without interruption is the two steps in a row.\<close>

lemma Alloc_steps:
  assumes "i < length ts" "ts ! i = Want n" "Alloc n a = (v, a')"
  shows "alloc_step\<^sup>*\<^sup>* (a, ts) (a', ts[i := Got n v])"
proof -
  have "alloc_step (a, ts) (a\<lparr>touched := True\<rparr>, ts[i := Stored n])"
    using assms by (intro alloc_step.store)
  moreover have "alloc_step (a\<lparr>touched := True\<rparr>, ts[i := Stored n]) (a', ts[i := Got n v])"
    using alloc_step.add [of i "ts[i := Stored n]" n "a\<lparr>touched := True\<rparr>"] assms
    by (auto simp: Alloc_def Let_def)
  ultimately show ?thesis by simp
qed

section \<open>Properties\<close>

text \<open>
  C24: the static numbering is an injection of the nibble paths of up to eight levels into the static
  range: within the path the lookup never panics, the identifier lies in \<open>[1, FirstDynamicVID)\<close>, and
  two identifiers are equal exactly when the consumed prefixes are.
\<close>

theorem static_vids_injective:
  assumes "l \<le> StaticVIDLevels" "l \<le> length p" "list_all is_nibble (take l p)"
    and "m \<le> StaticVIDLevels" "m \<le> length q" "list_all is_nibble (take m q)"
  shows "\<exists>v w. StaticVid p l = Some v \<and> StaticVid q m = Some w \<and> IsStatic v \<and> IsStatic w \<and>
    (v = w \<longleftrightarrow> take l p = take m q)"
proof -
  have l: "l \<le> 8" "m \<le> 8" using assms(1,4) by (simp_all add: StaticVIDLevels_def)
  obtain v where v: "StaticVid p l = Some v" "IsStatic v" "unat v = soff l + nibval (take l p)"
    using StaticVid_bounds [OF l(1) assms(2,3)] by blast
  obtain w where w: "StaticVid q m = Some w" "IsStatic w" "unat w = soff m + nibval (take m q)"
    using StaticVid_bounds [OF l(2) assms(5,6)] by blast
  have "take l p = take m q" if "v = w"
    using static_value_inj [OF assms(3) _ assms(6)] l assms(2,5) v(3) w(3) that
    by (simp add: min.absorb2)
  moreover have "v = w" if e: "take l p = take m q"
  proof -
    have "l = m" using assms(2,5) arg_cong [OF e, of length] by simp
    with e v(3) w(3) show ?thesis by (simp add: word_unat_eq_iff)
  qed
  ultimately show ?thesis using v w by blast
qed

theorem static_vids_injective_witness:
  "\<exists>v w. StaticVid [1, 2, 3] 2 = Some v \<and> StaticVid [1, 3] 2 = Some w \<and> IsStatic v \<and> IsStatic w \<and>
    (v = w \<longleftrightarrow> take 2 [1, 2, 3] = take 2 [1, 3 :: byte])"
  by (rule static_vids_injective) (simp_all add: StaticVIDLevels_def is_nibble_def)

text \<open>
  The start identifier recorded in a branch is the identifier of its child 0: for children at
  level \<open>1..8\<close> under a path, start plus the child's nibble is the static identifier of the child.
\<close>

theorem static_start_plus_nibble:
  assumes "1 \<le> childPos" "childPos \<le> StaticVIDLevels" "childPos \<le> length path"
  shows "\<exists>s. StaticStartVid path childPos = Some s \<and>
    StaticVid path childPos = Some (s + ucast (path ! (childPos - 1)))"
proof -
  obtain c where c: "childPos = Suc c" using assms(1) by (cases childPos) auto
  with assms have "c < length path" "c \<le> 8" by (simp_all add: StaticVIDLevels_def)
  with c assms(3) show ?thesis
    by (simp add: StaticStartVid_eq StaticVid_eq nibval_take_Suc)
qed

theorem static_start_plus_nibble_witness:
  "\<exists>s. StaticStartVid [1, 2] 2 = Some s \<and> StaticVid [1, 2] 2 = Some (s + ucast ([1, 2] ! (2 - 1) :: byte))"
  by (rule static_start_plus_nibble) (simp_all add: StaticVIDLevels_def)

text \<open>
  row keys of the vertex table are parsed back to the vertex they address, whatever the trie and
  the vertex, and no vertex row collides with the admin record, whose key is empty.
\<close>

theorem vertex_key_roundtrip:
  "ParseKey (AppendKey [] r) = Inr r \<and> AppendKey [] r \<noteq> AdminKey"
proof
  show *: "ParseKey (AppendKey [] r) = Inr r" by (rule ParseKey_AppendKey)
  then show "AppendKey [] r \<noteq> AdminKey" by (auto simp: AdminKey_def ParseKey_def)
qed

text \<open>
  C25: concurrent calls of \<open>Alloc\<close> on a fresh allocator, under every interleaving of their atomic steps
  and as long as the identifiers fit 64 bits, hand out pairwise disjoint blocks that lie above the
  static range and not above the value \<open>VTop\<close> reports.
\<close>

theorem alloc_blocks_disjoint:
  assumes run: "alloc_step\<^sup>*\<^sup>* (NewVidAllocator, map Want ns) (a, ts)"
    and room: "unat FirstDynamicVID + sum_list (map unat ns) \<le> 2 ^ 64"
    and "i < length ts" "ts ! i = Got n v" "n \<noteq> 0"
  shows "unat FirstDynamicVID \<le> unat v \<and> unat v + unat n - 1 \<le> unat (AllocVTop a) \<and>
    (\<forall>j m w. j < length ts \<and> j \<noteq> i \<and> ts ! j = Got m w \<longrightarrow>
       {unat v ..< unat v + unat n} \<inter> {unat w ..< unat w + unat m} = {})"
proof -
  have f: "unat FirstDynamicVID = Suc (unat (FirstDynamicVID - 1))" by (simp add: FirstDynamicVID_def)
  then have inv: "alloc_inv (sum_list (map unat ns)) (a, ts)"
    using alloc_inv_reachable [OF run alloc_inv_init] room by simp
  note I = alloc_invD [OF this]
  have "0 < unat n" using assms(5) by (simp add: unat_gt_0)
  then have "unat v \<in> call_block (ts ! i)" "unat v + unat n - 1 \<in> call_block (ts ! i)"
    using assms(4) by auto
  with I(3) assms(3) have "unat (FirstDynamicVID - 1) < unat v" "unat v + unat n - 1 \<le> unat (top a)"
    by fastforce+
  moreover have "touched a" using I(5) nth_mem [OF assms(3)] assms(4) by fastforce
  moreover have "call_block (ts ! i) \<inter> call_block (ts ! j) = {}" if "j < length ts" "j \<noteq> i" for j
    using I(4) assms(3) that by blast
  then have "\<forall>j m w. j < length ts \<and> j \<noteq> i \<and> ts ! j = Got m w \<longrightarrow>
       {unat v ..< unat v + unat n} \<inter> {unat w ..< unat w + unat m} = {}"
    using assms(4) by (metis call_block.simps(1))
  moreover note \<open>unat (FirstDynamicVID - 1) < unat v\<close>
  ultimately show ?thesis using f unfolding AllocVTop_def by simp
qed

theorem alloc_blocks_disjoint_witness:
  "\<exists>v a w b. Alloc 16 NewVidAllocator = (v, a) \<and> Alloc 8 a = (w, b) \<and>
     unat FirstDynamicVID \<le> unat v \<and> unat v + 15 \<le> unat (AllocVTop b) \<and>
     {unat v ..< unat v + 16} \<inter> {unat w ..< unat w + 8} = {}"
proof -
  obtain v a where va: "Alloc 16 NewVidAllocator = (v, a)" by fastforce
  obtain w b where wb: "Alloc 8 a = (w, b)" by fastforce
  have "alloc_step\<^sup>*\<^sup>* (NewVidAllocator, map Want [16, 8]) (a, [Got 16 v, Want 8])"
    using Alloc_steps [of 0 "[Want 16, Want 8]" 16, OF _ _ va] by simp
  moreover have "alloc_step\<^sup>*\<^sup>* (a, [Got 16 v, Want 8]) (b, [Got 16 v, Got 8 w])"
    using Alloc_steps [of 1 "[Got 16 v, Want 8]" 8, OF _ _ wb] by simp
  ultimately have "alloc_step\<^sup>*\<^sup>* (NewVidAllocator, map Want [16, 8]) (b, [Got 16 v, Got 8 w])"
    by (rule rtranclp_trans)
  then have d: "unat FirstDynamicVID \<le> unat v \<and> unat v + unat (16 :: u64) - 1 \<le> unat (AllocVTop b) \<and>
      (\<forall>j m x. j < length [Got 16 v, Got 8 w] \<and> j \<noteq> 0 \<and> [Got 16 v, Got 8 w] ! j = Got m x \<longrightarrow>
        {unat v ..< unat v + unat (16 :: u64)} \<inter> {unat x ..< unat x + unat m} = {})"
    by (rule alloc_blocks_disjoint) (simp_all add: FirstDynamicVID_def)
  have "{unat v ..< unat v + unat (16 :: u64)} \<inter> {unat w ..< unat w + unat (8 :: u64)} = {}"
    using d [THEN conjunct2, THEN conjunct2, rule_format, of 1 8 w] by simp
  with va wb d show ?thesis by auto
qed

end
