(* ===== verification/Nimbus_Vertex.thy ===== *)
theory Nimbus_Vertex
  imports Nimbus_Vid
begin

text \<open>
  Vertex records of Aristo, from \<open>internal/nimbus/vertex.go\<close>: the encoders of branches, account leaves
  and storage leaves, and the decoder.

  The main results are that a well-formed vertex is encoded within the reader's buffer and decoded
  back to itself, and that the two encoders of a storage value agree.
\<close>

section \<open>Flags\<close>

definition bitsLeaf :: byte where "bitsLeaf = 0b01"
definition bitsHasKey :: byte where "bitsHasKey = 0b10"
definition maskNonce :: byte where "maskNonce = 0x01"
definition maskBalance :: byte where "maskBalance = 0x02"
definition maskStoID :: byte where "maskStoID = 0x04"
definition maskCodeHash :: byte where "maskCodeHash = 0x08"
definition maskStoHint :: byte where "maskStoHint = 0x10"
definition maskStoLeaf :: byte where "maskStoLeaf = 0x20"

lemmas mask_defs = maskNonce_def maskBalance_def maskStoID_def maskCodeHash_def maskStoHint_def
  maskStoLeaf_def

datatype VertexType = BranchV | ExtBranchV | AccLeafV | StoLeafV

fun VertexType_String :: "VertexType \<Rightarrow> string" where
  "VertexType_String BranchV = ''Branch''"
| "VertexType_String ExtBranchV = ''ExtBranch''"
| "VertexType_String AccLeafV = ''AccLeaf''"
| "VertexType_String StoLeafV = ''StoLeaf''"

section \<open>Encoders\<close>

text \<open>A key that is neither absent nor 32 bytes long is a panic: \<open>None\<close>.\<close>

definition AppendBranch :: "bytes \<Rightarrow> bytes \<Rightarrow> VertexID \<Rightarrow> u16 \<Rightarrow> bytes \<Rightarrow> bytes option" where
  "AppendBranch dst key32 startVid used pfx =
     (if length key32 \<noteq> 0 \<and> length key32 \<noteq> 32 then None
      else let bits = (if length key32 = 32 then bitsHasKey else 0);
               dst = (if length key32 = 32 then dst @ key32 else dst);
               dst = AppendSBE dst startVid;
               dst = dst @ [ucast (drop_bit 8 used), ucast used];
               start = length dst;
               dst = (if length pfx > 0 then AppendHexPrefix dst pfx False else dst);
               hpLen = (if length pfx > 0 then length dst - start else 0)
           in Some (dst @ [push_bit 6 bits OR of_nat hpLen]))"

definition AppendAccLeafPayload ::
    "uint256_lib \<Rightarrow> bytes \<Rightarrow> bytes \<Rightarrow> u64 \<Rightarrow> uint256 option \<Rightarrow> VertexID \<Rightarrow> byte \<Rightarrow> bytes \<Rightarrow> bytes" where
  "AppendAccLeafPayload U EmptyCodeHash dst nonce balance stoID stoHint codeHash =
     (let lens = 0 :: u16; msk = 0;
          (dst, lens, msk) =
            (if nonce > 0 then (AppendSBE dst nonce, lens OR of_nat (SBELen nonce - 1), msk OR maskNonce)
             else (dst, lens, msk));
          (dst, lens, msk) =
            (case balance of
               None \<Rightarrow> (dst, lens, msk)
             | Some v \<Rightarrow>
                 if v = 0 then (dst, lens, msk)
                 else let b = u_Bytes U v in
                   (dst @ b, lens OR push_bit 3 (of_nat (length b - 1)), msk OR maskBalance));
          (dst, lens, msk) =
            (if stoID \<noteq> 0 then
               (AppendSBE dst stoID, lens OR push_bit 8 (of_nat (SBELen stoID - 1)), msk OR maskStoID)
             else (dst, lens, msk));
          (dst, msk) = (if stoHint > 0 then (dst @ [stoHint], msk OR maskStoHint) else (dst, msk));
          (dst, msk) = (if codeHash \<noteq> EmptyCodeHash then (dst @ codeHash, msk OR maskCodeHash) else (dst, msk))
      in dst @ [ucast (drop_bit 8 lens), ucast lens] @ [msk])"

definition AppendStoLeafPayload :: "bytes \<Rightarrow> bytes \<Rightarrow> bytes" where
  "AppendStoLeafPayload dst value = AppendSBEBytes32 dst value @ [maskStoLeaf]"

definition AppendStoLeafPayloadFromRLP :: "bytes \<Rightarrow> bytes \<Rightarrow> bytes" where
  "AppendStoLeafPayloadFromRLP dst valueRLP =
     (let dst =
        (if length valueRLP = 1 \<and> valueRLP ! 0 < 0x80 then dst @ [valueRLP ! 0]
         else if length valueRLP \<ge> 2 \<and> valueRLP ! 0 > 0x80 \<and> valueRLP ! 0 \<le> 0xa0 \<and>
           length valueRLP = unat (valueRLP ! 0 - 0x80) + 1 then dst @ drop 1 valueRLP
         else dst @ [0])
      in dst @ [maskStoLeaf])"

definition AppendLeafRecord :: "bytes \<Rightarrow> bytes \<Rightarrow> bytes \<Rightarrow> bytes" where
  "AppendLeafRecord dst payload pfx =
     (let dst = dst @ payload;
          start = length dst;
          dst = AppendHexPrefix dst pfx True;
          hpLen = length dst - start
      in dst @ [push_bit 6 bitsLeaf OR of_nat hpLen])"

section \<open>Decoded vertices\<close>

text \<open>A nil slice is the empty list and a nil balance \<open>None\<close>; the hashes are arrays of 32 bytes.\<close>

record Vertex =
  Type :: VertexType
  Pfx :: bytes
  Key :: bytes
  StartVid :: VertexID
  Used :: u16
  Nonce :: u64
  Balance :: "uint256 option"
  StoID :: VertexID
  StoHint :: byte
  CodeHash :: bytes
  StoValue :: bytes

definition zeroVertex :: Vertex where
  "zeroVertex = \<lparr>Type = BranchV, Pfx = [], Key = [], StartVid = 0, Used = 0, Nonce = 0, Balance = None,
     StoID = 0, StoHint = 0, CodeHash = replicate 32 0, StoValue = replicate 32 0\<rparr>"

definition getUint16BE :: "bytes \<Rightarrow> u16" where
  "getUint16BE b = of_nat (beNat b)"

text \<open>The closure \<open>take\<close> of the account branch, on the part of \<open>fields\<close> from its position \<open>p\<close> on.\<close>

definition takeField :: "nat \<Rightarrow> bytes \<Rightarrow> codec_error + bytes \<times> bytes" where
  "takeField n rest =
     (if n > length rest then Inl (BadVertex ''account leaf field overruns payload'')
      else Inr (take n rest, drop n rest))"

definition takeNonce :: "byte \<Rightarrow> u16 \<Rightarrow> bytes \<Rightarrow> codec_error + u64 \<times> bytes" where
  "takeNonce msk lens rest =
     (if msk AND maskNonce \<noteq> 0 then
        bindE (takeField (unat (lens AND 0b111) + 1) rest) (\<lambda>(b, rest).
        bindE (DecodeSBE b) (\<lambda>n. Inr (n, rest)))
      else Inr (0, rest))"

definition takeBalance :: "uint256_lib \<Rightarrow> byte \<Rightarrow> u16 \<Rightarrow> bytes \<Rightarrow> codec_error + uint256 \<times> bytes" where
  "takeBalance U msk lens rest =
     (if msk AND maskBalance \<noteq> 0 then
        bindE (takeField (unat (drop_bit 3 lens AND 0b11111) + 1) rest) (\<lambda>(b, rest).
        bindE (DecodeSBE256 U b) (\<lambda>n. Inr (n, rest)))
      else Inr (0, rest))"

definition takeStoID :: "byte \<Rightarrow> u16 \<Rightarrow> bytes \<Rightarrow> codec_error + VertexID \<times> bytes" where
  "takeStoID msk lens rest =
     (if msk AND maskStoID \<noteq> 0 then
        bindE (takeField (unat (drop_bit 8 lens AND 0b111) + 1) rest) (\<lambda>(b, rest).
        bindE (DecodeSBE b) (\<lambda>n. Inr (n, rest)))
      else Inr (0, rest))"

definition takeStoHint :: "byte \<Rightarrow> bytes \<Rightarrow> codec_error + byte \<times> bytes" where
  "takeStoHint msk rest =
     (if msk AND maskStoHint \<noteq> 0 then
        bindE (takeField 1 rest) (\<lambda>(b, rest).
          if b ! 0 > MaxStoHint then Inl (BadVertex ''stoHint'') else Inr (b ! 0, rest))
      else Inr (0, rest))"

definition takeCodeHash :: "bytes \<Rightarrow> byte \<Rightarrow> bytes \<Rightarrow> codec_error + bytes \<times> bytes" where
  "takeCodeHash EmptyCodeHash msk rest =
     (if msk AND maskCodeHash \<noteq> 0 then takeField 32 rest else Inr (EmptyCodeHash, rest))"

definition DecodeAccLeaf :: "uint256_lib \<Rightarrow> bytes \<Rightarrow> bytes \<Rightarrow> byte \<Rightarrow> bytes \<Rightarrow> codec_error + Vertex" where
  "DecodeAccLeaf U EmptyCodeHash pfx msk data =
     (if length data < 3 then Inl (BadVertex ''account leaf payload too short'')
      else let lens = getUint16BE (subslice (length data - 3) (length data - 1) data);
               fields = take (length data - 3) data in
        bindE (takeNonce msk lens fields) (\<lambda>(nonce, rest).
        bindE (takeBalance U msk lens rest) (\<lambda>(balance, rest).
        bindE (takeStoID msk lens rest) (\<lambda>(stoID, rest).
        bindE (takeStoHint msk rest) (\<lambda>(stoHint, rest).
        bindE (takeCodeHash EmptyCodeHash msk rest) (\<lambda>(codeHash, rest).
          if rest \<noteq> [] then Inl (BadVertex ''trailing bytes in account leaf payload'')
          else Inr (zeroVertex\<lparr>Type := AccLeafV, Pfx := pfx, Nonce := nonce, Balance := Some balance,
                 StoID := stoID, StoHint := stoHint, CodeHash := codeHash\<rparr>)))))))"

definition DecodePfx :: "bool \<Rightarrow> nat \<Rightarrow> bytes \<Rightarrow> codec_error + bytes" where
  "DecodePfx isLeaf psLen seg =
     (if psLen > 0 then
        bindE (DecodeHexPrefix seg) (\<lambda>(nib, leafFlag).
          if leafFlag \<noteq> isLeaf then Inl (BadVertex ''hex-prefix leaf flag disagrees with record type'')
          else Inr nib)
      else Inr [])"

definition DecodeVertex :: "uint256_lib \<Rightarrow> bytes \<Rightarrow> bytes \<Rightarrow> codec_error + Vertex" where
  "DecodeVertex U EmptyCodeHash rec =
     (if length rec < 3 then Inl (BadVertex ''short'')
      else if length rec > MaxVertexBlobSize then Inl (BadVertex ''exceeds the reader buffer'')
      else
        let trailer = rec ! (length rec - 1);
            bits = drop_bit 6 trailer;
            isLeaf = (bits AND bitsLeaf \<noteq> 0);
            hasKey = (bits AND bitsHasKey \<noteq> 0);
            psLen = unat (trailer AND 0x3f);
            start = (if hasKey then 32 else 0)
        in
        if psLen > length rec - 2 \<or> start > length rec - 2 - psLen then
          Inl (BadVertex ''path segment / key do not fit'')
        else
          let psPos = length rec - psLen - 1 in
          bindE (DecodePfx isLeaf psLen (subslice psPos (length rec - 1) rec)) (\<lambda>pfx.
            if \<not> isLeaf then
              (if psPos < start + 3 then Inl (BadVertex ''branch without startVid'')
               else let svLen = psPos - start - 2 in
                 bindE (DecodeSBE (subslice start (start + svLen) rec)) (\<lambda>startVid.
                   Inr (zeroVertex\<lparr>Type := if psLen > 0 then ExtBranchV else BranchV, Pfx := pfx,
                     StartVid := startVid,
                     Used := getUint16BE (subslice (start + svLen) (start + svLen + 2) rec),
                     Key := if hasKey then take 32 rec else []\<rparr>)))
            else if psLen = 0 then Inl (BadVertex ''leaf without hex-prefix segment'')
            else
              let data = subslice start psPos rec in
              if length data = 0 then Inl (BadVertex ''empty leaf payload'')
              else
                let msk = data ! (length data - 1) in
                if msk AND maskStoLeaf \<noteq> 0 then
                  bindE (DecodeSBE256 U (take (length data - 1) data)) (\<lambda>val.
                    Inr (zeroVertex\<lparr>Type := StoLeafV, Pfx := pfx, StoValue := u_Bytes32 U val\<rparr>))
                else if msk AND 0xe0 = 0 then DecodeAccLeaf U EmptyCodeHash pfx msk data
                else Inl (BadVertex ''unknown leaf mask'')))"

definition Vertex_Encode :: "uint256_lib \<Rightarrow> bytes \<Rightarrow> Vertex \<Rightarrow> bytes option" where
  "Vertex_Encode U EmptyCodeHash v =
     (case Type v of
        BranchV \<Rightarrow> AppendBranch [] (Key v) (StartVid v) (Used v) (Pfx v)
      | ExtBranchV \<Rightarrow> AppendBranch [] (Key v) (StartVid v) (Used v) (Pfx v)
      | AccLeafV \<Rightarrow>
          Some (AppendLeafRecord []
            (AppendAccLeafPayload U EmptyCodeHash [] (Nonce v) (Balance v) (StoID v) (StoHint v) (CodeHash v))
            (Pfx v))
      | StoLeafV \<Rightarrow> Some (AppendLeafRecord [] (AppendStoLeafPayload [] (StoValue v)) (Pfx v)))"

section \<open>Bit fields\<close>

lemma or_push_bit_nat: "x < 2 ^ m \<Longrightarrow> x OR push_bit m y = x + 2 ^ m * (y :: nat)"
proof -
  assume "x < 2 ^ m"
  then have t: "take_bit m x = x" by (simp add: take_bit_nat_eq_self)
  have "x AND push_bit m y = 0"
    by (subst t [symmetric], rule bit_eqI) (auto simp: bit_simps)
  then have "x OR push_bit m y = x + push_bit m y" by (simp add: disjunctive_add_eq_or)
  then show ?thesis by (simp add: push_bit_nat_def mult.commute)
qed

lemma or_push_bit_word:
  "x < 2 ^ m \<Longrightarrow> of_nat x OR push_bit m (of_nat y) = (of_nat (x + 2 ^ m * y) :: 'a::len word)"
  by (metis of_nat_or_eq of_nat_push_bit or_push_bit_nat)

lemma unat_field:
  "unat (drop_bit d x AND Bit_Operations.mask m) = unat x div 2 ^ d mod 2 ^ m" for x :: "'a::len word"
  by (simp add: unsigned_take_bit_eq unat_drop_bit_eq take_bit_nat_def drop_bit_nat_def flip: take_bit_eq_mask)

lemma trailer_fields:
  assumes "k < 64" "b < 4"
  shows "drop_bit 6 (push_bit 6 (of_nat b) OR of_nat k) = (of_nat b :: byte)"
    "unat ((push_bit 6 (of_nat b) OR of_nat k) AND (0x3f :: byte)) = k"
proof -
  have e: "push_bit 6 (of_nat b) OR of_nat k = (of_nat (k + 64 * b) :: byte)"
    using or_push_bit_word [of k 6 b, where ?'a = 8] assms by (simp add: or.commute)
  have u: "unat (of_nat (k + 64 * b) :: byte) = k + 64 * b"
    using assms by (simp add: unat_of_nat del: of_nat_add)
  have "unat (drop_bit 6 (of_nat (k + 64 * b) :: byte)) = unat (of_nat b :: byte)"
    unfolding unat_drop_bit_eq u using assms by (simp add: drop_bit_nat_def unat_of_nat)
  then show "drop_bit 6 (push_bit 6 (of_nat b) OR of_nat k) = (of_nat b :: byte)"
    unfolding e word_unat_eq_iff .
  have "(0x3f :: byte) = Bit_Operations.mask 6" by (simp add: mask_eq_exp_minus_1)
  then show "unat ((push_bit 6 (of_nat b) OR of_nat k) AND (0x3f :: byte)) = k"
    unfolding e using unat_field [of 0 "of_nat (k + 64 * b) :: byte" 6] assms u
    by (simp del: of_nat_add)
qed

lemma lens_fields:
  assumes "a < 8" "b < 32" "c < 8"
  defines "lens \<equiv> (of_nat a OR push_bit 3 (of_nat b)) OR push_bit 8 (of_nat c) :: u16"
  shows "unat (lens AND 0b111) = a" "unat (drop_bit 3 lens AND 0b11111) = b"
    "unat (drop_bit 8 lens AND 0b111) = c"
proof -
  have "lens = of_nat (a + 8 * b) OR push_bit 8 (of_nat c)"
    using or_push_bit_word [of a 3 b, where ?'a = 16] assms by simp
  also have "\<dots> = of_nat (a + 8 * b + 256 * c)"
    using or_push_bit_word [of "a + 8 * b" 8 c, where ?'a = 16] assms by simp
  finally have "unat lens = a + 8 * b + 256 * c"
    using assms by (simp add: unat_of_nat del: of_nat_add)
  moreover have "a + 8 * b + 256 * c = a + 8 * (b + 32 * c)" by simp
  ultimately have u: "unat lens = a + 8 * (b + 32 * c)" by simp
  have m: "(0b111 :: u16) = Bit_Operations.mask 3" "(0b11111 :: u16) = Bit_Operations.mask 5"
    by (simp_all add: mask_eq_exp_minus_1)
  have d: "(a + 8 * (b + 32 * c)) div 8 = b + 32 * c" using assms(1) by simp
  have "(b + 32 * c) div 32 = c" using assms(2) by simp
  then have d': "(a + 8 * (b + 32 * c)) div 256 = c"
    using div_mult2_eq [of "a + 8 * (b + 32 * c)" 8 32] d by simp
  have r: "(a + 8 * (b + 32 * c)) mod 8 = a" using assms(1) by (simp only: mod_mult_self2 mod_less)
  show "unat (lens AND 0b111) = a"
    using unat_field [of 0 lens 3] r unfolding m u by simp
  show "unat (drop_bit 3 lens AND 0b11111) = b"
    using unat_field [of 3 lens 5] assms(2) d unfolding m u by simp
  show "unat (drop_bit 8 lens AND 0b111) = c"
    using unat_field [of 8 lens 3] assms(3) d' unfolding m u by simp
qed

lemma getUint16BE_bytes: "getUint16BE [ucast (drop_bit 8 v), ucast v] = (v :: u16)"
proof -
  have "unat (ucast (drop_bit 8 v) :: byte) = unat v div 256"
  proof -
    have "unat (drop_bit 8 v) = unat v div 256"
      by (simp only: unat_drop_bit_eq) (simp add: drop_bit_nat_def)
    moreover have "unat v < 65536" using unsigned_less [of v, where ?'a = nat] by simp
    ultimately show ?thesis by (simp add: unsigned_ucast_eq take_bit_nat_def)
  qed
  moreover have "unat (ucast v :: byte) = unat v mod 256" by (simp add: unsigned_ucast_eq take_bit_nat_def)
  ultimately have "beNat [ucast (drop_bit 8 v), ucast v] = unat v"
    by (simp add: beNat_Cons)
  then show ?thesis by (simp add: getUint16BE_def)
qed

section \<open>Account leaves\<close>

definition acc_mask :: "bool \<Rightarrow> bool \<Rightarrow> bool \<Rightarrow> bool \<Rightarrow> bool \<Rightarrow> byte" where
  "acc_mask n b s h c =
     ((((if n then 0x01 else 0) OR (if b then 0x02 else 0)) OR (if s then 0x04 else 0))
       OR (if h then 0x10 else 0)) OR (if c then 0x08 else 0)"

lemma acc_mask_fields:
  "acc_mask n b s h c AND 0x01 \<noteq> 0 \<longleftrightarrow> n" "acc_mask n b s h c AND 0x02 \<noteq> 0 \<longleftrightarrow> b"
  "acc_mask n b s h c AND 0x04 \<noteq> 0 \<longleftrightarrow> s" "acc_mask n b s h c AND 0x10 \<noteq> 0 \<longleftrightarrow> h"
  "acc_mask n b s h c AND 0x08 \<noteq> 0 \<longleftrightarrow> c" "acc_mask n b s h c AND 0x20 = 0"
  "acc_mask n b s h c AND 0xe0 = 0"
  by (cases n; cases b; cases s; cases h; cases c; simp add: acc_mask_def)+

definition sbe_field :: "u64 \<Rightarrow> bytes" where
  "sbe_field v = (if v = 0 then [] else AppendSBE [] v)"

definition sbe_lens :: "bytes \<Rightarrow> nat" where
  "sbe_lens b = length b - 1"

definition acc_lens :: "bytes \<Rightarrow> bytes \<Rightarrow> bytes \<Rightarrow> u16" where
  "acc_lens n b s =
     (of_nat (sbe_lens n) OR push_bit 3 (of_nat (sbe_lens b))) OR push_bit 8 (of_nat (sbe_lens s))"

lemma AppendAccLeafPayload_eq:
  fixes balance :: uint256
  assumes "uint256_lib_spec U"
  defines "bal \<equiv> minBEBytes (unat balance)"
  shows "AppendAccLeafPayload U ech [] nonce (Some balance) stoID stoHint codeHash =
    sbe_field nonce @ bal @ sbe_field stoID @ (if stoHint = 0 then [] else [stoHint]) @
    (if codeHash = ech then [] else codeHash) @
    [ucast (drop_bit 8 (acc_lens (sbe_field nonce) bal (sbe_field stoID))),
     ucast (acc_lens (sbe_field nonce) bal (sbe_field stoID)),
     acc_mask (nonce \<noteq> 0) (balance \<noteq> 0) (stoID \<noteq> 0) (stoHint \<noteq> 0) (codeHash \<noteq> ech)]"
proof -
  have b: "balance \<noteq> 0 \<Longrightarrow> u_Bytes U balance = bal"
    using assms(1) by (simp add: bal_def uint256_lib_spec_def uint256_Bytes_spec_def)
  have n: "nonce > 0 \<longleftrightarrow> nonce \<noteq> 0" "stoHint > 0 \<longleftrightarrow> stoHint \<noteq> 0"
    by (simp_all add: word_neq_0_conv)
  have z: "balance = 0 \<Longrightarrow> bal = []" by (simp add: bal_def)
  have l: "SBELen v = length (AppendSBE [] v)" for v by (simp add: length_AppendSBE)
  have a: "AppendSBE x v = x @ AppendSBE [] v" for x v by (rule AppendSBE_append)
  show ?thesis
    unfolding AppendAccLeafPayload_def n mask_defs
    by (cases "nonce = 0"; cases "balance = 0"; cases "stoID = 0"; cases "stoHint = 0";
        cases "codeHash = ech")
      (simp_all add: Let_def sbe_field_def acc_lens_def sbe_lens_def acc_mask_def z b l a [of "_ @ _"]
        a [of "AppendSBE _ _"] a [of bal])
qed

lemma length_sbe_field: "length (sbe_field v) \<le> 8"
  using SBELen_bounds(2) [of v] by (simp add: sbe_field_def length_AppendSBE)

lemma acc_lens_fields:
  assumes "length b \<le> 32"
  shows "unat (acc_lens (sbe_field n) b (sbe_field s) AND 0b111) = length (sbe_field n) - 1"
    "unat (drop_bit 3 (acc_lens (sbe_field n) b (sbe_field s)) AND 0b11111) = length b - 1"
    "unat (drop_bit 8 (acc_lens (sbe_field n) b (sbe_field s)) AND 0b111) = length (sbe_field s) - 1"
proof -
  have "length (sbe_field n) - 1 < 8" "length b - 1 < 32" "length (sbe_field s) - 1 < 8"
    using assms length_sbe_field [of n] length_sbe_field [of s] by linarith+
  from lens_fields [OF this] show
    "unat (acc_lens (sbe_field n) b (sbe_field s) AND 0b111) = length (sbe_field n) - 1"
    "unat (drop_bit 3 (acc_lens (sbe_field n) b (sbe_field s)) AND 0b11111) = length b - 1"
    "unat (drop_bit 8 (acc_lens (sbe_field n) b (sbe_field s)) AND 0b111) = length (sbe_field s) - 1"
    by (simp_all only: acc_lens_def sbe_lens_def)
qed

lemma takeField_append: "n = length b \<Longrightarrow> takeField n (b @ rest) = Inr (b, rest)"
  by (simp add: takeField_def)

lemma AppendSBE_ne: "AppendSBE [] v \<noteq> []"
  by (auto simp: AppendSBE_eq unat_eq_0)

lemma takeNonce_field:
  assumes "msk AND 0x01 \<noteq> 0 \<longleftrightarrow> v \<noteq> 0" "unat (lens AND 0b111) = length (sbe_field v) - 1"
  shows "takeNonce msk lens (sbe_field v @ rest) = Inr (v, rest)"
proof (cases "v = 0")
  case False
  then have "takeField (unat (lens AND 0b111) + 1) (sbe_field v @ rest) = Inr (sbe_field v, rest)"
    using assms(2) AppendSBE_ne [of v] by (intro takeField_append) (simp add: sbe_field_def)
  with False assms(1) show ?thesis
    by (simp add: takeNonce_def maskNonce_def sbe_field_def DecodeSBE_AppendSBE)
qed (use assms in \<open>simp add: takeNonce_def maskNonce_def sbe_field_def\<close>)

lemma takeStoID_field:
  assumes "msk AND 0x04 \<noteq> 0 \<longleftrightarrow> v \<noteq> 0" "unat (drop_bit 8 lens AND 0b111) = length (sbe_field v) - 1"
  shows "takeStoID msk lens (sbe_field v @ rest) = Inr (v, rest)"
proof (cases "v = 0")
  case False
  then have "takeField (unat (drop_bit 8 lens AND 0b111) + 1) (sbe_field v @ rest) = Inr (sbe_field v, rest)"
    using assms(2) AppendSBE_ne [of v] by (intro takeField_append) (simp add: sbe_field_def)
  with False assms(1) show ?thesis
    by (simp add: takeStoID_def maskStoID_def sbe_field_def DecodeSBE_AppendSBE)
qed (use assms in \<open>simp add: takeStoID_def maskStoID_def sbe_field_def\<close>)

lemma takeBalance_field:
  assumes "uint256_lib_spec U" "msk AND 0x02 \<noteq> 0 \<longleftrightarrow> v \<noteq> 0"
    "unat (drop_bit 3 lens AND 0b11111) = length (minBEBytes (unat v)) - 1"
  shows "takeBalance U msk lens (minBEBytes (unat v) @ rest) = Inr (v, rest)"
proof (cases "v = 0")
  case False
  then have "minBEBytes (unat v) \<noteq> []" by (simp add: unat_eq_0)
  then have "takeField (unat (drop_bit 3 lens AND 0b11111) + 1) (minBEBytes (unat v) @ rest) =
      Inr (minBEBytes (unat v), rest)"
    using assms(3) by (intro takeField_append) (cases "minBEBytes (unat v)", auto)
  with False assms(2) show ?thesis
    using DecodeSBE256_AppendSBE256 [OF assms(1), of v]
    by (simp add: takeBalance_def maskBalance_def AppendSBE256_eq [OF assms(1)])
qed (use assms in \<open>simp add: takeBalance_def maskBalance_def\<close>)

lemma takeStoHint_field:
  assumes "msk AND 0x10 \<noteq> 0 \<longleftrightarrow> v \<noteq> 0" "v \<le> MaxStoHint"
  shows "takeStoHint msk ((if v = 0 then [] else [v]) @ rest) = Inr (v, rest)"
  using assms by (cases "v = 0") (auto simp: takeStoHint_def maskStoHint_def takeField_def)

lemma takeCodeHash_field:
  assumes "msk AND 0x08 \<noteq> 0 \<longleftrightarrow> v \<noteq> ech" "length v = 32"
  shows "takeCodeHash ech msk ((if v = ech then [] else v) @ rest) = Inr (v, rest)"
  using assms by (cases "v = ech") (auto simp: takeCodeHash_def maskCodeHash_def takeField_def)

lemma DecodeAccLeaf_payload:
  assumes U: "uint256_lib_spec U" and hint: "stoHint \<le> MaxStoHint" and code: "length codeHash = 32"
  shows "DecodeAccLeaf U ech pfx
      (acc_mask (nonce \<noteq> 0) (balance \<noteq> 0) (stoID \<noteq> 0) (stoHint \<noteq> 0) (codeHash \<noteq> ech))
      (AppendAccLeafPayload U ech [] nonce (Some balance) stoID stoHint codeHash) =
    Inr (zeroVertex\<lparr>Type := AccLeafV, Pfx := pfx, Nonce := nonce, Balance := Some balance,
      StoID := stoID, StoHint := stoHint, CodeHash := codeHash\<rparr>)"
proof -
  define m where "m = acc_mask (nonce \<noteq> 0) (balance \<noteq> 0) (stoID \<noteq> 0) (stoHint \<noteq> 0) (codeHash \<noteq> ech)"
  define hb where "hb = (if stoHint = 0 then [] else [stoHint])"
  define cb where "cb = (if codeHash = ech then [] else codeHash)"
  define fields where "fields = sbe_field nonce @ minBEBytes (unat balance) @ sbe_field stoID @ hb @ cb"
  define lens where "lens = acc_lens (sbe_field nonce) (minBEBytes (unat balance)) (sbe_field stoID)"
  have p: "AppendAccLeafPayload U ech [] nonce (Some balance) stoID stoHint codeHash =
      fields @ [ucast (drop_bit 8 lens), ucast lens, m]"
    by (simp add: AppendAccLeafPayload_eq [OF U] fields_def lens_def m_def hb_def cb_def)
  note l = acc_lens_fields [OF length_minBEBytes_u256 [of balance], of nonce stoID, folded lens_def]
  have f1: "takeNonce m lens (sbe_field nonce @ r) = Inr (nonce, r)" for r
    unfolding m_def by (rule takeNonce_field [OF acc_mask_fields(1) l(1)])
  have f2: "takeBalance U m lens (minBEBytes (unat balance) @ r) = Inr (balance, r)" for r
    unfolding m_def by (rule takeBalance_field [OF U acc_mask_fields(2) l(2)])
  have f3: "takeStoID m lens (sbe_field stoID @ r) = Inr (stoID, r)" for r
    unfolding m_def by (rule takeStoID_field [OF acc_mask_fields(3) l(3)])
  have f4: "takeStoHint m (hb @ r) = Inr (stoHint, r)" for r
    unfolding m_def hb_def by (rule takeStoHint_field [OF acc_mask_fields(4) hint])
  have f5: "takeCodeHash ech m (cb @ []) = Inr (codeHash, [])"
    unfolding m_def cb_def by (rule takeCodeHash_field [OF acc_mask_fields(5) code])
  have g: "getUint16BE (subslice (length fields) (Suc (Suc (length fields)))
      (fields @ [ucast (drop_bit 8 lens), ucast lens, m])) = lens"
    by (simp add: subslice_def getUint16BE_bytes)
  show ?thesis
    unfolding p m_def [symmetric] DecodeAccLeaf_def Let_def
    by (simp add: g) (simp add: fields_def f1 f2 f3 f4 f5 [simplified])
qed

section \<open>Records\<close>

lemma AppendHexPrefix_append: "AppendHexPrefix dst nibbles leaf = dst @ AppendHexPrefix [] nibbles leaf"
  by (simp add: AppendHexPrefix_def Let_def)

lemma HexPrefixLen_bounds: "n \<le> 64 \<Longrightarrow> 1 \<le> HexPrefixLen n \<and> HexPrefixLen n \<le> 33"
  by (simp add: HexPrefixLen_def)

lemma AppendLeafRecord_eq:
  "AppendLeafRecord [] payload pfx =
     payload @ AppendHexPrefix [] pfx True @ [push_bit 6 1 OR of_nat (HexPrefixLen (length pfx))]"
  by (simp add: AppendLeafRecord_def Let_def AppendHexPrefix_append [of payload] HexPrefixLen_eq
      bitsLeaf_def)

lemma AppendBranch_eq:
  assumes "length key = 0 \<or> length key = 32"
  shows "AppendBranch [] key sv used pfx =
    Some (key @ AppendSBE [] sv @ [ucast (drop_bit 8 used), ucast used] @
      (if pfx = [] then [] else AppendHexPrefix [] pfx False) @
      [push_bit 6 (if key = [] then 0 else 2) OR of_nat (if pfx = [] then 0 else HexPrefixLen (length pfx))])"
  using assms
  by (auto simp: AppendBranch_def Let_def AppendSBE_append [of key] AppendHexPrefix_append [of "_ @ _"]
      HexPrefixLen_eq bitsHasKey_def)

lemma trailer_bits:
  assumes "k < 64"
  shows "drop_bit 6 (push_bit 6 1 OR of_nat k) = (1 :: byte)"
    "drop_bit 6 (push_bit 6 2 OR of_nat k) = (2 :: byte)"
    "drop_bit 6 (of_nat k) = (0 :: byte)"
    "unat ((push_bit 6 1 OR of_nat k) AND (0x3f :: byte)) = k"
    "unat ((push_bit 6 2 OR of_nat k) AND (0x3f :: byte)) = k"
    "unat (of_nat k AND (0x3f :: byte)) = k"
  using trailer_fields [OF assms, of 1] trailer_fields [OF assms, of 2] trailer_fields [OF assms, of 0]
  by simp_all

lemma DecodeVertex_leaf:
  assumes ne: "payload \<noteq> []" and len: "length payload \<le> 84"
    and pfx: "list_all is_nibble pfx" "length pfx \<le> 64"
  shows "DecodeVertex U ech (AppendLeafRecord [] payload pfx) =
    (if last payload AND 0x20 \<noteq> 0 then
       bindE (DecodeSBE256 U (butlast payload)) (\<lambda>val.
         Inr (zeroVertex\<lparr>Type := StoLeafV, Pfx := pfx, StoValue := u_Bytes32 U val\<rparr>))
     else if last payload AND 0xe0 = 0 then DecodeAccLeaf U ech pfx (last payload) payload
     else Inl (BadVertex ''unknown leaf mask''))"
proof -
  define hp where "hp = AppendHexPrefix [] pfx True"
  define k where "k = length hp"
  define t :: byte where "t = push_bit 6 1 OR of_nat k"
  have k: "k = HexPrefixLen (length pfx)" by (simp add: k_def hp_def HexPrefixLen_eq)
  have kb: "1 \<le> k" "k \<le> 33" using HexPrefixLen_bounds [OF pfx(2)] by (simp_all add: k)
  have r: "AppendLeafRecord [] payload pfx = payload @ hp @ [t]"
    by (simp add: AppendLeafRecord_eq hp_def t_def k)
  have t: "drop_bit 6 t = 1" "unat (t AND 0x3f) = k"
    using trailer_bits [of k] kb by (simp_all add: t_def)
  define rec where "rec = payload @ hp @ [t]"
  have R: "length rec = length payload + k + 1" "rec ! (length payload + k) = t"
    "subslice (length payload) (length payload + k) rec = hp" "take (length payload) rec = payload"
    "take (length payload - Suc 0) rec = take (length payload - Suc 0) payload"
    "rec ! (length payload - Suc 0) = payload ! (length payload - Suc 0)"
    using ne by (simp_all add: rec_def k_def nth_append subslice_def)
  have d: "DecodeHexPrefix hp = Inr (pfx, True)"
    unfolding hp_def by (rule DecodeHexPrefix_AppendHexPrefix [OF pfx(1)])
  have l: "length payload \<ge> 1" using ne by (cases payload) auto
  have c: "\<not> length payload + k < 2" "\<not> 117 < length payload + k" "\<not> length payload + k - Suc 0 < k"
    "0 < k" using l len kb by simp_all
  show ?thesis
    unfolding r rec_def [symmetric] DecodeVertex_def DecodePfx_def Let_def
    using c ne
    by (simp add: R t d bitsLeaf_def bitsHasKey_def maskStoLeaf_def MaxVertexBlobSize_def last_conv_nth
        butlast_conv_take)
qed

lemma DecodeVertex_branch:
  assumes key: "length key = 0 \<or> length key = 32"
    and pfx: "list_all is_nibble pfx" "length pfx \<le> 64"
    and enc: "AppendBranch [] key sv used pfx = Some rec"
  shows "length rec \<le> 76"
    "DecodeVertex U ech rec = Inr (zeroVertex\<lparr>Type := if pfx = [] then BranchV else ExtBranchV,
      Pfx := pfx, Key := key, StartVid := sv, Used := used\<rparr>)"
proof -
  define hp where "hp = (if pfx = [] then [] else AppendHexPrefix [] pfx False)"
  define k where "k = length hp"
  define t :: byte where "t = push_bit 6 (if key = [] then 0 else 2) OR of_nat k"
  define b where "b = AppendSBE [] sv"
  define u :: bytes where "u = [ucast (drop_bit 8 used), ucast used]"
  have k: "k = (if pfx = [] then 0 else HexPrefixLen (length pfx))" by (simp add: k_def hp_def HexPrefixLen_eq)
  have kb: "k \<le> 33" "k > 0 \<longleftrightarrow> pfx \<noteq> []" using HexPrefixLen_bounds [OF pfx(2)] by (simp_all add: k)
  have rec: "rec = key @ b @ u @ hp @ [t]"
    using enc by (simp add: AppendBranch_eq [OF key] hp_def t_def k b_def u_def)
  have bl: "1 \<le> length b" "length b \<le> 8" using SBELen_bounds [of sv] by (simp_all add: b_def length_AppendSBE)
  have ul: "length u = 2" by (simp add: u_def)
  have R: "length rec = length key + length b + k + 3" using ul by (simp add: rec k_def)
  then show "length rec \<le> 76" using key bl kb by auto
  have t: "drop_bit 6 t AND 1 = 0" "drop_bit 6 t AND 2 \<noteq> 0 \<longleftrightarrow> key \<noteq> []" "unat (t AND 0x3f) = k"
    using trailer_bits [of k] kb by (simp_all add: t_def)
  have st: "(if drop_bit 6 t AND 2 \<noteq> 0 then 32 else 0) = length key" using key t(2) by auto
  have S: "rec ! (length rec - 1) = t" "subslice (length rec - k - 1) (length rec - 1) rec = hp"
    "subslice (length key) (length key + length b) rec = b"
    "subslice (length key + length b) (length key + length b + 2) rec = u"
    "take (length key) rec = key"
    using ul by (simp_all add: rec k_def nth_append subslice_def)
  have c: "\<not> length rec < 3" "\<not> length rec > MaxVertexBlobSize"
    "\<not> (k > length rec - 2 \<or> length key > length rec - 2 - k)"
    "\<not> length rec - k - 1 < length key + 3" "length rec - k - 1 - length key - 2 = length b"
    using R bl \<open>length rec \<le> 76\<close> unfolding MaxVertexBlobSize_def by linarith+
  have d: "DecodePfx False k hp = Inr pfx"
    using kb DecodeHexPrefix_AppendHexPrefix [OF pfx(1), of False] by (simp add: DecodePfx_def hp_def)
  have D: "DecodeSBE b = Inr sv" "getUint16BE u = used"
    by (simp_all add: b_def u_def DecodeSBE_AppendSBE getUint16BE_bytes)
  have K: "(if drop_bit 6 t AND 2 \<noteq> 0 then take 32 rec else []) = key"
    using key t(2) S(5) by auto
  have f: "(drop_bit 6 t AND 1 \<noteq> 0) = False" using t(1) by simp
  show "DecodeVertex U ech rec = Inr (zeroVertex\<lparr>Type := if pfx = [] then BranchV else ExtBranchV,
      Pfx := pfx, Key := key, StartVid := sv, Used := used\<rparr>)"
    unfolding DecodeVertex_def Let_def S(1) t(3) bitsLeaf_def bitsHasKey_def f st K S(2) d
    using c kb by (simp only: if_False bindE_Inr S D not_True_eq_False simp_thms if_True) simp
qed

lemma DecodeVertex_acc_leaf:
  fixes ech codeHash pfx :: bytes and nonce stoID :: u64 and balance :: uint256
  assumes U: "uint256_lib_spec U" and hint: "stoHint \<le> MaxStoHint" and code: "length codeHash = 32"
    and pfx: "list_all is_nibble pfx" "length pfx \<le> 64"
  defines "rec \<equiv> AppendLeafRecord []
      (AppendAccLeafPayload U ech [] nonce (Some balance) stoID stoHint codeHash) pfx"
  shows "length rec \<le> 118"
    "DecodeVertex U ech rec = Inr (zeroVertex\<lparr>Type := AccLeafV, Pfx := pfx, Nonce := nonce,
      Balance := Some balance, StoID := stoID, StoHint := stoHint, CodeHash := codeHash\<rparr>)"
proof -
  let ?p = "AppendAccLeafPayload U ech [] nonce (Some balance) stoID stoHint codeHash"
  have l: "length ?p \<le> 84"
    using length_sbe_field [of nonce] length_sbe_field [of stoID] length_minBEBytes_u256 [of balance] code
    by (simp add: AppendAccLeafPayload_eq [OF U])
  then show "length rec \<le> 118"
    using HexPrefixLen_bounds [OF pfx(2)] by (simp add: rec_def AppendLeafRecord_eq HexPrefixLen_eq)
  have ne: "?p \<noteq> []" and
    m: "last ?p = acc_mask (nonce \<noteq> 0) (balance \<noteq> 0) (stoID \<noteq> 0) (stoHint \<noteq> 0) (codeHash \<noteq> ech)"
    by (simp_all add: AppendAccLeafPayload_eq [OF U])
  show "DecodeVertex U ech rec = Inr (zeroVertex\<lparr>Type := AccLeafV, Pfx := pfx, Nonce := nonce,
      Balance := Some balance, StoID := stoID, StoHint := stoHint, CodeHash := codeHash\<rparr>)"
    unfolding rec_def DecodeVertex_leaf [OF ne l pfx] m
    using acc_mask_fields(6,7) DecodeAccLeaf_payload [OF U hint code] by simp
qed

lemma DecodeVertex_sto_leaf:
  fixes ech slot pfx :: bytes
  assumes U: "uint256_lib_spec U" and val: "length slot = 32"
    and pfx: "list_all is_nibble pfx" "length pfx \<le> 64"
  defines "rec \<equiv> AppendLeafRecord [] (AppendStoLeafPayload [] slot) pfx"
  shows "length rec \<le> 67"
    "DecodeVertex U ech rec = Inr (zeroVertex\<lparr>Type := StoLeafV, Pfx := pfx, StoValue := slot\<rparr>)"
proof -
  have p: "AppendStoLeafPayload [] slot = sbeTrim slot @ [0x20]"
    by (simp add: AppendStoLeafPayload_def AppendSBEBytes32_def maskStoLeaf_def)
  have v: "slot \<noteq> []" using val by auto
  have tl: "length (sbeTrim slot) \<le> 32" "sbeTrim slot \<noteq> []"
    using length_sbeTrim [of slot] val v by auto
  then have l: "length (AppendStoLeafPayload [] slot) \<le> 84" by (simp add: p)
  show "length rec \<le> 67"
    using HexPrefixLen_bounds [OF pfx(2)] tl by (simp add: rec_def AppendLeafRecord_eq HexPrefixLen_eq p)
  have ne: "AppendStoLeafPayload [] slot \<noteq> []" by (simp add: p)
  have "beNat slot < 256 ^ 32" using beNat_less [of slot] val by simp
  then have "u_Bytes32 U (u_SetBytes U (sbeTrim slot)) = slot"
    using U tl beBytes_beNat [of slot] val
    by (simp add: uint256_lib_spec_def beNat_sbeTrim unat_of_nat)
  moreover have "DecodeSBE256 U (sbeTrim slot) = Inr (u_SetBytes U (sbeTrim slot))"
    using tl by (simp add: DecodeSBE256_def not_less)
  ultimately show "DecodeVertex U ech rec = Inr (zeroVertex\<lparr>Type := StoLeafV, Pfx := pfx, StoValue := slot\<rparr>)"
    unfolding rec_def DecodeVertex_leaf [OF ne l pfx] by (simp add: p)
qed

section \<open>Properties\<close>

text \<open>
  The vertices the package writes: a path of at most 64 nibbles, the fields of the other record kinds
  at their zero values, a branch path exactly when the kind says so, a key of no or 32 bytes, a
  storage hint the reader accepts and 32-byte hashes.
\<close>

definition wf_vertex :: "Vertex \<Rightarrow> bool" where
  "wf_vertex v \<longleftrightarrow> list_all is_nibble (Pfx v) \<and> length (Pfx v) \<le> 64 \<and>
     (case Type v of
        AccLeafV \<Rightarrow> Balance v \<noteq> None \<and> StoHint v \<le> MaxStoHint \<and> length (CodeHash v) = 32 \<and>
          Key v = [] \<and> StartVid v = 0 \<and> Used v = 0 \<and> StoValue v = replicate 32 0
      | StoLeafV \<Rightarrow> length (StoValue v) = 32 \<and> Key v = [] \<and> StartVid v = 0 \<and> Used v = 0 \<and>
          Nonce v = 0 \<and> Balance v = None \<and> StoID v = 0 \<and> StoHint v = 0 \<and> CodeHash v = replicate 32 0
      | _ \<Rightarrow> (Type v = ExtBranchV \<longleftrightarrow> Pfx v \<noteq> []) \<and> (length (Key v) = 0 \<or> length (Key v) = 32) \<and>
          Nonce v = 0 \<and> Balance v = None \<and> StoID v = 0 \<and> StoHint v = 0 \<and>
          CodeHash v = replicate 32 0 \<and> StoValue v = replicate 32 0)"

lemma vertex_encode_decode:
  assumes "uint256_lib_spec U" "wf_vertex v"
  shows "\<exists>rec. Vertex_Encode U ech v = Some rec \<and> length rec \<le> MaxVertexBlobSize \<and>
    DecodeVertex U ech rec = Inr v"
proof (cases "Type v = BranchV \<or> Type v = ExtBranchV")
  case True
  then have key: "length (Key v) = 0 \<or> length (Key v) = 32"
    and pfx: "list_all is_nibble (Pfx v)" "length (Pfx v) \<le> 64"
    using assms(2) by (auto simp: wf_vertex_def)
  obtain rec where r: "AppendBranch [] (Key v) (StartVid v) (Used v) (Pfx v) = Some rec"
    using AppendBranch_eq [OF key] by blast
  have "v = zeroVertex\<lparr>Type := if Pfx v = [] then BranchV else ExtBranchV,
      Pfx := Pfx v, Key := Key v, StartVid := StartVid v, Used := Used v\<rparr>"
    using True assms(2) by (cases v) (auto simp: wf_vertex_def zeroVertex_def)
  then show ?thesis
    using DecodeVertex_branch [OF key pfx r] r True
    by (auto simp: Vertex_Encode_def MaxVertexBlobSize_def)
next
  case False
  have pfx: "list_all is_nibble (Pfx v)" "length (Pfx v) \<le> 64"
    using assms(2) by (auto simp: wf_vertex_def)
  show ?thesis
  proof (cases "Type v = AccLeafV")
    case True
    then obtain balance where b: "Balance v = Some balance" "StoHint v \<le> MaxStoHint" "length (CodeHash v) = 32"
      using assms(2) by (auto simp: wf_vertex_def)
    then have "v = zeroVertex\<lparr>Type := AccLeafV, Pfx := Pfx v, Nonce := Nonce v, Balance := Some balance,
        StoID := StoID v, StoHint := StoHint v, CodeHash := CodeHash v\<rparr>"
      using True assms(2) by (cases v) (auto simp: wf_vertex_def zeroVertex_def)
    then show ?thesis
      using DecodeVertex_acc_leaf [OF assms(1) b(2,3) pfx] True b(1)
      by (auto simp: Vertex_Encode_def MaxVertexBlobSize_def)
  next
    case sto: False
    with False have "Type v = StoLeafV" by (cases "Type v") auto
    moreover from this have "length (StoValue v) = 32"
      "v = zeroVertex\<lparr>Type := StoLeafV, Pfx := Pfx v, StoValue := StoValue v\<rparr>"
      using assms(2) by (auto simp: wf_vertex_def) (cases v, auto simp: zeroVertex_def)
    ultimately show ?thesis
      using DecodeVertex_sto_leaf [OF assms(1) \<open>length (StoValue v) = 32\<close> pfx]
      by (simp add: Vertex_Encode_def MaxVertexBlobSize_def)
  qed
qed

text \<open>
  C16: re-serialising a well-formed vertex never panics, fits the reader's 118-byte buffer and is
  decoded to the same vertex, for branches with and without a stored key, account leaves with every
  combination of present fields, and storage leaves.
\<close>

theorem vertex_roundtrip:
  assumes "uint256_lib_spec U" "wf_vertex v"
  shows "\<exists>rec. Vertex_Encode U ech v = Some rec \<and> length rec \<le> MaxVertexBlobSize \<and>
    DecodeVertex U ech rec = Inr v"
  using assms by (rule vertex_encode_decode)

definition uint256_model :: uint256_lib where
  "uint256_model = \<lparr>u_Bytes = (\<lambda>v. minBEBytes (unat v)), u_SetBytes = (\<lambda>b. of_nat (beNat b)),
     u_Bytes32 = (\<lambda>v. beBytes 32 (unat v))\<rparr>"

lemma uint256_model_spec: "uint256_lib_spec uint256_model"
  by (simp add: uint256_lib_spec_def uint256_model_def uint256_Bytes_spec_def)

theorem vertex_roundtrip_witness:
  "\<exists>rec. Vertex_Encode uint256_model (replicate 32 1) (zeroVertex\<lparr>Type := AccLeafV, Pfx := [1, 2, 3],
      Nonce := 300, Balance := Some 1000000, StoID := 0x111111112, StoHint := 9, CodeHash := replicate 32 7\<rparr>) =
      Some rec \<and> length rec \<le> MaxVertexBlobSize \<and>
    DecodeVertex uint256_model (replicate 32 1) rec = Inr (zeroVertex\<lparr>Type := AccLeafV, Pfx := [1, 2, 3],
      Nonce := 300, Balance := Some 1000000, StoID := 0x111111112, StoHint := 9, CodeHash := replicate 32 7\<rparr>)"
  by (rule vertex_roundtrip [OF uint256_model_spec])
    (simp add: wf_vertex_def zeroVertex_def is_nibble_def MaxStoHint_def StaticVIDLevels_def)

text \<open>
  the payload of a storage leaf does not depend on which encoder wrote it: for a non-zero
  32-byte slot value, encoding its RLP (of the value without leading zeros) is encoding the value.
\<close>

theorem storage_payload_encoders_agree:
  assumes "length slot = 32" "beNat slot \<noteq> 0"
  shows "AppendStoLeafPayloadFromRLP dst (rlpEncodeBytes (minBEBytes (beNat slot))) =
    AppendStoLeafPayload dst slot"
proof -
  define b where "b = minBEBytes (beNat slot)"
  have ne: "b \<noteq> []" using assms(2) by (simp add: b_def)
  have "beNat slot < 256 ^ 32" using beNat_less [of slot] assms(1) by simp
  then have len: "length b \<le> 32" unfolding b_def by (rule length_minBEBytes_le)
  have "slot \<noteq> []" using assms(1) by auto
  then have p: "AppendStoLeafPayload dst slot = dst @ b @ [maskStoLeaf]"
    using assms(2) by (simp add: AppendStoLeafPayload_def AppendSBEBytes32_def minBEBytes_sbeTrim b_def)
  show ?thesis
  proof (cases "length b = 1 \<and> hd b < 0x80")
    case True
    then obtain x where "b = [x]" "x < 0x80" by (cases b) auto
    then show ?thesis
      unfolding p by (simp add: AppendStoLeafPayloadFromRLP_def rlpEncodeBytes_def flip: b_def)
  next
    case False
    have r: "rlpEncodeBytes b = (0x80 + of_nat (length b)) # b"
      using False ne len by (cases b) (auto simp: rlpEncodeBytes_def)
    have u: "unat (0x80 + of_nat (length b) :: byte) = 0x80 + length b"
      using unat_header [of "0x80" "length b"] len by simp
    then have "(0x80 :: byte) < 0x80 + of_nat (length b)" "0x80 + of_nat (length b) \<le> (0xa0 :: byte)"
      "unat (of_nat (length b) :: byte) = length b"
      using ne len by (simp_all add: word_less_nat_alt word_le_nat_alt unat_of_nat)
    moreover have "length b \<ge> 1" using ne by (cases b) auto
    ultimately show ?thesis
      unfolding p b_def [symmetric] AppendStoLeafPayloadFromRLP_def r Let_def using ne by simp
  qed
qed

theorem storage_payload_encoders_agree_witness:
  "AppendStoLeafPayloadFromRLP [] (rlpEncodeBytes (minBEBytes (beNat (replicate 31 0 @ [0x90])))) =
    AppendStoLeafPayload [] (replicate 31 0 @ [0x90])"
  by (rule storage_payload_encoders_agree) simp_all

end
