(* ===== verification/Nimbus_Builder.thy ===== *)
theory Nimbus_Builder
  imports Ethrex_Builder Trie_Branches Nimbus_Vertex
begin

text \<open>
  The streaming builder of Aristo vertex rows, \<open>internal/nimbus/builder.go\<close>: \<open>NewBuilder\<close>, \<open>AddLeaf\<close>,
  \<open>insert\<close>, \<open>foldTo\<close>, \<open>emitLeaf\<close>, \<open>finalizeBranch\<close>, \<open>Root\<close> and \<open>StoHint\<close>.

  As in the ethrex builder the top of the stack is the head of a list, the sink is a state-passing
  function and an error carries no state.  The allocator is part of the builder's state.  A bound
  that Go would reject, or a panic of the packages below, is the error \<open>NPanic\<close>.
\<close>

section \<open>State\<close>

type_synonym vrow = "RootedVertexID \<times> bytes"

type_synonym ('w, 'e) vsink = "RootedVertexID \<Rightarrow> bytes \<Rightarrow> 'w \<Rightarrow> 'e + 'w"

datatype 'e nimbus_error =
    NAddLeafAfterRoot
  | NEmptyKey
  | NKeysOutOfOrder
  | NKeyLength nat int
  | NRootTwice
  | NVertexTooLarge nat
  | NPanic
  | NSinkError 'e

record vbranch =
  vbDepth :: nat
  vbStartVid :: VertexID
  vbUsed :: u16
  vbChildren :: "bytes list"

record 'w vbuilder =
  nRoot :: VertexID
  nAlloc :: VidAllocator
  nStarted :: bool
  nFinished :: bool
  nKeyLen :: int
  nPrevKey :: bytes
  nPrevVal :: bytes
  nPrevPayload :: bytes
  nStack :: "vbranch list"
  nLeafCount :: nat
  nMinLeafDepth :: nat
  nWorld :: 'w

definition maxInt :: nat where
  "maxInt = 2 ^ 63 - 1"

text \<open>\<open>NewBuilder\<close> panics on the root 0; the allocator is never nil here.\<close>

definition nimbus_NewBuilder :: "VertexID \<Rightarrow> VidAllocator \<Rightarrow> 'w \<Rightarrow> 'w vbuilder option" where
  "nimbus_NewBuilder root alloc w =
     (if root = 0 then None
      else Some \<lparr>nRoot = root, nAlloc = alloc, nStarted = False, nFinished = False, nKeyLen = -1,
        nPrevKey = [], nPrevVal = [], nPrevPayload = [], nStack = [], nLeafCount = 0,
        nMinLeafDepth = maxInt, nWorld = w\<rparr>)"

section \<open>Operations\<close>

definition setPrev :: "bytes \<Rightarrow> bytes \<Rightarrow> bytes \<Rightarrow> 'w vbuilder \<Rightarrow> 'w vbuilder" where
  "setPrev key val payload b = b\<lparr>nPrevKey := key, nPrevVal := val, nPrevPayload := payload\<rparr>"

definition StoHintOf :: "'w vbuilder \<Rightarrow> byte" where
  "StoHintOf b =
     (if nLeafCount b = 0 then 0
      else let d = (if nMinLeafDepth b > StaticVIDLevels then StaticVIDLevels else nMinLeafDepth b)
           in of_nat d + 1)"

definition childStartVid :: "'w vbuilder \<Rightarrow> nat \<Rightarrow> 'e nimbus_error + VertexID \<times> 'w vbuilder" where
  "childStartVid b childPos =
     (if childPos \<le> StaticVIDLevels then
        (case StaticStartVid (nPrevKey b) childPos of None \<Rightarrow> Inl NPanic | Some v \<Rightarrow> Inr (v, b))
      else let (v, a) = Alloc 16 (nAlloc b) in Inr (v, b\<lparr>nAlloc := a\<rparr>))"

definition nimbus_newOpenBranch :: "'w vbuilder \<Rightarrow> nat \<Rightarrow> 'e nimbus_error + vbranch \<times> 'w vbuilder" where
  "nimbus_newOpenBranch b d =
     bindE (childStartVid b (d + 1)) (\<lambda>(v, b).
     Inr (\<lparr>vbDepth = d, vbStartVid = v, vbUsed = 0, vbChildren = replicate 16 []\<rparr>, b))"

definition vidUnder :: "'w vbuilder \<Rightarrow> vbranch option \<Rightarrow> 'e nimbus_error + VertexID" where
  "vidUnder b parent =
     (case parent of
        None \<Rightarrow> Inr (nRoot b)
      | Some p \<Rightarrow>
          if vbDepth p < length (nPrevKey b) then Inr (vbStartVid p + ucast (nPrevKey b ! vbDepth p))
          else Inl NPanic)"

definition attach :: "'w vbuilder \<Rightarrow> vbranch \<Rightarrow> bytes \<Rightarrow> 'e nimbus_error + vbranch" where
  "attach b parent ref =
     (if vbDepth parent < length (nPrevKey b) \<and> nib (nPrevKey b) (vbDepth parent) < 16 then
        let n = nib (nPrevKey b) (vbDepth parent) in
        Inr (parent\<lparr>vbChildren := (vbChildren parent)[n := ref], vbUsed := vbUsed parent OR push_bit n 1\<rparr>)
      else Inl NPanic)"

text \<open>The size check and the call of the sink at the end of \<open>emitLeaf\<close> and \<open>finalizeBranch\<close>.\<close>

definition sendRow :: "('w, 'e) vsink \<Rightarrow> vrow \<Rightarrow> 'w \<Rightarrow> 'e nimbus_error + 'w" where
  "sendRow sink r w =
     (if length (snd r) > MaxVertexBlobSize then Inl (NVertexTooLarge (length (snd r)))
      else case sink (fst r) (snd r) w of Inl e \<Rightarrow> Inl (NSinkError e) | Inr w \<Rightarrow> Inr w)"

definition nimbus_emitLeaf ::
  "('w, 'e) vsink \<Rightarrow> 'w vbuilder \<Rightarrow> vbranch option \<Rightarrow> 'e nimbus_error + bytes \<times> 'w vbuilder" where
  "nimbus_emitLeaf sink b parent =
     (let pos = (case parent of None \<Rightarrow> 0 | Some p \<Rightarrow> vbDepth p + 1) in
      if pos > length (nPrevKey b) then Inl NPanic
      else
        let rem = drop pos (nPrevKey b);
            rec = AppendHexPrefix (nPrevPayload b) rem True;
            hpLen = length rec - length (nPrevPayload b);
            rec = rec @ [push_bit 6 bitsLeaf OR of_nat hpLen]
        in
        bindE (vidUnder b parent) (\<lambda>vid.
        bindE (sendRow sink (\<lparr>Root = nRoot b, Vid = vid\<rparr>, rec) (nWorld b)) (\<lambda>w.
        Inr (EncodeLeaf rem (nPrevVal b),
          b\<lparr>nWorld := w, nMinLeafDepth := if pos < nMinLeafDepth b then pos else nMinLeafDepth b\<rparr>))))"

definition nimbus_finalizeBranch ::
  "digest \<Rightarrow> ('w, 'e) vsink \<Rightarrow> 'w vbuilder \<Rightarrow> vbranch \<Rightarrow> vbranch option
    \<Rightarrow> 'e nimbus_error + bytes \<times> 'w vbuilder" where
  "nimbus_finalizeBranch keccak sink b p parent =
     (let from = (case parent of None \<Rightarrow> 0 | Some q \<Rightarrow> vbDepth q + 1) in
      if from > vbDepth p \<or> vbDepth p > length (nPrevKey b) then Inl NPanic
      else
        let pfx = subslice from (vbDepth p) (nPrevKey b);
            branchRLP = EncodeBranch keccak (vbChildren p) [];
            ref = (if length pfx > 0 then EncodeExtension keccak pfx branchRLP else branchRLP);
            key = (if length ref \<ge> 32 then keccak ref else [])
        in
        (case AppendBranch [] key (vbStartVid p) (vbUsed p) pfx of
           None \<Rightarrow> Inl NPanic
         | Some rec \<Rightarrow>
             bindE (vidUnder b parent) (\<lambda>vid.
             bindE (sendRow sink (\<lparr>Root = nRoot b, Vid = vid\<rparr>, rec) (nWorld b)) (\<lambda>w.
             Inr (ref, b\<lparr>nWorld := w\<rparr>)))))"

text \<open>
  \<open>foldTo\<close> pops a branch and takes as parent the next one when it is not above \<open>lcp\<close>, else a new
  branch at \<open>lcp\<close>.  A new parent ends the loop, since its depth is \<open>lcp\<close>.
\<close>

definition foldUnderNew ::
  "digest \<Rightarrow> ('w, 'e) vsink \<Rightarrow> nat \<Rightarrow> 'w vbuilder \<Rightarrow> vbranch \<Rightarrow> vbranch list
    \<Rightarrow> 'e nimbus_error + 'w vbuilder" where
  "foldUnderNew keccak sink lcp b p rest =
     bindE (nimbus_newOpenBranch b lcp) (\<lambda>(parent, b).
     bindE (nimbus_finalizeBranch keccak sink b p (Some parent)) (\<lambda>(ref, b).
     bindE (attach b parent ref) (\<lambda>parent.
     Inr (b\<lparr>nStack := parent # rest\<rparr>))))"

fun nimbus_foldTo ::
  "digest \<Rightarrow> ('w, 'e) vsink \<Rightarrow> nat \<Rightarrow> 'w vbuilder \<Rightarrow> vbranch list \<Rightarrow> 'e nimbus_error + 'w vbuilder" where
  "nimbus_foldTo keccak sink lcp b [] = Inl NPanic"
| "nimbus_foldTo keccak sink lcp b [p] = foldUnderNew keccak sink lcp b p []"
| "nimbus_foldTo keccak sink lcp b (p # parent # rest) =
     (if vbDepth parent \<ge> lcp then
        bindE (nimbus_finalizeBranch keccak sink b p (Some parent)) (\<lambda>(ref, b).
        bindE (attach b parent ref) (\<lambda>parent'.
        if vbDepth parent = lcp then Inr (b\<lparr>nStack := parent' # rest\<rparr>)
        else nimbus_foldTo keccak sink lcp b (parent' # rest)))
      else foldUnderNew keccak sink lcp b p (parent # rest))"

definition nimbus_insert ::
  "digest \<Rightarrow> ('w, 'e) vsink \<Rightarrow> 'w vbuilder \<Rightarrow> bytes \<Rightarrow> 'e nimbus_error + 'w vbuilder" where
  "nimbus_insert keccak sink b key =
     (let lcp = commonPrefixLen (nPrevKey b) key;
          dTop = (case nStack b of [] \<Rightarrow> -1 | tp # _ \<Rightarrow> int (vbDepth tp));
          d = nat (max (int lcp) dTop)
      in
      if int d > dTop then
        bindE (nimbus_newOpenBranch b d) (\<lambda>(nb, b).
        bindE (nimbus_emitLeaf sink b (Some nb)) (\<lambda>(ref, b).
        bindE (attach b nb ref) (\<lambda>nb.
        Inr (b\<lparr>nStack := nb # nStack b\<rparr>))))
      else
        (case nStack b of
           [] \<Rightarrow> Inl NPanic
         | tp # rest \<Rightarrow>
             bindE (nimbus_emitLeaf sink b (Some tp)) (\<lambda>(ref, b).
             bindE (attach b tp ref) (\<lambda>tp.
             if int lcp = dTop then Inr (b\<lparr>nStack := tp # rest\<rparr>)
             else nimbus_foldTo keccak sink lcp b (tp # rest)))))"

definition nimbus_AddLeaf ::
  "digest \<Rightarrow> ('w, 'e) vsink \<Rightarrow> 'w vbuilder \<Rightarrow> bytes \<Rightarrow> bytes \<Rightarrow> bytes \<Rightarrow> 'e nimbus_error + 'w vbuilder" where
  "nimbus_AddLeaf keccak sink b keyNibbles valueRLP leafPayload =
     (if nFinished b then Inl NAddLeafAfterRoot
      else if \<not> nStarted b then
        (if length keyNibbles = 0 then Inl NEmptyKey
         else Inr (setPrev keyNibbles valueRLP leafPayload
                (b\<lparr>nStarted := True, nKeyLen := int (length keyNibbles), nLeafCount := 1\<rparr>)))
      else if bytesCompare keyNibbles (nPrevKey b) \<le> 0 then Inl NKeysOutOfOrder
      else if int (length keyNibbles) \<noteq> nKeyLen b then Inl (NKeyLength (length keyNibbles) (nKeyLen b))
      else
        bindE (nimbus_insert keccak sink b keyNibbles) (\<lambda>b.
        Inr (setPrev keyNibbles valueRLP leafPayload (b\<lparr>nLeafCount := nLeafCount b + 1\<rparr>))))"

text \<open>The loop of \<open>Root\<close>: it ends with the reference of the branch that has no parent.\<close>

fun nimbus_foldRoot ::
  "digest \<Rightarrow> ('w, 'e) vsink \<Rightarrow> 'w vbuilder \<Rightarrow> bytes \<Rightarrow> vbranch list
    \<Rightarrow> 'e nimbus_error + bytes \<times> 'w vbuilder" where
  "nimbus_foldRoot keccak sink b rootRef [] = Inr (rootRef, b\<lparr>nStack := []\<rparr>)"
| "nimbus_foldRoot keccak sink b rootRef [p] =
     bindE (nimbus_finalizeBranch keccak sink b p None) (\<lambda>(ref, b).
     nimbus_foldRoot keccak sink b ref [])"
| "nimbus_foldRoot keccak sink b rootRef (p # parent # rest) =
     bindE (nimbus_finalizeBranch keccak sink b p (Some parent)) (\<lambda>(ref, b).
     bindE (attach b parent ref) (\<lambda>parent.
     nimbus_foldRoot keccak sink b rootRef (parent # rest)))"

definition nimbus_Root ::
  "digest \<Rightarrow> bytes \<Rightarrow> ('w, 'e) vsink \<Rightarrow> 'w vbuilder \<Rightarrow> 'e nimbus_error + bytes \<times> 'w vbuilder" where
  "nimbus_Root keccak EmptyRootHash sink b =
     (if nFinished b then Inl NRootTwice
      else let b = b\<lparr>nFinished := True\<rparr> in
        if nLeafCount b = 0 then Inr (EmptyRootHash, b)
        else
          (case nStack b of
             [] \<Rightarrow>
               bindE (nimbus_emitLeaf sink b None) (\<lambda>(leafRLP, b).
               Inr (keccak leafRLP, b))
           | tp # rest \<Rightarrow>
               bindE (nimbus_emitLeaf sink b (Some tp)) (\<lambda>(ref, b).
               bindE (attach b tp ref) (\<lambda>tp.
               bindE (nimbus_foldRoot keccak sink b [] (tp # rest)) (\<lambda>(rootRef, b).
               Inr (keccak rootRef, b))))))"

text \<open>A whole build; an entry's value is the pair of its node value and its record payload.\<close>

fun nimbus_AddLeaves ::
  "digest \<Rightarrow> ('w, 'e) vsink \<Rightarrow> 'w vbuilder \<Rightarrow> (bytes \<times> bytes) entry list \<Rightarrow> 'e nimbus_error + 'w vbuilder" where
  "nimbus_AddLeaves keccak sink b [] = Inr b"
| "nimbus_AddLeaves keccak sink b ((k, v, p) # kvs) =
     bindE (nimbus_AddLeaf keccak sink b k v p) (\<lambda>b. nimbus_AddLeaves keccak sink b kvs)"

definition nimbus_build ::
  "digest \<Rightarrow> bytes \<Rightarrow> ('w, 'e) vsink \<Rightarrow> VertexID \<Rightarrow> VidAllocator \<Rightarrow> 'w \<Rightarrow> (bytes \<times> bytes) entry list
    \<Rightarrow> 'e nimbus_error + bytes \<times> 'w vbuilder" where
  "nimbus_build keccak EmptyRootHash sink root alloc w kvs =
     (case nimbus_NewBuilder root alloc w of
        None \<Rightarrow> Inl NPanic
      | Some b \<Rightarrow> bindE (nimbus_AddLeaves keccak sink b kvs) (nimbus_Root keccak EmptyRootHash sink))"

end
