(* ===== verification/Nimbus_Trie.thy ===== *)
theory Nimbus_Trie
  imports Trie_Masks Nimbus_Builder
begin

text \<open>
  Correctness of the vertex builder of \<open>internal/nimbus/builder.go\<close> against the reference trie.

  The reference rows list every node of the trie of the entries, children first: a node is stored
  under the start identifier of the branch above it plus its nibble, and its record holds its own
  start identifier, the mask of its children and its path segment.  Start identifiers are the
  static ones for the top levels and consecutive allocator blocks, in order of creation, below.
\<close>

section \<open>Node references\<close>

definition encv :: "digest \<Rightarrow> (bytes \<times> bytes) mpt \<Rightarrow> bytes" where
  "encv keccak t = enc keccak (map_mpt fst t)"

definition encv_opt :: "digest \<Rightarrow> (bytes \<times> bytes) mpt option \<Rightarrow> bytes" where
  "encv_opt keccak c = enc_opt keccak (map_option (map_mpt fst) c)"

lemma encv_Leaf [simp]: "encv keccak (Leaf r v) = EncodeLeaf r (fst v)"
  by (simp add: encv_def)

lemma encv_Branch:
  "encv keccak (Branch pfx cs) =
     (let b = EncodeBranch keccak (map (encv_opt keccak) cs) []
      in if pfx = [] then b else EncodeExtension keccak pfx b)"
  by (simp add: encv_def enc_Branch enc_branch_def encv_opt_def [abs_def] comp_def Let_def)

lemma map_encv_put:
  "map (encv_opt keccak) (put i t cs) = (map (encv_opt keccak) cs)[i := encv keccak t]"
  by (simp add: put_def map_update encv_opt_def encv_def)

lemma encv_opt_None [simp]: "encv_opt keccak None = []"
  by (simp add: encv_opt_def)

section \<open>Reference rows\<close>

definition vid_of :: "(bytes \<Rightarrow> VertexID) \<Rightarrow> VertexID \<Rightarrow> bytes \<Rightarrow> VertexID" where
  "vid_of S root path = (if path = [] then root else S (butlast path) + ucast (last path))"

definition branch_key :: "digest \<Rightarrow> (bytes \<times> bytes) mpt \<Rightarrow> bytes" where
  "branch_key keccak t = (if length (encv keccak t) \<ge> 32 then keccak (encv keccak t) else [])"

fun record_of :: "digest \<Rightarrow> (bytes \<Rightarrow> VertexID) \<Rightarrow> bytes \<Rightarrow> (bytes \<times> bytes) mpt \<Rightarrow> bytes" where
  "record_of keccak S path (Leaf r v) = AppendLeafRecord [] (snd v) r"
| "record_of keccak S path (Branch pfx cs) =
     the (AppendBranch [] (branch_key keccak (Branch pfx cs)) (S (path @ pfx)) (usedOf cs) pfx)"

definition vrow :: "digest \<Rightarrow> (bytes \<Rightarrow> VertexID) \<Rightarrow> VertexID \<Rightarrow> (bytes \<times> bytes) node_event \<Rightarrow> vrow" where
  "vrow keccak S root ev =
     (\<lparr>Root = root, Vid = vid_of S root (fst ev)\<rparr>, record_of keccak S (fst ev) (snd ev))"

definition sendRows :: "('w, 'e) vsink \<Rightarrow> vrow list \<Rightarrow> 'w \<Rightarrow> 'e nimbus_error + 'w" where
  "sendRows sink rs w = foldE (sendRow sink) rs w"

lemma sendRows_simps [simp]:
  "sendRows sink [] w = Inr w"
  "sendRows sink (r # rs) w = bindE (sendRow sink r w) (sendRows sink rs)"
  by (simp_all add: sendRows_def [abs_def])

lemma sendRows_append: "sendRows sink (xs @ ys) w = bindE (sendRows sink xs w) (sendRows sink ys)"
  by (simp add: sendRows_def [abs_def] foldE_append)

section \<open>The builder follows the reference spine\<close>

definition vconc :: "digest \<Rightarrow> (bytes \<Rightarrow> VertexID) \<Rightarrow> bytes \<Rightarrow> (bytes \<times> bytes) open_branch \<Rightarrow> vbranch" where
  "vconc keccak S key b =
     \<lparr>vbDepth = fst b, vbStartVid = S (take (fst b) key), vbUsed = usedOf (snd b),
      vbChildren = map (encv_opt keccak) (snd b)\<rparr>"

lemma vconc_sel [simp]:
  "vbDepth (vconc keccak S key b) = fst b"
  "vbStartVid (vconc keccak S key b) = S (take (fst b) key)"
  "vbUsed (vconc keccak S key b) = usedOf (snd b)"
  "vbChildren (vconc keccak S key b) = map (encv_opt keccak) (snd b)"
  by (simp_all add: vconc_def)

lemma attach_eq:
  assumes "nibbly (nPrevKey b)" "d < length (nPrevKey b)" "length cs = 16"
  shows "attach b (vconc keccak S (nPrevKey b) (d, cs)) (encv keccak t) =
    Inr (vconc keccak S (nPrevKey b) (d, put (nib (nPrevKey b) d) t cs))"
  using assms nib_less [OF assms(1,2)]
  by (simp add: attach_def vconc_def Let_def map_encv_put usedOf_put)

text \<open>The parent of a node at position \<open>q\<close> of the current key.\<close>

definition parent_ok :: "(bytes \<Rightarrow> VertexID) \<Rightarrow> bytes \<Rightarrow> vbranch option \<Rightarrow> nat \<Rightarrow> bool" where
  "parent_ok S key parent q \<longleftrightarrow>
     (case parent of
        None \<Rightarrow> q = 0
      | Some p \<Rightarrow> q = Suc (vbDepth p) \<and> vbDepth p < length key \<and> vbStartVid p = S (take (vbDepth p) key))"

lemma parent_ok_conc: "d < length key \<Longrightarrow> parent_ok S key (Some (vconc keccak S key (d, cs))) (Suc d)"
  by (simp add: parent_ok_def)

lemma parent_ok_None [simp]: "parent_ok S key None 0"
  by (simp add: parent_ok_def)

lemma vidUnder_eq:
  "parent_ok S (nPrevKey b) parent q \<Longrightarrow> vidUnder b parent = Inr (vid_of S (nRoot b) (take q (nPrevKey b)))"
  by (cases parent)
    (auto simp: parent_ok_def vidUnder_def vid_of_def take_Suc_conv_app_nth)

lemma parent_pos: "parent_ok S key parent q \<Longrightarrow> (case parent of None \<Rightarrow> 0 | Some p \<Rightarrow> vbDepth p + 1) = q"
  by (cases parent) (auto simp: parent_ok_def)

lemma emitLeaf_eq:
  assumes "parent_ok S (nPrevKey b) parent q"
  shows "nimbus_emitLeaf sink b parent =
    bindE (sendRow sink (vrow keccak S (nRoot b)
        (take q (nPrevKey b), Leaf (drop q (nPrevKey b)) (nPrevVal b, nPrevPayload b))) (nWorld b))
      (\<lambda>w. Inr (encv keccak (Leaf (drop q (nPrevKey b)) (nPrevVal b, nPrevPayload b)),
         b\<lparr>nWorld := w, nMinLeafDepth := min (nMinLeafDepth b) q\<rparr>))"
proof -
  have "q \<le> length (nPrevKey b)" using assms by (cases parent) (auto simp: parent_ok_def)
  moreover have "(if q < m then q else m) = min m q" for m :: nat by (auto simp: min_def)
  ultimately show ?thesis
    unfolding nimbus_emitLeaf_def parent_pos [OF assms] Let_def vidUnder_eq [OF assms]
    by (simp add: vrow_def AppendLeafRecord_def Let_def)
qed

lemma finalizeBranch_veq:
  assumes "parent_ok S (nPrevKey b) parent q" "q \<le> d" "d < length (nPrevKey b)" "keccak_spec keccak"
  shows "nimbus_finalizeBranch keccak sink b (vconc keccak S (nPrevKey b) (d, cs)) parent =
    bindE (sendRow sink (vrow keccak S (nRoot b)
        (take q (nPrevKey b), Branch (subslice q d (nPrevKey b)) cs)) (nWorld b))
      (\<lambda>w. Inr (encv keccak (Branch (subslice q d (nPrevKey b)) cs), b\<lparr>nWorld := w\<rparr>))"
proof -
  let ?pfx = "subslice q d (nPrevKey b)"
  let ?ref = "encv keccak (Branch ?pfx cs)"
  let ?key = "branch_key keccak (Branch ?pfx cs)"
  have ref: "(if length ?pfx > 0 then EncodeExtension keccak ?pfx
      (EncodeBranch keccak (map (encv_opt keccak) cs) []) else EncodeBranch keccak (map (encv_opt keccak) cs) []) = ?ref"
    by (simp only: encv_Branch Let_def length_greater_0_conv if_not_P split: if_split) simp
  have "length ?key = 0 \<or> length ?key = 32"
    using assms(4) by (simp add: branch_key_def keccak_spec_def)
  then obtain rec where rec: "AppendBranch [] ?key (S (take d (nPrevKey b))) (usedOf cs) ?pfx = Some rec"
    using AppendBranch_eq by blast
  have path: "take q (nPrevKey b) @ ?pfx = take d (nPrevKey b)" using assms(2) by (rule take_append_subslice)
  show ?thesis
    unfolding nimbus_finalizeBranch_def parent_pos [OF assms(1)] Let_def vidUnder_eq [OF assms(1)]
      vconc_sel fst_conv snd_conv ref branch_key_def [symmetric] rec
    using assms(2,3) rec path by (simp add: vrow_def)
qed

section \<open>Folding\<close>

definition opens_at :: "nat \<Rightarrow> 'v open_branch list \<Rightarrow> bool" where
  "opens_at l stk = (case stk of [] \<Rightarrow> False | b # _ \<Rightarrow> fst b = l)"

text \<open>What creating a branch at depth \<open>l\<close> yields; an open branch at that depth needs none.\<close>

definition creation_ok ::
  "(bytes \<Rightarrow> VertexID) \<Rightarrow> bytes \<Rightarrow> nat \<Rightarrow> bool \<Rightarrow> VidAllocator \<Rightarrow> VidAllocator \<Rightarrow> bool" where
  "creation_ok S key l is_open a a' \<longleftrightarrow>
     (if is_open then a' = a
      else if Suc l \<le> StaticVIDLevels then StaticStartVid key (Suc l) = Some (S (take l key)) \<and> a' = a
      else Alloc 16 a = (S (take l key), a'))"

lemma newOpenBranch_veq:
  assumes "creation_ok S (nPrevKey b) l False (nAlloc b) a'"
  shows "nimbus_newOpenBranch b l =
    Inr (vconc keccak S (nPrevKey b) (l, replicate 16 None), b\<lparr>nAlloc := a'\<rparr>)"
  using assms
  by (auto simp: nimbus_newOpenBranch_def childStartVid_def creation_ok_def vconc_def split: if_splits)

lemma foldUnderNew_eq:
  assumes key: "nibbly (nPrevKey b)" "l < d" "d < length (nPrevKey b)" and k: "keccak_spec keccak"
    and new: "creation_ok S (nPrevKey b) l False (nAlloc b) a'"
  shows "foldUnderNew keccak sink l b (vconc keccak S (nPrevKey b) (d, cs)) rest =
    (let br = Branch (subslice (Suc l) d (nPrevKey b)) cs in
     bindE (sendRow sink (vrow keccak S (nRoot b) (take (Suc l) (nPrevKey b), br)) (nWorld b))
      (\<lambda>w. Inr (b\<lparr>nAlloc := a', nWorld := w, nStack :=
         vconc keccak S (nPrevKey b) (l, put (nib (nPrevKey b) l) br (replicate 16 None)) # rest\<rparr>)))"
proof -
  let ?p = "vconc keccak S (nPrevKey b) (l, replicate 16 None)"
  have fin: "nimbus_finalizeBranch keccak sink (b\<lparr>nAlloc := a'\<rparr>) (vconc keccak S (nPrevKey b) (d, cs)) (Some ?p) =
      bindE (sendRow sink (vrow keccak S (nRoot b)
        (take (Suc l) (nPrevKey b), Branch (subslice (Suc l) d (nPrevKey b)) cs)) (nWorld b))
      (\<lambda>w. Inr (encv keccak (Branch (subslice (Suc l) d (nPrevKey b)) cs), b\<lparr>nAlloc := a', nWorld := w\<rparr>))"
    using finalizeBranch_veq [of S "b\<lparr>nAlloc := a'\<rparr>" "Some ?p" "Suc l" d keccak sink cs] key k
    by (simp add: parent_ok_conc)
  have att: "attach (b\<lparr>nAlloc := a', nWorld := w\<rparr>) ?p (encv keccak t) =
      Inr (vconc keccak S (nPrevKey b) (l, put (nib (nPrevKey b) l) t (replicate 16 None)))" for w t
    using attach_eq [of "b\<lparr>nAlloc := a', nWorld := w\<rparr>" l "replicate 16 None" keccak S t] key by simp
  show ?thesis
    unfolding foldUnderNew_def newOpenBranch_veq [OF new, of keccak]
    by (simp add: fin att bindE_assoc Let_def)
qed

lemma foldTo_veq:
  assumes key: "nibbly key" "l < length key" and k: "keccak_spec keccak"
    and "stack_ok key ((d, cs) # hi)" "\<forall>b \<in> set ((d, cs) # hi). l < fst b" "full ((d, cs) # hi)"
    and lo: "case lo of [] \<Rightarrow> True | b # _ \<Rightarrow> fst b \<le> l" "full lo"
    and "nPrevKey b = key" "creation_ok S key l (opens_at l lo) (nAlloc b) a'"
  shows "nimbus_foldTo keccak sink l b
      (map (vconc keccak S key) ((d, put (nib key d) t cs) # hi @ lo)) =
    bindE (sendRows sink (map (vrow keccak S (nRoot b)) (carry_nodes key (Suc l) ((d, cs) # hi) t)) (nWorld b))
      (\<lambda>w. Inr (b\<lparr>nAlloc := a', nWorld := w, nStack := map (vconc keccak S key)
         (place l (nib key l) (carry key (Suc l) ((d, cs) # hi) t) lo)\<rparr>))"
  using assms(4-6,9-)
proof (induction hi arbitrary: d cs t b)
  case Nil
  have d: "l < d" "d < length key" "length cs = 16" using Nil.prems by (auto simp: stack_ok_def)
  show ?case
  proof (cases "opens_at l lo")
    case True
    then obtain cs' lo' where lo': "lo = (l, cs') # lo'" by (auto simp: opens_at_def split: list.splits)
    let ?b = "Branch (subslice (Suc l) d key) (put (nib key d) t cs)"
    have fin: "nimbus_finalizeBranch keccak sink b (vconc keccak S key (d, put (nib key d) t cs))
        (Some (vconc keccak S key (l, cs'))) =
      bindE (sendRow sink (vrow keccak S (nRoot b) (take (Suc l) key, ?b)) (nWorld b))
        (\<lambda>w. Inr (encv keccak ?b, b\<lparr>nWorld := w\<rparr>))"
      using finalizeBranch_veq [of S b _ "Suc l" d keccak sink] Nil.prems(4) key d k
      by (simp add: parent_ok_conc)
    have att: "attach (b\<lparr>nWorld := w\<rparr>) (vconc keccak S key (l, cs')) (encv keccak ?b) =
        Inr (vconc keccak S key (l, put (nib key l) ?b cs'))" for w
      using attach_eq [of "b\<lparr>nWorld := w\<rparr>" l cs' keccak S ?b] key lo(2) lo' Nil.prems(4) by simp
    have "a' = nAlloc b" using Nil.prems(5) True by (simp add: creation_ok_def)
    then show ?thesis
      by (simp add: lo' fin att bindE_assoc place_def pos_under_def)
  next
    case False
    then have new: "creation_ok S (nPrevKey b) l False (nAlloc b) a'" using Nil.prems(4,5) by simp
    have p: "place l i u lo = (l, put i u (replicate 16 None)) # lo" for i u
      using False by (cases lo) (auto simp: place_def opens_at_def)
    have f: "nimbus_foldTo keccak sink l b (map (vconc keccak S key) ((d, x) # lo)) =
        foldUnderNew keccak sink l b (vconc keccak S key (d, x)) (map (vconc keccak S key) lo)" for x
      using False lo(1) by (cases lo) (auto simp: opens_at_def)
    show ?thesis
      using foldUnderNew_eq [OF _ d(1) _ k new, of sink "put (nib key d) t cs"] Nil.prems(4) key d
      unfolding append_Nil f p
      by (simp add: Let_def bindE_assoc pos_under_def)
  qed
next
  case (Cons c hi)
  obtain d' cs' where c: "c = (d', cs')" by (cases c)
  let ?b = "Branch (subslice (Suc d') d key) (put (nib key d) t cs)"
  have dd: "l < d'" "d' < d" "d < length key" "length cs' = 16" using Cons.prems c by (auto simp: stack_ok_def)
  have fin: "nimbus_finalizeBranch keccak sink b (vconc keccak S key (d, put (nib key d) t cs))
        (Some (vconc keccak S key (d', cs'))) =
      bindE (sendRow sink (vrow keccak S (nRoot b) (take (Suc d') key, ?b)) (nWorld b))
        (\<lambda>w. Inr (encv keccak ?b, b\<lparr>nWorld := w\<rparr>))"
    using finalizeBranch_veq [of S b _ "Suc d'" d keccak sink] Cons.prems(4) dd k
    by (simp add: parent_ok_conc)
  have att: "attach (b\<lparr>nWorld := w\<rparr>) (vconc keccak S key (d', cs')) (encv keccak ?b) =
      Inr (vconc keccak S key (d', put (nib key d') ?b cs'))" for w
    using attach_eq [of "b\<lparr>nWorld := w\<rparr>" d' cs' keccak S ?b] key dd Cons.prems(4) by simp
  have IH: "nimbus_foldTo keccak sink l (b\<lparr>nWorld := w\<rparr>)
      (map (vconc keccak S key) ((d', put (nib key d') ?b cs') # hi @ lo)) =
    bindE (sendRows sink (map (vrow keccak S (nRoot b)) (carry_nodes key (Suc l) ((d', cs') # hi) ?b)) w)
      (\<lambda>w'. Inr (b\<lparr>nAlloc := a', nWorld := w', nStack := map (vconc keccak S key)
         (place l (nib key l) (carry key (Suc l) ((d', cs') # hi) ?b) lo)\<rparr>))" for w
    using Cons.IH [of d' cs' "b\<lparr>nWorld := w\<rparr>" ?b] Cons.prems c by (simp add: stack_ok_Cons)
  show ?case
    using dd IH
    by (simp add: c fin att bindE_assoc sendRows_append pos_under_def Let_def
        del: carry_nodes.simps carry.simps)
      (simp add: pos_under_def Let_def bindE_assoc)
qed

text \<open>Updates of the builder are brought into one order.\<close>

lemma upd_order:
  "b\<lparr>nWorld := w, nMinLeafDepth := m\<rparr> = b\<lparr>nMinLeafDepth := m, nWorld := w\<rparr>"
  "b\<lparr>nAlloc := a, nMinLeafDepth := m\<rparr> = b\<lparr>nMinLeafDepth := m, nAlloc := a\<rparr>"
  "b\<lparr>nWorld := w, nAlloc := a\<rparr> = b\<lparr>nAlloc := a, nWorld := w\<rparr>"
  "b\<lparr>nFinished := f, nMinLeafDepth := m\<rparr> = b\<lparr>nMinLeafDepth := m, nFinished := f\<rparr>"
  by simp_all

lemma attach_leaf:
  assumes "nibbly key" "d < length key" "length cs = 16" "nPrevKey b = key"
  shows "attach b (vconc keccak S key (d, cs)) (encv keccak t) =
    Inr (vconc keccak S key (d, put (nib key d) t cs))"
  using attach_eq [of b d cs keccak S t] assms by simp

lemma insert_veq:
  fixes b :: "'w vbuilder"
  assumes key: "nPrevKey b = key" "nibbly key" and l: "l = commonPrefixLen key k" "l < length key"
    and kk: "keccak_spec keccak"
    and stk: "nStack b = map (vconc keccak S key) stk" "stack_ok key stk" "full stk"
    and new: "creation_ok S key l (opens_at l (shallower l stk)) (nAlloc b) a'"
  defines "v \<equiv> (nPrevVal b, nPrevPayload b)"
  shows "nimbus_insert keccak sink b k =
    bindE (sendRows sink (map (vrow keccak S (nRoot b)) (step_nodes key v l stk)) (nWorld b))
      (\<lambda>w. Inr (b\<lparr>nMinLeafDepth := min (nMinLeafDepth b) (pos_under (Suc l) (deeper l stk)),
         nAlloc := a', nWorld := w, nStack := map (vconc keccak S key) (step key v l stk)\<rparr>))"
proof (cases "deeper l stk")
  case Nil
  then have sh: "shallower l stk = stk" using deeper_shallower [of l stk] by simp
  let ?t = "Leaf (drop (Suc l) key) v"
  have step: "step key v l stk = place l (nib key l) ?t stk"
    "step_nodes key v l stk = [(take (Suc l) key, ?t)]" "pos_under (Suc l) (deeper l stk) = Suc l"
    by (simp_all add: step_def step_nodes_def Nil sh close_node_def close_nodes_def open_leaf_def
        pos_under_def)
  have top: "case stk of [] \<Rightarrow> True | t # _ \<Rightarrow> fst t \<le> l"
    using Nil by (cases stk) (auto simp: deeper_def split: if_splits)
  then have d: "nat (max (int l) (case nStack b of [] \<Rightarrow> -1 | tp # _ \<Rightarrow> int (vbDepth tp))) = l"
    using stk(1) by (cases stk) auto
  have leaf: "nimbus_emitLeaf sink b' (Some (vconc keccak S key (l, cs))) =
      bindE (sendRow sink (vrow keccak S (nRoot b) (take (Suc l) key, ?t)) (nWorld b))
        (\<lambda>w. Inr (encv keccak ?t, b'\<lparr>nWorld := w, nMinLeafDepth := min (nMinLeafDepth b) (Suc l)\<rparr>))"
    if "b' = b \<or> b' = b\<lparr>nAlloc := a'\<rparr>" for b' :: "'w vbuilder" and cs
    using that emitLeaf_eq [of S b' "Some (vconc keccak S key (l, cs))" "Suc l" sink keccak] key l(2)
    by (auto simp: parent_ok_conc v_def)
  show ?thesis
  proof (cases "opens_at l stk")
    case True
    then obtain cs rest where s: "stk = (l, cs) # rest" by (auto simp: opens_at_def split: list.splits)
    have a: "a' = nAlloc b" using new True sh by (simp add: creation_ok_def)
    have b': "b\<lparr>nMinLeafDepth := m, nAlloc := nAlloc b, nWorld := w\<rparr> = b\<lparr>nMinLeafDepth := m, nWorld := w\<rparr>" for m w
      by simp
    have att: "attach (b\<lparr>nMinLeafDepth := m, nWorld := w\<rparr>) (vconc keccak S key (l, cs)) (encv keccak ?t) =
        Inr (vconc keccak S key (l, put (nib key l) ?t cs))" for m w
      using key l(2) stk(3) s by (intro attach_leaf) auto
    show ?thesis
      using stk(1) d
      by (simp add: nimbus_insert_def key(1) l(1) [symmetric] Let_def s leaf upd_order att bindE_assoc
          step [unfolded s] place_def a b' del: encv_Leaf)
  next
    case False
    have n: "creation_ok S (nPrevKey b) l False (nAlloc b) a'" using new False sh key by simp
    have p: "place l i u stk = (l, put i u (replicate 16 None)) # stk" for i u
      using False by (cases stk) (auto simp: place_def opens_at_def)
    have gt: "int l > (case nStack b of [] \<Rightarrow> -1 | tp # _ \<Rightarrow> int (vbDepth tp))"
      using top False stk(1) by (cases stk) (auto simp: opens_at_def)
    have att: "attach (b\<lparr>nMinLeafDepth := m, nAlloc := a', nWorld := w\<rparr>)
        (vconc keccak S key (l, replicate 16 None)) (encv keccak ?t) =
        Inr (vconc keccak S key (l, put (nib key l) ?t (replicate 16 None)))" for m w
      using key l(2) by (intro attach_leaf) auto
    show ?thesis
      using gt d
      by (simp add: nimbus_insert_def key(1) l(1) [symmetric] Let_def leaf newOpenBranch_veq [OF n, of keccak]
          upd_order att bindE_assoc step p stk(1) del: encv_Leaf)
  qed
next
  case (Cons b0 hi)
  obtain d cs where b0: "b0 = (d, cs)" by (cases b0)
  let ?lo = "shallower l stk"
  have s: "stk = (d, cs) # hi @ ?lo" using deeper_shallower [of l stk] Cons b0 by simp
  have deep: "\<forall>c \<in> set ((d, cs) # hi). l < fst c" using Cons b0 by (metis deeper_def set_takeWhileD)
  have lo: "case ?lo of [] \<Rightarrow> True | c # _ \<Rightarrow> fst c \<le> l"
    by (auto simp: shallower_def dropWhile_eq_Cons_conv not_less split: list.split)
  have "stack_ok key ((d, cs) # hi @ ?lo)" "full ((d, cs) # hi @ ?lo)" using stk(2,3) s by metis+
  then have ok: "stack_ok key ((d, cs) # hi)" "full ((d, cs) # hi)" "full ?lo" and dl: "d < length key" "length cs = 16"
    by (auto simp: stack_ok_def sorted_wrt_append full_def)
  let ?t = "Leaf (drop (Suc d) key) v"
  have step: "step key v l stk = place l (nib key l) (carry key (Suc l) ((d, cs) # hi) ?t) ?lo"
    "step_nodes key v l stk = (take (Suc d) key, ?t) # carry_nodes key (Suc l) ((d, cs) # hi) ?t"
    "pos_under (Suc l) (deeper l stk) = Suc d"
    by (simp_all add: step_def step_nodes_def Cons b0 close_node_def close_nodes_def open_leaf_def
        pos_under_def)
  have leaf: "nimbus_emitLeaf sink b (Some (vconc keccak S key (d, cs))) =
      bindE (sendRow sink (vrow keccak S (nRoot b) (take (Suc d) key, ?t)) (nWorld b))
        (\<lambda>w. Inr (encv keccak ?t, b\<lparr>nWorld := w, nMinLeafDepth := min (nMinLeafDepth b) (Suc d)\<rparr>))"
    using emitLeaf_eq [of S b "Some (vconc keccak S key (d, cs))" "Suc d" sink keccak] key dl
    by (simp add: parent_ok_conc v_def)
  have att: "attach (b\<lparr>nMinLeafDepth := m, nWorld := w\<rparr>) (vconc keccak S key (d, cs)) (encv keccak ?t) =
      Inr (vconc keccak S key (d, put (nib key d) ?t cs))" for m w
    using key dl by (intro attach_leaf) auto
  have fold: "nimbus_foldTo keccak sink l (b\<lparr>nMinLeafDepth := m, nWorld := w\<rparr>)
      (vconc keccak S key (d, put (nib key d) ?t cs) # map (vconc keccak S key) (hi @ ?lo)) =
    bindE (sendRows sink (map (vrow keccak S (nRoot b)) (carry_nodes key (Suc l) ((d, cs) # hi) ?t)) w)
      (\<lambda>w. Inr (b\<lparr>nMinLeafDepth := m, nAlloc := a', nWorld := w, nStack := map (vconc keccak S key)
         (place l (nib key l) (carry key (Suc l) ((d, cs) # hi) ?t) ?lo)\<rparr>))" for m w
    using foldTo_veq [OF key(2) l(2) kk ok(1) deep ok(2) lo ok(3), of "b\<lparr>nMinLeafDepth := m, nWorld := w\<rparr>" S a' sink ?t]
      new key(1) by (simp add: upd_order del: map_append)
  have ns: "nStack b = vconc keccak S key (d, cs) # map (vconc keccak S key) (hi @ ?lo)"
    using stk(1) s by (metis list.simps(9))
  show ?thesis
    using dl deep
    by (simp add: nimbus_insert_def key(1) l(1) [symmetric] Let_def ns leaf upd_order att fold bindE_assoc step
        del: encv_Leaf map_append carry.simps carry_nodes.simps)
qed

lemma foldRoot_veq:
  assumes key: "nibbly key" and k: "keccak_spec keccak"
    and "stack_ok key ((d, cs) # hi)" "full ((d, cs) # hi)" "nPrevKey b = key"
  shows "nimbus_foldRoot keccak sink b r (map (vconc keccak S key) ((d, put (nib key d) t cs) # hi)) =
    bindE (sendRows sink (map (vrow keccak S (nRoot b)) (carry_nodes key 0 ((d, cs) # hi) t)) (nWorld b))
      (\<lambda>w. Inr (encv keccak (carry key 0 ((d, cs) # hi) t), b\<lparr>nWorld := w, nStack := []\<rparr>))"
  using assms(3-)
proof (induction hi arbitrary: d cs t b)
  case Nil
  let ?b = "Branch (subslice 0 d key) (put (nib key d) t cs)"
  have "nimbus_finalizeBranch keccak sink b (vconc keccak S key (d, put (nib key d) t cs)) None =
      bindE (sendRow sink (vrow keccak S (nRoot b) (take 0 key, ?b)) (nWorld b))
        (\<lambda>w. Inr (encv keccak ?b, b\<lparr>nWorld := w\<rparr>))"
    using finalizeBranch_veq [of S b None 0 d keccak sink] Nil k by (simp add: stack_ok_def)
  then show ?case by (simp add: bindE_assoc pos_under_def)
next
  case (Cons c hi)
  obtain d' cs' where c: "c = (d', cs')" by (cases c)
  let ?b = "Branch (subslice (Suc d') d key) (put (nib key d) t cs)"
  have dd: "d' < d" "d < length key" "length cs' = 16" using Cons.prems c by (auto simp: stack_ok_def)
  have fin: "nimbus_finalizeBranch keccak sink b (vconc keccak S key (d, put (nib key d) t cs))
        (Some (vconc keccak S key (d', cs'))) =
      bindE (sendRow sink (vrow keccak S (nRoot b) (take (Suc d') key, ?b)) (nWorld b))
        (\<lambda>w. Inr (encv keccak ?b, b\<lparr>nWorld := w\<rparr>))"
    using finalizeBranch_veq [of S b _ "Suc d'" d keccak sink] Cons.prems(3) dd k
    by (simp add: parent_ok_conc)
  have att: "attach (b\<lparr>nWorld := w\<rparr>) (vconc keccak S key (d', cs')) (encv keccak ?b) =
      Inr (vconc keccak S key (d', put (nib key d') ?b cs'))" for w
    using key dd Cons.prems(3) by (intro attach_leaf) auto
  have IH: "nimbus_foldRoot keccak sink (b\<lparr>nWorld := w\<rparr>) r
      (map (vconc keccak S key) ((d', put (nib key d') ?b cs') # hi)) =
    bindE (sendRows sink (map (vrow keccak S (nRoot b)) (carry_nodes key 0 ((d', cs') # hi) ?b)) w)
      (\<lambda>w. Inr (encv keccak (carry key 0 ((d', cs') # hi) ?b), b\<lparr>nWorld := w, nStack := []\<rparr>))" for w
    using Cons.IH [of d' cs' "b\<lparr>nWorld := w\<rparr>" ?b] Cons.prems c by (simp add: stack_ok_Cons)
  show ?case
    using IH
    by (simp add: c fin att bindE_assoc pos_under_def Let_def del: carry_nodes.simps carry.simps)
      (simp add: pos_under_def Let_def bindE_assoc)
qed

section \<open>Start identifiers\<close>

text \<open>
  The start identifier of the branch at a path: static in the top levels, else the block of the
  allocator that was handed out when the branch was created.
\<close>

definition is_deep :: "bytes \<Rightarrow> bool" where
  "is_deep q \<longleftrightarrow> \<not> Suc (length q) \<le> StaticVIDLevels"

definition position :: "bytes \<Rightarrow> bytes list \<Rightarrow> nat" where
  "position q ps = length (takeWhile (\<lambda>p. p \<noteq> q) ps)"

definition start_vid :: "VidAllocator \<Rightarrow> bytes list \<Rightarrow> bytes \<Rightarrow> VertexID" where
  "start_vid a ps q =
     (if is_deep q then top a + of_nat (16 * position q (filter is_deep ps)) + 1
      else the (StaticStartVid q (Suc (length q))))"

definition alloc_after :: "VidAllocator \<Rightarrow> nat \<Rightarrow> VidAllocator" where
  "alloc_after a n = a\<lparr>top := top a + of_nat (16 * n), touched := touched a \<or> 0 < n\<rparr>"

lemma position_append: "q \<in> set ps \<Longrightarrow> position q (ps @ qs) = position q ps"
  by (simp add: position_def takeWhile_append1)

lemma position_new: "q \<notin> set ps \<Longrightarrow> position q (ps @ q # qs) = length ps"
  unfolding position_def by (subst takeWhile_append2) auto

lemma start_vid_append: "q \<in> set ps \<Longrightarrow> start_vid a (ps @ qs) q = start_vid a ps q"
  by (auto simp: start_vid_def position_append)

lemma StaticStartVid_take:
  assumes "l \<le> length key" "l \<le> 8"
  shows "StaticStartVid key (Suc l) = Some (the (StaticStartVid (take l key) (Suc l)))"
  using StaticStartVid_eq [OF assms] StaticStartVid_eq [of l "take l key"] assms by simp

lemma alloc_after_0 [simp]: "alloc_after a 0 = a"
  by (simp add: alloc_after_def)

lemma Alloc_after:
  "Alloc 16 (alloc_after a n) = (top a + of_nat (16 * n) + 1, alloc_after a (Suc n))"
  by (simp add: Alloc_def alloc_after_def Let_def)

abbreviation allocs :: "bytes list \<Rightarrow> nat" where
  "allocs ps \<equiv> length (filter is_deep ps)"

lemma opens_at_spine:
  assumes "stack_ok key stk"
  shows "opens_at l (shallower l stk) \<longleftrightarrow> l \<in> fst ` set stk"
proof -
  have "stk = deeper l stk @ shallower l stk" using deeper_shallower by metis
  moreover have "l \<notin> fst ` set (deeper l stk)" using set_takeWhileD unfolding deeper_def by fastforce
  ultimately have "l \<in> fst ` set stk \<longleftrightarrow> l \<in> fst ` set (shallower l stk)"
    by (metis Un_iff image_Un set_append)
  moreover have "l \<in> fst ` set (shallower l stk) \<longleftrightarrow> opens_at l (shallower l stk)"
  proof (cases "shallower l stk")
    case (Cons c rest)
    then have "fst c \<le> l" by (auto simp: shallower_def dropWhile_eq_Cons_conv)
    moreover have "\<forall>r \<in> set rest. fst r < fst c"
      using assms deeper_shallower [of l stk] Cons unfolding stack_ok_def
      by (metis sorted_wrt.simps(2) sorted_wrt_append)
    ultimately show ?thesis using Cons by (force simp: opens_at_def)
  qed (simp add: opens_at_def)
  ultimately show ?thesis by simp
qed

lemma creation_ok_step:
  assumes wf: "wf_entries L (kvs @ [x])" "kvs \<noteq> []"
  defines "l \<equiv> commonPrefixLen (lkey kvs) (fst x)"
  shows "creation_ok (start_vid a (creates (kvs @ [x]))) (lkey kvs) l (opens_at l (shallower l (spine kvs)))
    (alloc_after a (allocs (creates kvs))) (alloc_after a (allocs (creates (kvs @ [x]))))"
proof -
  note w = wf_snocD [OF wf]
  have ok: "stack_ok (lkey kvs) (spine kvs)" using w(1) wf(2) by (rule stack_ok_spine)
  have l: "l < L" unfolding l_def by (rule cpl_less [OF wf])
  show ?thesis
  proof (cases "l \<in> fst ` set (spine kvs)")
    case True
    then have "creates (kvs @ [x]) = creates kvs"
      using wf(2) by (simp add: creates_snoc new_branch_def l_def)
    with True show ?thesis by (simp add: creation_ok_def opens_at_spine [OF ok])
  next
    case False
    let ?q = "take l (lkey kvs)"
    have c: "creates (kvs @ [x]) = creates kvs @ [?q]"
      using wf(2) False by (simp add: creates_snoc new_branch_def l_def)
    have fresh: "?q \<notin> set (creates kvs)"
      using creates_distinct [OF wf(1)] by (simp add: c)
    have len: "length ?q = l" using l w(3) by simp
    show ?thesis
    proof (cases "Suc l \<le> StaticVIDLevels")
      case True
      then have "l \<le> length (lkey kvs)" "l \<le> 8" using l w(3) by (simp_all add: StaticVIDLevels_def)
      from StaticStartVid_take [OF this] show ?thesis
        using False True len
        by (simp add: creation_ok_def opens_at_spine [OF ok] start_vid_def is_deep_def c)
    next
      case deep: False
      then have "is_deep ?q" unfolding is_deep_def len by simp
      moreover have "?q \<notin> set (filter is_deep (creates kvs))" using fresh by simp
      ultimately show ?thesis
        using False deep
        by (simp add: creation_ok_def opens_at_spine [OF ok] start_vid_def c position_new Alloc_after)
    qed
  qed
qed

section \<open>A whole build\<close>

definition min_leaf_depth :: "'v node_event list \<Rightarrow> nat \<Rightarrow> nat" where
  "min_leaf_depth evs m =
     foldl (\<lambda>m ev. case snd ev of Leaf _ _ \<Rightarrow> min m (length (fst ev)) | Branch _ _ \<Rightarrow> m) m evs"

lemma min_leaf_depth_append [simp]:
  "min_leaf_depth (xs @ ys) m = min_leaf_depth ys (min_leaf_depth xs m)"
  by (simp add: min_leaf_depth_def)

lemma min_leaf_depth_carry [simp]: "min_leaf_depth (carry_nodes key p stk t) m = m"
  by (induction key p stk t rule: carry_nodes.induct) (simp_all add: min_leaf_depth_def Let_def)

lemma min_leaf_depth_close:
  assumes "stack_ok key stk" "p \<le> length key"
  shows "min_leaf_depth (close_nodes key v p stk) m = min m (pos_under p stk)"
proof -
  have "pos_under p stk \<le> length key"
    using assms by (cases stk) (auto simp: pos_under_def stack_ok_def)
  then show ?thesis
    using min_leaf_depth_carry [of key p stk]
    by (simp add: close_nodes_def open_leaf_def min_leaf_depth_def)
qed

lemma stack_ok_deeper: "stack_ok key stk \<Longrightarrow> stack_ok key (deeper l stk)"
  using deeper_shallower [of l stk]
  by (metis (no_types, lifting) UnCI set_append sorted_wrt_append stack_ok_def)

definition vbuilder_of ::
  "digest \<Rightarrow> VidAllocator \<Rightarrow> VertexID \<Rightarrow> (bytes \<times> bytes) entry list \<Rightarrow> 'w \<Rightarrow> 'w vbuilder" where
  "vbuilder_of keccak a root kvs w =
     \<lparr>nRoot = root, nAlloc = alloc_after a (allocs (creates kvs)), nStarted = True, nFinished = False,
      nKeyLen = int (length (lkey kvs)), nPrevKey = lkey kvs, nPrevVal = fst (lval kvs),
      nPrevPayload = snd (lval kvs),
      nStack = map (vconc keccak (start_vid a (creates kvs)) (lkey kvs)) (spine kvs),
      nLeafCount = length kvs, nMinLeafDepth = min_leaf_depth (closed kvs) maxInt, nWorld = w\<rparr>"

lemma vconc_cong:
  "S (take (fst b) key) = S' (take (fst b) key') \<Longrightarrow> vconc keccak S key b = vconc keccak S' key' b"
  by (simp add: vconc_def)

lemma AddLeaf_veq:
  assumes wf: "wf_entries L (kvs @ [(k, v, p)])" "kvs \<noteq> []" and kk: "keccak_spec keccak"
  shows "nimbus_AddLeaf keccak sink (vbuilder_of keccak a root kvs w) k v p =
    bindE (sendRows sink (map (vrow keccak (start_vid a (creates (kvs @ [(k, v, p)]))) root)
        (step_nodes (lkey kvs) (lval kvs) (commonPrefixLen (lkey kvs) k) (spine kvs))) w)
      (\<lambda>w. Inr (vbuilder_of keccak a root (kvs @ [(k, v, p)]) w))"
proof -
  let ?b = "vbuilder_of keccak a root kvs w" and ?kvs = "kvs @ [(k, v, p)]"
  let ?l = "commonPrefixLen (lkey kvs) k" and ?S = "start_vid a (creates ?kvs)"
  note w = wf_snocD [OF wf]
  have cmp: "\<not> bytesCompare k (lkey kvs) \<le> 0" "int (length k) = int (length (lkey kvs))"
    using w by (simp_all add: bytesCompare_le_0)
  have ok: "stack_ok (lkey kvs) (spine kvs)" using w(1) wf(2) by (rule stack_ok_spine)
  have l: "?l < length (lkey kvs)" using cpl_less [OF wf] w(3) by simp
  have "start_vid a (creates kvs) (take (fst c) (lkey kvs)) = ?S (take (fst c) (lkey kvs))"
    if "c \<in> set (spine kvs)" for c
    using spine_creates [OF w(1) wf(2), of "fst c"] that start_vid_append by (auto simp: creates_snoc)
  then have stk: "nStack ?b = map (vconc keccak ?S (lkey kvs)) (spine kvs)"
    by (auto simp: vbuilder_of_def intro!: vconc_cong)
  have stk': "map (vconc keccak ?S (lkey kvs)) (spine ?kvs) = map (vconc keccak ?S k) (spine ?kvs)"
  proof (rule map_cong [OF refl], rule vconc_cong)
    fix c assume "c \<in> set (spine ?kvs)"
    then have "fst c \<le> ?l" using spine_snoc_depths(1) [OF wf, of "fst c"] by simp
    then have "take (fst c) (lkey kvs) = take (fst c) k" by (rule take_commonPrefixLen)
    then show "?S (take (fst c) (lkey kvs)) = ?S (take (fst c) k)" by simp
  qed
  have key: "nPrevKey ?b = lkey kvs" "nibbly (lkey kvs)"
    using wf_entries_lkey [OF w(1) wf(2)] by (simp_all add: vbuilder_of_def)
  have v: "(nPrevVal ?b, nPrevPayload ?b) = lval kvs" by (simp add: vbuilder_of_def)
  have new: "creation_ok ?S (lkey kvs) ?l (opens_at ?l (shallower ?l (spine kvs))) (nAlloc ?b)
      (alloc_after a (allocs (creates ?kvs)))"
    using creation_ok_step [OF wf, of a] by (simp add: vbuilder_of_def)
  have m: "min (nMinLeafDepth ?b) (pos_under (Suc ?l) (deeper ?l (spine kvs))) =
      min_leaf_depth (closed ?kvs) maxInt"
    using closed_snoc [OF wf] min_leaf_depth_close [OF stack_ok_deeper [OF ok, of ?l], of "Suc ?l" "lval kvs"] l
    by (simp add: vbuilder_of_def step_nodes_def)
  have "nimbus_insert keccak sink ?b k =
    bindE (sendRows sink (map (vrow keccak ?S root) (step_nodes (lkey kvs) (lval kvs) ?l (spine kvs))) w)
      (\<lambda>w. Inr (?b\<lparr>nMinLeafDepth := min_leaf_depth (closed ?kvs) maxInt,
         nAlloc := alloc_after a (allocs (creates ?kvs)), nWorld := w,
         nStack := map (vconc keccak ?S k) (spine ?kvs)\<rparr>))"
    using insert_veq [OF key refl l kk stk ok full_spine new, of sink]
    unfolding m v spine_snoc [OF wf, unfolded fst_conv, symmetric] stk' by (simp add: vbuilder_of_def)
  then show ?thesis
    using cmp w(2,3)
    by (simp add: nimbus_AddLeaf_def vbuilder_of_def bindE_assoc setPrev_def)
qed

lemma vAddLeaves_append:
  "nimbus_AddLeaves keccak sink b (xs @ ys) =
     bindE (nimbus_AddLeaves keccak sink b xs) (\<lambda>b. nimbus_AddLeaves keccak sink b ys)"
proof (induction xs arbitrary: b)
  case (Cons x xs)
  then show ?case by (cases x) (simp add: bindE_assoc)
qed simp

text \<open>Rows of closed nodes do not change when more entries arrive.\<close>

lemma vrow_cong:
  assumes "\<And>q. q \<in> ev_branches ev \<Longrightarrow> S q = S' q"
  shows "vrow keccak S root ev = vrow keccak S' root ev"
proof (cases ev)
  case (Pair path node)
  have "vid_of S root path = vid_of S' root path"
    using assms Pair by (simp add: vid_of_def ev_branches_def parent_path_def)
  moreover have "record_of keccak S path node = record_of keccak S' path node"
    using assms Pair by (cases node) (simp_all add: ev_branches_def)
  ultimately show ?thesis by (simp add: vrow_def Pair)
qed

lemma closed_rows_stable:
  assumes "wf_entries L kvs"
  shows "map (vrow keccak (start_vid a (creates kvs @ ps)) root) (closed kvs) =
    map (vrow keccak (start_vid a (creates kvs)) root) (closed kvs)"
  using closed_branches [OF assms] start_vid_append by (intro map_cong refl vrow_cong) blast

lemma vAddLeaves_eq:
  assumes "wf_entries L kvs" "kvs \<noteq> []" "0 < L" "keccak_spec keccak" "nimbus_NewBuilder root a w = Some b"
  shows "nimbus_AddLeaves keccak sink b kvs =
    bindE (sendRows sink (map (vrow keccak (start_vid a (creates kvs)) root) (closed kvs)) w)
      (\<lambda>w. Inr (vbuilder_of keccak a root kvs w))"
  using assms(1,2)
proof (induction kvs rule: rev_induct)
  case Nil
  then show ?case by simp
next
  case (snoc x kvs)
  obtain k v p where x: "x = (k, v, p)" by (cases x)
  show ?case
  proof (cases "kvs = []")
    case True
    with snoc.prems x assms(3) have "k \<noteq> []" by (auto simp: wf_entries_def)
    then show ?thesis
      using assms(5) True
      by (auto simp: x nimbus_AddLeaf_def nimbus_NewBuilder_def vbuilder_of_def lkey_def lval_def setPrev_def
          creates_snoc [of "[]", simplified] min_leaf_depth_def split: if_splits)
  next
    case False
    have wf: "wf_entries L kvs" using snoc.prems(1) by (simp add: wf_entries_append)
    have c: "map (vrow keccak (start_vid a (creates (kvs @ [x]))) root) (closed kvs) =
        map (vrow keccak (start_vid a (creates kvs)) root) (closed kvs)"
      unfolding creates_snoc using wf by (rule closed_rows_stable)
    show ?thesis
      using snoc.IH [OF wf False] AddLeaf_veq [OF snoc.prems(1) [unfolded x] False assms(4), of sink a root]
        closed_snoc [OF snoc.prems(1) [unfolded x] False]
      by (simp add: vAddLeaves_append x bindE_assoc sendRows_append c [unfolded x])
  qed
qed

lemma Root_veq:
  fixes a :: VidAllocator
  assumes "wf_entries L kvs" "kvs \<noteq> []" "keccak_spec keccak"
  defines "S \<equiv> start_vid a (creates kvs)"
  shows "nimbus_Root keccak erh sink (vbuilder_of keccak a root kvs w) =
    bindE (sendRows sink (map (vrow keccak S root) (close_nodes (lkey kvs) (lval kvs) 0 (spine kvs))) w)
      (\<lambda>w. Inr (keccak (encv keccak (close_node (lkey kvs) (lval kvs) 0 (spine kvs))),
         (vbuilder_of keccak a root kvs w)\<lparr>nFinished := True, nStack := [],
           nMinLeafDepth := min_leaf_depth (closed kvs @ close_nodes (lkey kvs) (lval kvs) 0 (spine kvs)) maxInt\<rparr>))"
proof -
  let ?b = "(vbuilder_of keccak a root kvs w)\<lparr>nFinished := True\<rparr>"
  have ok: "stack_ok (lkey kvs) (spine kvs)" using assms(1,2) by (rule stack_ok_spine)
  have b: "nPrevKey ?b = lkey kvs" "(nPrevVal ?b, nPrevPayload ?b) = lval kvs" "nRoot ?b = root" "nWorld ?b = w"
    by (simp_all add: vbuilder_of_def)
  have m: "min_leaf_depth (closed kvs @ close_nodes (lkey kvs) (lval kvs) 0 (spine kvs)) maxInt =
      min (nMinLeafDepth ?b) (pos_under 0 (spine kvs))"
    by (simp add: min_leaf_depth_close [OF ok] vbuilder_of_def)
  have cnt: "nLeafCount ?b \<noteq> 0" "\<not> nFinished (vbuilder_of keccak a root kvs w)"
    using assms(2) by (simp_all add: vbuilder_of_def)
  show ?thesis
  proof (cases "spine kvs")
    case Nil
    have leaf: "nimbus_emitLeaf sink ?b None =
      bindE (sendRow sink (vrow keccak S root ([], Leaf (lkey kvs) (lval kvs))) w)
        (\<lambda>w. Inr (encv keccak (Leaf (lkey kvs) (lval kvs)),
           ?b\<lparr>nWorld := w, nMinLeafDepth := min (nMinLeafDepth ?b) 0\<rparr>))"
      using emitLeaf_eq [of S ?b None 0 sink keccak] by (simp add: b del: encv_Leaf) (simp add: vbuilder_of_def)
    have stk: "nStack ?b = []" by (simp add: vbuilder_of_def Nil)
    have upd: "vbuilder_of keccak a root kvs w\<lparr>nFinished := True, nWorld := w', nMinLeafDepth := x\<rparr> =
        vbuilder_of keccak a root kvs w'\<lparr>nFinished := True, nStack := [], nMinLeafDepth := x\<rparr>" for w' x
      by (simp add: vbuilder_of_def Nil)
    have cl: "close_nodes (lkey kvs) (lval kvs) 0 (spine kvs) = [([], Leaf (lkey kvs) (lval kvs))]"
      "close_node (lkey kvs) (lval kvs) 0 (spine kvs) = Leaf (lkey kvs) (lval kvs)" "pos_under 0 (spine kvs) = 0"
      by (simp_all add: Nil close_nodes_def close_node_def open_leaf_def pos_under_def)
    have ml: "min_leaf_depth [([], Leaf r v)] x = 0" for r :: bytes and v :: "bytes \<times> bytes" and x
      by (simp add: min_leaf_depth_def)
    show ?thesis
      unfolding cl nimbus_Root_def Let_def stk
      using cnt by (simp add: leaf bindE_assoc upd ml del: encv_Leaf)
  next
    case (Cons c hi)
    obtain d cs where c: "c = (d, cs)" by (cases c)
    have key: "nibbly (lkey kvs)" using wf_entries_lkey [OF assms(1,2)] by simp
    have ok': "stack_ok (lkey kvs) ((d, cs) # hi)" "full ((d, cs) # hi)"
      using ok full_spine [of kvs] Cons c by simp_all
    then have d: "d < length (lkey kvs)" "length cs = 16" by (simp_all add: stack_ok_def)
    let ?t = "Leaf (drop (Suc d) (lkey kvs)) (lval kvs)"
    have leaf: "nimbus_emitLeaf sink ?b (Some (vconc keccak S (lkey kvs) (d, cs))) =
      bindE (sendRow sink (vrow keccak S root (take (Suc d) (lkey kvs), ?t)) w)
        (\<lambda>w. Inr (encv keccak ?t, ?b\<lparr>nWorld := w, nMinLeafDepth := min (nMinLeafDepth ?b) (Suc d)\<rparr>))"
      using emitLeaf_eq [of S ?b "Some (vconc keccak S (lkey kvs) (d, cs))" "Suc d" sink keccak] d
      by (simp add: b parent_ok_conc del: encv_Leaf) (simp add: vbuilder_of_def)
    have att: "attach (?b\<lparr>nWorld := w, nMinLeafDepth := x\<rparr>) (vconc keccak S (lkey kvs) (d, cs)) (encv keccak ?t) =
        Inr (vconc keccak S (lkey kvs) (d, put (nib (lkey kvs) d) ?t cs))" for w x
      using key d by (intro attach_leaf) (simp_all add: vbuilder_of_def)
    have fold: "nimbus_foldRoot keccak sink (?b\<lparr>nWorld := w, nMinLeafDepth := x\<rparr>) []
        (vconc keccak S (lkey kvs) (d, put (nib (lkey kvs) d) ?t cs) # map (vconc keccak S (lkey kvs)) hi) =
      bindE (sendRows sink (map (vrow keccak S root) (carry_nodes (lkey kvs) 0 ((d, cs) # hi) ?t)) w)
        (\<lambda>w. Inr (encv keccak (carry (lkey kvs) 0 ((d, cs) # hi) ?t),
           ?b\<lparr>nMinLeafDepth := x, nWorld := w, nStack := []\<rparr>))" for w x
      using foldRoot_veq [OF key assms(3) ok', of "?b\<lparr>nWorld := w, nMinLeafDepth := x\<rparr>" sink "[]" S ?t]
      by (simp add: b upd_order(1)) (simp add: vbuilder_of_def)
    have stk: "nStack ?b = vconc keccak S (lkey kvs) (d, cs) # map (vconc keccak S (lkey kvs)) hi"
      by (simp add: vbuilder_of_def Cons c S_def)
    have cl: "close_nodes (lkey kvs) (lval kvs) 0 (spine kvs) =
        (take (Suc d) (lkey kvs), ?t) # carry_nodes (lkey kvs) 0 ((d, cs) # hi) ?t"
      "close_node (lkey kvs) (lval kvs) 0 (spine kvs) = carry (lkey kvs) 0 ((d, cs) # hi) ?t"
      "pos_under 0 (spine kvs) = Suc d"
      by (simp_all add: Cons c close_nodes_def close_node_def open_leaf_def pos_under_def)
    have upd: "vbuilder_of keccak a root kvs w\<lparr>nFinished := True, nMinLeafDepth := x, nWorld := w', nStack := []\<rparr> =
        vbuilder_of keccak a root kvs w'\<lparr>nFinished := True, nStack := [], nMinLeafDepth := x\<rparr>" for w' x
      by (simp add: vbuilder_of_def)
    show ?thesis
      unfolding m
      unfolding cl nimbus_Root_def Let_def stk
      using cnt
      by (simp add: leaf att fold bindE_assoc upd del: encv_Leaf carry.simps carry_nodes.simps)
  qed
qed

section \<open>The build against the reference\<close>

definition vertex_rows :: "digest \<Rightarrow> VidAllocator \<Rightarrow> VertexID \<Rightarrow> (bytes \<times> bytes) entry list \<Rightarrow> vrow list" where
  "vertex_rows keccak a root kvs =
     (case mk 0 kvs of
        None \<Rightarrow> []
      | Some t \<Rightarrow> map (vrow keccak (start_vid a (creates kvs)) root) (nodes [] t))"

definition sto_hint :: "(bytes \<times> bytes) entry list \<Rightarrow> byte" where
  "sto_hint kvs =
     (case mk 0 kvs of
        None \<Rightarrow> 0
      | Some t \<Rightarrow> of_nat (min StaticVIDLevels (min_leaf_depth (nodes [] t) maxInt)) + 1)"

text \<open>The trie depends on the values only at its leaves.\<close>

lemma mk_map: "mk p (map (apsnd f) kvs) = map_option (map_mpt f) (mk p kvs)"
proof (induction p kvs rule: mk.induct)
  case (1 p kvs)
  have g: "grp d i (map (apsnd f) kvs) = map (apsnd f) (grp d i kvs)" for d i
    by (simp add: grp_def filter_map comp_def)
  have k: "kvs \<noteq> [] \<Longrightarrow> lkey (map (apsnd f) kvs) = lkey kvs"
    "kvs \<noteq> [] \<Longrightarrow> fkey (map (apsnd f) kvs) = fkey kvs"
    "kvs \<noteq> [] \<Longrightarrow> lval (map (apsnd f) kvs) = f (lval kvs)"
    by (simp_all add: fkey_def lkey_def lval_def hd_map last_map)
  have s: "splits (map (apsnd f) kvs) = splits kvs" "kvs \<noteq> [] \<Longrightarrow> split_at (map (apsnd f) kvs) = split_at kvs"
    by (cases "kvs = []", simp_all add: splits_def split_at_def k)
  show ?case
  proof (cases "splits kvs")
    case True
    then have "kvs \<noteq> []" by (simp add: splits_def)
    with True 1 show ?thesis
      by (simp add: mk.simps [of p kvs] mk.simps [of p "map (apsnd f) kvs"] s k g del: upt_rec_numeral)
  next
    case False
    then show ?thesis
      by (simp add: mk.simps [of p kvs] mk.simps [of p "map (apsnd f) kvs"] s k)
  qed
qed

lemma nimbus_build_eq:
  fixes w :: 'w
  assumes "wf_entries L kvs" "0 < L" "keccak_spec keccak" "root \<noteq> 0"
  shows "bindE (nimbus_build keccak erh sink root a w kvs) (\<lambda>(h, b). Inr (h, nWorld b, nAlloc b, StoHintOf b)) =
    bindE (sendRows sink (vertex_rows keccak a root kvs) w)
      (\<lambda>w. Inr (if kvs = [] then erh else trie_root keccak (map (apsnd fst) kvs), w,
         alloc_after a (allocs (creates kvs)), sto_hint kvs))"
proof -
  obtain b where b: "nimbus_NewBuilder root a w = Some b"
    using assms(4) by (simp add: nimbus_NewBuilder_def)
  show ?thesis
  proof (cases "kvs = []")
    case True
    then show ?thesis
      using b by (auto simp: nimbus_build_def nimbus_NewBuilder_def nimbus_Root_def vertex_rows_def sto_hint_def
          StoHintOf_def split: if_splits)
  next
    case False
    let ?t = "close_node (lkey kvs) (lval kvs) 0 (spine kvs)"
    have mk: "mk 0 kvs = Some ?t" using assms(1) False by (rule mk_spine)
    have n: "nodes [] ?t = closed kvs @ close_nodes (lkey kvs) (lval kvs) 0 (spine kvs)"
      using nodes_mk [OF assms(1) False agree_0] by (simp add: mk)
    have h: "keccak (encv keccak ?t) = trie_root keccak (map (apsnd fst) kvs)"
      using mk_map [of 0 fst kvs] by (simp add: trie_root_def mk encv_def)
    have sh: "StoHintOf ((vbuilder_of keccak a root kvs w)\<lparr>nFinished := True, nStack := [],
        nMinLeafDepth := min_leaf_depth (nodes [] ?t) maxInt\<rparr>) = sto_hint kvs" for w :: 'w
      using False by (auto simp: StoHintOf_def sto_hint_def mk vbuilder_of_def Let_def min_def)
    have sel: "nWorld (vbuilder_of keccak a root kvs w) = w"
      "nAlloc (vbuilder_of keccak a root kvs w) = alloc_after a (allocs (creates kvs))" for w :: 'w
      by (simp_all add: vbuilder_of_def)
    show ?thesis
      using False
      by (simp add: nimbus_build_def b vAddLeaves_eq [OF assms(1) False assms(2,3) b] bindE_assoc
          Root_veq [OF assms(1) False assms(3)] vertex_rows_def mk sendRows_append sh [unfolded n] sel h
          n flip: min_leaf_depth_append)
  qed
qed

end
