(* ===== verification/Nimbus_Rows.thy ===== *)
theory Nimbus_Rows
  imports Nimbus_Trie
begin

text \<open>
  Properties of the vertex rows written by \<open>internal/nimbus/builder.go\<close>: the rows of a trie have
  pairwise different keys, their records fit the reader's buffer, and the storage hint never points
  below a leaf.
\<close>

section \<open>Row keys\<close>

lemma position_less: "q \<in> set ps \<Longrightarrow> position q ps < length ps"
  by (induction ps) (auto simp: position_def)

lemma nth_position: "q \<in> set ps \<Longrightarrow> ps ! position q ps = q"
  using position_less [of q ps] nth_length_takeWhile [of "\<lambda>p. p \<noteq> q" ps] by (simp add: position_def)

lemma position_inj: "q \<in> set ps \<Longrightarrow> q' \<in> set ps \<Longrightarrow> position q ps = position q' ps \<Longrightarrow> q = q'"
  using nth_position by metis

text \<open>Identifiers of nodes below a branch, as natural numbers.\<close>

lemma vid_static:
  assumes "path \<noteq> []" "\<not> is_deep (butlast path)" "list_all is_nibble path"
  shows "unat (vid_of (start_vid a ps) root path) = soff (length path) + nibval path"
    "length path \<le> 8"
proof -
  obtain q x where path: "path = q @ [x]" using assms(1) by (cases path rule: rev_cases) auto
  have len: "length q \<le> 8" "length path \<le> 8" using assms(2) by (simp_all add: path is_deep_def StaticVIDLevels_def)
  then show "length path \<le> 8" by simp
  have "vid_of (start_vid a ps) root path = of_nat (soff (length path) + nibval path)"
    using assms(2) StaticStartVid_eq [of "length q" q] len
    by (simp add: vid_of_def path start_vid_def)
  moreover have "soff (length path) + nibval path < 2 ^ 64"
    using static_value_bounds(2) [OF assms(3) len(2)] by simp
  ultimately show "unat (vid_of (start_vid a ps) root path) = soff (length path) + nibval path"
    by (simp only: unat_of_nat_u64)
qed

lemma vid_deep:
  assumes "path \<noteq> []" "is_deep (butlast path)" "list_all is_nibble path" "butlast path \<in> set ps"
    and room: "unat (top a) + 16 * length ps < 2 ^ 64"
  shows "unat (vid_of (start_vid a ps) root path) =
    unat (top a) + 16 * position (butlast path) (filter is_deep ps) + 1 + unat (last path)"
proof -
  let ?n = "position (butlast path) (filter is_deep ps)"
  have "?n < length (filter is_deep ps)" using assms(2,4) by (intro position_less) simp
  also have "\<dots> \<le> length ps" by simp
  finally have n: "16 * ?n + 16 \<le> 16 * length ps" by simp
  have x: "unat (last path) < 16" using assms(1,3) by (metis is_nibble_def last_in_set list_all_iff)
  have "vid_of (start_vid a ps) root path =
      of_nat (unat (top a) + 16 * ?n + 1 + unat (last path))"
    using assms(1,2) by (simp add: vid_of_def start_vid_def)
  moreover have "unat (top a) + 16 * ?n + 1 + unat (last path) < 2 ^ 64" using n x room by linarith
  ultimately show ?thesis by (simp only: unat_of_nat_u64)
qed

lemma vid_inj:
  assumes p: "list_all is_nibble p" "p \<noteq> [] \<Longrightarrow> butlast p \<in> set ps"
    and q: "list_all is_nibble q" "q \<noteq> [] \<Longrightarrow> butlast q \<in> set ps"
    and room: "unat (top a) + 16 * length ps < 2 ^ 64" "unat FirstDynamicVID \<le> unat (top a) + 1"
    and root: "root = FirstStaticVID \<or> unat FirstDynamicVID \<le> unat root \<and> unat root \<le> unat (top a)"
    and e: "vid_of (start_vid a ps) root p = vid_of (start_vid a ps) root q"
  shows "p = q"
proof -
  let ?v = "\<lambda>p. unat (vid_of (start_vid a ps) root p)"
  have static: "?v p = soff (length p) + nibval p \<and> length p \<le> 8 \<and> 2 \<le> ?v p \<and> ?v p < unat FirstDynamicVID"
    if "p \<noteq> []" "\<not> is_deep (butlast p)" "list_all is_nibble p" for p
  proof -
    note v = vid_static(1) [OF that, of a ps root] vid_static(2) [OF that]
    have "soff 1 \<le> soff (length p)" using that(1) by (intro soff_mono) (cases p, auto)
    then show ?thesis
      using v static_value_bounds(2) [OF that(3) v(2)] by (simp add: soff_1 FirstDynamicVID_def)
  qed
  have deep: "?v p = unat (top a) + 16 * position (butlast p) (filter is_deep ps) + 1 + unat (last p)"
    if "p \<noteq> []" "is_deep (butlast p)" "list_all is_nibble p" "butlast p \<in> set ps" for p
    using vid_deep [OF that room(1)] .
  have rt: "?v [] = unat root" by (simp add: vid_of_def)
  have root': "unat root = 1 \<or> unat FirstDynamicVID \<le> unat root \<and> unat root \<le> unat (top a)"
    using root by (auto simp: FirstStaticVID_def)
  have fd: "2 \<le> unat FirstDynamicVID" by (simp add: FirstDynamicVID_def)
  have ee: "?v p = ?v q" using e by simp
  consider "p = []" "q = []" | "p = []" "q \<noteq> []" | "p \<noteq> []" "q = []" | "p \<noteq> []" "q \<noteq> []" by blast
  then show ?thesis
  proof cases
    case 2
    then show ?thesis using static [of q] deep [of q] q rt root' ee room(2) fd by (cases "is_deep (butlast q)") auto
  next
    case 3
    then show ?thesis using static [of p] deep [of p] p rt root' ee room(2) fd by (cases "is_deep (butlast p)") auto
  next
    case 4
    consider "is_deep (butlast p)" "is_deep (butlast q)" | "\<not> is_deep (butlast p)" "\<not> is_deep (butlast q)"
      | "is_deep (butlast p) \<noteq> is_deep (butlast q)" by blast
    then show ?thesis
    proof cases
      case 1
      have "unat (last p) < 16" "unat (last q) < 16"
        using 4 p(1) q(1) by (metis is_nibble_def last_in_set list_all_iff)+
      with deep [OF 4(1) 1(1) p(1) p(2) [OF 4(1)]] deep [OF 4(2) 1(2) q(1) q(2) [OF 4(2)]] ee
      have n: "position (butlast p) (filter is_deep ps) = position (butlast q) (filter is_deep ps)" by linarith
      then have "unat (last p) = unat (last q)"
        using deep [OF 4(1) 1(1) p(1) p(2) [OF 4(1)]] deep [OF 4(2) 1(2) q(1) q(2) [OF 4(2)]] ee by simp
      then have "last p = last q" by (simp add: word_unat_eq_iff)
      moreover have "butlast p = butlast q"
        using n p(2) [OF 4(1)] q(2) [OF 4(2)] 1 by (intro position_inj [of _ "filter is_deep ps"]) auto
      ultimately show ?thesis using 4 by (metis append_butlast_last_id)
    next
      case 2
      then show ?thesis
        using static [OF 4(1) 2(1) p(1)] static [OF 4(2) 2(2) q(1)] ee
        by (intro static_value_inj) (use p q in auto)
    next
      case 3
      then show ?thesis
        using static [of p] static [of q] deep [of p] deep [of q] 4 p q ee room(2) by force
    qed
  qed simp
qed

lemma nodes_branches:
  assumes "wf_entries L kvs" "mk 0 kvs = Some t" "ev \<in> set (nodes [] t)"
  shows "ev_branches ev \<subseteq> set (creates kvs)" "list_all is_nibble (fst ev)"
proof -
  have ne: "kvs \<noteq> []" using assms(2) by auto
  have "nodes [] t = closed kvs @ close_nodes (lkey kvs) (lval kvs) 0 (spine kvs)"
    using nodes_mk [OF assms(1) ne agree_0] assms(2) by simp
  then show "ev_branches ev \<subseteq> set (creates kvs)"
    using assms(3) closed_branches [OF assms(1), of ev] root_branches [OF assms(1) ne, of ev]
    by (metis Un_iff set_append)
  obtain kv where "kv \<in> set kvs" "on_key (fst kv) ev"
    using nodes_leaf_entries(2) [OF assms] by blast
  then obtain q where "fst ev = take q (fst kv)" "nibbly (fst kv)"
    using wf_entriesD(2) [OF assms(1)] by (auto simp: on_key_def)
  then show "list_all is_nibble (fst ev)"
    by (auto simp: list_all_iff nibbly_def is_nibble_def dest: in_set_takeD)
qed

lemma vids_distinct:
  assumes wf: "wf_entries L kvs"
    and room: "unat (top a) + 16 * length kvs < 2 ^ 64" "unat FirstDynamicVID \<le> unat (top a) + 1"
    and root: "root = FirstStaticVID \<or> unat FirstDynamicVID \<le> unat root \<and> unat root \<le> unat (top a)"
  shows "distinct (map (Vid \<circ> fst) (vertex_rows keccak a root kvs))"
proof (cases "mk 0 kvs")
  case None
  then show ?thesis by (simp add: vertex_rows_def)
next
  case (Some t)
  let ?v = "vid_of (start_vid a (creates kvs)) root"
  have room': "unat (top a) + 16 * length (creates kvs) < 2 ^ 64"
    using room(1) length_creates [of kvs] by linarith
  have par: "butlast (fst ev) \<in> set (creates kvs)" if "ev \<in> set (nodes [] t)" "fst ev \<noteq> []" for ev
    using nodes_branches(1) [OF wf Some that(1)] that(2) by (auto simp: ev_branches_def parent_path_def)
  have "inj_on ?v (fst ` set (nodes [] t))"
  proof (rule inj_onI)
    fix p q assume "p \<in> fst ` set (nodes [] t)" "q \<in> fst ` set (nodes [] t)" and e: "?v p = ?v q"
    then obtain x y where xy: "x \<in> set (nodes [] t)" "p = fst x" "y \<in> set (nodes [] t)" "q = fst y" by blast
    have "list_all is_nibble p" "list_all is_nibble q"
      using nodes_branches(2) [OF wf Some] xy by simp_all
    moreover have "p \<noteq> [] \<Longrightarrow> butlast p \<in> set (creates kvs)" "q \<noteq> [] \<Longrightarrow> butlast q \<in> set (creates kvs)"
      using par xy by simp_all
    ultimately show "p = q" using vid_inj [OF _ _ _ _ room' room(2) root e] by blast
  qed
  moreover have "distinct (map fst (nodes [] t))" using nodes_mk_distinct [of "[]" 0 kvs] Some by simp
  ultimately have "distinct (map ?v (map fst (nodes [] t)))" by (simp add: distinct_map comp_inj_on)
  then show ?thesis by (simp add: vertex_rows_def Some vrow_def comp_def)
qed

section \<open>Record sizes\<close>

lemma record_size:
  assumes "wf_entries L kvs" "L \<le> 64" "keccak_spec keccak" "\<forall>kv \<in> set kvs. length (snd (snd kv)) \<le> 84"
    and "r \<in> set (vertex_rows keccak a root kvs)"
  shows "length (snd r) \<le> MaxVertexBlobSize"
proof -
  obtain t where t: "mk 0 kvs = Some t" using assms(5) by (cases "mk 0 kvs") (auto simp: vertex_rows_def)
  let ?S = "start_vid a (creates kvs)"
  obtain path node where ev: "(path, node) \<in> set (nodes [] t)" "snd r = record_of keccak ?S path node"
    using assms(5) by (auto simp: vertex_rows_def t vrow_def)
  obtain kv where kv: "kv \<in> set kvs" "on_key (fst kv) (path, node)"
    using nodes_leaf_entries(2) [OF assms(1) t ev(1)] by blast
  have L: "length (fst kv) = L" using wf_entriesD(1) [OF assms(1) kv(1)] .
  show ?thesis
  proof (cases node)
    case (Leaf rest v)
    have "(path @ rest, v) \<in> set (leaf_entries (nodes [] t))"
      unfolding leaf_entries_def set_concat set_map
      by (intro UN_I [OF imageI [OF ev(1)]]) (simp add: leaf_entry_def Leaf)
    then have e: "(path @ rest, v) \<in> set kvs" using nodes_leaf_entries(1) [OF assms(1) t] by simp
    then have "length rest \<le> 64" "length (snd v) \<le> 84"
      using wf_entriesD(1) [OF assms(1) e] assms(2,4) by auto
    then show ?thesis
      using HexPrefixLen_bounds [of "length rest"]
      by (simp add: ev(2) Leaf AppendLeafRecord_eq HexPrefixLen_eq MaxVertexBlobSize_def)
  next
    case (Branch pfx cs)
    let ?key = "branch_key keccak (Branch pfx cs)"
    have k: "length ?key = 0 \<or> length ?key = 32" using assms(3) by (simp add: branch_key_def keccak_spec_def)
    obtain d where "path @ pfx = take d (fst kv)" using kv(2) Branch by (auto simp: on_key_def)
    then have pfx: "length path + length pfx \<le> L" "set pfx \<subseteq> set (fst kv)"
      using L by (metis length_append length_take min.cobounded1, metis le_sup_iff set_append set_take_subset)
    have p: "length pfx \<le> 64" "list_all is_nibble pfx"
      using pfx assms(2) wf_entriesD(2) [OF assms(1) kv(1)] by (auto simp: list_all_iff nibbly_def is_nibble_def)
    obtain rec where "AppendBranch [] ?key (?S (path @ pfx)) (usedOf cs) pfx = Some rec"
      using AppendBranch_eq [OF k] by blast
    then show ?thesis
      using DecodeVertex_branch(1) [OF k p(2,1)] by (fastforce simp: ev(2) Branch MaxVertexBlobSize_def)
  qed
qed

section \<open>Storage hint\<close>

lemma min_leaf_depth_le:
  "min_leaf_depth evs m \<le> m" "(path, Leaf r v) \<in> set evs \<Longrightarrow> min_leaf_depth evs m \<le> length path"
proof -
  show le: "min_leaf_depth evs m \<le> m" for evs :: "'a node_event list" and m
  proof (induction evs arbitrary: m)
    case (Cons ev evs)
    have "min_leaf_depth evs x \<le> m" if "x \<le> m" for x using Cons.IH [of x] that by simp
    then show ?case by (simp add: min_leaf_depth_def split: mpt.splits)
  qed (simp add: min_leaf_depth_def)
  show "min_leaf_depth evs m \<le> length path" if "(path, Leaf r v) \<in> set evs"
    using that
  proof (induction evs arbitrary: m)
    case (Cons ev evs)
    show ?case
    proof (cases "ev = (path, Leaf r v)")
      case True
      then show ?thesis using le [of evs "min m (length path)"] by (simp add: min_leaf_depth_def)
    next
      case False
      then have "min_leaf_depth evs x \<le> length path" for x using Cons by simp
      then show ?thesis by (simp add: min_leaf_depth_def)
    qed
  qed simp
qed

section \<open>Properties\<close>

text \<open>
  C2: building vertex rows equals the reference.  For strictly ascending keys of one positive length,
  made of nibbles, the builder sends exactly the rows of the reference trie, in order, each checked
  against the size limit; it returns the same root hash as the hash-only reference (the empty root
  for no keys), leaves the allocator advanced by one block per deep branch, and reports the
  reference storage hint.  It fails just when a row is too large or the sink rejects one.
\<close>

theorem nimbus_builder_equals_reference:
  assumes "wf_entries L kvs" "0 < L" "keccak_spec keccak" "root \<noteq> 0"
  shows "bindE (nimbus_build keccak EmptyRootHash sink root a w kvs)
      (\<lambda>(h, b). Inr (h, nWorld b, nAlloc b, StoHintOf b)) =
    bindE (sendRows sink (vertex_rows keccak a root kvs) w)
      (\<lambda>w. Inr (if kvs = [] then EmptyRootHash else trie_root keccak (map (apsnd fst) kvs), w,
         alloc_after a (allocs (creates kvs)), sto_hint kvs))"
  using assms by (rule nimbus_build_eq)

definition collect :: "(RootedVertexID \<times> bytes) list \<Rightarrow> RootedVertexID \<Rightarrow> bytes \<Rightarrow> (RootedVertexID \<times> bytes) list" where
  "collect rs r rec = rs @ [(r, rec)]"

theorem nimbus_builder_equals_reference_witness:
  "bindE (nimbus_build (\<lambda>x. replicate 32 0) [] (\<lambda>r rec w. Inr (collect w r rec)) 1 NewVidAllocator []
        [([1, 2], [7], [9]), ([1, 5], [8], [9])])
      (\<lambda>(h, b). Inr (h, nWorld b, nAlloc b, StoHintOf b)) =
    bindE (sendRows (\<lambda>r rec w. Inr (collect w r rec))
        (vertex_rows (\<lambda>x. replicate 32 0) NewVidAllocator 1 [([1, 2], [7], [9]), ([1, 5], [8], [9])]) [])
      (\<lambda>w. (Inr (trie_root (\<lambda>x. replicate 32 0) [([1, 2], [7]), ([1, 5], [8])], w,
         alloc_after NewVidAllocator (allocs (creates [([1, 2], [7 :: byte], [9 :: byte]), ([1, 5], [8], [9])])),
         sto_hint [([1, 2], [7], [9]), ([1, 5], [8], [9])]) :: unit nimbus_error + _))"
  using nimbus_builder_equals_reference [of 2 "[([1, 2], [7], [9]), ([1, 5], [8], [9])]" "\<lambda>x. replicate 32 0" 1 "[]"
      "\<lambda>r rec w. Inr (collect w r rec)" NewVidAllocator "[]"]
  by (simp add: wf_entries_def nibbly_def bytesLess_def keccak_spec_def)



text \<open>
  C23: the size limit is unreachable in production.  With keys of at most 64 nibbles and payloads of at
  most 84 bytes (every account and storage payload), each record of the trie fits the reader's
  118-byte buffer, so a build into a sink that accepts everything succeeds.
\<close>

theorem nimbus_records_fit:
  assumes "wf_entries L kvs" "0 < L" "L \<le> 64" "keccak_spec keccak" "root \<noteq> 0"
    and "\<forall>kv \<in> set kvs. length (snd (snd kv)) \<le> 84"
  shows "\<exists>h b. nimbus_build keccak EmptyRootHash (\<lambda>r rec w. Inr (collect w r rec)) root a [] kvs =
      (Inr (h, b) :: unit nimbus_error + _) \<and> nWorld b = vertex_rows keccak a root kvs"
proof -
  have send: "sendRows (\<lambda>r rec w. Inr (collect w r rec)) rs w = (Inr (w @ rs) :: unit nimbus_error + _)"
    if "\<forall>r \<in> set rs. length (snd r) \<le> MaxVertexBlobSize" for rs w
    using that by (induction rs arbitrary: w) (auto simp: sendRow_def collect_def)
  have "\<forall>r \<in> set (vertex_rows keccak a root kvs). length (snd r) \<le> MaxVertexBlobSize"
    using record_size [OF assms(1,3,4,6)] by blast
  from send [OF this, of "[]"]
  have "bindE (nimbus_build keccak EmptyRootHash (\<lambda>r rec w. Inr (collect w r rec)) root a [] kvs)
      (\<lambda>(h, b). Inr (h, nWorld b, nAlloc b, StoHintOf b)) =
    (Inr (if kvs = [] then EmptyRootHash else trie_root keccak (map (apsnd fst) kvs),
         vertex_rows keccak a root kvs, alloc_after a (allocs (creates kvs)), sto_hint kvs)
      :: unit nimbus_error + _)"
    by (simp add: nimbus_build_eq [OF assms(1,2,4,5)])
  then show ?thesis by (auto simp: bindE_eq_Inr)
qed

theorem nimbus_records_fit_witness:
  "\<exists>h b. nimbus_build (\<lambda>x. replicate 32 0) [] (\<lambda>r rec w. Inr (collect w r rec)) 1 NewVidAllocator []
      [([1, 2], [7], [9]), ([1, 5], [8], [9])] = (Inr (h, b) :: unit nimbus_error + _) \<and>
    nWorld b = vertex_rows (\<lambda>x. replicate 32 0) NewVidAllocator 1 [([1, 2], [7], [9]), ([1, 5], [8], [9])]"
  by (rule nimbus_records_fit [of 2])
    (simp_all add: wf_entries_def nibbly_def bytesLess_def keccak_spec_def)

text \<open>
  The storage hint is one the reader accepts and never points past a leaf: for a non-empty trie
  it lies between 1 and 9, and every leaf of the trie sits at least as deep as the hint less one.
\<close>

theorem nimbus_sto_hint_safe:
  assumes "wf_entries L kvs" "mk 0 kvs = Some t"
  shows "1 \<le> sto_hint kvs \<and> sto_hint kvs \<le> MaxStoHint \<and>
    (\<forall>path r v. (path, Leaf r v) \<in> set (nodes [] t) \<longrightarrow> unat (sto_hint kvs) - 1 \<le> length path)"
proof -
  let ?m = "min StaticVIDLevels (min_leaf_depth (nodes [] t) maxInt)"
  have m: "?m \<le> 8" by (simp add: StaticVIDLevels_def)
  have h: "sto_hint kvs = of_nat (?m + 1)" by (simp add: sto_hint_def assms(2))
  have u: "unat (sto_hint kvs) = ?m + 1" unfolding h using m by (subst unat_of_nat) simp
  then have "1 \<le> sto_hint kvs" "sto_hint kvs \<le> MaxStoHint"
    using m by (simp_all add: word_le_nat_alt MaxStoHint_def StaticVIDLevels_def)
  moreover have "?m \<le> length path" if "(path, Leaf r v) \<in> set (nodes [] t)" for path r v
    using min_leaf_depth_le(2) [OF that, of maxInt] by linarith
  ultimately show ?thesis using u by auto
qed

theorem nimbus_sto_hint_safe_witness:
  "1 \<le> sto_hint [([1, 2], [7], [9])] \<and> sto_hint [([1, 2], [7], [9])] \<le> MaxStoHint \<and>
    unat (sto_hint [([1, 2], [7], [9])]) - 1 \<le> length ([] :: bytes)"
proof -
  have "wf_entries 2 [([1, 2], [7 :: byte], [9 :: byte])]"
    "mk 0 [([1, 2], [7], [9])] = Some (Leaf [1, 2] ([7 :: byte], [9 :: byte]))"
    by (simp_all add: wf_entries_def nibbly_def mk.simps splits_def split_at_def fkey_def lkey_def lval_def)
  from nimbus_sto_hint_safe [OF this] show ?thesis by simp
qed

end
