(* ===== verification/Streamsort.thy ===== *)
theory Streamsort
  imports Prelude
begin

text \<open>
  The sorted spill store of \<open>internal/streamsort/streamsort.go\<close>: \<open>NewWithOptions\<close>, \<open>Put\<close>, \<open>Finalize\<close>,
  \<open>Get\<close>, \<open>Iterate\<close>, the cursors and getters, and \<open>Close\<close>, as operations of a single goroutine.

  Pebble is a parameter: its documented behaviour is the predicate \<open>pebble_spec\<close>, which relates a
  database to the map it holds.  Operations mutate the store also when they fail, so each returns
  the store besides its result.  The contract of the package is the abstract map \<open>contents\<close>: the
  size-triggered flushes of the batch are invisible, a read sees the last value put under each key,
  and a scan sees every key once, in ascending order.
\<close>

section \<open>Pebble\<close>

type_synonym kv = "bytes \<times> bytes"

record 'db pebble =
  pb_open :: "string \<Rightarrow> nat \<Rightarrow> nat \<Rightarrow> string + 'db"
  pb_set :: "kv list \<Rightarrow> bytes \<Rightarrow> bytes \<Rightarrow> string + kv list"
  pb_len :: "kv list \<Rightarrow> nat"
  pb_commit :: "kv list \<Rightarrow> 'db \<Rightarrow> string + 'db"
  pb_get :: "'db \<Rightarrow> bytes \<Rightarrow> string + bytes option"
  pb_scan :: "'db \<Rightarrow> string + kv list"
  pb_close :: "'db \<Rightarrow> string option"

definition pebble_spec :: "'db pebble \<Rightarrow> ('db \<Rightarrow> bytes \<rightharpoonup> bytes) \<Rightarrow> bool" where
  "pebble_spec P V \<longleftrightarrow>
     (\<forall>dir c m db. pb_open P dir c m = Inr db \<longrightarrow> V db = Map.empty) \<and>
     (\<forall>b k v b'. pb_set P b k v = Inr b' \<longrightarrow> b' = b @ [(k, v)]) \<and>
     (\<forall>b db db'. pb_commit P b db = Inr db' \<longrightarrow> V db' = V db ++ map_of (rev b)) \<and>
     (\<forall>db k r. pb_get P db k = Inr r \<longrightarrow> r = V db k) \<and>
     (\<forall>db es. pb_scan P db = Inr es \<longrightarrow> sorted_wrt bytesLess (map fst es) \<and> map_of es = V db)"

section \<open>Store\<close>

definition MemTableSize :: nat where "MemTableSize = 256 * 2 ^ 20"
definition batchFlushBytes :: nat where "batchFlushBytes = 64 * 2 ^ 20"
definition defaultBlockCacheBytes :: nat where "defaultBlockCacheBytes = 8 * 2 ^ 20"

record Options =
  BlockCacheBytes :: int
  MemTableBytes :: int

datatype streamsort_error =
    MkdirFailed string
  | OpenFailed string
  | PutAfterClose
  | PutAfterFinalize
  | BatchSetFailed string
  | BatchCommitFailed string
  | FinalizeAfterClose
  | FinalizeCommitFailed string
  | ReadAfterClose
  | DbReadFailed string
  | FinalCommitFailed string
  | DbCloseFailed string

record 'db Store =
  dir :: string
  db :: 'db
  batch :: "kv list"
  finalized :: bool
  finalizeDone :: bool
  finalizeErr :: "streamsort_error option"
  readers :: nat
  closed :: bool

text \<open>\<open>os.MkdirTemp\<close> is the argument \<open>mkdir\<close>: the created directory or the error of the system.\<close>

definition NewWithOptions ::
  "'db pebble \<Rightarrow> (string \<Rightarrow> string + string) \<Rightarrow> string \<Rightarrow> Options \<Rightarrow> streamsort_error + 'db Store" where
  "NewWithOptions P mkdir workDir opts =
     (case mkdir workDir of
        Inl e \<Rightarrow> Inl (MkdirFailed e)
      | Inr d \<Rightarrow>
          let cacheSize = (if BlockCacheBytes opts > 0 then nat (BlockCacheBytes opts) else defaultBlockCacheBytes);
              memTableSize = (if MemTableBytes opts > 0 then nat (MemTableBytes opts) else MemTableSize)
          in (case pb_open P d cacheSize memTableSize of
                Inl e \<Rightarrow> Inl (OpenFailed e)
              | Inr x \<Rightarrow> Inr \<lparr>dir = d, db = x, batch = [], finalized = False, finalizeDone = False,
                  finalizeErr = None, readers = 0, closed = False\<rparr>))"

definition New :: "'db pebble \<Rightarrow> (string \<Rightarrow> string + string) \<Rightarrow> string \<Rightarrow> streamsort_error + 'db Store" where
  "New P mkdir workDir = NewWithOptions P mkdir workDir \<lparr>BlockCacheBytes = 0, MemTableBytes = 0\<rparr>"

definition Put :: "'db pebble \<Rightarrow> bytes \<Rightarrow> bytes \<Rightarrow> 'db Store \<Rightarrow> streamsort_error option \<times> 'db Store" where
  "Put P key val s =
     (if closed s then (Some PutAfterClose, s)
      else if finalized s then (Some PutAfterFinalize, s)
      else case pb_set P (batch s) key val of
        Inl e \<Rightarrow> (Some (BatchSetFailed e), s)
      | Inr b \<Rightarrow>
          let s = s\<lparr>batch := b\<rparr> in
          if pb_len P b \<ge> batchFlushBytes then
            (case pb_commit P b (db s) of
               Inl e \<Rightarrow> (Some (BatchCommitFailed e), s)
             | Inr x \<Rightarrow> (None, s\<lparr>db := x, batch := []\<rparr>))
          else (None, s))"

definition Finalize :: "'db pebble \<Rightarrow> 'db Store \<Rightarrow> streamsort_error option \<times> 'db Store" where
  "Finalize P s =
     (if closed s then (Some FinalizeAfterClose, s)
      else
        let s = (if finalizeDone s then s
                 else case pb_commit P (batch s) (db s) of
                   Inl e \<Rightarrow> s\<lparr>finalizeDone := True, finalizeErr := Some (FinalizeCommitFailed e)\<rparr>
                 | Inr x \<Rightarrow> s\<lparr>finalizeDone := True, db := x, batch := [], finalized := True\<rparr>)
        in (finalizeErr s, s))"

text \<open>The gate every read passes: refuse a closed store, finalize it on the first read.\<close>

definition openForRead :: "'db pebble \<Rightarrow> 'db Store \<Rightarrow> streamsort_error option \<times> 'db Store" where
  "openForRead P s =
     (if closed s then (Some ReadAfterClose, s)
      else if finalized s then (None, s)
      else Finalize P s)"

definition Get :: "'db pebble \<Rightarrow> bytes \<Rightarrow> 'db Store \<Rightarrow> (streamsort_error + bytes option) \<times> 'db Store" where
  "Get P key s =
     (case openForRead P s of
        (Some e, s) \<Rightarrow> (Inl e, s)
      | (None, s) \<Rightarrow>
          (case pb_get P (db s) key of
             Inl e \<Rightarrow> (Inl (DbReadFailed e), s)
           | Inr r \<Rightarrow> (Inr r, s)))"

text \<open>
  \<open>Iterate\<close> hands the entries to the callback, whose state is passed along; its own errors are kept
  apart from those of the callback.
\<close>

datatype 'e iter_error = StoreError streamsort_error | YieldError 'e

fun yieldAll :: "(bytes \<Rightarrow> bytes \<Rightarrow> 'w \<Rightarrow> 'e + 'w) \<Rightarrow> kv list \<Rightarrow> 'w \<Rightarrow> 'e iter_error + 'w" where
  "yieldAll yield [] w = Inr w"
| "yieldAll yield ((k, v) # es) w =
     (case yield k v w of Inl e \<Rightarrow> Inl (YieldError e) | Inr w \<Rightarrow> yieldAll yield es w)"

definition Iterate ::
  "'db pebble \<Rightarrow> (bytes \<Rightarrow> bytes \<Rightarrow> 'w \<Rightarrow> 'e + 'w) \<Rightarrow> 'w \<Rightarrow> 'db Store \<Rightarrow> ('e iter_error + 'w) \<times> 'db Store" where
  "Iterate P yield w s =
     (case openForRead P s of
        (Some e, s) \<Rightarrow> (Inl (StoreError e), s)
      | (None, s) \<Rightarrow>
          (case pb_scan P (db s) of
             Inl e \<Rightarrow> (Inl (StoreError (DbReadFailed e)), s)
           | Inr es \<Rightarrow> (yieldAll yield es w, s)))"

section \<open>Cursors and getters\<close>

text \<open>A cursor holds the entries from its position on, \<open>None\<close> once closed; it counts as a reader.\<close>

record Cursor =
  cursorIter :: "kv list option"

definition NewCursor :: "'db pebble \<Rightarrow> 'db Store \<Rightarrow> (streamsort_error + Cursor) \<times> 'db Store" where
  "NewCursor P s =
     (case openForRead P s of
        (Some e, s) \<Rightarrow> (Inl e, s)
      | (None, s) \<Rightarrow>
          (case pb_scan P (db s) of
             Inl e \<Rightarrow> (Inl (DbReadFailed e), s)
           | Inr es \<Rightarrow> (Inr \<lparr>cursorIter = Some es\<rparr>, s\<lparr>readers := readers s + 1\<rparr>)))"

definition Cursor_Valid :: "Cursor \<Rightarrow> bool" where
  "Cursor_Valid c = (case cursorIter c of Some (e # es) \<Rightarrow> True | _ \<Rightarrow> False)"

definition Cursor_Next :: "Cursor \<Rightarrow> bool \<times> Cursor" where
  "Cursor_Next c =
     (let c = c\<lparr>cursorIter := map_option tl (cursorIter c)\<rparr> in (Cursor_Valid c, c))"

definition Cursor_Key :: "Cursor \<Rightarrow> bytes option" where
  "Cursor_Key c = (case cursorIter c of Some (e # es) \<Rightarrow> Some (fst e) | _ \<Rightarrow> None)"

definition Cursor_Value :: "Cursor \<Rightarrow> bytes option" where
  "Cursor_Value c = (case cursorIter c of Some (e # es) \<Rightarrow> Some (snd e) | _ \<Rightarrow> None)"

definition Cursor_Close :: "Cursor \<Rightarrow> 'db Store \<Rightarrow> Cursor \<times> 'db Store" where
  "Cursor_Close c s =
     (case cursorIter c of
        None \<Rightarrow> (c, s)
      | Some _ \<Rightarrow> (c\<lparr>cursorIter := None\<rparr>, s\<lparr>readers := readers s - 1\<rparr>))"

record Getter =
  getterIter :: "kv list option"

definition NewGetter :: "'db pebble \<Rightarrow> 'db Store \<Rightarrow> (streamsort_error + Getter) \<times> 'db Store" where
  "NewGetter P s =
     (case openForRead P s of
        (Some e, s) \<Rightarrow> (Inl e, s)
      | (None, s) \<Rightarrow>
          (case pb_scan P (db s) of
             Inl e \<Rightarrow> (Inl (DbReadFailed e), s)
           | Inr es \<Rightarrow> (Inr \<lparr>getterIter = Some es\<rparr>, s\<lparr>readers := readers s + 1\<rparr>)))"

text \<open>\<open>SeekGE\<close>: the first entry whose key is not below the wanted one.\<close>

definition Getter_Get :: "bytes \<Rightarrow> Getter \<Rightarrow> bytes option" where
  "Getter_Get key g =
     (case getterIter g of
        None \<Rightarrow> None
      | Some es \<Rightarrow>
          (case dropWhile (\<lambda>e. bytesLess (fst e) key) es of
             [] \<Rightarrow> None
           | e # _ \<Rightarrow> if fst e = key then Some (snd e) else None))"

definition Getter_Close :: "Getter \<Rightarrow> 'db Store \<Rightarrow> Getter \<times> 'db Store" where
  "Getter_Close g s =
     (case getterIter g of
        None \<Rightarrow> (g, s)
      | Some _ \<Rightarrow> (g\<lparr>getterIter := None\<rparr>, s\<lparr>readers := readers s - 1\<rparr>))"

text \<open>\<open>Close\<close> waits for the readers: with a cursor or getter still open it never returns, \<open>None\<close>.\<close>

definition Close :: "'db pebble \<Rightarrow> 'db Store \<Rightarrow> (streamsort_error option \<times> 'db Store) option" where
  "Close P s =
     (if closed s then Some (None, s)
      else if readers s > 0 then None
      else
        let s = s\<lparr>closed := True\<rparr>;
            (firstErr, s) =
              (if finalized s then (None, s)
               else case pb_commit P (batch s) (db s) of
                 Inl e \<Rightarrow> (Some (FinalCommitFailed e), s\<lparr>batch := []\<rparr>)
               | Inr x \<Rightarrow> (None, s\<lparr>db := x, batch := []\<rparr>));
            firstErr =
              (case (pb_close P (db s), firstErr) of
                 (Some e, None) \<Rightarrow> Some (DbCloseFailed e)
               | _ \<Rightarrow> firstErr)
        in Some (firstErr, s))"

section \<open>The store as a map\<close>

definition contents :: "('db \<Rightarrow> bytes \<rightharpoonup> bytes) \<Rightarrow> 'db Store \<Rightarrow> bytes \<rightharpoonup> bytes" where
  "contents V s = V (db s) ++ map_of (rev (batch s))"

text \<open>The invariant: a finalized store has an empty batch, and finalizing either succeeded or left an error.\<close>

definition store_ok :: "'db Store \<Rightarrow> bool" where
  "store_ok s \<longleftrightarrow> (finalized s \<longrightarrow> batch s = [] \<and> finalizeDone s \<and> finalizeErr s = None) \<and>
     (finalizeDone s \<and> \<not> finalized s \<longrightarrow> finalizeErr s \<noteq> None) \<and>
     (\<not> finalizeDone s \<longrightarrow> finalizeErr s = None)"

lemma pebble_specD:
  assumes "pebble_spec P V"
  shows "pb_open P d c m = Inr x \<Longrightarrow> V x = Map.empty"
    "pb_set P b k v = Inr b' \<Longrightarrow> b' = b @ [(k, v)]"
    "pb_commit P b x = Inr x' \<Longrightarrow> V x' = V x ++ map_of (rev b)"
    "pb_get P x k = Inr r \<Longrightarrow> r = V x k"
    "pb_scan P x = Inr es \<Longrightarrow> sorted_wrt bytesLess (map fst es)"
    "pb_scan P x = Inr es \<Longrightarrow> map_of es = V x"
  using assms unfolding pebble_spec_def by blast+

lemma NewWithOptions_ok:
  assumes "pebble_spec P V" "NewWithOptions P mkdir d opts = Inr s"
  shows "store_ok s" "contents V s = Map.empty" "\<not> finalized s" "\<not> closed s" "readers s = 0"
  using assms(2) pebble_specD(1) [OF assms(1)]
  by (auto simp: NewWithOptions_def store_ok_def contents_def Let_def split: sum.splits if_splits)

lemma Put_ok:
  assumes "pebble_spec P V" "store_ok s" "Put P k v s = (None, s')"
  shows "store_ok s'" "contents V s' = (contents V s)(k \<mapsto> v)" "closed s' = closed s" "readers s' = readers s"
    "\<not> finalized s'" "\<not> closed s"
  using assms(2,3)
  by (auto simp: Put_def store_ok_def contents_def Let_def split: sum.splits if_splits
      dest!: pebble_specD(2,3) [OF assms(1)])

lemma Put_keeps_ok: "store_ok s \<Longrightarrow> Put P k v s = (r, s') \<Longrightarrow> store_ok s'"
  by (auto simp: Put_def store_ok_def Let_def split: sum.splits if_splits)

lemma Finalize_ok:
  assumes "pebble_spec P V" "store_ok s" "Finalize P s = (r, s')"
  shows "store_ok s'" "contents V s' = contents V s" "closed s' = closed s" "readers s' = readers s"
    "r = None \<Longrightarrow> finalized s'"
  using assms(2,3)
  by (auto simp: Finalize_def store_ok_def contents_def Let_def split: sum.splits if_splits
      dest!: pebble_specD(3) [OF assms(1)])

lemma openForRead_ok:
  assumes "pebble_spec P V" "store_ok s" "openForRead P s = (r, s')"
  shows "store_ok s'" "contents V s' = contents V s" "closed s' = closed s" "readers s' = readers s"
    "r = None \<Longrightarrow> finalized s' \<and> \<not> closed s'"
  using assms(2,3) Finalize_ok [OF assms(1,2), of r s']
  by (auto simp: openForRead_def Finalize_def split: if_splits)

lemma finalized_contents: "store_ok s \<Longrightarrow> finalized s \<Longrightarrow> contents V s = V (db s)"
  by (simp add: store_ok_def contents_def)

lemma Get_ok:
  assumes "pebble_spec P V" "store_ok s" "Get P k s = (Inr r, s')"
  shows "r = contents V s k" "store_ok s'" "contents V s' = contents V s"
proof -
  obtain s1 where s1: "openForRead P s = (None, s1)" "pb_get P (db s1) k = Inr r" "s' = s1"
    using assms(3) by (auto simp: Get_def split: prod.splits option.splits sum.splits)
  note o = openForRead_ok [OF assms(1,2) s1(1)]
  show "r = contents V s k"
    using pebble_specD(4) [OF assms(1) s1(2)] finalized_contents [OF o(1)] o(2,5) by metis
  show "store_ok s'" "contents V s' = contents V s" using o s1(3) by simp_all
qed

lemma Iterate_ok:
  assumes "pebble_spec P V" "store_ok s" "Iterate P yield w s = (Inr w', s')"
  obtains es where "sorted_wrt bytesLess (map fst es)" "map_of es = contents V s"
    "yieldAll yield es w = Inr w'" "store_ok s'" "contents V s' = contents V s"
proof -
  obtain s1 es where s1: "openForRead P s = (None, s1)" "pb_scan P (db s1) = Inr es" "s' = s1"
      "yieldAll yield es w = Inr w'"
    using assms(3) by (auto simp: Iterate_def split: prod.splits option.splits sum.splits)
  note o = openForRead_ok [OF assms(1,2) s1(1)]
  have "map_of es = contents V s"
    using pebble_specD(6) [OF assms(1) s1(2)] finalized_contents [OF o(1)] o(2,5) by metis
  then show ?thesis
    using that pebble_specD(5) [OF assms(1) s1(2)] s1(3,4) o(1,2) by blast
qed

text \<open>A getter finds the value of a key in a sorted scan.\<close>

lemma dropWhile_lookup:
  assumes "sorted_wrt bytesLess (map fst es)"
  shows "(case dropWhile (\<lambda>e. bytesLess (fst e) key) es of
      [] \<Rightarrow> None | e # _ \<Rightarrow> if fst e = key then Some (snd e) else None) = map_of es key"
  using assms
proof (induction es)
  case (Cons e es)
  obtain k v where e: "e = (k, v)" by (cases e)
  have later: "bytesLess k k'" if "(k', v') \<in> set es" for k' v' using Cons.prems that e by force
  show ?case
  proof (cases "bytesLess k key")
    case True
    then have "k \<noteq> key" by (metis bytesLess_irrefl)
    with Cons e True show ?thesis by simp
  next
    case False
    then have "key \<notin> fst ` set es" using later by auto
    then have "map_of es key = None" by (simp add: map_of_eq_None_iff)
    with False e show ?thesis by auto
  qed
qed simp

lemma NewGetter_ok:
  assumes "pebble_spec P V" "store_ok s" "NewGetter P s = (Inr g, s')"
  shows "Getter_Get k g = contents V s k" "readers s' = readers s + 1" "contents V s' = contents V s"
proof -
  obtain s1 es where s1: "openForRead P s = (None, s1)" "pb_scan P (db s1) = Inr es"
      "g = \<lparr>getterIter = Some es\<rparr>" "s' = s1\<lparr>readers := readers s1 + 1\<rparr>"
    using assms(3) by (auto simp: NewGetter_def split: prod.splits option.splits sum.splits)
  note o = openForRead_ok [OF assms(1,2) s1(1)]
  have "map_of es = contents V s"
    using pebble_specD(6) [OF assms(1) s1(2)] finalized_contents [OF o(1)] o(2,5) by metis
  then show "Getter_Get k g = contents V s k"
    using dropWhile_lookup [OF pebble_specD(5) [OF assms(1) s1(2)], of k] s1(3) by (simp add: Getter_Get_def)
  show "readers s' = readers s + 1" "contents V s' = contents V s"
    using o s1(4) by (simp_all add: contents_def)
qed

text \<open>Filling a store: the puts of one writer, stopping at the first error.\<close>

fun putAll :: "'db pebble \<Rightarrow> kv list \<Rightarrow> 'db Store \<Rightarrow> streamsort_error option \<times> 'db Store" where
  "putAll P [] s = (None, s)"
| "putAll P ((k, v) # kvs) s =
     (case Put P k v s of (Some e, s) \<Rightarrow> (Some e, s) | (None, s) \<Rightarrow> putAll P kvs s)"

lemma putAll_ok:
  assumes "pebble_spec P V" "store_ok s" "putAll P kvs s = (None, s')"
  shows "store_ok s' \<and> contents V s' = contents V s ++ map_of (rev kvs)"
  using assms(2,3)
proof (induction kvs arbitrary: s)
  case (Cons e kvs)
  obtain k v where e: "e = (k, v)" by (cases e)
  obtain s1 where s1: "Put P k v s = (None, s1)" "putAll P kvs s1 = (None, s')"
    using Cons.prems(2) by (auto simp: e split: prod.splits option.splits)
  note p = Put_ok [OF assms(1) Cons.prems(1) s1(1)]
  have "store_ok s' \<and> contents V s' = contents V s1 ++ map_of (rev kvs)"
    using Cons.IH [OF p(1) s1(2)] .
  then show ?case by (simp add: e p(2))
qed simp

section \<open>A model of Pebble\<close>

text \<open>
  A database as a finite map kept in key order, and a batch length of 76 bytes per entry; it meets
  the specification, so the hypotheses of the properties can hold.
\<close>

fun insort_kv :: "bytes \<Rightarrow> bytes \<Rightarrow> kv list \<Rightarrow> kv list" where
  "insort_kv k v [] = [(k, v)]"
| "insort_kv k v ((k', v') # es) =
     (if bytesLess k k' then (k, v) # (k', v') # es
      else if k = k' then (k, v) # es
      else (k', v') # insort_kv k v es)"

definition pebble_model :: "kv list pebble" where
  "pebble_model =
     \<lparr>pb_open = (\<lambda>d c m. Inr []), pb_set = (\<lambda>b k v. Inr (b @ [(k, v)])), pb_len = (\<lambda>b. 76 * length b),
      pb_commit = (\<lambda>b es. Inr (foldl (\<lambda>es (k, v). insort_kv k v es) es b)),
      pb_get = (\<lambda>es k. Inr (map_of es k)), 
      pb_scan = (\<lambda>es. Inr (foldl (\<lambda>es (k, v). insort_kv k v es) [] (rev es))), pb_close = (\<lambda>es. None)\<rparr>"

lemma map_of_insort_kv: "map_of (insort_kv k v es) = (map_of es)(k \<mapsto> v)"
  by (induction k v es rule: insort_kv.induct) (auto simp: fun_eq_iff)

lemma map_of_commit: "map_of (foldl (\<lambda>es (k, v). insort_kv k v es) es b) = map_of es ++ map_of (rev b)"
  by (induction b arbitrary: es) (auto simp: map_of_insort_kv)

lemma fst_insort_kv: "fst ` set (insort_kv k v es) = insert k (fst ` set es)"
  by (induction k v es rule: insort_kv.induct) auto

lemma sorted_insort_kv:
  "sorted_wrt bytesLess (map fst es) \<Longrightarrow> sorted_wrt bytesLess (map fst (insort_kv k v es))"
proof (induction k v es rule: insort_kv.induct)
  case (2 k v k' v' es)
  have "bytesLess k' x" if "x \<in> fst ` set (insort_kv k v es)" "\<not> bytesLess k k'" "k \<noteq> k'" for x
    using 2(2) that bytesLess_linear [of k k'] by (auto simp: fst_insort_kv)
  then show ?case using 2 by (auto intro: bytesLess_trans)
qed simp

lemma sorted_foldl_insort_kv:
  "sorted_wrt bytesLess (map fst es) \<Longrightarrow>
    sorted_wrt bytesLess (map fst (foldl (\<lambda>es (k, v). insort_kv k v es) es b))"
  by (induction b arbitrary: es) (auto simp: sorted_insort_kv)

lemma pebble_model_spec: "pebble_spec pebble_model map_of"
  by (auto simp: pebble_spec_def pebble_model_def map_of_commit sorted_foldl_insort_kv)

text \<open>A database whose operations never fail: then the store's do not either.\<close>

definition pebble_total :: "'db pebble \<Rightarrow> bool" where
  "pebble_total P \<longleftrightarrow>
     (\<forall>d c m. \<exists>x. pb_open P d c m = Inr x) \<and> (\<forall>b k v. \<exists>b'. pb_set P b k v = Inr b') \<and>
     (\<forall>b x. \<exists>x'. pb_commit P b x = Inr x') \<and> (\<forall>x. \<exists>es. pb_scan P x = Inr es)"

lemma pebble_model_total: "pebble_total pebble_model"
  by (simp add: pebble_total_def pebble_model_def)

lemma NewWithOptions_total:
  assumes "pebble_total P" "mkdir d = Inr d'"
  shows "\<exists>s. NewWithOptions P mkdir d opts = Inr s \<and> \<not> closed s \<and> \<not> finalized s \<and> \<not> finalizeDone s \<and> finalizeErr s = None"
proof -
  obtain x where "pb_open P d' (if BlockCacheBytes opts > 0 then nat (BlockCacheBytes opts) else defaultBlockCacheBytes)
      (if MemTableBytes opts > 0 then nat (MemTableBytes opts) else MemTableSize) = Inr x"
    using assms(1) unfolding pebble_total_def by blast
  then show ?thesis using assms(2) by (simp add: NewWithOptions_def Let_def)
qed

lemma Put_total:
  assumes "pebble_total P" "\<not> closed s \<and> \<not> finalized s \<and> \<not> finalizeDone s \<and> finalizeErr s = None"
  shows "\<exists>s'. Put P k v s = (None, s') \<and> \<not> closed s' \<and> \<not> finalized s' \<and> \<not> finalizeDone s' \<and> finalizeErr s' = None"
proof -
  obtain b where b: "pb_set P (batch s) k v = Inr b" using assms(1) unfolding pebble_total_def by blast
  obtain x where "pb_commit P b (db s) = Inr x" using assms(1) unfolding pebble_total_def by blast
  with b assms(2) show ?thesis by (simp add: Put_def Let_def)
qed

lemma openForRead_total:
  assumes "pebble_total P" "\<not> closed s \<and> \<not> finalized s \<and> \<not> finalizeDone s \<and> finalizeErr s = None"
  shows "\<exists>s'. openForRead P s = (None, s')"
proof -
  obtain x where "pb_commit P (batch s) (db s) = Inr x" using assms(1) unfolding pebble_total_def by blast
  with assms(2) show ?thesis by (simp add: openForRead_def Finalize_def Let_def)
qed

section \<open>Properties\<close>

text \<open>
  C15: the store is a map in key order.  After a fresh store accepted a sequence of puts, whatever
  flushes happened in between, a point read returns the last value put under its key, and a
  complete scan hands the callback each key once, ascending, with that value.
\<close>

theorem streamsort_is_sorted_map:
  assumes P: "pebble_spec P V" and new: "NewWithOptions P mkdir d opts = Inr s0"
    and puts: "putAll P kvs s0 = (None, s)"
  shows "(\<forall>k r s'. Get P k s = (Inr r, s') \<longrightarrow> r = map_of (rev kvs) k) \<and>
    (\<forall>(yield :: bytes \<Rightarrow> bytes \<Rightarrow> 'w \<Rightarrow> 'e + 'w) w w' s'. Iterate P yield w s = (Inr w', s') \<longrightarrow>
       (\<exists>es. sorted_wrt bytesLess (map fst es) \<and> map_of es = map_of (rev kvs) \<and> yieldAll yield es w = Inr w'))"
proof -
  note n = NewWithOptions_ok [OF P new]
  have s: "store_ok s" "contents V s = map_of (rev kvs)"
    using putAll_ok [OF P n(1) puts] n(2) by simp_all
  show ?thesis
    using Get_ok(1) [OF P s(1)] Iterate_ok [OF P s(1)] s(2) by metis
qed

theorem streamsort_is_sorted_map_witness:
  "\<exists>s0 s. New pebble_model (\<lambda>d. Inr d) ''tmp'' = Inr s0 \<and>
    putAll pebble_model [([2], [5]), ([1], [6]), ([2], [7])] s0 = (None, s) \<and>
    fst (Get pebble_model [2] s) = Inr (Some [7])"
proof -
  obtain s0 where s0: "New pebble_model (\<lambda>d. Inr d) ''tmp'' = Inr s0"
    by (simp add: New_def NewWithOptions_def pebble_model_def)
  then obtain s where s: "putAll pebble_model [([2], [5]), ([1], [6]), ([2], [7])] s0 = (None, s)"
    by (auto simp: New_def NewWithOptions_def Put_def pebble_model_def batchFlushBytes_def)
  note r = streamsort_is_sorted_map [OF pebble_model_spec s0 [unfolded New_def] s, THEN conjunct1, rule_format]
  obtain x s' where g: "Get pebble_model [2] s = (Inr x, s')"
    using s0 s by (auto simp: New_def NewWithOptions_def Put_def pebble_model_def batchFlushBytes_def Get_def
        openForRead_def Finalize_def)
  with r [OF g] have "fst (Get pebble_model [2] s) = Inr (Some [7])" by simp
  with s0 s show ?thesis by blast
qed



end
