(* ===== verification/Streaming_Trie.thy ===== *)
theory Streaming_Trie
  imports Ethrex_Account Nimbus_Rows Streamsort
begin

text \<open>
  Storage roots of streamed slots, from \<open>internal/streamingtrie/streamingtrie.go\<close>, and the adapter
  \<open>internal/nimbus/stream_builder.go\<close>.

  A client's builder is known to this package only as the interface \<open>HashBuilder\<close>; that interface is
  the locale \<open>hash_builder\<close>, in which the package is verified once; the builders of the clients are
  interpretations of it in \<open>Client_Roots\<close>.  The result is that the root depends only on which non-zero
  value each slot has in the end, not on the order in which slots arrive.
\<close>

section \<open>The package\<close>

datatype ('x, 'h) st_error =
    StNilBuilder
  | StNew streamsort_error
  | StPut streamsort_error
  | StStore streamsort_error
  | StSink 'x
  | StRlp string
  | StAddLeaf 'h
  | StRoot 'h

type_synonym ('w, 'x) slot_sink = "bytes \<Rightarrow> bytes \<Rightarrow> bytes \<Rightarrow> 'w \<Rightarrow> 'x + 'w"

definition zeroHash :: bytes where
  "zeroHash = replicate 32 0"

text \<open>\<open>copy(h[:], b)\<close> into a zeroed 32-byte array.\<close>

definition copy32 :: "bytes \<Rightarrow> bytes" where
  "copy32 b = take 32 b @ replicate (32 - length b) 0"

definition st_addLeaf ::
  "(bytes \<Rightarrow> string + bytes) \<Rightarrow> (bytes \<Rightarrow> bytes \<Rightarrow> 'h \<Rightarrow> 'e + 'h) \<Rightarrow> ('w, 'x) slot_sink option
    \<Rightarrow> bytes \<Rightarrow> bytes \<Rightarrow> bytes \<Rightarrow> 'h \<times> 'w \<Rightarrow> ('x, 'e) st_error + 'h \<times> 'w" where
  "st_addLeaf rlpEncode add sink keyHash rawKey val hw =
     (case hw of (h, w) \<Rightarrow>
        bindE (case sink of
            None \<Rightarrow> Inr w
          | Some f \<Rightarrow> (case f keyHash rawKey val w of Inl x \<Rightarrow> Inl (StSink x) | Inr w \<Rightarrow> Inr w)) (\<lambda>w.
        let valBytes = dropWhile (\<lambda>b. b = 0) val in
        (case rlpEncode valBytes of
           Inl e \<Rightarrow> Inl (StRlp e)
         | Inr valRLP \<Rightarrow>
             (case add keyHash valRLP h of Inl e \<Rightarrow> Inl (StAddLeaf e) | Inr h \<Rightarrow> Inr (h, w)))))"

definition st_finish :: "('h \<Rightarrow> 'e + bytes \<times> 'h) \<Rightarrow> 'h \<Rightarrow> ('x, 'e) st_error + bytes \<times> 'h" where
  "st_finish root h = (case root h of Inl e \<Rightarrow> Inl (StRoot e) | Inr r \<Rightarrow> Inr r)"

text \<open>The callback of \<open>Drain\<close> over the slots in the order the iterator yields them.\<close>

fun drainLoop ::
  "'db pebble \<Rightarrow> digest \<Rightarrow> (bytes \<times> bytes) list \<Rightarrow> 'db Store \<Rightarrow> ('x, 'e) st_error option \<times> 'db Store" where
  "drainLoop P keccak [] s = (None, s)"
| "drainLoop P keccak ((k, v) # slots) s =
     (if v = zeroHash then drainLoop P keccak slots s
      else case Put P (keccak k) (k @ v) s of
        (Some e, s) \<Rightarrow> (Some (StPut e), s)
      | (None, s) \<Rightarrow> drainLoop P keccak slots s)"

definition Drain ::
  "'db pebble \<Rightarrow> (string \<Rightarrow> string + string) \<Rightarrow> digest \<Rightarrow> string \<Rightarrow> (bytes \<times> bytes) list option
    \<Rightarrow> ('x, 'e) st_error + 'db Store" where
  "Drain P mkdir keccak workDir storage =
     (case New P mkdir workDir of
        Inl e \<Rightarrow> Inl (StNew e)
      | Inr s \<Rightarrow>
          (case storage of
             None \<Rightarrow> Inr s
           | Some slots \<Rightarrow>
               (case drainLoop P keccak slots s of
                  (Some e, s) \<Rightarrow> Inl e
                | (None, s) \<Rightarrow> Inr s)))"

definition IterateRoot ::
  "'db pebble \<Rightarrow> (bytes \<Rightarrow> string + bytes) \<Rightarrow> (bytes \<Rightarrow> bytes \<Rightarrow> 'h \<Rightarrow> 'e + 'h) \<Rightarrow> ('h \<Rightarrow> 'e + bytes \<times> 'h)
    \<Rightarrow> 'h option \<Rightarrow> ('w, 'x) slot_sink option \<Rightarrow> 'w \<Rightarrow> 'db Store
    \<Rightarrow> (('x, 'e) st_error + bytes \<times> 'h \<times> 'w) \<times> 'db Store" where
  "IterateRoot P rlpEncode add root hb sink w s =
     (case hb of
        None \<Rightarrow> (Inl StNilBuilder, s)
      | Some h \<Rightarrow>
          (case Iterate P (\<lambda>keyHashB combinedB.
              st_addLeaf rlpEncode add sink (copy32 keyHashB) (copy32 (subslice 0 32 combinedB))
                (copy32 (subslice 32 64 combinedB))) (h, w) s of
             (Inl (StoreError e), s) \<Rightarrow> (Inl (StStore e), s)
           | (Inl (YieldError e), s) \<Rightarrow> (Inl e, s)
           | (Inr (h, w), s) \<Rightarrow> (bindE (st_finish root h) (\<lambda>(r, h). Inr (r, h, w)), s)))"

definition SortedRoot ::
  "(bytes \<Rightarrow> string + bytes) \<Rightarrow> (bytes \<Rightarrow> bytes \<Rightarrow> 'h \<Rightarrow> 'e + 'h) \<Rightarrow> ('h \<Rightarrow> 'e + bytes \<times> 'h)
    \<Rightarrow> (bytes \<times> bytes \<times> bytes) list \<Rightarrow> 'h option \<Rightarrow> ('w, 'x) slot_sink option \<Rightarrow> 'w
    \<Rightarrow> ('x, 'e) st_error + bytes \<times> 'h \<times> 'w" where
  "SortedRoot rlpEncode add root triples hb sink w =
     (case hb of
        None \<Rightarrow> Inl StNilBuilder
      | Some h \<Rightarrow>
          bindE (foldE (\<lambda>(keyHash, rawKey, val). st_addLeaf rlpEncode add sink keyHash rawKey val) triples (h, w))
            (\<lambda>(h, w). bindE (st_finish root h) (\<lambda>(r, h). Inr (r, h, w))))"

text \<open>The deferred \<open>Close\<close> finds no reader, and its error is dropped.\<close>

definition StorageRoot ::
  "'db pebble \<Rightarrow> (string \<Rightarrow> string + string) \<Rightarrow> digest \<Rightarrow> (bytes \<Rightarrow> string + bytes)
    \<Rightarrow> (bytes \<Rightarrow> bytes \<Rightarrow> 'h \<Rightarrow> 'e + 'h) \<Rightarrow> ('h \<Rightarrow> 'e + bytes \<times> 'h)
    \<Rightarrow> string \<Rightarrow> (bytes \<times> bytes) list option \<Rightarrow> 'h option \<Rightarrow> ('w, 'x) slot_sink option \<Rightarrow> 'w
    \<Rightarrow> ('x, 'e) st_error + bytes \<times> 'h \<times> 'w" where
  "StorageRoot P mkdir keccak rlpEncode add root workDir storage hb sink w =
     (if hb = None then Inl StNilBuilder
      else bindE (Drain P mkdir keccak workDir storage) (\<lambda>s.
        fst (IterateRoot P rlpEncode add root hb sink w s)))"

definition uint64SlotKey :: "u64 \<Rightarrow> bytes" where
  "uint64SlotKey slot = replicate 24 0 @ putUint64BE slot"

section \<open>The nimbus adapter\<close>

definition nimbus_Stream_AddLeaf ::
  "digest \<Rightarrow> ('w, 'e) vsink \<Rightarrow> 'w vbuilder \<Rightarrow> bytes \<Rightarrow> bytes \<Rightarrow> 'e nimbus_error + 'w vbuilder" where
  "nimbus_Stream_AddLeaf keccak sink b keyHash valueRLP =
     nimbus_AddLeaf keccak sink b (AppendNibbles [] keyHash) valueRLP (AppendStoLeafPayloadFromRLP [] valueRLP)"

definition nimbus_Stream_Root ::
  "digest \<Rightarrow> bytes \<Rightarrow> ('w, 'e) vsink \<Rightarrow> 'w vbuilder \<Rightarrow> 'e nimbus_error + bytes \<times> 'w vbuilder" where
  "nimbus_Stream_Root keccak EmptyRootHash sink b = nimbus_Root keccak EmptyRootHash sink b"

section \<open>What a drain leaves in the store\<close>

abbreviation nonzero_slots :: "(bytes \<times> bytes) list option \<Rightarrow> (bytes \<times> bytes) list" where
  "nonzero_slots storage \<equiv> filter (\<lambda>kv. snd kv \<noteq> zeroHash) (case storage of None \<Rightarrow> [] | Some slots \<Rightarrow> slots)"

text \<open>The last non-zero value of each slot, by the hash of its key.\<close>

definition slot_map :: "digest \<Rightarrow> (bytes \<times> bytes) list option \<Rightarrow> bytes \<rightharpoonup> bytes" where
  "slot_map keccak storage = map_of (rev (map (\<lambda>(k, v). (keccak k, v)) (nonzero_slots storage)))"

lemma drainLoop_ok:
  assumes "pebble_spec P V" "store_ok s" "drainLoop P keccak slots s = (None :: ('x, 'e) st_error option, s')"
  shows "store_ok s' \<and> contents V s' = contents V s ++
    map_of (rev (map (\<lambda>(k, v). (keccak k, k @ v)) (filter (\<lambda>kv. snd kv \<noteq> zeroHash) slots)))"
  using assms(2,3)
proof (induction slots arbitrary: s)
  case (Cons e slots)
  obtain k v where e: "e = (k, v)" by (cases e)
  show ?case
  proof (cases "v = zeroHash")
    case True
    then show ?thesis using Cons by (simp add: e)
  next
    case False
    then obtain s1 where s1: "Put P (keccak k) (k @ v) s = (None, s1)" "drainLoop P keccak slots s1 = (None :: ('x, 'e) st_error option, s')"
      using Cons.prems(2) by (auto simp: e split: prod.splits option.splits)
    note p = Put_ok [OF assms(1) Cons.prems(1) s1(1)]
    from Cons.IH [OF p(1) s1(2)] have "contents V s' = (contents V s)(keccak k \<mapsto> k @ v) ++
        map_of (rev (map (\<lambda>(k, v). (keccak k, k @ v)) (filter (\<lambda>kv. snd kv \<noteq> zeroHash) slots)))" "store_ok s'"
      by (simp_all add: p(2) fun_upd_def)
    then show ?thesis using False by (simp add: e)
  qed
qed simp

lemma Drain_ok:
  assumes "pebble_spec P V" "Drain P mkdir keccak d storage = (Inr s :: ('x, 'e) st_error + _)"
  shows "store_ok s"
    "contents V s = map_of (rev (map (\<lambda>(k, v). (keccak k, k @ v)) (nonzero_slots storage)))"
proof -
  obtain s0 where s0: "New P mkdir d = Inr s0" using assms(2) by (auto simp: Drain_def split: sum.splits)
  note n = NewWithOptions_ok [OF assms(1) s0 [unfolded New_def]]
  show "store_ok s" "contents V s = map_of (rev (map (\<lambda>(k, v). (keccak k, k @ v)) (nonzero_slots storage)))"
    using assms(2) s0 n drainLoop_ok [OF assms(1) n(1)]
    by (auto simp: Drain_def split: option.splits prod.splits)
qed

lemma drainLoop_total:
  fixes P :: "'db pebble"
  assumes "pebble_total P" "\<not> closed s \<and> \<not> finalized s \<and> \<not> finalizeDone s \<and> finalizeErr s = None"
  shows "\<exists>s'. drainLoop P keccak slots s = (None :: ('x, 'e) st_error option, s') \<and>
    \<not> closed s' \<and> \<not> finalized s' \<and> \<not> finalizeDone s' \<and> finalizeErr s' = None"
  using assms(2)
proof (induction slots arbitrary: s)
  case (Cons e slots)
  obtain k v where e: "e = (k, v)" by (cases e)
  obtain s1 where s1: "Put P (keccak k) (k @ v) s = (None, s1)"
      "\<not> closed s1 \<and> \<not> finalized s1 \<and> \<not> finalizeDone s1 \<and> finalizeErr s1 = None"
    using Put_total [OF assms(1) Cons.prems] by blast
  show ?case using Cons.IH [OF s1(2)] Cons.IH [OF Cons.prems] s1(1) by (simp add: e)
qed simp

lemma Drain_total:
  assumes "pebble_total P" "mkdir d = Inr d'"
  shows "\<exists>s s'. Drain P mkdir keccak d storage = (Inr s :: ('x, 'e) st_error + _) \<and> openForRead P s = (None, s')"
proof -
  obtain s0 where s0: "New P mkdir d = Inr s0"
      "\<not> closed s0 \<and> \<not> finalized s0 \<and> \<not> finalizeDone s0 \<and> finalizeErr s0 = None"
    using NewWithOptions_total [where mkdir = mkdir, OF assms] unfolding New_def by blast
  show ?thesis
  proof (cases storage)
    case None
    then show ?thesis using s0 openForRead_total [OF assms(1) s0(2)] by (simp add: Drain_def)
  next
    case (Some slots)
    obtain s1 where "drainLoop P keccak slots s0 = (None :: ('x, 'e) st_error option, s1)"
        "\<not> closed s1 \<and> \<not> finalized s1 \<and> \<not> finalizeDone s1 \<and> finalizeErr s1 = None"
      using drainLoop_total [OF assms(1) s0(2)] by blast
    then show ?thesis using Some s0 openForRead_total [OF assms(1), of s1] by (simp add: Drain_def)
  qed
qed

lemma yieldAll_foldE: "yieldAll y es w = Inr w' \<longleftrightarrow> foldE (\<lambda>(k, v). y k v) es w = Inr w'"
  by (induction y es w rule: yieldAll.induct) (auto simp: bindE_def split: sum.splits)

lemma copy32_id [simp]: "length b = 32 \<Longrightarrow> copy32 b = b"
  by (simp add: copy32_def)

lemma sorted_bytesLess_distinct: "sorted_wrt bytesLess ks \<Longrightarrow> distinct ks"
  by (induction ks) (auto simp: bytesLess_irrefl)

text \<open>The scan of a drained store is the slot map, in the order of the hashes.\<close>

lemma scan_slots:
  assumes es: "sorted_wrt bytesLess (map fst es)"
      "map_of es = map_of (rev (map (\<lambda>(k, v). (keccak k, k @ v)) (nonzero_slots storage)))"
    and len: "\<forall>kv \<in> set (nonzero_slots storage). length (fst kv) = 32 \<and> length (snd kv) = 32"
    and kec: "keccak_spec keccak"
  shows "\<forall>e \<in> set es. length (fst e) = 32 \<and> length (snd e) = 64"
    "map_of (map (apsnd (drop 32)) es) = slot_map keccak storage"
proof -
  have "distinct (map fst es)"
    using es(1) by (rule sorted_bytesLess_distinct)
  then have "map_of es (fst e) = Some (snd e)" if "e \<in> set es" for e using that by simp
  then have mem: "\<exists>k v. e = (keccak k, k @ v) \<and> (k, v) \<in> set (nonzero_slots storage)" if "e \<in> set es" for e
    using that unfolding es(2) by (fastforce dest!: map_of_SomeD)
  show "\<forall>e \<in> set es. length (fst e) = 32 \<and> length (snd e) = 64"
  proof
    fix e assume "e \<in> set es"
    then obtain k v where "e = (keccak k, k @ v)" "(k, v) \<in> set (nonzero_slots storage)" using mem by blast
    then show "length (fst e) = 32 \<and> length (snd e) = 64" using len kec by (fastforce simp: keccak_spec_def)
  qed
  have "map_of (map (apsnd (drop 32)) es) = map_option (drop 32) \<circ> map_of es"
    by (simp add: map_of_map [symmetric] apsnd_def map_prod_def case_prod_beta)
  also have "\<dots> = map_of (map (apsnd (drop 32)) (rev (map (\<lambda>(k, v). (keccak k, k @ v)) (nonzero_slots storage))))"
    unfolding es(2) by (simp add: map_of_map [symmetric] apsnd_def map_prod_def case_prod_beta)
  also have "\<dots> = slot_map keccak storage"
    unfolding slot_map_def using len
    by (intro arg_cong [of _ _ map_of]) (auto simp: rev_map [symmetric] case_prod_beta)
  finally show "map_of (map (apsnd (drop 32)) es) = slot_map keccak storage" .
qed

lemma fold_scan:
  assumes "\<forall>e \<in> set es. length (fst e) = 32 \<and> length (snd e) = 64"
  shows "foldE (\<lambda>(keyHash, rawKey, val). st_addLeaf rlpEncode add sink keyHash rawKey val)
      (map (\<lambda>(k, c). (k, take 32 c, drop 32 c)) es) hw =
    foldE (\<lambda>(k, c). st_addLeaf rlpEncode add sink (copy32 k) (copy32 (subslice 0 32 c)) (copy32 (subslice 32 64 c))) es hw"
  unfolding foldE_map
proof (rule foldE_cong [OF refl refl])
  fix x hw assume "x \<in> set es"
  then have "length (fst x) = 32" "length (snd x) = 64" using assms by simp_all
  then show "(case case x of (k, c) \<Rightarrow> (k, take 32 c, drop 32 c) of (keyHash, rawKey, val) \<Rightarrow>
      st_addLeaf rlpEncode add sink keyHash rawKey val) hw = (case x of (k, c) \<Rightarrow>
      st_addLeaf rlpEncode add sink (copy32 k) (copy32 (subslice 0 32 c)) (copy32 (subslice 32 64 c))) hw"
    by (cases x) (simp add: subslice_def)
qed

section \<open>The interface\<close>

text \<open>
  What the package relies on: leaves are fed in ascending order of their hashes, and then the root
  is that of the fed leaves.  \<open>ready\<close> is what the caller has to set up.
\<close>

locale hash_builder =
  fixes ready :: bool
    and init :: 'h
    and add :: "bytes \<Rightarrow> bytes \<Rightarrow> 'h \<Rightarrow> 'e + 'h"
    and root :: "'h \<Rightarrow> 'e + bytes \<times> 'h"
    and spec :: "bytes entry list \<Rightarrow> bytes"
  assumes correct: "ready \<Longrightarrow> sorted_hashes kvs \<Longrightarrow> foldE (\<lambda>(k, v). add k v) kvs init = Inr h \<Longrightarrow>
    root h = Inr (r, h') \<Longrightarrow> r = spec kvs"
begin

lemma fold_addLeaf:
  assumes "\<forall>b. rlpEncode b = Inr (rlpEncodeBytes b)"
    and "foldE (\<lambda>(keyHash, rawKey, val). st_addLeaf rlpEncode add sink keyHash rawKey val) es (h0, w0) =
      Inr (h, w)"
  shows "foldE (\<lambda>(k, v). add k v) (map (\<lambda>(kh, rk, v). (kh, rlpEncodeBytes (dropWhile (\<lambda>b. b = 0) v))) es) h0 = Inr h"
  using assms(2)
proof (induction es arbitrary: h0 w0)
  case (Cons e es)
  obtain kh rk v where e: "e = (kh, rk, v)" by (cases e)
  obtain h1 w1 where 1: "st_addLeaf rlpEncode add sink kh rk v (h0, w0) = Inr (h1, w1)"
      "foldE (\<lambda>(keyHash, rawKey, val). st_addLeaf rlpEncode add sink keyHash rawKey val) es (h1, w1) = Inr (h, w)"
    using Cons.prems by (auto simp: e bindE_eq_Inr)
  have "add kh (rlpEncodeBytes (dropWhile (\<lambda>b. b = 0) v)) h0 = Inr h1"
    using 1(1) assms(1)
    by (cases "add kh (rlpEncodeBytes (dropWhile (\<lambda>b. b = 0) v)) h0")
      (auto simp: st_addLeaf_def bindE_eq_Inr Let_def)
  with Cons.IH [OF 1(2)] show ?case by (simp add: e)
qed simp

lemma sorted_root:
  fixes sink :: "('w, 'x) slot_sink option"
  assumes "ready" and "\<forall>b. rlpEncode b = Inr (rlpEncodeBytes b)"
    and "sorted_wrt bytesLess (map fst es)" "\<forall>e \<in> set es. length (fst e) = 32"
    and "SortedRoot rlpEncode add root es (Some init) sink w = Inr (r, h, w')"
  shows "r = spec (map (\<lambda>(kh, rk, v). (kh, rlpEncodeBytes (dropWhile (\<lambda>b. b = 0) v))) es)"
proof -
  let ?kvs = "map (\<lambda>(kh, rk, v). (kh, rlpEncodeBytes (dropWhile (\<lambda>b. b = 0) v))) es"
  obtain h1 w1 where 1: "foldE (\<lambda>(keyHash, rawKey, val). st_addLeaf rlpEncode add sink keyHash rawKey val) es
      (init, w) = Inr (h1, w1)" "st_finish root h1 = (Inr (r, h) :: ('x, 'e) st_error + _)"
    using assms(5) by (auto simp: SortedRoot_def bindE_eq_Inr)
  have "sorted_hashes ?kvs"
    using assms(3,4) by (auto simp: sorted_hashes_def comp_def case_prod_beta)
  moreover have "root h1 = Inr (r, h)" using 1(2) by (auto simp: st_finish_def split: sum.splits)
  ultimately show ?thesis using correct [OF assms(1)] fold_addLeaf [OF assms(2) 1(1)] by blast
qed

lemma storage_root:
  fixes sink :: "('w, 'x) slot_sink option"
  assumes ready and rlp: "\<forall>b. rlpEncode b = Inr (rlpEncodeBytes b)" and P: "pebble_spec P V" and kec: "keccak_spec keccak"
    and len: "\<forall>kv \<in> set (nonzero_slots storage). length (fst kv) = 32 \<and> length (snd kv) = 32"
    and run: "StorageRoot P mkdir keccak rlpEncode add root d storage (Some init) sink w = Inr (r, h, w')"
  shows "\<exists>es. sorted_wrt bytesLess (map fst es) \<and> map_of es = slot_map keccak storage \<and>
    r = spec (map (apsnd (\<lambda>v. rlpEncodeBytes (dropWhile (\<lambda>b. b = 0) v))) es)"
proof -
  let ?y = "\<lambda>keyHashB combinedB. st_addLeaf rlpEncode add sink (copy32 keyHashB) (copy32 (subslice 0 32 combinedB))
                (copy32 (subslice 32 64 combinedB))"
  obtain s where s: "Drain P mkdir keccak d storage = (Inr s :: ('x, 'e) st_error + _)"
      "fst (IterateRoot P rlpEncode add root (Some init) sink w s) = Inr (r, h, w')"
    using run by (auto simp: StorageRoot_def bindE_eq_Inr)
  obtain h1 w1 s1 where 1: "Iterate P ?y (init, w) s = (Inr (h1, w1), s1)"
      "st_finish root h1 = (Inr (r, h) :: ('x, 'e) st_error + _)"
    using s(2) by (auto simp: IterateRoot_def bindE_eq_Inr split: prod.splits sum.splits iter_error.splits)
  note D = Drain_ok [OF P s(1)]
  obtain es where es: "sorted_wrt bytesLess (map fst es)" "map_of es = contents V s"
      "yieldAll ?y es (init, w) = Inr (h1, w1)"
    by (rule Iterate_ok [OF P D(1) 1(1)]) (rule that)
  note sc = scan_slots [OF es(1) es(2) [unfolded D(2)] len kec]
  have "foldE (\<lambda>(keyHash, rawKey, val). st_addLeaf rlpEncode add sink keyHash rawKey val)
      (map (\<lambda>(k, c). (k, take 32 c, drop 32 c)) es) (init, w) = Inr (h1, w1)"
    using es(3) fold_scan [OF sc(1), of rlpEncode add sink] by (simp only: yieldAll_foldE)
  from fold_addLeaf [OF rlp this]
  have "foldE (\<lambda>(k, v). add k v)
      (map (apsnd (\<lambda>v. rlpEncodeBytes (dropWhile (\<lambda>b. b = 0) v))) (map (apsnd (drop 32)) es)) init = Inr h1"
    by (simp add: comp_def case_prod_beta apsnd_def map_prod_def)
  moreover have "sorted_hashes
      (map (apsnd (\<lambda>v. rlpEncodeBytes (dropWhile (\<lambda>b. b = 0) v))) (map (apsnd (drop 32)) es))"
    using es(1) sc(1) by (auto simp: sorted_hashes_def comp_def)
  moreover have "root h1 = Inr (r, h)" using 1(2) by (auto simp: st_finish_def split: sum.splits)
  ultimately have "r = spec (map (apsnd (\<lambda>v. rlpEncodeBytes (dropWhile (\<lambda>b. b = 0) v))) (map (apsnd (drop 32)) es))"
    using correct [OF \<open>ready\<close>] by blast
  moreover have "sorted_wrt bytesLess (map fst (map (apsnd (drop 32)) es))" using es(1) by (simp add: comp_def)
  ultimately show ?thesis using sc(2) by blast
qed

end

text \<open>A builder whose own sink cannot fail accepts every ascending sequence of non-empty values, so the package returns.\<close>

lemma rlpEncodeBytes_nonempty [simp]: "rlpEncodeBytes b \<noteq> []"
  by (simp add: rlpEncodeBytes_def Let_def)

locale total_hash_builder = hash_builder ready init add root spec
  for ready and init :: 'h and add :: "bytes \<Rightarrow> bytes \<Rightarrow> 'h \<Rightarrow> 'e + 'h" and root and spec +
  assumes accepts: "ready \<Longrightarrow> sorted_hashes kvs \<Longrightarrow> \<forall>kv \<in> set kvs. snd kv \<noteq> [] \<Longrightarrow>
    \<exists>h r h'. foldE (\<lambda>(k, v). add k v) kvs init = Inr h \<and> root h = Inr (r, h')"
begin

lemma fold_addLeaf_total:
  assumes "\<forall>b. rlpEncode b = Inr (rlpEncodeBytes b)"
    and "foldE (\<lambda>(k, v). add k v) (map (\<lambda>(kh, rk, v). (kh, rlpEncodeBytes (dropWhile (\<lambda>b. b = 0) v))) es) h0 = Inr h"
  shows "foldE (\<lambda>(keyHash, rawKey, val). st_addLeaf rlpEncode add None keyHash rawKey val) es (h0, w0) = Inr (h, w0)"
  using assms(2)
proof (induction es arbitrary: h0)
  case (Cons e es)
  obtain kh rk v where e: "e = (kh, rk, v)" by (cases e)
  obtain h1 where "add kh (rlpEncodeBytes (dropWhile (\<lambda>b. b = 0) v)) h0 = Inr h1"
      "foldE (\<lambda>(k, v). add k v) (map (\<lambda>(kh, rk, v). (kh, rlpEncodeBytes (dropWhile (\<lambda>b. b = 0) v))) es) h1 = Inr h"
    using Cons.prems by (auto simp: e bindE_eq_Inr)
  then show ?case using Cons.IH assms(1) by (simp add: e st_addLeaf_def)
qed simp

lemma sorted_root_total:
  assumes ready "\<forall>b. rlpEncode b = Inr (rlpEncodeBytes b)"
    and "sorted_wrt bytesLess (map fst es)" "\<forall>e \<in> set es. length (fst e) = 32"
  shows "\<exists>h. SortedRoot rlpEncode add root es (Some init) None w =
    Inr (spec (map (\<lambda>(kh, rk, v). (kh, rlpEncodeBytes (dropWhile (\<lambda>b. b = 0) v))) es), h, w)"
proof -
  let ?kvs = "map (\<lambda>(kh, rk, v). (kh, rlpEncodeBytes (dropWhile (\<lambda>b. b = 0) v))) es"
  have s: "sorted_hashes ?kvs" using assms(3,4) by (auto simp: sorted_hashes_def comp_def case_prod_beta)
  have "\<forall>kv \<in> set ?kvs. snd kv \<noteq> []" by auto
  from accepts [OF assms(1) s this] obtain h r h' where
    h: "foldE (\<lambda>(k, v). add k v) ?kvs init = Inr h" "root h = Inr (r, h')" by blast
  from correct [OF assms(1) s h] h(2) show ?thesis
    by (simp add: SortedRoot_def st_finish_def fold_addLeaf_total [OF assms(2) h(1)])
qed

lemma storage_root_total:
  assumes ready "\<forall>b. rlpEncode b = Inr (rlpEncodeBytes b)" and P: "pebble_spec P V" "pebble_total P" "mkdir d = Inr d'"
    and kec: "keccak_spec keccak"
    and len: "\<forall>kv \<in> set (nonzero_slots storage). length (fst kv) = 32 \<and> length (snd kv) = 32"
  shows "\<exists>r h. StorageRoot P mkdir keccak rlpEncode add root d storage (Some init) (None :: ('w, 'x) slot_sink option) w =
    Inr (r, h, w)"
proof -
  obtain s s1 where s: "Drain P mkdir keccak d storage = (Inr s :: ('x, 'e) st_error + _)"
      "openForRead P s = (None, s1)"
    using Drain_total [where mkdir = mkdir, OF P(2,3)] by blast
  obtain es where es: "pb_scan P (db s1) = Inr es" using P(2) unfolding pebble_total_def by blast
  note D = Drain_ok [OF P(1) s(1)]
  note o = openForRead_ok [OF P(1) D(1) s(2)]
  have m: "map_of es = contents V s"
    using pebble_specD(6) [OF P(1) es] finalized_contents [OF o(1)] o(2,5) by metis
  have srt: "sorted_wrt bytesLess (map fst es)" using pebble_specD(5) [OF P(1) es] .
  note sc = scan_slots [OF srt m [unfolded D(2)] len kec]
  let ?t = "map (\<lambda>(k, c). (k, take 32 c, drop 32 c)) es"
  let ?kvs = "map (\<lambda>(kh, rk, v). (kh, rlpEncodeBytes (dropWhile (\<lambda>b. b = 0) v))) ?t"
  have "sorted_hashes ?kvs"
    using srt sc(1) by (auto simp: sorted_hashes_def comp_def case_prod_beta)
  moreover have "\<forall>kv \<in> set ?kvs. snd kv \<noteq> []" by auto
  ultimately obtain h r h' where
    h: "foldE (\<lambda>(k, v). add k v) ?kvs init = Inr h" "root h = Inr (r, h')" using accepts [OF assms(1)] by blast
  have "foldE (\<lambda>(k, c). st_addLeaf rlpEncode add None (copy32 k) (copy32 (subslice 0 32 c)) (copy32 (subslice 32 64 c)))
      es (init, w) = (Inr (h, w) :: ('x, 'e) st_error + _)"
    unfolding fold_scan [OF sc(1), symmetric] by (rule fold_addLeaf_total [OF assms(2) h(1)])
  then show ?thesis
    using s es h(2) by (simp add: StorageRoot_def IterateRoot_def Iterate_def st_finish_def flip: yieldAll_foldE)
qed

end

end
