(* ===== verification/Hash_Engine.thy ===== *)
theory Hash_Engine
  imports Ethrex_Builder Trie_Masks
begin

text \<open>
  The mask-driven streaming trie builder.  Besu's \<open>streamingBuilder\<close>
  (\<open>internal/besu/trie/streaming_storage_builder.go\<close>) and reth's \<open>HashBuilder\<close>
  (\<open>internal/reth/hash_builder.go\<close>) run the same loop: one occupancy mask per depth, a flat stack of
  child references, and an update that closes branches until the new key's branch is reached.  The
  loop is defined here with the node encoders and the consumer of finished nodes as arguments, and
  proved in the locale \<open>hb_encoders\<close> to follow the spine of the reference trie.
\<close>

section \<open>The loop\<close>

text \<open>
  The encoders panic (\<open>None\<close>) when their RLP library fails.  The stack has its top first.
\<close>

record hb_enc =
  encLeafN :: "bytes \<Rightarrow> bytes \<Rightarrow> bytes option"
  encExtN :: "bytes \<Rightarrow> bytes \<Rightarrow> bytes option"
  encBranchN :: "u16 \<Rightarrow> bytes list \<Rightarrow> bytes option"
  refN :: "bytes \<Rightarrow> bytes"

type_synonym ('w, 'e) emit = "bytes \<Rightarrow> bytes \<Rightarrow> 'w \<Rightarrow> 'e + 'w"

type_synonym 'w hb_state = "u16 list \<times> bytes list \<times> 'w"

lemma unat_drop_bit_1: "unat (drop_bit (Suc 0) (x :: u16)) = unat x div 2"
  by (simp only: unat_drop_bit_eq drop_bit_eq_div) (simp add: unat_div)

lemma drop_bit_1_less: "(x :: u16) \<noteq> 0 \<Longrightarrow> unat (drop_bit (Suc 0) x) < unat x"
  using unat_gt_0 [of x] by (simp add: unat_drop_bit_1 del: drop_bit_Suc)

function popcount16 :: "u16 \<Rightarrow> nat" where
  "popcount16 x = (if x = 0 then 0 else unat (x AND 1) + popcount16 (drop_bit 1 x))"
  by pat_completeness auto
termination
  by (relation "measure unat") (simp_all add: drop_bit_1_less del: drop_bit_Suc)

declare popcount16.simps [simp del]

lemma popcount16_0 [simp]: "popcount16 0 = 0"
  by (subst popcount16.simps) simp

definition hbPush ::
  "'e \<Rightarrow> hb_enc \<Rightarrow> ('w, 'e) emit \<Rightarrow> bytes \<Rightarrow> bytes option \<Rightarrow> bytes list \<Rightarrow> 'w \<Rightarrow> 'e + bytes list \<times> 'w" where
  "hbPush pan E emit location rlp stk w =
     (case rlp of
        None \<Rightarrow> Inl pan
      | Some rlp \<Rightarrow> bindE (emit location rlp w) (\<lambda>w. Inr (refN E rlp # stk, w)))"

text \<open>The first half of a round: push the deferred leaf, or wrap the top into an extension.\<close>

definition hbNode ::
  "'e \<Rightarrow> hb_enc \<Rightarrow> ('w, 'e) emit \<Rightarrow> bytes \<Rightarrow> bool \<Rightarrow> bytes \<Rightarrow> bytes \<Rightarrow> bytes list \<Rightarrow> 'w \<Rightarrow> 'e + bytes list \<times> 'w" where
  "hbNode pan E emit location buildExtensions shortNodeKey val stk w =
     (if \<not> buildExtensions then hbPush pan E emit location (encLeafN E shortNodeKey val) stk w
      else if shortNodeKey \<noteq> [] then
        (case stk of
           [] \<Rightarrow> Inl pan
         | tp # stk \<Rightarrow> hbPush pan E emit location (encExtN E shortNodeKey tp) stk w)
      else Inr (stk, w))"

definition sealBranchAt ::
  "'e \<Rightarrow> hb_enc \<Rightarrow> ('w, 'e) emit \<Rightarrow> u16 list \<Rightarrow> bytes \<Rightarrow> nat \<Rightarrow> bytes list \<Rightarrow> 'w \<Rightarrow> 'e + bytes list \<times> 'w" where
  "sealBranchAt pan E emit masks current len stk w =
     (let stateMask = masks ! len;
          childCount = popcount16 stateMask
      in if childCount > length stk then Inl pan
         else hbPush pan E emit (take len current) (encBranchN E stateMask (rev (take childCount stk)))
           (drop childCount stk) w)"

function hbUpdate ::
  "'e \<Rightarrow> hb_enc \<Rightarrow> ('w, 'e) emit \<Rightarrow> bytes \<Rightarrow> bytes \<Rightarrow> bool \<Rightarrow> bytes \<Rightarrow> 'w hb_state \<Rightarrow> 'e + 'w hb_state" where
  "hbUpdate pan E emit succeeding val buildExtensions current (masks, stk, w) =
     (let precedingExists = masks \<noteq> [];
          precedingLen = length masks - 1;
          cpl = commonPrefixLen succeeding current;
          len = max precedingLen cpl
      in
      if len \<ge> length current then Inl pan
      else
        let masks = orMask len (nib current len) masks;
            lenFrom = (if succeeding \<noteq> [] \<or> precedingExists then Suc len else len);
            shortNodeKey = drop lenFrom current
        in
        bindE (hbNode pan E emit (take lenFrom current) buildExtensions shortNodeKey val stk w) (\<lambda>(stk, w).
        if precedingLen \<le> cpl \<and> succeeding \<noteq> [] then Inr (masks, stk, w)
        else
          bindE (if succeeding \<noteq> [] \<or> precedingExists then sealBranchAt pan E emit masks current len stk w
            else Inr (stk, w)) (\<lambda>(stk, w).
          let masks = trimMasks (take len masks) in
          if precedingLen = 0 then Inr (masks, stk, w)
          else hbUpdate pan E emit succeeding val True (take precedingLen current) (masks, stk, w))))"
  by pat_completeness auto
termination
  by (relation "measure (\<lambda>(pan, E, emit, s, v, ext, current, st). length current)") auto

declare hbUpdate.simps [simp del]

section \<open>Counting and filling slots\<close>

lemma popcount16_filter:
  "unat x < 2 ^ n \<Longrightarrow> popcount16 x = length (filter (bit x) [0..<n])"
proof (induction n arbitrary: x)
  case 0
  then have "x = 0" by (simp add: unat_eq_0)
  then show ?case by simp
next
  case (Suc n)
  have up: "[0..<Suc n] = 0 # map Suc [0..<n]" by (simp add: map_Suc_upt upt_conv_Cons del: upt_Suc)
  have "unat (drop_bit (Suc 0) x) < 2 ^ n" using Suc.prems by (simp add: unat_drop_bit_1 del: drop_bit_Suc)
  from Suc.IH [OF this] have IH: "popcount16 (drop_bit 1 x) = length (filter (\<lambda>i. bit x (Suc i)) [0..<n])"
    by (simp add: bit_drop_bit_eq comp_def del: drop_bit_Suc)
  have b: "unat (x AND 1) = of_bool (bit x 0)" by (simp add: and_one_eq bit_0 odd_iff_mod_2_eq_one)
  show ?case
  proof (cases "x = 0")
    case False
    then have "popcount16 x = of_bool (bit x 0) + length (filter (\<lambda>i. bit x (Suc i)) [0..<n])"
      unfolding IH [symmetric] b [symmetric] by (subst popcount16.simps) simp
    then show ?thesis by (simp only: up) (simp add: filter_map comp_def)
  qed simp
qed

lemma popcount16_usedOf:
  assumes "length cs = 16"
  shows "popcount16 (usedOf cs) = length (present cs)"
proof -
  have "unat (usedOf cs) < 2 ^ 16" using unsigned_less [of "usedOf cs"] by simp
  then have "popcount16 (usedOf cs) = length (filter (bit (usedOf cs)) [0..<16])"
    by (rule popcount16_filter)
  also have "filter (bit (usedOf cs)) [0..<16] = filter (\<lambda>i. cs ! i \<noteq> None) [0..<16]"
    by (rule filter_cong) (auto simp: bit_usedOf [OF assms])
  also have "length \<dots> = length (filter (\<lambda>c. c \<noteq> None) (map ((!) cs) [0..<16]))"
    by (simp only: filter_map length_map comp_def)
  also have "map ((!) cs) [0..<16] = cs" using map_nth [of cs] assms by simp
  finally show ?thesis by (simp add: present_def)
qed

text \<open>A loop over the sixteen slots: a present child is taken from the list, an absent one is \<open>0x80\<close>.\<close>

fun fillSlots :: "u16 \<Rightarrow> nat list \<Rightarrow> bytes list \<Rightarrow> bytes list option" where
  "fillSlots m [] cs = Some []"
| "fillSlots m (s # slots) cs =
     (if m AND push_bit s 1 \<noteq> 0 then
        (case cs of [] \<Rightarrow> None | c # cs \<Rightarrow> map_option ((#) c) (fillSlots m slots cs))
      else map_option ((#) [0x80]) (fillSlots m slots cs))"

lemma and_push_bit_ne_0: "(m :: u16) AND push_bit s 1 \<noteq> 0 \<longleftrightarrow> bit m s"
  using and_exp_eq_0_iff_not_bit [of m s] by simp

lemma fillSlots_drop:
  assumes "length cs = 16" "k \<le> 16"
  shows "fillSlots (usedOf cs) [k..<16] (map rf (present (drop k cs))) =
    Some (map (\<lambda>c. case c of None \<Rightarrow> [0x80] | Some t \<Rightarrow> rf t) (drop k cs))"
  using assms(2)
proof (induction "16 - k" arbitrary: k)
  case 0
  then show ?case using assms(1) by simp
next
  case (Suc n)
  then have k: "k < 16" by simp
  have d: "drop k cs = cs ! k # drop (Suc k) cs" using k assms(1) by (simp add: Cons_nth_drop_Suc)
  have "[k..<16] = k # [Suc k..<16]" using k by (simp add: upt_conv_Cons)
  then show ?case
    using Suc.hyps(1) [of "Suc k"] Suc.hyps(2) k assms(1)
    by (cases "cs ! k") (simp_all add: d and_exp_eq_0_iff_not_bit bit_usedOf)
qed

lemma fillSlots_present:
  assumes "length cs = 16"
  shows "fillSlots (usedOf cs) [0..<16] (map rf (present cs)) =
    Some (map (\<lambda>c. case c of None \<Rightarrow> [0x80] | Some t \<Rightarrow> rf t) cs)"
  using fillSlots_drop [OF assms, of 0 rf] by (simp only: drop_0 zero_le)

section \<open>References of the reference encodings\<close>

text \<open>What the encoders of besu and reth are compared with.\<close>

definition ref_bytes :: "digest \<Rightarrow> bytes \<Rightarrow> bytes" where
  "ref_bytes keccak c = (if length c < 32 then c else 0xa0 # keccak c)"

lemma appendChildRefOf_ref: "appendChildRefOf keccak dst c = dst @ ref_bytes keccak c"
  by (simp add: appendChildRefOf_def ref_bytes_def)

lemma enc_branch_eq:
  "enc_branch keccak cs = rlpEncodeListRaw
    (concat (map (\<lambda>c. case c of None \<Rightarrow> [0x80] | Some t \<Rightarrow> ref_bytes keccak (enc keccak t)) cs) @ [0x80])"
proof -
  have "appendChildren keccak p (map (enc_opt keccak) cs) =
      p @ concat (map (\<lambda>c. case c of None \<Rightarrow> [0x80] | Some t \<Rightarrow> ref_bytes keccak (enc keccak t)) cs)" for p
  proof (induction cs arbitrary: p)
    case (Cons c cs)
    then show ?case by (cases c) (simp_all add: appendChildRefOf_ref)
  qed simp
  then show ?thesis by (simp add: enc_branch_def EncodeBranch_def appendRLPBytes_eq rlpEncodeBytes_def)
qed

lemma or_0x30: "(0x30 :: byte) OR x = (0x10 OR x) OR 0x20"
proof -
  have "(0x30 :: byte) = 0x10 OR 0x20" by simp
  then show ?thesis by (metis or.assoc or.commute)
qed

section \<open>Rows and stacks of the reference trie\<close>

definition ext_rows :: "digest \<Rightarrow> bytes \<Rightarrow> bytes \<Rightarrow> bytes mpt option list \<Rightarrow> row list" where
  "ext_rows keccak path pfx cs =
     (if pfx = [] then [] else [(path, EncodeExtension keccak pfx (enc_branch keccak cs))])"

fun enc_rows :: "digest \<Rightarrow> bytes node_event \<Rightarrow> row list" where
  "enc_rows keccak (path, Leaf r v) = [(path, EncodeLeaf r v)]"
| "enc_rows keccak (path, Branch pfx cs) = (path @ pfx, enc_branch keccak cs) # ext_rows keccak path pfx cs"

definition emitAll :: "('w, 'e) emit \<Rightarrow> row list \<Rightarrow> 'w \<Rightarrow> 'e + 'w" where
  "emitAll emit rs w = foldE (\<lambda>(location, rlp). emit location rlp) rs w"

lemma emitAll_simps [simp]:
  "emitAll emit [] w = Inr w"
  "emitAll emit ((l, r) # rs) w = bindE (emit l r w) (emitAll emit rs)"
  by (simp_all add: emitAll_def [abs_def])

lemma emitAll_append: "emitAll emit (xs @ ys) w = bindE (emitAll emit xs w) (emitAll emit ys)"
  by (simp add: emitAll_def [abs_def] foldE_append)

abbreviation event_rows :: "digest \<Rightarrow> bytes node_event list \<Rightarrow> row list" where
  "event_rows keccak evs \<equiv> concat (map (enc_rows keccak) evs)"

definition refStack :: "(bytes mpt \<Rightarrow> bytes) \<Rightarrow> bytes open_branch list \<Rightarrow> bytes list" where
  "refStack rf stk = concat (map (\<lambda>b. rev (map rf (present (snd b)))) stk)"

lemma refStack_simps [simp]:
  "refStack rf [] = []"
  "refStack rf ((d, cs) # stk) = rev (map rf (present cs)) @ refStack rf stk"
  by (simp_all add: refStack_def)

lemma present_put_new: "i < 16 \<Longrightarrow> present (put i t (replicate 16 None)) = [t]"
  using present_put [of i "replicate 16 None" t] by simp

lemma refStack_place:
  assumes "open_ok key stk" "i < 16" "case stk of [] \<Rightarrow> True | (d, cs) # _ \<Rightarrow> d = l \<longrightarrow> i = nib key l"
  shows "refStack rf (place l i t stk) = rf t # refStack rf stk"
proof (cases stk)
  case Nil
  then show ?thesis using assms(2) by (simp add: place_def present_put_new)
next
  case (Cons b rest)
  obtain d cs where b: "b = (d, cs)" by (cases b)
  show ?thesis
  proof (cases "d = l")
    case True
    then have "present (put i t cs) = present cs @ [t]"
      using assms by (intro present_put) (auto simp: Cons b)
    then show ?thesis using True by (simp add: Cons b place_def)
  next
    case False
    then show ?thesis using assms(2) by (simp add: Cons b place_def present_put_new)
  qed
qed

lemma commonPrefixLen_take: "commonPrefixLen a (take n b) = min (commonPrefixLen a b) n"
proof (induction a b arbitrary: n rule: commonPrefixLen.induct)
  case (1 x xs y ys)
  then show ?case by (cases n) auto
qed simp_all

lemma nibbly_subslice: "nibbly key \<Longrightarrow> nibbly (subslice i j key)"
  by (auto simp: nibbly_def subslice_def dest!: in_set_takeD in_set_dropD)

lemma enc_Branch_Nil: "enc keccak (Branch [] cs) = enc_branch keccak cs"
  by (simp add: enc_Branch)

lemma masksOf_ne: "masksOf (b # stk) \<noteq> []"
  by (cases b) simp

lemma shallower_le:
  assumes "stack_ok key stk"
  shows "\<forall>b \<in> set (shallower l stk). fst b \<le> l"
  using assms
proof (induction stk)
  case (Cons b stk)
  then show ?case by (auto simp: shallower_def stack_ok_def)
qed (simp add: shallower_def)

section \<open>The loop follows the spine\<close>

text \<open>
  What the loop relies on: the encoders produce the reference encodings, from the references of the
  children and from a key that may carry a terminator.
\<close>

locale hb_encoders =
  fixes keccak :: digest and E :: hb_enc and trm :: bytes
  assumes leaf: "nibbly key \<Longrightarrow> p \<le> length key \<Longrightarrow>
      encLeafN E (drop p (key @ trm)) v = Some (EncodeLeaf (drop p key) v)"
    and ext: "nibbly pfx \<Longrightarrow> pfx \<noteq> [] \<Longrightarrow> c \<noteq> [] \<Longrightarrow>
      encExtN E pfx (refN E c) = Some (EncodeExtension keccak pfx c)"
    and branch: "length cs = 16 \<Longrightarrow>
      encBranchN E (usedOf cs) (map (\<lambda>t. refN E (enc keccak t)) (present cs)) = Some (enc_branch keccak cs)"
begin

abbreviation rf :: "bytes mpt \<Rightarrow> bytes" where
  "rf t \<equiv> refN E (enc keccak t)"

lemma seal_eq:
  assumes "length cs = 16" "masks ! d = usedOf cs"
  shows "sealBranchAt pan E emit masks current d (rev (map rf (present cs)) @ stk) w =
    bindE (emit (take d current) (enc_branch keccak cs) w) (\<lambda>w. Inr (refN E (enc_branch keccak cs) # stk, w))"
  using assms branch [OF assms(1)]
  by (simp add: sealBranchAt_def hbPush_def popcount16_usedOf rev_map)

lemma ext_eq:
  assumes "nibbly pfx"
  shows "hbNode pan E emit path True pfx v (refN E (enc_branch keccak cs) # stk) w =
    bindE (emitAll emit (ext_rows keccak path pfx cs) w) (\<lambda>w. Inr (rf (Branch pfx cs) # stk, w))"
  using assms ext [of pfx "enc_branch keccak cs"]
  by (simp add: hbNode_def hbPush_def ext_rows_def enc_Branch bindE_assoc) (simp add: enc_branch_def)

lemma leaf_eq:
  assumes "nibbly key" "p \<le> length key"
  shows "hbNode pan E emit path False (drop p (key @ trm)) v stk w =
    bindE (emit path (EncodeLeaf (drop p key) v) w) (\<lambda>w. Inr (rf (Leaf (drop p key) v) # stk, w))"
  by (simp only: hbNode_def hbPush_def leaf [OF assms]) simp

text \<open>Closing one open branch: its last child is set in its mask, it is sealed, its mask is dropped.\<close>

lemma seal_top:
  assumes "open_ok key ((d, cs) # rest)" "stack_ok key ((d, cs) # rest)" "nib key d < 16"
  shows "sealBranchAt pan E emit (orMask d (nib key d) (masksOf ((d, cs) # rest))) current d
      (rf t # refStack rf ((d, cs) # rest)) w =
    bindE (emit (take d current) (enc_branch keccak (put (nib key d) t cs)) w)
      (\<lambda>w. Inr (refN E (enc_branch keccak (put (nib key d) t cs)) # refStack rf rest, w))"
    and "trimMasks (take d (orMask d (nib key d) (masksOf ((d, cs) # rest)))) = masksOf rest"
proof -
  have len: "length cs = 16" and f: "full rest" and srt: "sorted_wrt (\<lambda>a b. fst b < fst a) ((d, cs) # rest)"
    and ne: "\<forall>(d, cs) \<in> set rest. present cs \<noteq> []"
    using assms by (auto simp: open_ok_def full_def stack_ok_def)
  have m: "orMask d (nib key d) (masksOf ((d, cs) # rest)) = masksOf ((d, put (nib key d) t cs) # rest)"
    using orMask_place [of "(d, cs) # rest" "nib key d" d t] len f assms(3) srt
    by (auto simp: place_def less_imp_le simp del: masksOf_simps)
  have "present (put (nib key d) t cs) = present cs @ [t]"
    using assms by (intro present_put) auto
  then have st: "rf t # refStack rf ((d, cs) # rest) =
      rev (map rf (present (put (nib key d) t cs))) @ refStack rf rest" by simp
  have "masksOf ((d, put (nib key d) t cs) # rest) ! d = usedOf (put (nib key d) t cs)"
    by (simp add: mask_at_Cons del: upt_Suc)
  then show "sealBranchAt pan E emit (orMask d (nib key d) (masksOf ((d, cs) # rest))) current d
      (rf t # refStack rf ((d, cs) # rest)) w =
    bindE (emit (take d current) (enc_branch keccak (put (nib key d) t cs)) w)
      (\<lambda>w. Inr (refN E (enc_branch keccak (put (nib key d) t cs)) # refStack rf rest, w))"
    unfolding m st using len by (intro seal_eq) simp_all
  show "trimMasks (take d (orMask d (nib key d) (masksOf ((d, cs) # rest)))) = masksOf rest"
    unfolding m using f ne srt by (intro trimMasks_masksOf) auto
qed

lemma update_ext:
  assumes "nibbly key" "dp < length key" "stack_ok key (hi @ lo)" "open_ok key (hi @ lo)"
    and "\<forall>b \<in> set (hi @ lo). fst b < dp" "\<forall>b \<in> set hi. l < fst b" "\<forall>b \<in> set lo. fst b \<le> l" "l < dp"
    and "succeeding \<noteq> []" "commonPrefixLen succeeding key = l" "length cs' = 16"
  shows "hbUpdate pan E emit succeeding v True (take dp key)
      (masksOf (hi @ lo), refN E (enc_branch keccak cs') # refStack rf (hi @ lo), w) =
    (let p = pos_under (Suc l) hi; b = Branch (subslice p dp key) cs' in
     bindE (emitAll emit (ext_rows keccak (take p key) (subslice p dp key) cs') w) (\<lambda>w.
     bindE (emitAll emit (event_rows keccak (carry_nodes key (Suc l) hi b)) w) (\<lambda>w.
     let stk = place l (nib key l) (carry key (Suc l) hi b) lo in Inr (masksOf stk, refStack rf stk, w))))"
  using assms(2-6,8,11)
proof (induction hi arbitrary: dp cs' w)
  case Nil
  have pl: "length (masksOf lo) - 1 \<le> l" using assms(7) by (cases lo) (auto simp: length_masksOf)
  have cpl: "commonPrefixLen succeeding (take dp key) = l"
    using Nil.prems(6) assms(10) by (simp add: commonPrefixLen_take)
  have ndp: "nib (take dp key) l = nib key l" using Nil.prems(6) by (simp add: nib_def)
  have n16: "nib key l < 16" using Nil.prems(1,6) assms(1) by (intro nib_less) simp_all
  have srt: "sorted_wrt (\<lambda>a b. fst b < fst a) lo" using Nil.prems(2) by (simp add: stack_ok_def)
  have f: "full lo" using Nil.prems(3) by (auto simp: open_ok_def full_def)
  have m: "orMask l (nib key l) (masksOf lo) = masksOf (place l (nib key l) t lo)" for t
    using f n16 srt assms(7) by (rule orMask_place)
  have st: "refStack rf (place l (nib key l) t lo) = rf t # refStack rf lo" for t
    using Nil.prems(3) n16 by (intro refStack_place) (auto split: list.splits)
  have short: "drop (Suc l) (take dp key) = subslice (Suc l) dp key" by (simp add: subslice_def drop_take)
  have nb: "nibbly (subslice (Suc l) dp key)" using assms(1) by (rule nibbly_subslice)
  show ?case
    using pl assms(9) Nil.prems(1,6)
    by (subst hbUpdate.simps)
      (simp add: cpl ndp short ext_eq [OF nb] pos_under_def st m [symmetric] Let_def bindE_assoc max_absorb2 min_absorb1)
next
  case (Cons b hi)
  obtain d cs where b: "b = (d, cs)" by (cases b)
  have d: "l < d" "d < dp" "d < length key" using Cons.prems by (auto simp: b)
  have cpl: "commonPrefixLen succeeding (take dp key) = l"
    using Cons.prems(6) assms(10) by (simp add: commonPrefixLen_take)
  have pl: "length (masksOf ((b # hi) @ lo)) - 1 = d" by (simp add: b length_masksOf)
  have ndp: "nib (take dp key) d = nib key d" using d by (simp add: nib_def)
  have n16: "nib key d < 16" using d assms(1) by (intro nib_less)
  have short: "drop (Suc d) (take dp key) = subslice (Suc d) dp key" by (simp add: subslice_def drop_take)
  have nb: "nibbly (subslice (Suc d) dp key)" using assms(1) by (rule nibbly_subslice)
  have ok: "open_ok key ((d, cs) # (hi @ lo))" "stack_ok key ((d, cs) # (hi @ lo))"
    using Cons.prems by (simp_all add: b)
  note sl = seal_top [OF ok n16]
  have rest: "stack_ok key (hi @ lo)" "open_ok key (hi @ lo)" "\<forall>b \<in> set (hi @ lo). fst b < d" "length cs = 16"
    using ok by (auto simp: stack_ok_def)
  let ?t = "Branch (subslice (Suc d) dp key) cs'"
  note IH = Cons.IH [OF d(3) rest(1,2,3) _ d(1), of "put (nib key d) ?t cs"]
  have "pos_under (Suc l) hi \<le> d"
    using rest(3) d(1) by (cases hi) (auto simp: pos_under_def)
  then have path: "take (pos_under (Suc l) hi) key @ subslice (pos_under (Suc l) hi) d key = take d key"
    by (rule take_append_subslice)
  have top: "pos_under (Suc l) ((d, cs) # hi) = Suc d" by (simp add: pos_under_def)
  show ?case
    using assms(9) Cons.prems(1,5) d
    by (subst hbUpdate.simps)
      (simp add: cpl ndp short ext_eq [OF nb] Let_def bindE_assoc max_absorb1 min_absorb1 b top path
        length_masksOf sl IH rest emitAll_append del: masksOf_simps refStack_simps)
qed

lemma update_ext_final:
  assumes "nibbly key" "dp < length key" "0 < dp" "stack_ok key stk" "open_ok key stk"
    and "\<forall>b \<in> set stk. fst b < dp" "length cs' = 16"
  shows "hbUpdate pan E emit [] v True (take dp key)
      (masksOf stk, refN E (enc_branch keccak cs') # refStack rf stk, w) =
    (let p = pos_under 0 stk; b = Branch (subslice p dp key) cs' in
     bindE (emitAll emit (ext_rows keccak (take p key) (subslice p dp key) cs') w) (\<lambda>w.
     bindE (emitAll emit (event_rows keccak (carry_nodes key 0 stk b)) w) (\<lambda>w.
     Inr ([], [rf (carry key 0 stk b)], w))))"
  using assms(2-7)
proof (induction stk arbitrary: dp cs' w)
  case Nil
  have nb: "nibbly (subslice 0 dp key)" using assms(1) by (rule nibbly_subslice)
  show ?case
    using Nil.prems(1,2) ext_eq [OF nb, of pan emit "[]" v cs' "[]" w]
    by (subst hbUpdate.simps) (simp add: pos_under_def bindE_assoc Let_def)
next
  case (Cons b rest)
  obtain d cs where b: "b = (d, cs)" by (cases b)
  have d: "d < dp" "d < length key" using Cons.prems by (auto simp: b)
  have ndp: "nib (take dp key) d = nib key d" using d by (simp add: nib_def)
  have n16: "nib key d < 16" using d assms(1) by (intro nib_less)
  have short: "drop (Suc d) (take dp key) = subslice (Suc d) dp key" by (simp add: subslice_def drop_take)
  have nb: "nibbly (subslice (Suc d) dp key)" using assms(1) by (rule nibbly_subslice)
  have ok: "open_ok key ((d, cs) # rest)" "stack_ok key ((d, cs) # rest)"
    using Cons.prems by (simp_all add: b)
  note sl = seal_top [OF ok n16]
  have rest: "stack_ok key rest" "open_ok key rest" "\<forall>b \<in> set rest. fst b < d" "length cs = 16"
    using ok by (auto simp: stack_ok_def)
  let ?t = "Branch (subslice (Suc d) dp key) cs'"
  have top: "pos_under 0 ((d, cs) # rest) = Suc d" by (simp add: pos_under_def)
  have "pos_under 0 rest \<le> d" using rest(3) by (cases rest) (auto simp: pos_under_def)
  then have path: "take (pos_under 0 rest) key @ subslice (pos_under 0 rest) d key = take d key"
    by (rule take_append_subslice)
  show ?case
  proof (cases "d = 0")
    case True
    then have e: "rest = []" using rest(3) by (cases rest) auto
    have ne: "masksOf [(0, cs)] \<noteq> []" by simp
    show ?thesis
      using Cons.prems(1) d(1) True
      by (subst hbUpdate.simps)
        (simp add: ndp [unfolded True] short [unfolded True] ext_eq [OF nb [unfolded True]] Let_def bindE_assoc b ne e
          top [unfolded e True] sl [unfolded e True] pos_under_def [of 0 "[]"] length_masksOf emitAll_append
          ext_rows_def [of _ _ "[]"] enc_Branch_Nil del: masksOf_simps(2) refStack_simps(2))
  next
    case False
    then have "0 < d" by simp
    note IH = Cons.IH [OF d(2) this rest(1,2,3), of "put (nib key d) ?t cs"]
    show ?thesis
      using Cons.prems(1) d False
      by (subst hbUpdate.simps)
        (simp add: ndp short ext_eq [OF nb] Let_def bindE_assoc min_absorb1 b top path
          length_masksOf sl IH rest(4) emitAll_append masksOf_ne del: masksOf_simps refStack_simps)
  qed
qed

text \<open>One leaf more: the loop emits the nodes the reference closes and leaves the reference spine.\<close>

lemma update_step:
  assumes "nibbly key" "l < length key" "stack_ok key stk" "open_ok key stk"
    and "succeeding \<noteq> []" "commonPrefixLen succeeding (key @ trm) = l"
  shows "hbUpdate pan E emit succeeding v False (key @ trm) (masksOf stk, refStack rf stk, w) =
    bindE (emitAll emit (event_rows keccak (step_nodes key v l stk)) w) (\<lambda>w.
      Inr (masksOf (step key v l stk), refStack rf (step key v l stk), w))"
proof -
  have cpl: "commonPrefixLen succeeding key = l"
    using commonPrefixLen_take [of succeeding "length key" "key @ trm"] assms(2,6) by simp
  have lo: "\<forall>b \<in> set (shallower l stk). fst b \<le> l"
    using assms(3) by (rule shallower_le)
  show ?thesis
  proof (cases "deeper l stk")
    case Nil
    then have s: "shallower l stk = stk" using deeper_shallower [of l stk] by simp
    have pl: "length (masksOf stk) - 1 \<le> l" using lo s by (cases stk) (auto simp: length_masksOf)
    have n16: "nib key l < 16" using assms(1,2) by (rule nib_less)
    have m: "orMask l (nib key l) (masksOf stk) = masksOf (place l (nib key l) t stk)" for t
      using assms(3,4) n16 lo s by (intro orMask_place) (auto simp: open_ok_def full_def stack_ok_def)
    have st: "refStack rf (place l (nib key l) t stk) = rf t # refStack rf stk" for t
      using assms(4) n16 by (intro refStack_place) (auto split: list.splits)
    have nk: "nib (key @ trm) l = nib key l" using assms(2) by (simp add: nib_def nth_append)
    have lf: "hbNode pan E emit path False (drop (Suc l) (key @ trm)) v stk' w =
        bindE (emit path (EncodeLeaf (drop (Suc l) key) v) w) (\<lambda>w. Inr (rf (Leaf (drop (Suc l) key) v) # stk', w))"
      for path stk' using assms(1,2) by (intro leaf_eq) simp_all
    show ?thesis
      using pl assms(2,5)
      by (subst hbUpdate.simps)
        (simp add: assms(6) max_absorb2 nk lf m [of "Leaf (drop (Suc l) key) v"] st s Nil step_def step_nodes_def close_node_def
          close_nodes_def open_leaf_def pos_under_def Let_def bindE_assoc del: drop_append)
  next
    case (Cons b hi)
    obtain d cs where b: "b = (d, cs)" by (cases b)
    have stk: "stk = (d, cs) # hi @ shallower l stk" using deeper_shallower [of l stk] by (simp add: Cons b)
    have hi: "\<forall>b \<in> set ((d, cs) # hi). l < fst b"
      using Cons b set_takeWhileD [of _ "\<lambda>b. l < fst b" stk] by (metis deeper_def)
    have "(d, cs) \<in> set stk" using stk by (metis list.set_intros(1))
    then have d: "l < d" "d < length key" using hi assms(3) by (auto simp: stack_ok_def)
    then have lk: "Suc d - length key = 0" by simp
    have ok: "open_ok key ((d, cs) # (hi @ shallower l stk))" "stack_ok key ((d, cs) # (hi @ shallower l stk))"
      using assms(3,4) stk by simp_all
    have n16: "nib key d < 16" using assms(1) d(2) by (rule nib_less)
    note sl = seal_top [OF ok n16]
    have rest: "stack_ok key (hi @ shallower l stk)" "open_ok key (hi @ shallower l stk)"
        "\<forall>b \<in> set (hi @ shallower l stk). fst b < d" "length cs = 16"
      using ok by (auto simp: stack_ok_def)
    have nk: "nib (key @ trm) d = nib key d" using d by (simp add: nib_def nth_append)
    let ?t = "Leaf (drop (Suc d) key) v"
    have lf: "hbNode pan E emit path False (drop (Suc d) (key @ trm)) v stk' w =
        bindE (emit path (EncodeLeaf (drop (Suc d) key) v) w) (\<lambda>w. Inr (rf ?t # stk', w))"
      for path stk' using assms(1) d by (intro leaf_eq) simp_all
    have hi': "\<forall>b \<in> set hi. l < fst b" using hi by simp
    note ex = update_ext [OF assms(1) d(2) rest(1,2,3) hi' lo d(1) assms(5) cpl, of "put (nib key d) ?t cs"]
    have "pos_under (Suc l) hi \<le> d" using rest(3) d(1) by (cases hi) (auto simp: pos_under_def)
    then have path: "take (pos_under (Suc l) hi) key @ subslice (pos_under (Suc l) hi) d key = take d key"
      by (rule take_append_subslice)
    have top: "pos_under (Suc l) ((d, cs) # hi) = Suc d" by (simp add: pos_under_def)
    show ?thesis
      apply (subst (1 2) stk)
      using d assms(5)
      by (subst hbUpdate.simps)
        (simp add: assms(6) max_absorb1 nk lf sl ex rest(4) step_def step_nodes_def close_node_def
          close_nodes_def open_leaf_def Cons b top path Let_def bindE_assoc length_masksOf emitAll_append
          lk del: drop_append masksOf_simps refStack_simps enc.simps)
  qed
qed

lemma update_final:
  assumes "nibbly key" "key \<noteq> []" "stack_ok key stk" "open_ok key stk"
  shows "hbUpdate pan E emit [] v False (key @ trm) (masksOf stk, refStack rf stk, w) =
    bindE (emitAll emit (event_rows keccak (close_nodes key v 0 stk)) w) (\<lambda>w.
      Inr ([], [rf (close_node key v 0 stk)], w))"
proof (cases stk)
  case Nil
  have "hbNode pan E emit [] False (key @ trm) v [] w =
      bindE (emit [] (EncodeLeaf key v) w) (\<lambda>w. Inr ([rf (Leaf key v)], w))"
    using leaf_eq [OF assms(1), of 0 pan emit "[]" v "[]" w] by simp
  then show ?thesis
    using assms(2)
    by (subst hbUpdate.simps)
      (simp add: Nil close_node_def close_nodes_def open_leaf_def pos_under_def bindE_assoc Let_def)
next
  case (Cons b rest)
  obtain d cs where b: "b = (d, cs)" by (cases b)
  have d: "d < length key" using assms(3) by (simp add: Cons b stack_ok_def)
  then have lk: "Suc d - length key = 0" by simp
  have ok: "open_ok key ((d, cs) # rest)" "stack_ok key ((d, cs) # rest)"
    using assms(3,4) by (simp_all add: Cons b)
  have n16: "nib key d < 16" using assms(1) d by (rule nib_less)
  note sl = seal_top [OF ok n16]
  have r: "stack_ok key rest" "open_ok key rest" "\<forall>b \<in> set rest. fst b < d" "length cs = 16"
    using ok by (auto simp: stack_ok_def)
  have nk: "nib (key @ trm) d = nib key d" using d by (simp add: nib_def nth_append)
  let ?t = "Leaf (drop (Suc d) key) v"
  have lf: "hbNode pan E emit path False (drop (Suc d) (key @ trm)) v stk' w =
      bindE (emit path (EncodeLeaf (drop (Suc d) key) v) w) (\<lambda>w. Inr (rf ?t # stk', w))"
    for path stk' using assms(1) d by (intro leaf_eq) simp_all
  have "pos_under 0 rest \<le> d" using r(3) by (cases rest) (auto simp: pos_under_def)
  then have path: "take (pos_under 0 rest) key @ subslice (pos_under 0 rest) d key = take d key"
    by (rule take_append_subslice)
  have top: "pos_under 0 ((d, cs) # rest) = Suc d" by (simp add: pos_under_def)
  show ?thesis
  proof (cases "d = 0")
    case True
    then have e: "rest = []" using r(3) by (cases rest) auto
    have ne: "masksOf [(0, cs)] \<noteq> []" by simp
    show ?thesis
      using True assms(2) d
      by (subst hbUpdate.simps)
        (simp add: Cons b nk [unfolded True] lf [unfolded True] close_node_def close_nodes_def open_leaf_def
          top [unfolded e True] sl [unfolded e True] ne e pos_under_def [of 0 "[]"] Let_def bindE_assoc length_masksOf
          ext_rows_def enc_Branch_Nil lk [unfolded True] del: drop_append masksOf_simps(2) refStack_simps(2) enc.simps)
  next
    case False
    then have "0 < d" by simp
    note ex = update_ext_final [OF assms(1) d this r(1,2,3), of "put (nib key d) ?t cs"]
    show ?thesis
      using False d
      by (subst hbUpdate.simps)
        (simp add: Cons b nk lf sl ex r(4) close_node_def close_nodes_def open_leaf_def top path Let_def bindE_assoc
          length_masksOf emitAll_append lk masksOf_ne del: drop_append masksOf_simps refStack_simps enc.simps)
  qed
qed

end

end
