(* ===== verification/Besu_Node.thy ===== *)
theory Besu_Node
  imports Hash_Engine
begin

text \<open>
  Nodes, node keys and constants of besu's Bonsai trie, from \<open>internal/besu\<close>: \<open>constants.go\<close>,
  \<open>keys\<close>, and of \<open>trie\<close> the files \<open>compact.go\<close>, \<open>location.go\<close>, \<open>hash.go\<close>, \<open>node.go\<close> and the encoders of
  \<open>streaming_storage_builder.go\<close>.  go-ethereum's RLP package is the argument \<open>geth_rlp\<close>; an error of
  it is a panic of the encoders, \<open>None\<close>.  The lazy caches of encodings leave no trace.
\<close>

section \<open>The RLP package\<close>

record geth_rlp =
  rlpEncBytes :: "bytes \<Rightarrow> bytes option"
  rlpEncStrings :: "bytes list \<Rightarrow> bytes option"
  rlpEncRaws :: "bytes list \<Rightarrow> bytes option"

text \<open>
  Documented: a byte slice is encoded as a string, a slice of byte slices as the list of the
  strings, a slice of raw values as the list of the given encodings.
\<close>

definition geth_rlp_spec :: "geth_rlp \<Rightarrow> bool" where
  "geth_rlp_spec R \<longleftrightarrow>
     (\<forall>b. rlpEncBytes R b = Some (rlpEncodeBytes b)) \<and>
     (\<forall>xs. rlpEncStrings R xs = Some (rlpEncodeListRaw (concat (map rlpEncodeBytes xs)))) \<and>
     (\<forall>xs. rlpEncRaws R xs = Some (rlpEncodeListRaw (concat xs)))"

definition geth_rlp_model :: geth_rlp where
  "geth_rlp_model =
     \<lparr>rlpEncBytes = (\<lambda>b. Some (rlpEncodeBytes b)),
      rlpEncStrings = (\<lambda>xs. Some (rlpEncodeListRaw (concat (map rlpEncodeBytes xs)))),
      rlpEncRaws = (\<lambda>xs. Some (rlpEncodeListRaw (concat xs)))\<rparr>"

lemma geth_rlp_model_spec: "geth_rlp_spec geth_rlp_model"
  by (simp add: geth_rlp_spec_def geth_rlp_model_def)

section \<open>Constants and keys\<close>

definition EmptyTrieNode :: bytes where "EmptyTrieNode = [0x80]"

definition EmptyTrieNodeHash :: bytes where
  "EmptyTrieNodeHash =
     [0x56, 0xe8, 0x1f, 0x17, 0x1b, 0xcc, 0x55, 0xa6, 0xff, 0x83, 0x45, 0xe6, 0x92, 0xc0, 0xf8, 0x6e,
      0x5b, 0x48, 0xe0, 0x1b, 0x99, 0x6c, 0xad, 0xc0, 0x01, 0x62, 0x2f, 0xb5, 0xe3, 0x63, 0xb4, 0x21]"

definition RlpEmptyList :: bytes where "RlpEmptyList = [0xc0]"

definition LeafTerminator :: byte where "LeafTerminator = 0x10"

lemma EmptyTrieNodeHash_eq: "EmptyTrieNodeHash = EmptyTrieHash"
  by (simp add: EmptyTrieNodeHash_def EmptyTrieHash_def)

definition prefixedHashKey :: "byte \<Rightarrow> bytes \<Rightarrow> bytes" where
  "prefixedHashKey prefix hash = prefix # hash"

definition blockHeaderPrefix :: byte where "blockHeaderPrefix = 0x02"
definition blockBodyPrefix :: byte where "blockBodyPrefix = 0x03"
definition blockReceiptsPrefix :: byte where "blockReceiptsPrefix = 0x04"
definition canonicalHashPrefix :: byte where "canonicalHashPrefix = 0x05"
definition totalDifficultyPrefix :: byte where "totalDifficultyPrefix = 0x06"

definition BlockHeaderKey :: "bytes \<Rightarrow> bytes" where "BlockHeaderKey h = prefixedHashKey blockHeaderPrefix h"
definition BlockBodyKey :: "bytes \<Rightarrow> bytes" where "BlockBodyKey h = prefixedHashKey blockBodyPrefix h"
definition BlockReceiptsKey :: "bytes \<Rightarrow> bytes" where "BlockReceiptsKey h = prefixedHashKey blockReceiptsPrefix h"
definition TotalDifficultyKey :: "bytes \<Rightarrow> bytes" where "TotalDifficultyKey h = prefixedHashKey totalDifficultyPrefix h"

definition CanonicalHashKey :: "u64 \<Rightarrow> bytes" where
  "CanonicalHashKey blockNum =
     [canonicalHashPrefix] @ replicate 24 0 @ map (\<lambda>s. ucast (drop_bit s blockNum)) [56, 48, 40, 32, 24, 16, 8, 0]"

definition asciiBytes :: "string \<Rightarrow> bytes" where
  "asciiBytes s = map (\<lambda>c. of_nat (of_char c)) s"

definition WorldRootKey :: bytes where "WorldRootKey = asciiBytes ''worldRoot''"
definition WorldBlockHashKey :: bytes where "WorldBlockHashKey = asciiBytes ''worldBlockHash''"
definition WorldBlockNumberKey :: bytes where "WorldBlockNumberKey = asciiBytes ''worldBlockNumber''"
definition FlatDbStatusKey :: bytes where "FlatDbStatusKey = asciiBytes ''flatDbStatus''"
definition FlatDbStatusFull :: bytes where "FlatDbStatusFull = [0x01]"
definition WorldBlockNumberGenesis :: bytes where "WorldBlockNumberGenesis = replicate 8 0"
definition ChainHeadHashKey :: bytes where "ChainHeadHashKey = asciiBytes ''chainHeadHash''"

section \<open>Paths and locations\<close>

definition besu_CompactEncode :: "bytes \<Rightarrow> bool \<Rightarrow> bytes" where
  "besu_CompactEncode nibbles isLeaf =
     (let odd = length nibbles mod 2 = 1;
          meta = (if isLeaf \<and> odd then 0x30 OR nibbles ! 0
                  else if isLeaf \<and> \<not> odd then 0x20
                  else if \<not> isLeaf \<and> odd then 0x10 OR nibbles ! 0
                  else 0x00);
          remaining = (if odd then drop 1 nibbles else nibbles)
      in meta # packNibbles remaining)"

definition besu_CompactDecode :: "bytes \<Rightarrow> (bytes \<times> bool) option" where
  "besu_CompactDecode encoded =
     (case encoded of
        [] \<Rightarrow> None
      | meta # rest \<Rightarrow>
          let flag = drop_bit 4 meta;
              tail = concat (map (\<lambda>b. [drop_bit 4 b, b AND 0x0f]) rest)
          in
          if flag = 0 then Some (tail, False)
          else if flag = 1 then Some ((meta AND 0x0f) # tail, False)
          else if flag = 2 then Some (tail, True)
          else if flag = 3 then Some ((meta AND 0x0f) # tail, True)
          else None)"

definition keyPath :: "bytes \<Rightarrow> bytes" where
  "keyPath key = concat (map (\<lambda>b. [drop_bit 4 b, b AND 0x0f]) key) @ [LeafTerminator]"

definition RootLocation :: bytes where "RootLocation = []"

definition AppendNibble :: "bytes \<Rightarrow> byte \<Rightarrow> bytes" where
  "AppendNibble location nibble = location @ [nibble]"

definition AppendPath :: "bytes \<Rightarrow> bytes \<Rightarrow> bytes" where
  "AppendPath location path = location @ path"

definition StorageTrieKey :: "bytes \<Rightarrow> bytes \<Rightarrow> bytes" where
  "StorageTrieKey accountHash location = accountHash @ location"

section \<open>References\<close>

definition NodeHash :: "digest \<Rightarrow> bytes \<Rightarrow> bytes" where
  "NodeHash keccak rlp = keccak rlp"

definition IsReferencedByHash :: "bytes \<Rightarrow> bool" where
  "IsReferencedByHash rlp \<longleftrightarrow> length rlp \<ge> 32"

definition EncodedBytesRef :: "digest \<Rightarrow> bytes \<Rightarrow> bytes" where
  "EncodedBytesRef keccak rlp = (if \<not> IsReferencedByHash rlp then rlp else 0xa0 # NodeHash keccak rlp)"

definition refOfRLP :: "digest \<Rightarrow> bytes \<Rightarrow> bytes" where
  "refOfRLP keccak rlp = (if \<not> IsReferencedByHash rlp then rlp else 0xa0 # NodeHash keccak rlp)"

section \<open>Encoders\<close>

definition stripTerminator :: "bytes \<Rightarrow> bytes" where
  "stripTerminator path = (if path \<noteq> [] \<and> last path = LeafTerminator then butlast path else path)"

definition encodeLeafRLP :: "geth_rlp \<Rightarrow> bytes \<Rightarrow> bytes \<Rightarrow> bytes option" where
  "encodeLeafRLP R path val = rlpEncStrings R [besu_CompactEncode (stripTerminator path) True, val]"

definition encodeExtensionRLP :: "geth_rlp \<Rightarrow> bytes \<Rightarrow> bytes \<Rightarrow> bytes option" where
  "encodeExtensionRLP R path childRef =
     Option.bind (rlpEncBytes R (besu_CompactEncode path False)) (\<lambda>hp. rlpEncRaws R [hp, childRef])"

definition encodeBranchRLP :: "geth_rlp \<Rightarrow> u16 \<Rightarrow> bytes list \<Rightarrow> bytes option" where
  "encodeBranchRLP R stateMask refs =
     Option.bind (fillSlots stateMask [0..<16] refs) (\<lambda>items. rlpEncRaws R (items @ [[0x80]]))"

definition besu_enc :: "geth_rlp \<Rightarrow> digest \<Rightarrow> hb_enc" where
  "besu_enc R keccak =
     \<lparr>encLeafN = encodeLeafRLP R, encExtN = encodeExtensionRLP R, encBranchN = encodeBranchRLP R,
      refN = refOfRLP keccak\<rparr>"

section \<open>Agreement with the reference encodings\<close>

lemma nibbly_is_nibble: "nibbly k \<longleftrightarrow> list_all is_nibble k"
  by (simp add: nibbly_def list_all_iff is_nibble_def)

lemma besu_CompactEncode_eq: "besu_CompactEncode p leaf = appendCompact [] p leaf"
  by (cases "odd (length p)")
    (simp_all add: besu_CompactEncode_def appendCompact_def Let_def odd_iff_mod_2_eq_one or_0x30)

lemma keyPath_eq: "keyPath key = BytesToNibbles key @ [LeafTerminator]"
proof -
  have "concat (map (\<lambda>b. [drop_bit 4 b, b AND 0x0f]) key) = BytesToNibbles key"
    by (induction key) simp_all
  then show ?thesis by (simp add: keyPath_def)
qed

lemma encodeLeafRLP_eq:
  assumes "geth_rlp_spec R"
  shows "encodeLeafRLP R (r @ [LeafTerminator]) v = Some (EncodeLeaf r v)"
  using assms
  by (simp add: encodeLeafRLP_def stripTerminator_def geth_rlp_spec_def besu_CompactEncode_eq EncodeLeaf_def
      appendRLPBytes_eq)

lemma refOfRLP_ref: "refOfRLP = ref_bytes"
  by (simp add: fun_eq_iff refOfRLP_def ref_bytes_def IsReferencedByHash_def NodeHash_def)

lemma encodeExtensionRLP_eq:
  assumes "geth_rlp_spec R"
  shows "encodeExtensionRLP R p (refOfRLP keccak c) = Some (EncodeExtension keccak p c)"
  using assms
  by (simp add: encodeExtensionRLP_def geth_rlp_spec_def besu_CompactEncode_eq EncodeExtension_def
      appendRLPBytes_eq refOfRLP_ref appendChildRefOf_ref)

lemma encodeBranchRLP_eq:
  assumes "geth_rlp_spec R" "length cs = 16"
  shows "encodeBranchRLP R (usedOf cs) (map (\<lambda>t. refOfRLP keccak (enc keccak t)) (present cs)) =
    Some (enc_branch keccak cs)"
  using assms(1) fillSlots_present [OF assms(2)]
  by (simp add: encodeBranchRLP_def geth_rlp_spec_def enc_branch_eq refOfRLP_ref)

lemma besu_encoders: "geth_rlp_spec R \<Longrightarrow> hb_encoders keccak (besu_enc R keccak) [LeafTerminator]"
  by unfold_locales (simp_all add: besu_enc_def encodeLeafRLP_eq encodeExtensionRLP_eq encodeBranchRLP_eq)

interpretation besu_hb: hb_encoders keccak "besu_enc geth_rlp_model keccak" "[LeafTerminator]" for keccak
  by (rule besu_encoders [OF geth_rlp_model_spec])

end
