(* ===== verification/Besu_Stream.thy ===== *)
theory Besu_Stream
  imports Besu_Node Ethrex_Account
begin

text \<open>
  Besu's streaming trie builders, from \<open>streaming_storage_builder.go\<close> and
  \<open>streaming_account_builder.go\<close> of \<open>internal/besu/trie\<close>, with the sink interface and the emitters of
  \<open>builder.go\<close>.  The update loop is \<open>hbUpdate\<close>; what the builder adds is which finished nodes reach
  the sink, and where the root goes.
\<close>

section \<open>The builder\<close>

datatype 'e besu_error = ErrSlotsOutOfOrder | EmptyStackError int | BesuPanic | NodeSinkError 'e

record ('w, 'e) NodeSink =
  PutAccountStateTrieNode :: "bytes \<Rightarrow> bytes \<Rightarrow> bytes \<Rightarrow> 'w \<Rightarrow> 'e + 'w"
  PutAccountStorageTrieNode :: "bytes \<Rightarrow> bytes \<Rightarrow> bytes \<Rightarrow> bytes \<Rightarrow> 'w \<Rightarrow> 'e + 'w"

datatype emitter = AccountTrieEmitter | StorageTrieEmitter bytes

definition besu_emit ::
  "('w, 'e) NodeSink \<Rightarrow> emitter \<Rightarrow> bytes \<Rightarrow> bytes \<Rightarrow> bytes \<Rightarrow> 'w \<Rightarrow> 'e besu_error + 'w" where
  "besu_emit sink em location hash rlp w =
     (case (case em of
        AccountTrieEmitter \<Rightarrow> PutAccountStateTrieNode sink location hash rlp w
      | StorageTrieEmitter addrHash \<Rightarrow> PutAccountStorageTrieNode sink addrHash location hash rlp w) of
      Inl e \<Rightarrow> Inl (NodeSinkError e)
    | Inr w \<Rightarrow> Inr w)"

text \<open>The stack has its top first; \<open>prevPath\<close> is \<open>None\<close> where the code has \<open>nil\<close>.\<close>

record 'w streamingBuilder =
  sb_prevPath :: "bytes option"
  sb_prevValue :: bytes
  sb_stack :: "bytes list"
  sb_stateMasks :: "u16 list"
  sb_leafCount :: int
  sb_rootRLP :: bytes
  sb_world :: 'w

definition NewStreamingBuilder :: "'w \<Rightarrow> 'w streamingBuilder" where
  "NewStreamingBuilder w =
     \<lparr>sb_prevPath = None, sb_prevValue = [], sb_stack = [], sb_stateMasks = [], sb_leafCount = 0,
      sb_rootRLP = [], sb_world = w\<rparr>"

definition besu_maybeEmit ::
  "digest \<Rightarrow> ('w, 'e) NodeSink \<Rightarrow> emitter \<Rightarrow> (bytes \<times> 'w, 'e besu_error) emit" where
  "besu_maybeEmit keccak sink em location rlp rw =
     (case rw of (rootRLP, w) \<Rightarrow>
        if \<not> IsReferencedByHash rlp then Inr (rootRLP, w)
        else
          let hash = NodeHash keccak rlp in
          if hash = EmptyTrieNodeHash then Inr (rootRLP, w)
          else
            let rootRLP = (if location = [] then rlp else rootRLP) in
            bindE (besu_emit sink em location hash rlp w) (\<lambda>w. Inr (rootRLP, w)))"

definition besu_update ::
  "geth_rlp \<Rightarrow> digest \<Rightarrow> ('w, 'e) NodeSink \<Rightarrow> emitter \<Rightarrow> bytes \<Rightarrow> bytes \<Rightarrow> 'w streamingBuilder
    \<Rightarrow> 'e besu_error + 'w streamingBuilder" where
  "besu_update R keccak sink em succeeding prevPath c =
     bindE (hbUpdate BesuPanic (besu_enc R keccak) (besu_maybeEmit keccak sink em) succeeding (sb_prevValue c) False prevPath
       (sb_stateMasks c, sb_stack c, sb_rootRLP c, sb_world c)) (\<lambda>(masks, stk, rootRLP, w).
     Inr (c\<lparr>sb_stateMasks := masks, sb_stack := stk, sb_rootRLP := rootRLP, sb_world := w\<rparr>))"

definition besu_addLeaf ::
  "geth_rlp \<Rightarrow> digest \<Rightarrow> ('w, 'e) NodeSink \<Rightarrow> emitter \<Rightarrow> bytes \<Rightarrow> bytes \<Rightarrow> 'w streamingBuilder
    \<Rightarrow> 'e besu_error + 'w streamingBuilder" where
  "besu_addLeaf R keccak sink em keyHash valueRLP c =
     (let newPath = keyPath keyHash in
      bindE (case sb_prevPath c of
          None \<Rightarrow> Inr c
        | Some prevPath \<Rightarrow>
            if bytesCompare newPath prevPath \<le> 0 then Inl ErrSlotsOutOfOrder
            else besu_update R keccak sink em newPath prevPath c) (\<lambda>c.
      Inr (c\<lparr>sb_leafCount := sb_leafCount c + 1, sb_prevPath := Some newPath, sb_prevValue := valueRLP\<rparr>)))"

definition besu_finalize ::
  "geth_rlp \<Rightarrow> digest \<Rightarrow> ('w, 'e) NodeSink \<Rightarrow> emitter \<Rightarrow> 'w streamingBuilder
    \<Rightarrow> 'e besu_error + (bytes \<times> bytes) \<times> 'w streamingBuilder" where
  "besu_finalize R keccak sink em c =
     (if sb_leafCount c = 0 then Inr ((EmptyTrieNodeHash, [0x80]), c)
      else
        bindE (case sb_prevPath c of
            None \<Rightarrow> Inr c
          | Some prevPath \<Rightarrow>
              bindE (besu_update R keccak sink em [] prevPath c) (\<lambda>c.
                Inr (c\<lparr>sb_prevPath := None, sb_prevValue := []\<rparr>))) (\<lambda>c.
        case sb_stack c of
          [] \<Rightarrow> Inl (EmptyStackError (sb_leafCount c))
        | rootRef # _ \<Rightarrow>
            if length rootRef = 33 \<and> rootRef ! 0 = 0xa0 then Inr ((drop 1 rootRef, sb_rootRLP c), c)
            else
              let rootRLP = rootRef; rootHash = NodeHash keccak rootRLP in
              if rootHash \<noteq> EmptyTrieNodeHash then
                bindE (besu_emit sink em RootLocation rootHash rootRLP (sb_world c)) (\<lambda>w.
                  Inr ((rootHash, rootRLP), c\<lparr>sb_world := w\<rparr>))
              else Inr ((rootHash, rootRLP), c)))"

section \<open>The two wrappers\<close>

definition StreamingStorageBuilder_AddSlot ::
  "geth_rlp \<Rightarrow> digest \<Rightarrow> ('w, 'e) NodeSink \<Rightarrow> bytes \<Rightarrow> bytes \<Rightarrow> bytes \<Rightarrow> 'w streamingBuilder
    \<Rightarrow> 'e besu_error + 'w streamingBuilder" where
  "StreamingStorageBuilder_AddSlot R keccak sink addrHash slotHash valueRLP c =
     besu_addLeaf R keccak sink (StorageTrieEmitter addrHash) slotHash valueRLP c"

definition StreamingStorageBuilder_Commit ::
  "geth_rlp \<Rightarrow> digest \<Rightarrow> ('w, 'e) NodeSink \<Rightarrow> bytes \<Rightarrow> 'w streamingBuilder
    \<Rightarrow> 'e besu_error + bytes \<times> 'w streamingBuilder" where
  "StreamingStorageBuilder_Commit R keccak sink addrHash c =
     bindE (besu_finalize R keccak sink (StorageTrieEmitter addrHash) c) (\<lambda>((h, _), c). Inr (h, c))"

definition StreamingAccountBuilder_AddAccount ::
  "geth_rlp \<Rightarrow> digest \<Rightarrow> ('w, 'e) NodeSink \<Rightarrow> bytes \<Rightarrow> bytes \<Rightarrow> 'w streamingBuilder
    \<Rightarrow> 'e besu_error + 'w streamingBuilder" where
  "StreamingAccountBuilder_AddAccount R keccak sink addrHash accountRLP c =
     besu_addLeaf R keccak sink AccountTrieEmitter addrHash accountRLP c"

definition StreamingAccountBuilder_Commit ::
  "geth_rlp \<Rightarrow> digest \<Rightarrow> ('w, 'e) NodeSink \<Rightarrow> 'w streamingBuilder
    \<Rightarrow> 'e besu_error + (bytes \<times> bytes) \<times> 'w streamingBuilder" where
  "StreamingAccountBuilder_Commit R keccak sink c = besu_finalize R keccak sink AccountTrieEmitter c"

definition StreamingAccountBuilder_Root ::
  "geth_rlp \<Rightarrow> digest \<Rightarrow> ('w, 'e) NodeSink \<Rightarrow> 'w streamingBuilder
    \<Rightarrow> 'e besu_error + bytes \<times> 'w streamingBuilder" where
  "StreamingAccountBuilder_Root R keccak sink c =
     bindE (besu_finalize R keccak sink AccountTrieEmitter c) (\<lambda>((h, _), c). Inr (h, c))"

text \<open>A whole build: add the leaves in order, then finalize.\<close>

definition besu_stream ::
  "geth_rlp \<Rightarrow> digest \<Rightarrow> ('w, 'e) NodeSink \<Rightarrow> emitter \<Rightarrow> 'w \<Rightarrow> bytes entry list
    \<Rightarrow> 'e besu_error + (bytes \<times> bytes) \<times> 'w" where
  "besu_stream R keccak sink em w kvs =
     bindE (foldE (\<lambda>(k, v). besu_addLeaf R keccak sink em k v) kvs (NewStreamingBuilder w)) (\<lambda>c.
     bindE (besu_finalize R keccak sink em c) (\<lambda>(r, c). Inr (r, sb_world c)))"

section \<open>What reaches the sink\<close>

definition stored :: "digest \<Rightarrow> row \<Rightarrow> bool" where
  "stored keccak r \<longleftrightarrow> length (snd r) \<ge> 32 \<and> keccak (snd r) \<noteq> EmptyTrieNodeHash"

abbreviation emitRow :: "digest \<Rightarrow> ('w, 'e) NodeSink \<Rightarrow> emitter \<Rightarrow> ('w, 'e besu_error) emit" where
  "emitRow keccak sink em \<equiv> \<lambda>location rlp. besu_emit sink em location (keccak rlp) rlp"

definition lastRoot :: "row list \<Rightarrow> bytes \<Rightarrow> bytes" where
  "lastRoot rs r = foldl (\<lambda>r (l, x). if l = [] then x else r) r rs"

lemma emitAll_maybeEmit:
  "emitAll (besu_maybeEmit keccak sink em) rs (r, w) =
    bindE (emitAll (emitRow keccak sink em) (filter (stored keccak) rs) w) (\<lambda>w.
      Inr (lastRoot (filter (stored keccak) rs) r, w))"
proof (induction rs arbitrary: r w)
  case (Cons x rs)
  obtain l y where x: "x = (l, y)" by (cases x)
  show ?case
    using Cons.IH
    by (auto simp: x stored_def besu_maybeEmit_def IsReferencedByHash_def NodeHash_def Let_def lastRoot_def bindE_assoc
        intro!: bindE_cong)
qed (simp add: lastRoot_def)

lemma event_rows_snoc: "\<exists>rs. event_rows keccak (nodes path t) = rs @ [(path, enc keccak t)]"
proof (cases t)
  case (Branch pfx cs)
  then show ?thesis by (cases "pfx = []") (simp_all add: ext_rows_def enc_Branch del: enc.simps)
qed simp

text \<open>The rows of a trie: the nodes referenced by hash, and a small root.\<close>

definition besu_rows :: "digest \<Rightarrow> bytes mpt \<Rightarrow> row list" where
  "besu_rows keccak t =
     filter (stored keccak) (event_rows keccak (nodes [] t)) @
     (if length (enc keccak t) < 32 \<and> keccak (enc keccak t) \<noteq> EmptyTrieNodeHash then [([], enc keccak t)] else [])"

section \<open>The builder follows the reference trie\<close>

definition besu_of :: "digest \<Rightarrow> bytes entry list \<Rightarrow> bytes \<times> 'w \<Rightarrow> 'w streamingBuilder" where
  "besu_of keccak es rw =
     \<lparr>sb_prevPath = Some (lkey es @ [LeafTerminator]), sb_prevValue = lval es,
      sb_stack = refStack (\<lambda>t. refOfRLP keccak (enc keccak t)) (spine es), sb_stateMasks = masksOf (spine es),
      sb_leafCount = int (length es), sb_rootRLP = fst rw, sb_world = snd rw\<rparr>"

lemma refN_besu [simp]: "refN (besu_enc R keccak) = refOfRLP keccak"
  by (simp add: besu_enc_def)

lemma bytesCompare_snoc: "length a = length b \<Longrightarrow> bytesCompare (a @ [x]) (b @ [x]) = bytesCompare a b"
  by (induction a b rule: list_induct2) simp_all

lemma cpl_snoc:
  assumes "length a = length b" "a \<noteq> b"
  shows "commonPrefixLen (b @ [x]) (a @ [x]) = commonPrefixLen a b"
  using assms by (induction a b rule: list_induct2) (auto simp: commonPrefixLen_commute)

lemma besu_addLeaf_eq:
  assumes R: "geth_rlp_spec R" and wf: "wf_entries L (es @ [(BytesToNibbles k, v)])" "es \<noteq> []"
  shows "besu_addLeaf R keccak sink em k v (besu_of keccak es rw) =
    bindE (emitAll (besu_maybeEmit keccak sink em) (event_rows keccak
        (step_nodes (lkey es) (lval es) (commonPrefixLen (lkey es) (BytesToNibbles k)) (spine es))) rw)
      (\<lambda>rw. Inr (besu_of keccak (es @ [(BytesToNibbles k, v)]) rw))"
proof -
  let ?k = "BytesToNibbles k" let ?l = "commonPrefixLen (lkey es) ?k"
  note s = wf_snocD [OF wf]
  note key = wf_entries_lkey [OF s(1) wf(2)]
  have ne: "lkey es \<noteq> ?k" "length (lkey es) = length ?k" using s key by auto
  have cmp: "\<not> bytesCompare (?k @ [LeafTerminator]) (lkey es @ [LeafTerminator]) \<le> 0"
    using s ne(2) by (simp add: bytesCompare_snoc bytesCompare_le_0)
  have l: "?l < length (lkey es)" using commonPrefixLen_less [OF ne(2,1)] .
  note up = hb_encoders.update_step [OF besu_encoders [OF R, of keccak], of "lkey es" ?l "spine es" "?k @ [LeafTerminator]"
      BesuPanic "besu_maybeEmit keccak sink em" "lval es" rw]
  show ?thesis
    using up key l stack_ok_spine [OF s(1) wf(2)] open_ok_spine [OF s(1) wf(2)] cpl_snoc [OF ne(2,1)] cmp
      spine_snoc [OF wf] s
    by (simp add: besu_addLeaf_def besu_update_def besu_of_def keyPath_eq Let_def bindE_assoc case_prod_beta
        add.commute del: bytesCompare.simps)
qed

lemma besu_adds_eq:
  assumes R: "geth_rlp_spec R" and "sorted_hashes kvs" "kvs \<noteq> []"
  shows "foldE (\<lambda>(k, v). besu_addLeaf R keccak sink em k v) kvs (NewStreamingBuilder w) =
    bindE (emitAll (besu_maybeEmit keccak sink em) (event_rows keccak (closed (nibble_entries kvs))) ([], w))
      (\<lambda>rw. Inr (besu_of keccak (nibble_entries kvs) rw))"
  using assms(2,3)
proof (induction kvs rule: rev_induct)
  case (snoc x kvs)
  obtain k v where x: "x = (k, v)" by (cases x)
  have n: "nibble_entries (kvs @ [x]) = nibble_entries kvs @ [(BytesToNibbles k, v)]"
    by (simp add: nibble_entries_def x)
  show ?case
  proof (cases "kvs = []")
    case True
    then show ?thesis
      by (simp add: x n besu_addLeaf_def NewStreamingBuilder_def besu_of_def lkey_def lval_def keyPath_eq
          nibble_entries_def closed.simps spine.simps splits_def split_at_def fkey_def)
  next
    case False
    then have ne: "nibble_entries kvs \<noteq> []" by (simp add: nibble_entries_def)
    have wf: "wf_entries 64 (nibble_entries kvs @ [(BytesToNibbles k, v)])"
      using wf_nibble_entries [OF snoc.prems(1)] by (simp add: n)
    have "sorted_hashes kvs" using snoc.prems(1) by (auto simp: sorted_hashes_def sorted_wrt_append)
    then show ?thesis
      using snoc.IH False besu_addLeaf_eq [OF R wf ne, of keccak sink em] closed_snoc [OF wf ne]
      by (simp add: n [unfolded x] foldE_append x bindE_assoc emitAll_append)
  qed
qed simp

lemma ref_hash:
  assumes "keccak_spec keccak" "32 \<le> length x"
  shows "refOfRLP keccak x = 0xa0 # keccak x" "length (refOfRLP keccak x) = 33"
  using assms by (simp_all add: refOfRLP_def IsReferencedByHash_def NodeHash_def keccak_spec_def)

lemma ref_inline: "length x < 32 \<Longrightarrow> refOfRLP keccak x = x"
  by (simp add: refOfRLP_def IsReferencedByHash_def)

lemma lastRoot_snoc: "lastRoot (rs @ [([], x)]) r = x"
  by (simp add: lastRoot_def)

text \<open>
  The build as a whole.  A root whose hash is that of the empty trie would not be captured, so the
  root's encoding is returned when this does not happen.
\<close>

lemma besu_stream_eq:
  assumes R: "geth_rlp_spec R" and k: "keccak_spec keccak" and s: "sorted_hashes kvs" and ne: "kvs \<noteq> []"
    and t: "mk 0 (nibble_entries kvs) = Some t"
  shows "\<exists>rr. (keccak (enc keccak t) \<noteq> EmptyTrieNodeHash \<longrightarrow> rr = enc keccak t) \<and>
    besu_stream R keccak sink em w kvs =
      bindE (emitAll (emitRow keccak sink em) (besu_rows keccak t) w) (\<lambda>w. Inr ((keccak (enc keccak t), rr), w))"
proof -
  let ?es = "nibble_entries kvs"
  have ne': "?es \<noteq> []" using ne by (simp add: nibble_entries_def)
  note wf = wf_nibble_entries [OF s] and key = wf_entries_lkey [OF wf_nibble_entries [OF s] ne']
  have tc: "t = close_node (lkey ?es) (lval ?es) 0 (spine ?es)" using mk_spine [OF wf ne', of 0] t by simp
  have "nodes [] t = closed ?es @ close_nodes (lkey ?es) (lval ?es) 0 (spine ?es)"
    using nodes_mk [OF wf ne' agree_0] by (simp add: t)
  then have evs: "event_rows keccak (closed ?es) @ event_rows keccak (close_nodes (lkey ?es) (lval ?es) 0 (spine ?es)) =
      event_rows keccak (nodes [] t)" by simp
  have "lkey ?es \<noteq> []" using key by auto
  note up = hb_encoders.update_final [OF besu_encoders [OF R, of keccak] _ this stack_ok_spine [OF wf ne']
      open_ok_spine [OF wf ne'], of BesuPanic "besu_maybeEmit keccak sink em" "lval ?es"]
  obtain rs where rs: "event_rows keccak (nodes [] t) = rs @ [([], enc keccak t)]"
    using event_rows_snoc [of keccak "[]" t] by blast
  have adds: "besu_stream R keccak sink em w kvs =
    bindE (emitAll (besu_maybeEmit keccak sink em) (event_rows keccak (nodes [] t)) ([], w)) (\<lambda>rw.
      if length (enc keccak t) \<ge> 32 then Inr ((keccak (enc keccak t), fst rw), snd rw)
      else if keccak (enc keccak t) \<noteq> EmptyTrieNodeHash then
        bindE (besu_emit sink em [] (keccak (enc keccak t)) (enc keccak t) (snd rw)) (\<lambda>w.
          Inr ((keccak (enc keccak t), enc keccak t), w))
      else Inr ((keccak (enc keccak t), enc keccak t), snd rw))"
    unfolding evs [symmetric]
    using key up ne' ref_hash [OF k, of "enc keccak t"] ref_inline [of "enc keccak t" keccak]
    by (cases "32 \<le> length (enc keccak t)"; cases "keccak (enc keccak t) = EmptyTrieNodeHash")
      (simp_all add: besu_stream_def besu_adds_eq [OF R s ne] emitAll_append bindE_assoc besu_finalize_def besu_of_def
        besu_update_def case_prod_beta tc [symmetric] RootLocation_def NodeHash_def Let_def)
  let ?rr = "if 32 \<le> length (enc keccak t) then lastRoot (filter (stored keccak) (event_rows keccak (nodes [] t))) []
    else enc keccak t"
  have "besu_stream R keccak sink em w kvs =
      bindE (emitAll (emitRow keccak sink em) (besu_rows keccak t) w) (\<lambda>w. Inr ((keccak (enc keccak t), ?rr), w))"
    by (simp add: adds emitAll_maybeEmit bindE_assoc besu_rows_def emitAll_append)
  moreover have "keccak (enc keccak t) \<noteq> EmptyTrieNodeHash \<longrightarrow> ?rr = enc keccak t"
    by (simp add: rs stored_def lastRoot_snoc)
  ultimately show ?thesis by blast
qed

section \<open>Order of the input\<close>

lemma emitAll_sink_error:
  "emitAll (besu_maybeEmit keccak sink em) rs rw = Inl e \<Longrightarrow> \<exists>x. e = NodeSinkError x"
proof (induction rs arbitrary: rw)
  case (Cons r rs)
  then show ?case
    by (cases r; cases rw)
      (auto simp: besu_maybeEmit_def besu_emit_def bindE_def Let_def split: if_splits sum.splits)
qed simp

lemma besu_prevPath:
  assumes "foldE (\<lambda>(k, v). besu_addLeaf R keccak sink em k v) kvs c0 = Inr c" "kvs \<noteq> []"
  shows "sb_prevPath c = Some (keyPath (fst (last kvs)))"
  using assms by (cases kvs rule: rev_cases)
    (auto simp: foldE_append bindE_eq_Inr besu_addLeaf_def Let_def split: prod.splits)

text \<open>
  The order of the input.  After any accepted sequence of leaves, a leaf is refused with
  \<open>ErrSlotsOutOfOrder\<close> exactly when its hash is not greater than the last one.
\<close>

theorem besu_rejects_out_of_order:
  assumes "geth_rlp_spec R" "sorted_hashes kvs" "kvs \<noteq> []" "length k = 32"
    and "foldE (\<lambda>(k, v). besu_addLeaf R keccak sink em k v) kvs (NewStreamingBuilder w) = Inr c"
  shows "besu_addLeaf R keccak sink em k v c = Inl ErrSlotsOutOfOrder \<longleftrightarrow> \<not> bytesLess (fst (last kvs)) k"
proof -
  let ?es = "nibble_entries kvs"
  have len: "length (fst (last kvs)) = 32" using assms(2,3) by (simp add: sorted_hashes_def)
  have pp: "sb_prevPath c = Some (keyPath (fst (last kvs)))" by (rule besu_prevPath [OF assms(5,3)])
  have cmp: "bytesCompare (keyPath k) (keyPath (fst (last kvs))) \<le> 0 \<longleftrightarrow> \<not> bytesLess (fst (last kvs)) k"
    using len assms(4) bytesLess_BytesToNibbles [of "fst (last kvs)" k]
    by (simp add: keyPath_eq bytesCompare_snoc bytesCompare_le_0)
  show ?thesis
  proof (cases "bytesLess (fst (last kvs)) k")
    case False
    then show ?thesis using cmp pp by (simp add: besu_addLeaf_def)
  next
    case True
    obtain rw where c: "c = besu_of keccak ?es rw"
      using assms(5) by (auto simp: besu_adds_eq [OF assms(1,2,3)] bindE_eq_Inr)
    have "sorted_hashes (kvs @ [(k, v)])"
    proof -
      have "bytesLess (fst x) k" if "x \<in> set kvs" for x
        using that assms(2,3) True bytesLess_trans
        by (cases kvs rule: rev_cases) (auto simp: sorted_hashes_def sorted_wrt_append)
      then show ?thesis using assms(2,4) by (auto simp: sorted_hashes_def sorted_wrt_append)
    qed
    from wf_nibble_entries [OF this] have wf: "wf_entries 64 (?es @ [(BytesToNibbles k, v)])"
      by (simp add: nibble_entries_def)
    have "?es \<noteq> []" using assms(3) by (simp add: nibble_entries_def)
    note eq = besu_addLeaf_eq [OF assms(1) wf this, of keccak sink em rw]
    show ?thesis
      using True eq unfolding c
      by (auto simp: bindE_def split: sum.splits dest!: emitAll_sink_error)
  qed
qed

theorem besu_rejects_out_of_order_witness:
  "\<exists>c. foldE (\<lambda>(k, v). besu_addLeaf geth_rlp_model (\<lambda>x. []) (undefined :: (unit, unit) NodeSink) AccountTrieEmitter k v)
      [(replicate 32 3, [1])] (NewStreamingBuilder ()) = Inr c \<and>
    besu_addLeaf geth_rlp_model (\<lambda>x. []) (undefined :: (unit, unit) NodeSink) AccountTrieEmitter (replicate 32 3) [2] c =
      Inl ErrSlotsOutOfOrder"
proof -
  have "sorted_hashes [(replicate 32 3, [1])]" by (simp add: sorted_hashes_def)
  note reject = besu_rejects_out_of_order [OF geth_rlp_model_spec this]
  obtain c where c: "foldE (\<lambda>(k, v). besu_addLeaf geth_rlp_model (\<lambda>x. []) (undefined :: (unit, unit) NodeSink)
      AccountTrieEmitter k v) [(replicate 32 3, [1])] (NewStreamingBuilder ()) = Inr c"
    by (simp add: besu_addLeaf_def NewStreamingBuilder_def)
  have "besu_addLeaf geth_rlp_model (\<lambda>x. []) (undefined :: (unit, unit) NodeSink) AccountTrieEmitter (replicate 32 3) [2] c =
      Inl ErrSlotsOutOfOrder"
    by (rule reject [OF _ _ c, THEN iffD2]) simp_all
  then show ?thesis using c by blast
qed

end
