(* ===== verification/Reth_Format.thy ===== *)
theory Reth_Format
  imports Hash_Engine
begin

text \<open>
  Nodes and trie rows of reth, from \<open>internal/reth/hash_builder.go\<close> (the encoders at its end) and
  \<open>internal/reth/trie_format.go\<close>.  A panic is \<open>None\<close>.
\<close>

section \<open>Encoders of the hash builder\<close>

definition nibbleMask :: "byte \<Rightarrow> u16" where
  "nibbleMask nibble = push_bit (unat nibble) 1"

fun beLoop :: "nat \<Rightarrow> bytes \<Rightarrow> bytes" where
  "beLoop n buf = (if n > 0 then beLoop (n div 256) (of_nat n # buf) else buf)"

declare beLoop.simps [simp del]

definition bigEndianBytes :: "nat \<Rightarrow> bytes" where
  "bigEndianBytes n = (if n = 0 then [0] else beLoop n [])"

definition rlpLengthPrefix :: "nat \<Rightarrow> byte \<Rightarrow> bytes" where
  "rlpLengthPrefix len base =
     (if len \<le> 55 then [base + of_nat len]
      else let lenBytes = bigEndianBytes len in (base + 55 + of_nat (length lenBytes)) # lenBytes)"

definition reth_rlpEncodeBytes :: "bytes \<Rightarrow> bytes" where
  "reth_rlpEncodeBytes b =
     (if length b = 1 \<and> b ! 0 < 0x80 then [b ! 0] else rlpLengthPrefix (length b) 0x80 @ b)"

definition reth_rlpEncodeListRaw :: "bytes \<Rightarrow> bytes" where
  "reth_rlpEncodeListRaw payload = rlpLengthPrefix (length payload) 0xc0 @ payload"

definition rlpEncodeList :: "bytes list \<Rightarrow> bytes" where
  "rlpEncodeList items = reth_rlpEncodeListRaw (concat items)"

definition nibblesToCompact :: "bytes \<Rightarrow> bool \<Rightarrow> bytes" where
  "nibblesToCompact nibbles isLeaf =
     (let odd = length nibbles mod 2 \<noteq> 0;
          firstByte = (if isLeaf \<and> odd then 0x30 OR nibbles ! 0
                       else if isLeaf \<and> \<not> odd then 0x20
                       else if \<not> isLeaf \<and> odd then 0x10 OR nibbles ! 0
                       else 0x00);
          start = (if odd then 1 else 0)
      in firstByte # packNibbles (drop start nibbles))"

definition rlpNodeFromRLP :: "digest \<Rightarrow> bytes \<Rightarrow> bytes" where
  "rlpNodeFromRLP keccak rlp = (if length rlp < 32 then rlp else 0xa0 # keccak rlp)"

definition encodeLeafNode :: "bytes \<Rightarrow> bytes \<Rightarrow> bytes" where
  "encodeLeafNode shortKey val =
     rlpEncodeList [reth_rlpEncodeBytes (nibblesToCompact shortKey True), reth_rlpEncodeBytes val]"

definition encodeExtensionNode :: "bytes \<Rightarrow> bytes \<Rightarrow> bytes" where
  "encodeExtensionNode shortKey child =
     rlpEncodeList [reth_rlpEncodeBytes (nibblesToCompact shortKey False), child]"

definition encodeBranchNode :: "u16 \<Rightarrow> bytes list \<Rightarrow> bytes option" where
  "encodeBranchNode stateMask cs =
     map_option (\<lambda>items. reth_rlpEncodeListRaw (concat items @ [0x80])) (fillSlots stateMask [0..<16] cs)"

definition reth_enc :: "digest \<Rightarrow> hb_enc" where
  "reth_enc keccak =
     \<lparr>encLeafN = (\<lambda>p v. Some (encodeLeafNode p v)), encExtN = (\<lambda>p c. Some (encodeExtensionNode p c)),
      encBranchN = encodeBranchNode, refN = rlpNodeFromRLP keccak\<rparr>"

section \<open>Agreement with the reference encodings\<close>

lemma beLoop_eq: "beLoop n buf = minBEBytes n @ buf"
proof (induction n buf rule: beLoop.induct)
  case (1 n buf)
  then show ?case by (simp add: beLoop.simps [of n] minBEBytes.simps [of n])
qed

lemma rlpLengthPrefix_eq:
  "len > 55 \<Longrightarrow> rlpLengthPrefix len base = (base + 55 + of_nat (length (minBEBytes len))) # minBEBytes len"
  by (simp add: rlpLengthPrefix_def bigEndianBytes_def beLoop_eq Let_def)

lemma reth_rlpEncodeBytes_eq [simp]: "reth_rlpEncodeBytes b = rlpEncodeBytes b"
proof (cases "length b > 55")
  case True
  then show ?thesis by (auto simp: reth_rlpEncodeBytes_def rlpEncodeBytes_def rlpLengthPrefix_eq Let_def)
next
  case False
  then show ?thesis by (auto simp: reth_rlpEncodeBytes_def rlpEncodeBytes_def rlpLengthPrefix_def Let_def)
qed

lemma reth_rlpEncodeListRaw_eq [simp]: "reth_rlpEncodeListRaw p = rlpEncodeListRaw p"
proof (cases "length p > 55")
  case True
  then show ?thesis by (simp add: reth_rlpEncodeListRaw_def rlpEncodeListRaw_def rlpLengthPrefix_eq Let_def)
next
  case False
  then show ?thesis by (simp add: reth_rlpEncodeListRaw_def rlpEncodeListRaw_def rlpLengthPrefix_def Let_def)
qed

lemma nibblesToCompact_eq: "nibblesToCompact p leaf = appendCompact [] p leaf"
  by (cases "odd (length p)")
    (simp_all add: nibblesToCompact_def appendCompact_def Let_def odd_iff_mod_2_eq_one or_0x30)

lemma encodeLeafNode_eq: "encodeLeafNode r v = EncodeLeaf r v"
  by (simp add: encodeLeafNode_def rlpEncodeList_def nibblesToCompact_eq EncodeLeaf_def appendRLPBytes_eq)

lemma rlpNode_ref: "rlpNodeFromRLP = ref_bytes"
  by (simp add: fun_eq_iff rlpNodeFromRLP_def ref_bytes_def)

lemma encodeExtensionNode_eq: "encodeExtensionNode p (rlpNodeFromRLP keccak c) = EncodeExtension keccak p c"
  by (simp add: encodeExtensionNode_def rlpEncodeList_def nibblesToCompact_eq EncodeExtension_def
      appendRLPBytes_eq rlpNode_ref appendChildRefOf_ref)

lemma encodeBranchNode_eq:
  assumes "length cs = 16"
  shows "encodeBranchNode (usedOf cs) (map (\<lambda>t. rlpNodeFromRLP keccak (enc keccak t)) (present cs)) =
    Some (enc_branch keccak cs)"
  using fillSlots_present [OF assms]
  by (simp add: encodeBranchNode_def enc_branch_eq rlpNode_ref)

interpretation reth_hb: hb_encoders keccak "reth_enc keccak" "[]" for keccak
  by unfold_locales (simp_all add: reth_enc_def encodeLeafNode_eq encodeExtensionNode_eq encodeBranchNode_eq)

end
