(* ===== verification/Popcount.thy ===== *)
theory Popcount
  imports Hash_Engine
begin

text \<open>
  The branch-free population count of \<open>internal/reth/trie_format.go\<close>, and that it counts like the
  loop of besu.  Both bytes of the word go through the same steps side by side, so the steps are
  compared on each byte, where there are few enough cases to compute.
\<close>

definition reth_popcount16 :: "u16 \<Rightarrow> nat" where
  "reth_popcount16 v =
     (let v = v - (drop_bit 1 v AND 0x5555);
          v = (v AND 0x3333) + (drop_bit 2 v AND 0x3333);
          v = (v + drop_bit 4 v) AND 0x0f0f
      in unat (drop_bit 8 (v * 0x0101)))"

lemma bit_two_bytes:
  assumes "a < 256"
  shows "bit (a + 256 * b :: nat) n \<longleftrightarrow> (if n < 8 then bit a n else bit b (n - 8))"
proof (cases "n < 8")
  case True
  define k where "k = 8 - Suc n"
  have e: "(256 :: nat) = 2 ^ n * (2 * 2 ^ k)" using True by (simp add: k_def flip: power_add power_Suc)
  have "(a + 256 * b) div 2 ^ n = (a + 2 ^ n * (2 * 2 ^ k * b)) div 2 ^ n" unfolding e by (simp only: mult.assoc)
  also have "\<dots> = 2 * 2 ^ k * b + a div 2 ^ n" by (rule div_mult_self2) simp
  finally show ?thesis using True by (simp add: bit_iff_odd)
next
  case False
  then have "(2 :: nat) ^ n = 2 ^ (8 + (n - 8))" by simp
  then have "(2 :: nat) ^ n = 256 * 2 ^ (n - 8)" unfolding power_add by simp
  then have "(a + 256 * b) div 2 ^ n = b div 2 ^ (n - 8)" using assms by (simp add: div_mult2_eq)
  then show ?thesis using False by (simp add: bit_iff_odd)
qed

lemma and_two_bytes:
  assumes "a < 256" "c < 256"
  shows "(a + 256 * b) AND (c + 256 * d) = (a AND c) + 256 * (b AND d :: nat)"
proof (rule bit_eqI)
  have "take_bit 8 a = a" using assms by (simp add: take_bit_nat_eq_self)
  then have "take_bit 8 (a AND c) = a AND c" by (metis take_bit_and and.left_commute and.commute take_bit_eq_mask and.assoc)
  then have "a AND c < 2 ^ 8" by (metis take_bit_nat_less_exp)
  then have "a AND c < 256" by simp
  then show "bit ((a + 256 * b) AND (c + 256 * d)) n \<longleftrightarrow> bit ((a AND c) + 256 * (b AND d)) n" for n
    using assms by (simp add: bit_and_iff bit_two_bytes)
qed

text \<open>The steps on one byte.\<close>

definition pop1 :: "nat \<Rightarrow> nat" where "pop1 a = a - (a div 2 AND 0x55)"
definition pop2 :: "nat \<Rightarrow> nat" where "pop2 a = (pop1 a AND 0x33) + (pop1 a div 4 AND 0x33)"
definition pop3 :: "nat \<Rightarrow> nat" where "pop3 a = (pop2 a + pop2 a div 16) AND 0x0f"

lemma less_cases: "a < n \<Longrightarrow> a = 0 \<or> a = 1 \<or> a \<in> set [2..<n]" for a n :: nat
  by auto

lemma pop_bytes_all:
  "list_all (\<lambda>a. a div 2 AND 0x55 \<le> a \<and> pop1 a < 256 \<and> pop2 a \<le> 68 \<and> pop2 a mod 16 \<le> 4 \<and>
    pop3 a = length (filter (bit a) [0, 1, 2, 3, 4, 5, 6, 7])) [2..<256]"
  by (simp add: pop1_def pop2_def pop3_def bit_0) (simp flip: numeral_2_eq_2 numeral_3_eq_3)

lemma and_carry_all:
  "list_all (\<lambda>x. list_all (\<lambda>y. (x + 128 * y) AND 0x55 = x AND (0x55 :: nat)) [0, 1]) [2..<128]"
  "list_all (\<lambda>x. list_all (\<lambda>y. (x + 64 * y) AND 0x33 = x AND (0x33 :: nat)) [0, 1, 2, 3]) [2..<64]"
  by simp_all

lemma upt_8: "[0..<8] = [0, 1, 2, 3, 4, 5, 6, 7 :: nat]"
  by (simp add: upt_rec)

lemma pop_bytes:
  assumes "a < 256"
  shows "a div 2 AND 0x55 \<le> a \<and> pop1 a < 256 \<and> pop2 a \<le> 68 \<and> pop2 a mod 16 \<le> 4 \<and>
    pop3 a = length (filter (bit a) [0..<8])"
  using less_cases [OF assms] unfolding upt_8
proof (elim disjE)
  assume "a \<in> set [2..<256]"
  then show "a div 2 AND 0x55 \<le> a \<and> pop1 a < 256 \<and> pop2 a \<le> 68 \<and> pop2 a mod 16 \<le> 4 \<and>
      pop3 a = length (filter (bit a) [0, 1, 2, 3, 4, 5, 6, 7])"
    by (rule pop_bytes_all [unfolded list_all_iff, THEN bspec])
qed (simp_all add: pop1_def pop2_def pop3_def bit_0)

lemma and_carry:
  "x < 128 \<Longrightarrow> y < 2 \<Longrightarrow> (x + 128 * y) AND 0x55 = x AND (0x55 :: nat)"
  "x < 64 \<Longrightarrow> z < 4 \<Longrightarrow> (x + 64 * z) AND 0x33 = x AND (0x33 :: nat)"
proof -
  have y: "y < 2 \<Longrightarrow> y \<in> set [0, 1]" "z < 4 \<Longrightarrow> z \<in> set [0, 1, 2, 3]" by auto
  show "(x + 128 * y) AND 0x55 = x AND (0x55 :: nat)" if "x < 128" "y < 2"
    using less_cases [OF that(1)]
  proof (elim disjE)
    assume "x \<in> set [2..<128]"
    then show ?thesis
      using y(1) [OF that(2)] by (rule and_carry_all(1) [unfolded list_all_iff, THEN bspec, THEN bspec])
  qed (use y(1) [OF that(2)] in auto)
  show "(x + 64 * z) AND 0x33 = x AND (0x33 :: nat)" if "x < 64" "z < 4"
    using less_cases [OF that(1)]
  proof (elim disjE)
    assume "x \<in> set [2..<64]"
    then show ?thesis
      using y(2) [OF that(2)] by (rule and_carry_all(2) [unfolded list_all_iff, THEN bspec, THEN bspec])
  qed (use y(2) [OF that(2)] in auto)
qed

lemma shifts:
  "(x + 256 * y) div 2 = (x div 2 + 128 * (y mod 2)) + 256 * (y div 2 :: nat)"
  "(x + 256 * y) div 4 = (x div 4 + 64 * (y mod 4)) + 256 * (y div 4 :: nat)"
  "(x + 256 * y) div 16 = (x div 16 + 16 * (y mod 16)) + 256 * (y div 16 :: nat)"
proof -
  have "(x + 2 * (128 * y)) div 2 = 128 * y + x div 2" "(x + 4 * (64 * y)) div 4 = 64 * y + x div 4"
    "(x + 16 * (16 * y)) div 16 = 16 * y + x div 16" by (rule div_mult_self2, simp)+
  then have e: "(x + 256 * y) div 2 = 128 * y + x div 2" "(x + 256 * y) div 4 = 64 * y + x div 4"
    "(x + 256 * y) div 16 = 16 * y + x div 16" by simp_all
  show "(x + 256 * y) div 2 = (x div 2 + 128 * (y mod 2)) + 256 * (y div 2)"
    unfolding e(1) using mod_mult_div_eq [of y 2] by linarith
  show "(x + 256 * y) div 4 = (x div 4 + 64 * (y mod 4)) + 256 * (y div 4)"
    unfolding e(2) using mod_mult_div_eq [of y 4] by linarith
  show "(x + 256 * y) div 16 = (x div 16 + 16 * (y mod 16)) + 256 * (y div 16)"
    unfolding e(3) using mod_mult_div_eq [of y 16] by linarith
qed

lemma and_byte_15: "x AND 0x0f = x mod (16 :: nat)"
  using take_bit_eq_mask [of 4 x] by (simp add: take_bit_nat_def mask_eq_exp_minus_1)

lemma step1:
  assumes "a < 256" "b < 256"
  shows "(a + 256 * b) - ((a + 256 * b) div 2 AND 0x5555) = pop1 a + 256 * pop1 b"
    and "(a + 256 * b) div 2 AND 0x5555 \<le> a + 256 * b"
proof -
  have "(a + 256 * b) div 2 AND (0x55 + 256 * 0x55) = (a div 2 + 128 * (b mod 2) AND 0x55) + 256 * (b div 2 AND 0x55)"
    unfolding shifts(1) using assms(1) by (intro and_two_bytes) simp_all
  also have "a div 2 + 128 * (b mod 2) AND 0x55 = a div 2 AND 0x55" using assms(1) by (intro and_carry(1)) simp_all
  finally have e: "(a + 256 * b) div 2 AND 0x5555 = (a div 2 AND 0x55) + 256 * (b div 2 AND 0x55)" by simp
  have "a div 2 AND 0x55 \<le> a" "b div 2 AND 0x55 \<le> b" using pop_bytes [OF assms(1)] pop_bytes [OF assms(2)] by simp_all
  then show "(a + 256 * b) - ((a + 256 * b) div 2 AND 0x5555) = pop1 a + 256 * pop1 b"
    "(a + 256 * b) div 2 AND 0x5555 \<le> a + 256 * b" unfolding e pop1_def by linarith+
qed

lemma step2:
  assumes "c < 256"
  shows "(c + 256 * d AND 0x3333) + ((c + 256 * d) div 4 AND 0x3333) =
    ((c AND 0x33) + (c div 4 AND 0x33)) + 256 * ((d AND 0x33) + (d div 4 AND (0x33 :: nat)))"
proof -
  have "(c + 256 * d) div 4 AND (0x33 + 256 * 0x33) = (c div 4 + 64 * (d mod 4) AND 0x33) + 256 * (d div 4 AND 0x33)"
    unfolding shifts(2) using assms by (intro and_two_bytes) simp_all
  moreover have "c div 4 + 64 * (d mod 4) AND 0x33 = c div 4 AND 0x33" using assms by (intro and_carry(2)) simp_all
  moreover have "c + 256 * d AND (0x33 + 256 * 0x33) = (c AND 0x33) + 256 * (d AND 0x33)"
    using assms by (intro and_two_bytes) simp_all
  ultimately show ?thesis by (simp add: distrib_left)
qed

lemma step3:
  assumes "c \<le> 68" "d mod 16 \<le> 4"
  shows "((c + 256 * d) + (c + 256 * d) div 16) AND 0x0f0f =
    ((c + c div 16) AND 0x0f) + 256 * ((d + d div 16) AND (0x0f :: nat))"
proof -
  have e: "(c + 256 * d) + (c + 256 * d) div 16 = (c + c div 16 + 16 * (d mod 16)) + 256 * (d + d div 16)"
    unfolding shifts(3) by simp
  have "c + c div 16 + 16 * (d mod 16) < 256" using assms by linarith
  then have "((c + 256 * d) + (c + 256 * d) div 16) AND (0x0f + 256 * 0x0f) =
      (c + c div 16 + 16 * (d mod 16) AND 0x0f) + 256 * ((d + d div 16) AND 0x0f)"
    unfolding e by (intro and_two_bytes) simp_all
  then show ?thesis by (simp add: and_byte_15)
qed

lemma two_bytes:
  assumes "a < 256" "b < 256" "v1 = (a + 256 * b) - ((a + 256 * b) div 2 AND 0x5555)"
    and "v2 = (v1 AND 0x3333) + (v1 div 4 AND 0x3333)"
  shows "(v2 + v2 div 16) AND 0x0f0f = pop3 a + 256 * pop3 b" "v2 \<le> 68 + 256 * 68"
proof -
  note pa = pop_bytes [OF assms(1)] and pb = pop_bytes [OF assms(2)]
  have v1: "v1 = pop1 a + 256 * pop1 b" using step1(1) [OF assms(1,2)] assms(3) by simp
  then have v2: "v2 = pop2 a + 256 * pop2 b" using step2 [of "pop1 a" "pop1 b"] pa assms(4) by (simp add: pop2_def)
  then show "(v2 + v2 div 16) AND 0x0f0f = pop3 a + 256 * pop3 b"
    using step3 [of "pop2 a" "pop2 b"] pa pb by (simp add: pop3_def)
  show "v2 \<le> 68 + 256 * 68" using v2 pa pb by linarith
qed

section \<open>Equivalence\<close>

lemma reth_popcount16_bits: "reth_popcount16 v = length (filter (bit v) [0..<16])"
proof -
  define a b where "a = unat v mod 256" and "b = unat v div 256"
  have ab: "a < 256" "b < 256" "unat v = a + 256 * b"
    using unsigned_less [of v, where ?'a = nat] by (simp_all add: a_def b_def less_mult_imp_div_less)
  note pa = pop_bytes [OF ab(1)] and pb = pop_bytes [OF ab(2)]
  have bits: "bit v n \<longleftrightarrow> (if n < 8 then bit a n else bit b (n - 8))" if "n < 16" for n
    using that bit_two_bytes [OF ab(1), of b n] by (simp add: ab(3) [symmetric] bit_unsigned_iff)
  have "length (filter (bit v) [0..<16]) = length (filter (bit v) [0..<8]) + length (filter (bit v) [8..<16])"
    by (metis filter_append length_append le_add2 numeral_Bit0 upt_add_eq_append zero_le)
  also have "filter (bit v) [0..<8] = filter (bit a) [0..<8]" by (rule filter_cong) (auto simp: bits)
  also have "[8..<16] = map (\<lambda>n. n + 8) [0..<8]" by (simp add: map_add_upt)
  also have "length (filter (bit v) (map (\<lambda>n. n + 8) [0..<8])) = length (filter (bit b) [0..<8])"
    unfolding filter_map length_map by (rule arg_cong [of _ _ length], rule filter_cong) (auto simp: bits)
  finally have count: "length (filter (bit v) [0..<16]) = pop3 a + pop3 b" using pa pb by simp
  define v1 v2 v3 where "v1 = v - (drop_bit 1 v AND 0x5555)"
    and "v2 = (v1 AND 0x3333) + (drop_bit 2 v1 AND 0x3333)" and "v3 = (v2 + drop_bit 4 v2) AND 0x0f0f"
  have sh: "unat (drop_bit k w) = unat w div 2 ^ k" for k and w :: u16
    by (simp only: unat_drop_bit_eq) (simp add: drop_bit_nat_def)
  have nd: "unat (w AND x) = unat w AND unat x" for w x :: u16 by (rule unsigned_and_eq)
  have add: "unat (w + x) = unat w + unat x" if "unat w + unat x < 65536" for w x :: u16
    using that by (simp add: unat_word_ariths)
  have n1: "unat (drop_bit 1 v AND 0x5555) = unat v div 2 AND 0x5555"
    using sh [of 1 v] by (simp only: nd power_one_right) simp
  have "unat v div 2 AND 0x5555 \<le> unat v"
    unfolding ab(3) by (rule step1(2) [OF ab(1,2)])
  then have u1: "unat v1 = unat v - (unat v div 2 AND 0x5555)"
    unfolding v1_def n1 [symmetric] by (simp add: unat_sub word_le_nat_alt)
  note tb = two_bytes [OF ab(1,2) u1 [unfolded ab(3)] refl]
  have n2: "unat (v1 AND 0x3333) = unat v1 AND 0x3333" "unat (drop_bit 2 v1 AND 0x3333) = unat v1 div 4 AND 0x3333"
    using sh [of 2 v1] by (simp_all only: nd) simp_all
  have u2: "unat v2 = (unat v1 AND 0x3333) + (unat v1 div 4 AND 0x3333)"
  proof -
    have "unat (v1 AND 0x3333) + unat (drop_bit 2 v1 AND 0x3333) < 65536" unfolding n2 using tb(2) by linarith
    from add [OF this] show ?thesis unfolding v2_def n2 .
  qed
  have n3: "unat (drop_bit 4 v2) = unat v2 div 16" using sh [of 4 v2] by simp
  have "unat v2 + unat (drop_bit 4 v2) < 65536" using tb(2) unfolding u2 [symmetric] n3 by linarith
  from add [OF this] have "unat v3 = (unat v2 + unat v2 div 16) AND unat (0x0f0f :: u16)"
    unfolding v3_def nd n3 by simp
  then have u3: "unat v3 = pop3 a + 256 * pop3 b" using tb(1) unfolding u2 [symmetric] by simp
  have le: "pop3 x \<le> 15" for x by (simp add: pop3_def and_byte_15)
  have "unat (v3 * 0x0101) = (unat v3 * 257) mod 65536" by (simp add: unat_word_ariths)
  also have "unat v3 * 257 = (pop3 a + 256 * (pop3 a + pop3 b)) + 65536 * pop3 b" unfolding u3 by simp
  also have "\<dots> mod 65536 = (pop3 a + 256 * (pop3 a + pop3 b)) mod 65536" by (rule mod_mult_self2)
  also have "\<dots> = pop3 a + 256 * (pop3 a + pop3 b)" 
    using le [of a] le [of b] mult_le_mono2 [of "pop3 a + pop3 b" 30 256] by (intro mod_less) simp
  finally have "unat (drop_bit 8 (v3 * 0x0101)) = pop3 a + pop3 b" using le [of a] sh [of 8 "v3 * 0x0101"] by simp
  then show ?thesis unfolding count reth_popcount16_def Let_def v3_def v2_def v1_def .
qed

text \<open>The branch-free population count of reth's rows and the counting loop of besu agree on every word.\<close>

theorem popcounts_agree: "reth_popcount16 v = popcount16 v"
proof -
  have "unat v < 2 ^ 16" using unsigned_less [of v, where ?'a = nat] by simp
  from popcount16_filter [OF this] show ?thesis unfolding reth_popcount16_bits by (rule sym)
qed

lemma reth_popcount16_eq: "reth_popcount16 v = popcount16 v"
proof -
  have "unat v < 2 ^ 16" using unsigned_less [of v, where ?'a = nat] by simp
  from popcount16_filter [OF this] show ?thesis unfolding reth_popcount16_bits by (rule sym)
qed

end
