(* ===== verification/Reth_Rows.thy ===== *)
theory Reth_Rows
  imports Popcount "HOL-Library.Monad_Syntax"
begin

text \<open>
  The rows of reth's \<open>AccountsTrie\<close> and \<open>StoragesTrie\<close> tables, from \<open>internal/reth/trie_format.go\<close>.
  A Go array \<open>[n]byte\<close> is a list of that length, a pointer that may be \<open>nil\<close> an option, and a panic
  is \<open>None\<close>.  An encoder appends to the buffer it is given.
\<close>

section \<open>Keys\<close>

record StoredNibbles =
  sn_Length :: byte
  sn_Nibbles :: bytes

text \<open>\<open>copy(dst[:], src)\<close> into a fresh array of \<open>n\<close> bytes.\<close>

definition copyInto :: "nat \<Rightarrow> bytes \<Rightarrow> bytes" where
  "copyInto n src = take n src @ replicate (n - length src) 0"

definition nibblestoStoredNibbles :: "bytes \<Rightarrow> StoredNibbles" where
  "nibblestoStoredNibbles nibbles =
     \<lparr>sn_Length = of_nat (length nibbles), sn_Nibbles = copyInto 64 nibbles\<rparr>"

definition EncodeKey :: "StoredNibbles \<Rightarrow> bytes \<Rightarrow> bytes" where
  "EncodeKey s buf = buf @ sn_Nibbles s @ [sn_Length s]"

definition DecodeKey :: "bytes \<Rightarrow> StoredNibbles option" where
  "DecodeKey b =
     (if length b < 65 then None else Some \<lparr>sn_Length = b ! 64, sn_Nibbles = take 64 b\<rparr>)"

definition packPairs :: "bytes \<Rightarrow> nat \<Rightarrow> bytes \<Rightarrow> bytes" where
  "packPairs nibbles pairs out =
     fold (\<lambda>i out. out[i := push_bit 4 (nibbles ! (2 * i)) OR nibbles ! (2 * i + 1)]) [0..<pairs] out"

definition EncodePackedAccountKey :: "StoredNibbles \<Rightarrow> bytes \<Rightarrow> bytes option" where
  "EncodePackedAccountKey s buf =
     (if unat (sn_Length s) > 64 then None
      else
        let n = unat (sn_Length s);
            pairs = n div 2;
            out = packPairs (sn_Nibbles s) pairs (replicate 33 0);
            out = (if n mod 2 = 1 then out[pairs := push_bit 4 (sn_Nibbles s ! (2 * pairs))] else out);
            out = out[32 := sn_Length s]
        in Some (buf @ out))"

section \<open>Branch rows\<close>

record BranchNodeCompact =
  StateMask :: u16
  TreeMask :: u16
  HashMask :: u16
  Hashes :: "bytes list"
  RootHash :: "bytes option"

definition writeBEU16 :: "bytes \<Rightarrow> u16 \<Rightarrow> bytes" where
  "writeBEU16 buf v = buf @ [ucast (drop_bit 8 v), ucast v]"

definition readBEU16 :: "bytes \<Rightarrow> u16 option" where
  "readBEU16 b =
     (case b of x # y # _ \<Rightarrow> Some (push_bit 8 (ucast x) OR ucast y) | _ \<Rightarrow> None)"

text \<open>The result is the buffer and the number of bytes written.\<close>

definition EncodeCompact :: "BranchNodeCompact \<Rightarrow> bytes \<Rightarrow> (bytes \<times> nat) option" where
  "EncodeCompact b buf =
     (if reth_popcount16 (HashMask b) \<noteq> length (Hashes b) then None
      else if TreeMask b AND NOT (StateMask b) \<noteq> 0 \<or> HashMask b AND NOT (StateMask b) \<noteq> 0 then None
      else
        let buf = writeBEU16 (writeBEU16 (writeBEU16 buf (StateMask b)) (TreeMask b)) (HashMask b);
            (buf, written) = (case RootHash b of None \<Rightarrow> (buf, 6) | Some h \<Rightarrow> (buf @ copyInto 32 h, 6 + 32))
        in Some (foldl (\<lambda>(buf, written) h. (buf @ copyInto 32 h, written + 32)) (buf, written) (Hashes b)))"

text \<open>\<open>data[cursor:cursor+32]\<close>, which panics beyond the end.\<close>

definition hashAt :: "bytes \<Rightarrow> nat \<Rightarrow> bytes option" where
  "hashAt data cursor =
     (if cursor + 32 \<le> length data then Some (subslice cursor (cursor + 32) data) else None)"

fun readHashes :: "bytes \<Rightarrow> nat \<Rightarrow> nat \<Rightarrow> (bytes list \<times> nat) option" where
  "readHashes data cursor 0 = Some ([], cursor)"
| "readHashes data cursor (Suc count) =
     do {
       h \<leftarrow> hashAt data cursor;
       (hs, cursor) \<leftarrow> readHashes data (cursor + 32) count;
       Some (h # hs, cursor)
     }"

definition DecodeCompact :: "bytes \<Rightarrow> nat \<Rightarrow> (BranchNodeCompact \<times> nat) option" where
  "DecodeCompact data totalLen =
     (if totalLen < 6 then None
      else do {
        stateMask \<leftarrow> readBEU16 data;
        treeMask \<leftarrow> readBEU16 (drop 2 data);
        hashMask \<leftarrow> readBEU16 (drop 4 data);
        let remaining = totalLen - 6;
        if remaining mod 32 \<noteq> 0 then None
        else do {
          let numHashes = remaining div 32;
          let count = reth_popcount16 hashMask;
          (rootHash, cursor, numHashes) \<leftarrow>
            (if numHashes = count + 1 then map_option (\<lambda>h. (Some h, 6 + 32, numHashes - 1)) (hashAt data 6)
             else Some (None, 6, numHashes));
          if numHashes \<noteq> count then None
          else do {
            (hs, cursor) \<leftarrow> readHashes data cursor count;
            if cursor \<noteq> totalLen then None
            else Some (\<lparr>StateMask = stateMask, TreeMask = treeMask, HashMask = hashMask, Hashes = hs,
              RootHash = rootHash\<rparr>, cursor)
          }
        }
      })"

record StorageTrieEntry =
  SubKey :: StoredNibbles
  Node :: BranchNodeCompact

definition EncodePackedCompact :: "StorageTrieEntry \<Rightarrow> bytes \<Rightarrow> (bytes \<times> nat) option" where
  "EncodePackedCompact e buf =
     (if unat (sn_Length (SubKey e)) > 64 then None
      else
        let n = unat (sn_Length (SubKey e));
            pairs = n div 2;
            out = packPairs (sn_Nibbles (SubKey e)) pairs (replicate 33 0);
            out = (if n mod 2 = 1 then out[pairs := push_bit 4 (sn_Nibbles (SubKey e) ! (2 * pairs))] else out);
            out = out[32 := sn_Length (SubKey e)]
        in map_option (\<lambda>(buf, written). (buf, 33 + written)) (EncodeCompact (Node e) (buf @ out)))"

section \<open>Round trips\<close>

definition bnc_ok :: "BranchNodeCompact \<Rightarrow> bool" where
  "bnc_ok b \<longleftrightarrow> length (Hashes b) = popcount16 (HashMask b) \<and>
     TreeMask b AND NOT (StateMask b) = 0 \<and> HashMask b AND NOT (StateMask b) = 0 \<and>
     (\<forall>h \<in> set (Hashes b). length h = 32) \<and> (\<forall>h. RootHash b = Some h \<longrightarrow> length h = 32)"

lemma copyInto_exact [simp]: "length h = n \<Longrightarrow> copyInto n h = h"
  by (simp add: copyInto_def)

lemma BEU16_roundtrip: "push_bit 8 (ucast (ucast (drop_bit 8 v) :: byte)) OR ucast (ucast v :: byte) = (v :: u16)"
proof (rule bit_word_eqI)
  fix n
  assume "n < LENGTH(16)"
  then show "bit (push_bit 8 (ucast (ucast (drop_bit 8 v) :: byte)) OR ucast (ucast v :: byte) :: u16) n \<longleftrightarrow> bit v n"
    by (auto simp: bit_or_iff bit_push_bit_iff bit_ucast_iff bit_drop_bit_eq bit_unsigned_iff not_less)
qed

lemma readHashes_concat:
  assumes "\<forall>h \<in> set hs. length h = 32"
  shows "readHashes (pre @ concat hs @ post) (length pre) (length hs) = Some (hs, length pre + 32 * length hs)"
  using assms
proof (induction hs arbitrary: pre)
  case (Cons h hs)
  then have "length pre + 32 = length (pre @ h)" by simp
  then show ?case
    using Cons.prems Cons.IH [of "pre @ h"] by (simp add: hashAt_def subslice_def)
qed simp

lemma EncodeCompact_eq:
  assumes "bnc_ok b"
  shows "EncodeCompact b buf =
    (let out = writeBEU16 (writeBEU16 (writeBEU16 [] (StateMask b)) (TreeMask b)) (HashMask b) @
        (case RootHash b of None \<Rightarrow> [] | Some h \<Rightarrow> h) @ concat (Hashes b)
     in Some (buf @ out, length out))"
proof -
  have f: "foldl (\<lambda>(buf, written) h. (buf @ copyInto 32 h, written + 32)) (buf, n) hs =
      (buf @ concat hs, n + length (concat hs))" if "\<forall>h \<in> set hs. length h = 32" for hs buf n
    using that by (induction hs arbitrary: buf n) simp_all
  show ?thesis
    using assms by (auto simp: EncodeCompact_def bnc_ok_def reth_popcount16_eq writeBEU16_def Let_def f split: option.splits)
qed

lemma DecodeCompact_eq:
  assumes "bnc_ok b"
    and out: "out = writeBEU16 (writeBEU16 (writeBEU16 [] (StateMask b)) (TreeMask b)) (HashMask b) @
        (case RootHash b of None \<Rightarrow> [] | Some h \<Rightarrow> h) @ concat (Hashes b)"
  shows "DecodeCompact (out @ rest) (length out) = Some (b, length out)"
proof -
  let ?m = "writeBEU16 (writeBEU16 (writeBEU16 [] (StateMask b)) (TreeMask b)) (HashMask b)"
  have hs: "\<forall>h \<in> set (Hashes b). length h = 32" "length (Hashes b) = popcount16 (HashMask b)"
    using assms(1) by (simp_all add: bnc_ok_def)
  have lc: "length (concat xs) = 32 * length xs" if "\<forall>x \<in> set xs. length x = 32" for xs :: "bytes list"
    using that by (induction xs) simp_all
  have m: "length ?m = 6" by (simp add: writeBEU16_def)
  define data where "data = out @ rest"
  have dm: "data = ?m @ (case RootHash b of None \<Rightarrow> [] | Some h \<Rightarrow> h) @ concat (Hashes b) @ rest"
    by (simp add: data_def out)
  have r: "readBEU16 data = Some (StateMask b)" "readBEU16 (drop 2 data) = Some (TreeMask b)"
    "readBEU16 (drop 4 data) = Some (HashMask b)"
    unfolding dm by (simp_all add: writeBEU16_def readBEU16_def BEU16_roundtrip)
  show ?thesis
  proof (cases "RootHash b")
    case None
    then have o: "length out = 6 + 32 * popcount16 (HashMask b)"
      using out m lc [OF hs(1)] hs(2) by simp
    have "readHashes data 6 (popcount16 (HashMask b)) = Some (Hashes b, 6 + 32 * popcount16 (HashMask b))"
      using readHashes_concat [OF hs(1), of ?m rest] None by (simp add: dm m hs(2))
    then show ?thesis
      using None by (simp add: DecodeCompact_def o reth_popcount16_eq Let_def r flip: data_def)
  next
    case (Some h)
    then have h: "length h = 32" using assms(1) by (simp add: bnc_ok_def)
    then have o: "length out = 38 + 32 * popcount16 (HashMask b)"
      using out m lc [OF hs(1)] hs(2) Some by simp
    have at: "hashAt data 6 = Some h"
      using m h Some by (simp add: dm hashAt_def subslice_def)
    have d: "(32 + 32 * n) div 32 = Suc n" "(32 + 32 * n) mod 32 = 0" for n :: nat by simp_all
    have "readHashes data 38 (popcount16 (HashMask b)) = Some (Hashes b, 38 + 32 * popcount16 (HashMask b))"
      using readHashes_concat [OF hs(1), of "?m @ h" rest] Some h by (simp add: dm m hs(2))
    then show ?thesis
      using Some by (simp add: DecodeCompact_def o reth_popcount16_eq Let_def r at d flip: data_def)
  qed
qed

section \<open>Keys keep the order of the paths\<close>

definition packedKey :: "bytes \<Rightarrow> bytes" where
  "packedKey p = packNibbles (copyInto 64 p) @ [of_nat (length p)]"

lemma length_packPairs [simp]: "length (packPairs ns k out) = length out"
  by (induction k) (simp_all add: packPairs_def)

lemma packPairs_nth:
  "i < length out \<Longrightarrow>
    packPairs ns k out ! i = (if i < k then push_bit 4 (ns ! (2 * i)) OR ns ! (2 * i + 1) else out ! i)"
proof (induction k)
  case (Suc k)
  have "packPairs ns (Suc k) out = (packPairs ns k out)[k := push_bit 4 (ns ! (2 * k)) OR ns ! (2 * k + 1)]"
    by (simp add: packPairs_def)
  then show ?case using Suc by (auto simp: nth_list_update less_Suc_eq)
qed (simp add: packPairs_def)

lemma pack_length: "length (packNibbles xs) = length xs div 2"
  by (induction xs rule: packNibbles.induct) auto

lemma packNibbles_nth:
  "2 * i + 1 < length xs \<Longrightarrow> packNibbles xs ! i = push_bit 4 (xs ! (2 * i)) OR xs ! (2 * i + 1)"
proof (induction xs arbitrary: i rule: packNibbles.induct)
  case (1 x y r)
  then show ?case by (cases i) auto
qed auto

lemma length_copyInto [simp]: "length (copyInto n p) = n"
  by (simp add: copyInto_def)

lemma copyInto_nth: "i < n \<Longrightarrow> copyInto n p ! i = (if i < length p then p ! i else 0)"
  by (simp add: copyInto_def nth_append)

lemma EncodePackedAccountKey_eq:
  assumes "length p \<le> 64"
  shows "EncodePackedAccountKey (nibblestoStoredNibbles p) buf = Some (buf @ packedKey p)"
proof -
  let ?N = "copyInto 64 p" and ?pairs = "length p div 2"
  have n: "unat (of_nat (length p) :: byte) = length p" using assms by (simp add: unat_of_nat)
  define out where "out = packPairs ?N ?pairs (replicate 33 0)"
  define out' where "out' = (if length p mod 2 = 1 then out[?pairs := push_bit 4 (?N ! (2 * ?pairs))] else out)"
  have l: "length out = 33" "length out' = 33" by (simp_all add: out_def out'_def)
  have "out'[32 := of_nat (length p)] ! i = packedKey p ! i" if "i < 33" for i
  proof (cases "i = 32")
    case True
    then show ?thesis using l by (simp add: packedKey_def nth_append pack_length)
  next
    case False
    then have i: "i < 32" using that by simp
    then have k: "packedKey p ! i = push_bit 4 (?N ! (2 * i)) OR ?N ! (2 * i + 1)"
      by (simp add: packedKey_def nth_append pack_length packNibbles_nth)
    have o: "out ! i = (if i < ?pairs then push_bit 4 (?N ! (2 * i)) OR ?N ! (2 * i + 1) else 0)"
      using i by (simp add: out_def packPairs_nth)
    have "?N ! (2 * i + 1) = 0" if "?pairs \<le> i" using that i by (subst copyInto_nth) auto
    moreover have "?N ! (2 * i) = 0" if "?pairs \<le> i" "length p mod 2 = 1 \<longrightarrow> i \<noteq> ?pairs"
    proof -
      have "length p \<le> 2 * i"
        using that mod_mult_div_eq [of "length p" 2] mod_less_divisor [of 2 "length p"]
        by (cases "length p mod 2 = 1") linarith+
      then show ?thesis using i by (subst copyInto_nth) auto
    qed
    ultimately show ?thesis using i l k o by (auto simp: out'_def nth_list_update)
  qed
  then have "out'[32 := of_nat (length p)] = packedKey p"
    using l by (intro nth_equalityI) (simp_all add: packedKey_def pack_length)
  then show ?thesis
    using assms n unfolding out'_def out_def
    by (simp add: EncodePackedAccountKey_def nibblestoStoredNibbles_def Let_def split: if_splits)
qed

lemma bytesLess_zeros: "bytesLess (replicate n 0) xs \<or> replicate n 0 = xs" if "length xs = n"
  using that
proof (induction xs arbitrary: n)
  case (Cons x xs)
  then show ?case by (cases "x = 0") (auto simp: bytesLess_Cons word_gt_0)
qed simp

lemma bytesLess_copyInto:
  assumes "length p \<le> n" "length q \<le> n"
  shows "bytesLess p q \<longleftrightarrow>
    bytesLess (copyInto n p) (copyInto n q) \<or> copyInto n p = copyInto n q \<and> length p < length q"
  using assms
proof (induction p q arbitrary: n rule: bytesCompare.induct)
  case (2 y ys)
  then show ?case using bytesLess_zeros [of "copyInto n (y # ys)" n] by (simp add: copyInto_def)
next
  case (3 x xs)
  have "\<not> bytesLess (copyInto n (x # xs)) (replicate n 0)"
    using bytesLess_zeros [of "copyInto n (x # xs)" n] by (metis bytesLess_irrefl bytesLess_trans length_copyInto)
  then show ?case by (simp add: copyInto_def)
next
  case (4 x xs y ys)
  then obtain m where n: "n = Suc m" by (cases n) auto
  have c: "copyInto (Suc m) (x # xs) = x # copyInto m xs" for x xs by (simp add: copyInto_def)
  show ?case
    using 4 by (auto simp: bytesLess_Cons c n)
qed simp

lemma bytesLess_snoc:
  assumes "length xs = length ys"
  shows "bytesLess (xs @ [a]) (ys @ [b]) \<longleftrightarrow> bytesLess xs ys \<or> xs = ys \<and> a < b"
  using assms by (induction xs ys rule: list_induct2) (auto simp: bytesLess_Cons)

lemma BytesToNibbles_pack:
  "even (length p) \<Longrightarrow> list_all is_nibble p \<Longrightarrow> BytesToNibbles (packNibbles p) = p"
  by (induction p rule: packNibbles.induct) (simp_all add: high_join low_join del: drop_bit_or)

lemma bytesLess_packedKey:
  assumes "length p \<le> 64" "length q \<le> 64" "list_all is_nibble p" "list_all is_nibble q"
  shows "bytesLess (packedKey p) (packedKey q) \<longleftrightarrow> bytesLess p q"
proof -
  have n: "list_all is_nibble (copyInto 64 r)" if "list_all is_nibble r" for r
    using that by (auto simp: copyInto_def list_all_iff is_nibble_def dest: in_set_takeD)
  have b: "BytesToNibbles (packNibbles (copyInto 64 p)) = copyInto 64 p"
    "BytesToNibbles (packNibbles (copyInto 64 q)) = copyInto 64 q"
    using n assms(3,4) by (simp_all add: BytesToNibbles_pack)
  have e: "bytesLess (packNibbles (copyInto 64 p)) (packNibbles (copyInto 64 q)) \<longleftrightarrow> bytesLess (copyInto 64 p) (copyInto 64 q)"
    "packNibbles (copyInto 64 p) = packNibbles (copyInto 64 q) \<longleftrightarrow> copyInto 64 p = copyInto 64 q"
    using bytesLess_BytesToNibbles [of "packNibbles (copyInto 64 p)" "packNibbles (copyInto 64 q)"] b by (simp, metis b)
  have "(of_nat (length p) :: byte) < of_nat (length q) \<longleftrightarrow> length p < length q"
    using assms(1,2) by (simp add: word_less_nat_alt unat_of_nat)
  then show ?thesis
    using bytesLess_copyInto [OF assms(1,2)] by (simp add: packedKey_def bytesLess_snoc pack_length e)
qed

section \<open>Properties\<close>

text \<open>
  a branch row survives its encoding.  A row that meets the encoder's own conditions (as many
  hashes as bits in its hash mask, tree and hash mask within the state mask, 32-byte hashes) is
  encoded without a panic, in 6 bytes of masks and 32 per hash, and decoding those bytes gives the row
  back, with its optional root hash recognised from the length alone.
\<close>

theorem branch_row_roundtrip:
  assumes "bnc_ok b"
  shows "\<exists>out. EncodeCompact b buf = Some (buf @ out, length out) \<and>
    length out = 6 + 32 * (length (Hashes b) + (if RootHash b = None then 0 else 1)) \<and>
    DecodeCompact (out @ rest) (length out) = Some (b, length out)"
proof -
  let ?out = "writeBEU16 (writeBEU16 (writeBEU16 [] (StateMask b)) (TreeMask b)) (HashMask b) @
        (case RootHash b of None \<Rightarrow> [] | Some h \<Rightarrow> h) @ concat (Hashes b)"
  have "length (concat xs) = 32 * length xs" if "\<forall>x \<in> set xs. length x = 32" for xs :: "bytes list"
    using that by (induction xs) simp_all
  then have "length ?out = 6 + 32 * (length (Hashes b) + (if RootHash b = None then 0 else 1))"
    using assms by (auto simp: bnc_ok_def writeBEU16_def split: option.splits)
  then show ?thesis
    using EncodeCompact_eq [OF assms, of buf] DecodeCompact_eq [OF assms refl, of rest] by (auto simp: Let_def)
qed

theorem branch_row_roundtrip_witness:
  "\<exists>out. EncodeCompact \<lparr>StateMask = 0x8003, TreeMask = 1, HashMask = 0x8001, Hashes = [replicate 32 7, replicate 32 9],
      RootHash = Some (replicate 32 1)\<rparr> [] = Some (out, 102) \<and>
    DecodeCompact out 102 = Some (\<lparr>StateMask = 0x8003, TreeMask = 1, HashMask = 0x8001,
      Hashes = [replicate 32 7, replicate 32 9], RootHash = Some (replicate 32 1)\<rparr>, 102)"
proof -
  let ?b = "\<lparr>StateMask = 0x8003, TreeMask = 1, HashMask = 0x8001, Hashes = [replicate 32 7, replicate 32 9],
    RootHash = Some (replicate 32 1)\<rparr>"
  have "reth_popcount16 0x8001 = 2" by (simp add: reth_popcount16_def)
  then have "bnc_ok ?b" by (simp add: bnc_ok_def reth_popcount16_eq)
  from branch_row_roundtrip [OF this, of "[]" "[]"] show ?thesis by force
qed

text \<open>
  Packed keys sort like paths.  For nibble paths of at most 64 nibbles, encoding never panics and
  the 33-byte keys compare exactly as the paths do, so distinct branches never share a row and a
  cursor over the table visits every branch right before its descendants.
\<close>

theorem packed_keys_sort_like_paths:
  assumes "length p \<le> 64" "length q \<le> 64" "list_all is_nibble p" "list_all is_nibble q"
  shows "\<exists>kp kq. EncodePackedAccountKey (nibblestoStoredNibbles p) [] = Some kp \<and>
    EncodePackedAccountKey (nibblestoStoredNibbles q) [] = Some kq \<and>
    length kp = 33 \<and> length kq = 33 \<and> bytesCompare kp kq = bytesCompare p q"
proof -
  have c: "bytesCompare a b = (if bytesLess a b then - 1 else if a = b then 0 else 1)" for a b
    by (induction a b rule: bytesCompare.induct) (auto simp: bytesLess_Cons)
  have t: "bytesLess a b \<or> a = b \<or> bytesLess b a" for a b by (metis bytesCompare_eq_0 bytesCompare_swap bytesLess_def linorder_neqE_linordered_idom neg_less_0_iff_less)
  have "packedKey p = packedKey q \<longleftrightarrow> p = q"
    using bytesLess_packedKey [OF assms] bytesLess_packedKey [OF assms(2,1,4,3)] t [of p q] by (metis bytesLess_irrefl)
  then have "bytesCompare (packedKey p) (packedKey q) = bytesCompare p q"
    using bytesLess_packedKey [OF assms] by (simp add: c)
  then show ?thesis
    using assms by (simp add: EncodePackedAccountKey_eq) (simp add: packedKey_def pack_length)
qed

theorem packed_keys_sort_like_paths_witness:
  "\<exists>kp kq. EncodePackedAccountKey (nibblestoStoredNibbles [3]) [] = Some kp \<and>
    EncodePackedAccountKey (nibblestoStoredNibbles [3, 0]) [] = Some kq \<and> bytesCompare kp kq = - 1"
proof -
  have "list_all is_nibble [3]" "list_all is_nibble [3, 0]" by (simp_all add: is_nibble_def)
  from packed_keys_sort_like_paths [OF _ _ this] show ?thesis by force
qed

end
