(* ===== verification/Reth_Builder.thy ===== *)
theory Reth_Builder
  imports Reth_Format Reth_Rows
begin

text \<open>
  Reth's \<open>HashBuilder\<close>, from \<open>internal/reth/hash_builder.go\<close>.  Besides the occupancy masks and the
  stack of references that besu's builder has, it keeps per depth which children are branches reached
  directly (\<open>hashMasks\<close>) and which have a stored branch below them (\<open>treeMasks\<close>), and it emits a
  \<open>BranchNodeCompact\<close> for every branch with such a child.  \<open>None\<close> is a panic; the stack has its top
  first; the emitter acts on a world and its error is dropped, as in the code.
\<close>

section \<open>State\<close>

type_synonym ('w, 'e) NodeEmitter = "StoredNibbles \<Rightarrow> BranchNodeCompact \<Rightarrow> 'w \<Rightarrow> 'e option \<times> 'w"

record 'w hashBuilder =
  rb_key :: "bytes option"
  rb_value :: bytes
  rb_stack :: "bytes list"
  stateMasks :: "u16 list"
  treeMasks :: "u16 list"
  hashMasks :: "u16 list"
  rb_leafCount :: int
  rb_world :: 'w

definition NewHashBuilder :: "'w \<Rightarrow> 'w hashBuilder" where
  "NewHashBuilder w =
     \<lparr>rb_key = None, rb_value = [], rb_stack = [], stateMasks = [], treeMasks = [], hashMasks = [],
      rb_leafCount = 0, rb_world = w\<rparr>"

section \<open>Masks\<close>

definition resizeTo :: "nat \<Rightarrow> u16 list \<Rightarrow> u16 list" where
  "resizeTo newLen ms = take newLen (ms @ replicate (newLen - length ms) 0)"

definition resizeMasks :: "nat \<Rightarrow> 'w hashBuilder \<Rightarrow> 'w hashBuilder" where
  "resizeMasks newLen b =
     b\<lparr>treeMasks := resizeTo newLen (treeMasks b), hashMasks := resizeTo newLen (hashMasks b)\<rparr>"

definition updateMasks :: "bytes \<Rightarrow> nat \<Rightarrow> 'w hashBuilder \<Rightarrow> 'w hashBuilder option" where
  "updateMasks current lenFrom b =
     (if lenFrom > 0 then
        if lenFrom - 1 \<ge> length current then None
        else
          let flag = nibbleMask (current ! (lenFrom - 1));
              i = lenFrom - 1;
              b = (if i < length (hashMasks b) then b\<lparr>hashMasks := (hashMasks b)[i := hashMasks b ! i AND NOT flag]\<rparr>
                   else b);
              b = (if length current - 1 < length (treeMasks b) \<and> treeMasks b ! (length current - 1) \<noteq> 0 then
                     if i < length (treeMasks b) \<and> i < length (stateMasks b) \<and> stateMasks b ! i AND flag \<noteq> 0
                     then b\<lparr>treeMasks := (treeMasks b)[i := treeMasks b ! i OR flag]\<rparr>
                     else b
                   else b)
          in Some b
      else Some b)"

text \<open>\<open>masks[parentIdx] |= nibbleMask(current[parentIdx])\<close> for \<open>parentIdx = length - 1\<close>.\<close>

definition markParent :: "bytes \<Rightarrow> nat \<Rightarrow> u16 list \<Rightarrow> u16 list option" where
  "markParent current len ms =
     (if len > 0 then
        if len - 1 < length ms \<and> len - 1 < length current
        then Some (ms[len - 1 := ms ! (len - 1) OR nibbleMask (current ! (len - 1))])
        else None
      else Some ms)"

section \<open>Branches\<close>

definition computeRootFromRlpNode :: "digest \<Rightarrow> bytes \<Rightarrow> bytes" where
  "computeRootFromRlpNode keccak node =
     (if length node = 33 \<and> node ! 0 = 0xa0 then copyInto 32 (drop 1 node) else keccak node)"

text \<open>The loop over the slots that copies the hash of every child whose bit is in \<open>hashMask\<close>.\<close>

fun collectHashes :: "u16 \<Rightarrow> u16 \<Rightarrow> nat list \<Rightarrow> bytes list \<Rightarrow> bytes list option" where
  "collectHashes stateMask hashMask [] cs = Some []"
| "collectHashes stateMask hashMask (slot # slots) cs =
     (if stateMask AND nibbleMask (of_nat slot) \<noteq> 0 then
        case cs of
          [] \<Rightarrow> None
        | child # cs \<Rightarrow>
            do {
              h \<leftarrow> (if hashMask AND nibbleMask (of_nat slot) \<noteq> 0 then
                      if child = [] then None else Some [copyInto 32 (drop 1 child)]
                    else Some []);
              hs \<leftarrow> collectHashes stateMask hashMask slots cs;
              Some (h @ hs)
            }
      else collectHashes stateMask hashMask slots cs)"

definition pushBranchNode ::
  "digest \<Rightarrow> ('w, 'e) NodeEmitter \<Rightarrow> bytes \<Rightarrow> nat \<Rightarrow> 'w hashBuilder \<Rightarrow> 'w hashBuilder option" where
  "pushBranchNode keccak emit current len b =
     (if len \<ge> length (stateMasks b) then None
      else do {
        let stateMask = stateMasks b ! len;
        let hashMask = (if len < length (hashMasks b) then hashMasks b ! len else 0);
        let treeMask = (if len < length (treeMasks b) then treeMasks b ! len else 0);
        let childCount = reth_popcount16 stateMask;
        if childCount > length (rb_stack b) then None
        else do {
          let cs = rev (take childCount (rb_stack b));
          branchRLP \<leftarrow> encodeBranchNode stateMask cs;
          let rlpNode = rlpNodeFromRLP keccak branchRLP;
          hs \<leftarrow> markParent current len (hashMasks b);
          let b = b\<lparr>hashMasks := hs\<rparr>;
          let storeInDbTrie = (treeMask \<noteq> 0 \<or> hashMask \<noteq> 0);
          b \<leftarrow> (if storeInDbTrie then
            do {
              ts \<leftarrow> markParent current len (treeMasks b);
              let b = b\<lparr>treeMasks := ts\<rparr>;
              hashes \<leftarrow> collectHashes stateMask hashMask [0..<16] cs;
              let rootHash = (if len = 0 then Some (computeRootFromRlpNode keccak rlpNode) else None);
              let path = nibblestoStoredNibbles (take len current);
              let emittedTreeMask = treeMask AND stateMask;
              let emittedHashMask = hashMask AND stateMask;
              hashes \<leftarrow> (if emittedHashMask \<noteq> hashMask then collectHashes stateMask emittedHashMask [0..<16] cs
                         else Some hashes);
              let bnc = \<lparr>StateMask = stateMask, TreeMask = emittedTreeMask, HashMask = emittedHashMask,
                Hashes = hashes, RootHash = rootHash\<rparr>;
              Some (b\<lparr>rb_world := snd (emit path bnc (rb_world b))\<rparr>)
            }
            else Some b);
          Some (b\<lparr>rb_stack := rlpNode # drop childCount (rb_stack b)\<rparr>)
        }
      })"

section \<open>The update loop\<close>

text \<open>The part of a round that pushes the deferred leaf or wraps the top into an extension.\<close>

definition pushShortNode ::
  "digest \<Rightarrow> bool \<Rightarrow> bytes \<Rightarrow> nat \<Rightarrow> 'w hashBuilder \<Rightarrow> 'w hashBuilder option" where
  "pushShortNode keccak buildExtensions current lenFrom b =
     (let shortNodeKey = drop lenFrom current in
      if \<not> buildExtensions then
        Some (b\<lparr>rb_stack := rlpNodeFromRLP keccak (encodeLeafNode shortNodeKey (rb_value b)) # rb_stack b\<rparr>)
      else if shortNodeKey \<noteq> [] then
        do {
          b \<leftarrow> updateMasks current lenFrom b;
          case rb_stack b of
            [] \<Rightarrow> None
          | tp # stk \<Rightarrow>
              Some (resizeMasks lenFrom
                (b\<lparr>rb_stack := rlpNodeFromRLP keccak (encodeExtensionNode shortNodeKey tp) # stk\<rparr>))
        }
      else Some b)"

function reth_update ::
  "digest \<Rightarrow> ('w, 'e) NodeEmitter \<Rightarrow> bytes \<Rightarrow> bool \<Rightarrow> bytes \<Rightarrow> 'w hashBuilder \<Rightarrow> 'w hashBuilder option" where
  "reth_update keccak emit succeeding buildExtensions current b =
     (let precedingExists = stateMasks b \<noteq> [];
          precedingLen = length (stateMasks b) - 1;
          cpl = commonPrefixLen succeeding current;
          len = max precedingLen cpl
      in
      if len \<ge> length current then None
      else
        let b = b\<lparr>stateMasks := orMask len (nib current len) (stateMasks b)\<rparr>;
            b = resizeMasks (length current) b;
            lenFrom = (if succeeding \<noteq> [] \<or> precedingExists then Suc len else len)
        in do {
          b \<leftarrow> pushShortNode keccak buildExtensions current lenFrom b;
          if precedingLen \<le> cpl \<and> succeeding \<noteq> [] then Some b
          else do {
            b \<leftarrow> (if succeeding \<noteq> [] \<or> precedingExists then pushBranchNode keccak emit current len b else Some b);
            let b = resizeMasks len (b\<lparr>stateMasks := take len (stateMasks b)\<rparr>);
            let b = b\<lparr>stateMasks := trimMasks (stateMasks b)\<rparr>;
            if precedingLen = 0 then Some b
            else reth_update keccak emit succeeding True (take precedingLen current) b
          }
        })"
  by pat_completeness auto
termination
  by (relation "measure (\<lambda>(keccak, emit, s, ext, current, b). length current)") auto

declare reth_update.simps [simp del]

section \<open>Operations\<close>

datatype reth_error = ErrKeysOutOfOrder | HashBuilderPanic

definition HashBuilder_AddLeaf ::
  "digest \<Rightarrow> ('w, 'e) NodeEmitter \<Rightarrow> bytes \<Rightarrow> bytes \<Rightarrow> 'w hashBuilder \<Rightarrow> reth_error + 'w hashBuilder" where
  "HashBuilder_AddLeaf keccak emit keyNibbles valueRLP b =
     bindE (case rb_key b of
         None \<Rightarrow> Inr b
       | Some key \<Rightarrow>
           if bytesCompare keyNibbles key \<le> 0 then Inl ErrKeysOutOfOrder
           else (case reth_update keccak emit keyNibbles False key b of
               None \<Rightarrow> Inl HashBuilderPanic
             | Some b \<Rightarrow> Inr b)) (\<lambda>b.
     Inr (b\<lparr>rb_leafCount := rb_leafCount b + 1, rb_key := Some keyNibbles, rb_value := valueRLP\<rparr>))"

definition currentRoot :: "digest \<Rightarrow> 'w hashBuilder \<Rightarrow> bytes" where
  "currentRoot keccak b =
     (case rb_stack b of
        [] \<Rightarrow> EmptyTrieHash
      | node # _ \<Rightarrow>
          if length node = 33 \<and> node ! 0 = 0xa0 then copyInto 32 (drop 1 node) else keccak node)"

definition HashBuilder_Root ::
  "digest \<Rightarrow> ('w, 'e) NodeEmitter \<Rightarrow> 'w hashBuilder \<Rightarrow> reth_error + bytes \<times> 'w hashBuilder" where
  "HashBuilder_Root keccak emit b =
     (if rb_leafCount b = 0 then Inr (EmptyTrieHash, b)
      else
        bindE (case rb_key b of
            None \<Rightarrow> Inr b
          | Some key \<Rightarrow>
              (case reth_update keccak emit [] False key b of
                 None \<Rightarrow> Inl HashBuilderPanic
               | Some b \<Rightarrow> Inr (b\<lparr>rb_key := None, rb_value := []\<rparr>))) (\<lambda>b.
        Inr (currentRoot keccak b, b)))"

end
