(* ===== verification/Reth_Masks.thy ===== *)
theory Reth_Masks
  imports Reth_Builder
begin

text \<open>
  What reth's tree and hash masks mean on the reference trie: a child is \<^emph>\<open>direct\<close> when it is a branch
  with no extension before it, and a branch \<^emph>\<open>stores\<close> a row when one of its children is direct or
  stores one itself.  The two mask arrays are the masks of the open branches' children, and the
  operations on them keep it so.
\<close>

section \<open>Stored branches\<close>

fun direct :: "'v mpt \<Rightarrow> bool" where
  "direct (Leaf r v) \<longleftrightarrow> False"
| "direct (Branch pfx cs) \<longleftrightarrow> pfx = []"

fun stores :: "'v mpt \<Rightarrow> bool" where
  "stores (Leaf r v) \<longleftrightarrow> False"
| "stores (Branch pfx cs) \<longleftrightarrow> list_ex (\<lambda>c. case c of None \<Rightarrow> False | Some t \<Rightarrow> direct t \<or> stores t) cs"

definition childMask :: "('v mpt \<Rightarrow> bool) \<Rightarrow> 'v mpt option list \<Rightarrow> u16" where
  "childMask f cs = horner_sum of_bool 2 (map (\<lambda>c. case c of None \<Rightarrow> False | Some t \<Rightarrow> f t) cs)"

lemma bit_childMask:
  "length cs = 16 \<Longrightarrow> bit (childMask f cs) i \<longleftrightarrow> i < 16 \<and> (\<exists>t. cs ! i = Some t \<and> f t)"
  by (auto simp: childMask_def bit_horner_sum_bit_word_iff split: option.splits)

lemma childMask_eq_0_iff:
  assumes "length cs = 16"
  shows "childMask f cs = 0 \<longleftrightarrow> (\<forall>c \<in> set cs. \<forall>t. c = Some t \<longrightarrow> \<not> f t)"
  using bit_childMask [OF assms] assms by (auto simp: bit_eq_iff [of "childMask f cs"] all_set_conv_all_nth)

lemma childMask_subset: "length cs = 16 \<Longrightarrow> childMask f cs AND usedOf cs = childMask f cs"
  by (rule bit_eqI) (auto simp: bit_and_iff bit_childMask bit_usedOf)

lemma childMask_not: "length cs = 16 \<Longrightarrow> childMask f cs AND NOT (usedOf cs) = 0"
  by (rule bit_eqI) (auto simp: bit_and_iff bit_not_iff bit_childMask bit_usedOf)

lemma childMask_put:
  assumes "length cs = 16" "i < 16" "cs ! i = None"
  shows "childMask f (put i t cs) = (if f t then childMask f cs OR push_bit i 1 else childMask f cs)"
proof (rule bit_eqI)
  fix n
  have "length (put i t cs) = 16" using assms(1) by simp
  then show "bit (childMask f (put i t cs)) n \<longleftrightarrow> bit (if f t then childMask f cs OR push_bit i 1 else childMask f cs) n"
    using assms by (auto simp: bit_childMask bit_or_iff push_bit_eq_mult bit_exp_iff put_def nth_list_update)
qed

lemma childMask_replicate [simp]: "childMask f (replicate n None) = 0"
  by (induction n) (simp_all add: childMask_def)

lemma stores_iff:
  assumes "length cs = 16"
  shows "stores (Branch pfx cs) \<longleftrightarrow> childMask stores cs \<noteq> 0 \<or> childMask direct cs \<noteq> 0"
proof -
  have "stores (Branch pfx cs) \<longleftrightarrow> (\<exists>c \<in> set cs. \<exists>t. c = Some t \<and> (direct t \<or> stores t))"
    by (auto simp: list_ex_iff split: option.splits)
  then show ?thesis unfolding childMask_eq_0_iff [OF assms] by blast
qed

section \<open>The mask arrays\<close>

definition cmask_at :: "('v mpt \<Rightarrow> bool) \<Rightarrow> 'v open_branch list \<Rightarrow> nat \<Rightarrow> u16" where
  "cmask_at f stk i = (case map_of stk i of None \<Rightarrow> 0 | Some cs \<Rightarrow> childMask f cs)"

definition cmasks :: "('v mpt \<Rightarrow> bool) \<Rightarrow> 'v open_branch list \<Rightarrow> nat \<Rightarrow> u16 list" where
  "cmasks f stk n = map (cmask_at f stk) [0..<n]"

lemma length_cmasks [simp]: "length (cmasks f stk n) = n"
  by (simp add: cmasks_def)

lemma cmasks_nth [simp]: "i < n \<Longrightarrow> cmasks f stk n ! i = cmask_at f stk i"
  by (simp add: cmasks_def)

lemma cmask_at_Cons: "cmask_at f ((d, cs) # stk) i = (if i = d then childMask f cs else cmask_at f stk i)"
  by (simp add: cmask_at_def)

lemma cmask_at_above: "\<forall>b \<in> set stk. fst b < i \<Longrightarrow> cmask_at f stk i = 0"
  by (auto simp: cmask_at_def split: option.splits dest!: map_of_SomeD)

lemma length_resizeTo [simp]: "length (resizeTo n ms) = n"
  by (simp add: resizeTo_def)

lemma resizeTo_nth: "i < n \<Longrightarrow> resizeTo n ms ! i = (if i < length ms then ms ! i else 0)"
  by (simp add: resizeTo_def nth_append)

lemma resizeTo_same [simp]: "length ms = n \<Longrightarrow> resizeTo n ms = ms"
  by (simp add: resizeTo_def)

lemma resizeTo_0 [simp]: "resizeTo 0 ms = []"
  by (simp add: resizeTo_def)

lemma resizeTo_cmasks:
  assumes "\<forall>b \<in> set stk. fst b < n"
  shows "resizeTo m (cmasks f stk n) = cmasks f stk m"
proof (rule nth_equalityI)
  fix i
  assume "i < length (resizeTo m (cmasks f stk n))"
  moreover have "cmask_at f stk i = 0" if "n \<le> i" using that assms by (intro cmask_at_above) fastforce
  ultimately show "resizeTo m (cmasks f stk n) ! i = cmasks f stk m ! i"
    by (simp add: resizeTo_nth)
qed simp

lemma cmask_at_place:
  assumes "open_ok key stk" "nib key l < 16" "sorted_wrt (\<lambda>a b. fst b < fst a) stk" "\<forall>b \<in> set stk. fst b \<le> l"
  shows "cmask_at f (place l (nib key l) t stk) j =
    (if j = l \<and> f t then cmask_at f stk l OR push_bit (nib key l) 1 else cmask_at f stk j)"
proof (cases stk)
  case Nil
  then show ?thesis using assms(2) by (simp add: place_def cmask_at_Cons childMask_put cmask_at_def)
next
  case (Cons b rest)
  obtain d cs where b: "b = (d, cs)" by (cases b)
  have "cmask_at f stk l = 0" if "d \<noteq> l"
    using that assms(3,4) by (intro cmask_at_above) (auto simp: Cons b)
  then show ?thesis
    using assms by (auto simp: Cons b place_def cmask_at_Cons childMask_put)
qed

lemma cmask_at_bit:
  assumes "open_ok key stk" "nib key l < 16"
  shows "\<not> bit (cmask_at f stk l) (nib key l)"
  using assms by (auto simp: cmask_at_def open_ok_def bit_childMask split: option.splits dest!: map_of_SomeD)

section \<open>A sealed branch waiting for its parent\<close>

text \<open>
  A branch sealed at depth \<open>dp\<close> has set its bit one level up.  If an extension follows, the bit moves
  to the branch the extension hangs from (or vanishes); if not, it is in the right place already.
\<close>

definition pending :: "bool \<Rightarrow> bytes \<Rightarrow> nat \<Rightarrow> u16 list \<Rightarrow> u16 list" where
  "pending on key dp ms =
     (if on \<and> 0 < dp then ms[dp - 1 := ms ! (dp - 1) OR push_bit (nib key (dp - 1)) 1] else ms)"

lemma length_pending [simp]: "length (pending on key dp ms) = length ms"
  by (simp add: pending_def)

lemma pending_place:
  assumes "open_ok key stk" "nib key l < 16" "sorted_wrt (\<lambda>a b. fst b < fst a) stk" "\<forall>b \<in> set stk. fst b \<le> l"
  shows "pending (f t) key (Suc l) (cmasks f stk (Suc l)) = cmasks f (place l (nib key l) t stk) (Suc l)"
proof (rule nth_equalityI)
  fix i
  assume "i < length (pending (f t) key (Suc l) (cmasks f stk (Suc l)))"
  then have "i < Suc l" by simp
  then show "pending (f t) key (Suc l) (cmasks f stk (Suc l)) ! i = cmasks f (place l (nib key l) t stk) (Suc l) ! i"
    by (auto simp: pending_def nth_list_update cmask_at_place [OF assms])
qed simp

lemma nibbleMask_nib: "nibbleMask (key ! i) = push_bit (nib key i) 1"
  by (simp add: nibbleMask_def nib_def)

lemma markParent_eq:
  assumes "take d current = take d key" "d \<le> length key" "d < length ms" "d \<le> length current"
  shows "markParent current d ms = Some (pending True key d ms)"
proof (cases d)
  case (Suc m)
  then have "current ! m = key ! m" using assms(1) by (metis lessI nth_take)
  then show ?thesis using assms Suc by (simp add: markParent_def pending_def nibbleMask_nib)
qed (simp add: markParent_def pending_def)

lemma resizeTo_pending:
  assumes "d < n" "\<forall>b \<in> set rest. fst b < d"
  shows "resizeTo d (pending on key d (cmasks f ((d, cs) # rest) n)) = pending on key d (cmasks f rest d)"
  using assms by (intro nth_equalityI) (auto simp: resizeTo_nth pending_def nth_list_update cmask_at_Cons)

text \<open>The extension's round: clearing the hash bit, moving the tree bit, cutting the arrays.\<close>

lemma hash_bit_cleared:
  assumes "open_ok key stk" "nib key l < 16" "Suc l < dp" "\<forall>b \<in> set stk. fst b \<le> l"
  shows "resizeTo (Suc l) ((pending on key dp (cmasks f stk dp))
      [l := pending on key dp (cmasks f stk dp) ! l AND NOT (push_bit (nib key l) 1)]) = cmasks f stk (Suc l)"
proof -
  have b: "cmask_at f stk l AND NOT (push_bit (nib key l) 1) = cmask_at f stk l"
    using cmask_at_bit [OF assms(1,2)]
    by (intro bit_eqI) (auto simp: bit_and_iff bit_not_iff push_bit_eq_mult bit_exp_iff dest: bit_imp_le_length)
  show ?thesis
    using assms(3) b by (intro nth_equalityI) (auto simp: resizeTo_nth pending_def nth_list_update simp del: push_bit_of_1)
qed

lemma tree_bit_moved:
  assumes "open_ok key stk" "nib key l < 16" "Suc l < dp" "\<forall>b \<in> set stk. fst b \<le> l" "dp \<le> length key"
    and "nib key (dp - 1) < 16"
  shows "pending on key dp (cmasks f stk dp) ! (dp - 1) \<noteq> 0 \<longleftrightarrow> on"
    and "pending on key dp (cmasks f stk dp) ! l = cmask_at f stk l"
    and "resizeTo (Suc l) (pending on key dp (cmasks f stk dp)) = cmasks f stk (Suc l)"
proof -
  have "cmask_at f stk (dp - 1) = 0" using assms(3,4) by (intro cmask_at_above) fastforce
  moreover have "push_bit (nib key (dp - 1)) (1 :: u16) \<noteq> 0"
    using assms(6) by (simp add: push_bit_eq_mult)
  ultimately show "pending on key dp (cmasks f stk dp) ! (dp - 1) \<noteq> 0 \<longleftrightarrow> on"
    using assms(3) by (simp add: pending_def)
  show "pending on key dp (cmasks f stk dp) ! l = cmask_at f stk l"
    using assms(3) by (simp add: pending_def nth_list_update)
  show "resizeTo (Suc l) (pending on key dp (cmasks f stk dp)) = cmasks f stk (Suc l)"
    using assms(3) by (intro nth_equalityI) (auto simp: resizeTo_nth pending_def nth_list_update)
qed

lemma masksOf_place_bit:
  assumes "full stk" "i < 16"
  shows "bit (masksOf (place l i t stk) ! l) i" "l < length (masksOf (place l i t stk))"
proof -
  have "\<exists>cs rest. place l i t stk = (l, put i t cs) # rest \<and> length cs = 16"
    using assms(1) by (cases stk) (force simp: place_def)+
  then obtain cs rest where p: "place l i t stk = (l, put i t cs) # rest" "length cs = 16" by blast
  then show "bit (masksOf (place l i t stk) ! l) i" "l < length (masksOf (place l i t stk))"
    using assms(2) by (simp_all add: mask_at_Cons bit_usedOf put_def del: upt_Suc)
qed

end
