(* ===== verification/Reth_Stream.thy ===== *)
theory Reth_Stream
  imports Reth_Masks Ethrex_Account
begin

text \<open>
  The hash builder of reth follows the reference trie: fed with ascending keys it never panics,
  returns the root of the reference trie and emits, in the order in which the branches close, one row
  for every branch that has a branch directly below it or a stored branch further down.
\<close>

section \<open>Rows of the reference trie\<close>

definition child_hash :: "digest \<Rightarrow> bytes mpt \<Rightarrow> bytes" where
  "child_hash keccak t = copyInto 32 (drop 1 (rlpNodeFromRLP keccak (enc keccak t)))"

definition branch_row :: "digest \<Rightarrow> bytes \<Rightarrow> bytes mpt option list \<Rightarrow> BranchNodeCompact" where
  "branch_row keccak path cs =
     \<lparr>StateMask = usedOf cs, TreeMask = childMask stores cs, HashMask = childMask direct cs,
      Hashes = map (child_hash keccak) (filter direct (present cs)),
      RootHash = (if path = [] then Some (computeRootFromRlpNode keccak (rlpNodeFromRLP keccak (enc_branch keccak cs))) else None)\<rparr>"

fun reth_rows :: "digest \<Rightarrow> bytes node_event \<Rightarrow> (bytes \<times> BranchNodeCompact) list" where
  "reth_rows keccak (path, Leaf r v) = []"
| "reth_rows keccak (path, Branch pfx cs) =
     (if stores (Branch [] cs) then [(path @ pfx, branch_row keccak (path @ pfx) cs)] else [])"

abbreviation reth_event_rows :: "digest \<Rightarrow> bytes node_event list \<Rightarrow> (bytes \<times> BranchNodeCompact) list" where
  "reth_event_rows keccak evs \<equiv> concat (map (reth_rows keccak) evs)"

text \<open>The world after the rows have been emitted one by one, errors dropped.\<close>

definition emitRethRows :: "('w, 'e) NodeEmitter \<Rightarrow> (bytes \<times> BranchNodeCompact) list \<Rightarrow> 'w \<Rightarrow> 'w" where
  "emitRethRows emit rs w = fold (\<lambda>(p, r) w. snd (emit (nibblestoStoredNibbles p) r w)) rs w"

lemma emitRethRows_simps [simp]:
  "emitRethRows emit [] w = w"
  "emitRethRows emit (r # rs) w = emitRethRows emit rs (snd (emit (nibblestoStoredNibbles (fst r)) (snd r) w))"
  "emitRethRows emit (rs @ rs') w = emitRethRows emit rs' (emitRethRows emit rs w)"
  by (simp_all add: emitRethRows_def case_prod_beta)

section \<open>Pieces of a round\<close>

abbreviation rlpRef :: "digest \<Rightarrow> bytes mpt \<Rightarrow> bytes" where
  "rlpRef keccak t \<equiv> rlpNodeFromRLP keccak (enc keccak t)"

text \<open>The builder between two leaves, and the builder that has just sealed a branch.\<close>

definition rb_open ::
  "digest \<Rightarrow> bytes option \<times> bytes \<times> int \<Rightarrow> bytes open_branch list \<Rightarrow> nat \<Rightarrow> 'w \<Rightarrow> 'w hashBuilder" where
  "rb_open keccak c stk n w =
     \<lparr>rb_key = fst c, rb_value = fst (snd c), rb_stack = refStack (rlpRef keccak) stk, stateMasks = masksOf stk,
      treeMasks = cmasks stores stk n, hashMasks = cmasks direct stk n, rb_leafCount = snd (snd c), rb_world = w\<rparr>"

definition rb_sealed ::
  "digest \<Rightarrow> bytes option \<times> bytes \<times> int \<Rightarrow> bytes \<Rightarrow> nat \<Rightarrow> bytes mpt option list \<Rightarrow> bytes open_branch list \<Rightarrow> 'w
    \<Rightarrow> 'w hashBuilder" where
  "rb_sealed keccak c key dp cs stk w =
     \<lparr>rb_key = fst c, rb_value = fst (snd c),
      rb_stack = rlpNodeFromRLP keccak (enc_branch keccak cs) # refStack (rlpRef keccak) stk, stateMasks = masksOf stk,
      treeMasks = pending (stores (Branch [] cs)) key dp (cmasks stores stk dp),
      hashMasks = pending True key dp (cmasks direct stk dp), rb_leafCount = snd (snd c), rb_world = w\<rparr>"

lemma rlpRef_ne: "rlpRef keccak t \<noteq> []"
proof (cases t)
  case (Branch pfx cs)
  then show ?thesis
    by (cases "pfx = []") (simp_all add: rlpNodeFromRLP_def enc_Branch enc_branch_def EncodeBranch_def EncodeExtension_def
        rlpEncodeListRaw_def Let_def del: enc.simps)
qed (simp add: rlpNodeFromRLP_def EncodeLeaf_def rlpEncodeListRaw_def Let_def)

lemma nibbleMask_slot: "s < 16 \<Longrightarrow> m AND nibbleMask (of_nat s) \<noteq> 0 \<longleftrightarrow> bit m s"
  using and_push_bit_ne_0 [of m s] by (simp add: nibbleMask_def unat_of_nat)

lemma collectHashes_drop:
  assumes "length cs = 16" "k \<le> 16"
  shows "collectHashes (usedOf cs) (childMask f cs) [k..<16] (map (rlpRef keccak) (present (drop k cs))) =
    Some (map (child_hash keccak) (filter f (present (drop k cs))))"
  using assms(2)
proof (induction "16 - k" arbitrary: k)
  case 0
  then show ?case using assms(1) by simp
next
  case (Suc n)
  then have k: "k < 16" by simp
  have d: "drop k cs = cs ! k # drop (Suc k) cs" using k assms(1) by (simp add: Cons_nth_drop_Suc)
  have "[k..<16] = k # [Suc k..<16]" using k by (simp add: upt_conv_Cons)
  then show ?case
    using Suc.hyps(1) [of "Suc k"] Suc.hyps(2) k
    by (cases "cs ! k")
      (simp_all add: d nibbleMask_slot [OF k, simplified] bit_usedOf [OF assms(1)] bit_childMask [OF assms(1)] rlpRef_ne
        child_hash_def)
qed

lemma collectHashes_present:
  assumes "length cs = 16"
  shows "collectHashes (usedOf cs) (childMask f cs) [0..<16] (map (rlpRef keccak) (present cs)) =
    Some (map (child_hash keccak) (filter f (present cs)))"
  using collectHashes_drop [OF assms, of 0] by simp

lemma push_branch:
  assumes "length cs = 16" "d < n" "d \<le> length key" "d \<le> length current" "take d current = take d key"
  shows "pushBranchNode keccak emit current d (rb_open keccak c ((d, cs) # rest) n w) =
    Some \<lparr>rb_key = fst c, rb_value = fst (snd c),
      rb_stack = rlpNodeFromRLP keccak (enc_branch keccak cs) # refStack (rlpRef keccak) rest,
      stateMasks = masksOf ((d, cs) # rest),
      treeMasks = pending (stores (Branch [] cs)) key d (cmasks stores ((d, cs) # rest) n),
      hashMasks = pending True key d (cmasks direct ((d, cs) # rest) n), rb_leafCount = snd (snd c),
      rb_world = emitRethRows emit (reth_rows keccak (take d key, Branch [] cs)) w\<rparr>"
proof -
  have m: "markParent current d ms = Some (pending True key d ms)" if "length ms = n" for ms
    using assms that by (intro markParent_eq) simp_all
  have s: "masksOf ((d, cs) # rest) ! d = usedOf cs" "length (masksOf ((d, cs) # rest)) = Suc d"
    by (simp_all add: mask_at_Cons del: upt_Suc)
  have e: "take d key = [] \<longleftrightarrow> d = 0" using assms(3) by auto
  note col = collectHashes_present [OF assms(1), of direct keccak]
  show ?thesis
    using assms(1,2) e
    by (simp add: pushBranchNode_def rb_open_def s m reth_popcount16_eq popcount16_usedOf rev_map Let_def
        encodeBranchNode_eq cmask_at_Cons childMask_subset col stores_iff branch_row_def assms(5) pending_def
        del: masksOf_simps stores.simps)
qed

lemma seal_round:
  assumes "length cs = 16" "d < n" "d \<le> length key" "d \<le> length current" "take d current = take d key"
    and "full rest" "\<forall>(d, cs) \<in> set rest. present cs \<noteq> []" "sorted_wrt (\<lambda>a b. fst b < fst a) ((d, cs) # rest)"
  shows "\<exists>b. pushBranchNode keccak emit current d (rb_open keccak c ((d, cs) # rest) n w) = Some b \<and>
    resizeMasks d (b\<lparr>stateMasks := take d (stateMasks b)\<rparr>)
      \<lparr>stateMasks := trimMasks (stateMasks (resizeMasks d (b\<lparr>stateMasks := take d (stateMasks b)\<rparr>)))\<rparr> =
    rb_sealed keccak c key d cs rest (emitRethRows emit (reth_rows keccak (take d key, Branch [] cs)) w)"
proof -
  have r: "\<forall>b \<in> set rest. fst b < d" using assms(8) by auto
  note p = push_branch [OF assms(1-5), of keccak emit c rest w]
  show ?thesis
    unfolding p using resizeTo_pending [OF assms(2) r] trimMasks_masksOf [OF assms(6-8)]
    by (simp add: resizeMasks_def rb_sealed_def del: masksOf_simps stores.simps)
qed

lemma ext_round:
  assumes "nibbly key" "l < dp" "dp < length key" "\<forall>b \<in> set lo. fst b \<le> l" "stack_ok key lo" "open_ok key lo"
    and "t = Branch (subslice (Suc l) dp key) cs" "length cs = 16"
  shows "pushShortNode keccak True (take dp key) (Suc l)
      (resizeMasks dp ((rb_sealed keccak c key dp cs lo w)\<lparr>stateMasks := orMask l (nib key l) (masksOf lo)\<rparr>)) =
    Some (rb_open keccak c (place l (nib key l) t lo) (Suc l) w)"
proof -
  have n16: "nib key l < 16" "nib key (dp - 1) < 16" using assms(1-3) by (intro nib_less; simp)+
  have srt: "sorted_wrt (\<lambda>a b. fst b < fst a) lo" using assms(5) by (simp add: stack_ok_def)
  have f: "full lo" using assms(6) by (auto simp: open_ok_def full_def)
  have m: "orMask l (nib key l) (masksOf lo) = masksOf (place l (nib key l) t lo)"
    using f n16(1) srt assms(4) by (rule orMask_place)
  have st: "refStack (rlpRef keccak) (place l (nib key l) t lo) = rlpRef keccak t # refStack (rlpRef keccak) lo"
    using assms(6) n16(1) by (intro refStack_place) (auto split: list.splits)
  have short: "drop (Suc l) (take dp key) = subslice (Suc l) dp key" by (simp add: subslice_def drop_take)
  have ld: "length (take dp key) = dp" using assms(3) by simp
  have same: "resizeMasks dp ((rb_sealed keccak c key dp cs lo w)\<lparr>stateMasks := ms\<rparr>) =
      (rb_sealed keccak c key dp cs lo w)\<lparr>stateMasks := ms\<rparr>" for ms
    by (simp add: resizeMasks_def rb_sealed_def)
  have st_t: "stores t \<longleftrightarrow> stores (Branch [] cs)" by (simp add: assms(7))
  show ?thesis
  proof (cases "dp = Suc l")
    case True
    then have e: "subslice (Suc l) dp key = []" "direct t" "t = Branch [] cs" using assms(7) by simp_all
    note pl = pending_place [OF assms(6) n16(1) srt assms(4), of _ t]
    show ?thesis
      using pl [of direct] pl [of stores] e
      by (simp add: resizeMasks_def pushShortNode_def short rb_sealed_def rb_open_def m st [unfolded e(3)] True enc_Branch_Nil
          del: stores.simps enc.simps drop_take)
  next
    case False
    then have lt: "Suc l < dp" using assms(2) by simp
    have e: "subslice (Suc l) dp key \<noteq> []" "\<not> direct t" using lt assms(3,7) by (simp_all add: subslice_def)
    note cp = cmask_at_place [OF assms(6) n16(1) srt assms(4)]
    note tb = tree_bit_moved [OF assms(6) n16(1) lt assms(4) less_imp_le [OF assms(3)] n16(2)]
    have H: "resizeTo (Suc l) ((pending True key dp (cmasks direct lo dp))
        [l := pending True key dp (cmasks direct lo dp) ! l AND NOT (push_bit (nib key l) 1)]) =
        cmasks direct (place l (nib key l) t lo) (Suc l)"
      unfolding hash_bit_cleared [OF assms(6) n16(1) lt assms(4)] using e(2) by (simp add: cmasks_def cp)
    have T: "resizeTo (Suc l) (if stores t then (pending (stores t) key dp (cmasks stores lo dp))
          [l := cmask_at stores lo l OR push_bit (nib key l) 1] else pending (stores t) key dp (cmasks stores lo dp)) =
        cmasks stores (place l (nib key l) t lo) (Suc l)"
      by (rule nth_equalityI) (use lt in \<open>auto simp: resizeTo_nth nth_list_update cp pending_def\<close>)
    have bit: "masksOf (place l (nib key l) t lo) ! l AND push_bit (nib key l) 1 \<noteq> 0"
      "l < length (masksOf (place l (nib key l) t lo))"
      using masksOf_place_bit [OF f n16(1)] by (simp_all only: and_push_bit_ne_0)
    have u: "updateMasks (take dp key) (Suc l)
        ((rb_sealed keccak c key dp cs lo w)\<lparr>stateMasks := masksOf (place l (nib key l) t lo)\<rparr>) =
      Some ((rb_sealed keccak c key dp cs lo w)\<lparr>stateMasks := masksOf (place l (nib key l) t lo),
        hashMasks := (pending True key dp (cmasks direct lo dp))
          [l := pending True key dp (cmasks direct lo dp) ! l AND NOT (push_bit (nib key l) 1)],
        treeMasks := (if stores t then (pending (stores t) key dp (cmasks stores lo dp))
          [l := cmask_at stores lo l OR push_bit (nib key l) 1] else pending (stores t) key dp (cmasks stores lo dp))\<rparr>)"
      using lt ld bit tb(1) [of "stores t" stores] tb(2) [of _ stores]
      by (simp add: updateMasks_def rb_sealed_def nibbleMask_nib Let_def st_t [symmetric] del: stores.simps push_bit_of_1)
    show ?thesis
      unfolding m same pushShortNode_def short u using e(1) H T
      by (simp add: rb_sealed_def rb_open_def resizeMasks_def st [unfolded assms(7)] enc_Branch encodeExtensionNode_eq assms(7) Let_def
          del: stores.simps enc.simps push_bit_of_1)
  qed
qed

lemma leaf_round:
  assumes "nibbly key" "l < length key" "\<forall>b \<in> set stk. fst b \<le> l" "stack_ok key stk" "open_ok key stk"
    and "\<forall>b \<in> set stk. fst b < n"
  shows "pushShortNode keccak False key (Suc l)
      (resizeMasks (length key) ((rb_open keccak c stk n w)\<lparr>stateMasks := orMask l (nib key l) (masksOf stk)\<rparr>)) =
    Some (rb_open keccak c (place l (nib key l) (Leaf (drop (Suc l) key) (fst (snd c))) stk) (length key) w)"
proof -
  let ?t = "Leaf (drop (Suc l) key) (fst (snd c))"
  have n16: "nib key l < 16" using assms(1,2) by (rule nib_less)
  have srt: "sorted_wrt (\<lambda>a b. fst b < fst a) stk" using assms(4) by (simp add: stack_ok_def)
  have f: "full stk" using assms(5) by (auto simp: open_ok_def full_def)
  have m: "orMask l (nib key l) (masksOf stk) = masksOf (place l (nib key l) ?t stk)"
    using f n16 srt assms(3) by (rule orMask_place)
  have st: "refStack (rlpRef keccak) (place l (nib key l) ?t stk) = rlpRef keccak ?t # refStack (rlpRef keccak) stk"
    using assms(5) n16 by (intro refStack_place) (auto split: list.splits)
  have cm: "cmasks f (place l (nib key l) ?t stk) (length key) = cmasks f stk (length key)" if "\<not> f ?t" for f
    using that by (simp add: cmasks_def cmask_at_place [OF assms(5) n16 srt assms(3)])
  show ?thesis
    using cm [of direct] cm [of stores]
    by (simp add: pushShortNode_def rb_open_def resizeMasks_def resizeTo_cmasks [OF assms(6)] m st encodeLeafNode_eq)
qed

section \<open>The update loop\<close>

lemma rb_simps [simp]:
  "stateMasks (rb_open keccak c stk n w) = masksOf stk"
  "stateMasks (rb_sealed keccak c key dp cs stk w) = masksOf stk"
  "rb_key (rb_open keccak c stk n w) = fst c" "rb_leafCount (rb_open keccak c stk n w) = snd (snd c)"
  "rb_world (rb_open keccak c stk n w) = w"
  by (simp_all add: rb_open_def rb_sealed_def)

lemma open_full: "open_ok key stk \<Longrightarrow> full stk \<and> (\<forall>(d, cs) \<in> set stk. present cs \<noteq> [])"
  by (auto simp: open_ok_def full_def)

text \<open>Closing the open branch at the top after its last child has been placed.\<close>

lemma close_round:
  assumes "open_ok key ((d, cs) # rest)" "stack_ok key ((d, cs) # rest)" "nib key d < 16"
    and "d < n" "take d current = take d key" "d \<le> length current"
  shows "\<exists>b. pushBranchNode keccak emit current d (rb_open keccak c (place d (nib key d) t ((d, cs) # rest)) n w) = Some b \<and>
    resizeMasks d (b\<lparr>stateMasks := take d (stateMasks b)\<rparr>)
      \<lparr>stateMasks := trimMasks (stateMasks (resizeMasks d (b\<lparr>stateMasks := take d (stateMasks b)\<rparr>)))\<rparr> =
    rb_sealed keccak c key d (put (nib key d) t cs) rest
      (emitRethRows emit (reth_rows keccak (take d key, Branch [] (put (nib key d) t cs))) w)"
proof -
  have p: "place d (nib key d) t ((d, cs) # rest) = (d, put (nib key d) t cs) # rest" by (simp add: place_def)
  show ?thesis
    unfolding p using assms open_full [of key rest] by (intro seal_round) (auto simp: stack_ok_def)
qed

lemma reth_ext:
  assumes "nibbly key" "dp < length key" "stack_ok key (hi @ lo)" "open_ok key (hi @ lo)"
    and "\<forall>b \<in> set (hi @ lo). fst b < dp" "\<forall>b \<in> set hi. l < fst b" "\<forall>b \<in> set lo. fst b \<le> l" "l < dp"
    and "succeeding \<noteq> []" "commonPrefixLen succeeding key = l" "length cs' = 16"
  shows "reth_update keccak emit succeeding True (take dp key) (rb_sealed keccak c key dp cs' (hi @ lo) w) =
    (let b = Branch (subslice (pos_under (Suc l) hi) dp key) cs' in
     Some (rb_open keccak c (place l (nib key l) (carry key (Suc l) hi b) lo) (Suc l)
       (emitRethRows emit (reth_event_rows keccak (carry_nodes key (Suc l) hi b)) w)))"
  using assms(2-6,8,11)
proof (induction hi arbitrary: dp cs' w)
  case Nil
  have pl: "length (masksOf lo) - 1 \<le> l" using assms(7) by (cases lo) (auto simp: length_masksOf)
  have cpl: "commonPrefixLen succeeding (take dp key) = l"
    using Nil.prems(6) assms(10) by (simp add: commonPrefixLen_take)
  have ndp: "nib (take dp key) l = nib key l" using Nil.prems(6) by (simp add: nib_def)
  have er: "pushShortNode keccak True (take dp key) (Suc l)
      (resizeMasks dp ((rb_sealed keccak c key dp cs' lo w)\<lparr>stateMasks := orMask l (nib key l) (masksOf lo)\<rparr>)) =
      Some (rb_open keccak c (place l (nib key l) (Branch (subslice (Suc l) dp key) cs') lo) (Suc l) w)"
    using Nil.prems assms(1,7) by (intro ext_round) simp_all
  show ?case
    using pl assms(9) Nil.prems(1,6)
    by (subst reth_update.simps) (simp add: cpl ndp er max_absorb2 min_absorb2 pos_under_def Let_def)
next
  case (Cons b hi)
  obtain d cs where b: "b = (d, cs)" by (cases b)
  have d: "l < d" "d < dp" "d < length key" using Cons.prems by (auto simp: b)
  have cpl: "commonPrefixLen succeeding (take dp key) = l"
    using Cons.prems(6) assms(10) by (simp add: commonPrefixLen_take)
  have ndp: "nib (take dp key) d = nib key d" using d by (simp add: nib_def)
  have n16: "nib key d < 16" using d assms(1) by (intro nib_less)
  have ok: "open_ok key ((d, cs) # (hi @ lo))" "stack_ok key ((d, cs) # (hi @ lo))"
    using Cons.prems by (simp_all add: b)
  have rest: "stack_ok key (hi @ lo)" "open_ok key (hi @ lo)" "\<forall>b \<in> set (hi @ lo). fst b < d" "length cs = 16"
    using ok by (auto simp: stack_ok_def)
  let ?t = "Branch (subslice (Suc d) dp key) cs'"
  have er: "pushShortNode keccak True (take dp key) (Suc d)
      (resizeMasks dp ((rb_sealed keccak c key dp cs' ((d, cs) # hi @ lo) w)
        \<lparr>stateMasks := orMask d (nib key d) (masksOf ((d, cs) # hi @ lo))\<rparr>)) =
      Some (rb_open keccak c (place d (nib key d) ?t ((d, cs) # hi @ lo)) (Suc d) w)"
    using Cons.prems assms(1) d rest ok by (intro ext_round) (auto simp: less_imp_le)
  have "take d (take dp key) = take d key" "d \<le> length (take dp key)" using d by simp_all
  from close_round [OF ok n16 lessI this, of keccak emit c ?t w] obtain b' where
    b': "pushBranchNode keccak emit (take dp key) d (rb_open keccak c (place d (nib key d) ?t ((d, cs) # hi @ lo)) (Suc d) w) = Some b'"
      "resizeMasks d (b'\<lparr>stateMasks := take d (stateMasks b')\<rparr>)
        \<lparr>stateMasks := trimMasks (stateMasks (resizeMasks d (b'\<lparr>stateMasks := take d (stateMasks b')\<rparr>)))\<rparr> =
      rb_sealed keccak c key d (put (nib key d) ?t cs) (hi @ lo)
        (emitRethRows emit (reth_rows keccak (take d key, Branch [] (put (nib key d) ?t cs))) w)" by blast
  note IH = Cons.IH [OF d(3) rest(1,2,3) _ d(1), of "put (nib key d) ?t cs"]
  have "pos_under (Suc l) hi \<le> d"
    using rest(3) d(1) by (cases hi) (auto simp: pos_under_def)
  then have path: "take (pos_under (Suc l) hi) key @ subslice (pos_under (Suc l) hi) d key = take d key"
    by (rule take_append_subslice)
  have top: "pos_under (Suc l) ((d, cs) # hi) = Suc d" by (simp add: pos_under_def)
  show ?case
    using assms(9) Cons.prems(1,5) d
    by (subst reth_update.simps)
      (simp add: cpl ndp er b' IH rest Let_def max_absorb1 min_absorb2 min_absorb1 b top path length_masksOf
        del: masksOf_simps refStack_simps stores.simps)
qed

text \<open>The builder when all branches are closed.\<close>

definition rb_done :: "digest \<Rightarrow> bytes option \<times> bytes \<times> int \<Rightarrow> bytes mpt \<Rightarrow> 'w \<Rightarrow> 'w hashBuilder" where
  "rb_done keccak c t w =
     \<lparr>rb_key = fst c, rb_value = fst (snd c), rb_stack = [rlpRef keccak t], stateMasks = [], treeMasks = [], hashMasks = [],
      rb_leafCount = snd (snd c), rb_world = w\<rparr>"

lemma sealed_at_root:
  "rb_sealed keccak c key 0 cs [] w = rb_done keccak c (Branch [] cs) w"
  by (simp add: rb_sealed_def rb_done_def enc_Branch_Nil cmasks_def pending_def del: enc.simps)

lemma reth_ext_final:
  assumes "nibbly key" "dp < length key" "0 < dp" "stack_ok key stk" "open_ok key stk"
    and "\<forall>b \<in> set stk. fst b < dp" "length cs' = 16"
  shows "reth_update keccak emit [] True (take dp key) (rb_sealed keccak c key dp cs' stk w) =
    (let b = Branch (subslice (pos_under 0 stk) dp key) cs' in
     Some (rb_done keccak c (carry key 0 stk b) (emitRethRows emit (reth_event_rows keccak (carry_nodes key 0 stk b)) w)))"
  using assms(2-7)
proof (induction stk arbitrary: dp cs' w)
  case Nil
  have ne: "take dp key \<noteq> []" using Nil.prems(1,2) by auto
  show ?case
    using Nil.prems(1,2) ne
    by (subst reth_update.simps)
      (simp add: pos_under_def Let_def pushShortNode_def updateMasks_def rb_sealed_def rb_done_def resizeMasks_def
        encodeExtensionNode_eq enc_Branch min_absorb2 del: enc.simps)
next
  case (Cons b rest)
  obtain d cs where b: "b = (d, cs)" by (cases b)
  have d: "d < dp" "d < length key" using Cons.prems by (auto simp: b)
  have ndp: "nib (take dp key) d = nib key d" using d by (simp add: nib_def)
  have n16: "nib key d < 16" using d assms(1) by (intro nib_less)
  have ok: "open_ok key ((d, cs) # rest)" "stack_ok key ((d, cs) # rest)"
    using Cons.prems by (simp_all add: b)
  have rest: "stack_ok key rest" "open_ok key rest" "\<forall>b \<in> set rest. fst b < d" "length cs = 16"
    using ok by (auto simp: stack_ok_def)
  let ?t = "Branch (subslice (Suc d) dp key) cs'"
  have er: "pushShortNode keccak True (take dp key) (Suc d)
      (resizeMasks dp ((rb_sealed keccak c key dp cs' ((d, cs) # rest) w)
        \<lparr>stateMasks := orMask d (nib key d) (masksOf ((d, cs) # rest))\<rparr>)) =
      Some (rb_open keccak c (place d (nib key d) ?t ((d, cs) # rest)) (Suc d) w)"
    using Cons.prems assms(1) d rest ok by (intro ext_round) (auto simp: less_imp_le)
  have "take d (take dp key) = take d key" "d \<le> length (take dp key)" using d by simp_all
  from close_round [OF ok n16 lessI this, of keccak emit c ?t w] obtain b' where
    b': "pushBranchNode keccak emit (take dp key) d (rb_open keccak c (place d (nib key d) ?t ((d, cs) # rest)) (Suc d) w) = Some b'"
      "resizeMasks d (b'\<lparr>stateMasks := take d (stateMasks b')\<rparr>)
        \<lparr>stateMasks := trimMasks (stateMasks (resizeMasks d (b'\<lparr>stateMasks := take d (stateMasks b')\<rparr>)))\<rparr> =
      rb_sealed keccak c key d (put (nib key d) ?t cs) rest
        (emitRethRows emit (reth_rows keccak (take d key, Branch [] (put (nib key d) ?t cs))) w)" by blast
  have top: "pos_under 0 ((d, cs) # rest) = Suc d" by (simp add: pos_under_def)
  have "pos_under 0 rest \<le> d" using rest(3) by (cases rest) (auto simp: pos_under_def)
  then have path: "take (pos_under 0 rest) key @ subslice (pos_under 0 rest) d key = take d key"
    by (rule take_append_subslice)
  show ?case
  proof (cases "d = 0")
    case True
    then have e: "rest = []" using rest(3) by (cases rest) auto
    show ?thesis
      using Cons.prems(1) d(1) True e
      by (subst reth_update.simps)
        (simp add: ndp [unfolded True] er [unfolded True e] b'(1) [unfolded True e] b'(2) [unfolded True e take_0] Let_def b length_masksOf masksOf_ne
          top [unfolded e True] pos_under_def [of 0 "[]"] sealed_at_root min_absorb2
          del: masksOf_simps(2) refStack_simps(2) stores.simps)
  next
    case False
    then have "0 < d" by simp
    note IH = Cons.IH [OF d(2) this rest(1,2,3), of "put (nib key d) ?t cs"]
    show ?thesis
      using Cons.prems(1) d False
      by (subst reth_update.simps)
        (simp add: ndp er b' IH rest(4) Let_def min_absorb1 min_absorb2 b top path length_masksOf masksOf_ne
          del: masksOf_simps refStack_simps stores.simps)
  qed
qed

text \<open>One leaf more, and the last round.\<close>

lemma reth_step:
  assumes "nibbly key" "l < length key" "stack_ok key stk" "open_ok key stk" "\<forall>b \<in> set stk. fst b < n"
    and "succeeding \<noteq> []" "commonPrefixLen succeeding key = l"
  shows "\<exists>m. (\<forall>b \<in> set (step key (fst (snd c)) l stk). fst b < m) \<and>
    reth_update keccak emit succeeding False key (rb_open keccak c stk n w) =
    Some (rb_open keccak c (step key (fst (snd c)) l stk) m
      (emitRethRows emit (reth_event_rows keccak (step_nodes key (fst (snd c)) l stk)) w))"
proof -
  let ?v = "fst (snd c)"
  have lo: "\<forall>b \<in> set (shallower l stk). fst b \<le> l" using assms(3) by (rule shallower_le)
  have deep: "\<forall>b \<in> set (place l i t xs). fst b \<le> l" if "\<forall>b \<in> set xs. fst b \<le> l" for i t and xs :: "bytes open_branch list"
  proof -
    have "set (place l i t xs) \<subseteq> {b. fst b = l} \<union> set xs" by (auto simp: place_def split: list.splits if_splits)
    then show ?thesis using that by blast
  qed
  show ?thesis
  proof (cases "deeper l stk")
    case Nil
    then have s: "shallower l stk = stk" using deeper_shallower [of l stk] by simp
    have pl: "length (masksOf stk) - 1 \<le> l" using lo s by (cases stk) (auto simp: length_masksOf)
    have lr: "pushShortNode keccak False key (Suc l)
        (resizeMasks (length key) ((rb_open keccak c stk n w)\<lparr>stateMasks := orMask l (nib key l) (masksOf stk)\<rparr>)) =
      Some (rb_open keccak c (place l (nib key l) (Leaf (drop (Suc l) key) ?v) stk) (length key) w)"
      using assms lo s by (intro leaf_round) simp_all
    have "\<forall>b \<in> set (step key ?v l stk). fst b < length key"
      using deep [OF lo] assms(2) by (fastforce simp: step_def)
    moreover have "reth_update keccak emit succeeding False key (rb_open keccak c stk n w) =
        Some (rb_open keccak c (step key ?v l stk) (length key)
          (emitRethRows emit (reth_event_rows keccak (step_nodes key ?v l stk)) w))"
      using pl assms(2,6)
      by (subst reth_update.simps)
        (simp add: assms(7) max_absorb2 lr s Nil step_def step_nodes_def close_node_def close_nodes_def open_leaf_def
          pos_under_def Let_def)
    ultimately show ?thesis by blast
  next
    case (Cons b hi)
    obtain d cs where b: "b = (d, cs)" by (cases b)
    have stk: "stk = (d, cs) # hi @ shallower l stk" using deeper_shallower [of l stk] by (simp add: Cons b)
    have hi: "\<forall>b \<in> set ((d, cs) # hi). l < fst b"
      using Cons b set_takeWhileD [of _ "\<lambda>b. l < fst b" stk] by (metis deeper_def)
    have "(d, cs) \<in> set stk" using stk by (metis list.set_intros(1))
    then have d: "l < d" "d < length key" using hi assms(3) by (auto simp: stack_ok_def)
    have ok: "open_ok key ((d, cs) # (hi @ shallower l stk))" "stack_ok key ((d, cs) # (hi @ shallower l stk))"
      using assms(3,4) stk by simp_all
    have n16: "nib key d < 16" using assms(1) d(2) by (rule nib_less)
    have rest: "stack_ok key (hi @ shallower l stk)" "open_ok key (hi @ shallower l stk)"
        "\<forall>b \<in> set (hi @ shallower l stk). fst b < d" "length cs = 16"
      using ok by (auto simp: stack_ok_def)
    let ?t = "Leaf (drop (Suc d) key) ?v"
    have lr: "pushShortNode keccak False key (Suc d) (resizeMasks (length key)
        ((rb_open keccak c ((d, cs) # hi @ shallower l stk) n w)
          \<lparr>stateMasks := orMask d (nib key d) (masksOf ((d, cs) # hi @ shallower l stk))\<rparr>)) =
      Some (rb_open keccak c (place d (nib key d) ?t ((d, cs) # hi @ shallower l stk)) (length key) w)"
    proof -
      have "\<forall>b \<in> set ((d, cs) # hi @ shallower l stk). fst b \<le> d" using rest(3) by (auto simp: less_imp_le)
      moreover have "\<forall>b \<in> set ((d, cs) # hi @ shallower l stk). fst b < n" using assms(5) stk by metis
      ultimately show ?thesis using assms(1) d(2) ok(2,1) by (intro leaf_round)
    qed
    from close_round [OF ok n16 d(2) refl less_imp_le [OF d(2)], of keccak emit c ?t w] obtain b' where
      b': "pushBranchNode keccak emit key d
          (rb_open keccak c (place d (nib key d) ?t ((d, cs) # hi @ shallower l stk)) (length key) w) = Some b'"
        "resizeMasks d (b'\<lparr>stateMasks := take d (stateMasks b')\<rparr>)
          \<lparr>stateMasks := trimMasks (stateMasks (resizeMasks d (b'\<lparr>stateMasks := take d (stateMasks b')\<rparr>)))\<rparr> =
        rb_sealed keccak c key d (put (nib key d) ?t cs) (hi @ shallower l stk)
          (emitRethRows emit (reth_rows keccak (take d key, Branch [] (put (nib key d) ?t cs))) w)" by blast
    have hi': "\<forall>b \<in> set hi. l < fst b" using hi by simp
    note ex = reth_ext [OF assms(1) d(2) rest(1,2,3) hi' lo d(1) assms(6,7), of "put (nib key d) ?t cs"]
    have "pos_under (Suc l) hi \<le> d" using rest(3) d(1) by (cases hi) (auto simp: pos_under_def)
    then have path: "take (pos_under (Suc l) hi) key @ subslice (pos_under (Suc l) hi) d key = take d key"
      by (rule take_append_subslice)
    have top: "pos_under (Suc l) ((d, cs) # hi) = Suc d" by (simp add: pos_under_def)
    have "\<forall>b \<in> set (step key ?v l stk). fst b < Suc l"
      using deep [OF lo] by (simp add: step_def less_Suc_eq_le)
    moreover have "reth_update keccak emit succeeding False key (rb_open keccak c ((d, cs) # hi @ shallower l stk) n w) =
        Some (rb_open keccak c (step key ?v l stk) (Suc l)
          (emitRethRows emit (reth_event_rows keccak (step_nodes key ?v l stk)) w))"
      using d assms(6)
      by (subst reth_update.simps)
        (simp add: assms(7) max_absorb1 lr b' ex rest(4) step_def step_nodes_def close_node_def close_nodes_def
          open_leaf_def Cons b top path Let_def length_masksOf del: masksOf_simps refStack_simps stores.simps)
    ultimately show ?thesis using stk by metis
  qed
qed

lemma reth_final:
  assumes "nibbly key" "key \<noteq> []" "stack_ok key stk" "open_ok key stk" "\<forall>b \<in> set stk. fst b < n"
  shows "reth_update keccak emit [] False key (rb_open keccak c stk n w) =
    Some (rb_done keccak c (close_node key (fst (snd c)) 0 stk)
      (emitRethRows emit (reth_event_rows keccak (close_nodes key (fst (snd c)) 0 stk)) w))"
proof (cases stk)
  case Nil
  show ?thesis
    using assms(2) Nil
    by (subst reth_update.simps)
      (simp add: pushShortNode_def rb_open_def rb_done_def resizeMasks_def encodeLeafNode_eq close_node_def
        close_nodes_def open_leaf_def pos_under_def Let_def)
next
  case (Cons b rest)
  obtain d cs where b: "b = (d, cs)" by (cases b)
  have d: "d < length key" using assms(3) by (simp add: Cons b stack_ok_def)
  have ok: "open_ok key ((d, cs) # rest)" "stack_ok key ((d, cs) # rest)"
    using assms(3,4) by (simp_all add: Cons b)
  have n16: "nib key d < 16" using assms(1) d by (rule nib_less)
  have r: "stack_ok key rest" "open_ok key rest" "\<forall>b \<in> set rest. fst b < d" "length cs = 16"
    using ok by (auto simp: stack_ok_def)
  let ?t = "Leaf (drop (Suc d) key) (fst (snd c))"
  have lr: "pushShortNode keccak False key (Suc d) (resizeMasks (length key)
      ((rb_open keccak c ((d, cs) # rest) n w)\<lparr>stateMasks := orMask d (nib key d) (masksOf ((d, cs) # rest))\<rparr>)) =
    Some (rb_open keccak c (place d (nib key d) ?t ((d, cs) # rest)) (length key) w)"
    using assms(1,5) d r ok by (intro leaf_round) (auto simp: less_imp_le Cons b)
  from close_round [OF ok n16 d refl less_imp_le [OF d], of keccak emit c ?t w] obtain b' where
    b': "pushBranchNode keccak emit key d
        (rb_open keccak c (place d (nib key d) ?t ((d, cs) # rest)) (length key) w) = Some b'"
      "resizeMasks d (b'\<lparr>stateMasks := take d (stateMasks b')\<rparr>)
        \<lparr>stateMasks := trimMasks (stateMasks (resizeMasks d (b'\<lparr>stateMasks := take d (stateMasks b')\<rparr>)))\<rparr> =
      rb_sealed keccak c key d (put (nib key d) ?t cs) rest
        (emitRethRows emit (reth_rows keccak (take d key, Branch [] (put (nib key d) ?t cs))) w)" by blast
  have top: "pos_under 0 ((d, cs) # rest) = Suc d" by (simp add: pos_under_def)
  have "pos_under 0 rest \<le> d" using r(3) by (cases rest) (auto simp: pos_under_def)
  then have path: "take (pos_under 0 rest) key @ subslice (pos_under 0 rest) d key = take d key"
    by (rule take_append_subslice)
  show ?thesis
  proof (cases "d = 0")
    case True
    then have e: "rest = []" using r(3) by (cases rest) auto
    show ?thesis
      using True assms(2) d
      by (subst reth_update.simps)
        (simp add: Cons b lr [unfolded True e] b'(1) [unfolded True e] b'(2) [unfolded True e take_0] close_node_def
          close_nodes_def open_leaf_def top [unfolded e True] e pos_under_def [of 0 "[]"] Let_def length_masksOf masksOf_ne
          sealed_at_root del: masksOf_simps(2) refStack_simps(2) stores.simps enc.simps)
  next
    case False
    then have "0 < d" by simp
    note ex = reth_ext_final [OF assms(1) d this r(1,2,3), of "put (nib key d) ?t cs"]
    show ?thesis
      using False d
      by (subst reth_update.simps)
        (simp add: Cons b lr b' ex r(4) close_node_def close_nodes_def open_leaf_def top path Let_def
          length_masksOf masksOf_ne del: masksOf_simps refStack_simps stores.simps enc.simps)
  qed
qed

section \<open>A whole build\<close>

definition reth_build ::
  "digest \<Rightarrow> ('w, 'e) NodeEmitter \<Rightarrow> 'w \<Rightarrow> bytes entry list \<Rightarrow> reth_error + bytes \<times> 'w" where
  "reth_build keccak emit w kvs =
     bindE (foldE (\<lambda>(k, v). HashBuilder_AddLeaf keccak emit k v) kvs (NewHashBuilder w)) (\<lambda>b.
     bindE (HashBuilder_Root keccak emit b) (\<lambda>(h, b). Inr (h, rb_world b)))"

lemma reth_adds_eq:
  assumes "wf_entries L kvs" "kvs \<noteq> []"
  shows "\<exists>n. (\<forall>b \<in> set (spine kvs). fst b < n) \<and>
    foldE (\<lambda>(k, v). HashBuilder_AddLeaf keccak emit k v) kvs (NewHashBuilder w) =
    Inr (rb_open keccak (Some (lkey kvs), lval kvs, int (length kvs)) (spine kvs) n
      (emitRethRows emit (reth_event_rows keccak (closed kvs)) w))"
  using assms
proof (induction kvs rule: rev_induct)
  case (snoc x kvs)
  obtain k v where x: "x = (k, v)" by (cases x)
  show ?case
  proof (cases "kvs = []")
    case True
    have "foldE (\<lambda>(k, v). HashBuilder_AddLeaf keccak emit k v) [(k, v)] (NewHashBuilder w) =
        Inr (rb_open keccak (Some k, v, 1) [] 0 w)"
      by (simp add: HashBuilder_AddLeaf_def NewHashBuilder_def rb_open_def cmasks_def)
    then show ?thesis using True by (auto simp: x lkey_def lval_def)
  next
    case False
    note wf = snoc.prems(1) [unfolded x]
    note s = wf_snocD [OF wf False]
    note key = wf_entries_lkey [OF s(1) False]
    have ne: "lkey kvs \<noteq> k" "length (lkey kvs) = length k" using s key by auto
    let ?l = "commonPrefixLen (lkey kvs) k"
    have cmp: "\<not> bytesCompare k (lkey kvs) \<le> 0" using s ne(2) by (simp add: bytesCompare_le_0)
    have l: "?l < length (lkey kvs)" using commonPrefixLen_less [OF ne(2,1)] .
    then have kne: "k \<noteq> []" using ne by auto
    from snoc.IH [OF s(1) False] obtain n where
      n: "\<forall>b \<in> set (spine kvs). fst b < n"
        "foldE (\<lambda>(k, v). HashBuilder_AddLeaf keccak emit k v) kvs (NewHashBuilder w) =
        Inr (rb_open keccak (Some (lkey kvs), lval kvs, int (length kvs)) (spine kvs) n
          (emitRethRows emit (reth_event_rows keccak (closed kvs)) w))" by blast
    let ?c = "(Some (lkey kvs), lval kvs, int (length kvs))"
    from reth_step [OF conjunct2 [OF key] l stack_ok_spine [OF s(1) False] open_ok_spine [OF s(1) False] n(1) kne, of ?c keccak emit
        "emitRethRows emit (reth_event_rows keccak (closed kvs)) w"]
    obtain m where m: "\<forall>b \<in> set (spine (kvs @ [(k, v)])). fst b < m"
        "reth_update keccak emit k False (lkey kvs) (rb_open keccak ?c (spine kvs) n
          (emitRethRows emit (reth_event_rows keccak (closed kvs)) w)) =
        Some (rb_open keccak ?c (spine (kvs @ [(k, v)])) m
          (emitRethRows emit (reth_event_rows keccak (closed (kvs @ [(k, v)]))) w))"
      using spine_snoc [OF wf False] closed_snoc [OF wf False] by (auto simp: commonPrefixLen_commute)
    have "HashBuilder_AddLeaf keccak emit k v (rb_open keccak ?c (spine kvs) n
          (emitRethRows emit (reth_event_rows keccak (closed kvs)) w)) =
        Inr (rb_open keccak (Some k, v, int (length kvs) + 1) (spine (kvs @ [(k, v)])) m
          (emitRethRows emit (reth_event_rows keccak (closed (kvs @ [(k, v)]))) w))"
      using m(2) cmp by (simp add: HashBuilder_AddLeaf_def) (simp add: rb_open_def)
    then show ?thesis using n(2) m(1) by (auto simp: x foldE_append add.commute)
  qed
qed simp

lemma currentRoot_done:
  assumes "keccak_spec keccak"
  shows "currentRoot keccak ((rb_done keccak c t w)\<lparr>rb_key := k, rb_value := v\<rparr>) = keccak (enc keccak t)"
  using assms by (simp add: currentRoot_def rb_done_def rlpNodeFromRLP_def keccak_spec_def)

lemma reth_build_eq:
  assumes "keccak_spec keccak" "wf_entries L kvs" "0 < L"
  shows "reth_build keccak emit w kvs =
    Inr (trie_root keccak kvs, emitRethRows emit (reth_event_rows keccak (nodes_opt [] (mk 0 kvs))) w)"
proof (cases "kvs = []")
  case True
  then show ?thesis by (simp add: reth_build_def HashBuilder_Root_def NewHashBuilder_def trie_root_def)
next
  case False
  note key = wf_entries_lkey [OF assms(2) False]
  from reth_adds_eq [OF assms(2) False, of keccak emit w] obtain n where
    n: "\<forall>b \<in> set (spine kvs). fst b < n"
      "foldE (\<lambda>(k, v). HashBuilder_AddLeaf keccak emit k v) kvs (NewHashBuilder w) =
      Inr (rb_open keccak (Some (lkey kvs), lval kvs, int (length kvs)) (spine kvs) n
        (emitRethRows emit (reth_event_rows keccak (closed kvs)) w))" by blast
  have kne: "lkey kvs \<noteq> []" using key assms(3) by auto
  note fin = reth_final [OF conjunct2 [OF key] kne stack_ok_spine [OF assms(2) False] open_ok_spine [OF assms(2) False] n(1)]
  note t = mk_spine [OF assms(2) False, of 0] and ev = nodes_mk [OF assms(2) False, of 0]
  show ?thesis
    using False ev
    by (simp add: reth_build_def n(2) HashBuilder_Root_def fin currentRoot_done [OF assms(1)] trie_root_def t)
      (simp add: rb_done_def)
qed

section \<open>The adapter of the storage streams\<close>

text \<open>
  \<open>rethStorageHashBuilder\<close> of \<open>client/reth/spec_storage_streaming_cgo.go\<close> puts the hash builder behind the
  interface of \<open>internal/streamingtrie\<close>, and \<open>addrHashToNibbles\<close> of \<open>client/reth/state_root.go\<close> unpacks the hashes.
\<close>

definition addrHashToNibbles :: "bytes \<Rightarrow> bytes" where
  "addrHashToNibbles b = concat (map (\<lambda>c. [drop_bit 4 c, c AND 0x0f]) b)"

definition rethStorage_AddLeaf ::
  "digest \<Rightarrow> ('w, 'e) NodeEmitter \<Rightarrow> bytes \<Rightarrow> bytes \<Rightarrow> 'w hashBuilder \<Rightarrow> reth_error + 'w hashBuilder" where
  "rethStorage_AddLeaf keccak emit keyHash valueRLP r = HashBuilder_AddLeaf keccak emit (addrHashToNibbles keyHash) valueRLP r"

definition rethStorage_Root ::
  "digest \<Rightarrow> ('w, 'e) NodeEmitter \<Rightarrow> 'w hashBuilder \<Rightarrow> reth_error + bytes \<times> 'w hashBuilder" where
  "rethStorage_Root keccak emit r = HashBuilder_Root keccak emit r"

lemma addrHashToNibbles_eq: "addrHashToNibbles b = BytesToNibbles b"
  by (induction b) (simp_all add: addrHashToNibbles_def)

lemma rethStorage_fold:
  "foldE (\<lambda>(k, v). rethStorage_AddLeaf keccak emit k v) kvs b =
    foldE (\<lambda>(k, v). HashBuilder_AddLeaf keccak emit k v) (nibble_entries kvs) b"
proof (induction kvs arbitrary: b)
  case (Cons kv kvs)
  then show ?case
    by (cases kv) (auto simp: nibble_entries_def rethStorage_AddLeaf_def addrHashToNibbles_eq intro!: bindE_cong)
qed (simp add: nibble_entries_def)

lemma rethStorage_runs:
  assumes "keccak_spec keccak" "sorted_hashes kvs"
  shows "\<exists>h h'. foldE (\<lambda>(k, v). rethStorage_AddLeaf keccak emit k v) kvs (NewHashBuilder w) = Inr h \<and>
    rethStorage_Root keccak emit h = Inr (trie_root keccak (nibble_entries kvs), h')"
  using reth_build_eq [OF assms(1) wf_nibble_entries [OF assms(2)], of emit w]
  by (auto simp: rethStorage_fold rethStorage_Root_def reth_build_def bindE_eq_Inr)

end
