(* ===== verification/Client_Roots.thy ===== *)
theory Client_Roots
  imports Streaming_Trie Besu_Stream Reth_Stream
begin

text \<open>
  The builders of the clients behind the interface of \<open>internal/streamingtrie\<close>: each is an
  interpretation of \<open>hash_builder\<close>, and of \<open>total_hash_builder\<close> when its sink cannot fail, so that the
  clients return one storage root for one set of slots.
\<close>

section \<open>The adapters\<close>

lemma ethrex_fold_eq:
  "foldE (\<lambda>(k, v) b. StreamHashBuilder_AddLeaf keccak sink b k v) kvs b =
    StreamHashBuilder_AddLeaves keccak sink b kvs"
  by (induction keccak sink b kvs rule: StreamHashBuilder_AddLeaves.induct) (auto intro!: bindE_cong)

lemma ethrex_run:
  assumes "sorted_hashes kvs" "foldE (\<lambda>(k, v) b. StreamHashBuilder_AddLeaf keccak sink b k v) kvs (NewStreamHashBuilder w) = Inr h"
    and "StreamHashBuilder_Root keccak sink h = Inr (r, h')"
  shows "r = trie_root keccak (nibble_entries kvs)"
  using StreamHashBuilder_build_eq [OF assms(1), of keccak sink w] assms(2,3)
  by (auto simp: StreamHashBuilder_build_def ethrex_fold_eq bindE_def split: sum.splits)

interpretation ethrex_hb: hash_builder True "NewStreamHashBuilder w"
  "\<lambda>k v b. StreamHashBuilder_AddLeaf keccak sink b k v" "StreamHashBuilder_Root keccak sink"
  "\<lambda>kvs. trie_root keccak (nibble_entries kvs)"
  for keccak sink w
  by unfold_locales (auto dest: ethrex_run)

lemma emitRows_pure: "emitRows (\<lambda>r w. Inr (f r w)) rs w = Inr (foldl (\<lambda>w r. f r w) w rs)"
  by (induction rs arbitrary: w) (simp_all add: callSink_def)

lemma ethrex_accepts:
  assumes "sorted_hashes kvs" "sink = (\<lambda>r w. Inr (f r w))"
  shows "\<exists>h r h'. foldE (\<lambda>(k, v) b. StreamHashBuilder_AddLeaf keccak sink b k v) kvs
      (NewStreamHashBuilder w) = Inr h \<and> StreamHashBuilder_Root keccak sink h = Inr (r, h')"
  using StreamHashBuilder_build_eq [OF assms(1), of keccak sink w]
  by (auto simp: assms(2) StreamHashBuilder_build_def ethrex_fold_eq emitRows_pure bindE_eq_Inr)

interpretation ethrex_pure: total_hash_builder True "NewStreamHashBuilder w"
  "\<lambda>k v b. StreamHashBuilder_AddLeaf keccak (\<lambda>r w. Inr (f r w)) b k v"
  "StreamHashBuilder_Root keccak (\<lambda>r w. Inr (f r w))"
  "\<lambda>kvs. trie_root keccak (nibble_entries kvs)"
  for keccak f w
  by unfold_locales (rule ethrex_accepts [OF _ refl])

definition payload_entries :: "bytes entry list \<Rightarrow> (bytes \<times> bytes) entry list" where
  "payload_entries kvs = map (\<lambda>(k, v). (BytesToNibbles k, v, AppendStoLeafPayloadFromRLP [] v)) kvs"

lemma payload_entries_fst: "map (apsnd fst) (payload_entries kvs) = nibble_entries kvs"
  by (simp add: payload_entries_def nibble_entries_def comp_def case_prod_beta)

lemma payload_entries_Nil: "payload_entries kvs = [] \<longleftrightarrow> kvs = []"
  by (simp add: payload_entries_def)

lemma wf_payload_entries: "sorted_hashes kvs \<Longrightarrow> wf_entries 64 (payload_entries kvs)"
  using wf_nibble_entries [of kvs]
  by (auto simp: wf_entries_def payload_entries_def nibble_entries_def comp_def case_prod_beta)

lemma nimbus_fold_eq:
  "foldE (\<lambda>(k, v) b. nimbus_Stream_AddLeaf keccak sink b k v) kvs b =
    nimbus_AddLeaves keccak sink b (payload_entries kvs)"
proof (induction kvs arbitrary: b)
  case (Cons kv kvs)
  then show ?case
    by (cases kv) (auto simp: payload_entries_def nimbus_Stream_AddLeaf_def BytesToNibbles_def intro!: bindE_cong)
qed (simp add: payload_entries_def)

lemma nimbus_run:
  assumes "keccak_spec keccak \<and> root \<noteq> 0" "sorted_hashes kvs"
    and "foldE (\<lambda>(k, v) b. nimbus_Stream_AddLeaf keccak sink b k v) kvs (the (nimbus_NewBuilder root a w)) = Inr h"
    and "nimbus_Stream_Root keccak erh sink h = Inr (r, h')"
  shows "r = (if kvs = [] then erh else trie_root keccak (nibble_entries kvs))"
  using nimbus_build_eq [OF wf_payload_entries [OF assms(2)], of keccak root erh sink a w] assms(1,3,4)
  by (auto simp: nimbus_build_def nimbus_fold_eq nimbus_Stream_Root_def nimbus_NewBuilder_def payload_entries_fst
      bindE_def payload_entries_Nil split: sum.splits)

interpretation nimbus_hb: hash_builder "keccak_spec keccak \<and> root \<noteq> 0" "the (nimbus_NewBuilder root a w)"
  "\<lambda>k v b. nimbus_Stream_AddLeaf keccak sink b k v" "nimbus_Stream_Root keccak erh sink"
  "\<lambda>kvs. if kvs = [] then erh else trie_root keccak (nibble_entries kvs)"
  for keccak root a w sink erh
  by unfold_locales (rule nimbus_run)

lemma sendRows_pure:
  assumes "\<forall>r \<in> set rs. length (snd r) \<le> MaxVertexBlobSize" "sink = (\<lambda>r rec w. Inr (f r rec w))"
  shows "\<exists>w'. sendRows sink rs w = Inr w'"
  using assms(1) by (induction rs arbitrary: w) (auto simp: sendRow_def assms(2))

lemma payload_size: "length (AppendStoLeafPayloadFromRLP [] v) \<le> 84"
proof -
  have "unat (v ! 0 - 0x80) \<le> 32" if "v ! 0 > 0x80" "v ! 0 \<le> 0xa0"
    using that by (simp add: word_le_nat_alt word_less_nat_alt unat_sub)
  then show ?thesis by (auto simp: AppendStoLeafPayloadFromRLP_def Let_def)
qed

lemma nimbus_accepts:
  assumes "keccak_spec keccak \<and> root \<noteq> 0" "sorted_hashes kvs" "sink = (\<lambda>r rec w. Inr (f r rec w))"
  shows "\<exists>h r h'. foldE (\<lambda>(k, v) b. nimbus_Stream_AddLeaf keccak sink b k v) kvs (the (nimbus_NewBuilder root a w)) = Inr h \<and>
    nimbus_Stream_Root keccak erh sink h = Inr (r, h')"
proof -
  note wf = wf_payload_entries [OF assms(2)]
  have "\<forall>r \<in> set (vertex_rows keccak a root (payload_entries kvs)). length (snd r) \<le> MaxVertexBlobSize"
  proof -
    have "\<forall>kv \<in> set (payload_entries kvs). length (snd (snd kv)) \<le> 84"
      using payload_size by (auto simp: payload_entries_def)
    then show ?thesis using record_size [OF wf _ conjunct1 [OF assms(1)]] by auto
  qed
  from sendRows_pure [OF this assms(3)] obtain w' where
    "sendRows sink (vertex_rows keccak a root (payload_entries kvs)) w = Inr w'" by blast
  then show ?thesis
    using nimbus_build_eq [OF wf, of keccak root erh sink a w] assms(1)
    by (auto simp: nimbus_build_def nimbus_fold_eq nimbus_Stream_Root_def nimbus_NewBuilder_def bindE_eq_Inr)
qed

interpretation nimbus_pure: total_hash_builder "keccak_spec keccak \<and> root \<noteq> 0" "the (nimbus_NewBuilder root a w)"
  "\<lambda>k v b. nimbus_Stream_AddLeaf keccak (\<lambda>r rec w. Inr (f r rec w)) b k v"
  "nimbus_Stream_Root keccak erh (\<lambda>r rec w. Inr (f r rec w))"
  "\<lambda>kvs. if kvs = [] then erh else trie_root keccak (nibble_entries kvs)"
  for keccak root a w f erh
  by unfold_locales (rule nimbus_accepts [OF _ _ refl])

lemma besu_Commit_Inr:
  "StreamingStorageBuilder_Commit R keccak sink a c = Inr (r, c') \<longleftrightarrow>
    (\<exists>rr. besu_finalize R keccak sink (StorageTrieEmitter a) c = Inr ((r, rr), c'))"
  by (auto simp: StreamingStorageBuilder_Commit_def bindE_def split: sum.splits)

lemma besu_stream_Inr:
  "besu_stream R keccak sink (StorageTrieEmitter a) w kvs = Inr (rr, w') \<longleftrightarrow>
    (\<exists>c c'. foldE (\<lambda>(k, v) c. StreamingStorageBuilder_AddSlot R keccak sink a k v c) kvs (NewStreamingBuilder w) = Inr c \<and>
      besu_finalize R keccak sink (StorageTrieEmitter a) c = Inr (rr, c') \<and> w' = sb_world c')"
  by (cases rr) (auto simp: besu_stream_def StreamingStorageBuilder_AddSlot_def bindE_eq_Inr)

lemma besu_run:
  assumes "geth_rlp_spec R \<and> keccak_spec keccak" "sorted_hashes kvs"
    and "foldE (\<lambda>(k, v) c. StreamingStorageBuilder_AddSlot R keccak sink a k v c) kvs (NewStreamingBuilder w) = Inr c"
    and "StreamingStorageBuilder_Commit R keccak sink a c = Inr (r, c')"
  shows "r = trie_root keccak (nibble_entries kvs)"
proof -
  obtain rr where b: "besu_stream R keccak sink (StorageTrieEmitter a) w kvs = Inr ((r, rr), sb_world c')"
    using assms(3,4) unfolding besu_Commit_Inr besu_stream_Inr by blast
  show ?thesis
  proof (cases "kvs = []")
    case True
    then show ?thesis
      using b by (simp add: besu_stream_def besu_finalize_def NewStreamingBuilder_def trie_root_def nibble_entries_def
          EmptyTrieNodeHash_eq)
  next
    case False
    then obtain t where t: "mk 0 (nibble_entries kvs) = Some t"
      using mk_eq_None [of 0 "nibble_entries kvs"] by (auto simp: nibble_entries_def simp del: mk_eq_None)
    from besu_stream_eq [OF conjunct1 [OF assms(1)] conjunct2 [OF assms(1)] assms(2) False t, of sink
        "StorageTrieEmitter a" w] obtain rr' where
      "besu_stream R keccak sink (StorageTrieEmitter a) w kvs =
        bindE (emitAll (emitRow keccak sink (StorageTrieEmitter a)) (besu_rows keccak t) w)
          (\<lambda>w. Inr ((keccak (enc keccak t), rr'), w))" by blast
    with b have "bindE (emitAll (emitRow keccak sink (StorageTrieEmitter a)) (besu_rows keccak t) w)
          (\<lambda>w. Inr ((keccak (enc keccak t), rr'), w)) = Inr ((r, rr), sb_world c')" by simp
    then show ?thesis by (auto simp: trie_root_def t bindE_eq_Inr)
  qed
qed

interpretation besu_sb: hash_builder "geth_rlp_spec R \<and> keccak_spec keccak" "NewStreamingBuilder w"
  "\<lambda>k v c. StreamingStorageBuilder_AddSlot R keccak sink a k v c" "StreamingStorageBuilder_Commit R keccak sink a"
  "\<lambda>kvs. trie_root keccak (nibble_entries kvs)"
  for R keccak w sink a
  by unfold_locales (rule besu_run)

text \<open>A sink that only records.\<close>

definition recording :: "(bytes \<Rightarrow> bytes \<Rightarrow> 'w \<Rightarrow> 'w) \<Rightarrow> ('w, 'e) NodeSink" where
  "recording f =
     \<lparr>PutAccountStateTrieNode = (\<lambda>location hash rlp w. Inr (f location rlp w)),
      PutAccountStorageTrieNode = (\<lambda>addrHash location hash rlp w. Inr (f (StorageTrieKey addrHash location) rlp w))\<rparr>"

lemma emit_recording: "\<exists>w'. emitAll (emitRow keccak (recording f) em) rs w = Inr w'"
proof (induction rs arbitrary: w)
  case (Cons r rs)
  then show ?case by (cases r; cases em) (simp_all add: besu_emit_def recording_def)
qed simp

lemma besu_accepts:
  fixes f :: "bytes \<Rightarrow> bytes \<Rightarrow> 'w \<Rightarrow> 'w"
  assumes "geth_rlp_spec R \<and> keccak_spec keccak" "sorted_hashes kvs"
  shows "\<exists>c r c'. foldE (\<lambda>(k, v) c. StreamingStorageBuilder_AddSlot R keccak (recording f :: ('w, 'e) NodeSink) a k v c) kvs
      (NewStreamingBuilder w) = Inr c \<and>
    StreamingStorageBuilder_Commit R keccak (recording f :: ('w, 'e) NodeSink) a c = Inr (r, c')"
proof -
  have "\<exists>r w'. besu_stream R keccak (recording f :: ('w, 'e) NodeSink) (StorageTrieEmitter a) w kvs = Inr (r, w')"
  proof (cases "kvs = []")
    case True
    then show ?thesis by (simp add: besu_stream_def besu_finalize_def NewStreamingBuilder_def)
  next
    case False
    then obtain t where t: "mk 0 (nibble_entries kvs) = Some t"
      using mk_eq_None [of 0 "nibble_entries kvs"] by (auto simp: nibble_entries_def simp del: mk_eq_None)
    from besu_stream_eq [OF conjunct1 [OF assms(1)] conjunct2 [OF assms(1)] assms(2) False t, of "recording f"
        "StorageTrieEmitter a" w] obtain rr where
      e: "besu_stream R keccak (recording f :: ('w, 'e) NodeSink) (StorageTrieEmitter a) w kvs =
        bindE (emitAll (emitRow keccak (recording f) (StorageTrieEmitter a)) (besu_rows keccak t) w)
          (\<lambda>w. Inr ((keccak (enc keccak t), rr), w))" by blast
    have "\<exists>w'. emitAll (emitRow keccak (recording f :: ('w, 'e) NodeSink) (StorageTrieEmitter a)) (besu_rows keccak t) w = Inr w'"
      by (rule emit_recording)
    then show ?thesis unfolding e by (auto simp: bindE_eq_Inr)
  qed
  then show ?thesis unfolding besu_Commit_Inr besu_stream_Inr by force
qed

interpretation besu_pure: total_hash_builder "geth_rlp_spec R \<and> keccak_spec keccak" "NewStreamingBuilder w"
  "\<lambda>k v c. StreamingStorageBuilder_AddSlot R keccak (recording f) a k v c"
  "StreamingStorageBuilder_Commit R keccak (recording f) a"
  "\<lambda>kvs. trie_root keccak (nibble_entries kvs)"
  for R keccak w f a
  by unfold_locales (rule besu_accepts)

interpretation reth_hb: total_hash_builder "keccak_spec keccak" "NewHashBuilder w"
  "\<lambda>k v r. rethStorage_AddLeaf keccak emit k v r" "rethStorage_Root keccak emit"
  "\<lambda>kvs. trie_root keccak (nibble_entries kvs)"
  for keccak w emit
proof unfold_locales
  fix kvs h r h'
  assume "keccak_spec keccak" "sorted_hashes kvs"
    and "foldE (\<lambda>(k, v). rethStorage_AddLeaf keccak emit k v) kvs (NewHashBuilder w) = Inr h"
    and "rethStorage_Root keccak emit h = Inr (r, h')"
  then show "r = trie_root keccak (nibble_entries kvs)" using rethStorage_runs [of keccak kvs emit w] by auto
next
  fix kvs
  assume "keccak_spec keccak" "sorted_hashes kvs"
  then show "\<exists>h r h'. foldE (\<lambda>(k, v). rethStorage_AddLeaf keccak emit k v) kvs (NewHashBuilder w) = Inr h \<and>
      rethStorage_Root keccak emit h = Inr (r, h')"
    using rethStorage_runs [of keccak kvs emit w] by blast
qed

section \<open>Properties\<close>

lemma sorted_map_unique:
  assumes "sorted_wrt bytesLess (map fst xs)" "sorted_wrt bytesLess (map fst ys)" "map_of xs = map_of ys"
  shows "xs = ys"
proof -
  have d: "distinct (map fst xs)" "distinct (map fst ys)"
    using assms(1,2) by (auto intro: sorted_bytesLess_distinct)
  have "set xs = set ys" using assms(3) d by (metis map_of_eqI map_of_inject_set)
  moreover have "sorted_wrt (\<lambda>a b. bytesLess (fst a) (fst b)) xs" "sorted_wrt (\<lambda>a b. bytesLess (fst a) (fst b)) ys"
    using assms(1,2) by (simp_all add: sorted_wrt_map)
  ultimately show ?thesis
    by (rule sorted_wrt_set_unique [rotated 2]) (auto intro: bytesLess_trans)
qed

abbreviation trimmed_rlp :: "bytes \<Rightarrow> bytes" where
  "trimmed_rlp v \<equiv> rlpEncodeBytes (dropWhile (\<lambda>b. b = 0) v)"

text \<open>
  C13: the storage root of a streamed account.  When \<open>StorageRoot\<close> over the ethrex builder returns,
  its result is the root of the reference trie over the slots' last non-zero values, keyed by the
  hashes of the slot keys in ascending order and RLP-encoded without leading zeros, whatever the
  order in which the slots came, whatever the sinks did and however the sorter flushed.
\<close>

theorem storage_root_correct:
  assumes "\<forall>b. rlpEncode b = Inr (rlpEncodeBytes b)" "pebble_spec P V" "keccak_spec keccak"
    and "\<forall>kv \<in> set (nonzero_slots storage). length (fst kv) = 32 \<and> length (snd kv) = 32"
    and "StorageRoot P mkdir keccak rlpEncode (\<lambda>k v b. StreamHashBuilder_AddLeaf keccak sink b k v)
      (StreamHashBuilder_Root keccak sink) d storage (Some (NewStreamHashBuilder w0)) slotSink w = Inr (r, h, w')"
  shows "\<exists>es. sorted_wrt bytesLess (map fst es) \<and> map_of es = slot_map keccak storage \<and>
    r = trie_root keccak (nibble_entries (map (apsnd trimmed_rlp) es))"
  using ethrex_hb.storage_root [OF TrueI assms] .

theorem storage_root_correct_witness:
  "\<exists>r h. StorageRoot pebble_model Inr (\<lambda>x. replicate 32 (last x)) (\<lambda>b. Inr (rlpEncodeBytes b))
      (\<lambda>k v b. StreamHashBuilder_AddLeaf (\<lambda>x. replicate 32 (last x)) (\<lambda>r w. Inr (w @ [r])) b k v)
      (StreamHashBuilder_Root (\<lambda>x. replicate 32 (last x)) (\<lambda>r w. Inr (w @ [r]))) ''tmp''
      (Some [(replicate 32 2, replicate 32 7), (replicate 32 1, zeroHash), (replicate 32 2, replicate 32 9)])
      (Some (NewStreamHashBuilder [])) (None :: (unit, unit) slot_sink option) () = Inr (r, h, ()) \<and>
    (\<exists>es. map_of es = [replicate 32 2 \<mapsto> replicate 32 9] \<and>
      r = trie_root (\<lambda>x. replicate 32 (last x)) (nibble_entries (map (apsnd trimmed_rlp) es)))"
proof -
  let ?slots = "Some [(replicate 32 2, replicate 32 7), (replicate 32 1, zeroHash), (replicate 32 2, replicate 32 9)]"
  have n: "nonzero_slots ?slots = [(replicate 32 2, replicate 32 7), (replicate 32 2, replicate 32 9)]"
    by (simp add: zeroHash_def)
  have k: "keccak_spec (\<lambda>x. replicate 32 (last x))" by (simp add: keccak_spec_def)
  have m: "slot_map (\<lambda>x. replicate 32 (last x)) ?slots = [replicate 32 2 \<mapsto> replicate 32 9]"
    unfolding slot_map_def n by (simp add: fun_eq_iff)
  have l: "\<forall>kv \<in> set (nonzero_slots ?slots). length (fst kv) = 32 \<and> length (snd kv) = 32" unfolding n by simp
  show ?thesis
    using ethrex_pure.storage_root_total [OF TrueI _ pebble_model_spec pebble_model_total _ k l,
        of "\<lambda>b. Inr (rlpEncodeBytes b)" Inr "''tmp''" "''tmp''" "\<lambda>x. replicate 32 (last x)" "\<lambda>r w. w @ [r]" "[]" "()"]
      storage_root_correct [OF _ pebble_model_spec k l, of "\<lambda>b. Inr (rlpEncodeBytes b)" Inr "\<lambda>r w. Inr (w @ [r])" "''tmp''"
        "[]" None "()"]
    unfolding m by fastforce
qed

text \<open>
  C6: the clients agree.  For one set of slots, streamed in any order through different sorters, sinks
  and identifier allocators, the ethrex, the nimbus, the besu and the reth builder return the same storage root
  (the nimbus builder being given the empty-trie hash as a constant).
\<close>

theorem clients_agree_on_storage_root:
  assumes rlp: "\<forall>b. rlpEncode b = Inr (rlpEncodeBytes b)" "geth_rlp_spec R"
    and P: "pebble_spec P V" "pebble_spec P' V'" "pebble_spec P'' V''" "pebble_spec P3 V3"
    and kec: "keccak_spec keccak" and root: "root \<noteq> 0"
    and len: "\<forall>kv \<in> set (nonzero_slots storage). length (fst kv) = 32 \<and> length (snd kv) = 32"
      "\<forall>kv \<in> set (nonzero_slots storage'). length (fst kv) = 32 \<and> length (snd kv) = 32"
      "\<forall>kv \<in> set (nonzero_slots storage''). length (fst kv) = 32 \<and> length (snd kv) = 32"
      "\<forall>kv \<in> set (nonzero_slots storage3). length (fst kv) = 32 \<and> length (snd kv) = 32"
    and same: "slot_map keccak storage' = slot_map keccak storage" "slot_map keccak storage'' = slot_map keccak storage"
      "slot_map keccak storage3 = slot_map keccak storage"
    and e: "StorageRoot P mkdir keccak rlpEncode (\<lambda>k v b. StreamHashBuilder_AddLeaf keccak sink b k v)
      (StreamHashBuilder_Root keccak sink) d storage (Some (NewStreamHashBuilder w0)) slotSink w = Inr (r, h, w')"
    and n: "StorageRoot P' mkdir' keccak rlpEncode (\<lambda>k v b. nimbus_Stream_AddLeaf keccak vsink b k v)
      (nimbus_Stream_Root keccak EmptyTrieHash vsink) d' storage' (Some (the (nimbus_NewBuilder root a w1)))
      slotSink' w2 = Inr (r', h', w3)"
    and b: "StorageRoot P'' mkdir'' keccak rlpEncode (\<lambda>k v c. StreamingStorageBuilder_AddSlot R keccak nsink addr k v c)
      (StreamingStorageBuilder_Commit R keccak nsink addr) d'' storage'' (Some (NewStreamingBuilder w4))
      slotSink'' w5 = Inr (r'', h'', w6)"
    and t: "StorageRoot P3 mkdir3 keccak rlpEncode (\<lambda>k v h. rethStorage_AddLeaf keccak emit k v h)
      (rethStorage_Root keccak emit) d3 storage3 (Some (NewHashBuilder w7)) slotSink3 w8 = Inr (r3, h3, w9)"
  shows "r = r' \<and> r = r'' \<and> r = r3"
proof -
  from ethrex_hb.storage_root [OF TrueI rlp(1) P(1) kec len(1) e] obtain es where
    es: "sorted_wrt bytesLess (map fst es)" "map_of es = slot_map keccak storage"
      "r = trie_root keccak (nibble_entries (map (apsnd trimmed_rlp) es))" by blast
  have ready: "keccak_spec keccak \<and> root \<noteq> 0" "geth_rlp_spec R \<and> keccak_spec keccak" using kec root rlp by simp_all
  from nimbus_hb.storage_root [OF ready(1) rlp(1) P(2) kec len(2) n] obtain es' where
    es': "sorted_wrt bytesLess (map fst es')" "map_of es' = slot_map keccak storage'"
      "r' = (if map (apsnd trimmed_rlp) es' = [] then EmptyTrieHash
        else trie_root keccak (nibble_entries (map (apsnd trimmed_rlp) es')))" by blast
  from besu_sb.storage_root [OF ready(2) rlp(1) P(3) kec len(3) b] obtain es'' where
    es'': "sorted_wrt bytesLess (map fst es'')" "map_of es'' = slot_map keccak storage''"
      "r'' = trie_root keccak (nibble_entries (map (apsnd trimmed_rlp) es''))" by blast
  from reth_hb.storage_root [OF kec rlp(1) P(4) kec len(4) t] obtain es3 where
    es3: "sorted_wrt bytesLess (map fst es3)" "map_of es3 = slot_map keccak storage3"
      "r3 = trie_root keccak (nibble_entries (map (apsnd trimmed_rlp) es3))" by blast
  have "es3 = es" using es(1,2) es3(1,2) same by (intro sorted_map_unique) simp_all
  moreover have "es' = es" using es(1,2) es'(1,2) same by (intro sorted_map_unique) simp_all
  moreover have "es'' = es" using es(1,2) es''(1,2) same by (intro sorted_map_unique) simp_all
  ultimately show ?thesis using es(3) es'(3) es''(3) es3(3) by (simp add: trie_root_def nibble_entries_def)
qed

theorem clients_agree_on_storage_root_witness:
  "\<exists>r h h' h'' h3. StorageRoot pebble_model Inr (\<lambda>x. replicate 32 (last x)) (\<lambda>b. Inr (rlpEncodeBytes b))
      (\<lambda>k v b. StreamHashBuilder_AddLeaf (\<lambda>x. replicate 32 (last x)) (\<lambda>r w. Inr (w @ [r])) b k v)
      (StreamHashBuilder_Root (\<lambda>x. replicate 32 (last x)) (\<lambda>r w. Inr (w @ [r]))) ''tmp''
      (Some [(replicate 32 2, replicate 32 9), (replicate 32 1, replicate 32 8)])
      (Some (NewStreamHashBuilder [])) (None :: (unit, unit) slot_sink option) () = Inr (r, h, ()) \<and>
    StorageRoot pebble_model Inr (\<lambda>x. replicate 32 (last x)) (\<lambda>b. Inr (rlpEncodeBytes b))
      (\<lambda>k v b. nimbus_Stream_AddLeaf (\<lambda>x. replicate 32 (last x)) (\<lambda>r rec w. Inr (collect w r rec)) b k v)
      (nimbus_Stream_Root (\<lambda>x. replicate 32 (last x)) EmptyTrieHash (\<lambda>r rec w. Inr (collect w r rec))) ''tmp''
      (Some [(replicate 32 1, replicate 32 8), (replicate 32 2, replicate 32 9)])
      (Some (the (nimbus_NewBuilder 1 NewVidAllocator []))) (None :: (unit, unit) slot_sink option) () = Inr (r, h', ()) \<and>
    StorageRoot pebble_model Inr (\<lambda>x. replicate 32 (last x)) (\<lambda>b. Inr (rlpEncodeBytes b))
      (\<lambda>k v c. StreamingStorageBuilder_AddSlot geth_rlp_model (\<lambda>x. replicate 32 (last x))
        (recording (\<lambda>l x w. w @ [(l, x)]) :: (_, unit) NodeSink) [] k v c)
      (StreamingStorageBuilder_Commit geth_rlp_model (\<lambda>x. replicate 32 (last x)) (recording (\<lambda>l x w. w @ [(l, x)])) []) ''tmp''
      (Some [(replicate 32 1, replicate 32 8), (replicate 32 2, replicate 32 9)])
      (Some (NewStreamingBuilder [])) (None :: (unit, unit) slot_sink option) () = Inr (r, h'', ()) \<and>
    StorageRoot pebble_model Inr (\<lambda>x. replicate 32 (last x)) (\<lambda>b. Inr (rlpEncodeBytes b))
      (\<lambda>k v h. rethStorage_AddLeaf (\<lambda>x. replicate 32 (last x)) (\<lambda>p row w. (None :: unit option, w @ [(p, row)])) k v h)
      (rethStorage_Root (\<lambda>x. replicate 32 (last x)) (\<lambda>p row w. (None :: unit option, w @ [(p, row)]))) ''tmp''
      (Some [(replicate 32 1, replicate 32 8), (replicate 32 2, replicate 32 9)])
      (Some (NewHashBuilder [])) (None :: (unit, unit) slot_sink option) () = Inr (r, h3, ())"
proof -
  let ?s = "Some [(replicate 32 2, replicate 32 9), (replicate 32 1, replicate 32 8)]"
  let ?s' = "Some [(replicate 32 1, replicate 32 8), (replicate 32 2, replicate 32 9)]"
  have n: "nonzero_slots ?s = [(replicate 32 2, replicate 32 9), (replicate 32 1, replicate 32 8)]"
    "nonzero_slots ?s' = [(replicate 32 1, replicate 32 8), (replicate 32 2, replicate 32 9)]"
    by (simp_all add: zeroHash_def)
  have k: "keccak_spec (\<lambda>x. replicate 32 (last x))" by (simp add: keccak_spec_def)
  have m: "slot_map (\<lambda>x. replicate 32 (last x)) ?s' = slot_map (\<lambda>x. replicate 32 (last x)) ?s"
    unfolding slot_map_def n by (auto simp: fun_eq_iff)
  have l: "\<forall>kv \<in> set (nonzero_slots ?s). length (fst kv) = 32 \<and> length (snd kv) = 32"
    "\<forall>kv \<in> set (nonzero_slots ?s'). length (fst kv) = 32 \<and> length (snd kv) = 32" unfolding n by simp_all
  have ready: "keccak_spec (\<lambda>x. replicate 32 (last x)) \<and> (1 :: VertexID) \<noteq> 0"
    "geth_rlp_spec geth_rlp_model \<and> keccak_spec (\<lambda>x. replicate 32 (last x))" using k geth_rlp_model_spec by simp_all
  note e = ethrex_pure.storage_root_total [OF TrueI _ pebble_model_spec pebble_model_total _ k l(1),
        of "\<lambda>b. Inr (rlpEncodeBytes b)" Inr "''tmp''" "''tmp''" "\<lambda>x. replicate 32 (last x)" "\<lambda>r w. w @ [r]" "[]" "()"]
  note n = nimbus_pure.storage_root_total [OF ready(1) _ pebble_model_spec pebble_model_total _ k l(2),
        of "\<lambda>b. Inr (rlpEncodeBytes b)" Inr "''tmp''" "''tmp''" "\<lambda>r rec w. collect w r rec" EmptyTrieHash NewVidAllocator "[]" "()"]
  note b = besu_pure.storage_root_total [OF ready(2) _ pebble_model_spec pebble_model_total _ k l(2),
        of "\<lambda>b. Inr (rlpEncodeBytes b)" Inr "''tmp''" "''tmp''" "\<lambda>l x w. w @ [(l, x)]" "[]" "[]" "()"]
  note t = reth_hb.storage_root_total [OF k _ pebble_model_spec pebble_model_total _ k l(2),
        of "\<lambda>b. Inr (rlpEncodeBytes b)" Inr "''tmp''" "''tmp''" "\<lambda>p row w. (None :: unit option, w @ [(p, row)])" "[]" "()"]
  show ?thesis
    using e n b t clients_agree_on_storage_root [OF _ geth_rlp_model_spec pebble_model_spec pebble_model_spec
        pebble_model_spec pebble_model_spec k _ l(1) l(2) l(2) l(2) m m m,
      of "\<lambda>b. Inr (rlpEncodeBytes b)" 1 Inr "\<lambda>r w. Inr (w @ [r])" "''tmp''" "[]" None "()"] by fastforce
qed



end
