(* ===== verification/Trie_Lookup.thy ===== *)
theory Trie_Lookup
  imports Trie_Spec
begin

text \<open>
  The reference trie stores exactly the entries it was made from: walking it with a key of the
  common length returns the value of that key, or nothing.
\<close>

lemma size_child_nth [termination_simp]:
  "i < length cs \<Longrightarrow> cs ! i = Some t \<Longrightarrow> size t < Suc (size_list (size_option size) cs)"
  using size_child [of i t "[0..<length cs]" cs] by (force simp: set_zip)

fun mlookup :: "'v mpt \<Rightarrow> bytes \<Rightarrow> 'v option" where
  "mlookup (Leaf r v) k = (if k = r then Some v else None)"
| "mlookup (Branch pfx cs) k =
     (if take (length pfx) k = pfx then
        (case drop (length pfx) k of
           [] \<Rightarrow> None
         | b # k' \<Rightarrow>
             if unat b < length cs then
               (case cs ! unat b of None \<Rightarrow> None | Some t \<Rightarrow> mlookup t k')
             else None)
      else None)"

lemma map_of_grp: "nib k d = i \<Longrightarrow> map_of (grp d i kvs) k = map_of kvs k"
  by (induction kvs) (auto simp: grp_def)

lemma map_of_wf_None:
  assumes "\<And>kv. kv \<in> set kvs \<Longrightarrow> fst kv \<noteq> k"
  shows "map_of kvs k = None"
  using assms by (induction kvs) auto

lemma mlookup_grp_None:
  assumes "grp d (nib k d) kvs = []"
  shows "map_of kvs k = None"
  using assms by (intro map_of_wf_None) (auto simp: grp_def filter_empty_conv)

lemma mlookup_mk:
  assumes "wf_entries L kvs" "agree p kvs" "p \<le> L" "kvs \<noteq> []"
    and "length k = L" "take p k = take p (lkey kvs)"
  shows "(case mk p kvs of None \<Rightarrow> None | Some t \<Rightarrow> mlookup t (drop p k)) = map_of kvs k"
  using assms
proof (induction p kvs rule: mk.induct)
  case (1 p kvs)
  let ?d = "split_at kvs" and ?key = "lkey kvs"
  have len: "length ?key = L" using 1 wf_entries_lkey by blast
  show ?case
  proof (cases "splits kvs")
    case True
    let ?f = "\<lambda>i. mk (Suc ?d) (grp ?d i kvs)"
    have pd: "p \<le> ?d" using agree_split_at "1.prems"(2,4) by blast
    have dL: "?d < L" using split_at_less [OF True] len by simp
    have root: "mk p kvs = Some (Branch (subslice p ?d ?key) (map ?f [0..<16]))"
      using True by (simp add: mk.simps [of p kvs])
    have lenp: "length (subslice p ?d ?key) = ?d - p" using pd dL len by simp
    have pfx: "take (?d - p) (drop p k) = subslice p ?d ?key \<longleftrightarrow> take ?d k = take ?d ?key"
    proof -
      have "take ?d x = take p x @ subslice p ?d x" for x :: bytes
        using pd by (simp add: take_append_subslice)
      from this [of k] this [of ?key] show ?thesis
        using "1.prems"(6) by (simp add: subslice_def)
    qed
    have rest: "drop (?d - p) (drop p k) = k ! ?d # drop (Suc ?d) k"
      using pd dL "1.prems"(5) by (simp add: Cons_nth_drop_Suc)
    show ?thesis
    proof (cases "take ?d k = take ?d ?key")
      case False
      then have "map_of kvs k = None"
        using take_split_at [OF "1.prems"(1) _ order_refl] by (intro map_of_wf_None) auto
      with False pfx lenp show ?thesis by (simp add: root)
    next
      case same: True
      have step: "(case mk p kvs of None \<Rightarrow> None | Some t \<Rightarrow> mlookup t (drop p k)) =
        (if nib k ?d < 16 then
           (case ?f (nib k ?d) of None \<Rightarrow> None | Some t \<Rightarrow> mlookup t (drop (Suc ?d) k))
         else None)"
        using pfx lenp rest same
        by (simp add: root nib_def del: drop_drop upt_rec_numeral)
      show ?thesis
      proof (cases "grp ?d (nib k ?d) kvs = []")
        case True
        then show ?thesis by (simp add: step mlookup_grp_None)
      next
        case False
        let ?g = "grp ?d (nib k ?d) kvs"
        have g: "lkey ?g = fst (last ?g)" "last ?g \<in> set ?g" using False by (simp_all add: lkey_def)
        then have lg: "last ?g \<in> set kvs" "nib (lkey ?g) ?d = nib k ?d"
          by (auto simp: grp_def)
        have lenk: "length (lkey ?g) = L" using lg(1) "1.prems"(1) g by (simp add: wf_entriesD)
        have n: "nib k ?d < 16"
          using lg g "1.prems"(1) dL wf_entriesD [of L kvs "last ?g"] nib_less [of "lkey ?g" ?d] by simp
        have "take ?d (lkey ?g) = take ?d k"
          using take_split_at [OF "1.prems"(1) lg(1) order_refl] g same by simp
        moreover have "lkey ?g ! ?d = k ! ?d" using lg(2) by (simp add: nib_def unat_byte_eq_iff)
        ultimately have "take (Suc ?d) k = take (Suc ?d) (lkey ?g)"
          using dL lenk "1.prems"(5) by (simp add: take_Suc_conv_app_nth)
        then have "(case ?f (nib k ?d) of None \<Rightarrow> None | Some t \<Rightarrow> mlookup t (drop (Suc ?d) k)) =
            map_of ?g k"
          using "1.IH" [OF True _ wf_entries_grp agree_grp _ False] "1.prems"(1,5) True dL n by simp
        with n show ?thesis by (simp add: step map_of_grp)
      qed
    qed
  next
    case False
    then obtain k0 v where kvs: "kvs = [(k0, v)]"
      using splits_iff [OF "1.prems"(1)] "1.prems"(4) by (cases kvs; cases "tl kvs") auto
    have "drop p k = drop p k0 \<longleftrightarrow> k = k0"
      using "1.prems"(6) kvs by (metis append_take_drop_id fst_conv last.simps lkey_def)
    then show ?thesis
      using False kvs by (simp add: mk.simps [of p "[(k0, v)]"] lkey_def lval_def)
  qed
qed

end
