(* ===== verification/Trie_Canon.thy ===== *)
theory Trie_Canon
  imports Trie_Masks Trie_Lookup
begin

text \<open>
  Canonical tries.  A trie over keys of one length is canonical when every branch has at least two
  children; there is then exactly one trie for each set of entries (\<open>canon_unique\<close>), so a builder
  that inserts keys in any order and keeps its tree canonical ends with the reference trie.
\<close>

section \<open>The shape\<close>

inductive canon :: "nat \<Rightarrow> 'v mpt \<Rightarrow> bool" where
  canon_Leaf: "length r = L \<Longrightarrow> nibbly r \<Longrightarrow> canon L (Leaf r v)"
| canon_Branch: "length cs = 16 \<Longrightarrow> nibbly pfx \<Longrightarrow> L = length pfx + Suc m \<Longrightarrow>
    i < j \<Longrightarrow> j < 16 \<Longrightarrow> cs ! i \<noteq> None \<Longrightarrow> cs ! j \<noteq> None \<Longrightarrow>
    (\<And>t. Some t \<in> set cs \<Longrightarrow> canon m t) \<Longrightarrow> canon L (Branch pfx cs)"

inductive_cases canon_LeafE: "canon L (Leaf r v)"

lemma canon_BranchE:
  assumes "canon L (Branch pfx cs)"
  obtains m i j where "length cs = 16" "nibbly pfx" "L = length pfx + Suc m" "i < j" "j < 16"
    "cs ! i \<noteq> None" "cs ! j \<noteq> None" "\<And>t. Some t \<in> set cs \<Longrightarrow> canon m t"
  using assms by (rule canon.cases) blast+

lemma nibbly_simps [simp]:
  "nibbly []" "nibbly (b # k) \<longleftrightarrow> unat b < 16 \<and> nibbly k" "nibbly (xs @ ys) \<longleftrightarrow> nibbly xs \<and> nibbly ys"
  by (auto simp: nibbly_def)

lemma nibbly_take_drop [simp, intro]: "nibbly k \<Longrightarrow> nibbly (take n k)" "nibbly k \<Longrightarrow> nibbly (drop n k)"
  by (auto simp: nibbly_def dest: in_set_takeD in_set_dropD)

lemma unat_of_nat_nibble [simp]: "i < 16 \<Longrightarrow> unat (of_nat i :: byte) = i"
  by (simp add: unsigned_of_nat take_bit_nat_eq_self)

lemma of_nat_nibble_inj: "i < j \<Longrightarrow> j < 16 \<Longrightarrow> (of_nat i :: byte) \<noteq> of_nat j"
  by (metis less_trans nat_neq_iff unat_of_nat_nibble)

lemma mlookup_child:
  "length cs = 16 \<Longrightarrow> i < 16 \<Longrightarrow> mlookup (Branch pfx cs) (pfx @ of_nat i # k) =
    (case cs ! i of None \<Rightarrow> None | Some t \<Rightarrow> mlookup t k)"
  by simp

lemma canon_inhabited: "canon L t \<Longrightarrow> \<exists>k. length k = L \<and> mlookup t k \<noteq> None"
proof (induction rule: canon.induct)
  case (canon_Leaf r L v)
  then show ?case by auto
next
  case (canon_Branch cs pfx L m i j)
  then obtain t where t: "cs ! i = Some t" by blast
  then have "Some t \<in> set cs" using canon_Branch.hyps by (metis dual_order.strict_trans nth_mem)
  then obtain k where "length k = m" "mlookup t k \<noteq> None" using canon_Branch.IH by blast
  then have "length (pfx @ of_nat i # k) = L" "mlookup (Branch pfx cs) (pfx @ of_nat i # k) \<noteq> None"
    using canon_Branch.hyps t by simp_all
  then show ?case by blast
qed

text \<open>Below a branch there are keys that part right after its prefix.\<close>

lemma canon_branch_keys:
  assumes "canon L (Branch pfx cs)"
  obtains k k' i j where "length (pfx @ of_nat i # k) = L" "length (pfx @ of_nat j # k') = L" "i < j" "j < 16"
    "mlookup (Branch pfx cs) (pfx @ of_nat i # k) \<noteq> None" "mlookup (Branch pfx cs) (pfx @ of_nat j # k') \<noteq> None"
proof -
  from assms obtain m i j where 1: "length cs = 16" "nibbly pfx" "L = length pfx + Suc m" "i < j" "j < 16"
      "cs ! i \<noteq> None" "cs ! j \<noteq> None" "\<And>t. Some t \<in> set cs \<Longrightarrow> canon m t"
    by (rule canon_BranchE) blast
  have "\<exists>k. length (pfx @ of_nat x # k) = L \<and> mlookup (Branch pfx cs) (pfx @ of_nat x # k) \<noteq> None"
    if x: "x < 16" "cs ! x \<noteq> None" for x
  proof -
    obtain t where t: "cs ! x = Some t" using x by blast
    then have "Some t \<in> set cs" using 1(1) x by (metis nth_mem)
    then obtain k where "length k = m" "mlookup t k \<noteq> None" using canon_inhabited [OF 1(8)] by blast
    then show ?thesis
      using mlookup_child [OF 1(1) x(1), of pfx k] 1(3) t by (intro exI [of _ k]) (simp del: mlookup.simps)
  qed
  note key = this
  have "i < 16" using 1(4,5) by simp
  from key [OF this 1(6)] key [OF 1(5,7)] show ?thesis using that 1(4,5) by blast
qed

lemma mlookup_prefix: "mlookup (Branch pfx cs) k \<noteq> None \<Longrightarrow> take (length pfx) k = pfx"
  by (auto split: if_splits)

lemma prefix_of_both:
  assumes "take n (p @ a # x) = q" "take n (p @ b # y) = q" "length q = n" "a \<noteq> b"
  shows "n \<le> length p \<and> take n p = q"
proof -
  have "n \<le> length p"
  proof (rule ccontr)
    assume "\<not> n \<le> length p"
    then have "take n (p @ a # x) ! length p = a" "take n (p @ b # y) ! length p = b" by (simp_all add: nth_append take_Cons')
    then show False using assms by simp
  qed
  then show ?thesis using assms(1) by simp
qed

lemma canon_prefix_unique:
  assumes "canon L (Branch pfx cs)" "canon L (Branch pfx' cs')"
    and "\<And>k. length k = L \<Longrightarrow> mlookup (Branch pfx cs) k = mlookup (Branch pfx' cs') k"
  shows "length pfx' \<le> length pfx \<and> take (length pfx') pfx = pfx'"
proof -
  obtain k k' i j where *: "length (pfx @ of_nat i # k) = L" "length (pfx @ of_nat j # k') = L" "i < j" "j < 16"
      "mlookup (Branch pfx cs) (pfx @ of_nat i # k) \<noteq> None" "mlookup (Branch pfx cs) (pfx @ of_nat j # k') \<noteq> None"
    using canon_branch_keys [OF assms(1)] .
  have "(of_nat i :: byte) \<noteq> of_nat j" using *(3,4) by (rule of_nat_nibble_inj)
  moreover have "take (length pfx') (pfx @ of_nat i # k) = pfx'" "take (length pfx') (pfx @ of_nat j # k') = pfx'"
    using *(5,6) assms(3) [OF *(1)] assms(3) [OF *(2)] mlookup_prefix [of pfx' cs'] by metis+
  ultimately show ?thesis by (intro prefix_of_both) simp_all
qed

lemma canon_unique:
  assumes "canon L t" "canon L t'" "\<And>k. length k = L \<Longrightarrow> mlookup t k = mlookup t' k"
  shows "t = t'"
  using assms
proof (induction arbitrary: t' rule: canon.induct)
  case (canon_Leaf r L v)
  have one: "mlookup t' k \<noteq> None \<Longrightarrow> length k = L \<Longrightarrow> k = r" for k
    using canon_Leaf.prems(2) [of k] by (auto split: if_splits)
  show ?case
  proof (cases t')
    case (Leaf r' v')
    then show ?thesis using canon_Leaf.hyps canon_Leaf.prems(2) [of r] by (simp split: if_splits)
  next
    case (Branch pfx' cs')
    with canon_Leaf.prems(1) obtain k k' i j where *: "length (pfx' @ of_nat i # k) = L"
        "length (pfx' @ of_nat j # k') = L" "i < j" "j < 16"
        "mlookup t' (pfx' @ of_nat i # k) \<noteq> None" "mlookup t' (pfx' @ of_nat j # k') \<noteq> None"
      using canon_branch_keys [of L pfx' cs'] by metis
    then have "(of_nat i :: byte) = of_nat j"
      using one [OF *(5,1)] one [OF *(6,2)] by (metis nth_append_length)
    then show ?thesis using of_nat_nibble_inj [OF *(3,4)] by simp
  qed
next
  case (canon_Branch cs pfx L m i j)
  have c: "canon L (Branch pfx cs)" by (rule canon.canon_Branch [OF canon_Branch.hyps])
  show ?case
  proof (cases t')
    case (Leaf r' v')
    have one: "mlookup (Branch pfx cs) k \<noteq> None \<Longrightarrow> length k = L \<Longrightarrow> k = r'" for k
      using canon_Branch.prems(2) [of k] Leaf by (auto split: if_splits)
    from c obtain k k' i j where *: "length (pfx @ of_nat i # k) = L"
        "length (pfx @ of_nat j # k') = L" "i < j" "j < 16"
        "mlookup (Branch pfx cs) (pfx @ of_nat i # k) \<noteq> None" "mlookup (Branch pfx cs) (pfx @ of_nat j # k') \<noteq> None"
      using canon_branch_keys by metis
    then have "(of_nat i :: byte) = of_nat j"
      using one [OF *(5,1)] one [OF *(6,2)] by (metis nth_append_length)
    then show ?thesis using of_nat_nibble_inj [OF *(3,4)] by simp
  next
    case (Branch pfx' cs')
    note c' = canon_Branch.prems(1) [unfolded Branch] and eq = canon_Branch.prems(2) [unfolded Branch]
    have pfx: "pfx' = pfx"
      using canon_prefix_unique [OF c c' eq] canon_prefix_unique [OF c' c eq [symmetric]] by auto
    from c' obtain m' where cs': "length cs' = 16" "L = length pfx' + Suc m'" "\<And>t. Some t \<in> set cs' \<Longrightarrow> canon m' t"
      by (auto elim: canon_BranchE)
    have m: "m' = m" using cs'(2) canon_Branch.hyps(3) pfx by simp
    have "cs ! x = cs' ! x" if x: "x < 16" for x
    proof -
      have l: "(case cs ! x of None \<Rightarrow> None | Some t \<Rightarrow> mlookup t k) = (case cs' ! x of None \<Rightarrow> None | Some t \<Rightarrow> mlookup t k)"
        if "length k = m" for k
        using eq [of "pfx @ of_nat x # k"] that x canon_Branch.hyps(1,3) cs'(1) pfx by simp
      have mem: "Some t \<in> set cs" if "cs ! x = Some t" for t using that x canon_Branch.hyps(1) by (metis nth_mem)
      have mem': "Some t \<in> set cs'" if "cs' ! x = Some t" for t using that x cs'(1) by (metis nth_mem)
      show ?thesis
      proof (cases "cs ! x")
        case None
        then show ?thesis using l canon_inhabited [OF cs'(3) [OF mem']] m by (cases "cs' ! x") auto
      next
        case (Some t)
        then obtain t' where t': "cs' ! x = Some t'"
          using l canon_inhabited [OF canon_Branch.hyps(8) [OF mem]] by (cases "cs' ! x") fastforce+
        then have "t = t'"
          using canon_Branch.IH [OF mem [OF Some] cs'(3) [OF mem', unfolded m]] l Some by simp
        then show ?thesis using Some t' by simp
      qed
    qed
    then have "cs = cs'" using canon_Branch.hyps(1) cs'(1) by (auto intro: nth_equalityI)
    then show ?thesis using Branch pfx by simp
  qed
qed

section \<open>The reference trie is canonical\<close>

lemma canon_mk:
  assumes "wf_entries L kvs" "kvs \<noteq> []" "agree p kvs" "p \<le> L"
  shows "canon (L - p) (the (mk p kvs))"
  using assms
proof (induction p kvs rule: mk.induct)
  case (1 p kvs)
  let ?d = "split_at kvs" and ?key = "lkey kvs"
  note key = wf_entries_lkey [OF "1.prems"(1,2)]
  show ?case
  proof (cases "splits kvs")
    case True
    have pd: "p \<le> ?d" using agree_split_at "1.prems"(2,3) by blast
    have dL: "?d < L" using split_at_less [OF True] key by simp
    let ?f = "\<lambda>i. mk (Suc ?d) (grp ?d i kvs)"
    have child: "?f i \<noteq> None \<and> nib (fst kv) ?d < 16" if "kv \<in> set kvs" "nib (fst kv) ?d = i" for kv i
      using that dL wf_entriesD [OF "1.prems"(1) that(1)] nib_less [of "fst kv" ?d]
      by (auto simp: grp_def filter_empty_conv)
    have "fkey kvs ! ?d \<noteq> ?key ! ?d"
      using True unfolding splits_def split_at_def by (intro nth_at_commonPrefixLen) auto
    then have ne: "nib (fkey kvs) ?d \<noteq> nib ?key ?d" by (simp add: nib_def unat_byte_eq_iff)
    have two: "\<exists>i j. i < j \<and> j < 16 \<and> ?f i \<noteq> None \<and> ?f j \<noteq> None"
      using ne child [of "hd kvs", OF _ refl] child [of "last kvs", OF _ refl] "1.prems"(2)
      unfolding fkey_def lkey_def by (metis hd_in_set last_in_set nat_neq_iff)
    then obtain i j where ij: "i < j" "j < 16" "?f i \<noteq> None" "?f j \<noteq> None" by blast
    have sub: "canon (L - Suc ?d) t" if t: "Some t \<in> set (map ?f [0..<16])" for t
    proof -
      obtain i where i: "i < 16" "?f i = Some t" using t by auto
      then have "grp ?d i kvs \<noteq> []" by (metis mk_eq_None option.distinct(1))
      then show ?thesis
        using "1.IH" [OF True _ wf_entries_grp [OF "1.prems"(1)] _ agree_grp [OF "1.prems"(1) True], of i] i dL by simp
    qed
    have "nibbly (subslice p ?d ?key)" using key by (simp add: subslice_def)
    moreover have "L - p = length (subslice p ?d ?key) + Suc (L - Suc ?d)" using pd dL key by simp
    ultimately have "canon (L - p) (Branch (subslice p ?d ?key) (map ?f [0..<16]))"
      using ij sub by (intro canon_Branch [of _ _ _ "L - Suc ?d" i j]) simp_all
    then show ?thesis using True by (simp add: mk.simps [of p kvs])
  next
    case False
    then show ?thesis
      using "1.prems" key by (simp add: mk.simps [of p kvs] canon_Leaf)
  qed
qed

section \<open>Inserting one entry\<close>

fun tins :: "'v mpt \<Rightarrow> bytes \<Rightarrow> 'v \<Rightarrow> 'v mpt" where
  "tins (Leaf r u) k v =
     (if r = k then Leaf k v
      else let c = commonPrefixLen r k in
        Branch (take c r) (put (nib k c) (Leaf (drop (Suc c) k) v)
          (put (nib r c) (Leaf (drop (Suc c) r) u) (replicate 16 None))))"
| "tins (Branch pfx cs) k v =
     (let c = commonPrefixLen pfx k; i = nib k c; suffix = drop (Suc c) k in
      if c = length pfx then
        (if i < length cs then
          Branch pfx (put i (case cs ! i of None \<Rightarrow> Leaf suffix v | Some t \<Rightarrow> tins t suffix v) cs)
         else Branch pfx cs)
      else Branch (take c pfx) (put i (Leaf suffix v)
          (put (nib pfx c) (Branch (drop (Suc c) pfx) cs) (replicate 16 None))))"

text \<open>Two nodes that part at one nibble.\<close>

lemma canon_fork:
  assumes "canon m t" "canon m u" "i \<noteq> j" "i < 16" "j < 16" "nibbly pfx" "L = length pfx + Suc m"
  shows "canon L (Branch pfx (put i t (put j u (replicate 16 None))))"
proof -
  have "Some x \<in> set (put i t (put j u (replicate 16 None))) \<Longrightarrow> x = t \<or> x = u" for x
    by (auto simp: put_def dest!: subsetD [OF set_update_subset_insert])
  then show ?thesis
    using assms by (cases "i < j") (auto intro!: canon_Branch [of _ _ _ m "min i j" "max i j"] simp: put_def min_def max_def)
qed

lemma mlookup_fork:
  assumes "i \<noteq> j" "i < 16" "j < 16"
  shows "mlookup (Branch pfx (put i t (put j u (replicate 16 None)))) k =
    (if take (length pfx) k = pfx \<and> length pfx < length k then
       (if nib k (length pfx) = i then mlookup t (drop (Suc (length pfx)) k)
        else if nib k (length pfx) = j then mlookup u (drop (Suc (length pfx)) k) else None)
     else None)"
proof (cases "length pfx < length k")
  case True
  then have "drop (length pfx) k = k ! length pfx # drop (Suc (length pfx)) k" by (simp add: Cons_nth_drop_Suc)
  then show ?thesis using assms True by (auto simp: put_def nib_def nth_list_update)
qed simp

lemma fork_point:
  assumes "length r = length k" "r \<noteq> k" "nibbly r" "nibbly k" "c = commonPrefixLen r k"
  shows "c < length r" "nib k c \<noteq> nib r c" "nib k c < 16" "nib r c < 16" "take c r = take c k"
proof -
  show c: "c < length r" using commonPrefixLen_less [OF assms(1,2)] assms(5) by simp
  show "nib k c \<noteq> nib r c"
    using nth_at_commonPrefixLen [of r k] c assms(1,5) by (auto simp: nib_def unat_byte_eq_iff)
  show "nib k c < 16" "nib r c < 16" using c assms by (simp_all add: nib_less)
  show "take c r = take c k" using assms(5) by (simp add: take_commonPrefixLen)
qed

lemma key_split:
  assumes "c < length k"
  shows "k' = k \<longleftrightarrow> length k' = length k \<and> take c k' = take c k \<and> nib k' c = nib k c \<and> drop (Suc c) k' = drop (Suc c) k"
  using assms by (auto simp: nib_def unat_byte_eq_iff) (metis id_take_nth_drop)

lemma put_child:
  assumes "canon L (Branch pfx cs)" "i < 16" "L = length pfx + Suc m" "canon m t"
  shows "canon L (Branch pfx (put i t cs))"
proof -
  from assms(1) obtain m' a b where 1: "length cs = 16" "nibbly pfx" "L = length pfx + Suc m'" "a < b" "b < 16"
      "cs ! a \<noteq> None" "cs ! b \<noteq> None" "\<And>t. Some t \<in> set cs \<Longrightarrow> canon m' t"
    by (rule canon_BranchE) blast
  have m: "m' = m" using 1(3) assms(3) by simp
  have "Some x \<in> set (put i t cs) \<Longrightarrow> canon m x" for x
    using 1(8) assms(4) m by (auto simp: put_def dest!: subsetD [OF set_update_subset_insert])
  then show ?thesis
    using 1 assms(2,3) by (intro canon_Branch [of _ _ _ m a b]) (auto simp: put_def nth_list_update)
qed

lemma canon_tins:
  "canon L t \<Longrightarrow> length k = L \<Longrightarrow> nibbly k \<Longrightarrow> canon L (tins t k v)"
proof (induction arbitrary: k rule: canon.induct)
  case (canon_Leaf r L u)
  show ?case
  proof (cases "r = k")
    case False
    define c where "c = commonPrefixLen r k"
    note f = fork_point [OF _ False canon_Leaf.hyps(2) canon_Leaf.prems(2) c_def]
    show ?thesis
      using False f canon_Leaf
      by (auto simp: Let_def c_def [symmetric] intro!: canon_fork [of "L - Suc c"] canon.canon_Leaf)
  qed (use canon_Leaf in \<open>simp add: canon.canon_Leaf\<close>)
next
  case (canon_Branch cs pfx L m i j)
  have self: "canon L (Branch pfx cs)" by (rule canon.canon_Branch [OF canon_Branch.hyps])
  define c where "c = commonPrefixLen pfx k"
  have lk: "length pfx < length k" using canon_Branch.hyps(3) canon_Branch.prems(1) by simp
  show ?case
  proof (cases "c = length pfx")
    case True
    have n: "nib k c < 16" using True lk canon_Branch.prems(2) by (simp add: nib_less)
    have "canon m (case cs ! nib k c of None \<Rightarrow> Leaf (drop (Suc c) k) v | Some t \<Rightarrow> tins t (drop (Suc c) k) v)"
    proof (cases "cs ! nib k c")
      case None
      then show ?thesis
        using True canon_Branch.prems canon_Branch.hyps(3) by (simp add: canon.canon_Leaf)
    next
      case (Some t)
      then have "Some t \<in> set cs" using n canon_Branch.hyps(1) by (metis nth_mem)
      then show ?thesis using Some True canon_Branch.prems canon_Branch.hyps(3) canon_Branch.IH by simp
    qed
    from put_child [OF self n canon_Branch.hyps(3) this, unfolded True] show ?thesis
      using n canon_Branch.hyps(1) by (simp add: Let_def c_def [symmetric] True)
  next
    case False
    have c: "c < length pfx" using False commonPrefixLen_le(1) [of pfx k] by (simp add: c_def)
    have f: "nib k c \<noteq> nib pfx c" "nib k c < 16" "nib pfx c < 16"
      using nth_at_commonPrefixLen [of pfx k] c lk canon_Branch.hyps(2) canon_Branch.prems(2)
      by (auto simp: nib_def unat_byte_eq_iff c_def nibbly_def)
    have "canon (L - Suc c) (Branch (drop (Suc c) pfx) cs)"
      using canon_Branch.hyps c by (intro canon.canon_Branch [of _ _ _ m i j]) auto
    moreover have "canon (L - Suc c) (Leaf (drop (Suc c) k) v)"
      using canon_Branch.prems by (simp add: canon.canon_Leaf)
    ultimately show ?thesis
      using False f c canon_Branch.hyps(2,3) by (auto simp: Let_def c_def [symmetric] intro!: canon_fork [of "L - Suc c"])
  qed
qed

lemma mlookup_tins:
  "canon L t \<Longrightarrow> length k = L \<Longrightarrow> nibbly k \<Longrightarrow> length k' = L \<Longrightarrow>
    mlookup (tins t k v) k' = (if k' = k then Some v else mlookup t k')"
proof (induction arbitrary: k k' rule: canon.induct)
  case (canon_Leaf r L u)
  show ?case
  proof (cases "r = k")
    case False
    define c where "c = commonPrefixLen r k"
    note f = fork_point [OF _ False canon_Leaf.hyps(2) canon_Leaf.prems(2) c_def]
    show ?thesis
      using False f canon_Leaf key_split [of c k k'] key_split [of c r k']
      by (auto simp: Let_def c_def [symmetric] mlookup_fork simp del: mlookup.simps(2))
  qed auto
next
  case (canon_Branch cs pfx L m i j)
  define c where "c = commonPrefixLen pfx k"
  have lk: "length pfx < length k" using canon_Branch.hyps(3) canon_Branch.prems(1) by simp
  have lk': "length pfx < length k'" using canon_Branch.hyps(3) canon_Branch.prems(3) by simp
  show ?case
  proof (cases "c = length pfx")
    case True
    have n: "nib k c < 16" using True lk canon_Branch.prems(2) by (simp add: nib_less)
    have pfx: "take c k = pfx" using take_commonPrefixLen [of c pfx k] True by (simp add: c_def)
    let ?t = "case cs ! nib k c of None \<Rightarrow> Leaf (drop (Suc c) k) v | Some t \<Rightarrow> tins t (drop (Suc c) k) v"
    have sub: "mlookup ?t (drop (Suc c) k') =
        (if drop (Suc c) k' = drop (Suc c) k then Some v
         else case cs ! nib k c of None \<Rightarrow> None | Some t \<Rightarrow> mlookup t (drop (Suc c) k'))"
    proof (cases "cs ! nib k c")
      case (Some t)
      then have "Some t \<in> set cs" using n canon_Branch.hyps(1) by (metis nth_mem)
      then show ?thesis using Some True canon_Branch.prems canon_Branch.hyps(3) canon_Branch.IH by simp
    qed auto
    have look: "mlookup (Branch pfx ds) k' = (if take c k' = pfx \<and> nib k' c < 16 then
        (case ds ! nib k' c of None \<Rightarrow> None | Some t \<Rightarrow> mlookup t (drop (Suc c) k')) else None)" if "length ds = 16" for ds :: "'a mpt option list"
      using that lk' True Cons_nth_drop_Suc [OF lk', symmetric] by (auto simp: nib_def)
    show ?thesis
      using True n canon_Branch.hyps(1,3) canon_Branch.prems key_split [of c k k'] lk pfx sub
      by (auto simp: Let_def c_def [symmetric] look put_def nth_list_update simp del: mlookup.simps)
  next
    case False
    have c: "c < length pfx" using False commonPrefixLen_le(1) [of pfx k] by (simp add: c_def)
    have f: "nib k c \<noteq> nib pfx c" "nib k c < 16" "nib pfx c < 16"
      using nth_at_commonPrefixLen [of pfx k] c lk canon_Branch.hyps(2) canon_Branch.prems(2)
      by (auto simp: nib_def unat_byte_eq_iff c_def nibbly_def)
    have tk: "take c pfx = take c k" using take_commonPrefixLen [of c pfx k] by (simp add: c_def)
    have old: "mlookup (Branch pfx cs) k' = (if take c k' = take c pfx \<and> nib k' c = nib pfx c
        then mlookup (Branch (drop (Suc c) pfx) cs) (drop (Suc c) k') else None)"
    proof -
      have "take (length pfx) k' = pfx \<longleftrightarrow> take c k' = take c pfx \<and> nib k' c = nib pfx c \<and>
          take (length pfx - Suc c) (drop (Suc c) k') = drop (Suc c) pfx"
        using key_split [of c pfx "take (length pfx) k'"] c lk' by (simp add: nib_def drop_take)
      moreover have "Suc (length pfx - Suc 0) = length pfx" using c by simp
      ultimately show ?thesis using c by simp
    qed
    show ?thesis
      using False c f lk lk' canon_Branch.prems key_split [of c k k'] tk old
      by (auto simp: Let_def c_def [symmetric] mlookup_fork simp del: mlookup.simps(2))
  qed
qed

section \<open>Every canonical trie is a reference trie\<close>

definition below :: "bytes \<Rightarrow> nat \<Rightarrow> 'v entry list \<Rightarrow> 'v entry list" where
  "below pfx i kvs = map (\<lambda>(k, v). (pfx @ of_nat i # k, v)) kvs"

fun tentries :: "'v mpt \<Rightarrow> 'v entry list" where
  "tentries (Leaf r v) = [(r, v)]"
| "tentries (Branch pfx cs) =
     concat (map (\<lambda>(i, c). case c of None \<Rightarrow> [] | Some t \<Rightarrow> below pfx i (tentries t)) (zip [0..<length cs] cs))"

definition block :: "bytes \<Rightarrow> 'v mpt option list \<Rightarrow> nat \<Rightarrow> 'v entry list" where
  "block pfx cs i = (case cs ! i of None \<Rightarrow> [] | Some t \<Rightarrow> below pfx i (tentries t))"

lemma tentries_Branch: "tentries (Branch pfx cs) = concat (map (block pfx cs) [0..<length cs])"
proof -
  have "zip [0..<length cs] cs = map (\<lambda>i. (i, cs ! i)) [0..<length cs]"
    by (rule nth_equalityI) simp_all
  then show ?thesis by (simp add: block_def [abs_def] comp_def del: upt_Suc)
qed

lemma bytesLess_below: "bytesLess (pfx @ b # k) (pfx @ c # k') \<longleftrightarrow> b < c \<or> b = c \<and> bytesLess k k'"
  by (induction pfx) (auto simp: bytesLess_Cons)

lemma wf_below: "wf_entries m kvs \<Longrightarrow> nibbly pfx \<Longrightarrow> i < 16 \<Longrightarrow> wf_entries (length pfx + Suc m) (below pfx i kvs)"
  by (auto simp: wf_entries_def below_def sorted_wrt_map bytesLess_below split_beta)

lemma wf_blocks:
  assumes "nibbly pfx" "length cs = 16" "\<And>t. Some t \<in> set cs \<Longrightarrow> wf_entries m (tentries t)" "k \<le> 16"
  shows "wf_entries (length pfx + Suc m) (concat (map (block pfx cs) [0..<k]))"
  using assms(4)
proof (induction k)
  case 0
  then show ?case by (simp add: wf_entries_def)
next
  case (Suc k)
  have "wf_entries (length pfx + Suc m) (block pfx cs k)"
  proof (cases "cs ! k")
    case (Some t)
    then have "Some t \<in> set cs" using Suc.prems assms(2) by (metis Suc_le_lessD nth_mem)
    then show ?thesis using Some Suc.prems assms(1) wf_below [OF assms(3), of t pfx k] by (simp add: block_def)
  qed (simp add: block_def wf_entries_def)
  moreover have "bytesLess (fst x) (fst y)" if x: "x \<in> set (block pfx cs i)" and y: "y \<in> set (block pfx cs k)" and i: "i < k" for x y i
  proof -
    have "(of_nat i :: byte) < of_nat k" using i Suc.prems by (simp add: word_less_nat_alt)
    then show ?thesis using x y by (auto simp: block_def below_def bytesLess_below split: option.splits)
  qed
  ultimately show ?case using Suc by (auto simp: wf_entries_append)
qed

lemma tentries_canon:
  "canon L t \<Longrightarrow> wf_entries L (tentries t) \<and> (\<forall>k v. length k = L \<longrightarrow> (mlookup t k = Some v \<longleftrightarrow> (k, v) \<in> set (tentries t)))"
proof (induction rule: canon.induct)
  case (canon_Leaf r L v)
  then show ?case by (auto simp: wf_entries_def)
next
  case (canon_Branch cs pfx L m i j)
  have "wf_entries L (tentries (Branch pfx cs))"
    using wf_blocks [of pfx cs m 16] canon_Branch
    by (simp add: tentries_Branch del: upt_rec_numeral tentries.simps)
  moreover have "mlookup (Branch pfx cs) k = Some v \<longleftrightarrow> (k, v) \<in> set (tentries (Branch pfx cs))" if k: "length k = L" for k v
  proof -
    have l: "length pfx < length k" using k canon_Branch.hyps(3) by simp
    let ?n = "nib k (length pfx)" and ?r = "drop (Suc (length pfx)) k"
    have split: "k = take (length pfx) k @ of_nat ?n # ?r"
      using l by (simp add: nib_def Cons_nth_drop_Suc)
    have child: "mlookup c ?r = Some v \<longleftrightarrow> (?r, v) \<in> set (tentries c)" if "n < 16" "cs ! n = Some c" for n c
    proof -
      have "Some c \<in> set cs" using that canon_Branch.hyps(1) by (metis nth_mem)
      then show ?thesis using canon_Branch.IH k canon_Branch.hyps(3) by simp
    qed
    have eq: "pfx @ of_nat n # q = k \<longleftrightarrow> take (length pfx) k = pfx \<and> n = ?n \<and> q = ?r" if "n < 16" for n q
    proof -
      have "(of_nat n :: byte) = of_nat ?n \<longleftrightarrow> n = ?n"
        using unat_of_nat_nibble [OF that] by (simp add: nib_def word_unat_eq_iff)
      then show ?thesis using split l by (metis append_eq_append_conv length_take list.inject min.absorb2 order.strict_implies_order)
    qed
    have "(k, v) \<in> set (tentries (Branch pfx cs)) \<longleftrightarrow> (\<exists>n < 16. \<exists>c q. cs ! n = Some c \<and> pfx @ of_nat n # q = k \<and> (q, v) \<in> set (tentries c))"
      using canon_Branch.hyps(1)
      by (force simp: tentries_Branch block_def below_def split: option.splits simp del: upt_rec_numeral tentries.simps(2))
    also have "\<dots> \<longleftrightarrow> take (length pfx) k = pfx \<and> ?n < 16 \<and> (\<exists>c. cs ! ?n = Some c \<and> mlookup c ?r = Some v)"
    proof (intro iffI; elim exE conjE)
      fix n c q
      assume n: "n < 16" "cs ! n = Some c" "pfx @ of_nat n # q = k" "(q, v) \<in> set (tentries c)"
      with eq [OF n(1), of q] have "take (length pfx) k = pfx" "n = ?n" "q = ?r" by simp_all
      with n child [OF n(1,2)] show "take (length pfx) k = pfx \<and> ?n < 16 \<and> (\<exists>c. cs ! ?n = Some c \<and> mlookup c ?r = Some v)"
        by simp
    next
      fix c
      assume c: "take (length pfx) k = pfx" "?n < 16" "cs ! ?n = Some c" "mlookup c ?r = Some v"
      then have "pfx @ of_nat ?n # ?r = k" "(?r, v) \<in> set (tentries c)" using eq [OF c(2), of ?r] child [OF c(2,3)] by simp_all
      with c show "\<exists>n < 16. \<exists>c q. cs ! n = Some c \<and> pfx @ of_nat n # q = k \<and> (q, v) \<in> set (tentries c)"
        by (intro exI [of _ ?n] exI [of _ c] exI [of _ ?r] conjI)
    qed
    also have "\<dots> \<longleftrightarrow> mlookup (Branch pfx cs) k = Some v"
      using l canon_Branch.hyps(1) Cons_nth_drop_Suc [OF l, symmetric] by (auto simp: nib_def split: option.splits)
    finally show ?thesis by blast
  qed
  ultimately show ?case by blast
qed

lemma wf_entries_distinct: "wf_entries L kvs \<Longrightarrow> distinct (map fst kvs)"
  by (induction kvs) (auto simp: wf_entries_Cons)

lemma canon_is_mk:
  assumes "canon L t"
  obtains kvs where "wf_entries L kvs" "kvs \<noteq> []" "mk 0 kvs = Some t" "kvs = tentries t"
proof -
  let ?kvs = "tentries t"
  have wf: "wf_entries L ?kvs" and look: "\<And>k v. length k = L \<Longrightarrow> mlookup t k = Some v \<longleftrightarrow> (k, v) \<in> set ?kvs"
    using tentries_canon [OF assms] by blast+
  obtain k where "length k = L" "mlookup t k \<noteq> None" using canon_inhabited [OF assms] by blast
  with look have ne: "?kvs \<noteq> []" by fastforce
  have "distinct (map fst ?kvs)" using wf_entries_distinct [OF wf] .
  then have m: "map_of ?kvs k = mlookup t k" if "length k = L" for k
    using look [OF that] by (metis map_of_eq_None_iff map_of_eq_Some_iff not_None_eq option.exhaust)
  obtain t' where t': "mk 0 ?kvs = Some t'" using ne by (metis mk_eq_None option.exhaust)
  have "mlookup t' k = map_of ?kvs k" if "length k = L" for k
    using mlookup_mk [OF wf agree_0 _ ne that] t' by simp
  then have "t' = t"
    using canon_mk [OF wf ne agree_0] t' m assms by (intro canon_unique [of L]) simp_all
  with wf ne t' show thesis by (intro that) simp_all
qed


end
