(* ===== verification/Besu_Tree.thy ===== *)
theory Besu_Tree
  imports Besu_Stream Trie_Canon
begin

text \<open>
  Besu's in-memory trie, from \<open>node.go\<close> and \<open>builder.go\<close> of \<open>internal/besu/trie\<close>: the four node types,
  their encodings, the functional insert and the post-order commit.  A panic (an index out of range,
  an error of the RLP package) is \<open>None\<close> or \<open>BesuPanic\<close>.
\<close>

section \<open>Nodes\<close>

datatype bnode =
    NullNode
  | LeafNode bytes bytes
  | ExtensionNode bytes bnode
  | BranchNode "bnode list" "bytes option"

text \<open>\<open>NullNode\<close> is referenced by its own encoding; every other node by \<open>EncodedBytesRef\<close>.\<close>

fun EncodedBytes :: "geth_rlp \<Rightarrow> digest \<Rightarrow> bnode \<Rightarrow> bytes option" where
  "EncodedBytes R keccak NullNode = Some [0x80]"
| "EncodedBytes R keccak (LeafNode path val) =
     (let pathNibbles = (if path \<noteq> [] \<and> last path = 0x10 then butlast path else path)
      in rlpEncStrings R [besu_CompactEncode pathNibbles True, val])"
| "EncodedBytes R keccak (ExtensionNode path child) =
     Option.bind (rlpEncBytes R (besu_CompactEncode path False)) (\<lambda>hp.
     Option.bind (EncodedBytes R keccak child) (\<lambda>rlp.
     rlpEncRaws R [hp, if child = NullNode then [0x80] else EncodedBytesRef keccak rlp]))"
| "EncodedBytes R keccak (BranchNode cs val) =
     Option.bind (those (map (\<lambda>c. map_option (\<lambda>rlp. if c = NullNode then [0x80] else EncodedBytesRef keccak rlp)
       (EncodedBytes R keccak c)) cs)) (\<lambda>items.
     Option.bind (case val of None \<Rightarrow> Some [0x80] | Some v \<Rightarrow> rlpEncBytes R v) (\<lambda>item.
     rlpEncRaws R (items @ [item])))"

definition bnode_Hash :: "geth_rlp \<Rightarrow> digest \<Rightarrow> bnode \<Rightarrow> bytes option" where
  "bnode_Hash R keccak n =
     (if n = NullNode then Some EmptyTrieNodeHash else map_option (NodeHash keccak) (EncodedBytes R keccak n))"

definition NewBranchNode :: "bnode list" where
  "NewBranchNode = replicate 16 NullNode"

definition SetChild :: "nat \<Rightarrow> bnode \<Rightarrow> bnode list \<Rightarrow> bnode list option" where
  "SetChild i n cs = (if i < length cs then Some (cs[i := n]) else None)"

section \<open>Insertion\<close>

definition equalNibbles :: "bytes \<Rightarrow> bytes \<Rightarrow> bool" where
  "equalNibbles a b \<longleftrightarrow> length a = length b \<and> list_all (\<lambda>(x, y). x = y) (zip a b)"

text \<open>The branch that holds an old child and a new leaf, below the prefix they share.\<close>

definition splitNode :: "bytes \<Rightarrow> bytes \<Rightarrow> bnode \<Rightarrow> bytes \<Rightarrow> bytes \<Rightarrow> bnode option" where
  "splitNode shared oldRest oldChild newSuffix val =
     (case (oldRest, newSuffix) of
        (x # _, y # ys) \<Rightarrow>
          Option.bind (SetChild (unat x) oldChild NewBranchNode) (\<lambda>br.
          Option.bind (SetChild (unat y) (LeafNode ys val) br) (\<lambda>br.
          Some (if shared = [] then BranchNode br None else ExtensionNode shared (BranchNode br None))))
      | _ \<Rightarrow> None)"

fun insertNode :: "bnode \<Rightarrow> bytes \<Rightarrow> bytes \<Rightarrow> bnode option" where
  "insertNode NullNode path val = Some (LeafNode path val)"
| "insertNode (LeafNode p v) path val =
     (if equalNibbles p path then Some (LeafNode path val)
      else
        let cpl = commonPrefixLen p path; oldSuffix = drop cpl p
        in splitNode (take cpl p) oldSuffix (LeafNode (drop 1 oldSuffix) v) (drop cpl path) val)"
| "insertNode (ExtensionNode p child) path val =
     (let cpl = commonPrefixLen p path in
      if cpl = length p then map_option (ExtensionNode p) (insertNode child (drop cpl path) val)
      else
        let oldRest = drop cpl p;
            oldChild = (if length oldRest = 1 then child else ExtensionNode (drop 1 oldRest) child)
        in splitNode (take cpl p) oldRest oldChild (drop cpl path) val)"
| "insertNode (BranchNode cs v) path val =
     (case path of
        [] \<Rightarrow> None
      | x # rest \<Rightarrow>
          if unat x < length cs then
            map_option (\<lambda>c. BranchNode (cs[unat x := c]) v) (insertNode (cs ! unat x) rest val)
          else None)"

section \<open>Commit\<close>

definition tree_maybeEmit ::
  "geth_rlp \<Rightarrow> digest \<Rightarrow> ('w, 'e) NodeSink \<Rightarrow> emitter \<Rightarrow> bytes \<Rightarrow> bnode \<Rightarrow> 'w \<Rightarrow> 'e besu_error + 'w" where
  "tree_maybeEmit R keccak sink em location n w =
     (case EncodedBytes R keccak n of
        None \<Rightarrow> Inl BesuPanic
      | Some rlp \<Rightarrow>
          if \<not> IsReferencedByHash rlp then Inr w
          else
            (case bnode_Hash R keccak n of
               None \<Rightarrow> Inl BesuPanic
             | Some hash \<Rightarrow>
                 if hash = EmptyTrieNodeHash then Inr w else besu_emit sink em location hash rlp w))"

lemma size_bnode_child [termination_simp]:
  "(i, c) \<in> set (zip is cs) \<Longrightarrow> size c < Suc (size_list size cs)"
  by (metis le_imp_less_Suc order_refl set_zip_rightD size_list_estimation')

fun commitTraversal ::
  "geth_rlp \<Rightarrow> digest \<Rightarrow> ('w, 'e) NodeSink \<Rightarrow> emitter \<Rightarrow> bytes \<Rightarrow> bnode \<Rightarrow> 'w \<Rightarrow> 'e besu_error + 'w" where
  "commitTraversal R keccak sink em location NullNode w = Inr w"
| "commitTraversal R keccak sink em location (ExtensionNode path child) w =
     bindE (commitTraversal R keccak sink em (AppendPath location path) child w)
       (tree_maybeEmit R keccak sink em location (ExtensionNode path child))"
| "commitTraversal R keccak sink em location (BranchNode cs val) w =
     bindE (foldE (\<lambda>(i, c) w. if c = NullNode then Inr w
         else commitTraversal R keccak sink em (AppendNibble location (of_nat i)) c w) (zip [0..<16] cs) w)
       (tree_maybeEmit R keccak sink em location (BranchNode cs val))"
| "commitTraversal R keccak sink em location (LeafNode path val) w =
     tree_maybeEmit R keccak sink em location (LeafNode path val) w"

text \<open>\<open>Builder\<close> and \<open>StorageBuilder\<close> differ in the emitter and in what \<open>Commit\<close> returns.\<close>

record treeBuilder =
  tb_root :: bnode
  tb_count :: int

definition NewTreeBuilder :: treeBuilder where
  "NewTreeBuilder = \<lparr>tb_root = NullNode, tb_count = 0\<rparr>"

definition Builder_AddAccount :: "bytes \<Rightarrow> bytes \<Rightarrow> treeBuilder \<Rightarrow> 'e besu_error + treeBuilder" where
  "Builder_AddAccount addrHash accountRLP b =
     (case insertNode (tb_root b) (keyPath addrHash) accountRLP of
        None \<Rightarrow> Inl BesuPanic
      | Some n \<Rightarrow> Inr (b\<lparr>tb_root := n, tb_count := tb_count b + 1\<rparr>))"

definition tree_commit ::
  "geth_rlp \<Rightarrow> digest \<Rightarrow> ('w, 'e) NodeSink \<Rightarrow> emitter \<Rightarrow> treeBuilder \<Rightarrow> 'w
    \<Rightarrow> 'e besu_error + (bytes \<times> bytes) \<times> 'w" where
  "tree_commit R keccak sink em b w =
     (if tb_count b = 0 then Inr ((EmptyTrieNodeHash, [0x80]), w)
      else
        bindE (commitTraversal R keccak sink em RootLocation (tb_root b) w) (\<lambda>w.
        case (EncodedBytes R keccak (tb_root b), bnode_Hash R keccak (tb_root b)) of
          (Some rootRLP, Some rootHash) \<Rightarrow>
            if \<not> IsReferencedByHash rootRLP then
              bindE (besu_emit sink em RootLocation rootHash rootRLP w) (\<lambda>w. Inr ((rootHash, rootRLP), w))
            else Inr ((rootHash, rootRLP), w)
        | _ \<Rightarrow> Inl BesuPanic))"

definition Builder_Commit ::
  "geth_rlp \<Rightarrow> digest \<Rightarrow> ('w, 'e) NodeSink \<Rightarrow> treeBuilder \<Rightarrow> 'w \<Rightarrow> 'e besu_error + (bytes \<times> bytes) \<times> 'w" where
  "Builder_Commit R keccak sink b w = tree_commit R keccak sink AccountTrieEmitter b w"

definition StorageBuilder_AddSlot :: "bytes \<Rightarrow> bytes \<Rightarrow> treeBuilder \<Rightarrow> 'e besu_error + treeBuilder" where
  "StorageBuilder_AddSlot slotHash valueRLP b =
     (case insertNode (tb_root b) (keyPath slotHash) valueRLP of
        None \<Rightarrow> Inl BesuPanic
      | Some n \<Rightarrow> Inr (b\<lparr>tb_root := n, tb_count := tb_count b + 1\<rparr>))"

definition StorageBuilder_Commit ::
  "geth_rlp \<Rightarrow> digest \<Rightarrow> ('w, 'e) NodeSink \<Rightarrow> bytes \<Rightarrow> treeBuilder \<Rightarrow> 'w \<Rightarrow> 'e besu_error + bytes \<times> 'w" where
  "StorageBuilder_Commit R keccak sink addrHash b w =
     bindE (tree_commit R keccak sink (StorageTrieEmitter addrHash) b w) (\<lambda>((h, _), w). Inr (h, w))"

definition besu_tree ::
  "geth_rlp \<Rightarrow> digest \<Rightarrow> ('w, 'e) NodeSink \<Rightarrow> emitter \<Rightarrow> 'w \<Rightarrow> bytes entry list
    \<Rightarrow> 'e besu_error + (bytes \<times> bytes) \<times> 'w" where
  "besu_tree R keccak sink em w kvs =
     bindE (foldE (\<lambda>(k, v). Builder_AddAccount k v) kvs NewTreeBuilder) (\<lambda>b. tree_commit R keccak sink em b w)"

section \<open>The tree is the reference trie\<close>

fun to_b :: "bytes mpt \<Rightarrow> bnode" where
  "to_b (Leaf r v) = LeafNode (r @ [LeafTerminator]) v"
| "to_b (Branch pfx cs) =
     (let br = BranchNode (map (\<lambda>c. case c of None \<Rightarrow> NullNode | Some t \<Rightarrow> to_b t) cs) None
      in if pfx = [] then br else ExtensionNode pfx br)"

abbreviation to_b_opt :: "bytes mpt option \<Rightarrow> bnode" where
  "to_b_opt c \<equiv> (case c of None \<Rightarrow> NullNode | Some t \<Rightarrow> to_b t)"

abbreviation to_branch :: "bytes mpt option list \<Rightarrow> bnode" where
  "to_branch cs \<equiv> BranchNode (map to_b_opt cs) None"

lemma to_b_ne [simp]: "to_b t \<noteq> NullNode"
  by (cases t) (simp_all add: Let_def)

lemma equalNibbles_eq [simp]: "equalNibbles a b \<longleftrightarrow> a = b"
proof -
  have "length a = length b \<Longrightarrow> list_all (\<lambda>(x, y). x = y) (zip a b) \<longleftrightarrow> a = b"
    by (induction a b rule: list_induct2) auto
  then show ?thesis by (auto simp: equalNibbles_def)
qed

lemma map_put: "map to_b_opt (put i t cs) = (map to_b_opt cs)[i := to_b t]"
  by (simp add: put_def map_update)

lemma splitNode_eq:
  assumes "unat x < 16" "unat y < 16"
  shows "splitNode shared (x # xs) (to_b t) (y # k @ [LeafTerminator]) v =
    Some (to_b (Branch shared (put (unat y) (Leaf k v) (put (unat x) t (replicate 16 None)))))"
  using assms by (simp add: splitNode_def SetChild_def NewBranchNode_def Let_def map_put)

lemma drop_at: "c < length k \<Longrightarrow> drop c (k @ xs) = k ! c # drop (Suc c) k @ xs"
  by (simp add: Cons_nth_drop_Suc [symmetric])

lemma cpl_append:
  assumes "length p < length k"
  shows "commonPrefixLen p (k @ xs) = commonPrefixLen p k"
  using assms by (induction p k rule: commonPrefixLen.induct) auto

lemma insert_branch:
  assumes "length cs = 16" "unat x < 16"
    and "\<And>t. cs ! unat x = Some t \<Longrightarrow> insertNode (to_b t) (k @ [LeafTerminator]) v = Some (to_b (tins t k v))"
  shows "insertNode (to_branch cs) (x # k @ [LeafTerminator]) v =
    Some (to_branch (put (unat x) (case cs ! unat x of None \<Rightarrow> Leaf k v | Some t \<Rightarrow> tins t k v) cs))"
  using assms by (cases "cs ! unat x") (simp_all add: map_put)

lemma insertNode_eq:
  "canon L t \<Longrightarrow> length k = L \<Longrightarrow> nibbly k \<Longrightarrow>
    insertNode (to_b t) (k @ [LeafTerminator]) v = Some (to_b (tins t k v))"
proof (induction arbitrary: k rule: canon.induct)
  case (canon_Leaf r L u)
  show ?case
  proof (cases "r = k")
    case False
    define c where "c = commonPrefixLen r k"
    note f = fork_point [OF _ False canon_Leaf.hyps(2) canon_Leaf.prems(2) c_def]
    have len: "length r = length k" using canon_Leaf by simp
    have c: "commonPrefixLen (r @ [LeafTerminator]) (k @ [LeafTerminator]) = c"
      using cpl_snoc [OF len False] by (simp add: c_def commonPrefixLen_commute)
    have d: "drop c (r @ [LeafTerminator]) = r ! c # drop (Suc c) r @ [LeafTerminator]"
        "drop c (k @ [LeafTerminator]) = k ! c # drop (Suc c) k @ [LeafTerminator]"
      using f(1) [OF len] len by (simp_all add: drop_at del: drop_append)
    have n: "unat (r ! c) < 16" "unat (k ! c) < 16" using f [OF len] by (simp_all add: nib_def)
    have "insertNode (to_b (Leaf r u)) (k @ [LeafTerminator]) v =
        splitNode (take c (r @ [LeafTerminator])) (drop c (r @ [LeafTerminator]))
          (LeafNode (drop 1 (drop c (r @ [LeafTerminator]))) u) (drop c (k @ [LeafTerminator])) v"
      using False by (simp add: c Let_def del: drop_append take_append drop_drop)
    also have "\<dots> = splitNode (take c r) (r ! c # drop (Suc c) r @ [LeafTerminator]) (to_b (Leaf (drop (Suc c) r) u))
          (k ! c # drop (Suc c) k @ [LeafTerminator]) v"
      using f(1) [OF len] unfolding d by simp
    also have "\<dots> = Some (to_b (tins (Leaf r u) k v))"
      unfolding splitNode_eq [OF n] using False by (simp add: c_def [symmetric] Let_def nib_def)
    finally show ?thesis .
  qed simp
next
  case (canon_Branch cs pfx L m i j)
  define c where "c = commonPrefixLen pfx k"
  have lk: "length pfx < length k" using canon_Branch.hyps(3) canon_Branch.prems(1) by simp
  have cl: "c \<le> length pfx" by (simp add: c_def commonPrefixLen_le)
  have d: "drop c (k @ [LeafTerminator]) = k ! c # drop (Suc c) k @ [LeafTerminator]"
    using lk cl by (simp add: drop_at del: drop_append)
  have n: "unat (k ! c) < 16" using cl lk canon_Branch.prems(2) by (simp add: nibbly_def)
  have c: "commonPrefixLen pfx (k @ [LeafTerminator]) = c" using cpl_append [OF lk] by (simp add: c_def)
  show ?case
  proof (cases "c = length pfx")
    case True
    have "insertNode (to_b t) (drop (Suc c) k @ [LeafTerminator]) v = Some (to_b (tins t (drop (Suc c) k) v))"
      if "cs ! unat (k ! c) = Some t" for t
      using that n canon_Branch.hyps(1,3) canon_Branch.prems True
      by (intro canon_Branch.IH) (auto simp: in_set_conv_nth intro: exI [of _ "unat (k ! c)"])
    note ib = insert_branch [OF canon_Branch.hyps(1) n this]
    show ?thesis
    proof (cases "pfx = []")
      case True
      then have c0: "c = 0" using cl by simp
      have "k @ [LeafTerminator] = k ! 0 # drop (Suc 0) k @ [LeafTerminator]" using d c0 by simp
      then have "insertNode (to_b (Branch [] cs)) (k @ [LeafTerminator]) v =
          Some (to_branch (put (unat (k ! 0)) (case cs ! unat (k ! 0) of None \<Rightarrow> Leaf (drop (Suc 0) k) v
            | Some t \<Rightarrow> tins t (drop (Suc 0) k) v) cs))"
        using ib [unfolded c0] by (simp only: to_b.simps Let_def simp_thms if_True)
      then show ?thesis
        using n c0 canon_Branch.hyps(1) by (simp add: True nib_def Let_def del: insertNode.simps)
    next
      case False
      then show ?thesis
        using ib d n canon_Branch.hyps(1) by (simp add: True [symmetric] c nib_def Let_def c_def [symmetric] del: drop_append)
    qed
  next
    case False
    then have c': "c < length pfx" using cl by simp
    have nb: "unat (pfx ! c) < 16" using c' canon_Branch.hyps(2) by (simp add: nibbly_def)
    have old: "(if length (drop c pfx) = 1 then to_branch cs else ExtensionNode (drop 1 (drop c pfx)) (to_branch cs)) =
        to_b (Branch (drop (Suc c) pfx) cs)" using c' by (auto simp: Let_def)
    have dp: "drop c pfx = pfx ! c # drop (Suc c) pfx" using c' by (simp add: Cons_nth_drop_Suc)
    have ne: "pfx \<noteq> []" using c' by auto
    show ?thesis
      using splitNode_eq [OF nb n, of "take c pfx" "drop (Suc c) pfx" "Branch (drop (Suc c) pfx) cs" "drop (Suc c) k" v]
        False ne
      unfolding old [symmetric] dp [symmetric] d [symmetric]
      by (simp add: Let_def c c_def [symmetric] nib_def del: drop_append)
  qed
qed

lemma those_map: "(\<And>x. x \<in> set xs \<Longrightarrow> f x = Some (g x)) \<Longrightarrow> those (map f xs) = Some (map g xs)"
  by (induction xs) simp_all

lemma EncodedBytes_eq:
  assumes R: "geth_rlp_spec R"
  shows "EncodedBytes R keccak (to_b t) = Some (enc keccak t)"
proof (induction t)
  case (Leaf r v)
  show ?case
    using encodeLeafRLP_eq [OF R, of r v] by (simp add: encodeLeafRLP_def stripTerminator_def LeafTerminator_def)
next
  case (Branch pfx cs)
  have "map_option (\<lambda>rlp. if to_b_opt c = NullNode then [0x80] else EncodedBytesRef keccak rlp)
      (EncodedBytes R keccak (to_b_opt c)) =
    Some (case c of None \<Rightarrow> [0x80] | Some t \<Rightarrow> refOfRLP keccak (enc keccak t))" if "c \<in> set cs" for c
    using Branch.IH [OF that] by (cases c) (simp_all add: EncodedBytesRef_def refOfRLP_def)
  then have "those (map (\<lambda>c. map_option (\<lambda>rlp. if c = NullNode then [0x80] else EncodedBytesRef keccak rlp)
      (EncodedBytes R keccak c)) (map to_b_opt cs)) =
    Some (map (\<lambda>c. case c of None \<Rightarrow> [0x80] | Some t \<Rightarrow> refOfRLP keccak (enc keccak t)) cs)"
    unfolding map_map by (intro those_map) (simp only: comp_apply)
  then have br: "EncodedBytes R keccak (to_branch cs) = Some (enc_branch keccak cs)"
    using R by (simp add: enc_branch_eq geth_rlp_spec_def refOfRLP_ref)
  show ?case
  proof (cases "pfx = []")
    case False
    then show ?thesis
      using R br encodeExtensionRLP_eq [OF R, of pfx keccak "enc_branch keccak cs"]
      by (simp add: Let_def enc_Branch encodeExtensionRLP_def EncodedBytesRef_def refOfRLP_def geth_rlp_spec_def
          del: EncodedBytes.simps(4) enc.simps)
  qed (use br in \<open>simp add: enc_Branch\<close>)
qed

lemma bnode_Hash_eq: "geth_rlp_spec R \<Longrightarrow> bnode_Hash R keccak (to_b t) = Some (keccak (enc keccak t))"
  by (simp add: bnode_Hash_def EncodedBytes_eq NodeHash_def)

lemma tree_maybeEmit_eq:
  assumes "geth_rlp_spec R"
  shows "tree_maybeEmit R keccak sink em location (to_b t) w =
    emitAll (emitRow keccak sink em) (filter (stored keccak) [(location, enc keccak t)]) w"
  using EncodedBytes_eq [OF assms, of keccak t] bnode_Hash_eq [OF assms, of keccak t]
  by (simp add: tree_maybeEmit_def stored_def IsReferencedByHash_def bindE_def split: sum.splits)

lemma foldE_concat:
  assumes "\<And>x w. x \<in> set xs \<Longrightarrow> f x w = emitAll emit (g x) w"
  shows "foldE f xs w = emitAll emit (concat (map g xs)) w"
  using assms by (induction xs arbitrary: w) (auto simp: emitAll_append intro: bindE_cong)

lemma emit_two:
  "emitAll emit (filter P [a, b]) w = bindE (emitAll emit (filter P [a]) w) (emitAll emit (filter P [b]))"
  by (simp only: emitAll_append [symmetric] filter_append [symmetric] append.simps)

lemma filter_concat_map:
  "concat (map (\<lambda>x. filter P (concat (map f (g x)))) xs) = filter P (concat (map f (concat (map g xs))))"
  by (induction xs) simp_all

lemma nodes_Branch_Nil:
  "nodes location (Branch [] cs) =
    concat (map (\<lambda>(i, c). nodes_opt (location @ [of_nat i]) c) (zip [0..<length cs] cs)) @ [(location, Branch [] cs)]"
  by (simp add: nodes_opt_def [abs_def])

lemma commit_branch:
  assumes R: "geth_rlp_spec R" and len: "length cs = 16"
    and IH: "\<And>i t w. cs ! i = Some t \<Longrightarrow> i < 16 \<Longrightarrow> commitTraversal R keccak sink em (location @ [of_nat i]) (to_b t) w =
      emitAll (emitRow keccak sink em) (filter (stored keccak) (event_rows keccak (nodes (location @ [of_nat i]) t))) w"
  shows "commitTraversal R keccak sink em location (to_branch cs) w =
    emitAll (emitRow keccak sink em) (filter (stored keccak) (event_rows keccak (nodes location (Branch [] cs)))) w"
proof -
  let ?g = "\<lambda>(i, c). filter (stored keccak) (event_rows keccak (nodes_opt (location @ [of_nat i]) c))"
  have "foldE (\<lambda>(i, c) w. if c = NullNode then Inr w
      else commitTraversal R keccak sink em (AppendNibble location (of_nat i)) c w) (zip [0..<16] (map to_b_opt cs)) w =
    foldE (\<lambda>(i, c) w. if to_b_opt c = NullNode then Inr w
      else commitTraversal R keccak sink em (AppendNibble location (of_nat i)) (to_b_opt c) w) (zip [0..<16] cs) w"
    unfolding zip_map2 foldE_map by (intro foldE_cong) (auto simp: case_prod_beta)
  also have "\<dots> = emitAll (emitRow keccak sink em) (concat (map ?g (zip [0..<16] cs))) w"
  proof (rule foldE_concat)
    fix x w assume "x \<in> set (zip [0..<16] cs)"
    then have "x = (fst x, cs ! fst x)" "fst x < 16" using len by (auto simp: in_set_zip prod_eq_iff)
    then obtain i where "x = (i, cs ! i)" "i < 16" by blast
    then show "(case x of (i, c) \<Rightarrow> \<lambda>w. if to_b_opt c = NullNode then Inr w
        else commitTraversal R keccak sink em (AppendNibble location (of_nat i)) (to_b_opt c) w) w =
      emitAll (emitRow keccak sink em) (?g x) w"
      using IH [of i] by (cases "cs ! i") (simp_all add: AppendNibble_def)
  qed
  also have "concat (map ?g (zip [0..<16] cs)) = filter (stored keccak) (event_rows keccak
      (concat (map (\<lambda>(i, c). nodes_opt (location @ [of_nat i]) c) (zip [0..<16] cs))))"
    by (simp only: filter_concat_map [symmetric]) (intro arg_cong [of _ _ concat] map_cong refl, simp split: prod.splits)
  finally show ?thesis
    using tree_maybeEmit_eq [OF R, of keccak sink em location "Branch [] cs", abs_def] len
    by (simp add: Let_def enc_Branch nodes_Branch_Nil emitAll_append ext_rows_def del: enc.simps nodes.simps filter.simps)
qed

lemma commitTraversal_eq:
  assumes R: "geth_rlp_spec R" and "canon L t"
  shows "commitTraversal R keccak sink em location (to_b t) w =
    emitAll (emitRow keccak sink em) (filter (stored keccak) (event_rows keccak (nodes location t))) w"
  using assms(2)
proof (induction arbitrary: location w rule: canon.induct)
  case (canon_Leaf r L v)
  show ?case
    using tree_maybeEmit_eq [OF R, of keccak sink em location "Leaf r v"] by simp
next
  case (canon_Branch cs pfx L m i j)
  have "Some t \<in> set cs" if "cs ! i = Some t" "i < 16" for i t using that canon_Branch.hyps(1) by (metis nth_mem)
  note br = commit_branch [OF R canon_Branch.hyps(1) canon_Branch.IH [OF this]]
  show ?case
  proof (cases "pfx = []")
    case True
    then show ?thesis using br by simp
  next
    case False
    then show ?thesis
      using br tree_maybeEmit_eq [OF R, of keccak sink em location "Branch pfx cs", abs_def]
      by (simp add: Let_def enc_Branch AppendPath_def emitAll_append ext_rows_def bindE_assoc emit_two [abs_def]
          del: enc.simps commitTraversal.simps(3) filter.simps)
  qed
qed

section \<open>Builds in any order\<close>

lemma AddAccount_eq:
  "insertNode (tb_root b) (keyPath k) v = Some n \<Longrightarrow>
    Builder_AddAccount k v b = Inr (b\<lparr>tb_root := n, tb_count := tb_count b + 1\<rparr>)"
  by (simp add: Builder_AddAccount_def)

lemma tins_adds:
  assumes "\<forall>kv \<in> set kvs. length (fst kv) = 32" "kvs \<noteq> []"
  shows "\<exists>t. foldE (\<lambda>(k, v). Builder_AddAccount k v) kvs NewTreeBuilder =
      (Inr \<lparr>tb_root = to_b t, tb_count = int (length kvs)\<rparr> :: 'e besu_error + treeBuilder) \<and>
    canon 64 t \<and> (\<forall>k. length k = 64 \<longrightarrow> mlookup t k = map_of (rev (nibble_entries kvs)) k)"
  using assms
proof (induction kvs rule: rev_induct)
  case (snoc x kvs)
  obtain a v where x: "x = (a, v)" by (cases x)
  let ?k = "BytesToNibbles a"
  have k: "length ?k = 64" "nibbly ?k" using snoc.prems by (simp_all add: x nibbly_BytesToNibbles)
  have n: "rev (nibble_entries (kvs @ [x])) = (?k, v) # rev (nibble_entries kvs)"
    by (simp add: nibble_entries_def x)
  show ?case
  proof (cases "kvs = []")
    case True
    then show ?thesis
      using k unfolding n
      by (intro exI [of _ "Leaf ?k v"])
        (simp add: x Builder_AddAccount_def NewTreeBuilder_def keyPath_eq canon_Leaf nibble_entries_def)
  next
    case False
    then obtain t where t: "foldE (\<lambda>(k, v). Builder_AddAccount k v) kvs NewTreeBuilder =
          (Inr \<lparr>tb_root = to_b t, tb_count = int (length kvs)\<rparr> :: 'e besu_error + treeBuilder)" "canon 64 t"
        "\<forall>k. length k = 64 \<longrightarrow> mlookup t k = map_of (rev (nibble_entries kvs)) k"
      using snoc by auto
    show ?thesis
      using insertNode_eq [OF t(2) k] canon_tins [OF t(2) k] mlookup_tins [OF t(2) k] t unfolding n
      by (intro exI [of _ "tins t ?k v"]) (simp add: foldE_append x AddAccount_eq keyPath_eq add.commute)
  qed
qed simp

lemma inj_BytesToNibbles: "inj BytesToNibbles"
proof (rule injI)
  fix a b assume eq: "BytesToNibbles a = BytesToNibbles b"
  then have "length a = length b" by (metis length_BytesToNibbles mult_left_cancel zero_neq_numeral)
  then show "a = b" using eq
    by (metis bytesLess_BytesToNibbles bytesLess_irrefl bytesLess_linear)
qed

lemma map_of_nibble_entries:
  "map_of (nibble_entries kvs) k = (if k \<in> range BytesToNibbles then map_of kvs (inv BytesToNibbles k) else None)"
proof (induction kvs)
  case (Cons x kvs)
  then show ?case by (cases x) (auto simp: nibble_entries_def inv_f_f [OF inj_BytesToNibbles])
qed (simp add: nibble_entries_def)

lemma tree_commit_eq:
  assumes R: "geth_rlp_spec R" and "canon L t" "n \<noteq> 0"
  shows "tree_commit R keccak sink em \<lparr>tb_root = to_b t, tb_count = n\<rparr> w =
    bindE (emitAll (emitRow keccak sink em) (filter (stored keccak) (event_rows keccak (nodes [] t)) @
        (if length (enc keccak t) < 32 then [([], enc keccak t)] else [])) w)
      (\<lambda>w. Inr ((keccak (enc keccak t), enc keccak t), w))"
  using assms(3) EncodedBytes_eq [OF R, of keccak t] bnode_Hash_eq [OF R, of keccak t]
    commitTraversal_eq [OF R assms(2), of keccak sink em "[]" w]
  by (simp add: tree_commit_def RootLocation_def IsReferencedByHash_def emitAll_append bindE_assoc)

text \<open>The last value of each key, in ascending order of the keys.\<close>

definition sorted_of :: "bytes entry list \<Rightarrow> bytes entry list \<Rightarrow> bool" where
  "sorted_of kvs es \<longleftrightarrow> sorted_hashes es \<and> map_of es = map_of (rev kvs)"

lemma besu_tree_mk:
  fixes sink :: "('w, 'e) NodeSink"
  assumes R: "geth_rlp_spec R" and len: "\<forall>kv \<in> set kvs. length (fst kv) = 32" and ne: "kvs \<noteq> []"
    and es: "sorted_of kvs es" and t: "mk 0 (nibble_entries es) = Some t"
  shows "besu_tree R keccak sink em w kvs =
    bindE (emitAll (emitRow keccak sink em) (filter (stored keccak) (event_rows keccak (nodes [] t)) @
        (if length (enc keccak t) < 32 then [([], enc keccak t)] else [])) w)
      (\<lambda>w. Inr ((keccak (enc keccak t), enc keccak t), w))"
proof -
  obtain u where u: "foldE (\<lambda>(k, v). Builder_AddAccount k v) kvs NewTreeBuilder =
        (Inr \<lparr>tb_root = to_b u, tb_count = int (length kvs)\<rparr> :: 'e besu_error + treeBuilder)" "canon 64 u"
      "\<forall>k. length k = 64 \<longrightarrow> mlookup u k = map_of (rev (nibble_entries kvs)) k"
    using tins_adds [OF len ne] by blast
  have wf: "wf_entries 64 (nibble_entries es)" using es by (simp add: sorted_of_def wf_nibble_entries)
  have ne': "nibble_entries es \<noteq> []" using t by auto
  have "rev (nibble_entries kvs) = nibble_entries (rev kvs)" by (simp add: nibble_entries_def rev_map)
  then have "mlookup u k = mlookup t k" if "length k = 64" for k
    using mlookup_mk [OF wf agree_0 _ ne' that] t u(3) that es by (simp add: sorted_of_def map_of_nibble_entries)
  moreover have "canon 64 t" using canon_mk [OF wf ne' agree_0] t by simp
  ultimately have ut: "u = t" using canon_unique [OF u(2)] by blast
  have n0: "int (length kvs) \<noteq> 0" using ne by simp
  show ?thesis
    unfolding besu_tree_def u(1) ut bindE_Inr by (rule tree_commit_eq [OF R \<open>canon 64 t\<close> n0])
qed

section \<open>Properties\<close>

text \<open>No node of the trie has the hash of the empty trie.\<close>

definition no_empty_hash :: "digest \<Rightarrow> bytes mpt \<Rightarrow> bool" where
  "no_empty_hash keccak t \<longleftrightarrow> (\<forall>r \<in> set (event_rows keccak (nodes [] t)). keccak (snd r) \<noteq> EmptyTrieNodeHash)"

text \<open>The nodes of 32 bytes or more with their locations, children first, and then a root that is smaller.\<close>

definition bonsai_rows :: "digest \<Rightarrow> bytes mpt \<Rightarrow> row list" where
  "bonsai_rows keccak t =
     filter (\<lambda>r. length (snd r) \<ge> 32) (event_rows keccak (nodes [] t)) @
     (if length (enc keccak t) < 32 then [([], enc keccak t)] else [])"

lemma no_empty_root: "no_empty_hash keccak t \<Longrightarrow> keccak (enc keccak t) \<noteq> EmptyTrieNodeHash"
  using event_rows_snoc [of keccak "[]" t] by (fastforce simp: no_empty_hash_def)

lemma stored_rows:
  assumes "no_empty_hash keccak t"
  shows "filter (stored keccak) (event_rows keccak (nodes [] t)) =
    filter (\<lambda>r. length (snd r) \<ge> 32) (event_rows keccak (nodes [] t))"
  using assms by (intro filter_cong) (auto simp: stored_def no_empty_hash_def)

lemma replicate_no_empty_hash: "no_empty_hash (\<lambda>x. replicate 32 (last x)) t"
  by (simp add: no_empty_hash_def EmptyTrieNodeHash_def numeral_eq_Suc)

lemma replicate_keccak_spec: "keccak_spec (\<lambda>x. replicate 32 (last x))"
  by (simp add: keccak_spec_def)

definition besu_rows_sink :: "(row list, unit) NodeSink" where
  "besu_rows_sink =
     \<lparr>PutAccountStateTrieNode = (\<lambda>location hash rlp w. Inr (w @ [(location, rlp)])),
      PutAccountStorageTrieNode = (\<lambda>addrHash location hash rlp w. Inr (w @ [(StorageTrieKey addrHash location, rlp)]))\<rparr>"

lemma emit_besu_rows_sink:
  "emitAll (emitRow keccak besu_rows_sink AccountTrieEmitter) rs w = Inr (w @ rs)"
proof (induction rs arbitrary: w)
  case (Cons r rs)
  then show ?case by (cases r) (simp add: besu_emit_def besu_rows_sink_def)
qed simp

text \<open>
  C8: the streaming builder.  For ascending hashes the streaming builder, with either emitter and any
  sink, hands the sink exactly the nodes of the reference trie that are referenced by hash, each at its
  path, and a root below 32 bytes; it returns the root's hash and encoding, and fails only when the
  sink does.
\<close>

theorem besu_stream_equals_reference:
  assumes "geth_rlp_spec R" "keccak_spec keccak" "sorted_hashes kvs"
    and "case mk 0 (nibble_entries kvs) of None \<Rightarrow> True | Some t \<Rightarrow> no_empty_hash keccak t"
  shows "besu_stream R keccak sink em w kvs =
    (case mk 0 (nibble_entries kvs) of
       None \<Rightarrow> Inr ((EmptyTrieNodeHash, [0x80]), w)
     | Some t \<Rightarrow> bindE (emitAll (emitRow keccak sink em) (bonsai_rows keccak t) w)
         (\<lambda>w. Inr ((keccak (enc keccak t), enc keccak t), w)))"
proof (cases "mk 0 (nibble_entries kvs)")
  case None
  then show ?thesis
    by (simp add: besu_stream_def besu_finalize_def NewStreamingBuilder_def nibble_entries_def)
next
  case (Some t)
  then have ne: "kvs \<noteq> []" and nc: "no_empty_hash keccak t" using assms(4) by (auto simp: nibble_entries_def)
  show ?thesis
    using besu_stream_eq [OF assms(1-3) ne Some, of sink em w] no_empty_root [OF nc] stored_rows [OF nc] Some
    by (auto simp: besu_rows_def bonsai_rows_def)
qed

theorem besu_stream_equals_reference_witness:
  "\<exists>t. mk 0 (nibble_entries [(replicate 32 1, [5]), (replicate 32 2, [7])]) = Some t \<and>
    besu_stream geth_rlp_model (\<lambda>x. replicate 32 (last x)) besu_rows_sink AccountTrieEmitter []
      [(replicate 32 1, [5]), (replicate 32 2, [7])] =
    Inr ((replicate 32 (last (enc (\<lambda>x. replicate 32 (last x)) t)), enc (\<lambda>x. replicate 32 (last x)) t),
      bonsai_rows (\<lambda>x. replicate 32 (last x)) t)"
proof -
  let ?kvs = "[(replicate 32 1, [5]), (replicate 32 2, [7])]"
  have s: "sorted_hashes ?kvs" by (simp add: sorted_hashes_def bytesLess_def numeral_eq_Suc)
  obtain t where t: "mk 0 (nibble_entries ?kvs) = Some t"
    using mk_eq_None [of 0 "nibble_entries ?kvs"] by (auto simp: nibble_entries_def simp del: mk_eq_None)
  show ?thesis
    using besu_stream_equals_reference [OF geth_rlp_model_spec replicate_keccak_spec s,
        of besu_rows_sink AccountTrieEmitter "[]"] t
    by (simp add: replicate_no_empty_hash emit_besu_rows_sink)
qed

text \<open>
  C12: the in-memory builder is an oracle for the streaming one.  Whatever the order of the insertions,
  and if a key comes again the last value counts, its commit writes the same rows in the same order and
  returns the same root and encoding as the streaming builder on the sorted entries.
\<close>

theorem besu_tree_equals_stream:
  assumes "geth_rlp_spec R" "keccak_spec keccak" "\<forall>kv \<in> set kvs. length (fst kv) = 32"
    and es: "sorted_of kvs es"
    and nc: "case mk 0 (nibble_entries es) of None \<Rightarrow> True | Some t \<Rightarrow> no_empty_hash keccak t"
  shows "besu_tree R keccak sink em w kvs = besu_stream R keccak sink em w es"
proof (cases "mk 0 (nibble_entries es)")
  case None
  then have "es = []" by (simp add: nibble_entries_def)
  then have "kvs = []" using es by (auto simp: sorted_of_def dest!: fun_cong [of _ _ "fst (last kvs)"]
      simp: map_of_eq_None_iff [symmetric] eq_commute [of None])
  then show ?thesis
    using \<open>es = []\<close> by (simp add: besu_tree_def tree_commit_def NewTreeBuilder_def besu_stream_def besu_finalize_def
        NewStreamingBuilder_def)
next
  case (Some t)
  then have nc: "no_empty_hash keccak t" and "es \<noteq> []" using nc by (auto simp: nibble_entries_def)
  then have ne: "kvs \<noteq> []" using es by (auto simp: sorted_of_def)
  have s: "sorted_hashes es" using es by (simp add: sorted_of_def)
  show ?thesis
    using besu_tree_mk [OF assms(1,3) ne es Some, of keccak sink em w] no_empty_root [OF nc]
      besu_stream_eq [OF assms(1,2) s \<open>es \<noteq> []\<close> Some, of sink em w]
    by (auto simp: besu_rows_def)
qed

theorem besu_tree_equals_stream_witness:
  "besu_tree geth_rlp_model (\<lambda>x. replicate 32 (last x)) besu_rows_sink AccountTrieEmitter []
      [(replicate 32 2, [9]), (replicate 32 1, [5]), (replicate 32 2, [7])] =
    besu_stream geth_rlp_model (\<lambda>x. replicate 32 (last x)) besu_rows_sink AccountTrieEmitter []
      [(replicate 32 1, [5]), (replicate 32 2, [7])]"
proof -
  have "sorted_of [(replicate 32 2, [9]), (replicate 32 1, [5]), (replicate 32 2, [7])]
      [(replicate 32 1, [5]), (replicate 32 2, [7])]"
    by (auto simp: sorted_of_def sorted_hashes_def bytesLess_def numeral_eq_Suc fun_eq_iff)
  then show ?thesis
    by (intro besu_tree_equals_stream [OF geth_rlp_model_spec replicate_keccak_spec])
      (auto simp: replicate_no_empty_hash split: option.splits)
qed

end
