(* ===== verification/Besu_Keys.thy ===== *)
theory Besu_Keys
  imports Besu_Tree "HOL-Library.Sublist"
begin

text \<open>
  The keys besu's column family \<open>TRIE_BRANCH_STORAGE\<close> holds: locations of account-trie nodes,
  addresses' hashes followed by locations of storage-trie nodes, and the ASCII sentinels of
  \<open>internal/besu/keys/sentinels.go\<close>, all in one key space.
\<close>

section \<open>Locations\<close>

definition locations :: "digest \<Rightarrow> bytes \<Rightarrow> bytes mpt \<Rightarrow> bytes list" where
  "locations keccak path t = map fst (event_rows keccak (nodes path t))"

lemma locations_Leaf [simp]: "locations keccak path (Leaf r v) = [path]"
  by (simp add: locations_def)

lemma mem_concat_upt: "l \<in> set (concat (map f [0..<n])) \<longleftrightarrow> (\<exists>x < n. l \<in> set (f x))"
  by auto

lemma locations_Branch:
  assumes "length cs = 16"
  shows "locations keccak path (Branch pfx cs) =
    concat (map (\<lambda>i. case cs ! i of None \<Rightarrow> [] | Some t \<Rightarrow> locations keccak (path @ pfx @ [of_nat i]) t) [0..<16]) @
    (path @ pfx) # (if pfx = [] then [] else [path])"
proof -
  have z: "zip [0..<length cs] cs = map (\<lambda>i. (i, cs ! i)) [0..<16]"
    using assms by (intro nth_equalityI) simp_all
  have "map fst (event_rows keccak (concat (map f xs))) = concat (map (\<lambda>i. map fst (event_rows keccak (f i))) xs)"
    for f :: "nat \<Rightarrow> bytes node_event list" and xs by (induction xs) simp_all
  moreover have "(\<lambda>i. map fst (event_rows keccak (case cs ! i of None \<Rightarrow> [] | Some t \<Rightarrow> nodes (path @ pfx @ [of_nat i]) t))) =
      (\<lambda>i. case cs ! i of None \<Rightarrow> [] | Some t \<Rightarrow> locations keccak (path @ pfx @ [of_nat i]) t)"
    by (auto simp: fun_eq_iff locations_def split: option.splits)
  ultimately show ?thesis unfolding locations_def [of keccak path "Branch pfx cs"] nodes.simps z by (simp add: comp_def ext_rows_def)
qed

lemma locations_bounded:
  assumes "canon L t" "l \<in> set (locations keccak path t)"
  shows "\<exists>s. l = path @ s \<and> nibbly s \<and> length s \<le> L"
  using assms
proof (induction arbitrary: path rule: canon.induct)
  case (canon_Leaf r L v)
  then show ?case by simp
next
  case (canon_Branch cs pfx L m i j)
  have "l = path @ pfx \<or> l = path \<or>
      (\<exists>x < 16. l \<in> set (case cs ! x of None \<Rightarrow> [] | Some t \<Rightarrow> locations keccak (path @ pfx @ [of_nat x]) t))"
    using canon_Branch.prems
    unfolding locations_Branch [OF canon_Branch.hyps(1)] set_append Un_iff mem_concat_upt by (auto split: if_splits)
  then consider "l = path @ pfx" | "l = path" | x t where "x < 16" "cs ! x = Some t"
      "l \<in> set (locations keccak (path @ pfx @ [of_nat x]) t)"
    by (elim disjE exE conjE) (auto split: option.splits dest: sym)
  then show ?case
  proof cases
    case 1
    then show ?thesis using canon_Branch.hyps(2,3) by (intro exI [of _ pfx]) simp
  next
    case 2
    then show ?thesis by simp
  next
    case 3
    then have "Some t \<in> set cs" using canon_Branch.hyps(1) by (metis nth_mem)
    from canon_Branch.IH [OF this 3(3)] obtain s where "l = (path @ pfx @ [of_nat x]) @ s" "nibbly s" "length s \<le> m"
      by blast
    then show ?thesis
      using 3(1) canon_Branch.hyps(2,3) by (intro exI [of _ "pfx @ of_nat x # s"]) simp
  qed
qed

lemma locations_distinct:
  assumes "canon L t"
  shows "distinct (locations keccak path t)"
  using assms
proof (induction arbitrary: path rule: canon.induct)
  case (canon_Branch cs pfx L m i j)
  let ?f = "\<lambda>i. case cs ! i of None \<Rightarrow> [] | Some t \<Rightarrow> locations keccak (path @ pfx @ [of_nat i]) t"
  have mem: "Some t \<in> set cs" if "x < 16" "cs ! x = Some t" for x t
    using that canon_Branch.hyps(1) by (metis nth_mem)
  have sub: "\<exists>s. l = path @ pfx @ of_nat x # s" if "l \<in> set (?f x)" "x < 16" for l x
  proof (cases "cs ! x")
    case (Some t)
    then have "l \<in> set (locations keccak (path @ pfx @ [of_nat x]) t)" using that by simp
    then show ?thesis
      using locations_bounded [OF canon_Branch.hyps(8) [OF mem [OF that(2) Some]]] by fastforce
  qed (use that in simp)
  have d: "distinct (?f x)" if "x < 16" for x
    using that canon_Branch.IH [OF mem] by (cases "cs ! x") auto
  have disj: "set (?f x) \<inter> set (?f y) = {}" if "x < y" "y < 16" for x y
  proof -
    have x: "x < 16" using that by simp
    have "False" if "l \<in> set (?f x)" "l \<in> set (?f y)" for l
      using sub [OF that(1) x] sub [OF that(2) \<open>y < 16\<close>] of_nat_nibble_inj [OF \<open>x < y\<close> \<open>y < 16\<close>] by auto
    then show ?thesis by blast
  qed
  have "distinct (concat (map ?f [0..<n]))" if "n \<le> 16" for n
    using that
  proof (induction n)
    case (Suc n)
    have "False" if l: "l \<in> set (concat (map ?f [0..<n]))" "l \<in> set (?f n)" for l
    proof -
      obtain x where "x < n" "l \<in> set (?f x)" using l(1) unfolding mem_concat_upt by blast
      then show False using disj [of x n] l(2) Suc.prems by auto
    qed
    then have "set (concat (map ?f [0..<n])) \<inter> set (?f n) = {}" by blast
    then show ?case using Suc d [of n] by (simp add: Int_commute del: set_concat)
  qed simp
  from this [of 16] have "distinct (concat (map ?f [0..<16]))" by simp
  moreover have "path @ pfx \<notin> set (concat (map ?f [0..<16]))" "path \<notin> set (concat (map ?f [0..<16]))"
    using sub unfolding mem_concat_upt by fastforce+
  ultimately show ?case unfolding locations_Branch [OF canon_Branch.hyps(1)] by simp
qed simp

lemma bonsai_locations:
  assumes "canon L t"
  shows "distinct (map fst (bonsai_rows keccak t))"
    and "l \<in> fst ` set (bonsai_rows keccak t) \<Longrightarrow> nibbly l \<and> length l \<le> L"
proof -
  obtain rs where rs: "event_rows keccak (nodes [] t) = rs @ [([], enc keccak t)]"
    using event_rows_snoc [of keccak "[]" t] by blast
  have d: "distinct (map fst rs @ [[]])" using locations_distinct [OF assms, of keccak "[]"] by (simp add: rs locations_def)
  then have "distinct (map fst (filter P rs) @ [[]])" for P by (auto simp: distinct_map intro: inj_on_subset)
  then show "distinct (map fst (bonsai_rows keccak t))" by (auto simp: bonsai_rows_def rs)
  show "nibbly l \<and> length l \<le> L" if l: "l \<in> fst ` set (bonsai_rows keccak t)"
  proof -
    have "l \<in> set (locations keccak [] t)" using l by (auto simp: bonsai_rows_def rs locations_def split: if_splits)
    then show ?thesis using locations_bounded [OF assms] by fastforce
  qed
qed

section \<open>Properties\<close>

definition sentinels :: "bytes set" where
  "sentinels = {WorldRootKey, WorldBlockHashKey, WorldBlockNumberKey, FlatDbStatusKey}"

lemma sentinels_shape: "s \<in> sentinels \<Longrightarrow> \<not> nibbly s \<and> 0 < length s \<and> length s < 32"
  by (auto simp: sentinels_def WorldRootKey_def WorldBlockHashKey_def WorldBlockNumberKey_def FlatDbStatusKey_def
      asciiBytes_def)



lemma unpack_pack:
  "even (length p) \<Longrightarrow> nibbly p \<Longrightarrow> concat (map (\<lambda>b. [drop_bit 4 b, b AND 0x0f]) (packNibbles p)) = p"
  by (induction p rule: packNibbles.induct) (simp_all add: high_join low_join is_nibble_def del: drop_bit_or)

lemma flag_byte:
  assumes "unat (x :: byte) < 16"
  shows "drop_bit 4 (0x30 OR x) = 3" "(0x30 OR x) AND 0x0f = x" "drop_bit 4 (0x10 OR x) = 1" "(0x10 OR x) AND 0x0f = x"
proof -
  have n: "is_nibble x" "is_nibble 3" "is_nibble 1" using assms by (simp_all add: is_nibble_def)
  show "drop_bit 4 (0x30 OR x) = 3" "(0x30 OR x) AND 0x0f = x" "drop_bit 4 (0x10 OR x) = 1" "(0x10 OR x) AND 0x0f = x"
    using high_join [OF n(2,1)] low_join [OF n(1), of 3] high_join [OF n(3,1)] low_join [OF n(1), of 1]
    by (simp_all add: push_bit_eq_mult)
qed

text \<open>a path survives its hex-prefix encoding, together with the leaf flag.\<close>

theorem besu_compact_roundtrip:
  assumes "nibbly p"
  shows "besu_CompactDecode (besu_CompactEncode p leaf) = Some (p, leaf)"
proof (cases "odd (length p)")
  case True
  then obtain x r where p: "p = x # r" by (cases p) auto
  have parity: "Suc (length r) mod 2 = 1" using True unfolding p by (simp only: length_Cons odd_iff_mod_2_eq_one)
  show ?thesis
    using True assms flag_byte [of x] unpack_pack [of r] parity p
    by (cases leaf) (simp_all add: besu_CompactEncode_def besu_CompactDecode_def Let_def del: drop_bit_or)
next
  case False
  then show ?thesis
    using assms unpack_pack [of p]
    by (cases leaf) (simp_all add: besu_CompactEncode_def besu_CompactDecode_def Let_def odd_iff_mod_2_eq_one [symmetric])
qed

theorem besu_compact_roundtrip_witness:
  "besu_CompactDecode (besu_CompactEncode [1, 15, 7] True) = Some ([1, 15, 7], True)"
  by (rule besu_compact_roundtrip) simp

end
