(* ===== verification/Reth_Table.thy ===== *)
theory Reth_Table
  imports Reth_Stream Besu_Keys
begin

text \<open>
  What the hash builder of reth writes into the trie tables: the rows as a whole, that each of them
  can be encoded, and that no two share a key.
\<close>

section \<open>Rows have keys of their own\<close>

lemma reth_rows_subseq:
  "subseq (map fst (reth_event_rows keccak evs)) (map fst (event_rows keccak evs))"
proof (induction evs)
  case (Cons ev evs)
  have "subseq (map fst (reth_rows keccak ev)) (map fst (enc_rows keccak ev))"
    by (cases ev; cases "snd ev") auto
  then show ?case using Cons by (auto intro: list_emb_append_mono)
qed simp

lemma subseq_distinct: "subseq xs ys \<Longrightarrow> distinct ys \<Longrightarrow> distinct xs"
  by (induction rule: list_emb.induct) (auto dest: list_emb_set)

lemma reth_paths:
  assumes "canon L t"
  shows "distinct (map fst (reth_event_rows keccak (nodes [] t)))"
    and "r \<in> set (reth_event_rows keccak (nodes [] t)) \<Longrightarrow> nibbly (fst r) \<and> length (fst r) \<le> L"
proof -
  note sub = reth_rows_subseq [of keccak "nodes [] t"]
  show "distinct (map fst (reth_event_rows keccak (nodes [] t)))"
    using subseq_distinct [OF sub] locations_distinct [OF assms, of keccak "[]"] by (simp add: locations_def)
  assume "r \<in> set (reth_event_rows keccak (nodes [] t))"
  then have "fst r \<in> set (locations keccak [] t)"
    using list_emb_set [OF sub, of "fst r"] by (force simp: locations_def)
  from locations_bounded [OF assms this] show "nibbly (fst r) \<and> length (fst r) \<le> L" by auto
qed

section \<open>Rows can be encoded\<close>

lemma popcount16_childMask:
  assumes "length cs = 16"
  shows "popcount16 (childMask f cs) = length (filter f (present cs))"
proof -
  have "unat (childMask f cs) < 2 ^ 16" using unsigned_less [of "childMask f cs"] by simp
  then have "popcount16 (childMask f cs) = length (filter (bit (childMask f cs)) [0..<16])"
    by (rule popcount16_filter)
  also have "filter (bit (childMask f cs)) [0..<16] = filter (\<lambda>i. case cs ! i of None \<Rightarrow> False | Some t \<Rightarrow> f t) [0..<16]"
    by (rule filter_cong) (auto simp: bit_childMask [OF assms] split: option.splits)
  also have "length \<dots> = length (filter (\<lambda>c. case c of None \<Rightarrow> False | Some t \<Rightarrow> f t) (map ((!) cs) [0..<16]))"
    by (simp only: filter_map length_map comp_def)
  also have "map ((!) cs) [0..<16] = cs" using map_nth [of cs] assms by simp
  also have "length (filter (\<lambda>c. case c of None \<Rightarrow> False | Some t \<Rightarrow> f t) xs) = length (filter f (present xs))" for xs
  proof (induction xs)
    case (Cons c xs)
    then show ?case by (cases c) simp_all
  qed simp
  finally show ?thesis .
qed

lemma branch_row_ok:
  assumes "length cs = 16" "keccak_spec keccak"
  shows "bnc_ok (branch_row keccak path cs)"
  using assms
  by (auto simp: bnc_ok_def branch_row_def popcount16_childMask childMask_not child_hash_def computeRootFromRlpNode_def
      keccak_spec_def)

lemma canon_nodes_full:
  assumes "canon L t" "(p, Branch pfx cs) \<in> set (nodes path t)"
  shows "length cs = 16"
  using assms
proof (induction arbitrary: path rule: canon.induct)
  case (canon_Branch cs' pfx' L m i j)
  show ?case
  proof (cases "(p, Branch pfx cs) = (path, Branch pfx' cs')")
    case False
    then obtain x c where "(x, Some c) \<in> set (zip [0..<length cs'] cs')"
        "(p, Branch pfx cs) \<in> set (nodes (path @ pfx' @ [of_nat x]) c)"
      using canon_Branch.prems by (auto split: option.splits)
    then show ?thesis using canon_Branch.IH by (blast dest: set_zip_rightD)
  qed (use canon_Branch.hyps in simp)
qed simp

lemma reth_row_cases:
  assumes "r \<in> set (reth_event_rows keccak evs)"
  obtains path pfx cs where "(path, Branch pfx cs) \<in> set evs" "stores (Branch [] cs)"
    "r = (path @ pfx, branch_row keccak (path @ pfx) cs)"
proof -
  obtain p t where ev: "(p, t) \<in> set evs" "r \<in> set (reth_rows keccak (p, t))" using assms by auto
  show thesis
  proof (cases t)
    case (Branch pfx cs)
    then show thesis using ev that [of p pfx cs] by (simp del: stores.simps split: if_splits)
  qed (use ev in simp)
qed

section \<open>The table\<close>

text \<open>
  The rows of a trie, written out: one for each branch with a direct branch child or a stored branch
  below it.  A direct child whose encoding is shorter than 32 bytes has no hash; the code then copies
  what follows the first byte of the encoding.
\<close>

definition table_hash :: "digest \<Rightarrow> bytes mpt \<Rightarrow> bytes" where
  "table_hash keccak t =
     (if 32 \<le> length (enc keccak t) then keccak (enc keccak t) else copyInto 32 (drop 1 (enc keccak t)))"

fun table_rows :: "digest \<Rightarrow> bytes node_event \<Rightarrow> (bytes \<times> BranchNodeCompact) list" where
  "table_rows keccak (path, Leaf r v) = []"
| "table_rows keccak (path, Branch pfx cs) =
     (if stores (Branch pfx cs) then
        [(path @ pfx,
          \<lparr>StateMask = childMask (\<lambda>t. True) cs, TreeMask = childMask stores cs, HashMask = childMask direct cs,
           Hashes = map (table_hash keccak) (filter direct (present cs)),
           RootHash = (if path @ pfx = [] then Some (keccak (enc keccak (Branch [] cs))) else None)\<rparr>)]
      else [])"

definition reth_table :: "digest \<Rightarrow> bytes entry list \<Rightarrow> (bytes \<times> BranchNodeCompact) list" where
  "reth_table keccak kvs = concat (map (table_rows keccak) (nodes_opt [] (mk 0 kvs)))"

lemma table_rows_eq:
  assumes "keccak_spec keccak"
  shows "table_rows keccak = reth_rows keccak"
proof
  fix ev
  have h: "table_hash keccak = child_hash keccak"
    using assms by (auto simp: fun_eq_iff table_hash_def child_hash_def rlpNodeFromRLP_def keccak_spec_def)
  have u: "childMask (\<lambda>t. True) cs = usedOf cs" for cs :: "bytes mpt option list"
    unfolding childMask_def usedOf_def
    by (rule arg_cong [where f = "horner_sum of_bool 2"], rule map_cong) (auto split: option.splits)
  show "table_rows keccak ev = reth_rows keccak ev"
  proof (cases ev)
    case (Pair path t)
    then show ?thesis
    proof (cases t)
      case (Branch pfx cs)
      then show ?thesis
        using Pair assms
        by (simp add: branch_row_def h u computeRootFromRlpNode_def rlpNodeFromRLP_def enc_Branch_Nil keccak_spec_def
            del: enc.simps)
    qed (simp add: Pair)
  qed
qed

lemma reth_table_rows:
  assumes "keccak_spec keccak" "wf_entries L kvs" "r \<in> set (reth_table keccak kvs)"
  shows "nibbly (fst r) \<and> length (fst r) \<le> L \<and> bnc_ok (snd r)"
proof -
  obtain t where t: "mk 0 kvs = Some t" using assms(3) by (cases "mk 0 kvs") (auto simp: reth_table_def)
  then have ne: "kvs \<noteq> []" by auto
  have c: "canon L t" using canon_mk [OF assms(2) ne, of 0] t by simp
  have r: "r \<in> set (reth_event_rows keccak (nodes [] t))"
    using assms(3) by (simp add: reth_table_def t table_rows_eq [OF assms(1)])
  from r obtain path pfx cs where e: "(path, Branch pfx cs) \<in> set (nodes [] t)"
      "r = (path @ pfx, branch_row keccak (path @ pfx) cs)" by (rule reth_row_cases)
  from branch_row_ok [OF canon_nodes_full [OF c e(1)] assms(1)] reth_paths(2) [OF c r] show ?thesis by (simp add: e(2))
qed

lemma reth_table_distinct:
  assumes "keccak_spec keccak" "wf_entries L kvs"
  shows "distinct (map fst (reth_table keccak kvs))"
proof (cases "mk 0 kvs")
  case (Some t)
  then have "kvs \<noteq> []" by auto
  then have "canon L t" using canon_mk [OF assms(2), of 0] Some by simp
  from reth_paths(1) [OF this, of keccak] show ?thesis by (simp add: reth_table_def Some table_rows_eq [OF assms(1)])
qed (simp add: reth_table_def)

lemma packedKey_inj:
  assumes "length p \<le> 64" "length q \<le> 64" "nibbly p" "nibbly q" "packedKey p = packedKey q"
  shows "p = q"
proof -
  have n: "list_all is_nibble p" "list_all is_nibble q"
    using assms(3,4) by (simp_all add: nibbly_def list_all_iff is_nibble_def)
  have "\<not> bytesLess p q" "\<not> bytesLess q p"
    using bytesLess_packedKey [OF assms(1,2) n] bytesLess_packedKey [OF assms(2,1) n(2,1)] assms(5) by simp_all
  then show ?thesis by (metis bytesCompare_eq_0 bytesCompare_swap bytesLess_def linorder_neqE_linordered_idom neg_less_0_iff_less)
qed

section \<open>Properties\<close>

text \<open>
  C10: reth's hash builder equals the reference.  For strictly ascending keys of one positive length it
  never panics and never refuses a leaf, returns the root of the reference trie, and hands its emitter,
  in post-order, exactly the rows of the branches that have a branch directly below them or a stored
  branch further down, with the masks and hashes of their children.
\<close>

theorem reth_builder_equals_reference:
  assumes "keccak_spec keccak" "wf_entries L kvs" "0 < L"
  shows "reth_build keccak emit w kvs =
    Inr (trie_root keccak kvs,
      fold (\<lambda>(path, row) w. snd (emit (nibblestoStoredNibbles path) row w)) (reth_table keccak kvs) w)"
  unfolding reth_build_eq [OF assms] by (simp add: emitRethRows_def reth_table_def table_rows_eq [OF assms(1)])

definition table_recorder :: "((bytes \<times> u16 \<times> u16 \<times> u16) list, unit) NodeEmitter" where
  "table_recorder sn row w = (None, w @ [(take (unat (sn_Length sn)) (sn_Nibbles sn), StateMask row, TreeMask row, HashMask row)])"

theorem reth_builder_equals_reference_witness:
  "reth_build (\<lambda>x. replicate 32 (last x)) table_recorder []
      [([1, 2, 3], [5]), ([1, 2, 4], [6]), ([1, 3, 0], [7]), ([2, 0, 0], [8])] =
    Inr (trie_root (\<lambda>x. replicate 32 (last x)) [([1, 2, 3], [5]), ([1, 2, 4], [6]), ([1, 3, 0], [7]), ([2, 0, 0], [8])],
      [([1], 0xc, 0, 4), ([], 6, 2, 2)])"
proof -
  have wf: "wf_entries 3 [([1, 2, 3], [5]), ([1, 2, 4], [6]), ([1, 3, 0], [7]), ([2, 0, 0], [8])]"
    by (simp add: wf_entries_def nibbly_def bytesLess_def)
  show ?thesis
    by (subst reth_builder_equals_reference [OF _ wf]) (simp_all add: keccak_spec_def, code_simp)
qed

text \<open>
  C30: what the builder emits can be stored.  For keys of 64 nibbles every emitted row has a packed key,
  no two rows have the same one, encoding a row never panics (as many hashes as bits in the hash mask,
  the tree and hash masks within the state mask), and decoding the bytes gives the row back.
\<close>

theorem reth_rows_can_be_stored:
  assumes "keccak_spec keccak" "wf_entries 64 kvs"
  shows "\<exists>keys outs.
    map (\<lambda>r. EncodePackedAccountKey (nibblestoStoredNibbles (fst r)) []) (reth_table keccak kvs) = map Some keys \<and> distinct keys \<and>
    map (\<lambda>r. EncodeCompact (snd r) []) (reth_table keccak kvs) = map Some outs \<and>
    map (\<lambda>(out, n). DecodeCompact out n) outs = map2 (\<lambda>r (out, n). Some (snd r, n)) (reth_table keccak kvs) outs"
proof -
  let ?T = "reth_table keccak kvs"
  define out where "out row = the (EncodeCompact row [])" for row
  note rows = reth_table_rows [OF assms]
  have key: "EncodePackedAccountKey (nibblestoStoredNibbles (fst r)) [] = Some (packedKey (fst r))" if "r \<in> set ?T" for r
    using rows [OF that] by (simp add: EncodePackedAccountKey_eq)
  have enc: "EncodeCompact (snd r) [] = Some (out (snd r))" if "r \<in> set ?T" for r
    using EncodeCompact_eq [of "snd r" "[]"] rows [OF that] by (simp add: out_def Let_def)
  have dec: "DecodeCompact (fst (out (snd r))) (snd (out (snd r))) = Some (snd r, snd (out (snd r)))" if "r \<in> set ?T" for r
    using EncodeCompact_eq [of "snd r" "[]"] DecodeCompact_eq [of "snd r" _ "[]", OF _ refl] rows [OF that]
    by (simp add: out_def Let_def)
  have "inj_on packedKey (fst ` set ?T)"
  proof (rule inj_onI)
    fix p q
    assume "p \<in> fst ` set ?T" "q \<in> fst ` set ?T" "packedKey p = packedKey q"
    then show "p = q" using rows packedKey_inj [of p q] by (elim imageE) blast
  qed
  then have "distinct (map (\<lambda>r. packedKey (fst r)) ?T)"
    using reth_table_distinct [OF assms] by (simp add: distinct_map comp_inj_on inj_on_def)
  moreover have "map2 (\<lambda>r (out, n). Some (snd r, n)) ?T (map (\<lambda>r. out (snd r)) ?T) = map (\<lambda>r. Some (snd r, snd (out (snd r)))) ?T"
    by (simp add: zip_map2 zip_same_conv_map case_prod_beta comp_def)
  ultimately show ?thesis
    using key enc dec
    by (intro exI [of _ "map (\<lambda>r. packedKey (fst r)) ?T"] exI [of _ "map (\<lambda>r. out (snd r)) ?T"])
      (simp add: case_prod_beta)
qed

theorem reth_rows_can_be_stored_witness:
  "\<exists>keys. map (\<lambda>r. EncodePackedAccountKey (nibblestoStoredNibbles (fst r)) [])
      (reth_table (\<lambda>x. replicate 32 (last x)) [(1 # 1 # replicate 62 0, [5]), (1 # 2 # replicate 62 0, [6]), (2 # replicate 63 0, [7])]) = map Some keys \<and> distinct keys"
proof -
  have wf: "wf_entries 64 [(1 # 1 # replicate 62 0, [5]), (1 # 2 # replicate 62 0, [6]), (2 # replicate 63 0, [7])]"
    by (simp add: wf_entries_def nibbly_def bytesLess_Cons)
  have k: "keccak_spec (\<lambda>x. replicate 32 (last x))" by (simp add: keccak_spec_def)
  show ?thesis using reth_rows_can_be_stored [OF k wf] by blast
qed



end
