(* ===== verification/Reth_Codec.thy ===== *)
theory Reth_Codec
  imports Reth_Rows Nimbus_Codec
begin

text \<open>
  The Compact codec of reth's tables, from \<open>internal/reth/codec.go\<close>: LEB128 lengths, integers without their
  leading zero bytes, and the bit fields that record the lengths of a row's fields in its header.

  A \<open>bytes.Buffer\<close> is the list of bytes written so far.  Every function that may panic returns an option.
  A slice is as long as its capacity, so that \<open>b[i:j]\<close> panics when \<open>j\<close> is beyond the end.  The library
  holiman/uint256 is a parameter with the two methods the package uses.
\<close>

section \<open>Lengths in LEB128\<close>

function encodeVarUint :: "bytes \<Rightarrow> u64 \<Rightarrow> bytes" where
  "encodeVarUint buf v =
     (if 0x80 \<le> v then encodeVarUint (buf @ [ucast v OR 0x80]) (drop_bit 7 v) else buf @ [ucast v])"
  by pat_completeness auto
termination
proof (relation "measure (\<lambda>(buf, v). unat v)")
  fix buf :: bytes and v :: u64
  assume "0x80 \<le> v"
  then have "unat v \<ge> 128" by (simp add: word_le_nat_alt)
  moreover have "unat (drop_bit 7 v) = unat v div 128"
    by (simp only: unat_drop_bit_eq) (simp add: drop_bit_nat_def)
  ultimately show "((buf @ [ucast v OR 0x80], drop_bit 7 v), buf, v) \<in> measure (\<lambda>(buf, v). unat v)" by simp
qed simp

declare encodeVarUint.simps [simp del]

text \<open>The loop of \<open>decodeVarUint\<close> over the bytes, with its variables \<open>v\<close>, \<open>shift\<close> and \<open>i\<close>.\<close>

fun decodeVarUint_loop :: "u64 \<Rightarrow> nat \<Rightarrow> nat \<Rightarrow> bytes \<Rightarrow> (u64 \<times> nat) option" where
  "decodeVarUint_loop v shift i [] = None"
| "decodeVarUint_loop v shift i (c # b) =
     (if 10 \<le> i then None
      else
        let v = v OR push_bit shift (ucast (c AND 0x7f))
        in if c AND 0x80 = 0 then Some (v, i + 1) else decodeVarUint_loop v (shift + 7) (i + 1) b)"

definition decodeVarUint :: "bytes \<Rightarrow> (u64 \<times> nat) option" where
  "decodeVarUint b = decodeVarUint_loop 0 0 0 b"

section \<open>Integers without leading zeros\<close>

text \<open>The eight assignments \<open>raw[i] = byte(v >> ..)\<close>, also those of \<open>writeBEU64\<close>.\<close>

definition rawBE64 :: "u64 \<Rightarrow> bytes" where
  "rawBE64 v =
     [ucast (drop_bit 56 v), ucast (drop_bit 48 v), ucast (drop_bit 40 v), ucast (drop_bit 32 v),
      ucast (drop_bit 24 v), ucast (drop_bit 16 v), ucast (drop_bit 8 v), ucast v]"

text \<open>The loop \<open>for i < len(raw) && raw[i] == 0\<close>.\<close>

fun zeroPrefix :: "bytes \<Rightarrow> nat" where
  "zeroPrefix [] = 0"
| "zeroPrefix (c # raw) = (if c = 0 then Suc (zeroPrefix raw) else 0)"

definition encodeU64Compact :: "bytes \<Rightarrow> u64 \<Rightarrow> bytes \<times> nat" where
  "encodeU64Compact buf v =
     (if v = 0 then (buf, 0)
      else let raw = rawBE64 v; i = zeroPrefix raw in (buf @ drop i raw, 8 - i))"

definition decodeU64Compact :: "bytes \<Rightarrow> int \<Rightarrow> u64 option" where
  "decodeU64Compact b n =
     (if n < 0 \<or> n > 8 then None
      else if n > int (length b) then None
      else Some (foldl (\<lambda>v c. push_bit 8 v OR ucast c) 0 (take (nat n) b)))"

record uint256_slices =
  us_WriteToSlice :: "uint256 \<Rightarrow> bytes \<Rightarrow> bytes"
  us_SetBytes :: "bytes \<Rightarrow> uint256"

definition uint256_slices_spec :: "uint256_slices \<Rightarrow> bool" where
  "uint256_slices_spec U \<longleftrightarrow>
     (\<forall>v dest. length dest = 32 \<longrightarrow> us_WriteToSlice U v dest = beBytes 32 (unat v)) \<and>
     (\<forall>b. length b \<le> 32 \<longrightarrow> us_SetBytes U b = of_nat (beNat b))"

definition encodeU256Compact :: "uint256_slices \<Rightarrow> bytes \<Rightarrow> uint256 \<Rightarrow> bytes \<times> nat" where
  "encodeU256Compact U buf v =
     (let raw = us_WriteToSlice U v (replicate 32 0); i = zeroPrefix raw
      in (buf @ drop i raw, 32 - i))"

definition decodeU256Compact :: "uint256_slices \<Rightarrow> bytes \<Rightarrow> int \<Rightarrow> uint256 option" where
  "decodeU256Compact U b n =
     (if n < 0 \<or> n > 32 then None
      else if n > int (length b) then None
      else Some (us_SetBytes U (replicate (32 - nat n) 0 @ take (nat n) b)))"

definition encodeBytesCompact :: "bytes \<Rightarrow> bytes \<Rightarrow> bytes \<times> nat" where
  "encodeBytesCompact buf b = (buf @ b, length b)"

text \<open>\<open>make([]byte, n)\<close> panics for a negative \<open>n\<close>.\<close>

definition decodeBytesCompact :: "bytes \<Rightarrow> int \<Rightarrow> bytes option" where
  "decodeBytesCompact b n = (if n > int (length b) \<or> n < 0 then None else Some (take (nat n) b))"

section \<open>Bit fields\<close>

record bitflagBuilder =
  fb_bits :: u64
  fb_usedBits :: nat

definition bitflag_put :: "u64 \<Rightarrow> nat \<Rightarrow> bitflagBuilder \<Rightarrow> bitflagBuilder option" where
  "bitflag_put v width b =
     (if width > 64 then None
      else if width < 64 \<and> v \<ge> push_bit width 1 then None
      else Some (b\<lparr>fb_bits := fb_bits b OR push_bit (fb_usedBits b) v, fb_usedBits := fb_usedBits b + width\<rparr>))"

definition PutBool :: "bool \<Rightarrow> bitflagBuilder \<Rightarrow> bitflagBuilder option" where
  "PutBool v b = bitflag_put (if v then 1 else 0) 1 b"

definition PutU64Length :: "nat \<Rightarrow> bitflagBuilder \<Rightarrow> bitflagBuilder option" where
  "PutU64Length n b = bitflag_put (of_nat n) 4 b"

definition PutU256Length :: "nat \<Rightarrow> bitflagBuilder \<Rightarrow> bitflagBuilder option" where
  "PutU256Length n b = bitflag_put (of_nat n) 6 b"

definition bitflag_Finalize :: "nat \<Rightarrow> bitflagBuilder \<Rightarrow> bytes option" where
  "bitflag_Finalize totalBits b =
     (if totalBits \<noteq> fb_usedBits b then None
      else if totalBits = 0 then Some []
      else if totalBits \<le> 8 then Some [ucast (fb_bits b)]
      else if totalBits \<le> 16 then Some [ucast (fb_bits b), ucast (drop_bit 8 (fb_bits b))]
      else None)"

record bitflagReader =
  fr_bits :: u64
  fr_consumed :: nat
  fr_limit :: nat

text \<open>The loop of \<open>Init\<close> over the header, from index \<open>i\<close>.\<close>

fun bitflag_load :: "nat \<Rightarrow> bytes \<Rightarrow> u64 \<Rightarrow> u64 option" where
  "bitflag_load i [] acc = Some acc"
| "bitflag_load i (c # header) acc =
     (if 8 \<le> i then None else bitflag_load (i + 1) header (acc OR push_bit (i * 8) (ucast c)))"

definition bitflag_Init :: "bytes \<Rightarrow> nat \<Rightarrow> bitflagReader option" where
  "bitflag_Init header totalBits =
     map_option (\<lambda>v. \<lparr>fr_bits = v, fr_consumed = 0, fr_limit = totalBits\<rparr>) (bitflag_load 0 header 0)"

definition bitflag_get :: "nat \<Rightarrow> bitflagReader \<Rightarrow> (u64 \<times> bitflagReader) option" where
  "bitflag_get width r =
     (if fr_consumed r + width > fr_limit r then None
      else Some (drop_bit (fr_consumed r) (fr_bits r) AND (push_bit width 1 - 1),
                 r\<lparr>fr_consumed := fr_consumed r + width\<rparr>))"

definition GetBool :: "bitflagReader \<Rightarrow> (bool \<times> bitflagReader) option" where
  "GetBool r = map_option (\<lambda>(v, r). (v \<noteq> 0, r)) (bitflag_get 1 r)"

definition GetU64Length :: "bitflagReader \<Rightarrow> (nat \<times> bitflagReader) option" where
  "GetU64Length r = map_option (\<lambda>(v, r). (unat v, r)) (bitflag_get 4 r)"

definition GetU256Length :: "bitflagReader \<Rightarrow> (nat \<times> bitflagReader) option" where
  "GetU256Length r = map_option (\<lambda>(v, r). (unat v, r)) (bitflag_get 6 r)"

text \<open>\<open>copy(bufWrite(buf, n), src)\<close>: the buffer grows by \<open>n\<close> zero bytes, which the copy fills.\<close>

definition bufWriteCopy :: "bytes \<Rightarrow> nat \<Rightarrow> bytes \<Rightarrow> bytes \<times> nat" where
  "bufWriteCopy buf n src = (buf @ copyInto n src, min n (length src))"

section \<open>Round trips of the integers\<close>

lemma encodeVarUint_prefix: "encodeVarUint (pre @ buf) v = pre @ encodeVarUint buf v"
proof (induction buf v rule: encodeVarUint.induct)
  case (1 buf v)
  then show ?case
    by (cases "0x80 \<le> v") (simp_all add: encodeVarUint.simps [of "pre @ buf" v] encodeVarUint.simps [of buf v])
qed

lemma encodeVarUint_append: "encodeVarUint buf v = buf @ encodeVarUint [] v"
  using encodeVarUint_prefix [of buf "[]" v] by simp

lemma encodeVarUint_unfold:
  "encodeVarUint [] v =
     (if 0x80 \<le> v then (ucast v OR 0x80) # encodeVarUint [] (drop_bit 7 v) else [ucast v])"
  using encodeVarUint_append [of "[ucast v OR 0x80]" "drop_bit 7 v"] by (simp add: encodeVarUint.simps [of "[]" v])

lemma length_encodeVarUint: "unat v < 2 ^ (7 * k) \<Longrightarrow> 0 < k \<Longrightarrow> length (encodeVarUint [] v) \<le> k"
proof (induction k arbitrary: v)
  case (Suc k)
  show ?case
  proof (cases "0x80 \<le> v")
    case True
    have u: "unat (drop_bit 7 v) = unat v div 128"
      by (simp only: unat_drop_bit_eq) (simp add: drop_bit_nat_def)
    have "unat v < 2 ^ (7 * k) * 128" using Suc.prems by (simp add: power_add mult.commute)
    then have less: "unat (drop_bit 7 v) < 2 ^ (7 * k)" unfolding u by (simp add: less_mult_imp_div_less)
    have "0 < k"
    proof (rule ccontr)
      assume "\<not> 0 < k"
      with less u have "unat v div 128 = 0" by simp
      with True show False by (simp add: word_le_nat_alt)
    qed
    with Suc.IH [OF less] True show ?thesis by (simp add: encodeVarUint_unfold [of v])
  qed (simp add: encodeVarUint_unfold [of v])
qed simp

lemma length_encodeVarUint_u64: "length (encodeVarUint [] v) \<le> 10"
  using unsigned_less [of v, where ?'a = nat] by (intro length_encodeVarUint) auto

lemma push_split7: "push_bit s (take_bit 7 v) OR push_bit (s + 7) (drop_bit 7 v) = push_bit s (v :: u64)"
proof (rule bit_word_eqI)
  fix n
  assume "n < LENGTH(64)"
  moreover have "7 + (n - (s + 7)) = n - s" if "s + 7 \<le> n" using that by simp
  ultimately show "bit (push_bit s (take_bit 7 v) OR push_bit (s + 7) (drop_bit 7 v)) n \<longleftrightarrow> bit (push_bit s v) n"
    by (cases "s + 7 \<le> n") (auto simp: bit_simps)
qed

lemma byte_0x7f: "(0x7f :: byte) = mask 7" and byte_0x80: "(0x80 :: byte) = push_bit 7 1"
  by (simp_all add: mask_eq_exp_minus_1 push_bit_eq_mult)

lemma bit_0x80: "bit (0x80 :: byte) n \<longleftrightarrow> n = 7"
  unfolding byte_0x80 bit_push_bit_iff bit_1_iff by auto

lemma varuint_low: "ucast ((ucast v OR 0x80) AND 0x7f :: byte) = take_bit 7 (v :: u64)"
    "ucast (ucast v AND 0x7f :: byte) = take_bit 7 (v :: u64)"
  unfolding byte_0x7f by (auto intro!: bit_word_eqI simp: bit_simps bit_0x80 simp del: bit_numeral_word_iff)

lemma varuint_more: "(ucast v OR 0x80) AND 0x80 \<noteq> (0 :: byte)"
proof
  assume "(ucast v OR 0x80) AND 0x80 = (0 :: byte)"
  then have "\<not> bit ((ucast v OR 0x80) AND 0x80 :: byte) 7" by simp
  then show False unfolding byte_0x80 by (simp add: bit_simps)
qed

lemma varuint_small: "\<not> 0x80 \<le> v \<Longrightarrow> take_bit 7 v = (v :: u64)"
  by (simp add: take_bit_eq_mod word_le_nat_alt word_unat_eq_iff unat_mod not_le)

lemma varuint_last: "take_bit 7 v = (v :: u64) \<Longrightarrow> ucast v AND 0x80 = (0 :: byte)"
proof (rule bit_word_eqI)
  fix n
  assume "take_bit 7 v = v"
  then have "\<not> bit v 7" by (metis bit_take_bit_iff less_irrefl)
  then show "bit (ucast v AND 0x80 :: byte) n \<longleftrightarrow> bit (0 :: byte) n" by (auto simp: bit_simps bit_0x80 simp del: bit_numeral_word_iff)
qed

lemma decodeVarUint_loop_encode:
  "i + length (encodeVarUint [] v) \<le> 10 \<Longrightarrow>
   decodeVarUint_loop acc s i (encodeVarUint [] v @ rest) = Some (acc OR push_bit s v, i + length (encodeVarUint [] v))"
proof (induction v arbitrary: acc s i rule: measure_induct_rule [of unat])
  case (less v)
  show ?case
  proof (cases "0x80 \<le> v")
    case True
    have "unat (drop_bit 7 v) = unat v div 128"
      by (simp only: unat_drop_bit_eq) (simp add: drop_bit_nat_def)
    moreover have "unat v \<ge> 128" using True by (simp add: word_le_nat_alt)
    ultimately have "unat (drop_bit 7 v) < unat v" by simp
    from less.IH [OF this, of "Suc i" "acc OR push_bit s (take_bit 7 v)" "s + 7"] less.prems True
    show ?thesis
      by (simp add: encodeVarUint_unfold [of v] Let_def varuint_more varuint_low or.assoc push_split7)
  next
    case False
    then show ?thesis
      using less.prems varuint_small [of v] varuint_last [of v]
      by (simp add: encodeVarUint_unfold [of v] Let_def varuint_low)
  qed
qed

lemma decodeVarUint_encode: "decodeVarUint (encodeVarUint [] v @ rest) = Some (v, length (encodeVarUint [] v))"
  using decodeVarUint_loop_encode [of 0 v] length_encodeVarUint_u64 [of v] by (simp add: decodeVarUint_def)

lemma zeroPrefix_le: "zeroPrefix b \<le> length b"
  by (induction b) auto

lemma drop_zeroPrefix: "drop (zeroPrefix b) b = minBEBytes (beNat b)"
proof (induction b)
  case (Cons c b)
  then show ?case by (cases "c = 0") (simp_all add: beNat_0_append minBEBytes_beNat)
qed simp

lemma length_zeroPrefix: "length b - zeroPrefix b = length (minBEBytes (beNat b))"
  by (metis drop_zeroPrefix length_drop)

lemma rawBE64_eq: "rawBE64 v = beBytes 8 (unat v)"
proof -
  have "rev [0..<8] = [7, 6, 5, 4, 3, 2, 1, 0 :: nat]" by (simp add: upt_rec numeral_eq_Suc)
  then have "putUint64BE v = rawBE64 v" by (simp add: putUint64BE_def rawBE64_def)
  then show ?thesis by (simp add: putUint64BE_eq)
qed

lemma beNat_beBytes_u64: "beNat (beBytes 8 (unat v)) = unat (v :: u64)"
  using unsigned_less [of v, where ?'a = nat] by (simp add: beNat_beBytes)

lemma beNat_beBytes_u256: "beNat (beBytes 32 (unat v)) = unat (v :: uint256)"
  using unsigned_less [of v, where ?'a = nat] by (simp add: beNat_beBytes)

lemma encodeU64Compact_eq:
  "encodeU64Compact buf v = (buf @ minBEBytes (unat v), length (minBEBytes (unat v)))"
proof (cases "v = 0")
  case False
  then show ?thesis
    using length_zeroPrefix [of "beBytes 8 (unat v)"]
    by (simp add: encodeU64Compact_def Let_def rawBE64_eq drop_zeroPrefix beNat_beBytes_u64)
qed (simp add: encodeU64Compact_def)

lemma decodeU64Compact_minBE:
  "decodeU64Compact (minBEBytes (unat v) @ rest) (int (length (minBEBytes (unat v)))) = Some v"
  using length_minBEBytes_u64 [of v] by (simp add: decodeU64Compact_def foldl_be_u64)

lemma encodeU256Compact_eq:
  assumes "uint256_slices_spec U"
  shows "encodeU256Compact U buf v = (buf @ minBEBytes (unat v), length (minBEBytes (unat v)))"
  using assms length_zeroPrefix [of "beBytes 32 (unat v)"]
  by (simp add: encodeU256Compact_def uint256_slices_spec_def Let_def drop_zeroPrefix beNat_beBytes_u256)

lemma beNat_zeros: "beNat (replicate k 0 @ b) = beNat b"
  by (induction k) (simp_all add: beNat_0_append)

lemma decodeU256Compact_minBE:
  assumes "uint256_slices_spec U"
  shows "decodeU256Compact U (minBEBytes (unat v) @ rest) (int (length (minBEBytes (unat v)))) = Some v"
  using assms length_minBEBytes_u256 [of v]
  by (simp add: decodeU256Compact_def uint256_slices_spec_def beNat_zeros)

section \<open>Bit fields: what is put is what is got\<close>

text \<open>
  The header of a list of fields \<open>(value, width)\<close>, the first field lowest.  A builder that is given the
  fields one after the other ends with this number, and a reader gets them back in the same order.
\<close>

type_synonym bit_fields = "(u64 \<times> nat) list"

fun header_bits :: "bit_fields \<Rightarrow> u64" where
  "header_bits [] = 0"
| "header_bits ((v, w) # fs) = v OR push_bit w (header_bits fs)"

definition fields_ok :: "bit_fields \<Rightarrow> bool" where
  "fields_ok fs \<longleftrightarrow> sum_list (map snd fs) \<le> 16 \<and> (\<forall>(v, w) \<in> set fs. unat v < 2 ^ w)"

fun putFields :: "bit_fields \<Rightarrow> bitflagBuilder \<Rightarrow> bitflagBuilder option" where
  "putFields [] b = Some b"
| "putFields ((v, w) # fs) b = Option.bind (bitflag_put v w b) (putFields fs)"

fun getFields :: "nat list \<Rightarrow> bitflagReader \<Rightarrow> (u64 list \<times> bitflagReader) option" where
  "getFields [] r = Some ([], r)"
| "getFields (w # ws) r =
     do { (v, r) \<leftarrow> bitflag_get w r; (vs, r) \<leftarrow> getFields ws r; Some (v # vs, r) }"

lemma fields_ok_Cons:
  "fields_ok ((v, w) # fs) \<Longrightarrow> w \<le> 16 \<and> unat v < 2 ^ w \<and> fields_ok fs"
  by (auto simp: fields_ok_def)

lemma push_bit_1_unat: "w < 64 \<Longrightarrow> unat (push_bit w 1 :: u64) = 2 ^ w"
  using unat_of_nat [of "2 ^ w", where ?'a = 64] power_strict_increasing [of w 64 "2 :: nat"]
  by (simp add: push_bit_eq_mult)

lemma bitflag_put_ok:
  assumes "w \<le> 16" "unat v < 2 ^ w"
  shows "bitflag_put v w b =
    Some (b\<lparr>fb_bits := fb_bits b OR push_bit (fb_usedBits b) v, fb_usedBits := fb_usedBits b + w\<rparr>)"
  using assms by (auto simp: bitflag_put_def word_le_nat_alt push_bit_1_unat simp del: push_bit_of_1)

lemma putFields_eq:
  "fields_ok fs \<Longrightarrow> putFields fs b =
     Some (b\<lparr>fb_bits := fb_bits b OR push_bit (fb_usedBits b) (header_bits fs),
             fb_usedBits := fb_usedBits b + sum_list (map snd fs)\<rparr>)"
proof (induction fs arbitrary: b)
  case (Cons f fs)
  obtain v w where f: "f = (v, w)" by fastforce
  note ok = fields_ok_Cons [OF Cons.prems [unfolded f]]
  then show ?case
    using Cons.IH bitflag_put_ok [of w v b]
    by (simp add: f push_bit_or or.assoc add.assoc push_bit_push_bit add.commute)
qed simp

lemma take_bit_field: "unat v < 2 ^ w \<Longrightarrow> take_bit w v = (v :: u64)"
  by (metis take_bit_nat_eq_self unsigned_take_bit_eq word_unat_eq_iff)

lemma header_bits_less: "fields_ok fs \<Longrightarrow> take_bit (sum_list (map snd fs)) (header_bits fs) = header_bits fs"
proof (induction fs)
  case (Cons f fs)
  obtain v w where f: "f = (v, w)" by fastforce
  note ok = fields_ok_Cons [OF Cons.prems [unfolded f]]
  let ?s = "sum_list (map snd fs)"
  have "take_bit (w + ?s) v = v"
    using take_bit_field [of v w] ok by (metis le_add1 min_absorb2 take_bit_take_bit)
  moreover have "take_bit (w + ?s) (push_bit w (header_bits fs)) = push_bit w (header_bits fs)"
    using Cons.IH ok by (simp add: take_bit_push_bit)
  ultimately show ?case by (simp add: f)
qed simp

lemma drop_push_small:
  assumes "take_bit s h = h" "w + s \<le> 64"
  shows "drop_bit w (push_bit w h) = (h :: u64)"
proof (rule bit_word_eqI)
  fix n
  have "n < s" if "bit h n" using that assms(1) by (metis bit_take_bit_iff)
  then show "bit (drop_bit w (push_bit w h)) n \<longleftrightarrow> bit h n" using assms(2) by (auto simp: bit_simps)
qed

lemma getFields_eq:
  "fields_ok fs \<Longrightarrow> drop_bit (fr_consumed r) (fr_bits r) = header_bits fs \<Longrightarrow>
   fr_consumed r + sum_list (map snd fs) \<le> fr_limit r \<Longrightarrow>
   getFields (map snd fs) r = Some (map fst fs, r\<lparr>fr_consumed := fr_consumed r + sum_list (map snd fs)\<rparr>)"
proof (induction fs arbitrary: r)
  case (Cons f fs)
  obtain v w where f: "f = (v, w)" by fastforce
  note ok = fields_ok_Cons [OF Cons.prems(1) [unfolded f]]
  let ?r = "r\<lparr>fr_consumed := fr_consumed r + w\<rparr>"
  have "take_bit w (header_bits ((v, w) # fs)) = v"
    using take_bit_field [of v w] ok by (simp add: take_bit_push_bit)
  then have get: "bitflag_get w r = Some (v, ?r)"
    using Cons.prems ok by (simp add: bitflag_get_def f take_bit_eq_mask mask_eq_exp_minus_1)
  have "drop_bit w v = 0"
    using take_bit_field [of v w] ok by (metis drop_bit_take_bit diff_self_eq_0 take_bit_0)
  moreover have "drop_bit w (push_bit w (header_bits fs)) = header_bits fs"
    using header_bits_less [of fs] ok Cons.prems(1) by (intro drop_push_small) (auto simp: fields_ok_def f)
  ultimately have "drop_bit (fr_consumed ?r) (fr_bits ?r) = header_bits fs"
    using Cons.prems(2) by (simp add: f drop_bit_drop_bit [symmetric] add.commute)
  with get Cons.IH [of ?r] Cons.prems ok show ?case by (simp add: f add.assoc)
qed simp

definition newBitflag :: bitflagBuilder where
  "newBitflag = \<lparr>fb_bits = 0, fb_usedBits = 0\<rparr>"

definition headerBytes :: "bit_fields \<Rightarrow> bytes" where
  "headerBytes fs =
     (if sum_list (map snd fs) \<le> 8 then [ucast (header_bits fs)]
      else [ucast (header_bits fs), ucast (drop_bit 8 (header_bits fs))])"

lemma ucast_byte_back: "ucast (ucast v :: byte) = take_bit 8 (v :: u64)"
  by (rule bit_word_eqI) (auto simp: bit_simps)

lemma low_two_bytes: "take_bit 8 v OR push_bit 8 (take_bit 8 (drop_bit 8 v)) = take_bit 16 (v :: u64)"
proof (rule bit_word_eqI)
  fix n
  show "bit (take_bit 8 v OR push_bit 8 (take_bit 8 (drop_bit 8 v))) n \<longleftrightarrow> bit (take_bit 16 v) n" if "n < LENGTH(64)"
    using that by (cases "8 \<le> n") (auto simp: bit_simps)
qed

lemma finalize_fields:
  assumes "fields_ok fs" "0 < sum_list (map snd fs)"
  shows "Option.bind (putFields fs newBitflag) (bitflag_Finalize (sum_list (map snd fs))) = Some (headerBytes fs)"
  using assms by (simp add: putFields_eq newBitflag_def bitflag_Finalize_def headerBytes_def fields_ok_def
      del: sum_list_eq_0_iff)

lemma init_headerBytes:
  assumes "fields_ok fs"
  shows "bitflag_Init (headerBytes fs) n = Some \<lparr>fr_bits = header_bits fs, fr_consumed = 0, fr_limit = n\<rparr>"
proof -
  let ?s = "sum_list (map snd fs)" and ?h = "header_bits fs"
  have h: "take_bit k ?h = ?h" if "?s \<le> k" for k
    using header_bits_less [OF assms] that by (metis min_absorb2 take_bit_take_bit)
  have "?s \<le> 16" using assms by (simp add: fields_ok_def)
  with h [of 8] h [of 16] low_two_bytes [of ?h] show ?thesis
    by (simp add: bitflag_Init_def headerBytes_def ucast_byte_back)
qed

lemma read_headerBytes:
  assumes "fields_ok fs" "n = sum_list (map snd fs)"
  shows "Option.bind (bitflag_Init (headerBytes fs) n) (getFields (map snd fs)) =
    Some (map fst fs, \<lparr>fr_bits = header_bits fs, fr_consumed = n, fr_limit = n\<rparr>)"
  using getFields_eq [OF assms(1), of "\<lparr>fr_bits = header_bits fs, fr_consumed = 0, fr_limit = n\<rparr>"] assms
  by (simp add: init_headerBytes)

end
