(* ===== verification/Reth_Types.thy ===== *)
theory Reth_Types
  imports Reth_Codec
begin

text \<open>
  The rows of reth's plain tables, from \<open>internal/reth/types.go\<close> and \<open>internal/reth/prune.go\<close>: accounts,
  storage entries, change sets, history keys, block indices, checkpoints and the client version.

  Every row that has a decoder in the sources is shown to be inverted by it, whatever follows in the
  buffer; the prune checkpoint, which has none, is shown to be encoded injectively.  The keys of the
  history and change-set tables sort by their components.
\<close>

section \<open>Accounts\<close>

record rethAccount =
  ra_Nonce :: u64
  ra_Balance :: uint256
  ra_BytecodeHash :: "bytes option"

definition Account_EncodeCompact :: "uint256_slices \<Rightarrow> rethAccount \<Rightarrow> bytes \<Rightarrow> (bytes \<times> nat) option" where
  "Account_EncodeCompact U a buf =
     (let (nonceBuf, nonceN) = encodeU64Compact [] (ra_Nonce a);
          (balBuf, balN) = encodeU256Compact U [] (ra_Balance a)
      in do {
        bb \<leftarrow> PutU64Length nonceN newBitflag;
        bb \<leftarrow> PutU256Length balN bb;
        bb \<leftarrow> PutBool (ra_BytecodeHash a \<noteq> None) bb;
        header \<leftarrow> bitflag_Finalize 11 bb;
        let (buf, w1) = bufWriteCopy buf (length header) header;
            (buf, w2) = bufWriteCopy buf nonceN nonceBuf;
            (buf, w3) = bufWriteCopy buf balN balBuf
        in case ra_BytecodeHash a of
             None \<Rightarrow> Some (buf, w1 + w2 + w3)
           | Some h \<Rightarrow> let (buf, w4) = bufWriteCopy buf 32 h in Some (buf, w1 + w2 + w3 + w4)
      })"

definition Account_DecodeCompact :: "uint256_slices \<Rightarrow> bytes \<Rightarrow> int \<Rightarrow> (rethAccount \<times> nat) option" where
  "Account_DecodeCompact U b totalLen =
     (if length b < 2 then None
      else do {
        br \<leftarrow> bitflag_Init (take 2 b) 11;
        (nonceN, br) \<leftarrow> GetU64Length br;
        (balN, br) \<leftarrow> GetU256Length br;
        (hasCode, br) \<leftarrow> GetBool br;
        nonce \<leftarrow> decodeU64Compact (drop 2 b) (int nonceN);
        let cursor = 2 + nonceN;
        balance \<leftarrow> decodeU256Compact U (drop cursor b) (int balN);
        let cursor = cursor + balN;
        (h, cursor) \<leftarrow>
          (if hasCode then map_option (\<lambda>h. (Some h, cursor + 32)) (hashAt b cursor) else Some (None, cursor));
        if int cursor \<noteq> totalLen then None
        else Some (\<lparr>ra_Nonce = nonce, ra_Balance = balance, ra_BytecodeHash = h\<rparr>, cursor)
      })"

section \<open>Storage entries and change sets\<close>

record rethStorageEntry =
  se_Key :: bytes
  se_Value :: uint256

definition StorageEntry_EncodeCompact :: "uint256_slices \<Rightarrow> rethStorageEntry \<Rightarrow> bytes \<Rightarrow> bytes \<times> nat" where
  "StorageEntry_EncodeCompact U s buf =
     (let (valBuf, valN) = encodeU256Compact U [] (se_Value s);
          (buf, w1) = bufWriteCopy buf 32 (se_Key s);
          (buf, w2) = bufWriteCopy buf valN valBuf
      in (buf, w1 + w2))"

definition StorageEntry_DecodeCompact :: "uint256_slices \<Rightarrow> bytes \<Rightarrow> int \<Rightarrow> (rethStorageEntry \<times> int) option" where
  "StorageEntry_DecodeCompact U b totalLen =
     (if length b < 32 then None
      else map_option (\<lambda>v. (\<lparr>se_Key = take 32 b, se_Value = v\<rparr>, totalLen))
             (decodeU256Compact U (drop 32 b) (totalLen - 32)))"

record rethAccountBeforeTx =
  ab_Address :: bytes
  ab_Info :: "rethAccount option"

definition AccountBeforeTx_EncodeCompact ::
  "uint256_slices \<Rightarrow> rethAccountBeforeTx \<Rightarrow> bytes \<Rightarrow> (bytes \<times> nat) option" where
  "AccountBeforeTx_EncodeCompact U a buf =
     (let (buf, written) = bufWriteCopy buf 20 (ab_Address a)
      in case ab_Info a of
           None \<Rightarrow> Some (buf, written)
         | Some i \<Rightarrow> map_option (\<lambda>(buf, n). (buf, written + n)) (Account_EncodeCompact U i buf))"

definition AccountBeforeTx_DecodeCompact ::
  "uint256_slices \<Rightarrow> bytes \<Rightarrow> int \<Rightarrow> (rethAccountBeforeTx \<times> nat) option" where
  "AccountBeforeTx_DecodeCompact U b totalLen =
     (if length b < 20 then None
      else if totalLen > 20 then
        map_option (\<lambda>(i, n). (\<lparr>ab_Address = take 20 b, ab_Info = Some i\<rparr>, 20 + n))
          (Account_DecodeCompact U (drop 20 b) (totalLen - 20))
      else Some (\<lparr>ab_Address = take 20 b, ab_Info = None\<rparr>, 20))"

section \<open>Keys of the history tables\<close>

definition writeBEU64 :: "bytes \<Rightarrow> u64 \<Rightarrow> bytes" where
  "writeBEU64 buf v = buf @ rawBE64 v"

text \<open>\<open>b[0]\<close> to \<open>b[7]\<close> exist wherever the sources call it; out of range Go panics.\<close>

definition readBEU64 :: "bytes \<Rightarrow> u64 option" where
  "readBEU64 b =
     (if length b < 8 then None
      else Some (push_bit 56 (ucast (b ! 0)) OR push_bit 48 (ucast (b ! 1)) OR push_bit 40 (ucast (b ! 2)) OR
                 push_bit 32 (ucast (b ! 3)) OR push_bit 24 (ucast (b ! 4)) OR push_bit 16 (ucast (b ! 5)) OR
                 push_bit 8 (ucast (b ! 6)) OR ucast (b ! 7)))"

record ShardedKeyAddress =
  sk_Address :: bytes
  sk_BlockNumber :: u64

definition ShardedKeyAddress_EncodeKey :: "ShardedKeyAddress \<Rightarrow> bytes \<Rightarrow> bytes" where
  "ShardedKeyAddress_EncodeKey k buf = writeBEU64 (buf @ sk_Address k) (sk_BlockNumber k)"

definition ShardedKeyAddress_DecodeKey :: "bytes \<Rightarrow> ShardedKeyAddress option" where
  "ShardedKeyAddress_DecodeKey b =
     (if length b < 28 then None
      else map_option (\<lambda>n. \<lparr>sk_Address = take 20 b, sk_BlockNumber = n\<rparr>) (readBEU64 (drop 20 b)))"

record StorageShardedKey =
  ss_Address :: bytes
  ss_StorageKey :: bytes
  ss_BlockNumber :: u64

definition StorageShardedKey_EncodeKey :: "StorageShardedKey \<Rightarrow> bytes \<Rightarrow> bytes" where
  "StorageShardedKey_EncodeKey k buf = writeBEU64 (buf @ ss_Address k @ ss_StorageKey k) (ss_BlockNumber k)"

definition StorageShardedKey_DecodeKey :: "bytes \<Rightarrow> StorageShardedKey option" where
  "StorageShardedKey_DecodeKey b =
     (if length b < 60 then None
      else map_option (\<lambda>n. \<lparr>ss_Address = take 20 b, ss_StorageKey = subslice 20 52 b, ss_BlockNumber = n\<rparr>)
             (readBEU64 (drop 52 b)))"

record BlockNumberAddress =
  bn_BlockNumber :: u64
  bn_Address :: bytes

definition BlockNumberAddress_EncodeKey :: "BlockNumberAddress \<Rightarrow> bytes \<Rightarrow> bytes" where
  "BlockNumberAddress_EncodeKey k buf = writeBEU64 buf (bn_BlockNumber k) @ bn_Address k"

definition BlockNumberAddress_DecodeKey :: "bytes \<Rightarrow> BlockNumberAddress option" where
  "BlockNumberAddress_DecodeKey b =
     (if length b < 28 then None
      else map_option (\<lambda>n. \<lparr>bn_BlockNumber = n, bn_Address = subslice 8 28 b\<rparr>) (readBEU64 (take 8 b)))"

section \<open>Block indices, checkpoints and the client version\<close>

record StoredBlockBodyIndices =
  bi_FirstTxNum :: u64
  bi_TxCount :: u64

definition BlockBodyIndices_EncodeCompact :: "StoredBlockBodyIndices \<Rightarrow> bytes \<Rightarrow> (bytes \<times> nat) option" where
  "BlockBodyIndices_EncodeCompact s buf =
     (let (fBuf, fN) = encodeU64Compact [] (bi_FirstTxNum s);
          (cBuf, cN) = encodeU64Compact [] (bi_TxCount s)
      in do {
        bb \<leftarrow> PutU64Length fN newBitflag;
        bb \<leftarrow> PutU64Length cN bb;
        header \<leftarrow> bitflag_Finalize 8 bb;
        let (buf, w1) = bufWriteCopy buf (length header) header;
            (buf, w2) = bufWriteCopy buf fN fBuf;
            (buf, w3) = bufWriteCopy buf cN cBuf
        in Some (buf, w1 + w2 + w3)
      })"

definition BlockBodyIndices_DecodeCompact :: "bytes \<Rightarrow> int \<Rightarrow> (StoredBlockBodyIndices \<times> nat) option" where
  "BlockBodyIndices_DecodeCompact b totalLen =
     (if length b < 1 then None
      else do {
        br \<leftarrow> bitflag_Init (take 1 b) 8;
        (fN, br) \<leftarrow> GetU64Length br;
        (cN, br) \<leftarrow> GetU64Length br;
        first \<leftarrow> decodeU64Compact (drop 1 b) (int fN);
        let cursor = 1 + fN;
        count \<leftarrow> decodeU64Compact (drop cursor b) (int cN);
        let cursor = cursor + cN;
        if int cursor \<noteq> totalLen then None
        else Some (\<lparr>bi_FirstTxNum = first, bi_TxCount = count\<rparr>, cursor)
      })"

record rethStageCheckpoint =
  sc_BlockNumber :: u64

definition StageCheckpoint_EncodeCompact :: "rethStageCheckpoint \<Rightarrow> bytes \<Rightarrow> (bytes \<times> nat) option" where
  "StageCheckpoint_EncodeCompact s buf =
     (let (nBuf, n) = encodeU64Compact [] (sc_BlockNumber s)
      in do {
        bb \<leftarrow> PutU64Length n newBitflag;
        header \<leftarrow> bitflag_Finalize 4 bb;
        let (buf, w1) = bufWriteCopy buf (length header) header;
            (buf, w2) = bufWriteCopy buf n nBuf
        in Some (buf, w1 + w2)
      })"

definition StageCheckpoint_DecodeCompact :: "bytes \<Rightarrow> int \<Rightarrow> (rethStageCheckpoint \<times> nat) option" where
  "StageCheckpoint_DecodeCompact b totalLen =
     (if length b < 1 then None
      else do {
        br \<leftarrow> bitflag_Init (take 1 b) 4;
        (n, br) \<leftarrow> GetU64Length br;
        block \<leftarrow> decodeU64Compact (drop 1 b) (int n);
        let cursor = 1 + n;
        if int cursor \<noteq> totalLen then None else Some (\<lparr>sc_BlockNumber = block\<rparr>, cursor)
      })"

record rethClientVersion =
  cv_Version :: bytes
  cv_GitSha :: bytes
  cv_BuildTimestamp :: bytes

definition ClientVersion_EncodeCompact :: "rethClientVersion \<Rightarrow> bytes \<Rightarrow> bytes \<times> nat" where
  "ClientVersion_EncodeCompact c buf =
     (let start = length buf;
          buf = encodeVarUint buf (of_nat (length (cv_Version c))) @ cv_Version c;
          buf = encodeVarUint buf (of_nat (length (cv_GitSha c))) @ cv_GitSha c;
          buf = buf @ cv_BuildTimestamp c
      in (buf, length buf - start))"

text \<open>\<open>b[lo:hi]\<close> for integers, which panics unless \<open>lo \<le> hi \<le> len(b)\<close>.\<close>

definition sliceInt :: "bytes \<Rightarrow> nat \<Rightarrow> int \<Rightarrow> bytes option" where
  "sliceInt b lo hi = (if int lo \<le> hi \<and> hi \<le> int (length b) then Some (subslice lo (nat hi) b) else None)"

definition ClientVersion_DecodeCompact :: "bytes \<Rightarrow> int \<Rightarrow> (rethClientVersion \<times> int) option" where
  "ClientVersion_DecodeCompact b totalLen =
     do {
       (verLen, n) \<leftarrow> decodeVarUint b;
       let cursor = n;
       version \<leftarrow> sliceInt b cursor (int cursor + sint verLen);
       let cursor = cursor + length version;
       (shaLen, n) \<leftarrow> decodeVarUint (drop cursor b);
       let cursor = cursor + n;
       sha \<leftarrow> sliceInt b cursor (int cursor + sint shaLen);
       let cursor = cursor + length sha;
       stamp \<leftarrow> sliceInt b cursor totalLen;
       Some (\<lparr>cv_Version = version, cv_GitSha = sha, cv_BuildTimestamp = stamp\<rparr>, totalLen)
     }"

section \<open>Prune checkpoints\<close>

definition PruneModeFull :: byte where "PruneModeFull = 0"
definition PruneModeDistance :: byte where "PruneModeDistance = 1"
definition PruneModeBefore :: byte where "PruneModeBefore = 2"

definition EncodePruneSegmentKey :: "byte \<Rightarrow> bytes" where
  "EncodePruneSegmentKey segment = [segment]"

record rethPruneMode =
  pm_Kind :: byte
  pm_Value :: u64

definition PruneMode_EncodeCompact :: "rethPruneMode \<Rightarrow> bytes \<Rightarrow> bytes \<times> nat" where
  "PruneMode_EncodeCompact m buf =
     (let (payload, payloadLen) =
            (if pm_Kind m = PruneModeDistance \<or> pm_Kind m = PruneModeBefore
             then encodeU64Compact [] (pm_Value m) else ([], 0));
          buf = buf @ [pm_Kind m];
          buf = (if payloadLen > 0 then buf @ payload else buf)
      in (buf, 1 + payloadLen))"

record rethPruneCheckpoint =
  pc_BlockNumber :: "u64 option"
  pc_TxNumber :: "u64 option"
  pc_PruneMode :: rethPruneMode

text \<open>One optional field: the new temporary buffer and its flag.\<close>

definition encodeOptU64 :: "u64 option \<Rightarrow> bytes \<Rightarrow> bytes \<times> byte" where
  "encodeOptU64 v optBuf =
     (case v of
        None \<Rightarrow> (optBuf, 0)
      | Some n \<Rightarrow>
          let (inner, innerLen) = encodeU64Compact [] n
          in (encodeVarUint optBuf (of_nat innerLen) @ inner, 1))"

definition PruneCheckpoint_EncodeCompact :: "rethPruneCheckpoint \<Rightarrow> bytes \<Rightarrow> bytes \<times> nat" where
  "PruneCheckpoint_EncodeCompact c buf =
     (let (optBuf, blockFlag) = encodeOptU64 (pc_BlockNumber c) [];
          (optBuf, txFlag) = encodeOptU64 (pc_TxNumber c) optBuf;
          (pmBuf, _) = PruneMode_EncodeCompact (pc_PruneMode c) [];
          flagByte = blockFlag OR push_bit 1 txFlag;
          buf = buf @ [flagByte];
          (buf, w1) = bufWriteCopy buf (length optBuf) optBuf;
          (buf, w2) = bufWriteCopy buf (length pmBuf) pmBuf
      in (buf, 1 + w1 + w2))"

section \<open>Headers of the rows\<close>

lemmas put_defs = PutU64Length_def PutU256Length_def PutBool_def
lemmas get_defs = GetU64Length_def GetU256Length_def GetBool_def

lemma copyInto_self: "copyInto (length b) b = b"
  by simp

lemmas row_simps = bufWriteCopy_def encodeU64Compact_eq encodeU256Compact_eq Let_def

lemma unat_of_nat_field: "n < 2 ^ w \<Longrightarrow> w \<le> 16 \<Longrightarrow> unat (of_nat n :: u64) = n"
proof -
  assume "n < 2 ^ w" "w \<le> 16"
  moreover have "(2 :: nat) ^ w \<le> 2 ^ 16" using \<open>w \<le> 16\<close> by (rule power_increasing) simp
  ultimately show ?thesis by (simp add: unat_of_nat)
qed

lemma field_u64: "unat (of_nat (length (minBEBytes (unat (v :: u64)))) :: u64) = length (minBEBytes (unat v))"
  using length_minBEBytes_u64 [of v] by (intro unat_of_nat_field [where w = 4]) simp_all

lemma field_u256: "unat (of_nat (length (minBEBytes (unat (v :: uint256)))) :: u64) = length (minBEBytes (unat v))"
  using length_minBEBytes_u256 [of v] by (intro unat_of_nat_field [where w = 6]) simp_all

definition account_fields :: "rethAccount \<Rightarrow> bit_fields" where
  "account_fields a =
     [(of_nat (length (minBEBytes (unat (ra_Nonce a)))), 4), (of_nat (length (minBEBytes (unat (ra_Balance a)))), 6),
      (if ra_BytecodeHash a \<noteq> None then 1 else 0, 1)]"

definition account_ok :: "rethAccount \<Rightarrow> bool" where
  "account_ok a \<longleftrightarrow> (case ra_BytecodeHash a of None \<Rightarrow> True | Some h \<Rightarrow> length h = 32)"

definition account_row :: "rethAccount \<Rightarrow> bytes" where
  "account_row a =
     headerBytes (account_fields a) @ minBEBytes (unat (ra_Nonce a)) @ minBEBytes (unat (ra_Balance a)) @
       (case ra_BytecodeHash a of None \<Rightarrow> [] | Some h \<Rightarrow> h)"

lemma account_fields_ok: "fields_ok (account_fields a)"
  using length_minBEBytes_u64 [of "ra_Nonce a"] length_minBEBytes_u256 [of "ra_Balance a"]
  by (simp add: fields_ok_def account_fields_def field_u64 field_u256)

lemma Account_EncodeCompact_eq:
  assumes "uint256_slices_spec U" "account_ok a"
  shows "Account_EncodeCompact U a buf = Some (buf @ account_row a, length (account_row a))"
proof -
  have "Option.bind (putFields (account_fields a) newBitflag) (bitflag_Finalize 11) = Some (headerBytes (account_fields a))"
    using finalize_fields [OF account_fields_ok [of a]] by (simp add: account_fields_def)
  then show ?thesis
    using assms
    by (auto simp: Account_EncodeCompact_def put_defs row_simps account_row_def account_fields_def account_ok_def
        bind_eq_Some_conv split: option.splits)
qed

lemma account_header:
  assumes "br = \<lparr>fr_bits = header_bits (account_fields a), fr_consumed = 0, fr_limit = 11\<rparr>"
  obtains br1 br2 br3 where
    "GetU64Length br = Some (length (minBEBytes (unat (ra_Nonce a))), br1)"
    "GetU256Length br1 = Some (length (minBEBytes (unat (ra_Balance a))), br2)"
    "GetBool br2 = Some (ra_BytecodeHash a \<noteq> None, br3)"
proof -
  have "getFields [4, 6, 1] br = Some (map fst (account_fields a), br\<lparr>fr_consumed := 11\<rparr>)"
    using getFields_eq [OF account_fields_ok [of a], of br] by (simp add: assms account_fields_def)
  then obtain br1 br2 where
    "bitflag_get 4 br = Some (of_nat (length (minBEBytes (unat (ra_Nonce a)))), br1)"
    "bitflag_get 6 br1 = Some (of_nat (length (minBEBytes (unat (ra_Balance a)))), br2)"
    "bitflag_get 1 br2 = Some (if ra_BytecodeHash a \<noteq> None then 1 else 0, br\<lparr>fr_consumed := 11\<rparr>)"
    by (auto simp: account_fields_def bind_eq_Some_conv)
  then show thesis
    using that [of br1 br2 "br\<lparr>fr_consumed := 11\<rparr>"] by (simp add: get_defs field_u64 field_u256)
qed

lemma Account_DecodeCompact_eq:
  assumes "uint256_slices_spec U" "account_ok a"
  shows "Account_DecodeCompact U (account_row a @ rest) (int (length (account_row a))) = Some (a, length (account_row a))"
proof -
  let ?n = "minBEBytes (unat (ra_Nonce a))" and ?b = "minBEBytes (unat (ra_Balance a))"
  obtain br where br: "br = \<lparr>fr_bits = header_bits (account_fields a), fr_consumed = 0, fr_limit = 11 :: nat\<rparr>" by simp
  obtain br1 br2 br3 where gets: "GetU64Length br = Some (length ?n, br1)" "GetU256Length br1 = Some (length ?b, br2)"
    "GetBool br2 = Some (ra_BytecodeHash a \<noteq> None, br3)"
    by (rule account_header [OF br])
  have h: "length (headerBytes (account_fields a)) = 2" by (simp add: headerBytes_def account_fields_def)
  have init: "bitflag_Init (headerBytes (account_fields a)) 11 = Some br"
    by (simp add: init_headerBytes [OF account_fields_ok] br)
  show ?thesis
  proof (cases "ra_BytecodeHash a")
    case None
    then show ?thesis
      using gets h init assms decodeU64Compact_minBE [of "ra_Nonce a"] decodeU256Compact_minBE [OF assms(1), of "ra_Balance a"]
      by (cases a) (simp add: Account_DecodeCompact_def account_row_def Let_def)
  next
    case (Some c)
    then have "hashAt (account_row a @ rest) (2 + length ?n + length ?b) = Some c"
      using assms(2) h by (simp add: account_row_def hashAt_def subslice_def account_ok_def)
    then show ?thesis
      using Some gets h init assms decodeU64Compact_minBE [of "ra_Nonce a"] decodeU256Compact_minBE [OF assms(1), of "ra_Balance a"]
      by (cases a) (simp add: Account_DecodeCompact_def account_row_def Let_def account_ok_def)
  qed
qed

section \<open>The other rows\<close>

definition storage_row :: "rethStorageEntry \<Rightarrow> bytes" where
  "storage_row s = se_Key s @ minBEBytes (unat (se_Value s))"

lemma StorageEntry_EncodeCompact_eq:
  "uint256_slices_spec U \<Longrightarrow> length (se_Key s) = 32 \<Longrightarrow>
   StorageEntry_EncodeCompact U s buf = (buf @ storage_row s, length (storage_row s))"
  by (simp add: StorageEntry_EncodeCompact_def row_simps storage_row_def)

lemma StorageEntry_DecodeCompact_eq:
  assumes "uint256_slices_spec U" "length (se_Key s) = 32"
  shows "StorageEntry_DecodeCompact U (storage_row s @ rest) (int (length (storage_row s))) =
    Some (s, int (length (storage_row s)))"
  using assms decodeU256Compact_minBE [OF assms(1), of "se_Value s"]
  by (simp add: StorageEntry_DecodeCompact_def storage_row_def)

definition change_row :: "rethAccountBeforeTx \<Rightarrow> bytes" where
  "change_row c = ab_Address c @ (case ab_Info c of None \<Rightarrow> [] | Some a \<Rightarrow> account_row a)"

definition change_ok :: "rethAccountBeforeTx \<Rightarrow> bool" where
  "change_ok c \<longleftrightarrow> length (ab_Address c) = 20 \<and> (case ab_Info c of None \<Rightarrow> True | Some a \<Rightarrow> account_ok a)"

lemma AccountBeforeTx_EncodeCompact_eq:
  "uint256_slices_spec U \<Longrightarrow> change_ok c \<Longrightarrow>
   AccountBeforeTx_EncodeCompact U c buf = Some (buf @ change_row c, length (change_row c))"
  by (auto simp: AccountBeforeTx_EncodeCompact_def row_simps change_row_def change_ok_def
      Account_EncodeCompact_eq split: option.splits)

lemma account_row_nonempty: "account_row a \<noteq> []"
  by (simp add: account_row_def headerBytes_def account_fields_def)

lemma AccountBeforeTx_DecodeCompact_eq:
  assumes "uint256_slices_spec U" "change_ok c"
  shows "AccountBeforeTx_DecodeCompact U (change_row c @ rest) (int (length (change_row c))) = Some (c, length (change_row c))"
proof (cases "ab_Info c")
  case None
  with assms(2) show ?thesis by (cases c) (simp add: AccountBeforeTx_DecodeCompact_def change_row_def change_ok_def)
next
  case (Some a)
  with assms have "account_ok a" by (simp add: change_ok_def)
  with Some assms account_row_nonempty [of a] Account_DecodeCompact_eq [OF assms(1), of a rest] show ?thesis
    by (cases c) (simp add: AccountBeforeTx_DecodeCompact_def change_row_def change_ok_def)
qed

lemma readBEU64_raw: "readBEU64 (rawBE64 v @ rest) = Some v"
proof -
  have "foldl (\<lambda>v c. push_bit 8 v OR ucast c) 0 (rawBE64 v) = v"
    by (simp add: foldl_be_u64 rawBE64_eq beNat_beBytes_u64)
  then show ?thesis
    by (simp add: readBEU64_def rawBE64_def push_bit_or push_bit_push_bit or.assoc)
qed

lemma length_rawBE64 [simp]: "length (rawBE64 v) = 8"
  by (simp add: rawBE64_def)

lemma bytesLess_beNat: "length a = length b \<Longrightarrow> bytesLess a b \<longleftrightarrow> beNat a < beNat b"
proof (induction a b rule: list_induct2)
  case (Cons x a y b)
  have le: "beNat a < 256 ^ length b" "beNat b < 256 ^ length b" using beNat_less [of a] beNat_less [of b] Cons by simp_all
  have hi: "unat u * 256 ^ length b + beNat c < unat v * 256 ^ length b + beNat d"
    if "unat u < unat v" "beNat c < 256 ^ length b" for u v :: byte and c d
  proof -
    have "unat u * 256 ^ length b + 256 ^ length b \<le> unat v * 256 ^ length b"
      using mult_le_mono1 [of "Suc (unat u)" "unat v" "256 ^ length b"] that(1) by (simp add: add.commute)
    with that(2) show ?thesis by linarith
  qed
  show ?case
    using hi [of x y a b] hi [of y x b a] le Cons
    by (cases "unat x" "unat y" rule: linorder_cases)
      (auto simp: bytesLess_Cons beNat_Cons word_less_nat_alt word_unat_eq_iff)
qed simp

lemma bytesLess_rawBE64: "bytesLess (rawBE64 v) (rawBE64 w) \<longleftrightarrow> v < w"
  by (simp add: bytesLess_beNat word_less_nat_alt) (simp add: rawBE64_eq beNat_beBytes_u64)

lemma rawBE64_inject: "rawBE64 v = rawBE64 w \<longleftrightarrow> v = w"
  by (metis option.inject readBEU64_raw)

lemma bytesLess_append:
  "length a = length b \<Longrightarrow> bytesLess (a @ x) (b @ y) \<longleftrightarrow> bytesLess a b \<or> a = b \<and> bytesLess x y"
  by (induction a b rule: list_induct2) (auto simp: bytesLess_Cons)

definition indices_fields :: "StoredBlockBodyIndices \<Rightarrow> bit_fields" where
  "indices_fields s =
     [(of_nat (length (minBEBytes (unat (bi_FirstTxNum s)))), 4), (of_nat (length (minBEBytes (unat (bi_TxCount s)))), 4)]"

definition indices_row :: "StoredBlockBodyIndices \<Rightarrow> bytes" where
  "indices_row s =
     headerBytes (indices_fields s) @ minBEBytes (unat (bi_FirstTxNum s)) @ minBEBytes (unat (bi_TxCount s))"

lemma indices_fields_ok: "fields_ok (indices_fields s)"
  using length_minBEBytes_u64 [of "bi_FirstTxNum s"] length_minBEBytes_u64 [of "bi_TxCount s"]
  by (simp add: fields_ok_def indices_fields_def field_u64)

lemma BlockBodyIndices_EncodeCompact_eq:
  "BlockBodyIndices_EncodeCompact s buf = Some (buf @ indices_row s, length (indices_row s))"
  using finalize_fields [OF indices_fields_ok [of s]]
  by (auto simp: BlockBodyIndices_EncodeCompact_def put_defs row_simps indices_row_def indices_fields_def
      bind_eq_Some_conv)

lemma BlockBodyIndices_DecodeCompact_eq:
  "BlockBodyIndices_DecodeCompact (indices_row s @ rest) (int (length (indices_row s))) = Some (s, length (indices_row s))"
proof -
  obtain br where br: "br = \<lparr>fr_bits = header_bits (indices_fields s), fr_consumed = 0, fr_limit = 8 :: nat\<rparr>" by simp
  have "getFields [4, 4] br = Some (map fst (indices_fields s), br\<lparr>fr_consumed := 8\<rparr>)"
    using getFields_eq [OF indices_fields_ok [of s], of br] by (simp add: br indices_fields_def)
  then obtain br1 where gets:
    "bitflag_get 4 br = Some (of_nat (length (minBEBytes (unat (bi_FirstTxNum s)))), br1)"
    "bitflag_get 4 br1 = Some (of_nat (length (minBEBytes (unat (bi_TxCount s)))), br\<lparr>fr_consumed := 8\<rparr>)"
    by (auto simp: indices_fields_def bind_eq_Some_conv)
  have "length (headerBytes (indices_fields s)) = 1" by (simp add: headerBytes_def indices_fields_def)
  then show ?thesis
    using gets init_headerBytes [OF indices_fields_ok [of s], of 8] br
      decodeU64Compact_minBE [of "bi_FirstTxNum s"] decodeU64Compact_minBE [of "bi_TxCount s" rest]
    by (cases s) (simp add: BlockBodyIndices_DecodeCompact_def indices_row_def get_defs field_u64 Let_def)
qed

definition stage_row :: "rethStageCheckpoint \<Rightarrow> bytes" where
  "stage_row s = headerBytes [(of_nat (length (minBEBytes (unat (sc_BlockNumber s)))), 4)] @ minBEBytes (unat (sc_BlockNumber s))"

lemma stage_fields_ok: "fields_ok [(of_nat (length (minBEBytes (unat (v :: u64)))), 4)]"
  using length_minBEBytes_u64 [of v] by (simp add: fields_ok_def field_u64)

lemma StageCheckpoint_EncodeCompact_eq:
  "StageCheckpoint_EncodeCompact s buf = Some (buf @ stage_row s, length (stage_row s))"
  using finalize_fields [OF stage_fields_ok [of "sc_BlockNumber s"]]
  by (auto simp: StageCheckpoint_EncodeCompact_def put_defs row_simps stage_row_def bind_eq_Some_conv)

lemma StageCheckpoint_DecodeCompact_eq:
  "StageCheckpoint_DecodeCompact (stage_row s @ rest) (int (length (stage_row s))) = Some (s, length (stage_row s))"
proof -
  let ?fs = "[(of_nat (length (minBEBytes (unat (sc_BlockNumber s)))) :: u64, 4 :: nat)]"
  obtain br where br: "br = \<lparr>fr_bits = header_bits ?fs, fr_consumed = 0, fr_limit = 4 :: nat\<rparr>" by simp
  have "getFields [4] br = Some (map fst ?fs, br\<lparr>fr_consumed := 4\<rparr>)"
    using getFields_eq [OF stage_fields_ok [of "sc_BlockNumber s"], of br] by (simp add: br)
  then have get: "bitflag_get 4 br = Some (fst (hd ?fs), br\<lparr>fr_consumed := 4\<rparr>)"
    by (auto simp: bind_eq_Some_conv)
  have "length (headerBytes ?fs) = 1" by (simp add: headerBytes_def)
  then show ?thesis
    using get init_headerBytes [OF stage_fields_ok [of "sc_BlockNumber s"], of 4] br
      decodeU64Compact_minBE [of "sc_BlockNumber s" rest]
    by (cases s) (simp add: StageCheckpoint_DecodeCompact_def stage_row_def get_defs field_u64 Let_def)
qed

text \<open>A length-prefixed string followed by anything is read back, as long as its length is an \<open>int\<close>.\<close>

lemma prefixed_string:
  assumes "length v < 2 ^ 63" and b: "b = pre @ encodeVarUint [] (of_nat (length v)) @ v @ rest"
  obtains n where "decodeVarUint (drop (length pre) b) = Some (of_nat (length v), n)"
    "n = length (encodeVarUint [] (of_nat (length v)))"
    "sliceInt b (length pre + n) (int (length pre + n) + sint (of_nat (length v) :: u64)) = Some v"
proof -
  have "sint (of_nat (length v) :: u64) = int (length v)"
    using assms(1) by (simp add: signed_of_nat signed_take_bit_int_eq_self)
  then show thesis
    using that [OF _ refl] decodeVarUint_encode [of "of_nat (length v)" "v @ rest"]
    by (simp add: b sliceInt_def subslice_def nat_int_add)
qed

definition version_row :: "rethClientVersion \<Rightarrow> bytes" where
  "version_row c =
     encodeVarUint [] (of_nat (length (cv_Version c))) @ cv_Version c @
     encodeVarUint [] (of_nat (length (cv_GitSha c))) @ cv_GitSha c @ cv_BuildTimestamp c"

lemma ClientVersion_EncodeCompact_eq:
  "ClientVersion_EncodeCompact c buf = (buf @ version_row c, length (version_row c))"
proof -
  have *: "encodeVarUint (xs @ ys) v = xs @ ys @ encodeVarUint [] v" for xs ys v
    using encodeVarUint_append [of "xs @ ys" v] by simp
  show ?thesis
    using encodeVarUint_append [of buf] by (simp add: ClientVersion_EncodeCompact_def version_row_def Let_def *)
qed

lemma ClientVersion_DecodeCompact_eq:
  assumes "length (cv_Version c) < 2 ^ 63" "length (cv_GitSha c) < 2 ^ 63"
  shows "ClientVersion_DecodeCompact (version_row c @ rest) (int (length (version_row c))) =
    Some (c, int (length (version_row c)))"
proof -
  let ?b = "version_row c @ rest" and ?v = "encodeVarUint [] (of_nat (length (cv_Version c)))"
  obtain n where n: "decodeVarUint ?b = Some (of_nat (length (cv_Version c)), n)" "n = length ?v"
    "sliceInt ?b n (int n + sint (of_nat (length (cv_Version c)) :: u64)) = Some (cv_Version c)"
    using prefixed_string [OF assms(1), of ?b "[]"] by (auto simp: version_row_def)
  let ?p = "length (?v @ cv_Version c)"
  obtain m where m: "decodeVarUint (drop ?p ?b) = Some (of_nat (length (cv_GitSha c)), m)"
    "m = length (encodeVarUint [] (of_nat (length (cv_GitSha c))))"
    "sliceInt ?b (?p + m) (int (?p + m) + sint (of_nat (length (cv_GitSha c)) :: u64)) = Some (cv_GitSha c)"
    using prefixed_string [OF assms(2), of ?b "?v @ cv_Version c" "cv_BuildTimestamp c @ rest"]
    by (auto simp: version_row_def)
  have stamp: "sliceInt ?b (?p + m + length (cv_GitSha c)) (int (length (version_row c))) = Some (cv_BuildTimestamp c)"
    using m(2) by (simp add: sliceInt_def version_row_def subslice_def)
  show ?thesis
    using n m stamp by (simp add: ClientVersion_DecodeCompact_def Let_def add.assoc)
qed

section \<open>Prune checkpoints are encoded injectively\<close>

text \<open>A reader of one optional field, told by its flag whether the field is there.\<close>

definition readOptU64 :: "bool \<Rightarrow> bytes \<Rightarrow> (u64 option \<times> bytes) option" where
  "readOptU64 flag b =
     (if \<not> flag then Some (None, b)
      else do { (len, n) \<leftarrow> decodeVarUint b; v \<leftarrow> decodeU64Compact (drop n b) (uint len); Some (Some v, drop (n + unat len) b) })"

definition opt_row :: "u64 option \<Rightarrow> bytes" where
  "opt_row v = (case v of None \<Rightarrow> [] | Some n \<Rightarrow>
     encodeVarUint [] (of_nat (length (minBEBytes (unat n)))) @ minBEBytes (unat n))"

lemma readOptU64_row: "readOptU64 (v \<noteq> None) (opt_row v @ rest) = Some (v, rest)"
proof (cases v)
  case (Some n)
  let ?l = "length (minBEBytes (unat n))"
  have "uint (of_nat ?l :: u64) = int ?l" using field_u64 [of n] by (metis of_nat_unat)
  then show ?thesis
    using Some decodeVarUint_encode [of "of_nat ?l" "minBEBytes (unat n) @ rest"] decodeU64Compact_minBE [of n rest]
    by (simp add: readOptU64_def opt_row_def field_u64)
qed (simp add: readOptU64_def opt_row_def)

lemma opt_row_inject:
  assumes "(v \<noteq> None) = (v' \<noteq> None)" "opt_row v @ rest = opt_row v' @ rest'"
  shows "v = v'"
proof -
  have "Some (v, rest) = Some (v', rest')"
    using readOptU64_row [of v rest] readOptU64_row [of v' rest'] assms by (simp only:)
  then show ?thesis by simp
qed

lemma encodeOptU64_eq: "encodeOptU64 v buf = (buf @ opt_row v, if v = None then 0 else 1)"
  using encodeVarUint_append [of buf]
  by (cases v) (simp_all add: encodeOptU64_def opt_row_def encodeU64Compact_eq)

definition mode_row :: "rethPruneMode \<Rightarrow> bytes" where
  "mode_row m =
     pm_Kind m # (if pm_Kind m = PruneModeDistance \<or> pm_Kind m = PruneModeBefore then minBEBytes (unat (pm_Value m)) else [])"

lemma PruneMode_EncodeCompact_eq: "PruneMode_EncodeCompact m buf = (buf @ mode_row m, length (mode_row m))"
  by (simp add: PruneMode_EncodeCompact_def mode_row_def encodeU64Compact_eq Let_def)

definition prune_row :: "rethPruneCheckpoint \<Rightarrow> bytes" where
  "prune_row c =
     ((if pc_BlockNumber c = None then 0 else 1) OR push_bit 1 (if pc_TxNumber c = None then 0 else 1)) #
     opt_row (pc_BlockNumber c) @ opt_row (pc_TxNumber c) @ mode_row (pc_PruneMode c)"

lemma PruneCheckpoint_EncodeCompact_eq:
  "PruneCheckpoint_EncodeCompact c buf = (buf @ prune_row c, length (prune_row c))"
  by (simp add: PruneCheckpoint_EncodeCompact_def encodeOptU64_eq PruneMode_EncodeCompact_eq prune_row_def
      bufWriteCopy_def Let_def)

definition mode_ok :: "rethPruneMode \<Rightarrow> bool" where
  "mode_ok m \<longleftrightarrow> pm_Kind m = PruneModeDistance \<or> pm_Kind m = PruneModeBefore \<or> pm_Kind m = PruneModeFull \<and> pm_Value m = 0"

lemma mode_row_inject: "mode_ok m \<Longrightarrow> mode_ok m' \<Longrightarrow> mode_row m = mode_row m' \<Longrightarrow> m = m'"
proof (rule rethPruneMode.equality)
  assume ok: "mode_ok m" "mode_ok m'" and eq: "mode_row m = mode_row m'"
  from eq show k: "pm_Kind m = pm_Kind m'" by (simp add: mode_row_def)
  have "minBEBytes (unat x) = minBEBytes (unat y) \<Longrightarrow> x = y" for x y :: u64
    by (metis beNat_minBEBytes word_unat_eq_iff)
  with ok eq k show "pm_Value m = pm_Value m'"
    by (auto simp: mode_ok_def mode_row_def PruneModeDistance_def PruneModeBefore_def PruneModeFull_def)
qed simp

lemma prune_row_inject:
  assumes "mode_ok (pc_PruneMode c)" "mode_ok (pc_PruneMode c')" and eq: "prune_row c = prune_row c'"
  shows "c = c'"
proof (rule rethPruneCheckpoint.equality)
  have flags: "(pc_BlockNumber c \<noteq> None) = (pc_BlockNumber c' \<noteq> None)" "(pc_TxNumber c \<noteq> None) = (pc_TxNumber c' \<noteq> None)"
    using eq by (auto simp: prune_row_def split: if_splits)
  have rest: "opt_row (pc_BlockNumber c) @ opt_row (pc_TxNumber c) @ mode_row (pc_PruneMode c) =
      opt_row (pc_BlockNumber c') @ opt_row (pc_TxNumber c') @ mode_row (pc_PruneMode c')"
    using eq by (simp add: prune_row_def)
  with flags(1) show b: "pc_BlockNumber c = pc_BlockNumber c'"
    by (rule opt_row_inject)
  with rest have rest: "opt_row (pc_TxNumber c) @ mode_row (pc_PruneMode c) = opt_row (pc_TxNumber c') @ mode_row (pc_PruneMode c')"
    by simp
  with flags(2) show t: "pc_TxNumber c = pc_TxNumber c'"
    by (rule opt_row_inject)
  from rest t assms show "pc_PruneMode c = pc_PruneMode c'" by (simp add: mode_row_inject)
qed simp

section \<open>Properties\<close>

definition uint256_slices_model :: uint256_slices where
  "uint256_slices_model = \<lparr>us_WriteToSlice = \<lambda>v dest. beBytes 32 (unat v), us_SetBytes = \<lambda>b. of_nat (beNat b)\<rparr>"

lemma uint256_slices_model_ok: "uint256_slices_spec uint256_slices_model"
  by (simp add: uint256_slices_spec_def uint256_slices_model_def)

text \<open>
  C33: Reth's account rows, change-set rows and storage rows.  Each encoder appends one row to the buffer and
  returns its length, without a panic, and the decoder, given that length, reads the same value back whatever
  bytes follow the row.
\<close>

theorem reth_state_rows_roundtrip:
  assumes "uint256_slices_spec U" "account_ok a" "change_ok c" "length (se_Key s) = 32"
  shows "(\<exists>row. Account_EncodeCompact U a buf = Some (buf @ row, length row) \<and>
      Account_DecodeCompact U (row @ rest) (int (length row)) = Some (a, length row)) \<and>
    (\<exists>row. AccountBeforeTx_EncodeCompact U c buf = Some (buf @ row, length row) \<and>
      AccountBeforeTx_DecodeCompact U (row @ rest) (int (length row)) = Some (c, length row)) \<and>
    (\<exists>row. StorageEntry_EncodeCompact U s buf = (buf @ row, length row) \<and>
      StorageEntry_DecodeCompact U (row @ rest) (int (length row)) = Some (s, int (length row)))"
  using assms
  by (intro conjI exI [of _ "account_row a"] exI [of _ "change_row c"] exI [of _ "storage_row s"])
    (simp_all add: Account_EncodeCompact_eq Account_DecodeCompact_eq AccountBeforeTx_EncodeCompact_eq
      AccountBeforeTx_DecodeCompact_eq StorageEntry_EncodeCompact_eq StorageEntry_DecodeCompact_eq)

definition sample_account :: rethAccount where
  "sample_account = \<lparr>ra_Nonce = 1, ra_Balance = 0xde0b6b3a7640000, ra_BytecodeHash = Some (replicate 32 0xab)\<rparr>"

theorem reth_state_rows_roundtrip_witness:
  "\<exists>row. AccountBeforeTx_EncodeCompact uint256_slices_model
        \<lparr>ab_Address = replicate 20 7, ab_Info = Some sample_account\<rparr> [9] = Some ([9] @ row, length row) \<and>
      AccountBeforeTx_DecodeCompact uint256_slices_model (row @ [1, 2]) (int (length row)) =
        Some (\<lparr>ab_Address = replicate 20 7, ab_Info = Some sample_account\<rparr>, length row)"
  using reth_state_rows_roundtrip [OF uint256_slices_model_ok, of sample_account
      "\<lparr>ab_Address = replicate 20 7, ab_Info = Some sample_account\<rparr>" "\<lparr>se_Key = replicate 32 1, se_Value = 5\<rparr>" "[9]" "[1, 2]"]
  by (simp add: account_ok_def change_ok_def sample_account_def)

text \<open>
  Reth's metadata rows: the block body indices, the stage checkpoints and the client version, whose first
  two strings carry a LEB128 length, are read back by their decoders whatever bytes follow.
\<close>

theorem reth_metadata_rows_roundtrip:
  assumes "length (cv_Version v) < 2 ^ 63" "length (cv_GitSha v) < 2 ^ 63"
  shows "(\<exists>row. BlockBodyIndices_EncodeCompact i buf = Some (buf @ row, length row) \<and>
      BlockBodyIndices_DecodeCompact (row @ rest) (int (length row)) = Some (i, length row)) \<and>
    (\<exists>row. StageCheckpoint_EncodeCompact s buf = Some (buf @ row, length row) \<and>
      StageCheckpoint_DecodeCompact (row @ rest) (int (length row)) = Some (s, length row)) \<and>
    (\<exists>row. ClientVersion_EncodeCompact v buf = (buf @ row, length row) \<and>
      ClientVersion_DecodeCompact (row @ rest) (int (length row)) = Some (v, int (length row)))"
  using assms
  by (intro conjI exI [of _ "indices_row i"] exI [of _ "stage_row s"] exI [of _ "version_row v"])
    (simp_all add: BlockBodyIndices_EncodeCompact_eq BlockBodyIndices_DecodeCompact_eq StageCheckpoint_EncodeCompact_eq
      StageCheckpoint_DecodeCompact_eq ClientVersion_EncodeCompact_eq ClientVersion_DecodeCompact_eq)

theorem reth_metadata_rows_roundtrip_witness:
  "\<exists>row. ClientVersion_EncodeCompact \<lparr>cv_Version = replicate 200 49, cv_GitSha = [97, 98], cv_BuildTimestamp = [48]\<rparr> [] =
        ([] @ row, length row) \<and>
      ClientVersion_DecodeCompact (row @ []) (int (length row)) =
        Some (\<lparr>cv_Version = replicate 200 49, cv_GitSha = [97, 98], cv_BuildTimestamp = [48]\<rparr>, int (length row))"
  using reth_metadata_rows_roundtrip [of "\<lparr>cv_Version = replicate 200 49, cv_GitSha = [97, 98], cv_BuildTimestamp = [48]\<rparr>"
      "\<lparr>bi_FirstTxNum = 0, bi_TxCount = 300\<rparr>" "[]" "[]" "\<lparr>sc_BlockNumber = 0\<rparr>"]
  by simp

text \<open>
  C34: The keys of reth's history and change-set tables, compared byte by byte as MDBX compares them, sort by
  their components: account history by address and then by block number, storage history by address, slot and
  block number, and change sets by block number first.  Each key is read back by its decoder.
\<close>

theorem reth_history_keys_sort:
  assumes "length (sk_Address a) = 20" "length (sk_Address a') = 20"
    "length (ss_Address s) = 20" "length (ss_Address s') = 20" "length (ss_StorageKey s) = 32" "length (ss_StorageKey s') = 32"
    "length (bn_Address b) = 20" "length (bn_Address b') = 20"
  shows "(bytesLess (ShardedKeyAddress_EncodeKey a []) (ShardedKeyAddress_EncodeKey a' []) \<longleftrightarrow>
      bytesLess (sk_Address a) (sk_Address a') \<or> sk_Address a = sk_Address a' \<and> sk_BlockNumber a < sk_BlockNumber a') \<and>
    (bytesLess (StorageShardedKey_EncodeKey s []) (StorageShardedKey_EncodeKey s' []) \<longleftrightarrow>
      bytesLess (ss_Address s) (ss_Address s') \<or> ss_Address s = ss_Address s' \<and>
        (bytesLess (ss_StorageKey s) (ss_StorageKey s') \<or>
         ss_StorageKey s = ss_StorageKey s' \<and> ss_BlockNumber s < ss_BlockNumber s')) \<and>
    (bytesLess (BlockNumberAddress_EncodeKey b []) (BlockNumberAddress_EncodeKey b' []) \<longleftrightarrow>
      bn_BlockNumber b < bn_BlockNumber b' \<or> bn_BlockNumber b = bn_BlockNumber b' \<and> bytesLess (bn_Address b) (bn_Address b')) \<and>
    ShardedKeyAddress_DecodeKey (ShardedKeyAddress_EncodeKey a []) = Some a \<and>
    StorageShardedKey_DecodeKey (StorageShardedKey_EncodeKey s []) = Some s \<and>
    BlockNumberAddress_DecodeKey (BlockNumberAddress_EncodeKey b []) = Some b"
  using assms readBEU64_raw [of _ "[]"]
  by (simp add: ShardedKeyAddress_EncodeKey_def StorageShardedKey_EncodeKey_def BlockNumberAddress_EncodeKey_def writeBEU64_def
      bytesLess_append bytesLess_rawBE64 rawBE64_inject ShardedKeyAddress_DecodeKey_def StorageShardedKey_DecodeKey_def
      BlockNumberAddress_DecodeKey_def subslice_def)

theorem reth_history_keys_sort_witness:
  "bytesLess (BlockNumberAddress_EncodeKey \<lparr>bn_BlockNumber = 255, bn_Address = replicate 20 9\<rparr> [])
     (BlockNumberAddress_EncodeKey \<lparr>bn_BlockNumber = 256, bn_Address = replicate 20 1\<rparr> [])"
  using reth_history_keys_sort [of "\<lparr>sk_Address = replicate 20 1, sk_BlockNumber = 0\<rparr>" "\<lparr>sk_Address = replicate 20 1, sk_BlockNumber = 1\<rparr>"
      "\<lparr>ss_Address = replicate 20 1, ss_StorageKey = replicate 32 2, ss_BlockNumber = 0\<rparr>"
      "\<lparr>ss_Address = replicate 20 1, ss_StorageKey = replicate 32 2, ss_BlockNumber = 0\<rparr>"
      "\<lparr>bn_BlockNumber = 255, bn_Address = replicate 20 9\<rparr>" "\<lparr>bn_BlockNumber = 256, bn_Address = replicate 20 1\<rparr>"]
  by simp

text \<open>
  Prune checkpoints have an encoder only.  Two checkpoints whose prune modes are ones reth knows, with no
  value in the mode that takes none, have different rows unless they are equal, and the number of bytes
  returned is the length of the row; an absent block number is told from block number zero.
\<close>

theorem prune_checkpoints_injective:
  assumes "mode_ok (pc_PruneMode c)" "mode_ok (pc_PruneMode c')"
  shows "(fst (PruneCheckpoint_EncodeCompact c []) = fst (PruneCheckpoint_EncodeCompact c' []) \<longleftrightarrow> c = c') \<and>
    snd (PruneCheckpoint_EncodeCompact c buf) = length (fst (PruneCheckpoint_EncodeCompact c buf)) - length buf"
  using prune_row_inject [OF assms] by (auto simp: PruneCheckpoint_EncodeCompact_eq)

theorem prune_checkpoints_injective_witness:
  "fst (PruneCheckpoint_EncodeCompact \<lparr>pc_BlockNumber = Some 0, pc_TxNumber = None, pc_PruneMode = \<lparr>pm_Kind = 2, pm_Value = 0\<rparr>\<rparr> []) \<noteq>
   fst (PruneCheckpoint_EncodeCompact \<lparr>pc_BlockNumber = None, pc_TxNumber = Some 0, pc_PruneMode = \<lparr>pm_Kind = 2, pm_Value = 0\<rparr>\<rparr> [])"
  using prune_checkpoints_injective [of "\<lparr>pc_BlockNumber = Some 0, pc_TxNumber = None, pc_PruneMode = \<lparr>pm_Kind = 2, pm_Value = 0\<rparr>\<rparr>"
      "\<lparr>pc_BlockNumber = None, pc_TxNumber = Some 0, pc_PruneMode = \<lparr>pm_Kind = 2, pm_Value = 0\<rparr>\<rparr>" "[]"]
  by (simp add: mode_ok_def PruneModeBefore_def)

end
