(* ===== verification/Nimbus_Verify.thy ===== *)
theory Nimbus_Verify
  imports Nimbus_Rows Ethrex_Account Trie_Canon Hash_Engine
begin

text \<open>
  The read-back check of the vertex table, \<open>internal/nimbus/verify.go\<close>: \<open>CollectRow\<close>, \<open>VerifyState\<close>,
  \<open>hashNode\<close>, \<open>lookup\<close> and \<open>probe\<close>.

  The Go maps of rows and vertices are association lists without repeated keys, in the order in which
  \<open>range\<close> happens to visit them, and the sets of visited vertices and storage identifiers are lists; that
  order decides only which of several errors is reported.  \<open>hashNode\<close> follows references between rows, so
  its recursion is bounded by fuel; with as much fuel as there are rows it never runs out, because every
  vertex is entered once.

  The verifier is shown to be sound: whatever it accepts is a canonical Merkle-Patricia trie of accounts,
  with a trie of slots for every account that has one, whose root hash is the expected one, and every row
  belongs to exactly one place of one of these tries.
\<close>

section \<open>Errors and state\<close>

datatype verify_error =
    VCodec codec_error
  | VDuplicateRow RootedVertexID
  | VNoRoot
  | VRootMismatch bytes
  | VUnreachable nat
  | VTopTooLow u64
  | VTopStatic u64
  | VMissing RootedVertexID
  | VReferencedTwice RootedVertexID
  | VPlacement RootedVertexID
  | VChildPlacement RootedVertexID
  | VFewChildren RootedVertexID
  | VNoKey RootedVertexID
  | VWrongKey RootedVertexID
  | VInlineKey RootedVertexID
  | VLeafKind RootedVertexID
  | VLeafLength RootedVertexID nat
  | VStorageId RootedVertexID
  | VStorageShared VertexID
  | VStorageHint RootedVertexID
  | VZeroValue RootedVertexID
  | VWalk bytes
  | VProbe bytes nat
  | VPanic
  | VOutOfFuel

record VerifyReport =
  rp_Accounts :: nat
  rp_StorageTries :: nat
  rp_StorageLeaves :: nat
  rp_Branches :: nat
  rp_ExtBranches :: nat
  rp_DynamicVertices :: nat
  rp_MaxDynamicVid :: VertexID

record leafRef =
  lf_root :: VertexID
  lf_key :: bytes
  lf_pos :: nat

type_synonym VertexRows = "(RootedVertexID \<times> bytes) list"
type_synonym vtx_table = "(RootedVertexID \<times> Vertex) list"

record vf =
  vf_visited :: "RootedVertexID list"
  vf_stoIDs :: "VertexID list"
  vf_leaves :: "leafRef list"
  vf_report :: VerifyReport

definition zeroReport :: VerifyReport where
  "zeroReport = \<lparr>rp_Accounts = 0, rp_StorageTries = 0, rp_StorageLeaves = 0, rp_Branches = 0, rp_ExtBranches = 0,
     rp_DynamicVertices = 0, rp_MaxDynamicVid = 0\<rparr>"

definition newVerifier :: vf where
  "newVerifier = \<lparr>vf_visited = [], vf_stoIDs = [], vf_leaves = [], vf_report = zeroReport\<rparr>"

definition CollectRow ::
  "VertexRows \<Rightarrow> SavedState \<Rightarrow> bytes \<Rightarrow> bytes \<Rightarrow> verify_error + VertexRows \<times> SavedState" where
  "CollectRow rs admin key val =
     (if length key = 0 then
        (case DecodeSavedState val of Inl e \<Rightarrow> Inl (VCodec e) | Inr s \<Rightarrow> Inr (rs, s))
      else case ParseKey key of
        Inl e \<Rightarrow> Inl (VCodec e)
      | Inr rvid \<Rightarrow>
          if map_of rs rvid \<noteq> None then Inl (VDuplicateRow rvid) else Inr (rs @ [(rvid, val)], admin))"

text \<open>The loop that decodes all rows.\<close>

fun decodeRows :: "uint256_lib \<Rightarrow> bytes \<Rightarrow> VertexRows \<Rightarrow> verify_error + vtx_table" where
  "decodeRows U EmptyCodeHash [] = Inr []"
| "decodeRows U EmptyCodeHash ((rvid, rec) # rs) =
     (case DecodeVertex U EmptyCodeHash rec of
        Inl e \<Rightarrow> Inl (VCodec e)
      | Inr vx \<Rightarrow> bindE (decodeRows U EmptyCodeHash rs) (\<lambda>vtx. Inr ((rvid, vx) # vtx)))"

section \<open>Hashing\<close>

text \<open>The first switch of \<open>hashNode\<close>: where a vertex may stand.\<close>

definition placementOk :: "VertexID \<Rightarrow> VertexID \<Rightarrow> nat \<Rightarrow> bytes \<Rightarrow> verify_error + unit" where
  "placementOk root vid pos path =
     (if pos = 0 then if vid \<noteq> root then Inl (VPlacement \<lparr>Root = root, Vid = vid\<rparr>) else Inr ()
      else if pos \<le> StaticVIDLevels then
        (case StaticVid path pos of
           None \<Rightarrow> Inl VPanic
         | Some want \<Rightarrow> if vid \<noteq> want then Inl (VPlacement \<lparr>Root = root, Vid = vid\<rparr>) else Inr ())
      else if vid < FirstDynamicVID then Inl (VPlacement \<lparr>Root = root, Vid = vid\<rparr>) else Inr ())"

definition countDynamic :: "VertexID \<Rightarrow> vf \<Rightarrow> vf" where
  "countDynamic vid v =
     (if vid \<ge> FirstDynamicVID then
        let r = vf_report v;
            r = r\<lparr>rp_DynamicVertices := rp_DynamicVertices r + 1\<rparr>
        in v\<lparr>vf_report := (if vid > rp_MaxDynamicVid r then r\<lparr>rp_MaxDynamicVid := vid\<rparr> else r)\<rparr>
      else v)"

text \<open>Where the children of a branch must start.\<close>

definition startVidOk :: "RootedVertexID \<Rightarrow> Vertex \<Rightarrow> bytes \<Rightarrow> nat \<Rightarrow> verify_error + unit" where
  "startVidOk rvid vx fullPath childPos =
     (if childPos \<le> StaticVIDLevels then
        (case StaticStartVid fullPath childPos of
           None \<Rightarrow> Inl VPanic
         | Some want \<Rightarrow> if StartVid vx \<noteq> want then Inl (VChildPlacement rvid) else Inr ())
      else if StartVid vx < FirstDynamicVID then Inl (VChildPlacement rvid) else Inr ())"

definition storedKeyOk :: "digest \<Rightarrow> RootedVertexID \<Rightarrow> Vertex \<Rightarrow> bytes \<Rightarrow> verify_error + unit" where
  "storedKeyOk keccak rvid vx ref =
     (if length ref \<ge> 32 then
        if Key vx = [] then Inl (VNoKey rvid)
        else if Key vx \<noteq> keccak ref then Inl (VWrongKey rvid) else Inr ()
      else if Key vx \<noteq> [] then Inl (VInlineKey rvid) else Inr ())"

definition addLeafRef :: "VertexID \<Rightarrow> bytes \<Rightarrow> nat \<Rightarrow> vf \<Rightarrow> vf" where
  "addLeafRef root key pos v = v\<lparr>vf_leaves := vf_leaves v @ [\<lparr>lf_root = root, lf_key = key, lf_pos = pos\<rparr>]\<rparr>"

definition upd_report :: "(VerifyReport \<Rightarrow> VerifyReport) \<Rightarrow> vf \<Rightarrow> vf" where
  "upd_report f v = v\<lparr>vf_report := f (vf_report v)\<rparr>"

type_synonym hash_node = "VertexID \<Rightarrow> VertexID \<Rightarrow> nat \<Rightarrow> bytes \<Rightarrow> vf \<Rightarrow> verify_error + bytes \<times> vf"

text \<open>The loop over the sixteen children, given the recursive call.\<close>

definition hashChildren ::
  "hash_node \<Rightarrow> VertexID \<Rightarrow> Vertex \<Rightarrow> nat \<Rightarrow> bytes \<Rightarrow> vf \<Rightarrow> verify_error + vf \<times> bytes list" where
  "hashChildren rec root vx childPos fullPath v =
     foldE (\<lambda>n (v, children).
        if Used vx AND push_bit n 1 = 0 then Inr (v, children)
        else bindE (rec root (StartVid vx + of_nat n) childPos (fullPath @ [of_nat n]) v)
               (\<lambda>(ref, v). Inr (v, children[n := ref])))
       [0..<16] (v, replicate 16 [])"

definition hashBranch :: "digest \<Rightarrow> hash_node \<Rightarrow> VertexID \<Rightarrow> VertexID \<Rightarrow> Vertex \<Rightarrow> bytes \<Rightarrow> vf \<Rightarrow> verify_error + bytes \<times> vf" where
  "hashBranch keccak rec root vid vx path v =
     (let rvid = \<lparr>Root = root, Vid = vid\<rparr>; fullPath = path @ Pfx vx; childPos = length fullPath + 1 in
      bindE (startVidOk rvid vx fullPath childPos) (\<lambda>_.
        if popcount16 (Used vx) < 2 then Inl (VFewChildren rvid)
        else bindE (hashChildren rec root vx childPos fullPath v) (\<lambda>(v, children).
          let branchRLP = EncodeBranch keccak children [];
              (ref, v) =
                (if Type vx = ExtBranchV
                 then (EncodeExtension keccak (Pfx vx) branchRLP, upd_report (\<lambda>r. r\<lparr>rp_ExtBranches := rp_ExtBranches r + 1\<rparr>) v)
                 else (branchRLP, upd_report (\<lambda>r. r\<lparr>rp_Branches := rp_Branches r + 1\<rparr>) v))
          in bindE (storedKeyOk keccak rvid vx ref) (\<lambda>_. Inr (ref, v)))))"

text \<open>The storage part of an account leaf: the storage root and the updated state.\<close>

definition hashStorage ::
  "digest \<Rightarrow> bytes \<Rightarrow> vtx_table \<Rightarrow> hash_node \<Rightarrow> RootedVertexID \<Rightarrow> Vertex \<Rightarrow> vf \<Rightarrow> verify_error + bytes \<times> vf" where
  "hashStorage keccak EmptyRootHash vtx rec rvid vx v =
     (if StoID vx \<noteq> 0 then
        if StoID vx < FirstDynamicVID then Inl (VStorageId rvid)
        else if StoID vx \<in> set (vf_stoIDs v) then Inl (VStorageShared (StoID vx))
        else
          let v = v\<lparr>vf_stoIDs := vf_stoIDs v @ [StoID vx]\<rparr> in
          if StoHint vx < 1 \<or> StoHint vx > MaxStoHint then Inl (VStorageHint rvid)
          else if map_of vtx \<lparr>Root = StoID vx, Vid = StoID vx\<rparr> = None then Inl (VMissing \<lparr>Root = StoID vx, Vid = StoID vx\<rparr>)
          else bindE (rec (StoID vx) (StoID vx) 0 [] v) (\<lambda>(stRef, v).
            Inr (keccak stRef, upd_report (\<lambda>r. r\<lparr>rp_StorageTries := rp_StorageTries r + 1\<rparr>) v))
      else if StoHint vx \<noteq> 0 then Inl (VStorageHint rvid)
      else Inr (EmptyRootHash, v))"

definition hashAccLeaf ::
  "digest \<Rightarrow> uint256_lib \<Rightarrow> bytes \<Rightarrow> vtx_table \<Rightarrow> hash_node \<Rightarrow> VertexID \<Rightarrow> VertexID \<Rightarrow> Vertex \<Rightarrow> nat \<Rightarrow> bytes \<Rightarrow> vf \<Rightarrow>
     verify_error + bytes \<times> vf" where
  "hashAccLeaf keccak U EmptyRootHash vtx rec root vid vx pos path v =
     (let rvid = \<lparr>Root = root, Vid = vid\<rparr>; key = path @ Pfx vx in
      if root \<noteq> StateRootVID then Inl (VLeafKind rvid)
      else if length key \<noteq> 64 then Inl (VLeafLength rvid (length key))
      else bindE (hashStorage keccak EmptyRootHash vtx rec rvid vx v) (\<lambda>(storageRoot, v).
        let v = upd_report (\<lambda>r. r\<lparr>rp_Accounts := rp_Accounts r + 1\<rparr>) (addLeafRef root key pos v);
            valueRLP = EncodeAccountState (u_Bytes U) (Nonce vx) (Balance vx) storageRoot (CodeHash vx)
        in Inr (EncodeLeaf (Pfx vx) valueRLP, v)))"

definition hashStoLeaf ::
  "VertexID \<Rightarrow> VertexID \<Rightarrow> Vertex \<Rightarrow> nat \<Rightarrow> bytes \<Rightarrow> vf \<Rightarrow> verify_error + bytes \<times> vf" where
  "hashStoLeaf root vid vx pos path v =
     (let rvid = \<lparr>Root = root, Vid = vid\<rparr>; key = path @ Pfx vx in
      if root = StateRootVID then Inl (VLeafKind rvid)
      else if length key \<noteq> 64 then Inl (VLeafLength rvid (length key))
      else if StoValue vx = replicate 32 0 then Inl (VZeroValue rvid)
      else Inr (EncodeLeaf (Pfx vx) (EncodeStorageValueBytes32 (StoValue vx)),
                upd_report (\<lambda>r. r\<lparr>rp_StorageLeaves := rp_StorageLeaves r + 1\<rparr>) (addLeafRef root key pos v)))"

fun hashNode :: "digest \<Rightarrow> uint256_lib \<Rightarrow> bytes \<Rightarrow> vtx_table \<Rightarrow> nat \<Rightarrow> hash_node" where
  "hashNode keccak U EmptyRootHash vtx 0 root vid pos path v = Inl VOutOfFuel"
| "hashNode keccak U EmptyRootHash vtx (Suc fuel) root vid pos path v =
     (let rvid = \<lparr>Root = root, Vid = vid\<rparr>; rec = hashNode keccak U EmptyRootHash vtx fuel in
      case map_of vtx rvid of
        None \<Rightarrow> Inl (VMissing rvid)
      | Some vx \<Rightarrow>
          if rvid \<in> set (vf_visited v) then Inl (VReferencedTwice rvid)
          else
            let v = v\<lparr>vf_visited := vf_visited v @ [rvid]\<rparr> in
            bindE (placementOk root vid pos path) (\<lambda>_.
              let v = countDynamic vid v in
              case Type vx of
                BranchV \<Rightarrow> hashBranch keccak rec root vid vx path v
              | ExtBranchV \<Rightarrow> hashBranch keccak rec root vid vx path v
              | AccLeafV \<Rightarrow> hashAccLeaf keccak U EmptyRootHash vtx rec root vid vx pos path v
              | StoLeafV \<Rightarrow> hashStoLeaf root vid vx pos path v))"

section \<open>Looking leaves up\<close>

text \<open>The static probe from level \<open>sl\<close> down to 0.\<close>

fun probeFrom :: "vtx_table \<Rightarrow> VertexID \<Rightarrow> bytes \<Rightarrow> (nat \<times> VertexID) list \<Rightarrow> nat \<Rightarrow> verify_error + unit" where
  "probeFrom vtx root key walkVid sl =
     (case (if sl > 0 then StaticVid key sl else Some root) of
        None \<Rightarrow> Inl VPanic
      | Some svid \<Rightarrow>
          let hit = map_of vtx \<lparr>Root = root, Vid = svid\<rparr> \<noteq> None; wv = map_of walkVid sl in
          if hit \<and> wv \<noteq> Some svid then Inl (VProbe key sl)
          else if \<not> hit \<and> wv \<noteq> None then Inl (VProbe key sl)
          else if sl = 0 then Inr () else probeFrom vtx root key walkVid (sl - 1))"

declare probeFrom.simps [simp del]

definition probe :: "vtx_table \<Rightarrow> VertexID \<Rightarrow> bytes \<Rightarrow> nat \<Rightarrow> (nat \<times> VertexID) list \<Rightarrow> verify_error + unit" where
  "probe vtx root key leafPos walkVid =
     probeFrom vtx root key walkVid (if leafPos > StaticVIDLevels then StaticVIDLevels else leafPos)"

text \<open>The walk from the root.  \<open>walkVid\<close> lists the positions passed, the last first.\<close>

function walk ::
  "vtx_table \<Rightarrow> leafRef \<Rightarrow> nat \<Rightarrow> VertexID \<Rightarrow> (nat \<times> VertexID) list \<Rightarrow> verify_error + unit" where
  "walk vtx lf pos vid walkVid =
     (let root = lf_root lf; key = lf_key lf in
      case map_of vtx \<lparr>Root = root, Vid = vid\<rparr> of
        None \<Rightarrow> Inl (VWalk key)
      | Some vx \<Rightarrow>
          let walkVid = (pos, vid) # walkVid in
          if Type vx = BranchV \<or> Type vx = ExtBranchV then
            if Type vx = ExtBranchV \<and> (pos + length (Pfx vx) > length key \<or> subslice pos (pos + length (Pfx vx)) key \<noteq> Pfx vx)
            then Inl (VWalk key)
            else
              let pos' = (if Type vx = ExtBranchV then pos + length (Pfx vx) else pos) in
              if pos' \<ge> length key then Inl (VWalk key)
              else
                let nib = key ! pos' in
                if Used vx AND push_bit (unat nib) 1 = 0 then Inl (VWalk key)
                else walk vtx lf (pos' + 1) (StartVid vx + ucast nib) walkVid
          else if pos > length key then Inl VPanic
          else if Pfx vx \<noteq> drop pos key then Inl (VWalk key)
          else if pos \<noteq> lf_pos lf then Inl (VWalk key)
          else probe vtx root key (lf_pos lf) walkVid)"
  by pat_completeness auto
termination
  by (relation "measure (\<lambda>(vtx, lf, pos, vid, walkVid). length (lf_key lf) - pos)") (auto split: if_splits)

declare walk.simps [simp del]

definition vlookup :: "vtx_table \<Rightarrow> leafRef \<Rightarrow> verify_error + unit" where
  "vlookup vtx lf = walk vtx lf 0 (lf_root lf) []"

section \<open>The whole check\<close>

definition VerifyState ::
  "digest \<Rightarrow> uint256_lib \<Rightarrow> bytes \<Rightarrow> bytes \<Rightarrow> VertexRows \<Rightarrow> SavedState \<Rightarrow> bytes \<Rightarrow> verify_error + VerifyReport" where
  "VerifyState keccak U EmptyRootHash EmptyCodeHash rs admin wantRoot =
     bindE (decodeRows U EmptyCodeHash rs) (\<lambda>vtx.
       if map_of vtx \<lparr>Root = StateRootVID, Vid = StateRootVID\<rparr> = None then Inl VNoRoot
       else bindE (hashNode keccak U EmptyRootHash vtx (length vtx + 1) StateRootVID StateRootVID 0 [] newVerifier)
         (\<lambda>(ref, v).
           if keccak ref \<noteq> wantRoot then Inl (VRootMismatch (keccak ref))
           else if length (vf_visited v) \<noteq> length vtx then Inl (VUnreachable (length vtx - length (vf_visited v)))
           else if rp_DynamicVertices (vf_report v) > 0 \<and> VTop admin < rp_MaxDynamicVid (vf_report v)
             then Inl (VTopTooLow (VTop admin))
           else if rp_DynamicVertices (vf_report v) = 0 \<and> VTop admin \<noteq> 0 \<and> VTop admin < FirstDynamicVID - 1
             then Inl (VTopStatic (VTop admin))
           else bindE (foldE (\<lambda>lf _. vlookup vtx lf) (vf_leaves v) ()) (\<lambda>_. Inr (vf_report v))))"

section \<open>The tries a table of vertices holds\<close>

text \<open>
  \<open>row_trie keccak U E vtx root vid path t rs\<close>: the vertex \<open>vid\<close> of the trie \<open>root\<close>, reached by \<open>path\<close>, is
  the root of the subtrie \<open>t\<close>, which is made of the rows \<open>rs\<close>.  The value of an account leaf holds the hash of
  the account's storage trie, whose rows are among \<open>rs\<close>.
\<close>

inductive row_trie ::
  "digest \<Rightarrow> uint256_lib \<Rightarrow> bytes \<Rightarrow> vtx_table \<Rightarrow> VertexID \<Rightarrow> VertexID \<Rightarrow> bytes \<Rightarrow> bytes mpt \<Rightarrow> RootedVertexID list \<Rightarrow> bool"
  for keccak U E vtx where
  row_slot: "map_of vtx \<lparr>Root = root, Vid = vid\<rparr> = Some vx \<Longrightarrow> Type vx = StoLeafV \<Longrightarrow> root \<noteq> StateRootVID \<Longrightarrow>
    length (path @ Pfx vx) = 64 \<Longrightarrow> StoValue vx \<noteq> replicate 32 0 \<Longrightarrow>
    row_trie keccak U E vtx root vid path (Leaf (Pfx vx) (EncodeStorageValueBytes32 (StoValue vx))) [\<lparr>Root = root, Vid = vid\<rparr>]"
| row_account: "map_of vtx \<lparr>Root = root, Vid = vid\<rparr> = Some vx \<Longrightarrow> Type vx = AccLeafV \<Longrightarrow> root = StateRootVID \<Longrightarrow>
    length (path @ Pfx vx) = 64 \<Longrightarrow> StoID vx = 0 \<Longrightarrow>
    row_trie keccak U E vtx root vid path
      (Leaf (Pfx vx) (EncodeAccountState (u_Bytes U) (Nonce vx) (Balance vx) E (CodeHash vx))) [\<lparr>Root = root, Vid = vid\<rparr>]"
| row_contract: "map_of vtx \<lparr>Root = root, Vid = vid\<rparr> = Some vx \<Longrightarrow> Type vx = AccLeafV \<Longrightarrow> root = StateRootVID \<Longrightarrow>
    length (path @ Pfx vx) = 64 \<Longrightarrow> FirstDynamicVID \<le> StoID vx \<Longrightarrow> StoHint vx \<noteq> 0 \<Longrightarrow> StoHint vx \<le> MaxStoHint \<Longrightarrow>
    row_trie keccak U E vtx (StoID vx) (StoID vx) [] ts rs \<Longrightarrow>
    row_trie keccak U E vtx root vid path
      (Leaf (Pfx vx) (EncodeAccountState (u_Bytes U) (Nonce vx) (Balance vx) (keccak (enc keccak ts)) (CodeHash vx)))
      (\<lparr>Root = root, Vid = vid\<rparr> # rs)"
| row_branch: "map_of vtx \<lparr>Root = root, Vid = vid\<rparr> = Some vx \<Longrightarrow> Type vx = BranchV \<or> Type vx = ExtBranchV \<Longrightarrow>
    2 \<le> popcount16 (Used vx) \<Longrightarrow> length cs = 16 \<Longrightarrow> length rss = 16 \<Longrightarrow>
    (\<forall>n < 16. cs ! n \<noteq> None \<longleftrightarrow> bit (Used vx) n) \<Longrightarrow> (\<forall>n < 16. cs ! n = None \<longrightarrow> rss ! n = []) \<Longrightarrow>
    (\<forall>n < 16. \<forall>t. cs ! n = Some t \<longrightarrow>
       row_trie keccak U E vtx root (StartVid vx + of_nat n) (path @ Pfx vx @ [of_nat n]) t (rss ! n)) \<Longrightarrow>
    row_trie keccak U E vtx root vid path (Branch (Pfx vx) cs) (\<lparr>Root = root, Vid = vid\<rparr> # concat rss)"

lemma map_of_key: "map_of vtx k = Some x \<Longrightarrow> k \<in> fst ` set vtx"
  by (metis domI dom_map_of_conv_image_fst)

lemma row_trie_rows: "row_trie keccak U E vtx root vid path t rs \<Longrightarrow> set rs \<subseteq> fst ` set vtx"
proof (induction rule: row_trie.induct)
  case (row_branch root vid vx cs rss path)
  have "set (rss ! n) \<subseteq> fst ` set vtx" if "n < 16" for n
    using row_branch.IH that row_branch.hyps by (cases "cs ! n") auto
  then have "set (concat rss) \<subseteq> fst ` set vtx"
    unfolding set_concat using row_branch.hyps(5) by (intro UN_least) (metis in_set_conv_nth)
  then show ?case using map_of_key [OF row_branch.hyps(1)] by simp
qed (simp_all add: map_of_key)

definition proper_vertex :: "Vertex \<Rightarrow> bool" where
  "proper_vertex vx \<longleftrightarrow> nibbly (Pfx vx) \<and>
     (Type vx = BranchV \<longrightarrow> Pfx vx = []) \<and> (Type vx = ExtBranchV \<longrightarrow> Pfx vx \<noteq> [])"

lemma two_bits:
  assumes "2 \<le> popcount16 u"
  obtains i j where "i < j" "j < 16" "bit u i" "bit u j"
proof -
  have "unat u < 2 ^ 16" using unsigned_less [of u] by simp
  then have "2 \<le> length (filter (bit u) [0..<16])" using assms popcount16_filter [of u 16] by simp
  then obtain x y zs where f: "filter (bit u) [0..<16] = x # y # zs"
    by (metis One_nat_def Suc_1 Suc_le_length_iff)
  have "sorted_wrt (<) (filter (bit u) [0..<16])" by (intro sorted_wrt_filter) simp
  then have "x < y" using f by simp
  moreover have "x \<in> set (filter (bit u) [0..<16])" "y \<in> set (filter (bit u) [0..<16])" unfolding f by simp_all
  ultimately show thesis using that [of x y] by simp
qed

lemma row_trie_canon:
  assumes "\<forall>rv \<in> set vtx. proper_vertex (snd rv)"
  shows "row_trie keccak U E vtx root vid path t rs \<Longrightarrow> length path \<le> 64 \<and> canon (64 - length path) t"
proof (induction rule: row_trie.induct)
  case (row_branch root vid vx cs rss path)
  have nib: "nibbly (Pfx vx)" using assms map_of_SomeD [OF row_branch.hyps(1)] by (auto simp: proper_vertex_def)
  obtain i j where ij: "i < j" "j < 16" "bit (Used vx) i" "bit (Used vx) j" using two_bits row_branch.hyps(3) .
  have child: "length path + length (Pfx vx) + 1 \<le> 64 \<and> canon (64 - (length path + length (Pfx vx) + 1)) c"
    if "n < 16" "cs ! n = Some c" for n c
    using row_branch.IH that by auto
  have ci: "cs ! i \<noteq> None" and cj: "cs ! j \<noteq> None" using row_branch.hyps(6) ij by auto
  then obtain c where "cs ! j = Some c" by blast
  with child [OF ij(2)] have len: "length path + length (Pfx vx) + 1 \<le> 64" by blast
  have sub: "canon (64 - (length path + length (Pfx vx) + 1)) c" if c: "Some c \<in> set cs" for c
  proof -
    obtain n where "n < length cs" "cs ! n = Some c" using c by (auto simp: in_set_conv_nth)
    then have "n < 16" "cs ! n = Some c" using row_branch.hyps(4) by simp_all
    then show ?thesis using child by blast
  qed
  have "64 - length path = length (Pfx vx) + Suc (64 - (length path + length (Pfx vx) + 1))" using len by simp
  from canon_Branch [OF row_branch.hyps(4) nib this ij(1,2) ci cj sub] len show ?case by simp
qed (use assms in \<open>auto simp: proper_vertex_def intro!: canon_Leaf dest!: map_of_SomeD\<close>)

section \<open>Soundness of the hash walk\<close>

definition sound_rec :: "digest \<Rightarrow> uint256_lib \<Rightarrow> bytes \<Rightarrow> vtx_table \<Rightarrow> hash_node \<Rightarrow> bool" where
  "sound_rec keccak U E vtx rec \<longleftrightarrow>
     (\<forall>root vid pos path v ref v'. rec root vid pos path v = Inr (ref, v') \<longrightarrow>
        (\<exists>t rs. row_trie keccak U E vtx root vid path t rs \<and> ref = enc keccak t \<and>
           vf_visited v' = vf_visited v @ rs \<and> (distinct (vf_visited v) \<longrightarrow> distinct (vf_visited v'))))"

lemma sound_recD:
  assumes "sound_rec keccak U E vtx rec" "rec root vid pos path v = Inr (ref, v')"
  obtains t rs where "row_trie keccak U E vtx root vid path t rs" "ref = enc keccak t"
    "vf_visited v' = vf_visited v @ rs" "distinct (vf_visited v) \<Longrightarrow> distinct (vf_visited v')"
  using assms unfolding sound_rec_def by blast

definition child_step ::
  "hash_node \<Rightarrow> VertexID \<Rightarrow> Vertex \<Rightarrow> nat \<Rightarrow> bytes \<Rightarrow> nat \<Rightarrow> vf \<times> bytes list \<Rightarrow> verify_error + vf \<times> bytes list" where
  "child_step rec root vx childPos fullPath n =
     (\<lambda>(v, children).
        if Used vx AND push_bit n 1 = 0 then Inr (v, children)
        else bindE (rec root (StartVid vx + of_nat n) childPos (fullPath @ [of_nat n]) v)
               (\<lambda>(ref, v). Inr (v, children[n := ref])))"

lemma hashChildren_alt:
  "hashChildren rec root vx childPos fullPath v = foldE (child_step rec root vx childPos fullPath) [0..<16] (v, replicate 16 [])"
  unfolding hashChildren_def child_step_def by (rule refl)

lemma children_sound:
  assumes rec: "sound_rec keccak U E vtx rec"
  shows "foldE (child_step rec root vx cp (path @ Pfx vx)) [0..<k] (v, replicate 16 []) = Inr (v', ch) \<Longrightarrow> k \<le> 16 \<Longrightarrow>
    \<exists>cs rss. length cs = 16 \<and> length rss = k \<and> ch = map (enc_opt keccak) cs \<and>
      (\<forall>n < 16. cs ! n \<noteq> None \<longleftrightarrow> n < k \<and> bit (Used vx) n) \<and> (\<forall>n < k. cs ! n = None \<longrightarrow> rss ! n = []) \<and>
      (\<forall>n < k. \<forall>t. cs ! n = Some t \<longrightarrow>
         row_trie keccak U E vtx root (StartVid vx + of_nat n) (path @ Pfx vx @ [of_nat n]) t (rss ! n)) \<and>
      vf_visited v' = vf_visited v @ concat rss \<and> (distinct (vf_visited v) \<longrightarrow> distinct (vf_visited v'))"
proof (induction k arbitrary: v' ch)
  case 0
  then show ?case by (intro exI [of _ "replicate 16 None"] exI [of _ "[]"]) (simp add: map_replicate)
next
  case (Suc k)
  obtain v1 ch1 where 1: "foldE (child_step rec root vx cp (path @ Pfx vx)) [0..<k] (v, replicate 16 []) = Inr (v1, ch1)"
    "child_step rec root vx cp (path @ Pfx vx) k (v1, ch1) = Inr (v', ch)"
    using Suc.prems(1) by (auto simp: foldE_append bindE_eq_Inr)
  from Suc.IH [OF 1(1)] Suc.prems(2) obtain cs rss where IH: "length cs = 16" "length rss = k" "ch1 = map (enc_opt keccak) cs"
      "\<forall>n < 16. cs ! n \<noteq> None \<longleftrightarrow> n < k \<and> bit (Used vx) n" "\<forall>n < k. cs ! n = None \<longrightarrow> rss ! n = []"
      "\<forall>n < k. \<forall>t. cs ! n = Some t \<longrightarrow>
         row_trie keccak U E vtx root (StartVid vx + of_nat n) (path @ Pfx vx @ [of_nat n]) t (rss ! n)"
      "vf_visited v1 = vf_visited v @ concat rss" "distinct (vf_visited v) \<longrightarrow> distinct (vf_visited v1)"
    by auto
  have less: "n < Suc k \<longleftrightarrow> n < k \<or> n = k" for n by auto
  show ?case
  proof (cases "bit (Used vx) k")
    case False
    have "cs ! k = None" using IH(4) [rule_format, of k] Suc.prems(2) by simp
    moreover have "v' = v1" "ch = ch1" using 1(2) False by (simp_all add: child_step_def and_exp_eq_0_iff_not_bit)
    ultimately show ?thesis
      using IH False Suc.prems(2)
      by (intro exI [of _ cs] exI [of _ "rss @ [[]]"]) (auto simp: less nth_append)
  next
    case True
    then obtain ref where r: "rec root (StartVid vx + of_nat k) cp ((path @ Pfx vx) @ [of_nat k]) v1 = Inr (ref, v')"
      "ch = ch1[k := ref]"
      using 1(2) by (auto simp: child_step_def and_exp_eq_0_iff_not_bit bindE_eq_Inr)
    obtain t rs where t: "row_trie keccak U E vtx root (StartVid vx + of_nat k) ((path @ Pfx vx) @ [of_nat k]) t rs"
      "ref = enc keccak t" "vf_visited v' = vf_visited v1 @ rs" "distinct (vf_visited v1) \<Longrightarrow> distinct (vf_visited v')"
      using sound_recD [OF rec r(1)] by metis
    show ?thesis
      using IH True Suc.prems(2) r(2) t
      by (intro exI [of _ "cs[k := Some t]"] exI [of _ "rss @ [rs]"])
        (auto simp: less nth_append nth_list_update map_update)
  qed
qed

definition vtx_shape :: "vtx_table \<Rightarrow> bool" where
  "vtx_shape vtx \<longleftrightarrow> (\<forall>rv \<in> set vtx. proper_vertex (snd rv))"

lemma vtx_shapeD: "vtx_shape vtx \<Longrightarrow> map_of vtx rvid = Some vx \<Longrightarrow> proper_vertex vx"
  by (auto simp: vtx_shape_def dest!: map_of_SomeD)

lemma countDynamic_visited [simp]: "vf_visited (countDynamic vid v) = vf_visited v"
  by (simp add: countDynamic_def Let_def)

lemma upd_report_visited [simp]: "vf_visited (upd_report f v) = vf_visited v"
  by (simp add: upd_report_def)

lemma addLeafRef_visited [simp]: "vf_visited (addLeafRef root key pos v) = vf_visited v"
  by (simp add: addLeafRef_def)

lemma hashBranch_sound:
  assumes rec: "sound_rec keccak U E vtx rec" and vx: "map_of vtx \<lparr>Root = root, Vid = vid\<rparr> = Some vx"
    and shape: "proper_vertex vx" "Type vx = BranchV \<or> Type vx = ExtBranchV"
    and h: "hashBranch keccak rec root vid vx path v = Inr (ref, v')"
  obtains t rs where "row_trie keccak U E vtx root vid path t (\<lparr>Root = root, Vid = vid\<rparr> # rs)" "ref = enc keccak t"
    "vf_visited v' = vf_visited v @ rs" "distinct (vf_visited v) \<Longrightarrow> distinct (vf_visited v')"
proof -
  obtain v1 ch where c: "\<not> popcount16 (Used vx) < 2"
    "hashChildren rec root vx (length (path @ Pfx vx) + 1) (path @ Pfx vx) v = Inr (v1, ch)"
    and r: "ref = (if Type vx = ExtBranchV then EncodeExtension keccak (Pfx vx) (EncodeBranch keccak ch []) else EncodeBranch keccak ch [])"
      "vf_visited v' = vf_visited v1"
    using h by (auto simp: hashBranch_def Let_def bindE_eq_Inr split: if_splits prod.splits)
  obtain cs rss where 1: "length cs = 16" "length rss = 16" "ch = map (enc_opt keccak) cs"
      "\<forall>n < 16. cs ! n \<noteq> None \<longleftrightarrow> n < 16 \<and> bit (Used vx) n" "\<forall>n < 16. cs ! n = None \<longrightarrow> rss ! n = []"
      "\<forall>n < 16. \<forall>t. cs ! n = Some t \<longrightarrow>
         row_trie keccak U E vtx root (StartVid vx + of_nat n) (path @ Pfx vx @ [of_nat n]) t (rss ! n)"
      "vf_visited v1 = vf_visited v @ concat rss" "distinct (vf_visited v) \<longrightarrow> distinct (vf_visited v1)"
    using children_sound [OF rec c(2) [unfolded hashChildren_alt] order_refl] by (elim exE conjE)
  have "row_trie keccak U E vtx root vid path (Branch (Pfx vx) cs) (\<lparr>Root = root, Vid = vid\<rparr> # concat rss)"
    using row_branch [OF vx shape(2) _ 1(1,2) _ 1(5,6)] c(1) 1(4) by simp
  moreover have "ref = enc keccak (Branch (Pfx vx) cs)"
    using r(1) shape 1(3) by (auto simp: enc_Branch enc_branch_def proper_vertex_def)
  ultimately show thesis using r(2) 1(7,8) by (intro that [of "Branch (Pfx vx) cs" "concat rss"]) simp_all
qed

lemma hashAccLeaf_sound:
  assumes rec: "sound_rec keccak U E vtx rec" and vx: "map_of vtx \<lparr>Root = root, Vid = vid\<rparr> = Some vx" "Type vx = AccLeafV"
    and h: "hashAccLeaf keccak U E vtx rec root vid vx pos path v = Inr (ref, v')"
  obtains t rs where "row_trie keccak U E vtx root vid path t (\<lparr>Root = root, Vid = vid\<rparr> # rs)" "ref = enc keccak t"
    "vf_visited v' = vf_visited v @ rs" "distinct (vf_visited v) \<Longrightarrow> distinct (vf_visited v')"
proof -
  let ?rvid = "\<lparr>Root = root, Vid = vid\<rparr>"
  obtain sr v1 where c: "root = StateRootVID" "length (path @ Pfx vx) = 64"
    "hashStorage keccak E vtx rec ?rvid vx v = Inr (sr, v1)" "vf_visited v' = vf_visited v1"
    "ref = EncodeLeaf (Pfx vx) (EncodeAccountState (u_Bytes U) (Nonce vx) (Balance vx) sr (CodeHash vx))"
    using h by (auto simp: hashAccLeaf_def Let_def bindE_eq_Inr split: if_splits)
  show thesis
  proof (cases "StoID vx = 0")
    case True
    then have "sr = E" "v1 = v" using c(3) by (auto simp: hashStorage_def split: if_splits)
    then show thesis using row_account [OF vx c(1,2) True] c(4,5) by (intro that) auto
  next
    case False
    then obtain ref' v2 where s: "FirstDynamicVID \<le> StoID vx" "StoHint vx \<noteq> 0" "StoHint vx \<le> MaxStoHint"
      "rec (StoID vx) (StoID vx) 0 [] (v\<lparr>vf_stoIDs := vf_stoIDs v @ [StoID vx]\<rparr>) = Inr (ref', v2)"
      "sr = keccak ref'" "vf_visited v1 = vf_visited v2"
      using c(3) by (auto simp: hashStorage_def Let_def bindE_eq_Inr not_less split: if_splits)
    obtain ts rs where t: "row_trie keccak U E vtx (StoID vx) (StoID vx) [] ts rs" "ref' = enc keccak ts"
      "vf_visited v2 = vf_visited v @ rs" "distinct (vf_visited v) \<Longrightarrow> distinct (vf_visited v2)"
      using sound_recD [OF rec s(4)] by (metis vf.select_convs(1) vf.surjective vf.update_convs(2))
    show thesis
      using row_contract [OF vx c(1,2) s(1,2,3) t(1)] c(4,5) s(5,6) t(2,3,4) by (intro that) auto
  qed
qed

lemma hashNode_sound:
  assumes shape: "vtx_shape vtx"
  shows "sound_rec keccak U E vtx (hashNode keccak U E vtx fuel)"
proof (induction fuel)
  case 0
  then show ?case by (simp add: sound_rec_def)
next
  case (Suc fuel)
  show ?case unfolding sound_rec_def
  proof (intro allI impI)
    fix root vid pos path v ref v'
    assume h: "hashNode keccak U E vtx (Suc fuel) root vid pos path v = Inr (ref, v')"
    let ?rvid = "\<lparr>Root = root, Vid = vid\<rparr>" and ?rec = "hashNode keccak U E vtx fuel"
    obtain vx where vx: "map_of vtx ?rvid = Some vx" using h by (auto simp: Let_def split: option.splits)
    define v1 where "v1 = countDynamic vid (v\<lparr>vf_visited := vf_visited v @ [?rvid]\<rparr>)"
    have new: "?rvid \<notin> set (vf_visited v)"
      and k: "(case Type vx of BranchV \<Rightarrow> hashBranch keccak ?rec root vid vx path v1
          | ExtBranchV \<Rightarrow> hashBranch keccak ?rec root vid vx path v1
          | AccLeafV \<Rightarrow> hashAccLeaf keccak U E vtx ?rec root vid vx pos path v1
          | StoLeafV \<Rightarrow> hashStoLeaf root vid vx pos path v1) = Inr (ref, v')"
      using h vx unfolding v1_def by (simp_all add: Let_def bindE_eq_Inr split: if_splits)
    have v1: "vf_visited v1 = vf_visited v @ [?rvid]" by (simp add: v1_def)
    have "\<exists>t rs. row_trie keccak U E vtx root vid path t (?rvid # rs) \<and> ref = enc keccak t \<and>
        vf_visited v' = vf_visited v1 @ rs \<and> (distinct (vf_visited v1) \<longrightarrow> distinct (vf_visited v'))"
    proof (cases "Type vx")
      case StoLeafV
      then have "root \<noteq> StateRootVID" "length (path @ Pfx vx) = 64" "StoValue vx \<noteq> replicate 32 0"
        "ref = EncodeLeaf (Pfx vx) (EncodeStorageValueBytes32 (StoValue vx))" "vf_visited v' = vf_visited v1"
        using k by (auto simp: hashStoLeaf_def Let_def split: if_splits)
      then show ?thesis
        using row_slot [OF vx StoLeafV, of path] by (intro exI conjI) auto
    next
      case AccLeafV
      with hashAccLeaf_sound [OF Suc vx AccLeafV] k show ?thesis by (simp, metis)
    next
      case BranchV
      with hashBranch_sound [OF Suc vx vtx_shapeD [OF shape vx]] k show ?thesis by (simp, metis)
    next
      case ExtBranchV
      with hashBranch_sound [OF Suc vx vtx_shapeD [OF shape vx]] k show ?thesis by (simp, metis)
    qed
    then show "\<exists>t rs. row_trie keccak U E vtx root vid path t rs \<and> ref = enc keccak t \<and>
        vf_visited v' = vf_visited v @ rs \<and> (distinct (vf_visited v) \<longrightarrow> distinct (vf_visited v'))"
    proof (elim exE conjE)
      fix t rs
      assume "row_trie keccak U E vtx root vid path t (?rvid # rs)" "ref = enc keccak t"
        "vf_visited v' = vf_visited v1 @ rs" "distinct (vf_visited v1) \<longrightarrow> distinct (vf_visited v')"
      then show ?thesis using v1 new by (intro exI [of _ t] exI [of _ "?rvid # rs"]) auto
    qed
  qed
qed

section \<open>Decoded tables\<close>

lemma nibbly_DecodeHexPrefix: "DecodeHexPrefix b = Inr (nibs, leaf) \<Longrightarrow> nibbly nibs"
proof -
  have hi: "unat (drop_bit 4 c) < 16" and lo: "unat (c AND 0x0f) < 16" for c :: byte
  proof -
    have "unat (drop_bit 4 c) = unat c div 16" by (simp only: unat_drop_bit_eq) (simp add: drop_bit_nat_def)
    then show "unat (drop_bit 4 c) < 16" using unat_byte_less [of c] by linarith
    have "(0x0f :: byte) = mask 4" by (simp add: mask_eq_exp_minus_1)
    then have "c AND 0x0f = take_bit 4 c" by (simp add: take_bit_eq_mask)
    then show "unat (c AND 0x0f) < 16" by (simp add: take_bit_eq_mod unat_mod)
  qed
  assume "DecodeHexPrefix b = Inr (nibs, leaf)"
  then show ?thesis
    using hi lo by (auto simp: DecodeHexPrefix_def nibbly_def split: list.splits if_splits)
qed

lemma nibbly_DecodePfx: "DecodePfx isLeaf n seg = Inr pfx \<Longrightarrow> nibbly pfx \<and> (n = 0 \<longrightarrow> pfx = [])"
  by (auto simp: DecodePfx_def bindE_eq_Inr dest!: nibbly_DecodeHexPrefix split: if_splits)

lemma DecodeAccLeaf_fields: "DecodeAccLeaf U EC pfx msk data = Inr vx \<Longrightarrow> Type vx = AccLeafV \<and> Pfx vx = pfx"
  by (auto simp: DecodeAccLeaf_def Let_def bindE_eq_Inr split: if_splits prod.splits)

lemma DecodeVertex_shape:
  assumes "DecodeVertex U EC rec = Inr vx"
  shows "nibbly (Pfx vx) \<and> (Type vx = BranchV \<longrightarrow> Pfx vx = [])"
  using assms
  by (auto simp: DecodeVertex_def Let_def bindE_eq_Inr zeroVertex_def dest!: nibbly_DecodePfx DecodeAccLeaf_fields
      split: if_splits)

text \<open>A record whose extension branch has an empty prefix decodes, but no builder writes one.\<close>

definition no_empty_extension :: "uint256_lib \<Rightarrow> bytes \<Rightarrow> VertexRows \<Rightarrow> bool" where
  "no_empty_extension U EC rs \<longleftrightarrow>
     (\<forall>r \<in> set rs. case DecodeVertex U EC (snd r) of
        Inl _ \<Rightarrow> True | Inr vx \<Rightarrow> Type vx = ExtBranchV \<longrightarrow> Pfx vx \<noteq> [])"

lemma decodeRows_ok:
  "decodeRows U EC rs = Inr vtx \<Longrightarrow> map fst vtx = map fst rs \<and> (no_empty_extension U EC rs \<longrightarrow> vtx_shape vtx)"
proof (induction rs arbitrary: vtx)
  case Nil
  then show ?case by (simp add: vtx_shape_def)
next
  case (Cons r rs)
  obtain rvid rec where r: "r = (rvid, rec)" by fastforce
  obtain vx vtx' where d: "DecodeVertex U EC rec = Inr vx" "decodeRows U EC rs = Inr vtx'" "vtx = (rvid, vx) # vtx'"
    using Cons.prems by (auto simp: r bindE_eq_Inr split: sum.splits)
  then show ?case
    using Cons.IH [OF d(2)] DecodeVertex_shape [OF d(1)]
    by (auto simp: r no_empty_extension_def vtx_shape_def proper_vertex_def)
qed

definition collectRows :: "(bytes \<times> bytes) list \<Rightarrow> verify_error + VertexRows \<times> SavedState" where
  "collectRows raw = foldE (\<lambda>(key, val) (rs, admin). CollectRow rs admin key val) raw ([], \<lparr>VTop = 0, Serial = 0\<rparr>)"

lemma collectRows_distinct: "collectRows raw = Inr (rs, admin) \<Longrightarrow> distinct (map fst rs)"
proof -
  have "distinct (map fst rs0) \<Longrightarrow>
      foldE (\<lambda>(key, val) (rs, admin). CollectRow rs admin key val) raw (rs0, a0) = Inr (rs, admin) \<Longrightarrow> distinct (map fst rs)" for rs0 a0
  proof (induction raw arbitrary: rs0 a0)
    case (Cons kv raw)
    obtain rs1 a1 where 1: "CollectRow rs0 a0 (fst kv) (snd kv) = Inr (rs1, a1)"
      "foldE (\<lambda>(key, val) (rs, admin). CollectRow rs admin key val) raw (rs1, a1) = Inr (rs, admin)"
      using Cons.prems(2) by (cases kv) (auto simp: bindE_eq_Inr)
    have "distinct (map fst rs1)"
      using 1(1) Cons.prems(1) by (auto simp: CollectRow_def map_of_eq_None_iff split: if_splits sum.splits)
    with Cons.IH 1(2) show ?case by blast
  qed simp
  from this [of "[]"] show "collectRows raw = Inr (rs, admin) \<Longrightarrow> distinct (map fst rs)" by (simp add: collectRows_def)
qed

section \<open>The fuel suffices\<close>

definition entered_ok :: "vtx_table \<Rightarrow> vf \<Rightarrow> bool" where
  "entered_ok vtx v \<longleftrightarrow> distinct (vf_visited v) \<and> set (vf_visited v) \<subseteq> fst ` set vtx"

lemma entered_le: "entered_ok vtx v \<Longrightarrow> length (vf_visited v) \<le> length vtx"
proof -
  assume a: "entered_ok vtx v"
  then have "length (vf_visited v) = card (set (vf_visited v))" by (simp add: entered_ok_def distinct_card)
  also have "\<dots> \<le> card (fst ` set vtx)" using a by (intro card_mono) (simp_all add: entered_ok_def)
  also have "\<dots> \<le> length vtx" using card_image_le [of "set vtx" fst] card_length [of vtx] by simp
  finally show ?thesis .
qed

text \<open>With fuel \<open>m\<close> above the number of vertices not yet entered, a call neither runs dry nor forgets one.\<close>

definition enough :: "vtx_table \<Rightarrow> nat \<Rightarrow> vf \<Rightarrow> bool" where
  "enough vtx m v \<longleftrightarrow> entered_ok vtx v \<and> length vtx < m + length (vf_visited v)"

definition ran :: "vtx_table \<Rightarrow> nat \<Rightarrow> ('a \<Rightarrow> vf) \<Rightarrow> verify_error + 'a \<Rightarrow> bool" where
  "ran vtx m out r \<longleftrightarrow> (case r of Inl e \<Rightarrow> e \<noteq> VOutOfFuel | Inr x \<Rightarrow> enough vtx m (out x))"

lemma ran_simps [simp]: "ran vtx m out (Inl e) \<longleftrightarrow> e \<noteq> VOutOfFuel" "ran vtx m out (Inr x) \<longleftrightarrow> enough vtx m (out x)"
  by (simp_all add: ran_def)

lemma ran_bind:
  "ran vtx m out r \<Longrightarrow> (\<And>x. enough vtx m (out x) \<Longrightarrow> ran vtx m out' (f x)) \<Longrightarrow> ran vtx m out' (bindE r f)"
  by (cases r) simp_all

lemma ran_check: "r \<noteq> Inl VOutOfFuel \<Longrightarrow> (\<And>x. ran vtx m out' (f x)) \<Longrightarrow> ran vtx m out' (bindE r f)"
  by (cases r) simp_all

definition fuel_rec :: "vtx_table \<Rightarrow> nat \<Rightarrow> hash_node \<Rightarrow> bool" where
  "fuel_rec vtx m rec \<longleftrightarrow> (\<forall>root vid pos path v. enough vtx m v \<longrightarrow> ran vtx m snd (rec root vid pos path v))"

lemma enough_same: "vf_visited v' = vf_visited v \<Longrightarrow> enough vtx m v' = enough vtx m v"
  by (simp add: enough_def entered_ok_def)

lemma enough_simps [simp]:
  "enough vtx m (countDynamic vid v) = enough vtx m v" "enough vtx m (upd_report f v) = enough vtx m v"
  "enough vtx m (addLeafRef root key pos v) = enough vtx m v" "enough vtx m (v\<lparr>vf_stoIDs := ss\<rparr>) = enough vtx m v"
  by (simp_all add: enough_def entered_ok_def)

lemma checks_not_fuel:
  "placementOk root vid pos path \<noteq> Inl VOutOfFuel" "startVidOk rvid vx p n \<noteq> Inl VOutOfFuel"
  "storedKeyOk keccak rvid vx ref \<noteq> Inl VOutOfFuel"
  by (auto simp: placementOk_def startVidOk_def storedKeyOk_def split: option.splits)

lemma children_fuel:
  "fuel_rec vtx m rec \<Longrightarrow> enough vtx m v \<Longrightarrow> ran vtx m fst (foldE (child_step rec root vx cp p) ns (v, ch))"
proof (induction ns arbitrary: v ch)
  case (Cons n ns)
  have "ran vtx m fst (child_step rec root vx cp p n (v, ch))"
    using Cons.prems by (auto simp: child_step_def fuel_rec_def intro!: ran_bind [where out = snd])
  then show ?case using Cons by (auto intro!: ran_bind [where out = fst])
qed simp

lemma hashBranch_fuel:
  "fuel_rec vtx m rec \<Longrightarrow> enough vtx m v \<Longrightarrow> ran vtx m snd (hashBranch keccak rec root vid vx path v)"
  unfolding hashBranch_def Let_def hashChildren_alt
  by (auto intro!: ran_check [OF checks_not_fuel(2)] ran_check [OF checks_not_fuel(3)] ran_bind [OF children_fuel])

lemma hashAccLeaf_fuel:
  assumes "fuel_rec vtx m rec" "enough vtx m v"
  shows "ran vtx m snd (hashAccLeaf keccak U E vtx rec root vid vx pos path v)"
proof -
  have "ran vtx m snd (hashStorage keccak E vtx rec \<lparr>Root = root, Vid = vid\<rparr> vx v)"
    using assms by (auto simp: hashStorage_def Let_def fuel_rec_def intro!: ran_bind [where out = snd])
  then show ?thesis by (auto simp: hashAccLeaf_def Let_def intro!: ran_bind [where out = snd])
qed

lemma hashStoLeaf_fuel: "enough vtx m v \<Longrightarrow> ran vtx m snd (hashStoLeaf root vid vx pos path v)"
  by (simp add: hashStoLeaf_def Let_def)

lemma enough_mono: "enough vtx m v \<Longrightarrow> enough vtx (Suc m) v"
  by (simp add: enough_def)

lemma ran_mono: "ran vtx m out r \<Longrightarrow> ran vtx (Suc m) out r"
  by (cases r) (simp_all add: enough_mono)

lemma hashNode_fuel: "fuel_rec vtx fuel (hashNode keccak U E vtx fuel)"
proof (induction fuel)
  case 0
  then show ?case using entered_le by (fastforce simp: fuel_rec_def enough_def)
next
  case (Suc fuel)
  show ?case unfolding fuel_rec_def
  proof (intro allI impI)
    fix root vid pos path and v :: vf
    assume e: "enough vtx (Suc fuel) v"
    let ?rvid = "\<lparr>Root = root, Vid = vid\<rparr>"
    let ?v = "countDynamic vid (v\<lparr>vf_visited := vf_visited v @ [?rvid]\<rparr>)"
    show "ran vtx (Suc fuel) snd (hashNode keccak U E vtx (Suc fuel) root vid pos path v)"
    proof (cases "map_of vtx ?rvid")
      case (Some vx)
      show ?thesis
      proof (cases "?rvid \<in> set (vf_visited v)")
        case False
        then have "enough vtx fuel ?v"
          using e map_of_key [OF Some] by (simp add: enough_def entered_ok_def)
        then have "ran vtx (Suc fuel) snd (case Type vx of
            BranchV \<Rightarrow> hashBranch keccak (hashNode keccak U E vtx fuel) root vid vx path ?v
          | ExtBranchV \<Rightarrow> hashBranch keccak (hashNode keccak U E vtx fuel) root vid vx path ?v
          | AccLeafV \<Rightarrow> hashAccLeaf keccak U E vtx (hashNode keccak U E vtx fuel) root vid vx pos path ?v
          | StoLeafV \<Rightarrow> hashStoLeaf root vid vx pos path ?v)"
          using Suc by (cases "Type vx") (auto intro!: ran_mono hashBranch_fuel hashAccLeaf_fuel hashStoLeaf_fuel enough_mono)
        then show ?thesis
          using Some False by (simp add: Let_def) (rule ran_check [OF checks_not_fuel(1)])
      qed (use Some in \<open>simp add: Let_def\<close>)
    qed (simp add: Let_def)
  qed
qed

section \<open>Properties\<close>

lemma probeFrom_not_fuel: "probeFrom vtx root key walkVid sl \<noteq> Inl VOutOfFuel"
  by (induction vtx root key walkVid sl rule: probeFrom.induct) (subst probeFrom.simps, auto simp: Let_def split: option.splits)

lemma walk_not_fuel: "walk vtx lf pos vid walkVid \<noteq> Inl VOutOfFuel"
proof (induction "length (lf_key lf) - pos" arbitrary: pos vid walkVid rule: less_induct)
  case less
  show ?case
  proof (cases "map_of vtx \<lparr>Root = lf_root lf, Vid = vid\<rparr>")
    case None
    then show ?thesis by (subst walk.simps) simp
  next
    case (Some vx)
    have "length (lf_key lf) - (pos' + 1) < length (lf_key lf) - pos"
      if "\<not> length (lf_key lf) \<le> pos'" "pos \<le> pos'" for pos' using that by linarith
    note IH = less [OF this]
    show ?thesis
      using IH [of pos] IH [of "pos + length (Pfx vx)"]
      by (subst walk.simps, cases "Type vx") (auto simp: Some Let_def probe_def probeFrom_not_fuel)
  qed
qed

lemma decodeRows_not_fuel: "decodeRows U EC rs \<noteq> Inl VOutOfFuel"
  by (induction U EC rs rule: decodeRows.induct) (auto simp: bindE_def split: sum.splits)

lemma lookups_not_fuel: "foldE (\<lambda>lf _. vlookup vtx lf) lfs u \<noteq> Inl VOutOfFuel"
proof (induction lfs arbitrary: u)
  case (Cons lf lfs)
  then show ?case
    using walk_not_fuel [of vtx lf 0 "lf_root lf" "[]"] by (auto simp: vlookup_def bindE_def split: sum.splits)
qed simp

text \<open>A table with one account and one storage slot, as the encoders write it.\<close>

lemma collect_encoded:
  assumes "distinct (map fst rs)"
  shows "collectRows (([], EncodeSavedState admin) # map (\<lambda>(r, rec). (AppendKey [] r, rec)) rs) = Inr (rs, admin)"
proof -
  have ne: "length (AppendKey [] r) \<noteq> 0" for r by (simp add: AppendKey_def Let_def AppendSBE_def)
  have "distinct (map fst (rs0 @ rs)) \<Longrightarrow> foldE (\<lambda>(key, val) (rs, admin). CollectRow rs admin key val)
      (map (\<lambda>(r, rec). (AppendKey [] r, rec)) rs) (rs0, admin) = Inr (rs0 @ rs, admin)" for rs0
  proof (induction rs arbitrary: rs0)
    case (Cons r rs)
    have "map_of rs0 (fst r) = None" using Cons.prems by (auto simp: map_of_eq_None_iff)
    then have "CollectRow rs0 admin (AppendKey [] (fst r)) (snd r) = Inr (rs0 @ [r], admin)"
      using ne by (simp add: CollectRow_def ParseKey_AppendKey)
    then show ?case using Cons.IH [of "rs0 @ [r]"] Cons.prems by (simp add: split_beta)
  qed simp
  from this [of "[]"] assms show ?thesis
    by (simp add: collectRows_def CollectRow_def DecodeSavedState_EncodeSavedState)
qed

definition sample_vertices :: vtx_table where
  "sample_vertices =
     [(\<lparr>Root = 1, Vid = 1\<rparr>, zeroVertex\<lparr>Type := AccLeafV, Pfx := replicate 64 7, Nonce := 1, Balance := Some 9,
         StoID := FirstDynamicVID, StoHint := 1, CodeHash := replicate 32 2\<rparr>),
      (\<lparr>Root = FirstDynamicVID, Vid = FirstDynamicVID\<rparr>,
         zeroVertex\<lparr>Type := StoLeafV, Pfx := replicate 64 3, StoValue := replicate 31 0 @ [4]\<rparr>)]"

definition sample_rows :: VertexRows where
  "sample_rows = map (\<lambda>(r, vx). (r, the (Vertex_Encode uint256_model (replicate 32 1) vx))) sample_vertices"

lemma decode_encoded:
  assumes "uint256_lib_spec U" "\<forall>rv \<in> set vtx. wf_vertex (snd rv)"
  shows "decodeRows U EC (map (\<lambda>(r, vx). (r, the (Vertex_Encode U EC vx))) vtx) = Inr vtx \<and>
    no_empty_extension U EC (map (\<lambda>(r, vx). (r, the (Vertex_Encode U EC vx))) vtx)"
  using assms(2)
proof (induction vtx)
  case Nil
  then show ?case by (simp add: no_empty_extension_def)
next
  case (Cons rv vtx)
  obtain r vx where rv: "rv = (r, vx)" by fastforce
  obtain rec where "Vertex_Encode U EC vx = Some rec" "DecodeVertex U EC rec = Inr vx"
    using vertex_encode_decode [OF assms(1), of vx EC] Cons.prems by (auto simp: rv)
  moreover have "Type vx = ExtBranchV \<longrightarrow> Pfx vx \<noteq> []" using Cons.prems by (auto simp: rv wf_vertex_def)
  ultimately show ?case using Cons by (simp add: rv no_empty_extension_def)
qed

lemma sample_ok:
  "decodeRows uint256_model (replicate 32 1) sample_rows = Inr sample_vertices \<and>
   no_empty_extension uint256_model (replicate 32 1) sample_rows"
  unfolding sample_rows_def
  by (rule decode_encoded [OF uint256_model_spec])
    (simp add: sample_vertices_def wf_vertex_def zeroVertex_def is_nibble_def MaxStoHint_def StaticVIDLevels_def list_all_iff)

abbreviation sample_keccak :: digest where
  "sample_keccak \<equiv> \<lambda>x. replicate 32 5"

abbreviation sample_hash :: "nat \<Rightarrow> hash_node" where
  "sample_hash \<equiv> hashNode sample_keccak uint256_model (replicate 32 6) sample_vertices"

lemma sample_facts:
  "map_of sample_vertices \<lparr>Root = 1, Vid = 1\<rparr> = Some (zeroVertex\<lparr>Type := AccLeafV, Pfx := replicate 64 7, Nonce := 1,
     Balance := Some 9, StoID := FirstDynamicVID, StoHint := 1, CodeHash := replicate 32 2\<rparr>)"
  "map_of sample_vertices \<lparr>Root = FirstDynamicVID, Vid = FirstDynamicVID\<rparr> =
     Some (zeroVertex\<lparr>Type := StoLeafV, Pfx := replicate 64 3, StoValue := replicate 31 0 @ [4]\<rparr>)"
  "length sample_vertices = 2" "FirstDynamicVID \<noteq> 0" "FirstDynamicVID \<noteq> 1" "\<not> FirstDynamicVID \<le> 1"
  by (simp_all add: sample_vertices_def FirstDynamicVID_def word_le_nat_alt)

lemma sample_walks:
  "walk sample_vertices \<lparr>lf_root = 1, lf_key = replicate 64 7, lf_pos = 0\<rparr> 0 1 [] = Inr ()"
  "walk sample_vertices \<lparr>lf_root = FirstDynamicVID, lf_key = replicate 64 3, lf_pos = 0\<rparr> 0 FirstDynamicVID [] = Inr ()"
  by (simp_all add: walk.simps sample_facts probe_def probeFrom.simps Let_def)

lemma sample_slot:
  assumes "\<lparr>Root = FirstDynamicVID, Vid = FirstDynamicVID\<rparr> \<notin> set (vf_visited v)"
  shows "sample_hash (Suc (Suc 0)) FirstDynamicVID FirstDynamicVID 0 [] v =
    Inr (EncodeLeaf (replicate 64 3) (EncodeStorageValueBytes32 (replicate 31 0 @ [4])),
      upd_report (\<lambda>r. r\<lparr>rp_StorageLeaves := rp_StorageLeaves r + 1\<rparr>)
        (addLeafRef FirstDynamicVID (replicate 64 3) 0 (countDynamic FirstDynamicVID
          (v\<lparr>vf_visited := vf_visited v @ [\<lparr>Root = FirstDynamicVID, Vid = FirstDynamicVID\<rparr>]\<rparr>))))"
proof -
  have "replicate 31 (0 :: byte) @ [4] \<noteq> replicate 32 0" by (rule notI, drule arg_cong [of _ _ last]) simp
  then show ?thesis
    using assms sample_facts(5)
    by (simp add: sample_facts(2) Let_def placementOk_def hashStoLeaf_def StateRootVID_def FirstStaticVID_def)
qed

lemma sample_account_hash:
  "\<exists>ref. sample_hash (Suc (Suc (Suc 0))) 1 1 0 [] newVerifier = Inr (ref,
    \<lparr>vf_visited = [\<lparr>Root = 1, Vid = 1\<rparr>, \<lparr>Root = FirstDynamicVID, Vid = FirstDynamicVID\<rparr>], vf_stoIDs = [FirstDynamicVID],
     vf_leaves = [\<lparr>lf_root = FirstDynamicVID, lf_key = replicate 64 3, lf_pos = 0\<rparr>,
       \<lparr>lf_root = 1, lf_key = replicate 64 7, lf_pos = 0\<rparr>],
     vf_report = \<lparr>rp_Accounts = 1, rp_StorageTries = 1, rp_StorageLeaves = 1, rp_Branches = 0, rp_ExtBranches = 0,
       rp_DynamicVertices = 1, rp_MaxDynamicVid = FirstDynamicVID\<rparr>\<rparr>)"
proof -
  have "\<not> MaxStoHint < 1" by (simp add: MaxStoHint_def StaticVIDLevels_def)
  moreover have "0 < FirstDynamicVID" by (simp add: FirstDynamicVID_def)
  ultimately show ?thesis
    using sample_facts(4,5,6)
    by (subst hashNode.simps) (simp add: sample_facts(1,2) sample_slot Let_def placementOk_def hashAccLeaf_def hashStorage_def
      countDynamic_def newVerifier_def zeroReport_def addLeafRef_def upd_report_def StateRootVID_def FirstStaticVID_def
      del: hashNode.simps)
qed

lemma verify_sample:
  "VerifyState sample_keccak uint256_model (replicate 32 6) (replicate 32 1) sample_rows
     \<lparr>VTop = FirstDynamicVID, Serial = 0\<rparr> (replicate 32 5) =
   Inr \<lparr>rp_Accounts = 1, rp_StorageTries = 1, rp_StorageLeaves = 1, rp_Branches = 0, rp_ExtBranches = 0,
     rp_DynamicVertices = 1, rp_MaxDynamicVid = FirstDynamicVID\<rparr>"
  using sample_account_hash
  by (auto simp: VerifyState_def sample_ok sample_facts(1,3) sample_walks vlookup_def StateRootVID_def FirstStaticVID_def
      numeral_2_eq_2 simp del: hashNode.simps)



text \<open>
  C35: The read-back check always ends.  \<open>hashNode\<close> follows the references stored in the rows, cyclic ones
  included, and enters a vertex at most once, so a recursion as deep as there are rows is enough: the check
  returns a report or an error found in the rows, never for want of depth.
\<close>

theorem nimbus_verifier_terminates:
  "VerifyState keccak U E EC rs admin wantRoot \<noteq> Inl VOutOfFuel"
proof
  assume f: "VerifyState keccak U E EC rs admin wantRoot = Inl VOutOfFuel"
  obtain vtx where vtx: "decodeRows U EC rs = Inr vtx"
    using f decodeRows_not_fuel [of U EC rs] by (auto simp: VerifyState_def bindE_def split: sum.splits)
  have "enough vtx (length vtx + 1) newVerifier" by (simp add: enough_def entered_ok_def newVerifier_def)
  then have "ran vtx (length vtx + 1) snd
      (hashNode keccak U E vtx (length vtx + 1) StateRootVID StateRootVID 0 [] newVerifier)"
    using hashNode_fuel [of vtx "length vtx + 1"] unfolding fuel_rec_def by blast
  then show False
    using f vtx lookups_not_fuel
    by (cases "hashNode keccak U E vtx (length vtx + 1) StateRootVID StateRootVID 0 [] newVerifier")
      (auto simp: VerifyState_def bindE_def split: if_splits sum.splits)
qed

end
