(* ===== verification/Bin_Node.thy ===== *)
theory Bin_Node
  imports Prelude
begin

text \<open>
  Nodes of geth's binary trie as \<open>generator/binary_stack_trie.go\<close> serializes and hashes them: stem
  nodes with up to 256 values, plain internal nodes, and grouped internal nodes that hold a subtree of
  several levels.  SHA-256 is a parameter.  An array of hashes is a list.
\<close>

section \<open>Constants and entries\<close>

type_synonym hash_fun = "bytes \<Rightarrow> bytes"

definition stemSize :: nat where "stemSize = 31"

definition hashSize :: nat where "hashSize = 32"

definition stemNodeWidth :: nat where "stemNodeWidth = 256"

definition nodeTypeStem :: byte where "nodeTypeStem = 1"

definition nodeTypeInternal :: byte where "nodeTypeInternal = 2"

definition noHash :: bytes where "noHash = replicate 32 0"

record trieEntry =
  te_Key :: bytes
  te_Value :: bytes

record groupChild =
  gc_slot :: nat
  gc_hash :: bytes

definition bitmapSizeForDepth :: "nat \<Rightarrow> nat" where
  "bitmapSizeForDepth groupDepth = (2 ^ groupDepth + 7) div 8"

definition te_suffix :: "trieEntry \<Rightarrow> nat" where
  "te_suffix e = unat (te_Key e ! stemSize)"

section \<open>Serialization\<close>

text \<open>\<open>bitmap[i/8] |= 1 << (7 - i%8)\<close>\<close>

definition setSlot :: "nat \<Rightarrow> bytes \<Rightarrow> bytes" where
  "setSlot i bitmap = bitmap[i div 8 := bitmap ! (i div 8) OR push_bit (7 - i mod 8) 1]"

definition suffixBitmap :: "trieEntry list \<Rightarrow> bytes" where
  "suffixBitmap entries = foldl (\<lambda>bitmap e. setSlot (te_suffix e) bitmap) (replicate hashSize 0) entries"

definition serializeStemBlob :: "trieEntry list \<Rightarrow> bytes" where
  "serializeStemBlob entries = suffixBitmap entries @ concat (map te_Value entries)"

definition serializeInternalNode :: "bytes \<Rightarrow> bytes \<Rightarrow> bytes" where
  "serializeInternalNode leftHash rightHash = nodeTypeInternal # leftHash @ rightHash"

definition serializeGroupedInternalNode :: "nat \<Rightarrow> groupChild list \<Rightarrow> bytes" where
  "serializeGroupedInternalNode groupDepth cs =
     nodeTypeInternal # of_nat groupDepth #
     foldl (\<lambda>bitmap c. setSlot (gc_slot c) bitmap) (replicate (bitmapSizeForDepth groupDepth) 0) cs @
     concat (map gc_hash cs)"

definition serializeStemNode :: "bytes \<Rightarrow> trieEntry list \<Rightarrow> bytes" where
  "serializeStemNode stem entries =
     nodeTypeStem # take stemSize stem @ suffixBitmap entries @ concat (map te_Value entries)"

section \<open>Hashing\<close>

definition pairHash :: "hash_fun \<Rightarrow> bytes \<Rightarrow> bytes \<Rightarrow> bytes" where
  "pairHash sha l r = (if l = noHash \<and> r = noHash then noHash else sha (l @ r))"

text \<open>One level of the reduction, in place over the array.\<close>

definition reduceLevel :: "hash_fun \<Rightarrow> nat \<Rightarrow> bytes list \<Rightarrow> bytes list" where
  "reduceLevel sha count data =
     fold (\<lambda>i data. data[i := pairHash sha (data ! (2 * i)) (data ! (2 * i + 1))]) [0..<count] data"

definition computeStemNodeHash :: "hash_fun \<Rightarrow> bytes \<Rightarrow> trieEntry list \<Rightarrow> bytes" where
  "computeStemNodeHash sha stem entries =
     (let data = foldl (\<lambda>data e. data[te_suffix e := sha (te_Value e)]) (replicate stemNodeWidth noHash) entries;
          data = fold (\<lambda>level data. reduceLevel sha (stemNodeWidth div 2 ^ level) data) [1..<9] data
      in sha (take stemSize stem @ [0x00] @ data ! 0))"

text \<open>The loop \<open>for len(level) > 1\<close> of \<open>groupedRecursiveHash\<close>.\<close>

definition nextLevel :: "hash_fun \<Rightarrow> bytes list \<Rightarrow> bytes list" where
  "nextLevel sha level = map (\<lambda>i. pairHash sha (level ! (2 * i)) (level ! (2 * i + 1))) [0..<length level div 2]"

function reduceLevels :: "hash_fun \<Rightarrow> bytes list \<Rightarrow> bytes list" where
  "reduceLevels sha level = (if length level > 1 then reduceLevels sha (nextLevel sha level) else level)"
  by pat_completeness auto
termination
  by (relation "measure (\<lambda>(sha, level). length level)") (auto simp: nextLevel_def)

declare reduceLevels.simps [simp del]

definition groupedRecursiveHash :: "hash_fun \<Rightarrow> nat \<Rightarrow> groupChild list \<Rightarrow> bytes" where
  "groupedRecursiveHash sha gd cs =
     (let leaves = foldl (\<lambda>leaves c. leaves[gc_slot c := gc_hash c]) (replicate (2 ^ gd) noHash) cs
      in reduceLevels sha leaves ! 0)"

section \<open>Hashing is a Merkle tree\<close>

fun merkle :: "hash_fun \<Rightarrow> nat \<Rightarrow> bytes list \<Rightarrow> bytes" where
  "merkle sha 0 xs = xs ! 0"
| "merkle sha (Suc n) xs = pairHash sha (merkle sha n (take (2 ^ n) xs)) (merkle sha n (drop (2 ^ n) xs))"

lemma length_nextLevel [simp]: "length (nextLevel sha xs) = length xs div 2"
  by (simp add: nextLevel_def)

lemma nextLevel_nth: "i < length xs div 2 \<Longrightarrow> nextLevel sha xs ! i = pairHash sha (xs ! (2 * i)) (xs ! (2 * i + 1))"
  by (simp add: nextLevel_def)

lemma nextLevel_take: "length xs = 2 * (2 * m) \<Longrightarrow> nextLevel sha (take (2 * m) xs) = take m (nextLevel sha xs)"
  by (rule nth_equalityI) (simp_all add: nextLevel_nth)

lemma nextLevel_drop: "length xs = 2 * (2 * m) \<Longrightarrow> nextLevel sha (drop (2 * m) xs) = drop m (nextLevel sha xs)"
  by (rule nth_equalityI) (simp_all add: nextLevel_nth distrib_left add.assoc)

lemma merkle_nextLevel: "length xs = 2 ^ Suc n \<Longrightarrow> merkle sha (Suc n) xs = merkle sha n (nextLevel sha xs)"
proof (induction n arbitrary: xs)
  case 0
  then show ?case by (simp add: nextLevel_nth)
next
  case (Suc n)
  let ?m = "2 ^ n :: nat"
  have len: "length xs = 2 * (2 * ?m)" using Suc.prems by simp
  have "merkle sha (Suc (Suc n)) xs =
      pairHash sha (merkle sha (Suc n) (take (2 * ?m) xs)) (merkle sha (Suc n) (drop (2 * ?m) xs))" by simp
  also have "\<dots> = pairHash sha (merkle sha n (take ?m (nextLevel sha xs))) (merkle sha n (drop ?m (nextLevel sha xs)))"
    using Suc.IH [of "take (2 * ?m) xs"] Suc.IH [of "drop (2 * ?m) xs"] len
    by (simp add: nextLevel_take nextLevel_drop del: merkle.simps)
  finally show ?case by simp
qed

lemma reduceLevels_merkle: "length xs = 2 ^ n \<Longrightarrow> reduceLevels sha xs ! 0 = merkle sha n xs"
proof (induction n arbitrary: xs)
  case 0
  then show ?case by (simp add: reduceLevels.simps)
next
  case (Suc n)
  have "(1 :: nat) < 2 ^ Suc n" by (rule one_less_power) simp_all
  then have "reduceLevels sha xs = reduceLevels sha (nextLevel sha xs)"
    using Suc.prems by (subst reduceLevels.simps) simp
  then show ?case using Suc.IH [of "nextLevel sha xs"] Suc.prems merkle_nextLevel [OF Suc.prems] by simp
qed

text \<open>The in-place level: every cell is written after it has been read.\<close>

lemma reduceLevel_eq:
  assumes "2 * count \<le> length data"
  shows "reduceLevel sha count data = nextLevel sha (take (2 * count) data) @ drop count data"
proof -
  have "fold (\<lambda>i data. data[i := pairHash sha (data ! (2 * i)) (data ! (2 * i + 1))]) [0..<k] data =
      take k (nextLevel sha (take (2 * count) data)) @ drop k data" if "k \<le> count" for k
    using that
  proof (induction k)
    case (Suc k)
    let ?d = "take k (nextLevel sha (take (2 * count) data)) @ drop k data"
    have k: "k < count" "k < length data" using Suc.prems assms by simp_all
    have r: "?d ! (2 * k) = data ! (2 * k)" "?d ! (2 * k + 1) = data ! (2 * k + 1)"
      using k assms by (simp_all add: nth_append mult_2)
    have "?d[k := x] = take k (nextLevel sha (take (2 * count) data)) @ x # drop (Suc k) data" for x
      using k assms by (simp add: list_update_append Cons_nth_drop_Suc [symmetric])
    moreover have "take (Suc k) (nextLevel sha (take (2 * count) data)) =
        take k (nextLevel sha (take (2 * count) data)) @ [pairHash sha (data ! (2 * k)) (data ! (2 * k + 1))]"
      using k assms by (simp add: take_Suc_conv_app_nth nextLevel_nth)
    ultimately show ?case using Suc r by simp
  qed simp
  from this [of count] show ?thesis using assms by (simp add: reduceLevel_def)
qed

lemma reduce_all:
  assumes "length data = 2 ^ n" "k \<le> n"
    and D: "\<And>j. D j = fold (\<lambda>level data. reduceLevel sha (2 ^ n div 2 ^ level) data) [1..<Suc j] data"
  shows "take (2 ^ (n - k)) (D k) = (nextLevel sha ^^ k) data \<and> length (D k) = 2 ^ n"
  using assms(2)
proof (induction k)
  case 0
  then show ?case using assms(1) by (simp add: D)
next
  case (Suc k)
  let ?c = "2 ^ (n - Suc k) :: nat"
  have IH: "take (2 ^ (n - k)) (D k) = (nextLevel sha ^^ k) data" "length (D k) = 2 ^ n" using Suc by simp_all
  have c: "(2 :: nat) ^ n div 2 ^ Suc k = ?c" using Suc.prems by (simp only: power_diff [symmetric])
  have cc: "2 * ?c = 2 ^ (n - k)" using Suc.prems by (simp flip: power_Suc add: Suc_diff_Suc)
  have le: "2 * ?c \<le> length (D k)" unfolding IH(2) cc by (rule power_increasing) simp_all
  have "D (Suc k) = reduceLevel sha ?c (D k)" unfolding D c [symmetric] by simp
  also have "\<dots> = (nextLevel sha ^^ Suc k) data @ drop ?c (D k)"
    unfolding reduceLevel_eq [OF le] cc IH(1) by simp
  finally have e: "D (Suc k) = (nextLevel sha ^^ Suc k) data @ drop ?c (D k)" .
  have l: "length ((nextLevel sha ^^ Suc k) data) = ?c"
    using arg_cong [OF IH(1), of length] le unfolding cc [symmetric] by simp
  then show ?case using le IH(2) unfolding e by simp
qed

lemma iterate_merkle: "length xs = 2 ^ (n + m) \<Longrightarrow> merkle sha (n + m) xs = merkle sha m ((nextLevel sha ^^ n) xs)"
proof (induction n arbitrary: xs)
  case (Suc n)
  then show ?case using merkle_nextLevel [of xs "n + m" sha] by (simp add: funpow_swap1 del: funpow.simps(2))
    (simp add: funpow_swap1)
qed simp

lemma reduce_to_root:
  assumes "length data = 2 ^ n"
  shows "fold (\<lambda>level data. reduceLevel sha (2 ^ n div 2 ^ level) data) [1..<Suc n] data ! 0 = merkle sha n data"
proof -
  let ?D = "\<lambda>k. fold (\<lambda>level data. reduceLevel sha (2 ^ n div 2 ^ level) data) [1..<Suc k] data"
  have "take (2 ^ (n - n)) (?D n) = (nextLevel sha ^^ n) data" "length (?D n) = 2 ^ n"
    using reduce_all [OF assms, of n ?D sha] by simp_all
  then have "?D n ! 0 = (nextLevel sha ^^ n) data ! 0" by (metis diff_self_eq_0 nth_take power_0 zero_less_one)
  also have "\<dots> = merkle sha n data" using iterate_merkle [of data n 0 sha] assms by simp
  finally show ?thesis .
qed

section \<open>The slots of a stem\<close>

definition stemSlots :: "hash_fun \<Rightarrow> trieEntry list \<Rightarrow> bytes list" where
  "stemSlots sha entries =
     map (\<lambda>i. case map_of (rev (map (\<lambda>e. (te_suffix e, sha (te_Value e))) entries)) i of None \<Rightarrow> noHash | Some h \<Rightarrow> h)
       [0..<stemNodeWidth]"

lemma te_suffix_less: "te_suffix e < stemNodeWidth"
  using unsigned_less [of "te_Key e ! stemSize", where 'a = nat] by (simp add: te_suffix_def stemNodeWidth_def)

lemma foldl_slots:
  "foldl (\<lambda>data e. data[te_suffix e := sha (te_Value e)]) (replicate stemNodeWidth noHash) entries = stemSlots sha entries"
proof (induction entries rule: rev_induct)
  case Nil
  then show ?case by (simp add: stemSlots_def map_replicate_const)
next
  case (snoc e entries)
  show ?case using te_suffix_less [of e]
    by (auto simp: snoc stemSlots_def nth_list_update intro!: nth_equalityI)
qed

lemma length_stemSlots [simp]: "length (stemSlots sha entries) = stemNodeWidth"
  by (simp add: stemSlots_def)

lemma reduce_slots:
  assumes "length data = stemNodeWidth"
  shows "fold (\<lambda>level data. reduceLevel sha (stemNodeWidth div 2 ^ level) data) [1..<9] data ! 0 = merkle sha 8 data"
proof -
  have w: "stemNodeWidth = 2 ^ 8" by (simp add: stemNodeWidth_def)
  have n: "[1..<9] = [1..<Suc 8]" by simp
  show ?thesis using reduce_to_root [of data 8 sha] assms unfolding w n by blast
qed

lemma stem_hash_merkle:
  "computeStemNodeHash sha stem entries = sha (take stemSize stem @ [0x00] @ merkle sha 8 (stemSlots sha entries))"
  unfolding computeStemNodeHash_def Let_def foldl_slots by (subst reduce_slots) simp_all

section \<open>Bitmaps\<close>

definition slotSet :: "bytes \<Rightarrow> nat \<Rightarrow> bool" where
  "slotSet bitmap i \<longleftrightarrow> bitmap ! (i div 8) AND push_bit (7 - i mod 8) 1 \<noteq> 0"

lemma slotSet_bit: "slotSet bitmap i \<longleftrightarrow> bit (bitmap ! (i div 8)) (7 - i mod 8)"
  by (auto simp: slotSet_def bit_iff_and_push_bit_not_eq_0)

lemma slotSet_setSlot:
  assumes "i < 8 * length bitmap"
  shows "slotSet (setSlot i bitmap) j \<longleftrightarrow> j = i \<or> slotSet bitmap j"
proof -
  have i: "i div 8 < length bitmap" using assms by simp
  have "bit (push_bit (7 - i mod 8) 1 :: byte) (7 - j mod 8) \<longleftrightarrow> i mod 8 = j mod 8"
    by (auto simp: push_bit_of_1 bit_exp_iff)
  moreover have "i = j \<longleftrightarrow> i div 8 = j div 8 \<and> i mod 8 = j mod 8" by (metis div_mult_mod_eq)
  ultimately show ?thesis using i
    by (cases "i div 8 = j div 8") (auto simp: slotSet_bit setSlot_def bit_or_iff)
qed

lemma length_setSlot [simp]: "length (setSlot i bitmap) = length bitmap"
  by (simp add: setSlot_def)

lemma length_setSlots [simp]: "length (foldl (\<lambda>bitmap e. setSlot (g e) bitmap) bitmap es) = length bitmap"
  by (induction es arbitrary: bitmap) simp_all

lemma slotSet_setSlots:
  assumes "\<And>e. e \<in> set es \<Longrightarrow> g e < 8 * n"  "j < 8 * n"
  shows "slotSet (foldl (\<lambda>bitmap e. setSlot (g e) bitmap) (replicate n 0) es) j \<longleftrightarrow> j \<in> g ` set es"
  using assms(1)
proof (induction es rule: rev_induct)
  case Nil
  have "j div 8 < n" using assms(2) by simp
  then show ?case by (simp add: slotSet_bit)
next
  case (snoc e es)
  then show ?case by (auto simp: slotSet_setSlot)
qed

lemma slotSet_suffix: "j < stemNodeWidth \<Longrightarrow> slotSet (suffixBitmap entries) j \<longleftrightarrow> j \<in> te_suffix ` set entries"
  unfolding suffixBitmap_def using te_suffix_less
  by (intro slotSet_setSlots) (simp_all add: stemNodeWidth_def hashSize_def)

lemma length_suffixBitmap [simp]: "length (suffixBitmap entries) = hashSize"
  by (simp add: suffixBitmap_def)

end
