(* ===== verification/Bin_Builder.thy ===== *)
theory Bin_Builder
  imports Bin_Node
begin

text \<open>
  The streaming builder of geth's binary trie, \<open>streamingBuilder\<close> of
  \<open>generator/binary_stack_trie.go\<close>, with its plain and its grouped mode.  The fixed-size arrays indexed
  by depth are functions, the index check of the run time is made where a depth can leave the range.
  A Go map is a partial function, the set of flushed paths a set.  Writing a node is a parameter that
  acts on a writer; \<open>None\<close> is the \<open>nil\<close> writer of the hash-only mode.  \<open>log.Fatalf\<close> is an error value.
\<close>

section \<open>Stems\<close>

definition maxDepth :: nat where "maxDepth = stemSize * 8"

definition stemBitAt :: "bytes \<Rightarrow> nat \<Rightarrow> byte" where
  "stemBitAt stem d = drop_bit (7 - d mod 8) (stem ! (d div 8)) AND 1"

definition makePath :: "bytes \<Rightarrow> nat \<Rightarrow> bytes" where
  "makePath stem d = map (stemBitAt stem) [0..<d]"

definition LeadingZeros8 :: "byte \<Rightarrow> nat" where
  "LeadingZeros8 x = length (takeWhile (\<lambda>i. \<not> bit x i) [7, 6, 5, 4, 3, 2, 1, 0])"

fun cplFrom :: "nat \<Rightarrow> bytes \<Rightarrow> bytes \<Rightarrow> nat" where
  "cplFrom i (x # a) (y # b) = (if x XOR y \<noteq> 0 then i * 8 + LeadingZeros8 (x XOR y) else cplFrom (Suc i) a b)"
| "cplFrom i a b = maxDepth"

definition commonPrefixLenBits :: "bytes \<Rightarrow> bytes \<Rightarrow> nat" where
  "commonPrefixLenBits a b = cplFrom 0 (take stemSize a) (take stemSize b)"

section \<open>State\<close>

datatype 'e bin_error = IndexPanic | WriteFatal 'e | NoRecordedStem nat | UnflushedChildren

type_synonym ('w, 'e) node_writer = "bytes \<Rightarrow> bytes \<Rightarrow> 'w \<Rightarrow> 'e + 'w"

record 'w binBuilder =
  bb_stack :: "nat \<Rightarrow> bytes"
  bb_occupied :: "nat \<Rightarrow> bool"
  bb_isRight :: "nat \<Rightarrow> bool"
  bb_stemBits :: "nat \<Rightarrow> bytes"
  bb_w :: "'w option"
  groupDepth :: nat
  groupBuf :: "nat \<rightharpoonup> (nat \<rightharpoonup> bytes)"
  groupBufSealed :: "nat \<rightharpoonup> nat set"
  groupStemAtBoundary :: "nat \<rightharpoonup> bytes"
  flushedPaths :: "bytes set"
  rootGroupHash :: "bytes option"
  hasPrev :: bool
  prevHash :: bytes
  prevStem :: bytes
  prevLeftCPL :: int
  prevEntries :: "trieEntry list"

definition newBinBuilder :: "nat \<Rightarrow> 'w option \<Rightarrow> 'w binBuilder" where
  "newBinBuilder gd w =
     \<lparr>bb_stack = (\<lambda>_. noHash), bb_occupied = (\<lambda>_. False), bb_isRight = (\<lambda>_. False),
      bb_stemBits = (\<lambda>_. replicate stemSize 0), bb_w = w, groupDepth = gd, groupBuf = (\<lambda>_. None),
      groupBufSealed = (\<lambda>_. None), groupStemAtBoundary = (\<lambda>_. None), flushedPaths = {}, rootGroupHash = None,
      hasPrev = False, prevHash = noHash, prevStem = replicate stemSize 0, prevLeftCPL = 0, prevEntries = []\<rparr>"

text \<open>\<open>sb.w.writeNode\<close>, which ends the process when the database fails.\<close>

definition bbWrite ::
  "('w, 'e) node_writer \<Rightarrow> bytes \<Rightarrow> bytes \<Rightarrow> 'w binBuilder \<Rightarrow> 'e bin_error + 'w binBuilder" where
  "bbWrite wr path blob b =
     (case bb_w b of
        None \<Rightarrow> Inr b
      | Some w \<Rightarrow> (case wr path blob w of
            Inl e \<Rightarrow> Inl (WriteFatal e)
          | Inr w \<Rightarrow> Inr (b\<lparr>bb_w := Some w\<rparr>)))"

definition bbWritePlain ::
  "('w, 'e) node_writer \<Rightarrow> bytes \<Rightarrow> bytes \<Rightarrow> 'w binBuilder \<Rightarrow> 'e bin_error + 'w binBuilder" where
  "bbWritePlain wr path blob b = (if bb_w b \<noteq> None \<and> groupDepth b = 0 then bbWrite wr path blob b else Inr b)"

section \<open>Groups\<close>

definition slotOf :: "bytes \<Rightarrow> nat \<Rightarrow> nat \<Rightarrow> nat" where
  "slotOf stem boundary gd = foldl (\<lambda>slot i. 2 * slot + unat (stemBitAt stem (boundary + i))) 0 [0..<gd]"

definition recordGroupChild :: "nat \<Rightarrow> bytes \<Rightarrow> bytes \<Rightarrow> 'w binBuilder \<Rightarrow> 'w binBuilder" where
  "recordGroupChild childDepth hash stem b =
     (if bb_w b = None then b
      else if childDepth < groupDepth b then b
      else
        let parentBoundary = childDepth - groupDepth b;
            slot = slotOf stem parentBoundary (groupDepth b)
        in if makePath stem parentBoundary \<in> flushedPaths b then b
           else if (case groupBufSealed b parentBoundary of None \<Rightarrow> False | Some sealed \<Rightarrow> slot \<in> sealed) then b
           else
             let bucket = (case groupBuf b parentBoundary of None \<Rightarrow> (\<lambda>_. None) | Some bucket \<Rightarrow> bucket)
             in b\<lparr>groupBuf := (groupBuf b)(parentBoundary \<mapsto> bucket(slot \<mapsto> hash)),
                  groupStemAtBoundary := (groupStemAtBoundary b)(parentBoundary \<mapsto> take stemSize stem)\<rparr>)"

text \<open>The bucket as a slice sorted by slot; its slots are below \<open>2 ^ groupDepth\<close>.\<close>

definition bucketChildren :: "nat \<Rightarrow> (nat \<rightharpoonup> bytes) \<Rightarrow> groupChild list" where
  "bucketChildren gd bucket =
     concat (map (\<lambda>slot. case bucket slot of None \<Rightarrow> [] | Some h \<Rightarrow> [\<lparr>gc_slot = slot, gc_hash = h\<rparr>]) [0..<2 ^ gd])"

definition writeGroupedNode ::
  "hash_fun \<Rightarrow> ('w, 'e) node_writer \<Rightarrow> nat \<Rightarrow> bytes \<Rightarrow> 'w binBuilder \<Rightarrow> 'e bin_error + bytes \<times> 'w binBuilder" where
  "writeGroupedNode sha wr boundary stem b =
     (let cs = (case groupBuf b boundary of None \<Rightarrow> [] | Some bucket \<Rightarrow> bucketChildren (groupDepth b) bucket) in
      if cs = [] then Inr (noHash, b)
      else
        let path = makePath stem boundary in
        bindE (bbWrite wr path (serializeGroupedInternalNode (groupDepth b) cs) b) (\<lambda>b.
        Inr (groupedRecursiveHash sha (groupDepth b) cs,
          b\<lparr>flushedPaths := insert path (flushedPaths b), groupBuf := (groupBuf b)(boundary := None),
            groupBufSealed := (groupBufSealed b)(boundary := None)\<rparr>)))"

definition flushBoundary ::
  "hash_fun \<Rightarrow> ('w, 'e) node_writer \<Rightarrow> nat \<Rightarrow> 'w binBuilder \<Rightarrow> 'e bin_error + 'w binBuilder" where
  "flushBoundary sha wr bd b =
     (let cs = (case groupBuf b bd of None \<Rightarrow> [] | Some bucket \<Rightarrow> bucketChildren (groupDepth b) bucket) in
      if cs = [] then Inr b
      else
        case groupStemAtBoundary b bd of
          None \<Rightarrow> Inl (NoRecordedStem bd)
        | Some stem \<Rightarrow>
            bindE (writeGroupedNode sha wr bd stem b) (\<lambda>(groupHash, b).
            let b = b\<lparr>groupStemAtBoundary := (groupStemAtBoundary b)(bd := None)\<rparr> in
            if bd = 0 then Inr (b\<lparr>rootGroupHash := Some groupHash\<rparr>)
            else
              let parentBoundary = bd - groupDepth b;
                  parentSlot = slotOf stem parentBoundary (groupDepth b);
                  bucket = (case groupBuf b parentBoundary of None \<Rightarrow> (\<lambda>_. None) | Some bucket \<Rightarrow> bucket);
                  sealed = (case groupBufSealed b parentBoundary of None \<Rightarrow> {} | Some sealed \<Rightarrow> sealed)
              in Inr (b\<lparr>groupBuf := (groupBuf b)(parentBoundary \<mapsto> bucket(parentSlot \<mapsto> groupHash)),
                   groupBufSealed := (groupBufSealed b)(parentBoundary \<mapsto> insert parentSlot sealed),
                   groupStemAtBoundary := (groupStemAtBoundary b)(parentBoundary \<mapsto> stem)\<rparr>)))"

definition flushCompletedGroupsAbove ::
  "hash_fun \<Rightarrow> ('w, 'e) node_writer \<Rightarrow> int \<Rightarrow> 'w binBuilder \<Rightarrow> 'e bin_error + 'w binBuilder" where
  "flushCompletedGroupsAbove sha wr completionDepth b =
     (if bb_w b = None \<or> groupDepth b = 0 then Inr b
      else
        let gd = groupDepth b in
        foldE (flushBoundary sha wr)
          (takeWhile (\<lambda>bd. \<not> int bd \<le> completionDepth) (map (\<lambda>i. i * gd) (rev [0..<Suc ((maxDepth - 1) div gd)]))) b)"

section \<open>Propagation\<close>

fun propagateUp ::
  "hash_fun \<Rightarrow> ('w, 'e) node_writer \<Rightarrow> bytes \<Rightarrow> nat \<Rightarrow> bytes \<Rightarrow> 'w binBuilder \<Rightarrow> 'e bin_error + 'w binBuilder" where
  "propagateUp sha wr hash 0 stem b = Inr (b\<lparr>bb_stack := (bb_stack b)(0 := hash)\<rparr>)"
| "propagateUp sha wr hash (Suc pd) stem b =
     (let b = (if groupDepth b > 0 \<and> Suc pd mod groupDepth b = 0 \<and> Suc pd \<ge> groupDepth b
               then recordGroupChild (Suc pd) hash stem b else b)
      in
      if bb_occupied b pd then
        let (left, right) = (if bb_isRight b pd then (hash, bb_stack b pd) else (bb_stack b pd, hash)) in
        bindE (bbWritePlain wr (makePath stem pd) (serializeInternalNode left right) b) (\<lambda>b.
        propagateUp sha wr (sha (left @ right)) pd stem (b\<lparr>bb_occupied := (bb_occupied b)(pd := False)\<rparr>))
      else if stemBitAt stem pd = 1 then
        bindE (bbWritePlain wr (makePath stem pd) (serializeInternalNode noHash hash) b) (\<lambda>b.
        propagateUp sha wr (sha (noHash @ hash)) pd stem b)
      else
        Inr (b\<lparr>bb_stack := (bb_stack b)(pd := hash), bb_occupied := (bb_occupied b)(pd := True),
          bb_isRight := (bb_isRight b)(pd := False), bb_stemBits := (bb_stemBits b)(pd := take stemSize stem)\<rparr>))"

definition unwindAt ::
  "hash_fun \<Rightarrow> ('w, 'e) node_writer \<Rightarrow> nat \<Rightarrow> 'w binBuilder \<Rightarrow> 'e bin_error + 'w binBuilder" where
  "unwindAt sha wr d b =
     (if \<not> bb_occupied b d then Inr b
      else
        let pending = bb_stack b d;
            (left, right) = (if bb_isRight b d then (noHash, pending) else (pending, noHash));
            stem = bb_stemBits b d
        in
        bindE (bbWritePlain wr (makePath stem d) (serializeInternalNode left right) b) (\<lambda>b.
        propagateUp sha wr (sha (left @ right)) d stem (b\<lparr>bb_occupied := (bb_occupied b)(d := False)\<rparr>)))"

definition unwindTo ::
  "hash_fun \<Rightarrow> ('w, 'e) node_writer \<Rightarrow> nat \<Rightarrow> 'w binBuilder \<Rightarrow> 'e bin_error + 'w binBuilder" where
  "unwindTo sha wr minDepth b = foldE (unwindAt sha wr) (rev [minDepth..<maxDepth]) b"

section \<open>Feeding stems\<close>

definition extDepth :: "nat \<Rightarrow> nat \<Rightarrow> nat" where
  "extDepth gd targetDepth =
     (if gd > 0 then
        let boundary = targetDepth div gd * gd in
        if targetDepth > boundary then boundary + gd else targetDepth
      else targetDepth)"

definition flushDeferred ::
  "hash_fun \<Rightarrow> ('w, 'e) node_writer \<Rightarrow> int \<Rightarrow> 'w binBuilder \<Rightarrow> 'e bin_error + 'w binBuilder" where
  "flushDeferred sha wr rightCPL b =
     (let targetDepth = nat (max (prevLeftCPL b) rightCPL + 1);
          targetDepth = extDepth (groupDepth b) targetDepth
      in
      bindE (unwindTo sha wr (nat (prevLeftCPL b + 1)) b) (\<lambda>b.
      if targetDepth > maxDepth then Inl IndexPanic
      else
        bindE (bbWrite wr (makePath (prevStem b) targetDepth) (serializeStemNode (prevStem b) (prevEntries b)) b) (\<lambda>b.
        propagateUp sha wr (prevHash b) targetDepth (prevStem b) b)))"

definition feedStem ::
  "hash_fun \<Rightarrow> ('w, 'e) node_writer \<Rightarrow> bytes \<Rightarrow> bytes \<Rightarrow> trieEntry list \<Rightarrow> 'w binBuilder \<Rightarrow> 'e bin_error + 'w binBuilder" where
  "feedStem sha wr stem hash entries b =
     (let rightCPL = (if hasPrev b then int (commonPrefixLenBits (prevStem b) stem) else - 1) in
      bindE (if hasPrev b then
          bindE (flushDeferred sha wr rightCPL b) (flushCompletedGroupsAbove sha wr rightCPL)
        else Inr b) (\<lambda>b.
      Inr (b\<lparr>hasPrev := True, prevHash := hash, prevStem := take stemSize stem, prevLeftCPL := rightCPL,
        prevEntries := (if bb_w b = None then [] else entries)\<rparr>)))"

definition bin_finish ::
  "hash_fun \<Rightarrow> ('w, 'e) node_writer \<Rightarrow> 'w binBuilder \<Rightarrow> 'e bin_error + bytes \<times> 'w binBuilder" where
  "bin_finish sha wr b =
     (if \<not> hasPrev b then Inr (noHash, b)
      else
        bindE (flushDeferred sha wr (- 1) b) (\<lambda>b.
        bindE (unwindTo sha wr 0 b) (\<lambda>b.
        bindE (flushCompletedGroupsAbove sha wr (- 1) b) (\<lambda>b.
        if bb_w b \<noteq> None \<and> groupDepth b > 0 then
          if list_ex (\<lambda>bd. case groupBuf b bd of None \<Rightarrow> False | Some bucket \<Rightarrow> bucketChildren (groupDepth b) bucket \<noteq> [])
            [0..<maxDepth]
          then Inl UnflushedChildren
          else (case rootGroupHash b of Some h \<Rightarrow> Inr (h, b) | None \<Rightarrow> Inr (bb_stack b 0, b))
        else Inr (bb_stack b 0, b)))))"

text \<open>The loop of \<open>computeBinaryRootStreamingFromSlice\<close> that groups consecutive entries by stem.\<close>

fun feedGroups ::
  "hash_fun \<Rightarrow> ('w, 'e) node_writer \<Rightarrow> bytes \<Rightarrow> trieEntry list \<Rightarrow> trieEntry list \<Rightarrow> 'w binBuilder \<Rightarrow> 'e bin_error + 'w binBuilder" where
  "feedGroups sha wr currentStem grp [] b =
     (if grp \<noteq> [] then feedStem sha wr currentStem (computeStemNodeHash sha currentStem grp) grp b else Inr b)"
| "feedGroups sha wr currentStem grp (e # es) b =
     (if take stemSize (te_Key e) \<noteq> currentStem then
        bindE (feedStem sha wr currentStem (computeStemNodeHash sha currentStem grp) grp b)
          (feedGroups sha wr (take stemSize (te_Key e)) [e] es)
      else feedGroups sha wr currentStem (grp @ [e]) es b)"

definition computeBinaryRootStreamingFromSlice ::
  "hash_fun \<Rightarrow> ('w, 'e) node_writer \<Rightarrow> trieEntry list \<Rightarrow> 'w option \<Rightarrow> nat \<Rightarrow> 'e bin_error + bytes \<times> 'w option" where
  "computeBinaryRootStreamingFromSlice sha wr entries w gd =
     (case entries of
        [] \<Rightarrow> Inr (noHash, w)
      | e # es \<Rightarrow>
          bindE (feedGroups sha wr (take stemSize (te_Key e)) [e] es (newBinBuilder gd w)) (\<lambda>b.
          bindE (bin_finish sha wr b) (\<lambda>(root, b). Inr (root, bb_w b))))"

end
