(* ===== verification/Bin_Ref.thy ===== *)
theory Bin_Ref
  imports Bin_Builder
begin

text \<open>
  The binary trie as a recursive definition, and the vocabulary its streaming builder is proved with:
  stems as bit strings, their order, and the subtree of a stem at each depth.
\<close>

section \<open>Stems as bit strings\<close>

definition sbit :: "bytes \<Rightarrow> nat \<Rightarrow> bool" where
  "sbit s d \<longleftrightarrow> stemBitAt s d = 1"

definition agrees :: "nat \<Rightarrow> bytes \<Rightarrow> bytes \<Rightarrow> bool" where
  "agrees d s t \<longleftrightarrow> (\<forall>i < d. sbit s i = sbit t i)"

definition before :: "bytes \<Rightarrow> bytes \<Rightarrow> bool" where
  "before s t \<longleftrightarrow> (\<exists>c < maxDepth. agrees c s t \<and> \<not> sbit s c \<and> sbit t c)"

lemma stemBitAt_bit: "stemBitAt s d = of_bool (bit (s ! (d div 8)) (7 - d mod 8))"
  by (simp add: stemBitAt_def and_one_eq bit_iff_odd_drop_bit odd_iff_mod_2_eq_one)

lemma sbit_iff: "sbit s d \<longleftrightarrow> bit (s ! (d div 8)) (7 - d mod 8)"
  by (simp add: sbit_def stemBitAt_bit)

lemma stemBitAt_sbit: "stemBitAt s d = of_bool (sbit s d)"
  by (simp add: stemBitAt_bit sbit_iff)

lemma agrees_refl [simp]: "agrees d s s"
  by (simp add: agrees_def)

lemma agrees_0 [simp]: "agrees 0 s t"
  by (simp add: agrees_def)

lemma agrees_sym: "agrees d s t \<Longrightarrow> agrees d t s"
  by (simp add: agrees_def)

lemma agrees_trans: "agrees d s t \<Longrightarrow> agrees d t u \<Longrightarrow> agrees d s u"
  by (simp add: agrees_def)

lemma agrees_mono: "agrees d s t \<Longrightarrow> c \<le> d \<Longrightarrow> agrees c s t"
  by (simp add: agrees_def)

lemma agrees_Suc: "agrees (Suc d) s t \<longleftrightarrow> agrees d s t \<and> sbit s d = sbit t d"
  by (auto simp: agrees_def less_Suc_eq)

lemma makePath_agrees: "agrees d s t \<Longrightarrow> makePath s d = makePath t d"
  by (simp add: makePath_def agrees_def stemBitAt_sbit)

lemma agrees_differ:
  assumes "agrees c s t" "sbit s c \<noteq> sbit t c"
  shows "agrees d s t \<longleftrightarrow> d \<le> c"
proof
  assume "agrees d s t"
  then show "d \<le> c" using assms(2) by (metis agrees_def not_le)
qed (use assms(1) agrees_mono in blast)

lemma before_asym: "before s t \<Longrightarrow> \<not> before t s"
proof
  assume "before s t" "before t s"
  then obtain c d where cd: "agrees c s t" "\<not> sbit s c" "sbit t c" "agrees d t s" "\<not> sbit t d" "sbit s d"
    by (auto simp: before_def)
  have "d \<le> c" using agrees_differ [of c s t d] cd agrees_sym [OF cd(4)] by simp
  moreover have "c \<le> d" using agrees_differ [of d t s c] cd agrees_sym [OF cd(1)] by simp
  ultimately show False using cd by simp
qed

lemma before_irrefl [simp]: "\<not> before s s"
  using before_asym by blast

text \<open>
  What comes before a stem shares with the next stem at most what the stem itself shares.
\<close>

lemma before_agrees:
  assumes "agrees c s t" "\<not> sbit s c" "sbit t c" "c < maxDepth" "e = s \<or> before e s"
  shows "agrees d e t \<longrightarrow> d \<le> c"
proof (rule ccontr)
  assume "\<not> (agrees d e t \<longrightarrow> d \<le> c)"
  then have "agrees (Suc c) e t" using agrees_mono [of d e t "Suc c"] by simp
  then have e: "agrees c e t" "sbit e c" using assms(3) by (simp_all add: agrees_Suc)
  then have "agrees c s e" using assms(1) agrees_sym agrees_trans by blast
  then have "before s e" using e(2) assms(2,4) by (auto simp: before_def)
  then show False using assms(2,5) e(2) before_asym by auto
qed

section \<open>The common prefix length\<close>

lemma byte_first_difference:
  fixes x y :: byte
  assumes "x \<noteq> y"
  shows "LeadingZeros8 (x XOR y) < 8"
    and "i < LeadingZeros8 (x XOR y) \<Longrightarrow> bit x (7 - i) = bit y (7 - i)"
    and "bit x (7 - LeadingZeros8 (x XOR y)) \<noteq> bit y (7 - LeadingZeros8 (x XOR y))"
proof -
  define P where "P i \<longleftrightarrow> \<not> bit (x XOR y) i" for i
  define l where "l = [7, 6, 5, 4, 3, 2, 1, 0 :: nat]"
  have lz: "LeadingZeros8 (x XOR y) = length (takeWhile P l)" by (simp only: LeadingZeros8_def P_def [abs_def] l_def)
  have n: "l ! i = 7 - i" if "i < 8" for i
    using that by (auto simp: l_def less_Suc_eq numeral_eq_Suc)
  obtain k where k: "k < 8" "\<not> P k"
  proof -
    have "\<exists>k < LENGTH(8). bit x k \<noteq> bit y k" using assms bit_word_eqI [of x y] by blast
    then show thesis using that by (auto simp: P_def bit_xor_iff)
  qed
  have "k \<in> set l" using k(1) by (auto simp: l_def less_Suc_eq numeral_eq_Suc)
  then have "dropWhile P l \<noteq> []" unfolding dropWhile_eq_Nil_conv using k(2) by blast
  moreover have "length (takeWhile P l) + length (dropWhile P l) = length l"
    by (metis length_append takeWhile_dropWhile_id)
  ultimately have lt: "length (takeWhile P l) < length l"
    by (metis add_eq_self_zero le_add1 le_neq_implies_less length_0_conv)
  then show z: "LeadingZeros8 (x XOR y) < 8" unfolding lz by (simp add: l_def del: takeWhile.simps)
  show "bit x (7 - i) = bit y (7 - i)" if i: "i < LeadingZeros8 (x XOR y)"
  proof -
    have "P (takeWhile P l ! i)" using i set_takeWhileD [of _ P l] nth_mem unfolding lz by blast
    then have "P (7 - i)" using i z n [of i] by (simp add: takeWhile_nth lz)
    then show ?thesis by (simp add: P_def bit_xor_iff)
  qed
  have "\<not> P (l ! length (takeWhile P l))" using lt by (rule nth_length_takeWhile)
  then show "bit x (7 - LeadingZeros8 (x XOR y)) \<noteq> bit y (7 - LeadingZeros8 (x XOR y))"
    using n [OF z] by (simp add: lz P_def bit_xor_iff)
qed

lemma byte_less_first_bit:
  fixes x y :: byte
  assumes "x < y" "\<And>i. i < z \<Longrightarrow> bit x (7 - i) = bit y (7 - i)" "z < 8" "bit x (7 - z) \<noteq> bit y (7 - z)"
  shows "\<not> bit x (7 - z)"
proof
  assume b: "bit x (7 - z)"
  then have nb: "\<not> bit y (7 - z)" using assms(4) by simp
  have "drop_bit (Suc (7 - z)) x = drop_bit (Suc (7 - z)) y"
  proof (rule bit_word_eqI)
    fix n
    assume "n < LENGTH(8)"
    show "bit (drop_bit (Suc (7 - z)) x) n = bit (drop_bit (Suc (7 - z)) y) n"
    proof (cases "Suc (7 - z) + n \<le> 7")
      case True
      then have "bit x (7 - (7 - (Suc (7 - z) + n))) = bit y (7 - (7 - (Suc (7 - z) + n)))"
        using assms(3) by (intro assms(2)) simp
      then show ?thesis using True by (simp add: bit_drop_bit_eq del: drop_bit_Suc)
    next
      case False
      then have "8 \<le> Suc (7 - z) + n" by simp
      then have "\<not> bit x (Suc (7 - z) + n)" "\<not> bit y (Suc (7 - z) + n)"
        using bit_imp_le_length [of x "Suc (7 - z) + n"] bit_imp_le_length [of y "Suc (7 - z) + n"] by (auto simp del: add_Suc)
      then show ?thesis by (simp add: bit_drop_bit_eq del: drop_bit_Suc add_Suc)
    qed
  qed
  then have d: "unat x div 2 ^ Suc (7 - z) = unat y div 2 ^ Suc (7 - z)"
    by (metis drop_bit_eq_div unsigned_drop_bit_eq drop_bit_nat_def unat_drop_bit_eq)
  have "bit (unat x) (7 - z)" "\<not> bit (unat y) (7 - z)" using b nb by (simp_all add: bit_unsigned_iff)
  then have "odd (unat x div 2 ^ (7 - z))" "even (unat y div 2 ^ (7 - z))" by (simp_all add: bit_iff_odd)
  moreover have "unat x div 2 ^ (7 - z) div 2 = unat y div 2 ^ (7 - z) div 2"
    using d by (simp add: div_mult2_eq [symmetric] mult.commute)
  ultimately have "unat y div 2 ^ (7 - z) < unat x div 2 ^ (7 - z)" by (metis even_two_times_div_two less_Suc_eq odd_two_times_div_two_succ Suc_eq_plus1)
  then have "unat y < unat x" by (metis div_le_mono not_le)
  then show False using assms(1) by (simp add: word_less_nat_alt)
qed

lemma cplFrom_split:
  "x \<noteq> y \<Longrightarrow> cplFrom i (pre @ x # a) (pre @ y # b) = (i + length pre) * 8 + LeadingZeros8 (x XOR y)"
proof (induction pre arbitrary: i)
  case Nil
  have "x XOR y \<noteq> 0" using Nil by (metis xor_self_eq xor.left_neutral xor.assoc xor.commute xor.right_neutral)
  then show ?case by simp
qed simp

lemma first_difference:
  "length a = length b \<Longrightarrow> a \<noteq> b \<Longrightarrow> \<exists>pre x y a' b'. a = pre @ x # a' \<and> b = pre @ y # b' \<and> x \<noteq> y"
proof (induction a b rule: list_induct2)
  case (Cons x a y b)
  show ?case
  proof (cases "x = y")
    case True
    then have "a \<noteq> b" using Cons.prems by simp
    from Cons.IH [OF this] obtain pre u v a' b' where "a = pre @ u # a'" "b = pre @ v # b'" "u \<noteq> v" by blast
    then show ?thesis using True by (intro exI [of _ "x # pre"]) auto
  qed (intro exI [of _ "[]"], auto)
qed simp

lemma bytesLess_split: "x \<noteq> y \<Longrightarrow> bytesLess (pre @ x # a) (pre @ y # b) \<longleftrightarrow> x < y"
  by (induction pre) (auto simp: bytesLess_Cons)

lemma commonPrefixLenBits_less:
  assumes "length a = stemSize" "length b = stemSize" "bytesLess a b"
  shows "commonPrefixLenBits a b < maxDepth" "agrees (commonPrefixLenBits a b) a b"
    "\<not> sbit a (commonPrefixLenBits a b)" "sbit b (commonPrefixLenBits a b)"
proof -
  have "a \<noteq> b" "length a = length b" using assms by auto
  from first_difference [OF this(2,1)] obtain pre x y a' b' where e: "a = pre @ x # a'" "b = pre @ y # b'" "x \<noteq> y"
    by blast
  let ?z = "LeadingZeros8 (x XOR y)" and ?n = "length pre"
  note z = byte_first_difference [OF e(3)]
  have c: "commonPrefixLenBits a b = ?n * 8 + ?z"
    using assms(1,2) e cplFrom_split [OF e(3), of 0 pre a' b'] by (simp add: commonPrefixLenBits_def)
  have n: "?n < stemSize" using assms(1) e(1) by simp
  then show "commonPrefixLenBits a b < maxDepth" using z(1) by (simp add: c maxDepth_def)
  have low: "sbit a d = sbit b d" if "d < ?n * 8 + ?z" for d
  proof (cases "d div 8 < ?n")
    case True
    then show ?thesis by (simp add: sbit_iff e nth_append)
  next
    case False
    then have d: "d div 8 = ?n" using that z(1) by simp
    then have "d mod 8 < ?z" using that div_mult_mod_eq [of d 8] by simp
    then show ?thesis using z(2) [of "d mod 8"] d by (simp add: sbit_iff e)
  qed
  then show "agrees (commonPrefixLenBits a b) a b" by (simp add: c agrees_def)
  have at: "sbit a (commonPrefixLenBits a b) = bit x (7 - ?z)" "sbit b (commonPrefixLenBits a b) = bit y (7 - ?z)"
    using z(1) unfolding sbit_iff c by (simp_all add: e)
  have "x < y" using assms(3) e(3) unfolding e(1,2) by (simp add: bytesLess_split)
  from byte_less_first_bit [OF this z(2) z(1) z(3)] show "\<not> sbit a (commonPrefixLenBits a b)" "sbit b (commonPrefixLenBits a b)"
    using z(3) at by simp_all
qed

lemma bytesLess_before:
  "length a = stemSize \<Longrightarrow> length b = stemSize \<Longrightarrow> bytesLess a b \<Longrightarrow> before a b"
  unfolding before_def using commonPrefixLenBits_less by blast

section \<open>The reference trie\<close>

text \<open>
  A leaf is a stem with the hash of its node and its entries.  Two leaves or more are split by the bit
  at the current depth; one leaf stands at the depth the group mode extends it to, which makes a chain
  of internal nodes with one empty side above it.
\<close>

type_synonym leaf = "bytes \<times> bytes \<times> trieEntry list"

abbreviation lows :: "nat \<Rightarrow> leaf list \<Rightarrow> leaf list" where
  "lows d es \<equiv> filter (\<lambda>e. \<not> sbit (fst e) d) es"

abbreviation highs :: "nat \<Rightarrow> leaf list \<Rightarrow> leaf list" where
  "highs d es \<equiv> filter (\<lambda>e. sbit (fst e) d) es"

fun liftHash :: "hash_fun \<Rightarrow> bytes \<Rightarrow> bytes \<Rightarrow> nat \<Rightarrow> nat \<Rightarrow> bytes" where
  "liftHash sha s h 0 d = h"
| "liftHash sha s h (Suc n) d =
     (if sbit s d then sha (noHash @ liftHash sha s h n (Suc d)) else sha (liftHash sha s h n (Suc d) @ noHash))"

function bref :: "hash_fun \<Rightarrow> nat \<Rightarrow> nat \<Rightarrow> leaf list \<Rightarrow> bytes" where
  "bref sha gd d es =
     (case es of
        [] \<Rightarrow> noHash
      | [(s, h, _)] \<Rightarrow> liftHash sha s h (extDepth gd d - d) d
      | _ \<Rightarrow> if d < maxDepth then sha (bref sha gd (Suc d) (lows d es) @ bref sha gd (Suc d) (highs d es)) else noHash)"
  by pat_completeness auto
termination
  by (relation "measure (\<lambda>(sha, gd, d, es). maxDepth - d)") auto

declare bref.simps [simp del]

text \<open>The nodes of the plain mode in the order in which they are complete.\<close>

function brows :: "hash_fun \<Rightarrow> nat \<Rightarrow> leaf list \<Rightarrow> (bytes \<times> bytes) list" where
  "brows sha d es =
     (case es of
        [] \<Rightarrow> []
      | [(s, h, entries)] \<Rightarrow> [(makePath s d, serializeStemNode s entries)]
      | (s, _) # _ \<Rightarrow>
          if d < maxDepth then
            brows sha (Suc d) (lows d es) @ brows sha (Suc d) (highs d es) @
            [(makePath s d, serializeInternalNode (bref sha 0 (Suc d) (lows d es)) (bref sha 0 (Suc d) (highs d es)))]
          else [])"
  by pat_completeness auto
termination
  by (relation "measure (\<lambda>(sha, d, es). maxDepth - d)") auto

declare brows.simps [simp del]

lemma bref_Nil [simp]: "bref sha gd d [] = noHash"
  by (simp add: bref.simps)

lemma brows_Nil [simp]: "brows sha d [] = []"
  by (simp add: brows.simps)

lemma extDepth_ge: "d \<le> extDepth gd d"
  using dividend_less_div_times [of gd d] by (auto simp: extDepth_def Let_def)

lemma extDepth_mult: "extDepth gd (k * gd) = k * gd"
  by (simp add: extDepth_def Let_def)

lemma extDepth_between:
  assumes "d \<le> p" "p \<le> extDepth gd d"
  shows "extDepth gd p = extDepth gd d"
proof (cases "gd = 0 \<or> d mod gd = 0")
  case True
  then have "extDepth gd d = d" by (auto simp: extDepth_def Let_def)
  then show ?thesis using assms by simp
next
  case False
  let ?b = "d div gd * gd"
  have b: "?b < d" using False mod_div_decomp [of d gd] by (metis less_add_same_cancel1 neq0_conv)
  then have e: "extDepth gd d = ?b + gd" using False by (simp add: extDepth_def Let_def)
  show ?thesis
  proof (cases "p = ?b + gd")
    case True
    then have "p = Suc (d div gd) * gd" by simp
    then show ?thesis using True extDepth_mult by (metis e)
  next
    case pf: False
    then have "p div gd = d div gd"
      using assms e b False by (intro div_nat_eqI) (simp_all add: mult.commute)
    then show ?thesis using assms(1) b False by (simp add: extDepth_def Let_def)
  qed
qed

lemma bref_single: "bref sha gd d [e] = liftHash sha (fst e) (fst (snd e)) (extDepth gd d - d) d"
  by (cases e) (simp add: bref.simps)

lemma bref_leaf: "extDepth gd d = d \<Longrightarrow> bref sha gd d [e] = fst (snd e)"
  by (simp add: bref_single)

text \<open>A subtree of two leaves, or of one that stands deeper, is the hash of its two halves.\<close>

lemma bref_step:
  assumes "d < maxDepth" "es \<noteq> []" "2 \<le> length es \<or> d < extDepth gd d"
  shows "bref sha gd d es = sha (bref sha gd (Suc d) (lows d es) @ bref sha gd (Suc d) (highs d es))"
proof (cases "2 \<le> length es")
  case True
  then obtain a b r where "es = a # b # r" by (metis Suc_le_length_iff numeral_2_eq_2)
  then show ?thesis using assms(1) by (subst bref.simps) (simp split: prod.splits)
next
  case False
  then obtain e where e: "es = [e]" using assms(2) by (cases es) (auto simp: Suc_le_eq)
  have d: "d < extDepth gd d" using False assms(3) by simp
  then have "extDepth gd (Suc d) = extDepth gd d" by (intro extDepth_between) simp_all
  moreover obtain n where "extDepth gd d - d = Suc n" "extDepth gd d - Suc d = n"
    using d by (metis Suc_diff_Suc)
  ultimately show ?thesis by (simp add: e bref_single)
qed

lemma brows_step:
  assumes "d < maxDepth" "2 \<le> length es"
  shows "brows sha d es = brows sha (Suc d) (lows d es) @ brows sha (Suc d) (highs d es) @
    [(makePath (fst (hd es)) d, serializeInternalNode (bref sha 0 (Suc d) (lows d es)) (bref sha 0 (Suc d) (highs d es)))]"
proof -
  obtain a b r where "es = a # b # r" using assms(2) by (metis Suc_le_length_iff numeral_2_eq_2)
  then show ?thesis using assms(1) by (subst brows.simps) (simp split: prod.splits)
qed

lemma brows_single: "brows sha d [e] = [(makePath (fst e) d, serializeStemNode (fst e) (snd (snd e)))]"
  by (cases e) (simp add: brows.simps)

section \<open>The subtree of a stem\<close>

definition sub :: "nat \<Rightarrow> bytes \<Rightarrow> leaf list \<Rightarrow> leaf list" where
  "sub d s es = filter (\<lambda>e. agrees d (fst e) s) es"

lemma sub_0 [simp]: "sub 0 s es = es"
  by (simp add: sub_def)

lemma lows_sub: "\<not> sbit s d \<Longrightarrow> lows d (sub d s es) = sub (Suc d) s es"
  by (auto simp: sub_def agrees_Suc intro!: filter_cong)

lemma highs_sub: "sbit s d \<Longrightarrow> highs d (sub d s es) = sub (Suc d) s es"
  by (auto simp: sub_def agrees_Suc intro!: filter_cong)

lemma sub_agrees: "agrees d s t \<Longrightarrow> sub d s es = sub d t es"
  unfolding sub_def by (rule filter_cong) (auto dest: agrees_trans agrees_sym)

lemma extDepth_le:
  assumes "d \<le> maxDepth" "gd = 0 \<or> maxDepth mod gd = 0"
  shows "extDepth gd d \<le> maxDepth"
proof (cases "gd = 0 \<or> d mod gd = 0")
  case True
  then show ?thesis using assms(1) by (auto simp: extDepth_def Let_def)
next
  case False
  obtain k where k: "maxDepth = k * gd" using assms(2) False by (metis dvd_def mod_0_imp_dvd mult.commute)
  have "d < k * gd" using assms(1) False k by (metis le_neq_implies_less mod_mult_self2_is_0)
  then have "d div gd < k" using False by (simp add: less_mult_imp_div_less)
  then have "Suc (d div gd) * gd \<le> k * gd" by (intro mult_le_mono1) simp
  then show ?thesis using False k assms(1) by (auto simp: extDepth_def Let_def)
qed

end
