(* ===== verification/Bin_Stream.thy ===== *)
theory Bin_Stream
  imports Bin_Ref
begin

text \<open>
  The streaming builder computes the reference trie.  Between two stems the stack holds the completed
  left siblings along the path of the current stem; climbing from a complete subtree consumes them
  until it reaches a depth where the stem is the left child.
\<close>

section \<open>Invariants\<close>

text \<open>
  Left siblings of the path of \<open>s\<close> above depth \<open>d\<close>; \<open>rest\<close> collects the rows of what they hold, shallow
  first, which is the order of their stems.
\<close>

definition lefts :: "nat \<Rightarrow> bytes \<Rightarrow> leaf list \<Rightarrow> leaf list" where
  "lefts p s es = lows p (sub p s es)"

definition left_rows :: "hash_fun \<Rightarrow> nat \<Rightarrow> bytes \<Rightarrow> leaf list \<Rightarrow> (bytes \<times> bytes) list" where
  "left_rows sha d s es = concat (map (\<lambda>p. if sbit s p then brows sha (Suc p) (lefts p s es) else []) [0..<d])"

definition holds_lefts :: "hash_fun \<Rightarrow> nat \<Rightarrow> bytes \<Rightarrow> leaf list \<Rightarrow> 'w binBuilder \<Rightarrow> bool" where
  "holds_lefts sha d s es b \<longleftrightarrow>
     (\<forall>p < d. bb_occupied b p \<longleftrightarrow> sbit s p \<and> lefts p s es \<noteq> []) \<and>
     (\<forall>p < d. bb_occupied b p \<longrightarrow> bb_stack b p = bref sha (groupDepth b) (Suc p) (lefts p s es)) \<and>
     (\<forall>p. \<not> bb_isRight b p)"

definition empty_from :: "nat \<Rightarrow> 'w binBuilder \<Rightarrow> bool" where
  "empty_from d b \<longleftrightarrow> (\<forall>p. d \<le> p \<longrightarrow> p < maxDepth \<longrightarrow> \<not> bb_occupied b p)"

definition put_rows :: "(bytes \<Rightarrow> bytes \<Rightarrow> 'w \<Rightarrow> 'w) \<Rightarrow> (bytes \<times> bytes) list \<Rightarrow> 'w \<Rightarrow> 'w" where
  "put_rows f rs w = fold (\<lambda>(path, blob) w. f path blob w) rs w"

lemma put_rows_simps [simp]:
  "put_rows f [] w = w" "put_rows f ((p, x) # rs) w = put_rows f rs (f p x w)"
  "put_rows f (rs @ rs') w = put_rows f rs' (put_rows f rs w)"
  by (simp_all add: put_rows_def)

text \<open>What has been written, in the plain mode.\<close>

definition logged :: "(bytes \<Rightarrow> bytes \<Rightarrow> 'w \<Rightarrow> 'w) \<Rightarrow> 'w option \<Rightarrow> (bytes \<times> bytes) list \<Rightarrow> 'w binBuilder \<Rightarrow> bool" where
  "logged f w0 rs b \<longleftrightarrow> (groupDepth b = 0 \<longrightarrow> bb_w b = map_option (put_rows f rs) w0) \<and> (bb_w b = None \<longleftrightarrow> w0 = None)"

text \<open>A subtree of \<open>s\<close> waits at depth \<open>q\<close> as the left child; or the root is complete.\<close>

definition waits :: "hash_fun \<Rightarrow> (bytes \<Rightarrow> bytes \<Rightarrow> 'w \<Rightarrow> 'w) \<Rightarrow> 'w option \<Rightarrow> nat \<Rightarrow> bytes \<Rightarrow> leaf list \<Rightarrow> 'w binBuilder \<Rightarrow> bool" where
  "waits sha f w0 q s es b \<longleftrightarrow> q < maxDepth \<and> \<not> sbit s q \<and> bb_occupied b q \<and>
     bb_stack b q = bref sha (groupDepth b) (Suc q) (sub (Suc q) s es) \<and> bb_stemBits b q = s \<and>
     holds_lefts sha q s es b \<and> empty_from (Suc q) b \<and>
     logged f w0 (left_rows sha q s es @ brows sha (Suc q) (sub (Suc q) s es)) b"

definition rooted :: "hash_fun \<Rightarrow> (bytes \<Rightarrow> bytes \<Rightarrow> 'w \<Rightarrow> 'w) \<Rightarrow> 'w option \<Rightarrow> leaf list \<Rightarrow> 'w binBuilder \<Rightarrow> bool" where
  "rooted sha f w0 es b \<longleftrightarrow> bb_stack b 0 = bref sha (groupDepth b) 0 es \<and> empty_from 0 b \<and>
     (\<forall>p. \<not> bb_isRight b p) \<and> logged f w0 (brows sha 0 es) b"

text \<open>
  Fields that propagation does not touch, and a property \<open>K\<close> of the group buffers that it keeps in the
  grouped mode.  \<open>K\<close> may read the buffers and the writer; it has to survive the recording of every
  complete subtree on the path of \<open>s\<close> between the depths \<open>lo\<close> and \<open>n\<close>.
\<close>

definition same_feed :: "('w binBuilder \<Rightarrow> bool) \<Rightarrow> 'w binBuilder \<Rightarrow> 'w binBuilder \<Rightarrow> bool" where
  "same_feed K b b' \<longleftrightarrow> groupDepth b' = groupDepth b \<and> hasPrev b' = hasPrev b \<and> prevHash b' = prevHash b \<and>
     prevStem b' = prevStem b \<and> prevLeftCPL b' = prevLeftCPL b \<and> prevEntries b' = prevEntries b \<and>
     (0 < groupDepth b \<longrightarrow> K b \<longrightarrow> K b')"

lemma same_feed_refl [simp]: "same_feed K b b"
  by (simp add: same_feed_def)

lemma same_feed_trans: "same_feed K a b \<Longrightarrow> same_feed K b c \<Longrightarrow> same_feed K a c"
  by (simp add: same_feed_def)

definition groups_eq :: "'w binBuilder \<Rightarrow> 'w binBuilder \<Rightarrow> bool" where
  "groups_eq b b' \<longleftrightarrow> groupDepth b' = groupDepth b \<and> bb_w b' = bb_w b \<and> groupBuf b' = groupBuf b \<and>
     groupBufSealed b' = groupBufSealed b \<and> groupStemAtBoundary b' = groupStemAtBoundary b \<and>
     flushedPaths b' = flushedPaths b \<and> rootGroupHash b' = rootGroupHash b"

definition kept :: "hash_fun \<Rightarrow> nat \<Rightarrow> nat \<Rightarrow> bytes \<Rightarrow> leaf list \<Rightarrow> ('w binBuilder \<Rightarrow> bool) \<Rightarrow> bool" where
  "kept sha lo n s es K \<longleftrightarrow> (\<forall>b b'. K b \<longrightarrow> groups_eq b b' \<longrightarrow> K b') \<and>
     (\<forall>b d. K b \<longrightarrow> 0 < groupDepth b \<longrightarrow> lo \<le> d \<longrightarrow> d \<le> n \<longrightarrow> d mod groupDepth b = 0 \<longrightarrow> groupDepth b \<le> d \<longrightarrow>
        K (recordGroupChild d (bref sha (groupDepth b) d (sub d s es)) s b))"

lemma kept_True [simp]: "kept sha lo n s es (\<lambda>_. True)"
  by (simp add: kept_def)

lemma kept_mono: "kept sha lo n s es K \<Longrightarrow> m \<le> n \<Longrightarrow> kept sha lo m s es K"
  unfolding kept_def by (meson order_trans)

lemma kept_eq: "kept sha lo n s es K \<Longrightarrow> K b \<Longrightarrow> groups_eq b b' \<Longrightarrow> K b'"
  unfolding kept_def by blast

lemma left_rows_Suc: "left_rows sha (Suc d) s es = left_rows sha d s es @ (if sbit s d then brows sha (Suc d) (lefts d s es) else [])"
  by (simp add: left_rows_def)

section \<open>Climbing\<close>

abbreviation writes :: "(bytes \<Rightarrow> bytes \<Rightarrow> 'w \<Rightarrow> 'w) \<Rightarrow> ('w, 'e) node_writer" where
  "writes f \<equiv> \<lambda>path blob w. Inr (f path blob w)"

lemma write_plain:
  "\<exists>w. bbWritePlain (writes f) path blob b = Inr (b\<lparr>bb_w := w\<rparr>) \<and>
    (w = None \<longleftrightarrow> bb_w b = None) \<and> (groupDepth b = 0 \<longrightarrow> w = map_option (f path blob) (bb_w b)) \<and>
    (0 < groupDepth b \<longrightarrow> w = bb_w b)"
proof (cases "bb_w b \<noteq> None \<and> groupDepth b = 0")
  case True
  then show ?thesis by (auto simp: bbWritePlain_def bbWrite_def)
next
  case False
  then have "bbWritePlain (writes f) path blob b = Inr (b\<lparr>bb_w := bb_w b\<rparr>)" by (auto simp: bbWritePlain_def)
  then show ?thesis using False by (intro exI [of _ "bb_w b"]) auto
qed

lemma same_groups: "\<exists>gb gs. b = b\<lparr>groupBuf := gb, groupStemAtBoundary := gs\<rparr>"
  by (intro exI [of _ "groupBuf b"] exI [of _ "groupStemAtBoundary b"]) simp

lemma record_fields:
  "\<exists>gb gs. recordGroupChild d h s b = b\<lparr>groupBuf := gb, groupStemAtBoundary := gs\<rparr>"
  using same_groups [of b] unfolding recordGroupChild_def Let_def by (auto split: if_splits)

text \<open>One internal node on the path of \<open>s\<close>, whose left half has no leaf or is on the stack.\<close>

lemma path_node:
  assumes "p < maxDepth" "sub p s es \<noteq> []" "2 \<le> length (sub p s es) \<or> p < extDepth gd p"
  shows "bref sha gd p (sub p s es) = sha (bref sha gd (Suc p) (lefts p s es) @ bref sha gd (Suc p) (highs p (sub p s es)))"
    and "gd = 0 \<Longrightarrow> brows sha p (sub p s es) = brows sha (Suc p) (lefts p s es) @ brows sha (Suc p) (highs p (sub p s es)) @
      [(makePath s p, serializeInternalNode (bref sha 0 (Suc p) (lefts p s es)) (bref sha 0 (Suc p) (highs p (sub p s es))))]"
proof -
  show "bref sha gd p (sub p s es) = sha (bref sha gd (Suc p) (lefts p s es) @ bref sha gd (Suc p) (highs p (sub p s es)))"
    unfolding lefts_def using assms by (rule bref_step)
  assume "gd = 0"
  then have "2 \<le> length (sub p s es)" using assms(3) by (simp add: extDepth_def)
  moreover have "hd (sub p s es) \<in> set (sub p s es)" using assms(2) by simp
  then have "makePath (fst (hd (sub p s es))) p = makePath s p" by (intro makePath_agrees) (simp add: sub_def)
  ultimately show "brows sha p (sub p s es) = brows sha (Suc p) (lefts p s es) @ brows sha (Suc p) (highs p (sub p s es)) @
      [(makePath s p, serializeInternalNode (bref sha 0 (Suc p) (lefts p s es)) (bref sha 0 (Suc p) (highs p (sub p s es))))]"
    using brows_step [OF assms(1), of "sub p s es" sha] by (simp add: lefts_def)
qed

lemma sub_ne: "s \<in> fst ` set es \<Longrightarrow> sub d s es \<noteq> []"
  by (force simp: sub_def filter_empty_conv)

lemma climb:
  fixes f :: "bytes \<Rightarrow> bytes \<Rightarrow> 'w \<Rightarrow> 'w"
  assumes "d \<le> maxDepth" "lo \<le> d" "lo = 0 \<or> \<not> sbit s (lo - 1)" "s \<in> fst ` set es" "length s = stemSize"
    and "\<forall>p. lo \<le> p \<longrightarrow> p < d \<longrightarrow> 2 \<le> length (sub p s es) \<or> p < extDepth (groupDepth b) p"
    and "v = bref sha (groupDepth b) d (sub d s es)"
    and "holds_lefts sha d s es b" "empty_from d b" "logged f w0 (left_rows sha d s es @ brows sha d (sub d s es)) b"
    and "kept sha lo d s es K"
  shows "\<exists>b'. propagateUp sha (writes f :: ('w, 'e) node_writer) v d s b = Inr b' \<and> same_feed K b b' \<and>
    ((\<exists>q < d. lo \<le> Suc q \<and> waits sha f w0 q s es b') \<or> lo = 0 \<and> rooted sha f w0 es b')"
  using assms(1,2,6-11)
proof (induction d arbitrary: v b)
  case 0
  have "K (b\<lparr>bb_stack := x\<rparr>)" if "K b" for x
    using kept_eq [OF 0(8) that] by (simp add: groups_eq_def)
  then show ?case using 0
    by (auto simp: rooted_def same_feed_def empty_from_def holds_lefts_def left_rows_def logged_def)
next
  case (Suc pd)
  let ?gd = "groupDepth b" and ?wr = "writes f :: ('w, 'e) node_writer"
  define b1 where "b1 = (if ?gd > 0 \<and> Suc pd mod ?gd = 0 \<and> Suc pd \<ge> ?gd then recordGroupChild (Suc pd) v s b else b)"
  have "b1 = recordGroupChild (Suc pd) v s b \<or> b1 = b" by (simp add: b1_def)
  then have "\<exists>gb gs. b1 = b\<lparr>groupBuf := gb, groupStemAtBoundary := gs\<rparr>"
    using record_fields [of "Suc pd" v s b] same_groups [of b] by (elim disjE) (simp_all only:)
  then obtain gb gs where b1: "b1 = b\<lparr>groupBuf := gb, groupStemAtBoundary := gs\<rparr>" by blast
  have f: "bb_stack b1 = bb_stack b" "bb_occupied b1 = bb_occupied b" "bb_isRight b1 = bb_isRight b" "bb_w b1 = bb_w b"
      "groupDepth b1 = ?gd"
    by (simp_all add: b1)
  have "0 < ?gd \<longrightarrow> K b \<longrightarrow> K b1"
    using Suc.prems(2,4,8) by (auto simp: b1_def kept_def)
  then have fK: "same_feed K b b1" by (simp add: b1 same_feed_def)
  have nR: "\<not> bb_isRight b p" for p using Suc.prems(5) by (simp add: holds_lefts_def)
  have pd: "pd < maxDepth" using Suc.prems(1) by simp
  show ?case
  proof (cases "sbit s pd")
    case True
    then have lo: "lo \<le> pd" using assms(3) Suc.prems(2) by (cases "lo = Suc pd") auto
    have two: "2 \<le> length (sub pd s es) \<or> pd < extDepth ?gd pd" using Suc.prems(3) lo by simp
    note node = path_node [OF pd sub_ne [OF assms(4)] two, of sha, unfolded highs_sub [OF True]]
    define left where "left = bref sha ?gd (Suc pd) (lefts pd s es)"
    have v: "sha (left @ v) = bref sha ?gd pd (sub pd s es)" using node(1) Suc.prems(4) by (simp add: left_def)
    have occ: "bb_occupied b pd \<longleftrightarrow> lefts pd s es \<noteq> []" "bb_occupied b pd \<Longrightarrow> bb_stack b pd = left"
      using Suc.prems(5) True by (simp_all add: holds_lefts_def left_def)
    obtain w where
      w: "bbWritePlain ?wr (makePath s pd) (serializeInternalNode left v) b1 = Inr (b1\<lparr>bb_w := w\<rparr>)"
        "w = None \<longleftrightarrow> bb_w b1 = None" "groupDepth b1 = 0 \<longrightarrow> w = map_option (f (makePath s pd) (serializeInternalNode left v)) (bb_w b1)"
        "0 < groupDepth b1 \<longrightarrow> w = bb_w b1"
      using write_plain [of f "makePath s pd" "serializeInternalNode left v" b1] by (elim exE conjE)
    define b3 where "b3 = b1\<lparr>bb_w := w, bb_occupied := (bb_occupied b1)(pd := False)\<rparr>"
    have g: "bb_stack b3 = bb_stack b" "bb_occupied b3 = (bb_occupied b)(pd := False)" "bb_isRight b3 = bb_isRight b"
        "groupDepth b3 = ?gd" "bb_w b3 = w"
      using f by (simp_all add: b3_def)
    have "0 < ?gd \<longrightarrow> groups_eq b1 b3" using w(4) f(5) by (simp add: b3_def groups_eq_def)
    then have "same_feed K b1 b3" using kept_eq [OF Suc.prems(8)] f(5) by (auto simp: same_feed_def b3_def)
    with fK have gK: "same_feed K b b3" by (rule same_feed_trans)
    have run: "propagateUp sha ?wr v (Suc pd) s b = propagateUp sha ?wr (sha (left @ v)) pd s b3"
    proof (cases "bb_occupied b pd")
      case oc: True
      then show ?thesis
        using w(1) f nR occ(2) by (simp add: b1_def [symmetric] Let_def b3_def)
    next
      case False
      then have l: "left = noHash" using occ(1) by (simp add: left_def)
      have "b3 = b1\<lparr>bb_w := w\<rparr>" using False f(2) by (simp add: b3_def fun_upd_idem)
      then show ?thesis
        using False w(1) f True by (simp add: b1_def [symmetric] Let_def l sbit_def)
    qed
    have "logged f w0 (left_rows sha pd s es @ brows sha pd (sub pd s es)) b3"
      using Suc.prems(7) w(2,3) f(4,5) node(2) True Suc.prems(4)
      by (cases w0) (auto simp: logged_def g left_rows_Suc left_def)
    moreover have "holds_lefts sha pd s es b3"
      using Suc.prems(5) by (simp add: holds_lefts_def g)
    moreover have "empty_from pd b3"
      using Suc.prems(6) by (auto simp: empty_from_def g)
    ultimately show ?thesis
      using Suc.IH [of b3 "sha (left @ v)"] pd lo Suc.prems(3) v g(4) gK kept_mono [OF Suc.prems(8), of pd] unfolding run
      by (auto 4 3 dest: same_feed_trans intro: less_SucI)
  next
    case False
    then have occ: "\<not> bb_occupied b pd" using Suc.prems(5) by (simp add: holds_lefts_def)
    have z: "stemBitAt s pd \<noteq> 1" using False by (simp add: sbit_def)
    define b4 where "b4 = b1\<lparr>bb_stack := (bb_stack b1)(pd := v), bb_occupied := (bb_occupied b1)(pd := True),
      bb_isRight := (bb_isRight b1)(pd := False), bb_stemBits := (bb_stemBits b1)(pd := take stemSize s)\<rparr>"
    have "propagateUp sha ?wr v (Suc pd) s b = Inr b4"
      using occ z f(2) by (simp add: b1_def [symmetric] Let_def b4_def)
    moreover have "waits sha f w0 pd s es b4"
      using Suc.prems(4-7) False f assms(5) pd nR
      by (auto simp: waits_def b4_def holds_lefts_def empty_from_def logged_def left_rows_Suc)
    moreover have "same_feed K b1 b4"
      using kept_eq [OF Suc.prems(8), of b1 b4] by (simp add: b4_def same_feed_def groups_eq_def)
    then have "same_feed K b b4" using same_feed_trans [OF fK] by blast
    ultimately show ?thesis using Suc.prems(2) by blast
  qed
qed

section \<open>Unwinding\<close>

text \<open>No leaf comes after \<open>s\<close>.\<close>

definition topmost :: "bytes \<Rightarrow> leaf list \<Rightarrow> bool" where
  "topmost s es \<longleftrightarrow> s \<in> fst ` set es \<and> (\<forall>e \<in> set es. fst e = s \<or> before (fst e) s)"

lemma topmost_highs:
  assumes "topmost s es" "\<not> sbit s q" "q < maxDepth"
  shows "highs q (sub q s es) = []"
proof -
  have False if e: "e \<in> set es" "agrees q (fst e) s" "sbit (fst e) q" for e
  proof -
    have "before s (fst e)" using e assms(2,3) agrees_sym by (auto simp: before_def)
    then show False using assms(1,2) e before_asym by (auto simp: topmost_def)
  qed
  then show ?thesis by (auto simp: sub_def filter_empty_conv)
qed

lemma unwind_one:
  fixes f :: "bytes \<Rightarrow> bytes \<Rightarrow> 'w \<Rightarrow> 'w"
  assumes "waits sha f w0 q s es b" "lo \<le> q" "lo = 0 \<or> \<not> sbit s (lo - 1)" "topmost s es" "length s = stemSize"
    and "\<forall>p. lo \<le> p \<longrightarrow> p < Suc q \<longrightarrow> 2 \<le> length (sub p s es) \<or> p < extDepth (groupDepth b) p"
    and "kept sha lo q s es K"
  shows "\<exists>b'. unwindAt sha (writes f :: ('w, 'e) node_writer) q b = Inr b' \<and> same_feed K b b' \<and>
    ((\<exists>q' < q. lo \<le> Suc q' \<and> waits sha f w0 q' s es b') \<or> lo = 0 \<and> rooted sha f w0 es b')"
proof -
  let ?gd = "groupDepth b" and ?wr = "writes f :: ('w, 'e) node_writer"
  have w: "q < maxDepth" "\<not> sbit s q" "bb_occupied b q" "bb_stack b q = bref sha ?gd (Suc q) (sub (Suc q) s es)"
      "bb_stemBits b q = s" "holds_lefts sha q s es b" "empty_from (Suc q) b"
      "logged f w0 (left_rows sha q s es @ brows sha (Suc q) (sub (Suc q) s es)) b" "\<not> bb_isRight b q"
    using assms(1) by (simp_all add: waits_def holds_lefts_def)
  have s: "s \<in> fst ` set es" using assms(4) by (simp add: topmost_def)
  have two: "2 \<le> length (sub q s es) \<or> q < extDepth ?gd q" using assms(2,6) by simp
  have l: "lefts q s es = sub (Suc q) s es" using w(2) by (simp add: lefts_def lows_sub)
  note node = path_node [OF w(1) sub_ne [OF s] two, of sha, unfolded topmost_highs [OF assms(4) w(2,1)] l]
  define left where "left = bb_stack b q"
  have v: "sha (left @ noHash) = bref sha ?gd q (sub q s es)" using node(1) w(4) by (simp add: left_def)
  obtain w' where
    w': "bbWritePlain ?wr (makePath s q) (serializeInternalNode left noHash) b = Inr (b\<lparr>bb_w := w'\<rparr>)"
      "w' = None \<longleftrightarrow> bb_w b = None" "groupDepth b = 0 \<longrightarrow> w' = map_option (f (makePath s q) (serializeInternalNode left noHash)) (bb_w b)"
      "0 < groupDepth b \<longrightarrow> w' = bb_w b"
    using write_plain [of f "makePath s q" "serializeInternalNode left noHash" b] by (elim exE conjE)
  define b3 where "b3 = b\<lparr>bb_w := w', bb_occupied := (bb_occupied b)(q := False)\<rparr>"
  have run: "unwindAt sha ?wr q b = propagateUp sha ?wr (sha (left @ noHash)) q s b3"
    using w' w(3,5,9) by (simp add: unwindAt_def Let_def left_def b3_def)
  have "logged f w0 (left_rows sha q s es @ brows sha q (sub q s es)) b3"
    using w(8) w'(2,3) node(2) w(4) by (cases w0) (auto simp: logged_def b3_def left_def)
  moreover have "holds_lefts sha q s es b3" using w(6) by (simp add: holds_lefts_def b3_def)
  moreover have "empty_from q b3" using w(7) by (auto simp: empty_from_def b3_def)
  moreover have g: "groupDepth b3 = ?gd" by (simp add: b3_def)
  have "0 < ?gd \<longrightarrow> groups_eq b b3" using w'(4) by (simp add: b3_def groups_eq_def)
  then have gK: "same_feed K b b3" using kept_eq [OF assms(7)] by (auto simp: same_feed_def b3_def)
  ultimately have "\<exists>b'. propagateUp sha ?wr (sha (left @ noHash)) q s b3 = Inr b' \<and> same_feed K b3 b' \<and>
      ((\<exists>q' < q. lo \<le> Suc q' \<and> waits sha f w0 q' s es b') \<or> lo = 0 \<and> rooted sha f w0 es b')"
    using w(1) assms(2,3,5,6,7) s v g by (intro climb) auto
  then show ?thesis unfolding run using gK same_feed_trans by blast
qed

text \<open>Unwinding down to \<open>lo\<close> leaves the subtree waiting right above, or completes the root.\<close>

lemma unwind_all:
  fixes f :: "bytes \<Rightarrow> bytes \<Rightarrow> 'w \<Rightarrow> 'w"
  assumes "n \<le> maxDepth" "lo = 0 \<or> \<not> sbit s (lo - 1)" "topmost s es" "length s = stemSize"
    and "\<forall>p. lo \<le> p \<longrightarrow> p < n \<longrightarrow> 2 \<le> length (sub p s es) \<or> p < extDepth (groupDepth b) p"
    and "(\<exists>q < n. lo \<le> Suc q \<and> waits sha f w0 q s es b) \<or> lo = 0 \<and> rooted sha f w0 es b"
    and "kept sha lo n s es K"
  shows "\<exists>b'. foldE (unwindAt sha (writes f :: ('w, 'e) node_writer)) (rev [lo..<n]) b = Inr b' \<and> same_feed K b b' \<and>
    (if lo = 0 then rooted sha f w0 es b' else waits sha f w0 (lo - 1) s es b')"
  using assms(1,5-7)
proof (induction n arbitrary: b)
  case 0
  then show ?case by auto
next
  case (Suc n)
  let ?wr = "writes f :: ('w, 'e) node_writer"
  show ?case
  proof (cases "lo \<le> n")
    case False
    then have "\<exists>q < Suc n. lo \<le> Suc q \<and> waits sha f w0 q s es b" using Suc.prems(3) by auto
    moreover have "lo = Suc n" if "q < Suc n" "lo \<le> Suc q" for q using that False by simp
    moreover have "q = n" if "q < Suc n" "lo \<le> Suc q" for q using that False by simp
    ultimately have "lo = Suc n" "waits sha f w0 n s es b" by blast+
    then show ?thesis by simp
  next
    case True
    then have l: "rev [lo..<Suc n] = n # rev [lo..<n]" by simp
    have "\<exists>b1. unwindAt sha ?wr n b = Inr b1 \<and> same_feed K b b1 \<and>
        ((\<exists>q < n. lo \<le> Suc q \<and> waits sha f w0 q s es b1) \<or> lo = 0 \<and> rooted sha f w0 es b1)"
    proof (cases "waits sha f w0 n s es b")
      case True
      then show ?thesis using \<open>lo \<le> n\<close> assms(2-4) Suc.prems(2) kept_mono [OF Suc.prems(4), of n] by (intro unwind_one) auto
    next
      case False
      then have st: "(\<exists>q < n. lo \<le> Suc q \<and> waits sha f w0 q s es b) \<or> lo = 0 \<and> rooted sha f w0 es b"
        using Suc.prems(3) less_Suc_eq by auto
      then have "\<not> bb_occupied b n"
        using Suc.prems(1) by (auto simp: waits_def rooted_def empty_from_def)
      then have "unwindAt sha ?wr n b = Inr b" by (simp add: unwindAt_def)
      then show ?thesis using st by auto
    qed
    then obtain b1 where b1: "unwindAt sha ?wr n b = Inr b1" "same_feed K b b1"
        "(\<exists>q < n. lo \<le> Suc q \<and> waits sha f w0 q s es b1) \<or> lo = 0 \<and> rooted sha f w0 es b1" by blast
    have "groupDepth b1 = groupDepth b" using b1(2) by (simp add: same_feed_def)
    then have "\<exists>b'. foldE (unwindAt sha ?wr) (rev [lo..<n]) b1 = Inr b' \<and> same_feed K b1 b' \<and>
        (if lo = 0 then rooted sha f w0 es b' else waits sha f w0 (lo - 1) s es b')"
      using Suc.prems(1,2) b1(3) kept_mono [OF Suc.prems(4), of n] by (intro Suc.IH) auto
    then show ?thesis using b1(1,2) same_feed_trans unfolding l by fastforce
  qed
qed

lemma unwind_idle:
  fixes b :: "'w binBuilder"
  assumes "\<forall>p. n \<le> p \<longrightarrow> p < m \<longrightarrow> \<not> bb_occupied b p"
  shows "foldE (unwindAt sha wr) (rev [n..<m]) b = Inr b"
  using assms by (induction m) (auto simp: unwindAt_def)

lemma unwindTo_all:
  fixes f :: "bytes \<Rightarrow> bytes \<Rightarrow> 'w \<Rightarrow> 'w"
  assumes "n \<le> maxDepth" "lo = 0 \<or> \<not> sbit s (lo - 1)" "topmost s es" "length s = stemSize"
    and "\<forall>p. lo \<le> p \<longrightarrow> p < n \<longrightarrow> 2 \<le> length (sub p s es) \<or> p < extDepth (groupDepth b) p"
    and "(\<exists>q < n. lo \<le> Suc q \<and> waits sha f w0 q s es b) \<or> lo = 0 \<and> rooted sha f w0 es b"
    and "kept sha lo n s es K"
  shows "\<exists>b'. unwindTo sha (writes f :: ('w, 'e) node_writer) lo b = Inr b' \<and> same_feed K b b' \<and>
    (if lo = 0 then rooted sha f w0 es b' else waits sha f w0 (lo - 1) s es b')"
proof -
  let ?wr = "writes f :: ('w, 'e) node_writer"
  have idle: "foldE (unwindAt sha ?wr) (rev [max lo n..<maxDepth]) b = Inr b"
    using assms(6) by (intro unwind_idle) (auto simp: waits_def rooted_def empty_from_def)
  have "[lo..<maxDepth] = [lo..<n] @ [max lo n..<maxDepth]"
  proof (cases "lo \<le> n")
    case True
    then show ?thesis using assms(1) upt_add_eq_append [of lo n "maxDepth - n"] by simp
  next
    case False
    then show ?thesis by simp
  qed
  then have "unwindTo sha ?wr lo b = foldE (unwindAt sha ?wr) (rev [lo..<n]) b"
    by (simp add: unwindTo_def foldE_append idle)
  then show ?thesis using unwind_all [OF assms] by simp
qed

section \<open>Between two stems\<close>

definition bin_wf :: "leaf list \<Rightarrow> bool" where
  "bin_wf es \<longleftrightarrow> (\<forall>e \<in> set es. length (fst e) = stemSize) \<and> sorted_wrt bytesLess (map fst es)"

definition splitting :: "nat \<Rightarrow> nat \<Rightarrow> nat \<Rightarrow> bytes \<Rightarrow> leaf list \<Rightarrow> bool" where
  "splitting gd lo n s es \<longleftrightarrow> (\<forall>p. lo \<le> p \<longrightarrow> p < n \<longrightarrow> 2 \<le> length (sub p s es) \<or> p < extDepth gd p)"

text \<open>The common prefix length with the stem before, \<open>-1\<close> for the first.\<close>

definition leftCPL :: "leaf list \<Rightarrow> bytes \<Rightarrow> int" where
  "leftCPL es s = (if es = [] then - 1 else int (commonPrefixLenBits (fst (last es)) s))"

definition settled :: "hash_fun \<Rightarrow> (bytes \<Rightarrow> bytes \<Rightarrow> 'w \<Rightarrow> 'w) \<Rightarrow> 'w option \<Rightarrow> leaf list \<Rightarrow> nat \<Rightarrow> 'w binBuilder \<Rightarrow> bool" where
  "settled sha f w0 es lo b \<longleftrightarrow>
     (if es = [] then empty_from 0 b \<and> (\<forall>p. \<not> bb_isRight b p) \<and> logged f w0 [] b
      else \<exists>n \<le> maxDepth. splitting (groupDepth b) lo n (fst (last es)) es \<and>
        ((\<exists>q < n. lo \<le> Suc q \<and> waits sha f w0 q (fst (last es)) es b) \<or> lo = 0 \<and> rooted sha f w0 es b))"

definition deferred :: "hash_fun \<Rightarrow> (bytes \<Rightarrow> bytes \<Rightarrow> 'w \<Rightarrow> 'w) \<Rightarrow> 'w option \<Rightarrow> leaf list \<Rightarrow> leaf \<Rightarrow> 'w binBuilder \<Rightarrow> bool" where
  "deferred sha f w0 es e b \<longleftrightarrow> hasPrev b \<and> prevStem b = fst e \<and> prevHash b = fst (snd e) \<and>
     prevEntries b = (if w0 = None then [] else snd (snd e)) \<and> prevLeftCPL b = leftCPL es (fst e) \<and>
     settled sha f w0 es (nat (leftCPL es (fst e) + 1)) b"

lemma bin_wf_before: "bin_wf es \<Longrightarrow> sorted_wrt before (map fst es)"
  unfolding bin_wf_def by (elim conjE, rule sorted_wrt_mono_rel [of _ bytesLess]) (auto intro: bytesLess_before)

lemma bin_wf_topmost:
  assumes "bin_wf es" "es \<noteq> []"
  shows "topmost (fst (last es)) es" "length (fst (last es)) = stemSize"
proof -
  obtain xs x where "es = xs @ [x]" using assms(2) by (cases es rule: rev_cases) auto
  then show "topmost (fst (last es)) es" "length (fst (last es)) = stemSize"
    using bin_wf_before [OF assms(1)] assms(1) by (auto simp: topmost_def sorted_wrt_append bin_wf_def)
qed

lemma bin_wf_snoc:
  assumes "bin_wf (es @ [e])" "es \<noteq> []" "c = commonPrefixLenBits (fst (last es)) (fst e)"
  shows "bin_wf es" "c < maxDepth" "agrees c (fst (last es)) (fst e)" "\<not> sbit (fst (last es)) c" "sbit (fst e) c"
    and "leaf \<in> set es \<Longrightarrow> agrees d (fst leaf) (fst e) \<Longrightarrow> d \<le> c"
proof -
  show wf: "bin_wf es" using assms(1) by (simp add: bin_wf_def sorted_wrt_append)
  have "bytesLess (fst (last es)) (fst e)" "length (fst (last es)) = stemSize" "length (fst e) = stemSize"
    using assms(1,2) by (auto simp: bin_wf_def sorted_wrt_append)
  then show c: "c < maxDepth" "agrees c (fst (last es)) (fst e)" "\<not> sbit (fst (last es)) c" "sbit (fst e) c"
    using commonPrefixLenBits_less assms(3) by simp_all
  assume "leaf \<in> set es" "agrees d (fst leaf) (fst e)"
  then show "d \<le> c"
    using before_agrees [OF c(2,3,4,1), of "fst leaf" d] bin_wf_topmost(1) [OF wf assms(2)] by (auto simp: topmost_def)
qed

lemma lefts_snoc: "sbit s p \<Longrightarrow> fst e = s \<Longrightarrow> lefts p s (es @ [e]) = lefts p s es"
  by (simp add: lefts_def sub_def)

lemma lefts_above:
  assumes "bin_wf (es @ [e])" "leftCPL es (fst e) < int p"
  shows "lefts p (fst e) es = []" "sub p (fst e) es = []"
proof -
  show "sub p (fst e) es = []"
  proof (cases "es = []")
    case False
    then show ?thesis
      using bin_wf_snoc(6) [OF assms(1) False refl, of _ p] assms(2) by (fastforce simp: sub_def filter_empty_conv leftCPL_def)
  qed (simp add: sub_def)
  then show "lefts p (fst e) es = []" by (simp add: lefts_def)
qed

definition primed ::
  "hash_fun \<Rightarrow> (bytes \<Rightarrow> bytes \<Rightarrow> 'w \<Rightarrow> 'w) \<Rightarrow> 'w option \<Rightarrow> nat \<Rightarrow> bytes \<Rightarrow> leaf list \<Rightarrow> 'w binBuilder \<Rightarrow> bool" where
  "primed sha f w0 lo s es b \<longleftrightarrow> (\<forall>d. lo \<le> d \<longrightarrow> d \<le> maxDepth \<longrightarrow>
     holds_lefts sha d s es b \<and> empty_from d b \<and> logged f w0 (left_rows sha d s es) b)"

lemma left_rows_cong:
  assumes "agrees d s t"
  shows "left_rows sha d s es = left_rows sha d t es"
proof -
  have "sbit s p = sbit t p" "lefts p s es = lefts p t es" if "p < d" for p
    using assms that agrees_mono [OF assms, of p] sub_agrees [of p s t es] by (auto simp: agrees_def lefts_def)
  then show ?thesis unfolding left_rows_def by (intro arg_cong [where f = concat] map_cong) auto
qed

lemma left_rows_extend:
  assumes "\<And>p. lo \<le> p \<Longrightarrow> sbit s p \<Longrightarrow> lefts p s es = []" "lo \<le> d"
  shows "left_rows sha d s es = left_rows sha lo s es"
  using assms(2) by (induction d rule: dec_induct) (simp_all add: left_rows_Suc assms(1))

lemma left_rows_snoc: "fst e = s \<Longrightarrow> left_rows sha d s (es @ [e]) = left_rows sha d s es"
  unfolding left_rows_def by (intro arg_cong [where f = concat] map_cong) (auto simp: lefts_snoc)

text \<open>
  What waits for the last stem is, for the next stem, its left sibling at the depth where they part.
\<close>

lemma waits_primed:
  assumes "bin_wf (es @ [e])" "es \<noteq> []" "c = commonPrefixLenBits (fst (last es)) (fst e)"
    "waits sha f w0 c (fst (last es)) es b"
  shows "primed sha f w0 (Suc c) (fst e) (es @ [e]) b"
  unfolding primed_def
proof (intro allI impI conjI)
  fix d
  assume d: "Suc c \<le> d" "d \<le> maxDepth"
  let ?s = "fst e" and ?t = "fst (last es)" and ?es = "es @ [e]"
  note wf = bin_wf_snoc [OF assms(1-3)]
  note w = assms(4) [unfolded waits_def]
  have low: "sbit ?s p = sbit ?t p" "lefts p ?s es = lefts p ?t es" if "p < c" for p
    using that wf(3) agrees_mono [OF wf(3), of p] sub_agrees [of p ?t ?s es] by (auto simp: agrees_def lefts_def)
  have at: "lefts c ?s es = sub (Suc c) ?t es"
    using sub_agrees [OF wf(3)] lows_sub [OF wf(4)] by (simp add: lefts_def)
  have ne: "sub (Suc c) ?t es \<noteq> []" by (rule sub_ne) (use assms(2) in simp)
  have high: "lefts p ?s es = []" "\<not> (p < maxDepth \<and> bb_occupied b p)" if "c < p" for p
    using lefts_above(1) [OF assms(1), of p] that assms(2,3) w by (auto simp: leftCPL_def empty_from_def)
  have split: "p < c \<or> p = c \<or> c < p \<and> p < maxDepth" if "p < d" for p using that d(2) by linarith
  have "(bb_occupied b p \<longleftrightarrow> sbit ?s p \<and> lefts p ?s ?es \<noteq> []) \<and>
      (bb_occupied b p \<longrightarrow> bb_stack b p = bref sha (groupDepth b) (Suc p) (lefts p ?s ?es))" if "p < d" for p
  proof -
    have l: "lefts p ?s ?es = lefts p ?s es" if "sbit ?s p" using that by (rule lefts_snoc) simp
    from split [OF that] show ?thesis
    proof (elim disjE)
      assume "p < c"
      then show ?thesis using low [of p] l w by (cases "sbit ?s p") (auto simp: holds_lefts_def)
    next
      assume "p = c"
      then show ?thesis using at ne l w wf(5) by simp
    next
      assume "c < p \<and> p < maxDepth"
      then show ?thesis using high [of p] l by (cases "sbit ?s p") auto
    qed
  qed
  then show "holds_lefts sha d ?s ?es b" using w by (simp add: holds_lefts_def)
  show "empty_from d b" using high(2) d(1) by (simp add: empty_from_def)
  have "left_rows sha d ?s ?es = left_rows sha (Suc c) ?s es"
    using left_rows_extend [OF high(1) d(1)] left_rows_snoc [of e ?s] by simp
  then show "logged f w0 (left_rows sha d ?s ?es) b"
    using w wf(5) at left_rows_cong [OF wf(3), of sha es] by (simp add: left_rows_Suc)
qed

lemma empty_primed:
  assumes "empty_from 0 b" "\<forall>p. \<not> bb_isRight b p" "logged f w0 [] b"
  shows "primed sha f w0 0 (fst e) [e] b"
  unfolding primed_def
proof (intro allI impI conjI)
  fix d
  assume d: "0 \<le> d" "d \<le> maxDepth"
  have l: "lefts p (fst e) [e] = []" if "sbit (fst e) p" for p
    using that by (simp add: lefts_def sub_def)
  then show "holds_lefts sha d (fst e) [e] b"
    using assms(1,2) d(2) by (simp add: holds_lefts_def empty_from_def)
  show "empty_from d b" using assms(1) by (simp add: empty_from_def)
  have "left_rows sha 0 (fst e) [e] = []" by (simp add: left_rows_def)
  then show "logged f w0 (left_rows sha d (fst e) [e]) b"
    using left_rows_extend [of 0 "fst e" "[e]" d sha] l assms(3) by simp
qed

lemma sub_last:
  assumes "bin_wf (es @ [e])" "leftCPL es (fst e) < int p"
  shows "sub p (fst e) (es @ [e]) = [e]"
  using lefts_above(2) [OF assms] by (simp add: sub_def)

lemma sub_pair:
  assumes "bin_wf (es @ [e])" "int p \<le> leftCPL es (fst e)"
  shows "2 \<le> length (sub p (fst e) (es @ [e]))"
proof -
  have ne: "es \<noteq> []" using assms(2) by (auto simp: leftCPL_def)
  then obtain xs x where x: "es = xs @ [x]" by (cases es rule: rev_cases) auto
  have "agrees p (fst x) (fst e)"
    using bin_wf_snoc(3) [OF assms(1) ne refl] agrees_mono assms(2) ne x by (fastforce simp: leftCPL_def)
  then show ?thesis by (simp add: x sub_def)
qed

lemma leftCPL_range: "bin_wf (es @ [e]) \<Longrightarrow> - 1 \<le> leftCPL es (fst e) \<and> leftCPL es (fst e) < int maxDepth"
  using bin_wf_snoc(2) [of es e] by (auto simp: leftCPL_def maxDepth_def stemSize_def)

lemma extDepth_idem: "extDepth gd (extDepth gd d) = extDepth gd d"
  by (rule extDepth_between) (simp_all add: extDepth_ge)

lemma settled_primed:
  fixes f :: "bytes \<Rightarrow> bytes \<Rightarrow> 'w \<Rightarrow> 'w"
  assumes "bin_wf (es @ [e])" "lo = nat (leftCPL es (fst e) + 1)" "settled sha f w0 es lo b"
    and "es \<noteq> [] \<Longrightarrow> \<forall>n \<le> maxDepth. splitting (groupDepth b) lo n (fst (last es)) es \<longrightarrow> kept sha lo n (fst (last es)) es K"
  shows "\<exists>b'. unwindTo sha (writes f :: ('w, 'e) node_writer) lo b = Inr b' \<and> same_feed K b b' \<and>
    primed sha f w0 lo (fst e) (es @ [e]) b'"
proof (cases "es = []")
  case True
  then have b: "lo = 0" "empty_from 0 b" "\<forall>p. \<not> bb_isRight b p" "logged f w0 [] b"
    using assms(2,3) by (simp_all add: leftCPL_def settled_def)
  then have "unwindTo sha (writes f :: ('w, 'e) node_writer) lo b = Inr b"
    unfolding unwindTo_def by (intro unwind_idle) (simp add: empty_from_def)
  then show ?thesis using empty_primed [OF b(2-4)] True b(1) by simp
next
  case False
  let ?s = "fst (last es)" and ?c = "commonPrefixLenBits (fst (last es)) (fst e)"
  have lo: "lo = Suc ?c" using False assms(2) by (simp add: leftCPL_def)
  note wf = bin_wf_snoc [OF assms(1) False refl]
  have "\<exists>n \<le> maxDepth. splitting (groupDepth b) lo n ?s es \<and>
      ((\<exists>q < n. lo \<le> Suc q \<and> waits sha f w0 q ?s es b) \<or> lo = 0 \<and> rooted sha f w0 es b)"
    using assms(3) False by (simp add: settled_def)
  then obtain n where n: "n \<le> maxDepth" "splitting (groupDepth b) lo n ?s es"
      "(\<exists>q < n. lo \<le> Suc q \<and> waits sha f w0 q ?s es b) \<or> lo = 0 \<and> rooted sha f w0 es b"
    by (elim exE conjE)
  have "kept sha lo n ?s es K" using assms(4) [OF False] n(1,2) by blast
  then have "\<exists>b'. unwindTo sha (writes f :: ('w, 'e) node_writer) lo b = Inr b' \<and> same_feed K b b' \<and>
      (if lo = 0 then rooted sha f w0 es b' else waits sha f w0 (lo - 1) ?s es b')"
    using n(1) _ bin_wf_topmost [OF wf(1) False] n(2) [unfolded splitting_def] n(3)
    by (intro unwindTo_all) (simp_all add: lo wf(4))
  then show ?thesis using waits_primed [OF assms(1) False refl] by (auto simp: lo)
qed

lemma record_twice: "recordGroupChild d h s (recordGroupChild d h s b) = recordGroupChild d h s b"
  by (simp add: recordGroupChild_def Let_def split: option.split)

text \<open>The first step of a climb records its own value.\<close>

lemma climb_records:
  assumes "0 < d" "0 < groupDepth b" "d mod groupDepth b = 0" "groupDepth b \<le> d"
  shows "propagateUp sha wr v d s (recordGroupChild d v s b) = propagateUp sha wr v d s b"
proof -
  obtain pd where d: "d = Suc pd" using assms(1) by (cases d) auto
  obtain gb gs where "recordGroupChild d v s b = b\<lparr>groupBuf := gb, groupStemAtBoundary := gs\<rparr>"
    using record_fields [of d v s b] by blast
  then have "groupDepth (recordGroupChild d v s b) = groupDepth b" by simp
  then show ?thesis using assms record_twice [of "Suc pd" v s b] unfolding d propagateUp.simps Let_def by simp
qed

text \<open>
  Flushing a stem: its left siblings are complete, its node goes to its depth and the climb starts there.
  \<open>K1\<close> and \<open>K2\<close> are what the grouped mode keeps while it unwinds and while it climbs.
\<close>

definition placeDepth :: "nat \<Rightarrow> leaf list \<Rightarrow> leaf \<Rightarrow> int \<Rightarrow> nat" where
  "placeDepth gd es e r = extDepth gd (nat (max (leftCPL es (fst e)) r + 1))"

definition placed :: "(bytes \<Rightarrow> bytes \<Rightarrow> 'w \<Rightarrow> 'w) \<Rightarrow> nat \<Rightarrow> leaf \<Rightarrow> 'w binBuilder \<Rightarrow> 'w binBuilder" where
  "placed f td e b =
     (let b = b\<lparr>bb_w := map_option (f (makePath (fst e) td) (serializeStemNode (fst e) (snd (snd e)))) (bb_w b)\<rparr>
      in if 0 < groupDepth b \<and> 0 < td then recordGroupChild td (fst (snd e)) (fst e) b else b)"

lemma placed_fields:
  "bb_stack (placed f td e b) = bb_stack b \<and> bb_occupied (placed f td e b) = bb_occupied b \<and>
   bb_isRight (placed f td e b) = bb_isRight b \<and> groupDepth (placed f td e b) = groupDepth b \<and>
   bb_w (placed f td e b) = map_option (f (makePath (fst e) td) (serializeStemNode (fst e) (snd (snd e)))) (bb_w b) \<and>
   same_feed (\<lambda>_. True) b (placed f td e b)"
proof -
  let ?b = "b\<lparr>bb_w := map_option (f (makePath (fst e) td) (serializeStemNode (fst e) (snd (snd e)))) (bb_w b)\<rparr>"
  obtain gb gs where r: "recordGroupChild td (fst (snd e)) (fst e) ?b = ?b\<lparr>groupBuf := gb, groupStemAtBoundary := gs\<rparr>"
    using record_fields [of td "fst (snd e)" "fst e" ?b] by blast
  show ?thesis unfolding placed_def Let_def r by (simp add: same_feed_def)
qed

lemma extDepth_multiple: "gd > 0 \<Longrightarrow> extDepth gd d mod gd = 0 \<and> (extDepth gd d = 0 \<or> gd \<le> extDepth gd d)"
  using minus_div_mult_eq_mod [of d gd] by (auto simp: extDepth_def Let_def)

lemma split_depth:
  assumes "bin_wf (es @ [e])" "- 1 \<le> r" "nat (r + 1) \<le> q" "q < placeDepth gd es e r"
  shows "2 \<le> length (sub q (fst e) (es @ [e])) \<or> q < extDepth gd q"
proof (cases "int q \<le> leftCPL es (fst e)")
  case True
  then show ?thesis using sub_pair [OF assms(1)] by simp
next
  case False
  let ?m = "nat (max (leftCPL es (fst e)) r + 1)"
  have "?m \<le> q" using assms(2,3) False leftCPL_range [OF assms(1)] by auto
  then have "extDepth gd q = placeDepth gd es e r"
    using extDepth_between [of ?m q gd] assms(4) by (simp add: placeDepth_def)
  then show ?thesis using assms(4) by simp
qed

lemma flush_deferred:
  fixes f :: "bytes \<Rightarrow> bytes \<Rightarrow> 'w \<Rightarrow> 'w"
  assumes "bin_wf (es @ [e])" "deferred sha f w0 es e b" "groupDepth b = 0 \<or> maxDepth mod groupDepth b = 0"
    and "- 1 \<le> r" "r < int maxDepth" "r = - 1 \<or> \<not> sbit (fst e) (nat r)"
    and K1: "es \<noteq> [] \<Longrightarrow> \<forall>n \<le> maxDepth. splitting (groupDepth b) (nat (leftCPL es (fst e) + 1)) n (fst (last es)) es \<longrightarrow>
      kept sha (nat (leftCPL es (fst e) + 1)) n (fst (last es)) es K1"
    and K12: "\<forall>b1. 0 < groupDepth b \<longrightarrow> groupDepth b1 = groupDepth b \<longrightarrow> K1 b1 \<longrightarrow> K2 (placed f (placeDepth (groupDepth b) es e r) e b1)"
    and K2: "kept sha (nat (r + 1)) (placeDepth (groupDepth b) es e r) (fst e) (es @ [e]) K2"
  shows "\<exists>b'. flushDeferred sha (writes f :: ('w, 'e) node_writer) r b = Inr b' \<and> same_feed (\<lambda>_. True) b b' \<and>
    (0 < groupDepth b \<longrightarrow> K1 b \<longrightarrow> K2 b') \<and> settled sha f w0 (es @ [e]) (nat (r + 1)) b'"
proof -
  let ?wr = "writes f :: ('w, 'e) node_writer" and ?s = "fst e" and ?es = "es @ [e]" and ?gd = "groupDepth b"
  define l where "l = leftCPL es ?s"
  define lo where "lo = nat (l + 1)"
  define m where "m = nat (max l r + 1)"
  define td where "td = extDepth ?gd m"
  have tde: "placeDepth ?gd es e r = td" by (simp add: placeDepth_def td_def m_def l_def)
  define lo' where "lo' = nat (r + 1)"
  have lr: "- 1 \<le> l" "l < int maxDepth" using leftCPL_range [OF assms(1)] by (simp_all add: l_def)
  have m: "lo \<le> m" "lo' \<le> m" "m \<le> maxDepth" using assms(4,5) lr by (auto simp: lo_def m_def lo'_def)
  have td: "m \<le> td" "td \<le> maxDepth" using extDepth_ge extDepth_le [OF m(3) assms(3)] by (simp_all add: td_def)
  have d: "prevStem b = ?s" "prevHash b = fst (snd e)" "prevEntries b = (if w0 = None then [] else snd (snd e))"
      "prevLeftCPL b = l" "settled sha f w0 es lo b"
    using assms(2) by (simp_all add: deferred_def l_def lo_def)
  obtain b1 where b1: "unwindTo sha ?wr lo b = Inr b1" "same_feed K1 b b1" "primed sha f w0 lo ?s ?es b1"
    using settled_primed [OF assms(1) lo_def [unfolded l_def] d(5)] K1 unfolding lo_def l_def by blast
  have p: "holds_lefts sha td ?s ?es b1" "empty_from td b1" "logged f w0 (left_rows sha td ?s ?es) b1"
    using b1(3) m(1) td by (simp_all add: primed_def)
  have g1: "groupDepth b1 = ?gd" "prevStem b1 = ?s" "prevHash b1 = fst (snd e)"
      "prevEntries b1 = (if w0 = None then [] else snd (snd e))"
    using b1(2) d by (simp_all add: same_feed_def)
  have one: "sub td ?s ?es = [e]" using sub_last [OF assms(1)] m(1) td(1) by (simp add: l_def lo_def)
  define b2 where "b2 = b1\<lparr>bb_w := map_option (f (makePath ?s td) (serializeStemNode ?s (snd (snd e)))) (bb_w b1)\<rparr>"
  define b3 where "b3 = placed f td e b1"
  note g3 = placed_fields [of f td e b1, folded b3_def]
  have wr: "bbWrite ?wr (makePath ?s td) (serializeStemNode ?s (prevEntries b1)) b1 = Inr b2"
    using p(3) by (cases "bb_w b1") (auto simp: bbWrite_def b2_def g1 logged_def)
  have "propagateUp sha ?wr (fst (snd e)) td ?s b3 = propagateUp sha ?wr (fst (snd e)) td ?s b2"
  proof (cases "0 < ?gd \<and> 0 < td")
    case True
    then have "b3 = recordGroupChild td (fst (snd e)) ?s b2" by (simp add: b3_def placed_def g1 b2_def)
    then show ?thesis using True extDepth_multiple [of ?gd m] by (simp add: climb_records b2_def g1 td_def)
  next
    case False
    then have "b3 = b2" by (auto simp: b3_def placed_def g1 b2_def)
    then show ?thesis by simp
  qed
  then have run: "flushDeferred sha ?wr r b = propagateUp sha ?wr (fst (snd e)) td ?s b3"
    using b1(1) wr td(2) g1 by (simp add: flushDeferred_def Let_def d(4) lo_def m_def td_def b2_def)
  have two: "2 \<le> length (sub q ?s ?es) \<or> q < extDepth ?gd q" if "lo' \<le> q" "q < td" for q
    using split_depth [OF assms(1,4), of q ?gd] that by (simp add: lo'_def tde)
  have lg: "logged f w0 (left_rows sha td ?s ?es @ brows sha td (sub td ?s ?es)) b3"
    using p(3) g3 by (auto simp: logged_def one brows_single g1 option.map_comp comp_def)
  have "\<exists>b'. propagateUp sha ?wr (fst (snd e)) td ?s b3 = Inr b' \<and> same_feed K2 b3 b' \<and>
    ((\<exists>q < td. lo' \<le> Suc q \<and> waits sha f w0 q ?s ?es b') \<or> lo' = 0 \<and> rooted sha f w0 ?es b')"
  proof (rule climb)
    show "td \<le> maxDepth" "lo' \<le> td" using td m by simp_all
    show "lo' = 0 \<or> \<not> sbit ?s (lo' - 1)" using assms(4,6) by (auto simp: lo'_def nat_add_distrib)
    show "?s \<in> fst ` set ?es" "length ?s = stemSize" using assms(1) by (simp_all add: bin_wf_def)
    show "\<forall>q. lo' \<le> q \<longrightarrow> q < td \<longrightarrow> 2 \<le> length (sub q ?s ?es) \<or> q < extDepth (groupDepth b3) q"
      using two g3 by (simp add: g1)
    show "fst (snd e) = bref sha (groupDepth b3) td (sub td ?s ?es)"
      unfolding one by (rule bref_leaf [symmetric]) (simp add: g1 g3 td_def extDepth_idem)
    show "holds_lefts sha td ?s ?es b3" "empty_from td b3" using p(1,2) g3 by (simp_all add: holds_lefts_def empty_from_def)
    show "kept sha lo' td ?s ?es K2" using K2 by (simp add: lo'_def tde)
  qed (fact lg)
  then obtain b' where b': "propagateUp sha ?wr (fst (snd e)) td ?s b3 = Inr b'" "same_feed K2 b3 b'"
      "(\<exists>q < td. lo' \<le> Suc q \<and> waits sha f w0 q ?s ?es b') \<or> lo' = 0 \<and> rooted sha f w0 ?es b'"
    by (elim exE conjE)
  have sf: "same_feed (\<lambda>_. True) b b'" using b1(2) b'(2) g3 by (simp add: same_feed_def)
  have K: "K2 b'" if "0 < ?gd" "K1 b"
    using b'(2) b1(2) K12 that g1(1) g3 by (simp add: same_feed_def tde b3_def)
  have "settled sha f w0 ?es lo' b'"
    using b'(3) td(2) two sf by (auto simp: settled_def splitting_def same_feed_def)
  then show ?thesis using run b'(1) sf K by (auto simp: lo'_def)
qed

end
