(* ===== verification/Bin_Slots.thy ===== *)
theory Bin_Slots
  imports Bin_Stream
begin

text \<open>
  Groups of the binary trie: the slots of a boundary, the rows of a grouped trie as a recursive definition,
  and that the hash of a grouped node is the hash of the subtree it stands for.
\<close>

section \<open>Slots\<close>

definition slotLeaves :: "nat \<Rightarrow> nat \<Rightarrow> nat \<Rightarrow> leaf list \<Rightarrow> leaf list" where
  "slotLeaves gd d k es = filter (\<lambda>e. slotOf (fst e) d gd = k) es"

lemma slotOf_0 [simp]: "slotOf s d 0 = 0"
  by (simp add: slotOf_def)

lemma slotOf_Suc: "slotOf s d (Suc n) = 2 * slotOf s d n + of_bool (sbit s (d + n))"
  by (simp add: slotOf_def stemBitAt_sbit)

lemma slotOf_less: "slotOf s d n < 2 ^ n"
  by (induction n) (simp_all add: slotOf_Suc)

lemma slotOf_high: "slotOf s d (Suc n) = of_bool (sbit s d) * 2 ^ n + slotOf s (Suc d) n"
  by (induction n) (simp_all add: slotOf_Suc)

lemma slotOf_eq_iff: "agrees d s t \<Longrightarrow> slotOf s d n = slotOf t d n \<longleftrightarrow> agrees (d + n) s t"
proof (induction n)
  case (Suc n)
  have "slotOf s d (Suc n) = slotOf t d (Suc n) \<longleftrightarrow> slotOf s d n = slotOf t d n \<and> sbit s (d + n) = sbit t (d + n)"
    unfolding slotOf_Suc by (auto split: if_splits) presburger+
  then show ?case using Suc by (simp add: agrees_Suc)
qed simp

lemma slotLeaves_own: "slotLeaves gd d (slotOf s d gd) (sub d s es) = sub (d + gd) s es"
proof -
  have "agrees d (fst e) s \<and> slotOf (fst e) d gd = slotOf s d gd \<longleftrightarrow> agrees (d + gd) (fst e) s" for e :: leaf
    using slotOf_eq_iff [of d "fst e" s gd] agrees_mono [of "d + gd" "fst e" s d] by auto
  then show ?thesis by (simp add: slotLeaves_def sub_def)
qed

lemma slotOf_mono:
  assumes "agrees c s t" "\<not> sbit s c" "sbit t c" "d \<le> c" "c < d + n"
  shows "slotOf s d n < slotOf t d n"
  using assms(5)
proof (induction n)
  case 0
  then show ?case using assms(4) by simp
next
  case (Suc n)
  show ?case
  proof (cases "c = d + n")
    case True
    have "slotOf s d n = slotOf t d n" using slotOf_eq_iff [of d s t n] assms(1,4) True agrees_mono by simp
    then show ?thesis using assms(2,3) True by (simp add: slotOf_Suc)
  next
    case False
    then have "slotOf s d n < slotOf t d n" using Suc by simp
    then show ?thesis by (auto simp: slotOf_Suc)
  qed
qed

text \<open>After the last stem no slot is taken.\<close>

lemma slots_after:
  assumes "topmost s es" "d + gd \<le> maxDepth" "slotOf s d gd < k"
  shows "slotLeaves gd d k (sub d s es) = []"
proof -
  have False if e: "e \<in> set es" "agrees d (fst e) s" "slotOf (fst e) d gd = k" for e
  proof -
    have "fst e \<noteq> s" using e(3) assms(3) by auto
    then have "before (fst e) s" using assms(1) e(1) by (auto simp: topmost_def)
    then obtain c where c: "agrees c (fst e) s" "\<not> sbit (fst e) c" "sbit s c" by (auto simp: before_def)
    have "d \<le> c" using agrees_differ [OF c(1)] c e(2) by simp
    show False
    proof (cases "c < d + gd")
      case True
      then show False using slotOf_mono [OF c \<open>d \<le> c\<close> True] e(3) assms(3) by simp
    next
      case False
      then have "agrees (d + gd) (fst e) s" using c(1) agrees_mono by simp
      then show False using slotOf_eq_iff [OF e(2), of gd] e(3) assms(3) by simp
    qed
  qed
  then show ?thesis by (auto simp: slotLeaves_def sub_def filter_empty_conv)
qed

section \<open>The grouped reference\<close>

definition kid :: "hash_fun \<Rightarrow> nat \<Rightarrow> nat \<Rightarrow> leaf list \<Rightarrow> nat \<Rightarrow> bytes option" where
  "kid sha gd d es k =
     (if slotLeaves gd d k es = [] then None else Some (bref sha gd (d + gd) (slotLeaves gd d k es)))"

function grows :: "hash_fun \<Rightarrow> nat \<Rightarrow> nat \<Rightarrow> leaf list \<Rightarrow> (bytes \<times> bytes) list" where
  "grows sha gd d es =
     (case es of
        [] \<Rightarrow> []
      | [(s, h, entries)] \<Rightarrow> [(makePath s d, serializeStemNode s entries)]
      | (s, _) # _ \<Rightarrow>
          if d < maxDepth \<and> 0 < gd then
            concat (map (\<lambda>k. grows sha gd (d + gd) (slotLeaves gd d k es)) [0..<2 ^ gd]) @
            [(makePath s d, serializeGroupedInternalNode gd (bucketChildren gd (kid sha gd d es)))]
          else [])"
  by pat_completeness auto
termination
  by (relation "measure (\<lambda>(sha, gd, d, es). maxDepth - d)") auto

declare grows.simps [simp del]

lemma grows_Nil [simp]: "grows sha gd d [] = []"
  by (simp add: grows.simps)

lemma grows_single: "grows sha gd d [e] = [(makePath (fst e) d, serializeStemNode (fst e) (snd (snd e)))]"
  by (cases e) (simp add: grows.simps)

lemma grows_step:
  assumes "d < maxDepth" "0 < gd" "2 \<le> length es"
  shows "grows sha gd d es = concat (map (\<lambda>k. grows sha gd (d + gd) (slotLeaves gd d k es)) [0..<2 ^ gd]) @
    [(makePath (fst (hd es)) d, serializeGroupedInternalNode gd (bucketChildren gd (kid sha gd d es)))]"
proof -
  obtain a b r where "es = a # b # r" using assms(3) by (metis Suc_le_length_iff numeral_2_eq_2)
  then show ?thesis using assms(1,2) by (subst grows.simps) (simp split: prod.splits)
qed

section \<open>The hash of a group\<close>

definition nonzero_hash :: "hash_fun \<Rightarrow> bool" where
  "nonzero_hash sha \<longleftrightarrow> (\<forall>x. sha x \<noteq> noHash)"

definition kidList :: "nat \<Rightarrow> (nat \<rightharpoonup> bytes) \<Rightarrow> bytes list" where
  "kidList gd m = map (\<lambda>k. case m k of None \<Rightarrow> noHash | Some h \<Rightarrow> h) [0..<2 ^ gd]"

lemma bucketChildren_upto:
  "foldl (\<lambda>leaves c. leaves[gc_slot c := gc_hash c]) (replicate n noHash)
     (concat (map (\<lambda>slot. case m slot of None \<Rightarrow> [] | Some h \<Rightarrow> [\<lparr>gc_slot = slot, gc_hash = h\<rparr>]) [0..<j])) =
   map (\<lambda>k. if k < j then (case m k of None \<Rightarrow> noHash | Some h \<Rightarrow> h) else noHash) [0..<n]"
proof (induction j)
  case 0
  show ?case by (simp add: map_replicate_const)
next
  case (Suc j)
  show ?case by (auto simp: Suc nth_list_update less_Suc_eq intro!: nth_equalityI split: option.split)
qed

lemma groupedRecursiveHash_merkle: "groupedRecursiveHash sha gd (bucketChildren gd m) = merkle sha gd (kidList gd m)"
proof -
  have "map (\<lambda>k. if k < 2 ^ gd then (case m k of None \<Rightarrow> noHash | Some h \<Rightarrow> h) else noHash) [0..<2 ^ gd] = kidList gd m"
    by (simp add: kidList_def)
  then show ?thesis
    unfolding groupedRecursiveHash_def Let_def bucketChildren_def bucketChildren_upto
    by (simp only:) (simp add: reduceLevels_merkle kidList_def)
qed

lemma kidList_halves:
  "take (2 ^ n) (kidList (Suc n) m) = kidList n m"
  "drop (2 ^ n) (kidList (Suc n) m) = kidList n (\<lambda>k. m (2 ^ n + k))"
  by (auto simp: kidList_def intro!: nth_equalityI)

lemma slotLeaves_halves:
  "k < 2 ^ n \<Longrightarrow> slotLeaves (Suc n) d k es = slotLeaves n (Suc d) k (lows d es)"
  "k < 2 ^ n \<Longrightarrow> slotLeaves (Suc n) d (2 ^ n + k) es = slotLeaves n (Suc d) k (highs d es)"
  using slotOf_less by (auto simp: slotLeaves_def slotOf_high intro!: filter_cong) (metis add_less_same_cancel1 not_less_zero order_less_trans)+

text \<open>Leaves below one node: they share its path and differ from each other.\<close>

definition below :: "nat \<Rightarrow> leaf list \<Rightarrow> bool" where
  "below d es \<longleftrightarrow> (\<forall>a \<in> set es. \<forall>b \<in> set es. agrees d (fst a) (fst b)) \<and>
     sorted_wrt (\<lambda>a b. before (fst a) (fst b)) es \<and> (\<forall>e \<in> set es. fst (snd e) \<noteq> noHash)"

lemma below_halves: "below d es \<Longrightarrow> below (Suc d) (lows d es) \<and> below (Suc d) (highs d es)"
  by (auto simp: below_def agrees_Suc intro: sorted_wrt_filter)

lemma below_bottom:
  assumes "below d es" "maxDepth \<le> d" "es \<noteq> []"
  shows "length es = 1"
proof (rule ccontr)
  assume "length es \<noteq> 1"
  then obtain a b r where "es = a # b # r" using assms(3) by (cases es rule: remdups_adj.cases) auto
  then have "before (fst a) (fst b)" "agrees d (fst a) (fst b)" using assms(1) by (auto simp: below_def)
  then show False using assms(2) agrees_mono [of d "fst a" "fst b"]
    by (auto simp: before_def agrees_def)
qed

lemma liftHash_nonzero: "nonzero_hash sha \<Longrightarrow> h \<noteq> noHash \<Longrightarrow> liftHash sha s h n d \<noteq> noHash"
  by (cases n) (auto simp: nonzero_hash_def)

lemma bref_nonzero:
  assumes "nonzero_hash sha" "below d es" "es \<noteq> []"
  shows "bref sha gd d es \<noteq> noHash"
proof (cases "length es = 1")
  case True
  then obtain e where "es = [e]" by (auto simp: length_Suc_conv)
  then show ?thesis using assms by (simp add: bref_single liftHash_nonzero below_def)
next
  case False
  then have "d < maxDepth" "2 \<le> length es" using below_bottom [OF assms(2)] assms(3) by (auto simp: not_le [symmetric] Suc_le_eq neq_Nil_conv)
  then have "bref sha gd d es = sha (bref sha gd (Suc d) (lows d es) @ bref sha gd (Suc d) (highs d es))"
    using assms(3) by (intro bref_step) simp_all
  then show ?thesis using assms(1) by (simp add: nonzero_hash_def)
qed

definition kidAt :: "hash_fun \<Rightarrow> nat \<Rightarrow> nat \<Rightarrow> nat \<Rightarrow> leaf list \<Rightarrow> nat \<Rightarrow> bytes option" where
  "kidAt sha gd n d es k =
     (if slotLeaves n d k es = [] then None else Some (bref sha gd (d + n) (slotLeaves n d k es)))"

lemma kidList_cong: "(\<And>k. k < 2 ^ n \<Longrightarrow> m k = m' k) \<Longrightarrow> kidList n m = kidList n m'"
  by (simp add: kidList_def)

lemma inner_extDepth: "0 < gd \<Longrightarrow> p mod gd \<noteq> 0 \<Longrightarrow> p < extDepth gd p"
  using extDepth_ge [of p gd] extDepth_multiple [of gd p] by (cases "p = extDepth gd p") auto

lemma merkle_bref:
  assumes "nonzero_hash sha" "0 < gd" "n \<le> gd" "(d + n) mod gd = 0" "d + n \<le> maxDepth" "below d es"
    "n < gd \<or> 2 \<le> length es"
  shows "merkle sha n (kidList n (kidAt sha gd n d es)) = bref sha gd d es"
  using assms(3-)
proof (induction n arbitrary: d es)
  case 0
  have "slotLeaves 0 d 0 es = es" by (simp add: slotLeaves_def)
  then show ?case by (auto simp: kidList_def kidAt_def)
next
  case (Suc n)
  let ?l = "lows d es" and ?h = "highs d es"
  have b: "below (Suc d) ?l" "below (Suc d) ?h" using below_halves [OF Suc.prems(4)] by simp_all
  have m: "kidList n (kidAt sha gd (Suc n) d es) = kidList n (kidAt sha gd n (Suc d) ?l)"
    "kidList n (\<lambda>k. kidAt sha gd (Suc n) d es (2 ^ n + k)) = kidList n (kidAt sha gd n (Suc d) ?h)"
    by (auto intro!: kidList_cong simp: kidAt_def slotLeaves_halves)
  have IH: "merkle sha n (kidList n (kidAt sha gd n (Suc d) ?l)) = bref sha gd (Suc d) ?l"
      "merkle sha n (kidList n (kidAt sha gd n (Suc d) ?h)) = bref sha gd (Suc d) ?h"
    using Suc.prems b by (auto intro!: Suc.IH)
  have e: "merkle sha (Suc n) (kidList (Suc n) (kidAt sha gd (Suc n) d es)) =
      pairHash sha (bref sha gd (Suc d) ?l) (bref sha gd (Suc d) ?h)"
    by (simp add: kidList_halves m IH)
  show ?case
  proof (cases "es = []")
    case True
    then show ?thesis using e by (simp add: pairHash_def)
  next
    case False
    have "d < extDepth gd d" if "Suc n < gd"
    proof (rule inner_extDepth [OF assms(2)], rule ccontr)
      assume "\<not> d mod gd \<noteq> 0"
      then have "(d + Suc n) mod gd = Suc n" using that by (metis add_0 mod_add_left_eq mod_less)
      then show False using Suc.prems(2) by simp
    qed
    then have "bref sha gd d es = sha (bref sha gd (Suc d) ?l @ bref sha gd (Suc d) ?h)"
      using Suc.prems(3,5) False by (intro bref_step) auto
    moreover have "?l \<noteq> [] \<or> ?h \<noteq> []" using False by (cases es) auto
    ultimately show ?thesis
      using e bref_nonzero [OF assms(1) b(1), of gd] bref_nonzero [OF assms(1) b(2), of gd] by (auto simp: pairHash_def)
  qed
qed

lemma group_hash:
  assumes "nonzero_hash sha" "0 < gd" "d mod gd = 0" "d + gd \<le> maxDepth" "below d es" "2 \<le> length es"
  shows "groupedRecursiveHash sha gd (bucketChildren gd (kid sha gd d es)) = bref sha gd d es"
proof -
  have "kid sha gd d es = kidAt sha gd gd d es" by (auto simp: kid_def kidAt_def)
  then show ?thesis using merkle_bref [OF assms(1,2) order.refl, of d es] assms(3-)
    by (simp add: groupedRecursiveHash_merkle)
qed

end
