(* ===== verification/Bin_Root.thy ===== *)
theory Bin_Root
  imports Bin_Stream
begin

text \<open>
  The whole run of the binary trie builder, stem by stem and entry by entry: the root is the reference
  root and the database receives the reference nodes.
\<close>

section \<open>Feeding and finishing\<close>

definition fed :: "hash_fun \<Rightarrow> (bytes \<Rightarrow> bytes \<Rightarrow> 'w \<Rightarrow> 'w) \<Rightarrow> 'w option \<Rightarrow> nat \<Rightarrow> leaf list \<Rightarrow> 'w binBuilder \<Rightarrow> bool" where
  "fed sha f w0 gd es b \<longleftrightarrow> groupDepth b = gd \<and>
     (if es = [] then \<not> hasPrev b \<and> settled sha f w0 [] 0 b
      else deferred sha f w0 (butlast es) (last es) b)"

lemma fed_new: "fed sha f w gd [] (newBinBuilder gd w)"
  by (cases w) (auto simp: fed_def newBinBuilder_def settled_def empty_from_def logged_def)

lemma settled_fields:
  assumes "settled sha f w0 es lo b" "bb_stack b' = bb_stack b" "bb_occupied b' = bb_occupied b"
    "bb_isRight b' = bb_isRight b" "bb_stemBits b' = bb_stemBits b" "bb_w b' = bb_w b" "groupDepth b' = groupDepth b"
  shows "settled sha f w0 es lo b'"
proof -
  have "logged f w0 rs b' = logged f w0 rs b" "holds_lefts sha d s es b' = holds_lefts sha d s es b"
      "empty_from d b' = empty_from d b" for rs d s es
    using assms(2-) by (simp_all add: logged_def holds_lefts_def empty_from_def)
  then show ?thesis using assms unfolding settled_def waits_def rooted_def by simp
qed

lemma settled_none:
  assumes "settled sha f w0 es lo b"
  shows "bb_w b = None \<longleftrightarrow> w0 = None"
  using assms unfolding settled_def by (auto simp: waits_def rooted_def logged_def split: if_splits)

lemma no_groups: "groupDepth b = 0 \<or> bb_w b = None \<Longrightarrow> flushCompletedGroupsAbove sha wr c b = Inr b"
  by (auto simp: flushCompletedGroupsAbove_def)

lemma fed_feed:
  fixes f :: "bytes \<Rightarrow> bytes \<Rightarrow> 'w \<Rightarrow> 'w"
  assumes "fed sha f w0 gd es b" "bin_wf (es @ [(s, h, en)])" "gd = 0 \<or> w0 = None" "gd = 0 \<or> maxDepth mod gd = 0"
  shows "\<exists>b'. feedStem sha (writes f :: ('w, 'e) node_writer) s h en b = Inr b' \<and> fed sha f w0 gd (es @ [(s, h, en)]) b'"
proof -
  let ?wr = "writes f :: ('w, 'e) node_writer" and ?x = "(s, h, en)"
  let ?next = "\<lambda>b. b\<lparr>hasPrev := True, prevHash := h, prevStem := take stemSize s, prevLeftCPL := leftCPL es s,
    prevEntries := (if bb_w b = None then [] else en)\<rparr>"
  have len: "take stemSize s = s" using assms(2) by (simp add: bin_wf_def)
  have fin: "fed sha f w0 gd (es @ [?x]) (?next b1)"
    if "settled sha f w0 es (nat (leftCPL es s + 1)) b1" "groupDepth b1 = gd" for b1
    using settled_fields [OF that(1), of "?next b1"] settled_none [OF that(1)] that(2) len
    by (auto simp: fed_def deferred_def)
  show ?thesis
  proof (cases "es = []")
    case True
    then have "feedStem sha ?wr s h en b = Inr (?next b)"
      using assms(1) by (simp add: feedStem_def fed_def leftCPL_def)
    then show ?thesis using fin [of b] assms(1) True by (simp add: fed_def leftCPL_def)
  next
    case False
    then have d: "deferred sha f w0 (butlast es) (last es) b" "groupDepth b = gd" using assms(1) by (simp_all add: fed_def)
    let ?c = "commonPrefixLenBits (fst (last es)) s"
    note wf = bin_wf_snoc [OF assms(2) False refl, unfolded fst_conv]
    have es: "butlast es @ [last es] = es" using False by simp
    have "\<exists>b'. flushDeferred sha ?wr (int ?c) b = Inr b' \<and> same_feed (\<lambda>_. True) b b' \<and>
        (0 < groupDepth b \<longrightarrow> True \<longrightarrow> True) \<and> settled sha f w0 (butlast es @ [last es]) (nat (int ?c + 1)) b'"
      using wf(1) d(1) assms(4) wf(2,4) by (intro flush_deferred) (simp_all add: es d(2))
    then obtain b1 where b1: "flushDeferred sha ?wr (int ?c) b = Inr b1" "same_feed (\<lambda>_. True) b b1"
        "settled sha f w0 es (nat (int ?c + 1)) b1" unfolding es by blast
    have g: "groupDepth b1 = gd" using b1(2) d(2) by (simp add: same_feed_def)
    have "flushCompletedGroupsAbove sha ?wr (int ?c) b1 = Inr b1"
      using assms(3) g settled_none [OF b1(3)] by (intro no_groups) auto
    then have "feedStem sha ?wr s h en b = Inr (?next b1)"
      using b1(1) d(1) False by (simp add: feedStem_def deferred_def leftCPL_def Let_def)
    then show ?thesis using fin [of b1] b1(3) g False by (simp add: leftCPL_def)
  qed
qed

lemma fed_finish:
  fixes f :: "bytes \<Rightarrow> bytes \<Rightarrow> 'w \<Rightarrow> 'w"
  assumes "fed sha f w0 gd es b" "bin_wf es" "es \<noteq> []" "gd = 0 \<or> w0 = None" "gd = 0 \<or> maxDepth mod gd = 0"
  shows "\<exists>b'. bin_finish sha (writes f :: ('w, 'e) node_writer) b = Inr (bref sha gd 0 es, b') \<and>
    bb_w b' = map_option (put_rows f (brows sha 0 es)) w0"
proof -
  let ?wr = "writes f :: ('w, 'e) node_writer"
  have d: "deferred sha f w0 (butlast es) (last es) b" "groupDepth b = gd" using assms(1,3) by (simp_all add: fed_def)
  have es: "butlast es @ [last es] = es" using assms(3) by simp
  have "\<exists>b'. flushDeferred sha ?wr (- 1) b = Inr b' \<and> same_feed (\<lambda>_. True) b b' \<and>
      (0 < groupDepth b \<longrightarrow> True \<longrightarrow> True) \<and> settled sha f w0 (butlast es @ [last es]) (nat (- 1 + 1)) b'"
    using assms(2,5) d(1) by (intro flush_deferred) (simp_all add: es d(2))
  then have "\<exists>b'. flushDeferred sha ?wr (- 1) b = Inr b' \<and> same_feed (\<lambda>_. True) b b' \<and> settled sha f w0 es 0 b'"
    unfolding es by simp
  then obtain b1 where b1: "flushDeferred sha ?wr (- 1) b = Inr b1" "same_feed (\<lambda>_. True) b b1" "settled sha f w0 es 0 b1"
    by (elim exE conjE)
  have "\<exists>n \<le> maxDepth. splitting (groupDepth b1) 0 n (fst (last es)) es \<and>
      ((\<exists>q < n. 0 \<le> Suc q \<and> waits sha f w0 q (fst (last es)) es b1) \<or> (0 :: nat) = 0 \<and> rooted sha f w0 es b1)"
    using b1(3) assms(3) by (simp add: settled_def)
  then obtain n where n: "n \<le> maxDepth" "splitting (groupDepth b1) 0 n (fst (last es)) es"
      "(\<exists>q < n. 0 \<le> Suc q \<and> waits sha f w0 q (fst (last es)) es b1) \<or> (0 :: nat) = 0 \<and> rooted sha f w0 es b1"
    by (elim exE conjE)
  have "\<exists>b'. unwindTo sha ?wr 0 b1 = Inr b' \<and> same_feed (\<lambda>_. True) b1 b' \<and>
      (if (0 :: nat) = 0 then rooted sha f w0 es b' else waits sha f w0 (0 - 1) (fst (last es)) es b')"
    using n(1) _ bin_wf_topmost [OF assms(2,3)] n(2) [unfolded splitting_def] n(3) by (intro unwindTo_all) simp_all
  then obtain b2 where b2: "unwindTo sha ?wr 0 b1 = Inr b2" "same_feed (\<lambda>_. True) b1 b2" "rooted sha f w0 es b2" by auto
  have g: "groupDepth b2 = gd" using b1(2) b2(2) d(2) by (simp add: same_feed_def)
  have r: "bb_stack b2 0 = bref sha gd 0 es" "bb_w b2 = None \<longleftrightarrow> w0 = None"
      "gd = 0 \<longrightarrow> bb_w b2 = map_option (put_rows f (brows sha 0 es)) w0"
    using b2(3) by (simp_all add: rooted_def logged_def g)
  have "flushCompletedGroupsAbove sha ?wr (- 1) b2 = Inr b2" using assms(4) g r(2) by (intro no_groups) auto
  then have "bin_finish sha ?wr b = Inr (bref sha gd 0 es, b2)"
    using b1(1) b2(1) d(1) r(1,2) g assms(4) by (auto simp: bin_finish_def deferred_def)
  then show ?thesis using r(2,3) assms(4) by (intro exI [of _ b2]) auto
qed

section \<open>Entries grouped by stem\<close>

definition keyStem :: "trieEntry \<Rightarrow> bytes" where
  "keyStem e = take stemSize (te_Key e)"

definition stemGroup :: "bytes \<Rightarrow> trieEntry list \<Rightarrow> trieEntry list" where
  "stemGroup s entries = filter (\<lambda>e. keyStem e = s) entries"

definition stemLeaf :: "hash_fun \<Rightarrow> bytes \<times> trieEntry list \<Rightarrow> leaf" where
  "stemLeaf sha = (\<lambda>(s, grp). (s, computeStemNodeHash sha s grp, grp))"

definition stemLeaves :: "hash_fun \<Rightarrow> trieEntry list \<Rightarrow> leaf list" where
  "stemLeaves sha entries =
     map (\<lambda>s. stemLeaf sha (s, stemGroup s entries)) (remdups_adj (map keyStem entries))"

definition entries_wf :: "trieEntry list \<Rightarrow> bool" where
  "entries_wf entries \<longleftrightarrow> list_all (\<lambda>e. length (te_Key e) = hashSize) entries \<and> sorted_wrt bytesLess (map te_Key entries)"

fun groupRuns :: "bytes \<Rightarrow> trieEntry list \<Rightarrow> trieEntry list \<Rightarrow> (bytes \<times> trieEntry list) list" where
  "groupRuns cur grp [] = [(cur, grp)]"
| "groupRuns cur grp (e # es) =
     (if keyStem e \<noteq> cur then (cur, grp) # groupRuns (keyStem e) [e] es else groupRuns cur (grp @ [e]) es)"

lemma feedGroups_runs:
  "grp \<noteq> [] \<Longrightarrow> feedGroups sha wr cur grp es b =
     foldE (\<lambda>(s, h, en). feedStem sha wr s h en) (map (stemLeaf sha) (groupRuns cur grp es)) b"
  by (induction cur grp es arbitrary: b rule: groupRuns.induct)
    (auto simp: keyStem_def stemLeaf_def bindE_def split: sum.splits)

abbreviation stem_le :: "bytes \<Rightarrow> bytes \<Rightarrow> bool" where
  "stem_le s t \<equiv> s = t \<or> bytesLess s t"

lemma stem_le_trans: "stem_le s t \<Longrightarrow> stem_le t u \<Longrightarrow> stem_le s u"
  using bytesLess_trans by blast

lemma bytesLess_take: "bytesLess a b \<Longrightarrow> stem_le (take n a) (take n b)"
proof (induction a arbitrary: b n)
  case (Cons x a)
  then obtain y b' where "b = y # b'" by (cases b) auto
  then show ?case using Cons by (cases n) (auto simp: bytesLess_Cons)
next
  case Nil
  then show ?case by (cases n) (auto simp: neq_Nil_conv)
qed

lemma entries_wf_stems: "entries_wf es \<Longrightarrow> sorted_wrt stem_le (map keyStem es)"
  unfolding entries_wf_def sorted_wrt_map keyStem_def
  by (elim conjE, erule sorted_wrt_mono_rel [rotated]) (rule bytesLess_take)

lemma groupRuns_eq:
  assumes "sorted_wrt stem_le (cur # map keyStem es)" "\<forall>e \<in> set grp. keyStem e = cur"
  shows "groupRuns cur grp es = map (\<lambda>s. (s, stemGroup s (grp @ es))) (remdups_adj (cur # map keyStem es))"
  using assms
proof (induction cur grp es rule: groupRuns.induct)
  case (1 cur grp)
  then show ?case by (simp add: stemGroup_def)
next
  case (2 cur grp e es)
  show ?case
  proof (cases "keyStem e = cur")
    case True
    then show ?thesis using 2 by auto
  next
    case False
    let ?ss = "remdups_adj (keyStem e # map keyStem es)"
    have less: "bytesLess cur (keyStem e)" using 2(3) False by auto
    have later: "s \<noteq> cur" if "s \<in> set ?ss" for s
    proof
      assume "s = cur"
      then have "stem_le (keyStem e) cur" using that 2(3) by auto
      then show False using less bytesLess_trans bytesLess_irrefl False by blast
    qed
    have g: "stemGroup cur (grp @ e # es) = grp"
      using 2(4) later by (force simp: stemGroup_def filter_empty_conv)
    have r: "stemGroup s (grp @ e # es) = stemGroup s ([e] @ es)" if "s \<in> set ?ss" for s
      using 2(4) later [OF that] by (auto simp: stemGroup_def filter_empty_conv)
    have ss: "remdups_adj (cur # map keyStem (e # es)) = cur # ?ss" using False by simp
    have "groupRuns cur grp (e # es) = (cur, grp) # groupRuns (keyStem e) [e] es" using False by simp
    also have "groupRuns (keyStem e) [e] es = map (\<lambda>s. (s, stemGroup s ([e] @ es))) ?ss"
      using 2(3) by (intro 2(1) [OF False]) auto
    also have "\<dots> = map (\<lambda>s. (s, stemGroup s (grp @ e # es))) ?ss"
      by (rule map_cong [OF refl]) (simp only: r)
    finally show ?thesis by (subst ss) (simp only: list.map g)
  qed
qed

lemma remdups_adj_less: "sorted_wrt stem_le xs \<Longrightarrow> sorted_wrt bytesLess (remdups_adj xs)"
proof (induction xs rule: remdups_adj.induct)
  case (3 x y xs)
  show ?case
  proof (cases "x = y")
    case False
    then have "bytesLess x y" "sorted_wrt stem_le (y # xs)" using 3(3) by auto
    moreover from this have "bytesLess x z" if "z \<in> set (y # xs)" for z
      using that bytesLess_trans by auto
    ultimately show ?thesis using 3(2) False by simp
  qed (use 3 in simp)
qed simp_all

lemma stemLeaves_wf:
  assumes "entries_wf es"
  shows "bin_wf (stemLeaves sha es)"
proof -
  have m: "map fst (stemLeaves sha es) = remdups_adj (map keyStem es)"
    by (simp add: stemLeaves_def stemLeaf_def comp_def)
  have "length (fst e) = stemSize" if "e \<in> set (stemLeaves sha es)" for e
  proof -
    have "fst e \<in> set (map fst (stemLeaves sha es))" using that by simp
    then show ?thesis using assms unfolding m
      by (auto simp: keyStem_def entries_wf_def list_all_iff hashSize_def stemSize_def)
  qed
  then show ?thesis unfolding bin_wf_def m using remdups_adj_less [OF entries_wf_stems [OF assms]] by blast
qed

lemma feedGroups_leaves:
  assumes "entries_wf (e # es)"
  shows "feedGroups sha wr (keyStem e) [e] es b = foldE (\<lambda>(s, h, en). feedStem sha wr s h en) (stemLeaves sha (e # es)) b"
proof -
  have "groupRuns (keyStem e) [e] es = map (\<lambda>s. (s, stemGroup s ([e] @ es))) (remdups_adj (keyStem e # map keyStem es))"
    using entries_wf_stems [OF assms] by (intro groupRuns_eq) simp_all
  then have "map (stemLeaf sha) (groupRuns (keyStem e) [e] es) = stemLeaves sha (e # es)"
    unfolding stemLeaves_def by (simp only: list.map map_map comp_def append_Cons append_Nil)
  then show ?thesis by (simp add: feedGroups_runs)
qed

lemma fed_all:
  fixes f :: "bytes \<Rightarrow> bytes \<Rightarrow> 'w \<Rightarrow> 'w"
  assumes "fed sha f w0 gd pre b" "bin_wf (pre @ es)" "gd = 0 \<or> w0 = None" "gd = 0 \<or> maxDepth mod gd = 0"
  shows "\<exists>b'. foldE (\<lambda>(s, h, en). feedStem sha (writes f :: ('w, 'e) node_writer) s h en) es b = Inr b' \<and>
    fed sha f w0 gd (pre @ es) b'"
  using assms(1,2)
proof (induction es arbitrary: pre b)
  case (Cons e es)
  obtain s h en where e: "e = (s, h, en)" by (cases e)
  have "bin_wf (pre @ [e])" using Cons.prems(2) by (auto simp: bin_wf_def sorted_wrt_append)
  then obtain b1 where "feedStem sha (writes f :: ('w, 'e) node_writer) s h en b = Inr b1" "fed sha f w0 gd (pre @ [e]) b1"
    using fed_feed [OF Cons.prems(1) _ assms(3,4)] unfolding e by blast
  then show ?case using Cons.IH [of "pre @ [e]" b1] Cons.prems(2) by (simp add: e)
qed simp

lemma entries_root:
  fixes f :: "bytes \<Rightarrow> bytes \<Rightarrow> 'w \<Rightarrow> 'w"
  assumes "entries_wf entries" "gd = 0 \<or> w = None" "gd = 0 \<or> maxDepth mod gd = 0"
  shows "computeBinaryRootStreamingFromSlice sha (writes f :: ('w, 'e) node_writer) entries w gd =
    Inr (bref sha gd 0 (stemLeaves sha entries), map_option (put_rows f (brows sha 0 (stemLeaves sha entries))) w)"
proof (cases entries)
  case Nil
  have "map_option (put_rows f []) w = w" by (cases w) simp_all
  then show ?thesis using Nil by (simp add: computeBinaryRootStreamingFromSlice_def stemLeaves_def)
next
  case (Cons e es)
  let ?wr = "writes f :: ('w, 'e) node_writer" and ?ls = "stemLeaves sha entries"
  have "feedGroups sha ?wr (keyStem e) [e] es (newBinBuilder gd w) =
      foldE (\<lambda>(s, h, en). feedStem sha ?wr s h en) ?ls (newBinBuilder gd w)"
    using feedGroups_leaves assms(1) unfolding Cons by blast
  moreover obtain b where b: "foldE (\<lambda>(s, h, en). feedStem sha ?wr s h en) ?ls (newBinBuilder gd w) = Inr b"
      "fed sha f w gd ?ls b"
    using fed_all [OF fed_new, of "?ls" gd w] stemLeaves_wf [OF assms(1), of sha] assms(2,3) by auto
  moreover have "?ls \<noteq> []" by (simp add: stemLeaves_def Cons)
  moreover from this obtain b' where "bin_finish sha ?wr b = Inr (bref sha gd 0 ?ls, b')"
      "bb_w b' = map_option (put_rows f (brows sha 0 ?ls)) w"
    using fed_finish [OF b(2) stemLeaves_wf [OF assms(1)] _ assms(2,3)] by blast
  ultimately show ?thesis by (simp add: computeBinaryRootStreamingFromSlice_def Cons keyStem_def)
qed

section \<open>The plain mode\<close>

text \<open>
  C9: Without grouping, sorted entries with 32-byte keys give the root of the reference trie, and the database
  receives exactly the stem nodes and the internal nodes of that trie, in post-order; no write fails and no
  array is left.
\<close>

theorem binary_plain_equals_reference:
  fixes f :: "bytes \<Rightarrow> bytes \<Rightarrow> 'w \<Rightarrow> 'w"
  assumes "entries_wf entries"
  shows "computeBinaryRootStreamingFromSlice sha (writes f :: ('w, 'e) node_writer) entries w 0 =
    Inr (bref sha 0 0 (stemLeaves sha entries), map_option (put_rows f (brows sha 0 (stemLeaves sha entries))) w)"
  using assms by (intro entries_root) simp_all

text \<open>A witness: three entries of two stems that part in the seventh bit.\<close>

definition plainEntries :: "trieEntry list" where
  "plainEntries = map (\<lambda>(a, c). \<lparr>te_Key = a # replicate 30 0 @ [c], te_Value = replicate 32 c\<rparr>) [(1, 4), (1, 9), (3, 0)]"

theorem binary_plain_equals_reference_witness:
  "computeBinaryRootStreamingFromSlice (\<lambda>x. take 32 (rev x @ noHash))
     (writes (\<lambda>p x l. l @ [p]) :: (bytes list, unit) node_writer) plainEntries (Some []) 0 =
   Inr (bref (\<lambda>x. take 32 (rev x @ noHash)) 0 0 (stemLeaves (\<lambda>x. take 32 (rev x @ noHash)) plainEntries),
     map_option (put_rows (\<lambda>p x l. l @ [p])
       (brows (\<lambda>x. take 32 (rev x @ noHash)) 0 (stemLeaves (\<lambda>x. take 32 (rev x @ noHash)) plainEntries))) (Some []))"
proof (rule binary_plain_equals_reference)
  show "entries_wf plainEntries" by code_simp
qed

end
