(* ===== verification/Bin_Group.thy ===== *)
theory Bin_Group
  imports Bin_Slots Bin_Root
begin

text \<open>
  The grouped mode of the builder.  Between two stems the buffers hold exactly the complete children of the
  groups that are still open on the path of the last stem; a flush turns a complete group into its row and
  into a child of the group above.
\<close>

section \<open>The state of the group buffers\<close>

definition bucket :: "'w binBuilder \<Rightarrow> nat \<Rightarrow> nat \<rightharpoonup> bytes" where
  "bucket b d = (case groupBuf b d of None \<Rightarrow> (\<lambda>_. None) | Some m \<Rightarrow> m)"

definition slot_sealed :: "'w binBuilder \<Rightarrow> nat \<Rightarrow> nat \<Rightarrow> bool" where
  "slot_sealed b d k \<longleftrightarrow> (case groupBufSealed b d of None \<Rightarrow> False | Some ks \<Rightarrow> k \<in> ks)"

text \<open>
  \<open>expected\<close>: what the bucket at boundary \<open>d\<close> holds on the path of \<open>s\<close>: the children of every slot but that of
  \<open>s\<close> while the group is open (\<open>d \<le> c\<close>), and the child of \<open>s\<close> itself at the boundaries \<open>pres\<close>.
\<close>

definition expected :: "hash_fun \<Rightarrow> nat \<Rightarrow> leaf list \<Rightarrow> bytes \<Rightarrow> int \<Rightarrow> nat set \<Rightarrow> nat \<Rightarrow> nat \<Rightarrow> bytes option" where
  "expected sha gd es s c pres d k =
     (if d mod gd \<noteq> 0 \<or> maxDepth \<le> d then None
      else if k = slotOf s d gd then (if d \<in> pres then kid sha gd d (sub d s es) k else None)
      else if int d \<le> c then kid sha gd d (sub d s es) k else None)"

definition group_state ::
  "hash_fun \<Rightarrow> nat \<Rightarrow> leaf list \<Rightarrow> bytes \<Rightarrow> int \<Rightarrow> nat set \<Rightarrow> 'w binBuilder \<Rightarrow> bool" where
  "group_state sha gd es s c pres b \<longleftrightarrow> groupDepth b = gd \<and> bb_w b \<noteq> None \<and>
     (\<forall>d. bucket b d = expected sha gd es s c pres d) \<and>
     (\<forall>d. bucket b d \<noteq> (\<lambda>_. None) \<longrightarrow> (\<exists>t. groupStemAtBoundary b d = Some t \<and> agrees d t s)) \<and>
     (\<forall>d k. slot_sealed b d k \<longrightarrow> bucket b d k \<noteq> None) \<and>
     (\<forall>p \<in> flushedPaths b. \<exists>e \<in> set es. \<exists>d. d < maxDepth \<and> p = makePath (fst e) d) \<and>
     (\<forall>d. int d \<le> c \<longrightarrow> d < maxDepth \<longrightarrow> makePath s d \<notin> flushedPaths b)"

lemma group_state_cong:
  assumes "group_state sha gd es s c pres b" "bucket b' = bucket b" "slot_sealed b' = slot_sealed b"
    "groupDepth b' = groupDepth b" "bb_w b' \<noteq> None" "groupStemAtBoundary b' = groupStemAtBoundary b"
    "flushedPaths b' = flushedPaths b"
  shows "group_state sha gd es s c pres b'"
  using assms(1) unfolding group_state_def assms(2-4,6,7) by (elim conjE) (intro conjI assms(5))

lemma group_state_eq: "group_state sha gd es s c pres b \<Longrightarrow> groups_eq b b' \<Longrightarrow> group_state sha gd es s c pres b'"
  by (rule group_state_cong) (auto simp: groups_eq_def bucket_def slot_sealed_def fun_eq_iff group_state_def)

lemma record_bucket:
  assumes "gd = groupDepth b" "bb_w b \<noteq> None" "gd \<le> d" "makePath s (d - gd) \<notin> flushedPaths b"
    "\<not> slot_sealed b (d - gd) (slotOf s (d - gd) gd)" "b' = recordGroupChild d h s b"
  shows "bucket b' = (bucket b)(d - gd := (bucket b (d - gd))(slotOf s (d - gd) gd \<mapsto> h))"
    "groupStemAtBoundary b' = (groupStemAtBoundary b)(d - gd \<mapsto> take stemSize s)"
    "groupBufSealed b' = groupBufSealed b" "flushedPaths b' = flushedPaths b" "bb_w b' = bb_w b"
    "groupDepth b' = gd" "rootGroupHash b' = rootGroupHash b"
  using assms by (auto simp: recordGroupChild_def Let_def bucket_def slot_sealed_def fun_eq_iff split: option.splits)

lemma record_skip:
  assumes "gd = groupDepth b" "gd \<le> d"
    "makePath s (d - gd) \<in> flushedPaths b \<or> slot_sealed b (d - gd) (slotOf s (d - gd) gd)"
  shows "recordGroupChild d h s b = b"
  using assms by (auto simp: recordGroupChild_def Let_def slot_sealed_def split: option.splits)

text \<open>Recording the complete subtree of \<open>s\<close> at depth \<open>d\<close> adds its boundary to \<open>pres\<close>.\<close>

lemma kid_own:
  assumes "s \<in> fst ` set es"
  shows "kid sha gd d (sub d s es) (slotOf s d gd) = Some (bref sha gd (d + gd) (sub (d + gd) s es))"
  using sub_ne [OF assms] by (simp add: kid_def slotLeaves_own)

lemma record_state:
  assumes "group_state sha gd es s c pres b" "0 < gd" "gd \<le> d" "d mod gd = 0" "d \<le> maxDepth" "int (d - gd) \<le> c"
    "s \<in> fst ` set es"
  shows "group_state sha gd es s c (insert (d - gd) pres) (recordGroupChild d (bref sha gd d (sub d s es)) s b)"
proof -
  let ?o = "d - gd" and ?k = "slotOf s (d - gd) gd" and ?h = "bref sha gd d (sub d s es)"
  let ?b = "recordGroupChild d ?h s b"
  have o: "?o < maxDepth" "?o mod gd = 0" "?o + gd = d" using assms(2-5) by (auto simp: le_mod_geq)
  have g: "gd = groupDepth b" "bb_w b \<noteq> None" "makePath s ?o \<notin> flushedPaths b"
    using assms(1,6) o(1) by (simp_all add: group_state_def)
  have own: "kid sha gd ?o (sub ?o s es) ?k = Some ?h" using kid_own [OF assms(7), of sha gd ?o] o(3) by simp
  show ?thesis
  proof (cases "slot_sealed b ?o ?k")
    case True
    have "bucket b ?o ?k \<noteq> None" using True assms(1) unfolding group_state_def by blast
    then have "?o \<in> pres" using assms(1) by (auto simp: group_state_def expected_def split: if_splits)
    moreover have "?b = b" using record_skip [OF g(1) assms(3)] True by blast
    ultimately show ?thesis using assms(1) by (simp add: insert_absorb)
  next
    case False
    note r = record_bucket [OF g(1,2) assms(3) g(3) False refl, of ?h]
    have "bucket ?b x = expected sha gd es s c (insert ?o pres) x" for x
      unfolding r(1) using assms(1) o own by (auto simp: group_state_def expected_def fun_eq_iff)
    moreover have "\<exists>t. groupStemAtBoundary ?b x = Some t \<and> agrees x t s" if "bucket ?b x \<noteq> (\<lambda>_. None)" for x
    proof (cases "x = ?o")
      case True
      have "agrees x (take stemSize s) s" using True o(1)
        by (auto simp: agrees_def sbit_iff maxDepth_def stemSize_def)
      then show ?thesis by (simp add: r(2) True)
    next
      case False
      then show ?thesis using that assms(1) by (simp add: r(1,2) group_state_def)
    qed
    moreover have "bucket ?b x k \<noteq> None" if "slot_sealed ?b x k" for x k
      using that assms(1) unfolding r(1) group_state_def by (auto simp: r(3) slot_sealed_def)
    ultimately show ?thesis
      using assms(1) g(2) unfolding group_state_def r(4-6) by blast
  qed
qed

section \<open>Rows written so far\<close>

text \<open>The rows of the slots to the left of the path of \<open>s\<close>, down to the boundary \<open>n * gd\<close>.\<close>

definition slot_rows :: "hash_fun \<Rightarrow> nat \<Rightarrow> leaf list \<Rightarrow> bytes \<Rightarrow> nat \<Rightarrow> (bytes \<times> bytes) list" where
  "slot_rows sha gd es s d =
     concat (map (\<lambda>k. grows sha gd (d + gd) (slotLeaves gd d k (sub d s es))) [0..<slotOf s d gd])"

definition lrows :: "hash_fun \<Rightarrow> nat \<Rightarrow> leaf list \<Rightarrow> bytes \<Rightarrow> nat \<Rightarrow> (bytes \<times> bytes) list" where
  "lrows sha gd es s n = concat (map (\<lambda>i. slot_rows sha gd es s (i * gd)) [0..<n])"

lemma lrows_Suc: "lrows sha gd es s (Suc n) = lrows sha gd es s n @ slot_rows sha gd es s (n * gd)"
  by (simp add: lrows_def)

lemma upt_split: "k < n \<Longrightarrow> [0..<n] = [0..<k] @ k # [Suc k..<n]"
  using upt_add_eq_append [of 0 k "n - k"] by (simp add: upt_conv_Cons)

lemma group_end:
  assumes "0 < gd" "maxDepth mod gd = 0" "c < maxDepth"
  shows "Suc (c div gd) * gd \<le> maxDepth"
proof -
  obtain k where k: "maxDepth = k * gd" using assms(2) by (metis dvd_def mod_0_imp_dvd mult.commute)
  then have "c div gd < k" using assms(3) by (simp add: less_mult_imp_div_less)
  then have "Suc (c div gd) * gd \<le> k * gd" by (intro mult_le_mono1) simp
  then show ?thesis by (simp only: k)
qed

text \<open>A complete group below the rows to its left.\<close>

lemma grows_path:
  assumes "topmost s es" "d + gd \<le> maxDepth" "0 < gd" "2 \<le> length (sub d s es)"
  shows "grows sha gd d (sub d s es) = slot_rows sha gd es s d @ grows sha gd (d + gd) (sub (d + gd) s es) @
    [(makePath s d, serializeGroupedInternalNode gd (bucketChildren gd (kid sha gd d (sub d s es))))]"
proof -
  let ?k = "slotOf s d gd" and ?g = "\<lambda>k. grows sha gd (d + gd) (slotLeaves gd d k (sub d s es))"
  have "concat (map ?g [Suc ?k..<2 ^ gd]) = []" using slots_after [OF assms(1,2)] by simp
  then have c: "concat (map ?g [0..<2 ^ gd]) = slot_rows sha gd es s d @ grows sha gd (d + gd) (sub (d + gd) s es)"
    by (simp add: upt_split [OF slotOf_less [of s d gd]] slot_rows_def slotLeaves_own)
  have "hd (sub d s es) \<in> set (sub d s es)" using assms(4) by (intro hd_in_set) auto
  then have "makePath (fst (hd (sub d s es))) d = makePath s d" by (intro makePath_agrees) (simp add: sub_def)
  then show ?thesis using grows_step [of d gd "sub d s es" sha] assms(2-4) c by simp
qed

lemma slot_rows_cong:
  assumes "agrees (d + gd) s t"
  shows "slot_rows sha gd es s d = slot_rows sha gd es t d"
  using assms sub_agrees [of d s t es] agrees_mono [of "d + gd" s t d] slotOf_eq_iff [of d s t gd]
  by (simp add: slot_rows_def)

lemma lrows_cong: "agrees (n * gd) s t \<Longrightarrow> lrows sha gd es s n = lrows sha gd es t n"
proof (induction n)
  case (Suc n)
  then show ?case using slot_rows_cong [of "n * gd" gd s t] agrees_mono [of "Suc n * gd" s t "n * gd"]
    by (simp add: lrows_Suc add.commute)
qed (simp add: lrows_def)

lemma slot_rows_snoc:
  assumes "fst e = s"
  shows "slot_rows sha gd (es @ [e]) s d = slot_rows sha gd es s d"
proof -
  have "slotLeaves gd d k (sub d s (es @ [e])) = slotLeaves gd d k (sub d s es)" if "k < slotOf s d gd" for k
    using that assms by (auto simp: slotLeaves_def sub_def)
  then show ?thesis unfolding slot_rows_def by (intro arg_cong [where f = concat] map_cong) auto
qed

lemma lrows_snoc: "fst e = s \<Longrightarrow> lrows sha gd (es @ [e]) s n = lrows sha gd es s n"
  by (simp add: lrows_def slot_rows_snoc)

lemma lrows_extend:
  assumes "\<And>i. n \<le> i \<Longrightarrow> sub (i * gd) s es = []" "n \<le> m"
  shows "lrows sha gd es s m = lrows sha gd es s n"
  using assms(2) by (induction m rule: dec_induct) (simp_all add: lrows_Suc slot_rows_def slotLeaves_def assms(1))

text \<open>What is complete for the last stem is to the left of the next one.\<close>

lemma lrows_next:
  assumes "bin_wf (es @ [e])" "es \<noteq> []" "c = commonPrefixLenBits (fst (last es)) (fst e)" "0 < gd"
    "maxDepth mod gd = 0" "D = Suc (c div gd)" "D \<le> n"
  shows "lrows sha gd (es @ [e]) (fst e) n =
    lrows sha gd es (fst (last es)) D @ grows sha gd (D * gd) (sub (D * gd) (fst (last es)) es)"
proof -
  let ?s = "fst (last es)" and ?t = "fst e" and ?d = "c div gd * gd"
  note wf = bin_wf_snoc [OF assms(1-3)]
  have d: "?d \<le> c" "c < ?d + gd" using dividend_less_div_times [OF assms(4), of c] by (simp_all add: mult.commute)
  have Dd: "D * gd = ?d + gd" using assms(6) by simp
  have "D * gd \<le> maxDepth" using group_end [OF assms(4,5) wf(2)] assms(6) by simp
  have ex: "sub (i * gd) ?t es = []" if "D \<le> i" for i
  proof -
    have "D * gd \<le> i * gd" using that by simp
    then have "c < i * gd" using d(2) Dd by simp
    then have "leftCPL es ?t < int (i * gd)" using assms(2,3) by (simp only: leftCPL_def of_nat_less_iff if_False)
    then show ?thesis by (rule lefts_above(2) [OF assms(1)])
  qed
  have ag: "agrees ?d ?s ?t" using wf(3) d(1) agrees_mono by blast
  have kk: "slotOf ?s ?d gd < slotOf ?t ?d gd" using slotOf_mono [OF wf(3-5) d] .
  let ?g = "\<lambda>k. grows sha gd (?d + gd) (slotLeaves gd ?d k (sub ?d ?s es))"
  have mid: "?g k = []" if "slotOf ?s ?d gd < k" for k
    using slots_after [OF bin_wf_topmost(1) [OF wf(1) assms(2)] _ that] \<open>D * gd \<le> maxDepth\<close> Dd by simp
  have up: "[0..<slotOf ?t ?d gd] = [0..<slotOf ?s ?d gd] @ slotOf ?s ?d gd # [Suc (slotOf ?s ?d gd)..<slotOf ?t ?d gd]"
    using kk by (rule upt_split)
  have "slot_rows sha gd es ?t ?d = concat (map ?g [0..<slotOf ?t ?d gd])"
    by (simp add: slot_rows_def sub_agrees [OF ag])
  also have "\<dots> = slot_rows sha gd es ?s ?d @ grows sha gd (D * gd) (sub (D * gd) ?s es)"
    by (simp add: up slot_rows_def slotLeaves_own mid Dd)
  finally have row: "slot_rows sha gd es ?t ?d = slot_rows sha gd es ?s ?d @ grows sha gd (D * gd) (sub (D * gd) ?s es)" .
  have "lrows sha gd (es @ [e]) ?t n = lrows sha gd es ?t D"
    using lrows_extend [OF ex assms(7), of sha] lrows_snoc [of e ?t] by simp
  also have "\<dots> = lrows sha gd es ?s (c div gd) @ slot_rows sha gd es ?t ?d"
    using lrows_cong [OF ag, of sha es] by (simp add: assms(6) lrows_Suc)
  finally show ?thesis by (simp add: row assms(6) lrows_Suc)
qed

section \<open>Between two stems and while a stem climbs\<close>

definition group_done ::
  "hash_fun \<Rightarrow> (bytes \<Rightarrow> bytes \<Rightarrow> 'w \<Rightarrow> 'w) \<Rightarrow> 'w \<Rightarrow> nat \<Rightarrow> leaf list \<Rightarrow> nat \<Rightarrow> 'w binBuilder \<Rightarrow> bool" where
  "group_done sha f w gd es c b \<longleftrightarrow>
     (let s = fst (last es); D = Suc (c div gd) in
      group_state sha gd es s (int c) {c div gd * gd} b \<and> rootGroupHash b = None \<and>
      bb_w b = Some (put_rows f (lrows sha gd es s D @ grows sha gd (D * gd) (sub (D * gd) s es)) w) \<and>
      (\<forall>d. d mod gd = 0 \<longrightarrow> c < d \<longrightarrow> d < maxDepth \<longrightarrow> 2 \<le> length (sub d s es) \<longrightarrow> makePath s d \<in> flushedPaths b))"

definition group_start :: "nat \<Rightarrow> 'w \<Rightarrow> 'w binBuilder \<Rightarrow> bool" where
  "group_start gd w b \<longleftrightarrow> groupDepth b = gd \<and> bb_w b = Some w \<and> groupBuf b = (\<lambda>_. None) \<and> groupBufSealed b = (\<lambda>_. None) \<and>
     flushedPaths b = {} \<and> rootGroupHash b = None"

definition group_before ::
  "hash_fun \<Rightarrow> (bytes \<Rightarrow> bytes \<Rightarrow> 'w \<Rightarrow> 'w) \<Rightarrow> 'w \<Rightarrow> nat \<Rightarrow> leaf list \<Rightarrow> bytes \<Rightarrow> 'w binBuilder \<Rightarrow> bool" where
  "group_before sha f w gd es s b \<longleftrightarrow>
     (if es = [] then group_start gd w b else group_done sha f w gd es (commonPrefixLenBits (fst (last es)) s) b)"

definition group_climb ::
  "hash_fun \<Rightarrow> (bytes \<Rightarrow> bytes \<Rightarrow> 'w \<Rightarrow> 'w) \<Rightarrow> 'w \<Rightarrow> nat \<Rightarrow> leaf list \<Rightarrow> leaf \<Rightarrow> nat \<Rightarrow> int \<Rightarrow> 'w binBuilder \<Rightarrow> bool" where
  "group_climb sha f w gd es e td r b \<longleftrightarrow> rootGroupHash b = None \<and>
     bb_w b = Some (put_rows f (lrows sha gd (es @ [e]) (fst e) (td div gd) @ grows sha gd td [e]) w) \<and>
     (\<exists>pres. group_state sha gd (es @ [e]) (fst e) (int maxDepth) pres b \<and> (0 < td \<longrightarrow> td - gd \<in> pres) \<and>
        pres \<subseteq> {d. d mod gd = 0 \<and> r < int (d + gd) \<and> d + gd \<le> td})"

text \<open>Unwinding records only what is known already, or what belongs to a group that has been written.\<close>

lemma record_known:
  assumes "group_done sha f w gd es c b" "0 < gd" "Suc c \<le> d" "d \<le> maxDepth" "d mod gd = 0" "gd \<le> d"
    "splitting gd (Suc c) n (fst (last es)) es" "d \<le> n" "es \<noteq> []" "c < maxDepth"
  shows "group_done sha f w gd es c (recordGroupChild d (bref sha gd d (sub d (fst (last es)) es)) (fst (last es)) b)"
proof -
  let ?s = "fst (last es)" and ?o = "d - gd"
  let ?b = "recordGroupChild d (bref sha gd d (sub d ?s es)) ?s b"
  note g = assms(1) [unfolded group_done_def Let_def]
  have gd: "groupDepth b = gd" using g by (simp add: group_state_def)
  have o: "?o mod gd = 0" "?o < maxDepth" using assms(2,4-6) by (auto simp: le_mod_geq)
  show ?thesis
  proof (cases "?o \<le> c")
    case True
    have "?o div gd = c div gd"
    proof (rule antisym)
      show "?o div gd \<le> c div gd" using True by (rule div_le_mono)
      have "c div gd \<le> (d - 1) div gd" using assms(3) by (intro div_le_mono) simp
      also have "(d - 1) div gd \<le> ?o div gd"
      proof -
        have "?o div gd * gd = ?o" using o(1) by (simp add: mod_eq_0_iff_dvd)
        then have "d - 1 < Suc (?o div gd) * gd" using assms(2,6) by simp
        then show ?thesis by (simp add: less_mult_imp_div_less flip: less_Suc_eq_le)
      qed
      finally show "c div gd \<le> ?o div gd" .
    qed
    then have oc: "?o = c div gd * gd" using o(1) by (metis add.right_neutral div_mult_mod_eq)
    have "?s \<in> fst ` set es" using assms(9) by simp
    then have "group_state sha gd es ?s (int c) (insert ?o {c div gd * gd}) ?b"
      using g assms(2-6) True by (intro record_state) simp_all
    then have st: "group_state sha gd es ?s (int c) {c div gd * gd} ?b" by (simp add: oc)
    obtain gb gs where "?b = b\<lparr>groupBuf := gb, groupStemAtBoundary := gs\<rparr>" using record_fields [of d _ ?s b] by blast
    then have "rootGroupHash ?b = rootGroupHash b" "bb_w ?b = bb_w b" "flushedPaths ?b = flushedPaths b" by simp_all
    then show ?thesis using g st by (simp add: group_done_def Let_def)
  next
    case False
    then have "2 \<le> length (sub ?o ?s es) \<or> ?o < extDepth gd ?o"
      using assms(2,6-8) by (simp add: splitting_def)
    moreover have "extDepth gd ?o = ?o" using o(1) by (simp add: extDepth_def Let_def mod_eq_0_iff_dvd)
    ultimately have "makePath ?s ?o \<in> flushedPaths b" using g o False by simp
    then have "?b = b" using record_skip [of gd b d ?s] gd assms(6) by simp
    then show ?thesis using assms(1) by simp
  qed
qed

lemma groups_eq_fields:
  assumes "groups_eq b b'"
  shows "bb_w b' = bb_w b" "flushedPaths b' = flushedPaths b" "rootGroupHash b' = rootGroupHash b"
  using assms by (simp_all add: groups_eq_def)

lemma group_done_eq:
  assumes "group_done sha f w gd es c b" "groups_eq b b'"
  shows "group_done sha f w gd es c b'"
  using assms(1) group_state_eq [OF _ assms(2)]
  unfolding group_done_def Let_def groups_eq_fields [OF assms(2)] by (elim conjE) (intro conjI)

lemma group_climb_eq:
  assumes "group_climb sha f w gd es e td r b" "groups_eq b b'"
  shows "group_climb sha f w gd es e td r b'"
  using assms(1) group_state_eq [OF _ assms(2)]
  unfolding group_climb_def groups_eq_fields [OF assms(2)] by (elim conjE exE) (intro conjI exI)

end
