(* ===== verification/Bin_Flush.thy ===== *)
theory Bin_Flush
  imports Bin_Group
begin

text \<open>
  The steps of the grouped mode: unwinding and climbing keep the invariants of the buffers, placing a stem
  turns one into the other, and the flush of the completed groups turns it back.
\<close>

section \<open>Unwinding and climbing\<close>

lemma kept_before:
  assumes "es \<noteq> []" "0 < gd" "lo = Suc c" "splitting gd lo n (fst (last es)) es" "n \<le> maxDepth" "c < maxDepth"
    "c = commonPrefixLenBits (fst (last es)) s"
  shows "kept sha lo n (fst (last es)) es (group_before sha f w gd es s)"
  unfolding kept_def
proof (intro conjI allI impI)
  fix b b' :: "'a binBuilder"
  assume "group_before sha f w gd es s b" "groups_eq b b'"
  then show "group_before sha f w gd es s b'" using group_done_eq assms(1) by (simp add: group_before_def)
next
  fix b :: "'a binBuilder" and d
  assume b: "group_before sha f w gd es s b" and d: "lo \<le> d" "d \<le> n" "d mod groupDepth b = 0" "groupDepth b \<le> d"
  have g: "group_done sha f w gd es c b" using b assms(1,7) by (simp add: group_before_def)
  then have "groupDepth b = gd" by (simp add: group_done_def Let_def group_state_def)
  then show "group_before sha f w gd es s (recordGroupChild d (bref sha (groupDepth b) d (sub d (fst (last es)) es)) (fst (last es)) b)"
    using record_known [OF g assms(2), of d n] d assms by (simp add: group_before_def)
qed

lemma kept_climb:
  assumes "0 < gd" "td \<le> maxDepth"
  shows "kept sha (nat (r + 1)) td (fst e) (es @ [e]) (group_climb sha f w gd es e td r)"
  unfolding kept_def
proof (intro conjI allI impI)
  fix b b' :: "'a binBuilder"
  assume "group_climb sha f w gd es e td r b" "groups_eq b b'"
  then show "group_climb sha f w gd es e td r b'" by (rule group_climb_eq)
next
  fix b :: "'a binBuilder" and d
  assume b: "group_climb sha f w gd es e td r b"
    and d: "nat (r + 1) \<le> d" "d \<le> td" "d mod groupDepth b = 0" "groupDepth b \<le> d"
  let ?b = "recordGroupChild d (bref sha (groupDepth b) d (sub d (fst e) (es @ [e]))) (fst e) b"
  obtain pres where p: "group_state sha gd (es @ [e]) (fst e) (int maxDepth) pres b" "0 < td \<longrightarrow> td - gd \<in> pres"
      "pres \<subseteq> {d. d mod gd = 0 \<and> r < int (d + gd) \<and> d + gd \<le> td}"
    using b unfolding group_climb_def by (elim conjE exE)
  have gd: "groupDepth b = gd" using p(1) by (simp add: group_state_def)
  have dm: "d mod gd = 0" "gd \<le> d" "d \<le> maxDepth" "int (d - gd) \<le> int maxDepth" "fst e \<in> fst ` set (es @ [e])"
    using d(2-4) assms(2) unfolding gd by simp_all
  have st: "group_state sha gd (es @ [e]) (fst e) (int maxDepth) (insert (d - gd) pres) ?b"
    unfolding gd by (rule record_state [OF p(1) assms(1) dm(2,1,3,4,5)])
  have "d - gd \<in> {d. d mod gd = 0 \<and> r < int (d + gd) \<and> d + gd \<le> td}"
    using d dm by (auto simp: le_mod_geq)
  then have "insert (d - gd) pres \<subseteq> {d. d mod gd = 0 \<and> r < int (d + gd) \<and> d + gd \<le> td}"
    using p(3) by (simp only: insert_subset simp_thms)
  moreover obtain gb gs where "?b = b\<lparr>groupBuf := gb, groupStemAtBoundary := gs\<rparr>"
    using record_fields [of d "bref sha (groupDepth b) d (sub d (fst e) (es @ [e]))" "fst e" b] by blast
  then have "rootGroupHash ?b = rootGroupHash b" "bb_w ?b = bb_w b" by simp_all
  ultimately show "group_climb sha f w gd es e td r ?b"
    using b st p(2) unfolding group_climb_def by (auto intro!: exI [of _ "insert (d - gd) pres"])
qed

section \<open>Placing a stem\<close>

lemma makePath_eq: "makePath s c = makePath t d \<longleftrightarrow> c = d \<and> agrees d s t"
  by (auto simp: makePath_def agrees_def stemBitAt_sbit list_eq_iff_nth_eq dest: map_eq_imp_length_eq split: if_splits)

lemma kid_single: "k \<noteq> slotOf (fst e) d gd \<Longrightarrow> kid sha gd d [e] k = None"
  by (simp add: kid_def slotLeaves_def)

lemma kid_snoc: "k \<noteq> slotOf (fst e) d gd \<Longrightarrow> kid sha gd d (xs @ [e]) k = kid sha gd d xs k"
  by (simp add: kid_def slotLeaves_def)

text \<open>The buffers of the last stem, read on the path of the next one.\<close>

lemma expected_next:
  assumes "bin_wf (es @ [e])" "es \<noteq> []" "c = commonPrefixLenBits (fst (last es)) (fst e)" "0 < gd"
  shows "expected sha gd es (fst (last es)) (int c) {c div gd * gd} d =
    expected sha gd (es @ [e]) (fst e) (int maxDepth) {} d"
proof (cases "d mod gd \<noteq> 0 \<or> maxDepth \<le> d")
  case True
  then show ?thesis by (auto simp: expected_def)
next
  case False
  let ?s = "fst (last es)" and ?t = "fst e"
  note wf = bin_wf_snoc [OF assms(1-3)]
  show ?thesis
  proof (cases "d \<le> c")
    case True
    have ag: "agrees d ?s ?t" using wf(3) True agrees_mono by blast
    have sb: "sub d ?t (es @ [e]) = sub d ?s es @ [e]" using sub_agrees [OF ag, of es] by (simp add: sub_def)
    have eqv: "slotOf ?s d gd = slotOf ?t d gd \<longleftrightarrow> d + gd \<le> c"
      using slotOf_eq_iff [OF ag] agrees_differ [of c ?s ?t "d + gd"] wf(3-5) by simp
    have lastb: "d = c div gd * gd \<longleftrightarrow> \<not> d + gd \<le> c"
    proof
      assume "d = c div gd * gd"
      then show "\<not> d + gd \<le> c" using dividend_less_div_times [OF assms(4), of c] by (simp add: mult.commute)
    next
      assume "\<not> d + gd \<le> c"
      then have "c div gd = d div gd" using True False assms(4)
        by (intro div_nat_eqI) (auto simp: mult.commute mod_eq_0_iff_dvd)
      then show "d = c div gd * gd" using False by (metis add.right_neutral div_mult_mod_eq)
    qed
    have own: "kid sha gd d (sub d ?s es) (slotOf ?t d gd) = None" if "\<not> d + gd \<le> c"
    proof -
      have "sub (d + gd) ?t es = []"
        using lefts_above(2) [OF assms(1), of "d + gd"] that assms(2,3) by (simp add: leftCPL_def)
      then show ?thesis using slotLeaves_own [of gd d ?t es] sub_agrees [OF ag, of es] by (simp add: kid_def)
    qed
    show ?thesis
      using False True eqv lastb own kid_snoc [of _ e d gd sha "sub d ?s es"] unfolding expected_def sb
      by (intro ext) auto
  next
    case dc: False
    have "sub d ?t (es @ [e]) = [e]" using sub_last [OF assms(1), of d] dc assms(2,3) by (simp add: leftCPL_def)
    moreover have "d \<noteq> c div gd * gd" using dc div_times_less_eq_dividend [of c gd] by auto
    ultimately show ?thesis using dc kid_single [of _ e d gd sha] by (intro ext) (auto simp: expected_def)
  qed
qed

lemma next_state:
  assumes "bin_wf (es @ [e])" "es \<noteq> []" "c = commonPrefixLenBits (fst (last es)) (fst e)" "0 < gd"
    "group_state sha gd es (fst (last es)) (int c) {c div gd * gd} b"
  shows "group_state sha gd (es @ [e]) (fst e) (int maxDepth) {} b"
proof -
  let ?s = "fst (last es)" and ?t = "fst e"
  note wf = bin_wf_snoc [OF assms(1-3)]
  note g = assms(5) [unfolded group_state_def]
  have "bucket b d = expected sha gd (es @ [e]) ?t (int maxDepth) {} d" for d
    using g expected_next [OF assms(1-4), of sha d] by metis
  moreover have "\<exists>t. groupStemAtBoundary b d = Some t \<and> agrees d t ?t" if "bucket b d \<noteq> (\<lambda>_. None)" for d
  proof -
    obtain t where t: "groupStemAtBoundary b d = Some t" "agrees d t ?s" using g \<open>bucket b d \<noteq> (\<lambda>_. None)\<close> by blast
    have "bucket b d = expected sha gd es ?s (int c) {c div gd * gd} d" using g by blast
    then have "d \<le> c" using that div_times_less_eq_dividend [of c gd]
      by (auto simp: expected_def fun_eq_iff split: if_splits)
    then have "agrees d ?s ?t" by (rule agrees_mono [OF wf(3)])
    then show ?thesis using t agrees_trans [OF t(2)] by simp
  qed
  moreover have "makePath ?t d \<notin> flushedPaths b" if "d < maxDepth" for d
  proof
    assume p: "makePath ?t d \<in> flushedPaths b"
    have "\<forall>p \<in> flushedPaths b. \<exists>e \<in> set es. \<exists>d. d < maxDepth \<and> p = makePath (fst e) d" using g by (elim conjE)
    from bspec [OF this p] obtain x where x: "x \<in> set es" "agrees d ?t (fst x)" by (auto simp: makePath_eq)
    then have "d \<le> c" using wf(6) [OF x(1)] agrees_sym by blast
    then have "makePath ?t d = makePath ?s d" using agrees_mono [OF wf(3)] makePath_agrees by metis
    then show False using g p \<open>d \<le> c\<close> that by simp
  qed
  ultimately show ?thesis using g unfolding group_state_def by (auto 0 3)
qed

lemma start_state:
  assumes "group_start gd w b"
  shows "group_state sha gd [e] (fst e) (int maxDepth) {} b"
proof -
  have "expected sha gd [e] (fst e) (int maxDepth) {} d = (\<lambda>_. None)" for d
    by (auto simp: expected_def sub_def kid_single fun_eq_iff)
  then show ?thesis using assms by (simp add: group_state_def group_start_def bucket_def slot_sealed_def)
qed

lemma group_state_write:
  "group_state sha gd es s c pres b \<Longrightarrow> group_state sha gd es s c pres (b\<lparr>bb_w := Some w\<rparr>)"
  by (erule group_state_cong) (simp_all add: bucket_def slot_sealed_def fun_eq_iff)

lemma placeDepth_facts:
  assumes "bin_wf (es @ [e])" "0 < gd" "maxDepth mod gd = 0" "- 1 \<le> r" "r < int maxDepth" "td = placeDepth gd es e r"
  shows "td mod gd = 0" "td = 0 \<or> gd \<le> td" "td \<le> maxDepth" "r < int td" "leftCPL es (fst e) < int td"
    "sub td (fst e) (es @ [e]) = [e]" "td div gd * gd = td"
proof -
  let ?m = "nat (max (leftCPL es (fst e)) r + 1)"
  show m: "td mod gd = 0" "td = 0 \<or> gd \<le> td" using extDepth_multiple [OF assms(2), of ?m] by (auto simp: assms(6) placeDepth_def)
  have "?m \<le> maxDepth" using leftCPL_range [OF assms(1)] assms(5) by auto
  then show "td \<le> maxDepth" using extDepth_le [of ?m gd] assms(3,6) by (simp add: placeDepth_def)
  have "?m \<le> td" using extDepth_ge by (simp add: assms(6) placeDepth_def)
  then show l: "r < int td" "leftCPL es (fst e) < int td" using leftCPL_range [OF assms(1)] assms(4) by auto
  then show "sub td (fst e) (es @ [e]) = [e]" using sub_last [OF assms(1)] by blast
  show "td div gd * gd = td" using m(1) by (simp add: mod_eq_0_iff_dvd)
qed

lemma placed_climb:
  assumes "bin_wf (es @ [e])" "0 < gd" "maxDepth mod gd = 0" "- 1 \<le> r" "r < int maxDepth" "td = placeDepth gd es e r"
    "group_before sha f w gd es (fst e) b" "groupDepth b = gd"
  shows "group_climb sha f w gd es e td r (placed f td e b)"
proof -
  let ?s = "fst e" and ?es = "es @ [e]"
  let ?L = "lrows sha gd ?es ?s (td div gd)"
  note td = placeDepth_facts [OF assms(1-6)]
  have b: "group_state sha gd ?es ?s (int maxDepth) {} b" "rootGroupHash b = None" "bb_w b = Some (put_rows f ?L w)"
  proof -
    show "group_state sha gd ?es ?s (int maxDepth) {} b"
    proof (cases "es = []")
      case True
      then show ?thesis using start_state [of gd w b sha e] assms(7) by (simp add: group_before_def)
    next
      case False
      then show ?thesis using next_state [OF assms(1) False refl assms(2), of sha b] assms(7)
        by (simp add: group_before_def group_done_def Let_def)
    qed
    show "rootGroupHash b = None"
      using assms(7) by (simp add: group_before_def group_done_def group_start_def Let_def split: if_splits)
    show "bb_w b = Some (put_rows f ?L w)"
    proof (cases "es = []")
      case True
      have "lrows sha gd [e] ?s n = []" for n
        using lrows_snoc [of e ?s sha gd "[]" n] by (simp add: lrows_def slot_rows_def sub_def slotLeaves_def)
      then show ?thesis using True assms(7) by (simp add: group_before_def group_start_def)
    next
      case False
      let ?c = "commonPrefixLenBits (fst (last es)) ?s"
      have "?c < td" using td(5) False by (simp add: leftCPL_def)
      then have "Suc (?c div gd) \<le> td div gd"
        using td(7) assms(2) by (metis Suc_leI div_less_iff_less_mult)
      then have "?L = lrows sha gd es (fst (last es)) (Suc (?c div gd)) @
          grows sha gd (Suc (?c div gd) * gd) (sub (Suc (?c div gd) * gd) (fst (last es)) es)"
        using lrows_next [OF assms(1) False refl assms(2,3) refl] by blast
      then show ?thesis using False assms(7) by (simp add: group_before_def group_done_def Let_def)
    qed
  qed
  let ?b = "b\<lparr>bb_w := Some (put_rows f (?L @ grows sha gd td [e]) w)\<rparr>"
  have p: "placed f td e b = (if 0 < td then recordGroupChild td (fst (snd e)) ?s ?b else ?b)"
    using assms(2,8) b(3) by (simp add: placed_def Let_def grows_single)
  have st: "group_state sha gd ?es ?s (int maxDepth) {} ?b" using b(1) by (rule group_state_write)
  show ?thesis
  proof (cases "0 < td")
    case False
    then show ?thesis using p st b(2) unfolding group_climb_def by (auto intro: exI [of _ "{}"])
  next
    case True
    then have gt: "gd \<le> td" using td(2) by simp
    have "bref sha gd td (sub td ?s ?es) = fst (snd e)"
      unfolding td(6) using extDepth_mult [of gd "td div gd"] td(7) by (intro bref_leaf) simp
    moreover have "group_state sha gd ?es ?s (int maxDepth) (insert (td - gd) {})
        (recordGroupChild td (bref sha gd td (sub td ?s ?es)) ?s ?b)"
      using st assms(2) gt td(1,3) by (rule record_state) (use td(3) in simp_all)
    ultimately have "group_state sha gd ?es ?s (int maxDepth) {td - gd} (placed f td e b)" using p True by simp
    moreover have "(td - gd) mod gd = 0" using td(1) gt by (simp add: le_mod_geq)
    moreover obtain gb gs where "recordGroupChild td (fst (snd e)) ?s ?b = ?b\<lparr>groupBuf := gb, groupStemAtBoundary := gs\<rparr>"
      using record_fields [of td "fst (snd e)" ?s ?b] by blast
    ultimately show ?thesis using True p b(2) gt td(4) unfolding group_climb_def
      by (auto intro!: exI [of _ "{td - gd}"])
  qed
qed

section \<open>Flushing one boundary\<close>

lemma bucketChildren_ne: "m k = Some h \<Longrightarrow> k < 2 ^ gd \<Longrightarrow> bucketChildren gd m \<noteq> []"
  by (force simp: bucketChildren_def)

lemma bucketChildren_empty: "bucketChildren gd (\<lambda>_. None) = []"
  by (simp add: bucketChildren_def)

lemma flush_children: "(case groupBuf b d of None \<Rightarrow> [] | Some m \<Rightarrow> bucketChildren gd m) = bucketChildren gd (bucket b d)"
  by (simp add: bucket_def bucketChildren_empty split: option.split)

text \<open>After the boundaries from \<open>n\<close> on have been flushed.\<close>

definition group_flush ::
  "hash_fun \<Rightarrow> (bytes \<Rightarrow> bytes \<Rightarrow> 'w \<Rightarrow> 'w) \<Rightarrow> 'w \<Rightarrow> nat \<Rightarrow> leaf list \<Rightarrow> bytes \<Rightarrow> nat \<Rightarrow> int \<Rightarrow> nat \<Rightarrow> 'w binBuilder \<Rightarrow> bool" where
  "group_flush sha f w gd es s T r n b \<longleftrightarrow>
     (let u = min n T in
      bb_w b = Some (put_rows f (lrows sha gd es s u @ grows sha gd (u * gd) (sub (u * gd) s es)) w) \<and>
      rootGroupHash b = (if n = 0 \<and> 0 < T then Some (bref sha gd 0 es) else None) \<and>
      (\<forall>i. n \<le> i \<longrightarrow> i < T \<longrightarrow> makePath s (i * gd) \<in> flushedPaths b) \<and>
      (\<exists>pres. group_state sha gd es s (int (n * gd) - 1) pres b \<and> (0 < u \<longrightarrow> (u - 1) * gd \<in> pres) \<and>
         pres \<subseteq> {d. d mod gd = 0 \<and> r < int (d + gd) \<and> d < u * gd}))"

definition stack_eq :: "'w binBuilder \<Rightarrow> 'w binBuilder \<Rightarrow> bool" where
  "stack_eq b b' \<longleftrightarrow> bb_stack b' = bb_stack b \<and> bb_occupied b' = bb_occupied b \<and> bb_isRight b' = bb_isRight b \<and>
     bb_stemBits b' = bb_stemBits b \<and> (bb_w b' = None \<longleftrightarrow> bb_w b = None) \<and> same_feed (\<lambda>_. True) b b'"

lemma stack_eq_refl [simp]: "stack_eq b b"
  by (simp add: stack_eq_def)

lemma stack_eq_trans: "stack_eq a b \<Longrightarrow> stack_eq b c \<Longrightarrow> stack_eq a c"
  unfolding stack_eq_def using same_feed_trans by auto

text \<open>A boundary whose bucket is empty.\<close>

lemma flush_empty:
  assumes "bucket b d = (\<lambda>_. None)"
  shows "flushBoundary sha wr d b = Inr b"
  unfolding flushBoundary_def flush_children assms by (simp add: bucketChildren_empty)

text \<open>A boundary whose bucket is not: what happens to the buffers.\<close>

definition flushed_to :: "nat \<Rightarrow> bytes \<Rightarrow> bytes \<Rightarrow> 'w \<Rightarrow> 'w binBuilder \<Rightarrow> 'w binBuilder" where
  "flushed_to d t h w b =
     (let b = b\<lparr>bb_w := Some w, flushedPaths := insert (makePath t d) (flushedPaths b), groupBuf := (groupBuf b)(d := None),
            groupBufSealed := (groupBufSealed b)(d := None), groupStemAtBoundary := (groupStemAtBoundary b)(d := None)\<rparr>;
          p = d - groupDepth b; k = slotOf t p (groupDepth b);
          ks = (case groupBufSealed b p of None \<Rightarrow> {} | Some ks \<Rightarrow> ks)
      in if d = 0 then b\<lparr>rootGroupHash := Some h\<rparr>
         else b\<lparr>groupBuf := (groupBuf b)(p \<mapsto> (bucket b p)(k \<mapsto> h)),
            groupBufSealed := (groupBufSealed b)(p \<mapsto> insert k ks),
            groupStemAtBoundary := (groupStemAtBoundary b)(p \<mapsto> t)\<rparr>)"

lemma flush_full:
  fixes f :: "bytes \<Rightarrow> bytes \<Rightarrow> 'w \<Rightarrow> 'w"
  assumes "bucketChildren gd (bucket b d) \<noteq> []" "groupStemAtBoundary b d = Some t" "bb_w b = Some w" "groupDepth b = gd"
    "blob = serializeGroupedInternalNode gd (bucketChildren gd (bucket b d))"
    "h = groupedRecursiveHash sha gd (bucketChildren gd (bucket b d))"
  shows "flushBoundary sha (writes f :: ('w, 'e) node_writer) d b = Inr (flushed_to d t h (f (makePath t d) blob w) b)"
  using assms by (auto simp: flushBoundary_def writeGroupedNode_def flush_children bbWrite_def Let_def flushed_to_def bucket_def
    split: option.split)

lemma flushed_to_stack: "bb_w b \<noteq> None \<Longrightarrow> stack_eq b (flushed_to d t h w b)"
  by (auto simp: flushed_to_def Let_def stack_eq_def same_feed_def)

lemma flushed_to_fields:
  assumes "groupDepth b = gd" "0 < gd" "d = 0 \<or> gd \<le> d" "b' = flushed_to d t h w b"
  shows "bucket b' x = (if x = d then (\<lambda>_. None)
      else if 0 < d \<and> x = d - gd then (bucket b x)(slotOf t x gd \<mapsto> h) else bucket b x)"
    "slot_sealed b' x k \<longleftrightarrow> x \<noteq> d \<and> (slot_sealed b x k \<or> 0 < d \<and> x = d - gd \<and> k = slotOf t x gd)"
    "x \<noteq> d \<Longrightarrow> groupStemAtBoundary b' x = (if 0 < d \<and> x = d - gd then Some t else groupStemAtBoundary b x)"
    "flushedPaths b' = insert (makePath t d) (flushedPaths b)" "bb_w b' = Some w" "groupDepth b' = gd"
    "rootGroupHash b' = (if d = 0 then Some h else rootGroupHash b)"
proof -
  have "d - gd \<noteq> d" if "0 < d" using that assms(2) by simp
  then show "bucket b' x = (if x = d then (\<lambda>_. None)
      else if 0 < d \<and> x = d - gd then (bucket b x)(slotOf t x gd \<mapsto> h) else bucket b x)"
    "slot_sealed b' x k \<longleftrightarrow> x \<noteq> d \<and> (slot_sealed b x k \<or> 0 < d \<and> x = d - gd \<and> k = slotOf t x gd)"
    using assms(1) unfolding assms(4)
    by (auto simp: flushed_to_def Let_def bucket_def slot_sealed_def fun_eq_iff split: option.splits)
qed (use assms in \<open>auto simp: flushed_to_def Let_def\<close>)

lemma int_le_pred: "int x \<le> int m - 1 \<longleftrightarrow> x < m"
  by linarith

lemma expected_drop:
  assumes "0 < gd" "x \<noteq> n * gd" "x \<in> pres' \<longleftrightarrow> x \<in> pres"
  shows "expected sha gd es s (int (Suc n * gd) - 1) pres x = expected sha gd es s (int (n * gd) - 1) pres' x"
proof (cases "x mod gd = 0")
  case True
  then have x: "x = x div gd * gd" by (simp add: mod_eq_0_iff_dvd)
  then have "x div gd \<noteq> n" using assms(2) by auto
  then have "x < Suc n * gd \<longleftrightarrow> x < n * gd"
    using assms(1) by (subst (1 2) x) (auto simp: mult_less_cancel2 simp del: mult_Suc)
  then have "int x \<le> int (Suc n * gd) - 1 \<longleftrightarrow> int x \<le> int (n * gd) - 1" by linarith
  then show ?thesis using assms(3) by (intro ext) (simp only: expected_def)
qed (simp add: expected_def fun_eq_iff)

lemma flush_step_idle:
  assumes "group_flush sha f w gd es s T r (Suc n) b" "0 < gd" "T \<le> n"
    "\<forall>k. k \<noteq> slotOf s (n * gd) gd \<longrightarrow> kid sha gd (n * gd) (sub (n * gd) s es) k = None"
  shows "flushBoundary sha wr (n * gd) b = Inr b \<and> group_flush sha f w gd es s T r n b"
proof -
  have u: "min (Suc n) T = min n T" "min n T = T" using assms(3) by simp_all
  obtain pres where p: "group_state sha gd es s (int (Suc n * gd) - 1) pres b" "0 < T \<longrightarrow> (T - 1) * gd \<in> pres"
      "pres \<subseteq> {d. d mod gd = 0 \<and> r < int (d + gd) \<and> d < T * gd}"
    using assms(1) unfolding group_flush_def Let_def u by (elim conjE exE)
  have n: "n * gd \<notin> pres"
  proof
    assume "n * gd \<in> pres"
    then have "n * gd < T * gd" using p(3) by blast
    then show False using assms(3) by simp
  qed
  then have none: "expected sha gd es s (int (Suc n * gd) - 1) pres (n * gd) = (\<lambda>_. None)"
      "expected sha gd es s (int (n * gd) - 1) pres (n * gd) = (\<lambda>_. None)"
    using assms(4) by (auto simp: expected_def fun_eq_iff)
  have "bucket b x = expected sha gd es s (int (n * gd) - 1) pres x" for x
  proof -
    have "bucket b x = expected sha gd es s (int (Suc n * gd) - 1) pres x" using p(1) by (simp add: group_state_def)
    then show ?thesis using none expected_drop [OF assms(2), of x n pres pres] by (cases "x = n * gd") simp_all
  qed
  moreover have "int d \<le> int (Suc n * gd) - 1" if "int d \<le> int (n * gd) - 1" for d using that by simp
  ultimately have "group_state sha gd es s (int (n * gd) - 1) pres b"
    using p(1) unfolding group_state_def by (elim conjE) (intro conjI; simp)
  then have "group_flush sha f w gd es s T r n b"
    using assms(1,3) p(2,3) unfolding group_flush_def Let_def u by (intro conjI exI [of _ pres]) auto
  moreover have "bucket b (n * gd) = (\<lambda>_. None)" using p(1) none(1) by (simp add: group_state_def)
  ultimately show ?thesis using flush_empty by blast
qed

lemma flush_step_group:
  fixes f :: "bytes \<Rightarrow> bytes \<Rightarrow> 'w \<Rightarrow> 'w"
  assumes "group_flush sha f w gd es s T r (Suc n) b" "0 < gd" "n < T" "Suc n * gd \<le> maxDepth" "r < int (n * gd)"
    "topmost s es" "nonzero_hash sha" "2 \<le> length (sub (n * gd) s es)" "below (n * gd) (sub (n * gd) s es)"
  shows "\<exists>b'. flushBoundary sha (writes f :: ('w, 'e) node_writer) (n * gd) b = Inr b' \<and> stack_eq b b' \<and>
    group_flush sha f w gd es s T r n b'"
proof -
  let ?d = "n * gd" and ?E = "sub (n * gd) s es" and ?c = "int (Suc n * gd) - 1" and ?c' = "int (n * gd) - 1"
  let ?p = "n * gd - gd"
  have u: "min (Suc n) T = Suc n" "min n T = n" using assms(3) by simp_all
  obtain pres where p: "group_state sha gd es s ?c pres b" "?d \<in> pres"
      "pres \<subseteq> {d. d mod gd = 0 \<and> r < int (d + gd) \<and> d < Suc n * gd}"
    using assms(1) unfolding group_flush_def Let_def u by auto
  note g = p(1) [unfolded group_state_def]
  define W where "W = put_rows f (lrows sha gd es s (Suc n) @ grows sha gd (Suc n * gd) (sub (Suc n * gd) s es)) w"
  have b: "bb_w b = Some W" "rootGroupHash b = None" "\<forall>i. Suc n \<le> i \<longrightarrow> i < T \<longrightarrow> makePath s (i * gd) \<in> flushedPaths b"
      "groupDepth b = gd"
    using assms(1) g unfolding group_flush_def Let_def u W_def by simp_all
  have s: "s \<in> fst ` set es" using assms(6) by (simp add: topmost_def)
  have d: "?d < maxDepth" "?d + gd \<le> maxDepth" "?d mod gd = 0" using assms(2,4) by simp_all
  have full: "bucket b ?d = kid sha gd ?d ?E"
    using g p(2) d(1,3) assms(2) by (auto simp: expected_def fun_eq_iff)
  have own: "kid sha gd ?d ?E (slotOf s ?d gd) \<noteq> None" using kid_own [OF s] by simp
  obtain t where t: "groupStemAtBoundary b ?d = Some t" "agrees ?d t s" using g full own by (metis)
  have path: "makePath t ?d = makePath s ?d" using makePath_agrees [OF t(2)] .
  define blob where "blob = serializeGroupedInternalNode gd (bucketChildren gd (kid sha gd ?d ?E))"
  define b' where "b' = flushed_to ?d t (bref sha gd ?d ?E) (f (makePath s ?d) blob W) b"
  have ne: "bucketChildren gd (bucket b ?d) \<noteq> []"
    using own full slotOf_less bucketChildren_ne by (metis not_None_eq)
  have "groupedRecursiveHash sha gd (bucketChildren gd (bucket b ?d)) = bref sha gd ?d ?E"
    unfolding full using assms(2,7-9) d(2,3) by (intro group_hash)
  then have run: "flushBoundary sha (writes f :: ('w, 'e) node_writer) ?d b = Inr b'"
    using flush_full [OF ne t(1) b(1,4) refl refl, of sha f] by (simp only: full path b'_def blob_def)
  have dg: "?d = 0 \<or> gd \<le> ?d" by (cases n) simp_all
  note F = flushed_to_fields [OF b(4) assms(2) dg b'_def]
  define pres' where "pres' = (if 0 < n then insert ?p (pres - {?d}) else pres - {?d})"
  have np: "?p \<noteq> ?d" "?p + gd = ?d" "?p mod gd = 0" "0 < ?d" if "0 < n" using that assms(2) by (cases n; simp)+
  have tp: "slotOf t ?p gd = slotOf s ?p gd" if "0 < n"
    using slotOf_eq_iff [of ?p t s gd] agrees_mono [OF t(2), of ?p] t(2) np(2) [OF that] by simp
  have bk: "bucket b' x = expected sha gd es s ?c' pres' x" for x
  proof (cases "x = ?d")
    case True
    have "?d \<notin> pres'" using np(1) by (auto simp: pres'_def)
    then show ?thesis using True by (simp add: F(1) expected_def fun_eq_iff)
  next
    case xd: False
    have old: "bucket b x = expected sha gd es s ?c pres x" using g by blast
    show ?thesis
    proof (cases "0 < n \<and> x = ?p")
      case True
      then have "bucket b' x = (expected sha gd es s ?c pres x)(slotOf s x gd \<mapsto> bref sha gd ?d ?E)"
        using F(1) [of x] xd np(4) tp old by simp
      moreover have "x + gd = ?d" using True np(2) by simp
      then have "x < ?d" using assms(2) by simp
      then have "int x \<le> ?c" "int x \<le> ?c'" unfolding int_le_pred by simp_all
      moreover have "x mod gd = 0" "x < maxDepth" "x + gd = ?d" "x \<in> pres'" using True np d(1) by (auto simp: pres'_def)
      ultimately show ?thesis
        using kid_own [OF s, of sha gd x] by (intro ext) (simp add: expected_def)
    next
      case False
      then have "x \<in> pres' \<longleftrightarrow> x \<in> pres" using xd by (auto simp: pres'_def)
      from expected_drop [OF assms(2) xd this] have "bucket b x = expected sha gd es s ?c' pres' x"
        using old by (simp only:)
      moreover have "bucket b' x = bucket b x" using F(1) [of x] xd False by auto
      ultimately show ?thesis by simp
    qed
  qed
  have "\<exists>t'. groupStemAtBoundary b' x = Some t' \<and> agrees x t' s" if x: "bucket b' x \<noteq> (\<lambda>_. None)" for x
  proof -
    have xd: "x \<noteq> ?d" using x F(1) [of ?d] by auto
    show ?thesis
    proof (cases "0 < ?d \<and> x = ?p")
      case True
      then show ?thesis using F(3) [OF xd] agrees_mono [OF t(2), of x] by simp
    next
      case False
      then have "bucket b x \<noteq> (\<lambda>_. None)" using x F(1) [of x] xd by auto
      then show ?thesis using g F(3) [OF xd] False by auto
    qed
  qed
  moreover have "bucket b' x k \<noteq> None" if k: "slot_sealed b' x k" for x k
  proof -
    have "bucket b x k \<noteq> None" if "slot_sealed b x k" using g that by blast
    then show ?thesis using k F(1) [of x] F(2) [of x k] by (auto split: if_splits)
  qed
  moreover have "\<exists>e \<in> set es. \<exists>d. d < maxDepth \<and> q = makePath (fst e) d" if "q \<in> flushedPaths b'" for q
  proof (cases "q = makePath s ?d")
    case True
    then show ?thesis using s d(1) by auto
  next
    case False
    then show ?thesis using that g by (simp add: F(4) path)
  qed
  moreover have "makePath s x \<notin> flushedPaths b'" if x: "int x \<le> ?c'" "x < maxDepth" for x
  proof -
    have "int x \<le> ?c" "x \<noteq> ?d" using x(1) by auto
    then show ?thesis using g x(2) by (simp add: F(4) makePath_eq)
  qed
  ultimately have st: "group_state sha gd es s ?c' pres' b'"
    using bk F(5,6) unfolding group_state_def by blast
  have sub: "pres' \<subseteq> {d. d mod gd = 0 \<and> r < int (d + gd) \<and> d < n * gd}"
  proof
    fix x
    assume "x \<in> pres'"
    then consider "0 < n" "x = ?p" | "x \<in> pres" "x \<noteq> ?d" by (auto simp: pres'_def split: if_splits)
    then show "x \<in> {d. d mod gd = 0 \<and> r < int (d + gd) \<and> d < n * gd}"
    proof cases
      case 1
      then show ?thesis using np assms(5) by simp
    next
      case 2
      then have x: "x mod gd = 0" "r < int (x + gd)" "x < Suc n * gd" using p(3) by auto
      then obtain q where q: "x = q * gd" by (metis mod_0_imp_dvd dvd_def mult.commute)
      then have "q < Suc n" "q \<noteq> n" using x(3) 2(2) assms(2) by (auto simp del: mult_Suc)
      then have "x < n * gd" using q assms(2) by simp
      then show ?thesis using x by simp
    qed
  qed
  have rows: "lrows sha gd es s n @ grows sha gd ?d ?E =
      (lrows sha gd es s (Suc n) @ grows sha gd (Suc n * gd) (sub (Suc n * gd) s es)) @ [(makePath s ?d, blob)]"
    using grows_path [OF assms(6) d(2) assms(2,8), of sha] by (simp add: lrows_Suc blob_def add.commute)
  have "group_flush sha f w gd es s T r n b'"
    unfolding group_flush_def Let_def u(2) rows
  proof (intro conjI exI [of _ pres'] st sub)
    show "bb_w b' = Some (put_rows f ((lrows sha gd es s (Suc n) @ grows sha gd (Suc n * gd) (sub (Suc n * gd) s es)) @
        [(makePath s ?d, blob)]) w)"
      by (simp add: F(5) W_def del: mult_Suc)
    show "rootGroupHash b' = (if n = 0 \<and> 0 < T then Some (bref sha gd 0 es) else None)"
      using assms(2,3) b(2) by (auto simp: F(7))
    have "makePath s (i * gd) \<in> flushedPaths b'" if "n \<le> i" "i < T" for i
    proof (cases "i = n")
      case False
      then show ?thesis using b(3) that by (simp add: F(4))
    qed (simp add: F(4) path)
    then show "\<forall>i. n \<le> i \<longrightarrow> i < T \<longrightarrow> makePath s (i * gd) \<in> flushedPaths b'" by blast
    show "0 < n \<longrightarrow> (n - 1) * gd \<in> pres'" by (auto simp: pres'_def diff_mult_distrib)
  qed
  then show ?thesis using run flushed_to_stack [of b ?d t] b(1) unfolding b'_def by blast
qed

end
