(* ===== verification/Bin_Grouped.thy ===== *)
theory Bin_Grouped
  imports Bin_Flush
begin

text \<open>
  The grouped mode as a whole: it writes the rows of the grouped reference trie, in post-order, and returns
  the root that the mode without a database computes.
\<close>

section \<open>The flush loop\<close>

lemma boundaries_above:
  assumes "j \<le> N" "\<And>i. j \<le> i \<Longrightarrow> r < int (i * gd)" "0 < j \<Longrightarrow> int ((j - 1) * gd) \<le> r"
  shows "takeWhile (\<lambda>bd. \<not> int bd \<le> r) (map (\<lambda>i. i * gd) (rev [0..<N])) = map (\<lambda>i. i * gd) (rev [j..<N])"
proof -
  let ?P = "\<lambda>bd. \<not> int bd \<le> r" and ?m = "\<lambda>l. map (\<lambda>i. i * gd) (rev l)"
  have "[0..<N] = [0..<j] @ [j..<N]" using assms(1) upt_add_eq_append [of 0 j "N - j"] by simp
  then have l: "?m [0..<N] = ?m [j..<N] @ ?m [0..<j]" by simp
  have "takeWhile ?P (?m [j..<N] @ ?m [0..<j]) = ?m [j..<N] @ takeWhile ?P (?m [0..<j])"
    using assms(2) by (intro takeWhile_append2) (auto simp: not_le)
  moreover have "takeWhile ?P (?m [0..<j]) = []"
  proof (cases j)
    case (Suc i)
    then show ?thesis using assms(3) by simp
  qed simp
  ultimately show ?thesis unfolding l by simp
qed

lemma boundary_count:
  assumes "0 < gd" "maxDepth mod gd = 0"
  shows "Suc ((maxDepth - 1) div gd) = maxDepth div gd" "maxDepth div gd * gd = maxDepth"
proof -
  show m: "maxDepth div gd * gd = maxDepth" using assms(2) by (simp add: mod_eq_0_iff_dvd)
  have "0 < maxDepth" by (simp add: maxDepth_def stemSize_def)
  then obtain n where n: "maxDepth div gd = Suc n" using m by (metis gr0_conv_Suc mult_0 neq0_conv)
  then have "(maxDepth - 1) div gd = n" using m assms(1) by (intro div_nat_eqI) (auto simp: mult.commute)
  then show "Suc ((maxDepth - 1) div gd) = maxDepth div gd" using n by simp
qed

definition leaf_hashes :: "leaf list \<Rightarrow> bool" where
  "leaf_hashes es \<longleftrightarrow> (\<forall>e \<in> set es. fst (snd e) \<noteq> noHash)"

lemma sub_below:
  assumes "bin_wf es" "leaf_hashes es"
  shows "below d (sub d s es)"
proof -
  have "sorted_wrt (\<lambda>a b. before (fst a) (fst b)) es" using bin_wf_before [OF assms(1)] by (simp add: sorted_wrt_map)
  then have "sorted_wrt (\<lambda>a b. before (fst a) (fst b)) (sub d s es)" unfolding sub_def by (rule sorted_wrt_filter)
  moreover have "agrees d (fst a) (fst b)" if "a \<in> set (sub d s es)" "b \<in> set (sub d s es)" for a b
    using that agrees_trans [of d "fst a" s "fst b"] agrees_sym [of d "fst b" s] by (simp add: sub_def)
  ultimately show ?thesis using assms(2) by (simp add: below_def sub_def leaf_hashes_def)
qed

lemma flush_loop:
  fixes f :: "bytes \<Rightarrow> bytes \<Rightarrow> 'w \<Rightarrow> 'w"
  assumes "group_flush sha f w gd es s T r n b" "0 < gd" "j \<le> n" "n * gd \<le> maxDepth" "\<And>i. j \<le> i \<Longrightarrow> r < int (i * gd)"
    "topmost s es" "nonzero_hash sha" "bin_wf es" "leaf_hashes es"
    and two: "\<And>i. j \<le> i \<Longrightarrow> i < T \<Longrightarrow> 2 \<le> length (sub (i * gd) s es)"
    and one: "\<And>i k. T \<le> i \<Longrightarrow> k \<noteq> slotOf s (i * gd) gd \<Longrightarrow> kid sha gd (i * gd) (sub (i * gd) s es) k = None"
  shows "\<exists>b'. foldE (flushBoundary sha (writes f :: ('w, 'e) node_writer)) (map (\<lambda>i. i * gd) (rev [j..<n])) b = Inr b' \<and>
    stack_eq b b' \<and> group_flush sha f w gd es s T r j b'"
  using assms(3,1,4)
proof (induction n arbitrary: b rule: dec_induct)
  case base
  then show ?case by auto
next
  case (step n)
  let ?wr = "writes f :: ('w, 'e) node_writer"
  have "\<exists>b1. flushBoundary sha ?wr (n * gd) b = Inr b1 \<and> stack_eq b b1 \<and> group_flush sha f w gd es s T r n b1"
  proof (cases "n < T")
    case True
    then show ?thesis
      using step.prems step.hyps assms(2,5-9) two sub_below by (intro flush_step_group) auto
  next
    case False
    then show ?thesis using flush_step_idle [OF step.prems(1) assms(2)] one stack_eq_refl by (metis not_less)
  qed
  then obtain b1 where b1: "flushBoundary sha ?wr (n * gd) b = Inr b1" "stack_eq b b1" "group_flush sha f w gd es s T r n b1"
    by (elim exE conjE)
  have "n * gd \<le> maxDepth" using step.prems(2) by simp
  from step.IH [OF b1(3) this] obtain b2 where
    "foldE (flushBoundary sha ?wr) (map (\<lambda>i. i * gd) (rev [j..<n])) b1 = Inr b2" "stack_eq b1 b2" "group_flush sha f w gd es s T r j b2"
    by (elim exE conjE)
  then show ?case using b1 step.hyps stack_eq_trans [OF b1(2)] by simp
qed

lemma climb_flush:
  assumes "bin_wf (es @ [e])" "0 < gd" "maxDepth mod gd = 0" "- 1 \<le> r" "r < int maxDepth" "td = placeDepth gd es e r"
    "group_climb sha f w gd es e td r b"
  shows "group_flush sha f w gd (es @ [e]) (fst e) (td div gd) r (maxDepth div gd) b"
proof -
  note td = placeDepth_facts [OF assms(1-6)]
  note N = boundary_count [OF assms(2,3)]
  obtain pres where p: "group_state sha gd (es @ [e]) (fst e) (int maxDepth) pres b" "0 < td \<longrightarrow> td - gd \<in> pres"
      "pres \<subseteq> {d. d mod gd = 0 \<and> r < int (d + gd) \<and> d + gd \<le> td}"
    using assms(7) unfolding group_climb_def by (elim conjE exE)
  have u: "min (maxDepth div gd) (td div gd) = td div gd" using td(3) div_le_mono by simp
  have "expected sha gd (es @ [e]) (fst e) (int maxDepth) pres d =
      expected sha gd (es @ [e]) (fst e) (int (maxDepth div gd * gd) - 1) pres d" for d
    unfolding N(2) expected_def int_le_pred by (auto simp: fun_eq_iff)
  then have "bucket b d = expected sha gd (es @ [e]) (fst e) (int (maxDepth div gd * gd) - 1) pres d" for d
    using p(1) by (simp add: group_state_def)
  moreover have "int d \<le> int maxDepth" if "int d \<le> int (maxDepth div gd * gd) - 1" for d using that by (simp add: N(2))
  ultimately have st: "group_state sha gd (es @ [e]) (fst e) (int (maxDepth div gd * gd) - 1) pres b"
    using p(1) unfolding group_state_def by (elim conjE) (intro conjI; simp)
  have "0 < maxDepth div gd" using N(1) by simp
  moreover have "(td div gd - 1) * gd = td - gd" using td(7) by (simp add: diff_mult_distrib)
  moreover have "\<not> (maxDepth div gd \<le> i \<and> i < td div gd)" for i using u by linarith
  moreover have "0 < td" if "0 < td div gd" using that by (cases td) simp_all
  moreover have "pres \<subseteq> {d. d mod gd = 0 \<and> r < int (d + gd) \<and> d < td div gd * gd}"
    using p(3) assms(2) unfolding td(7) by auto
  ultimately show ?thesis
    using assms(7) st p(2) td(6,7) unfolding group_flush_def Let_def u group_climb_def
    by (intro conjI exI [of _ pres]) auto
qed

text \<open>All boundaries above a depth at once.\<close>

lemma flush_above:
  fixes f :: "bytes \<Rightarrow> bytes \<Rightarrow> 'w \<Rightarrow> 'w"
  assumes "bin_wf (es @ [e])" "0 < gd" "maxDepth mod gd = 0" "- 1 \<le> r" "r < int maxDepth" "td = placeDepth gd es e r"
    "group_climb sha f w gd es e td r b" "nonzero_hash sha" "leaf_hashes (es @ [e])" "j = nat ((r + int gd) div int gd)"
  shows "\<exists>b'. flushCompletedGroupsAbove sha (writes f :: ('w, 'e) node_writer) r b = Inr b' \<and> stack_eq b b' \<and>
    group_flush sha f w gd (es @ [e]) (fst e) (td div gd) r j b'"
proof -
  let ?N = "maxDepth div gd" and ?T = "td div gd" and ?s = "fst e" and ?es = "es @ [e]"
  note td = placeDepth_facts [OF assms(1-6)]
  note N = boundary_count [OF assms(2,3)]
  define q where "q = (r + int gd) div int gd"
  define m where "m = (r + int gd) mod int gd"
  have m: "q * int gd + m = r + int gd" "0 \<le> m" "m < int gd"
    using assms(2) by (simp_all only: m_def q_def div_mult_mod_eq) simp_all
  have q: "0 \<le> q" "q * int gd \<le> r + int gd" "r + int gd < (q + 1) * int gd"
    using m assms(2,4) by (simp_all add: distrib_right) (simp add: q_def pos_imp_zdiv_nonneg_iff)
  have jq: "int j = q" using q(1) assms(10) by (simp add: q_def)
  have above: "r < int (i * gd)" if "j \<le> i" for i
  proof -
    have "q * int gd \<le> int i * int gd" using that jq by (intro mult_right_mono) simp_all
    then show ?thesis using q(3) by (simp add: distrib_right)
  qed
  have below_j: "int ((j - 1) * gd) \<le> r" if "0 < j"
    using that q(2) jq by (simp add: of_nat_diff left_diff_distrib)
  have jN: "j \<le> ?N"
  proof (rule ccontr)
    assume "\<not> j \<le> ?N"
    then have "int (?N * gd) \<le> int ((j - 1) * gd)" by (simp only: of_nat_le_iff) (intro mult_le_mono1, simp)
    then show False using below_j \<open>\<not> j \<le> ?N\<close> assms(5) N(2) by simp
  qed
  have gd: "groupDepth b = gd" "bb_w b \<noteq> None" using assms(7) by (auto simp: group_climb_def group_state_def)
  have "flushCompletedGroupsAbove sha (writes f :: ('w, 'e) node_writer) r b =
      foldE (flushBoundary sha (writes f)) (map (\<lambda>i. i * gd) (rev [j..<?N])) b"
    unfolding flushCompletedGroupsAbove_def Let_def gd(1) N(1)
    using gd(2) assms(2) by (simp only: boundaries_above [OF jN above below_j]) simp
  moreover have "\<exists>b'. foldE (flushBoundary sha (writes f :: ('w, 'e) node_writer)) (map (\<lambda>i. i * gd) (rev [j..<?N])) b = Inr b' \<and>
      stack_eq b b' \<and> group_flush sha f w gd ?es ?s ?T r j b'"
  proof (rule flush_loop [OF climb_flush [OF assms(1-7)] assms(2) jN])
    show "?N * gd \<le> maxDepth" by (simp add: N(2))
    show "topmost ?s ?es" using bin_wf_topmost(1) [OF assms(1)] by simp
    show "2 \<le> length (sub (i * gd) ?s ?es)" if i: "j \<le> i" "i < ?T" for i
    proof -
      have "i * gd < td" using i(2) assms(2) td(7) by (metis mult_less_mono1)
      moreover have "nat (r + 1) \<le> i * gd" using above [OF i(1)] assms(4) by linarith
      moreover have "extDepth gd (i * gd) = i * gd" by (rule extDepth_mult)
      ultimately show ?thesis using split_depth [OF assms(1,4), of "i * gd" gd] assms(6) by simp
    qed
    show "kid sha gd (i * gd) (sub (i * gd) ?s ?es) k = None" if i: "?T \<le> i" "k \<noteq> slotOf ?s (i * gd) gd" for i k
    proof -
      have "td \<le> i * gd" using i(1) td(7) by (metis mult_le_mono1)
      then have "sub (i * gd) ?s ?es = [e]" using sub_last [OF assms(1), of "i * gd"] td(5) by linarith
      then show ?thesis using kid_single i(2) by simp
    qed
  qed (use assms above in auto)
  ultimately show ?thesis by simp
qed

lemma flush_done:
  assumes "bin_wf (es @ [e])" "0 < gd" "maxDepth mod gd = 0" "c < maxDepth" "td = placeDepth gd es e (int c)"
    "group_flush sha f w gd (es @ [e]) (fst e) (td div gd) (int c) (nat ((int c + int gd) div int gd)) b"
  shows "group_done sha f w gd (es @ [e]) c b"
proof -
  let ?s = "fst e" and ?es = "es @ [e]" and ?j = "Suc (c div gd)"
  have cm: "- 1 \<le> int c" "int c < int maxDepth" using assms(4) by simp_all
  note td = placeDepth_facts [OF assms(1-3) cm assms(5)]
  have "int ((c + gd) div gd) = (int c + int gd) div int gd" by (simp add: zdiv_int)
  then have j: "nat ((int c + int gd) div int gd) = ?j" using assms(2) by (metis div_add_self2 nat_int neq0_conv Suc_eq_plus1)
  have cj: "c < ?j * gd" "(?j - 1) * gd \<le> c" using dividend_less_div_times [OF assms(2), of c] by simp_all
  have "?j * gd \<le> td div gd * gd"
  proof (rule mult_le_mono1)
    have "c < td div gd * gd" using td(4,7) by simp
    then show "?j \<le> td div gd" using less_mult_imp_div_less by (simp add: Suc_leI)
  qed
  then have u: "min ?j (td div gd) = ?j" using assms(2) by (simp del: mult_Suc)
  obtain pres where p: "group_state sha gd ?es ?s (int (?j * gd) - 1) pres b" "(?j - 1) * gd \<in> pres"
      "pres \<subseteq> {d. d mod gd = 0 \<and> int c < int (d + gd) \<and> d < ?j * gd}"
    using assms(6) unfolding group_flush_def Let_def j u by auto
  have pr: "pres = {c div gd * gd}"
  proof -
    have "x = c div gd * gd" if "x \<in> pres" for x
    proof -
      have x: "x mod gd = 0" "c < x + gd" "x < ?j * gd" using p(3) that by auto
      then obtain q where q: "x = q * gd" by (metis mod_0_imp_dvd dvd_def mult.commute)
      have "c div gd < Suc q" using x(2) q by (intro less_mult_imp_div_less) simp
      moreover have "q < ?j" using x(3) q by (simp del: mult_Suc)
      ultimately have "q = c div gd" by linarith
      then show ?thesis using q by blast
    qed
    then have "pres \<subseteq> {c div gd * gd}" by blast
    moreover have "c div gd * gd \<in> pres" using p(2) by (simp only: diff_Suc_1)
    ultimately show ?thesis by blast
  qed
  have ex: "expected sha gd ?es ?s (int (?j * gd) - 1) pres d = expected sha gd ?es ?s (int c) {c div gd * gd} d" for d
  proof (cases "d mod gd = 0")
    case True
    then obtain q where q: "d = q * gd" by (metis mod_0_imp_dvd dvd_def mult.commute)
    have "d < ?j * gd \<longleftrightarrow> d \<le> c"
    proof
      assume "d < ?j * gd"
      then have "q \<le> c div gd" using q by (simp del: mult_Suc)
      then have "d \<le> c div gd * gd" using q by simp
      then show "d \<le> c" using div_times_less_eq_dividend le_trans by blast
    qed (use cj in simp)
    then have "int d \<le> int (?j * gd) - 1 \<longleftrightarrow> int d \<le> int c" unfolding int_le_pred by simp
    then show ?thesis unfolding pr by (intro ext) (simp only: expected_def)
  qed (simp add: expected_def fun_eq_iff)
  have "bucket b d = expected sha gd ?es ?s (int c) {c div gd * gd} d" for d
    using p(1) ex [of d] by (simp only: group_state_def)
  moreover have "int d \<le> int (?j * gd) - 1" if "int d \<le> int c" for d
    using that cj(1) unfolding int_le_pred by simp
  ultimately have "group_state sha gd ?es ?s (int c) {c div gd * gd} b"
    using p(1) unfolding group_state_def by (elim conjE) (intro conjI; simp)
  moreover have "makePath ?s d \<in> flushedPaths b"
    if d: "d mod gd = 0" "c < d" "2 \<le> length (sub d ?s ?es)" for d
  proof -
    obtain q where q: "d = q * gd" using d(1) by (metis mod_0_imp_dvd dvd_def mult.commute)
    have "\<not> td \<le> d" using sub_last [OF assms(1), of d] td(5) d(3) by auto
    then have "q < td div gd" using q td(7) by (metis mult_le_mono1 not_less)
    moreover have "c div gd < q" using d(2) q by (intro less_mult_imp_div_less) simp
    ultimately show ?thesis using assms(6) q unfolding group_flush_def Let_def j by simp
  qed
  ultimately show ?thesis
    using assms(6) unfolding group_flush_def group_done_def Let_def j u by simp
qed

section \<open>Feeding and finishing\<close>

lemma settled_stack:
  assumes "settled sha f w0 es lo b" "stack_eq b b'" "0 < groupDepth b"
  shows "settled sha f w0 es lo b'"
proof -
  have e: "bb_stack b' = bb_stack b" "bb_occupied b' = bb_occupied b" "bb_isRight b' = bb_isRight b"
      "bb_stemBits b' = bb_stemBits b" "groupDepth b' = groupDepth b" "bb_w b' = None \<longleftrightarrow> bb_w b = None"
    using assms(2) by (simp_all add: stack_eq_def same_feed_def)
  have "logged f w0 rs b' = logged f w0 rs b" for rs using e(5,6) assms(3) by (simp add: logged_def)
  moreover have "holds_lefts sha d s es b' = holds_lefts sha d s es b" "empty_from d b' = empty_from d b" for d s es
    using e by (simp_all add: holds_lefts_def empty_from_def)
  ultimately show ?thesis using assms(1) e unfolding settled_def waits_def rooted_def by simp
qed

definition grouped :: "hash_fun \<Rightarrow> (bytes \<Rightarrow> bytes \<Rightarrow> 'w \<Rightarrow> 'w) \<Rightarrow> 'w \<Rightarrow> nat \<Rightarrow> leaf list \<Rightarrow> 'w binBuilder \<Rightarrow> bool" where
  "grouped sha f w gd es b \<longleftrightarrow> fed sha f (Some w) gd es b \<and>
     (if es = [] then group_start gd w b else group_before sha f w gd (butlast es) (fst (last es)) b)"

lemma grouped_new: "grouped sha f w gd [] (newBinBuilder gd (Some w))"
  using fed_new [of sha f "Some w" gd] by (simp add: grouped_def group_start_def newBinBuilder_def)

text \<open>The deferred stem is placed; the groups are not flushed yet.\<close>

lemma grouped_place:
  fixes f :: "bytes \<Rightarrow> bytes \<Rightarrow> 'w \<Rightarrow> 'w"
  assumes "grouped sha f w gd (es @ [e]) b" "bin_wf (es @ [e])" "0 < gd" "maxDepth mod gd = 0"
    "- 1 \<le> r" "r < int maxDepth" "r = - 1 \<or> \<not> sbit (fst e) (nat r)"
  shows "\<exists>b'. flushDeferred sha (writes f :: ('w, 'e) node_writer) r b = Inr b' \<and> same_feed (\<lambda>_. True) b b' \<and>
    group_climb sha f w gd es e (placeDepth gd es e r) r b' \<and> settled sha f (Some w) (es @ [e]) (nat (r + 1)) b'"
proof -
  let ?K1 = "group_before sha f w gd es (fst e)" and ?td = "placeDepth gd es e r"
  have b: "deferred sha f (Some w) es e b" "groupDepth b = gd" "?K1 b" using assms(1) by (simp_all add: grouped_def fed_def)
  note td = placeDepth_facts [OF assms(2-6) refl]
  have "\<exists>b'. flushDeferred sha (writes f :: ('w, 'e) node_writer) r b = Inr b' \<and> same_feed (\<lambda>_. True) b b' \<and>
      (0 < groupDepth b \<longrightarrow> ?K1 b \<longrightarrow> group_climb sha f w gd es e ?td r b') \<and> settled sha f (Some w) (es @ [e]) (nat (r + 1)) b'"
  proof (rule flush_deferred [OF assms(2) b(1) _ assms(5-7)])
    show "groupDepth b = 0 \<or> maxDepth mod groupDepth b = 0" using assms(4) b(2) by simp
    show "\<forall>n \<le> maxDepth. splitting (groupDepth b) (nat (leftCPL es (fst e) + 1)) n (fst (last es)) es \<longrightarrow>
        kept sha (nat (leftCPL es (fst e) + 1)) n (fst (last es)) es ?K1" if ne: "es \<noteq> []"
    proof (intro allI impI)
      fix n
      assume "n \<le> maxDepth" "splitting (groupDepth b) (nat (leftCPL es (fst e) + 1)) n (fst (last es)) es"
      moreover have "nat (leftCPL es (fst e) + 1) = Suc (commonPrefixLenBits (fst (last es)) (fst e))"
        using ne by (simp add: leftCPL_def)
      ultimately show "kept sha (nat (leftCPL es (fst e) + 1)) n (fst (last es)) es ?K1"
        using bin_wf_snoc(2) [OF assms(2) ne refl] b(2) assms(3) ne by (intro kept_before) simp_all
    qed
    show "\<forall>b1. 0 < groupDepth b \<longrightarrow> groupDepth b1 = groupDepth b \<longrightarrow> ?K1 b1 \<longrightarrow>
        group_climb sha f w gd es e ?td r (placed f (placeDepth (groupDepth b) es e r) e b1)"
      unfolding b(2) by (intro allI impI placed_climb [OF assms(2-6) refl])
    show "kept sha (nat (r + 1)) (placeDepth (groupDepth b) es e r) (fst e) (es @ [e]) (group_climb sha f w gd es e ?td r)"
      unfolding b(2) using assms(3) td(3) by (rule kept_climb)
  qed
  then obtain b' where "flushDeferred sha (writes f :: ('w, 'e) node_writer) r b = Inr b'" "same_feed (\<lambda>_. True) b b'"
      "0 < groupDepth b \<longrightarrow> ?K1 b \<longrightarrow> group_climb sha f w gd es e ?td r b'" "settled sha f (Some w) (es @ [e]) (nat (r + 1)) b'"
    by (elim exE conjE)
  then show ?thesis using b(2,3) assms(3) by (intro exI [of _ b']) simp
qed

lemma grouped_feed:
  fixes f :: "bytes \<Rightarrow> bytes \<Rightarrow> 'w \<Rightarrow> 'w"
  assumes "grouped sha f w gd es b" "bin_wf (es @ [(s, h, en)])" "0 < gd" "maxDepth mod gd = 0" "nonzero_hash sha" "leaf_hashes es"
  shows "\<exists>b'. feedStem sha (writes f :: ('w, 'e) node_writer) s h en b = Inr b' \<and> grouped sha f w gd (es @ [(s, h, en)]) b'"
proof -
  let ?wr = "writes f :: ('w, 'e) node_writer" and ?x = "(s, h, en)"
  let ?next = "\<lambda>b. b\<lparr>hasPrev := True, prevHash := h, prevStem := take stemSize s, prevLeftCPL := leftCPL es s,
    prevEntries := (if bb_w b = None then [] else en)\<rparr>"
  have len: "take stemSize s = s" using assms(2) by (simp add: bin_wf_def)
  have fin: "grouped sha f w gd (es @ [?x]) (?next b1)"
    if "settled sha f (Some w) es (nat (leftCPL es s + 1)) b1" "groupDepth b1 = gd" "group_before sha f w gd es s b1" for b1
  proof -
    have "groups_eq b1 (?next b1)" by (simp add: groups_eq_def)
    then have "group_before sha f w gd es s (?next b1)"
      using that(3) group_done_eq by (auto simp: group_before_def group_start_def split: if_splits)
    then show ?thesis
      using settled_fields [OF that(1), of "?next b1"] settled_none [OF that(1)] that(2) len
      by (auto simp: grouped_def fed_def deferred_def)
  qed
  show ?thesis
  proof (cases "es = []")
    case True
    then have "feedStem sha ?wr s h en b = Inr (?next b)"
      using assms(1) by (simp add: feedStem_def grouped_def fed_def leftCPL_def)
    then show ?thesis using fin [of b] assms(1) True by (simp add: grouped_def fed_def leftCPL_def group_before_def)
  next
    case False
    let ?c = "commonPrefixLenBits (fst (last es)) s" and ?pre = "butlast es" and ?e = "last es"
    let ?td = "placeDepth gd ?pre ?e (int ?c)"
    note wf = bin_wf_snoc [OF assms(2) False refl, unfolded fst_conv]
    have es: "?pre @ [?e] = es" using False by simp
    have wf': "bin_wf (?pre @ [?e])" using wf(1) es by simp
    have c: "- 1 \<le> int ?c" "int ?c < int maxDepth" using wf(2) by simp_all
    have "\<exists>b'. flushDeferred sha ?wr (int ?c) b = Inr b' \<and> same_feed (\<lambda>_. True) b b' \<and>
        group_climb sha f w gd ?pre ?e ?td (int ?c) b' \<and> settled sha f (Some w) (?pre @ [?e]) (nat (int ?c + 1)) b'"
      using assms(1) wf' assms(3,4) c wf(4) by (intro grouped_place) (simp_all add: es)
    then obtain b1 where b1: "flushDeferred sha ?wr (int ?c) b = Inr b1" "same_feed (\<lambda>_. True) b b1"
        "group_climb sha f w gd ?pre ?e ?td (int ?c) b1" "settled sha f (Some w) es (nat (int ?c + 1)) b1"
      unfolding es by (elim exE conjE)
    have lh: "leaf_hashes (?pre @ [?e])" using assms(6) es by simp
    have "\<exists>b'. flushCompletedGroupsAbove sha ?wr (int ?c) b1 = Inr b' \<and> stack_eq b1 b' \<and>
        group_flush sha f w gd (?pre @ [?e]) (fst ?e) (?td div gd) (int ?c) (nat ((int ?c + int gd) div int gd)) b'"
      by (rule flush_above [OF wf' assms(3,4) c refl b1(3) assms(5) lh refl])
    then obtain b2 where b2: "flushCompletedGroupsAbove sha ?wr (int ?c) b1 = Inr b2" "stack_eq b1 b2"
        "group_flush sha f w gd (?pre @ [?e]) (fst ?e) (?td div gd) (int ?c) (nat ((int ?c + int gd) div int gd)) b2"
      by (elim exE conjE)
    have d: "group_done sha f w gd es ?c b2"
      using flush_done [OF wf' assms(3,4) wf(2) refl b2(3)] es by simp
    have g1: "groupDepth b1 = gd" "hasPrev b" "prevStem b = fst ?e"
      using b1(2) assms(1) False by (simp_all add: same_feed_def grouped_def fed_def deferred_def)
    have g2: "groupDepth b2 = gd" using d by (simp add: group_done_def Let_def group_state_def)
    have "settled sha f (Some w) es (nat (leftCPL es s + 1)) b2"
      using settled_stack [OF b1(4) b2(2)] g1(1) assms(3) False by (simp add: leftCPL_def)
    then have "grouped sha f w gd (es @ [?x]) (?next b2)" using fin g2 d False by (simp add: group_before_def)
    moreover have "feedStem sha ?wr s h en b = Inr (?next b2)"
      using b1(1) b2(1) g1(2,3) False by (simp add: feedStem_def leftCPL_def Let_def)
    ultimately show ?thesis by blast
  qed
qed

lemma flush_pending:
  "(case groupBuf b d of None \<Rightarrow> False | Some m \<Rightarrow> bucketChildren gd m \<noteq> []) \<longleftrightarrow> bucketChildren gd (bucket b d) \<noteq> []"
  by (simp add: bucket_def bucketChildren_empty split: option.split)

text \<open>The last stem: everything is unwound and flushed.\<close>

lemma grouped_unwind:
  fixes f :: "bytes \<Rightarrow> bytes \<Rightarrow> 'w \<Rightarrow> 'w"
  assumes "settled sha f (Some w) (es @ [e]) 0 b" "group_climb sha f w gd es e td (- 1) b" "td = placeDepth gd es e (- 1)"
    "bin_wf (es @ [e])" "0 < gd" "maxDepth mod gd = 0"
  shows "\<exists>b'. unwindTo sha (writes f :: ('w, 'e) node_writer) 0 b = Inr b' \<and> same_feed (\<lambda>_. True) b b' \<and>
    rooted sha f (Some w) (es @ [e]) b' \<and> group_climb sha f w gd es e td (- 1) b'"
proof -
  let ?es = "es @ [e]" and ?s = "fst e" and ?K = "group_climb sha f w gd es e td (- 1)"
  have r: "- 1 \<le> (- 1 :: int)" "- 1 < int maxDepth" by simp_all
  note td = placeDepth_facts [OF assms(4-6) r assms(3)]
  have gd: "groupDepth b = gd" using assms(2) by (auto simp: group_climb_def group_state_def)
  have "\<exists>n \<le> maxDepth. splitting gd 0 n ?s ?es \<and>
      ((\<exists>q < n. 0 \<le> Suc q \<and> waits sha f (Some w) q ?s ?es b) \<or> (0 :: nat) = 0 \<and> rooted sha f (Some w) ?es b)"
    using assms(1) by (simp add: settled_def gd)
  then obtain n where n: "n \<le> maxDepth" "splitting gd 0 n ?s ?es"
      "(\<exists>q < n. 0 \<le> Suc q \<and> waits sha f (Some w) q ?s ?es b) \<or> (0 :: nat) = 0 \<and> rooted sha f (Some w) ?es b"
    by (elim exE conjE)
  have ntd: "n \<le> td"
  proof (rule ccontr)
    assume "\<not> n \<le> td"
    then have "2 \<le> length (sub td ?s ?es) \<or> td < extDepth gd td" using n(2) by (simp add: splitting_def)
    then show False using td(6) extDepth_mult [of gd "td div gd"] td(7) by simp
  qed
  have "kept sha (nat (- 1 + 1)) td ?s ?es ?K" using assms(5) td(3) by (rule kept_climb)
  then have k: "kept sha 0 n ?s ?es ?K" using kept_mono [OF _ ntd] by simp
  have tm: "topmost ?s ?es" "length ?s = stemSize" using bin_wf_topmost [OF assms(4)] by simp_all
  have "\<exists>b'. unwindTo sha (writes f :: ('w, 'e) node_writer) 0 b = Inr b' \<and> same_feed ?K b b' \<and>
      (if (0 :: nat) = 0 then rooted sha f (Some w) ?es b' else waits sha f (Some w) (0 - 1) ?s ?es b')"
    using n(1) _ tm n(2) [unfolded splitting_def] n(3) k by (intro unwindTo_all) (simp_all add: gd)
  then show ?thesis using assms(2,5) gd by (auto simp: same_feed_def)
qed

lemma grouped_finish:
  fixes f :: "bytes \<Rightarrow> bytes \<Rightarrow> 'w \<Rightarrow> 'w"
  assumes "grouped sha f w gd es b" "bin_wf es" "es \<noteq> []" "0 < gd" "maxDepth mod gd = 0" "nonzero_hash sha" "leaf_hashes es"
  shows "\<exists>b'. bin_finish sha (writes f :: ('w, 'e) node_writer) b = Inr (bref sha gd 0 es, b') \<and>
    bb_w b' = Some (put_rows f (grows sha gd 0 es) w)"
proof -
  let ?wr = "writes f :: ('w, 'e) node_writer" and ?pre = "butlast es" and ?e = "last es"
  let ?td = "placeDepth gd ?pre ?e (- 1)"
  have es: "?pre @ [?e] = es" using assms(3) by simp
  have wf: "bin_wf (?pre @ [?e])" and lh: "leaf_hashes (?pre @ [?e])" using assms(2,7) es by simp_all
  have r: "- 1 \<le> (- 1 :: int)" "- 1 < int maxDepth" by simp_all
  have "\<exists>b'. flushDeferred sha ?wr (- 1) b = Inr b' \<and> same_feed (\<lambda>_. True) b b' \<and>
      group_climb sha f w gd ?pre ?e ?td (- 1) b' \<and> settled sha f (Some w) (?pre @ [?e]) (nat (- 1 + 1)) b'"
    using assms(1,4,5) wf r by (intro grouped_place) (simp_all add: es)
  then obtain b1 where b1: "flushDeferred sha ?wr (- 1) b = Inr b1" "group_climb sha f w gd ?pre ?e ?td (- 1) b1"
      "settled sha f (Some w) (?pre @ [?e]) 0 b1"
    by auto
  obtain b2 where b2: "unwindTo sha ?wr 0 b1 = Inr b2" "rooted sha f (Some w) es b2" "group_climb sha f w gd ?pre ?e ?td (- 1) b2"
    using grouped_unwind [OF b1(3,2) refl wf assms(4,5)] unfolding es by blast
  have "\<exists>b'. flushCompletedGroupsAbove sha ?wr (- 1) b2 = Inr b' \<and> stack_eq b2 b' \<and>
      group_flush sha f w gd (?pre @ [?e]) (fst ?e) (?td div gd) (- 1) 0 b'"
    using flush_above [OF wf assms(4,5) r refl b2(3) assms(6) lh refl] assms(4) by simp
  then obtain b3 where b3: "flushCompletedGroupsAbove sha ?wr (- 1) b2 = Inr b3" "stack_eq b2 b3"
      "group_flush sha f w gd es (fst ?e) (?td div gd) (- 1) 0 b3"
    unfolding es by (elim exE conjE)
  have w: "bb_w b3 = Some (put_rows f (grows sha gd 0 es) w)"
    using b3(3) by (simp add: group_flush_def lrows_def)
  obtain pres where p: "group_state sha gd es (fst ?e) (- 1) pres b3" "pres = {}"
    using b3(3) unfolding group_flush_def Let_def by auto
  have gd: "groupDepth b2 = gd" "groupDepth b3 = gd"
    using b2(3) p(1) by (auto simp: group_climb_def group_state_def)
  have "bucket b3 d = (\<lambda>_. None)" for d
    using p by (auto simp: group_state_def expected_def fun_eq_iff)
  then have none: "\<not> list_ex (\<lambda>bd. case groupBuf b3 bd of None \<Rightarrow> False | Some m \<Rightarrow> bucketChildren gd m \<noteq> []) [0..<maxDepth]"
    unfolding flush_pending by (simp add: bucketChildren_empty list_ex_iff)
  have st: "bb_stack b3 0 = bref sha gd 0 es" using b2(2) b3(2) gd by (simp add: rooted_def stack_eq_def)
  have "rootGroupHash b3 = Some (bref sha gd 0 es) \<or> rootGroupHash b3 = None"
    using b3(3) by (simp add: group_flush_def Let_def)
  then have "bin_finish sha ?wr b = Inr (bref sha gd 0 es, b3)"
    using assms(1,3,4) b1(1) b2(1) b3(1) none st w gd(2)
    by (auto simp: bin_finish_def grouped_def fed_def deferred_def)
  then show ?thesis using w by blast
qed

lemma grouped_all:
  fixes f :: "bytes \<Rightarrow> bytes \<Rightarrow> 'w \<Rightarrow> 'w"
  assumes "grouped sha f w gd pre b" "bin_wf (pre @ es)" "0 < gd" "maxDepth mod gd = 0" "nonzero_hash sha" "leaf_hashes (pre @ es)"
  shows "\<exists>b'. foldE (\<lambda>(s, h, en). feedStem sha (writes f :: ('w, 'e) node_writer) s h en) es b = Inr b' \<and>
    grouped sha f w gd (pre @ es) b'"
  using assms(1,2,6)
proof (induction es arbitrary: pre b)
  case (Cons e es)
  obtain s h en where e: "e = (s, h, en)" by (cases e)
  have "bin_wf (pre @ [e])" "leaf_hashes pre"
    using Cons.prems(2,3) by (auto simp: bin_wf_def sorted_wrt_append leaf_hashes_def)
  then obtain b1 where "feedStem sha (writes f :: ('w, 'e) node_writer) s h en b = Inr b1" "grouped sha f w gd (pre @ [e]) b1"
    using grouped_feed [OF Cons.prems(1) _ assms(3-5)] unfolding e by blast
  then show ?case using Cons.IH [of "pre @ [e]" b1] Cons.prems(2,3) by (simp add: e)
qed simp

lemma stemLeaves_hashes: "nonzero_hash sha \<Longrightarrow> leaf_hashes (stemLeaves sha es)"
  by (auto simp: leaf_hashes_def stemLeaves_def stemLeaf_def stem_hash_merkle nonzero_hash_def)

lemma grouped_entries_root:
  fixes f :: "bytes \<Rightarrow> bytes \<Rightarrow> 'w \<Rightarrow> 'w"
  assumes "entries_wf entries" "0 < gd" "maxDepth mod gd = 0" "nonzero_hash sha"
  shows "computeBinaryRootStreamingFromSlice sha (writes f :: ('w, 'e) node_writer) entries (Some w) gd =
    Inr (bref sha gd 0 (stemLeaves sha entries), Some (put_rows f (grows sha gd 0 (stemLeaves sha entries)) w))"
proof (cases entries)
  case Nil
  then show ?thesis by (simp add: computeBinaryRootStreamingFromSlice_def stemLeaves_def)
next
  case (Cons e es)
  let ?wr = "writes f :: ('w, 'e) node_writer" and ?ls = "stemLeaves sha entries"
  note wf = stemLeaves_wf [OF assms(1), of sha] and lh = stemLeaves_hashes [OF assms(4), of entries]
  have "feedGroups sha ?wr (keyStem e) [e] es (newBinBuilder gd (Some w)) =
      foldE (\<lambda>(s, h, en). feedStem sha ?wr s h en) ?ls (newBinBuilder gd (Some w))"
    using feedGroups_leaves assms(1) unfolding Cons by blast
  moreover obtain b where b: "foldE (\<lambda>(s, h, en). feedStem sha ?wr s h en) ?ls (newBinBuilder gd (Some w)) = Inr b"
      "grouped sha f w gd ?ls b"
    using grouped_all [OF grouped_new [of sha f w gd], of ?ls] wf lh assms(2-4) by auto
  moreover have "?ls \<noteq> []" by (simp add: stemLeaves_def Cons)
  moreover from this obtain b' where "bin_finish sha ?wr b = Inr (bref sha gd 0 ?ls, b')"
      "bb_w b' = Some (put_rows f (grows sha gd 0 ?ls) w)"
    using grouped_finish [OF b(2) wf _ assms(2-4) lh] by blast
  ultimately show ?thesis by (simp add: computeBinaryRootStreamingFromSlice_def Cons keyStem_def)
qed

section \<open>One write per path\<close>

lemma below_slot:
  assumes "below d es"
  shows "below (d + gd) (slotLeaves gd d k es)"
proof -
  have "agrees (d + gd) (fst a) (fst b)" if "a \<in> set (slotLeaves gd d k es)" "b \<in> set (slotLeaves gd d k es)" for a b
  proof -
    have "agrees d (fst a) (fst b)" "slotOf (fst a) d gd = slotOf (fst b) d gd"
      using that assms by (auto simp: slotLeaves_def below_def)
    then show ?thesis using slotOf_eq_iff by blast
  qed
  moreover have "sorted_wrt (\<lambda>a b. before (fst a) (fst b)) (slotLeaves gd d k es)"
    using assms unfolding slotLeaves_def below_def by (intro sorted_wrt_filter) simp
  ultimately show ?thesis using assms by (simp add: below_def slotLeaves_def)
qed

text \<open>A row of a subtree stands at the path of one of its leaves, not above the subtree.\<close>

lemma grows_small: "\<not> (2 \<le> length es \<and> d < maxDepth \<and> 0 < gd) \<Longrightarrow>
    grows sha gd d es = [] \<or> (\<exists>e. es = [e] \<and> grows sha gd d es = [(makePath (fst e) d, serializeStemNode (fst e) (snd (snd e)))])"
  by (subst (1 2) grows.simps) (auto split: list.split simp: Suc_le_eq)

lemma grows_paths:
  assumes "below d es" "row \<in> set (grows sha gd d es)"
  shows "\<exists>e \<in> set es. \<exists>n \<ge> d. fst row = makePath (fst e) n"
  using assms
proof (induction "maxDepth - d" arbitrary: d es rule: less_induct)
  case less
  show ?case
  proof (cases "2 \<le> length es \<and> d < maxDepth \<and> 0 < gd")
    case True
    then consider "fst row = makePath (fst (hd es)) d" | k where "row \<in> set (grows sha gd (d + gd) (slotLeaves gd d k es))"
      using less.prems(2) grows_step [of d gd es sha] by auto
    then show ?thesis
    proof cases
      case 1
      moreover have "hd es \<in> set es" using True by (intro hd_in_set) auto
      ultimately show ?thesis by blast
    next
      case (2 k)
      have "maxDepth - (d + gd) < maxDepth - d" using True by (intro diff_less_mono2) simp_all
      from less.hyps [OF this below_slot [OF less.prems(1)] 2] obtain e n where
        "e \<in> set (slotLeaves gd d k es)" "d + gd \<le> n" "fst row = makePath (fst e) n" by blast
      then show ?thesis by (intro bexI [of _ e] exI [of _ n]) (auto simp: slotLeaves_def)
    qed
  next
    case False
    from grows_small [OF this, of sha] less.prems(2) obtain e where
      "es = [e]" "row = (makePath (fst e) d, serializeStemNode (fst e) (snd (snd e)))" by auto
    then show ?thesis by auto
  qed
qed

lemma distinct_concat_map:
  assumes "distinct ks" "\<And>k. k \<in> set ks \<Longrightarrow> distinct (g k)"
    "\<And>k l x. k \<in> set ks \<Longrightarrow> l \<in> set ks \<Longrightarrow> x \<in> set (g k) \<Longrightarrow> x \<in> set (g l) \<Longrightarrow> k = l"
  shows "distinct (concat (map g ks))"
  using assms
proof (induction ks)
  case (Cons k ks)
  have "distinct (concat (map g ks))" using Cons.prems by (intro Cons.IH) auto
  moreover have "set (g k) \<inter> set (g l) = {}" if "l \<in> set ks" for l
    using Cons.prems(3) [of k l] Cons.prems(1) that by auto
  ultimately show ?case using Cons.prems(2) by auto
qed simp

lemma grows_distinct: "below d es \<Longrightarrow> distinct (map fst (grows sha gd d es))"
proof (induction "maxDepth - d" arbitrary: d es rule: less_induct)
  case less
  show ?case
  proof (cases "2 \<le> length es \<and> d < maxDepth \<and> 0 < gd")
    case True
    let ?g = "\<lambda>k. map fst (grows sha gd (d + gd) (slotLeaves gd d k es))"
    have at: "\<exists>e \<in> set (slotLeaves gd d k es). \<exists>n \<ge> d + gd. p = makePath (fst e) n" if p: "p \<in> set (?g k)" for p k
    proof -
      obtain row where "row \<in> set (grows sha gd (d + gd) (slotLeaves gd d k es))" "p = fst row" using p by auto
      then show ?thesis using grows_paths [OF below_slot [OF less.prems]] by blast
    qed
    have "k = l" if p: "p \<in> set (?g k)" "p \<in> set (?g l)" for k l p
    proof -
      obtain a m where a: "a \<in> set (slotLeaves gd d k es)" "d + gd \<le> m" "p = makePath (fst a) m" using at [OF p(1)] by blast
      obtain b n where b: "b \<in> set (slotLeaves gd d l es)" "p = makePath (fst b) n" using at [OF p(2)] by blast
      have ab: "a \<in> set es" "b \<in> set es" "slotOf (fst a) d gd = k" "slotOf (fst b) d gd = l"
        using a(1) b(1) by (simp_all add: slotLeaves_def)
      then have "agrees d (fst a) (fst b)" using less.prems by (simp add: below_def)
      moreover have "agrees n (fst b) (fst a)" "n = m" using a(3) b(2) by (simp_all add: makePath_eq)
      then have "agrees (d + gd) (fst a) (fst b)" using a(2) agrees_mono agrees_sym by blast
      ultimately show ?thesis using slotOf_eq_iff ab(3,4) by blast
    qed
    then have "distinct (concat (map ?g [0..<2 ^ gd]))"
      using less.hyps [OF _ below_slot [OF less.prems]] True by (intro distinct_concat_map) auto
    moreover have "makePath (fst (hd es)) d \<notin> set (?g k)" for k
      using at [of "makePath (fst (hd es)) d" k] True by (auto simp: makePath_eq)
    ultimately show ?thesis using True by (simp add: grows_step map_concat comp_def)
  next
    case False
    from grows_small [OF this, of sha] show ?thesis by auto
  qed
qed

section \<open>Properties\<close>

text \<open>
  C3: With a database, the grouped builder returns the root the hash-only mode computes, which is the root of
  the reference trie, and hands the database exactly the stem nodes and the grouped nodes of that trie, each
  once and in post-order.  SHA-256 is assumed never to return the all-zero hash, which stands for an empty
  subtree.
\<close>

theorem binary_grouped_equals_reference:
  fixes f :: "bytes \<Rightarrow> bytes \<Rightarrow> 'w \<Rightarrow> 'w"
  assumes "entries_wf entries" "0 < gd" "maxDepth mod gd = 0" "nonzero_hash sha"
  shows "computeBinaryRootStreamingFromSlice sha (writes f :: ('w, 'e) node_writer) entries None gd =
      Inr (bref sha gd 0 (stemLeaves sha entries), None) \<and>
    computeBinaryRootStreamingFromSlice sha (writes f :: ('w, 'e) node_writer) entries (Some w) gd =
      Inr (bref sha gd 0 (stemLeaves sha entries), Some (put_rows f (grows sha gd 0 (stemLeaves sha entries)) w)) \<and>
    distinct (map fst (grows sha gd 0 (stemLeaves sha entries)))"
proof (intro conjI)
  show "computeBinaryRootStreamingFromSlice sha (writes f :: ('w, 'e) node_writer) entries None gd =
      Inr (bref sha gd 0 (stemLeaves sha entries), None)"
    using entries_root [OF assms(1), of gd None sha f] assms(3) by simp
  show "computeBinaryRootStreamingFromSlice sha (writes f :: ('w, 'e) node_writer) entries (Some w) gd =
      Inr (bref sha gd 0 (stemLeaves sha entries), Some (put_rows f (grows sha gd 0 (stemLeaves sha entries)) w))"
    using assms by (rule grouped_entries_root)
  have "below 0 (sub 0 s (stemLeaves sha entries))" for s
    using sub_below [OF stemLeaves_wf [OF assms(1)] stemLeaves_hashes [OF assms(4)]] .
  then show "distinct (map fst (grows sha gd 0 (stemLeaves sha entries)))" by (intro grows_distinct) simp
qed

text \<open>A witness: four stems, three of them in one group of depth eight, with a hash that starts with a one.\<close>

definition demoHash :: hash_fun where
  "demoHash x = take 32 (1 # fold (\<lambda>b acc. (b + 3 * hd (acc @ [7])) # acc) x noHash)"

definition demoEntries :: "trieEntry list" where
  "demoEntries = map (\<lambda>(a, b, c). \<lparr>te_Key = a # b # replicate 29 0 @ [c], te_Value = replicate 32 c\<rparr>)
     [(1, 0, 4), (1, 0, 9), (1, 2, 0), (3, 0, 1), (200, 7, 7)]"

lemma demoHash_nonzero: "nonzero_hash demoHash"
  by (simp add: nonzero_hash_def demoHash_def noHash_def numeral_eq_Suc)

lemma demoEntries_wf: "entries_wf demoEntries"
  by code_simp

theorem binary_grouped_equals_reference_witness:
  "computeBinaryRootStreamingFromSlice demoHash (writes (\<lambda>p x l. l @ [(p, x)]) :: ((bytes \<times> bytes) list, unit) node_writer)
       demoEntries None 8 = Inr (bref demoHash 8 0 (stemLeaves demoHash demoEntries), None) \<and>
   computeBinaryRootStreamingFromSlice demoHash (writes (\<lambda>p x l. l @ [(p, x)]) :: ((bytes \<times> bytes) list, unit) node_writer)
       demoEntries (Some []) 8 = Inr (bref demoHash 8 0 (stemLeaves demoHash demoEntries),
         Some (put_rows (\<lambda>p x l. l @ [(p, x)]) (grows demoHash 8 0 (stemLeaves demoHash demoEntries)) [])) \<and>
   distinct (map fst (grows demoHash 8 0 (stemLeaves demoHash demoEntries)))"
proof -
  have g: "0 < (8 :: nat)" "maxDepth mod 8 = 0" by (simp_all add: maxDepth_def stemSize_def)
  show ?thesis by (rule binary_grouped_equals_reference [OF demoEntries_wf g demoHash_nonzero])
qed

end
