(* ===== verification/Bin_Pipeline.thy ===== *)
theory Bin_Pipeline
  imports Bin_Grouped "HOL-Library.Multiset"
begin

text \<open>
  The parallel pipeline of \<open>computeBinaryRootStreamingParallel\<close>: a reader groups the sorted entries by stem and
  hands them to workers, a resequencer restores their order, a builder feeds them to the streaming builder.
  Goroutines interleave as a step relation; channels are lists with a capacity and a closed flag, the
  semaphore is a counter.  The context is never cancelled: the only caller passes the background context.
  Sequence numbers are natural numbers; the counter of the code has 64 bits.
\<close>

section \<open>Goroutines and channels\<close>

record stemWork =
  sw_seqNum :: nat
  sw_stem :: bytes
  sw_entries :: "trieEntry list"

record stemResult =
  sr_seqNum :: nat
  sr_stem :: bytes
  sr_hash :: bytes
  sr_entries :: "trieEntry list"

definition hashStem :: "hash_fun \<Rightarrow> stemWork \<Rightarrow> stemResult" where
  "hashStem sha w = \<lparr>sr_seqNum = sw_seqNum w, sr_stem = sw_stem w,
     sr_hash = computeStemNodeHash sha (sw_stem w) (sw_entries w), sr_entries = sw_entries w\<rparr>"

text \<open>The loop of the reader; \<open>hasCurrent\<close> is set exactly when \<open>currentEntries\<close> is not empty.\<close>

fun readerLoop :: "nat \<Rightarrow> bytes \<Rightarrow> trieEntry list \<Rightarrow> trieEntry list \<Rightarrow> stemWork list" where
  "readerLoop seqNum currentStem currentEntries [] =
     (if currentEntries \<noteq> [] then [\<lparr>sw_seqNum = seqNum, sw_stem = currentStem, sw_entries = currentEntries\<rparr>] else [])"
| "readerLoop seqNum currentStem currentEntries (e # es) =
     (if currentEntries \<noteq> [] \<and> take stemSize (te_Key e) \<noteq> currentStem
      then \<lparr>sw_seqNum = seqNum, sw_stem = currentStem, sw_entries = currentEntries\<rparr>
             # readerLoop (Suc seqNum) (take stemSize (te_Key e)) [e] es
      else readerLoop seqNum (take stemSize (te_Key e)) (currentEntries @ [e]) es)"

definition maxInFlight :: nat where "maxInFlight = 64"

definition builderCap :: nat where "builderCap = 128"

datatype stem_worker = Idle | Hashing stemWork | Releasing | Exited

record pipe =
  p_todo :: "stemWork list"
  p_holding :: "stemWork option"
  p_sem :: nat
  p_workCh :: "stemWork list"
  p_workClosed :: bool
  p_workers :: "stem_worker list"
  p_resultCh :: "stemResult list"
  p_resultClosed :: bool
  p_pending :: "nat \<rightharpoonup> stemResult"
  p_nextSeq :: nat
  p_builderCh :: "stemResult list"
  p_builderClosed :: bool
  p_built :: "stemResult list"
  p_finished :: bool

definition pipe_init :: "nat \<Rightarrow> stemWork list \<Rightarrow> pipe" where
  "pipe_init n works =
     \<lparr>p_todo = works, p_holding = None, p_sem = 0, p_workCh = [], p_workClosed = False, p_workers = replicate n Idle,
      p_resultCh = [], p_resultClosed = False, p_pending = (\<lambda>_. None), p_nextSeq = 0, p_builderCh = [],
      p_builderClosed = False, p_built = [], p_finished = False\<rparr>"

inductive pipe_step :: "hash_fun \<Rightarrow> nat \<Rightarrow> pipe \<Rightarrow> pipe \<Rightarrow> bool" for sha n where
  acquire: "p_todo s = w # ws \<Longrightarrow> p_holding s = None \<Longrightarrow> p_sem s < maxInFlight \<Longrightarrow>
    pipe_step sha n s (s\<lparr>p_todo := ws, p_holding := Some w, p_sem := Suc (p_sem s)\<rparr>)"
| dispatch: "p_holding s = Some w \<Longrightarrow> length (p_workCh s) < 2 * n \<Longrightarrow>
    pipe_step sha n s (s\<lparr>p_holding := None, p_workCh := p_workCh s @ [w]\<rparr>)"
| close_work: "p_todo s = [] \<Longrightarrow> p_holding s = None \<Longrightarrow> \<not> p_workClosed s \<Longrightarrow>
    pipe_step sha n s (s\<lparr>p_workClosed := True\<rparr>)"
| take_work: "i < length (p_workers s) \<Longrightarrow> p_workers s ! i = Idle \<Longrightarrow> p_workCh s = w # ws \<Longrightarrow>
    pipe_step sha n s (s\<lparr>p_workers := (p_workers s)[i := Hashing w], p_workCh := ws\<rparr>)"
| worker_exit: "i < length (p_workers s) \<Longrightarrow> p_workers s ! i = Idle \<Longrightarrow> p_workCh s = [] \<Longrightarrow> p_workClosed s \<Longrightarrow>
    pipe_step sha n s (s\<lparr>p_workers := (p_workers s)[i := Exited]\<rparr>)"
| send_result: "i < length (p_workers s) \<Longrightarrow> p_workers s ! i = Hashing w \<Longrightarrow> length (p_resultCh s) < 2 * n \<Longrightarrow>
    pipe_step sha n s (s\<lparr>p_workers := (p_workers s)[i := Releasing], p_resultCh := p_resultCh s @ [hashStem sha w]\<rparr>)"
| release: "i < length (p_workers s) \<Longrightarrow> p_workers s ! i = Releasing \<Longrightarrow> p_sem s = Suc k \<Longrightarrow>
    pipe_step sha n s (s\<lparr>p_workers := (p_workers s)[i := Idle], p_sem := k\<rparr>)"
| close_result: "\<forall>w \<in> set (p_workers s). w = Exited \<Longrightarrow> \<not> p_resultClosed s \<Longrightarrow>
    pipe_step sha n s (s\<lparr>p_resultClosed := True\<rparr>)"
| receive: "p_resultCh s = r # rs \<Longrightarrow> p_pending s (p_nextSeq s) = None \<Longrightarrow> \<not> p_builderClosed s \<Longrightarrow>
    pipe_step sha n s (s\<lparr>p_resultCh := rs, p_pending := (p_pending s)(sr_seqNum r \<mapsto> r)\<rparr>)"
| emit: "p_pending s (p_nextSeq s) = Some r \<Longrightarrow> length (p_builderCh s) < builderCap \<Longrightarrow>
    pipe_step sha n s (s\<lparr>p_pending := (p_pending s)(p_nextSeq s := None), p_nextSeq := Suc (p_nextSeq s),
      p_builderCh := p_builderCh s @ [r]\<rparr>)"
| close_builder: "p_resultCh s = [] \<Longrightarrow> p_resultClosed s \<Longrightarrow> p_pending s (p_nextSeq s) = None \<Longrightarrow> \<not> p_builderClosed s \<Longrightarrow>
    pipe_step sha n s (s\<lparr>p_builderClosed := True\<rparr>)"
| build: "p_builderCh s = r # rs \<Longrightarrow>
    pipe_step sha n s (s\<lparr>p_builderCh := rs, p_built := p_built s @ [r]\<rparr>)"
| finish_build: "p_builderCh s = [] \<Longrightarrow> p_builderClosed s \<Longrightarrow> \<not> p_finished s \<Longrightarrow>
    pipe_step sha n s (s\<lparr>p_finished := True\<rparr>)"

section \<open>Invariant\<close>

fun worker_works :: "stem_worker \<Rightarrow> stemWork list" where
  "worker_works (Hashing w) = [w]"
| "worker_works _ = []"

fun worker_tokens :: "stem_worker \<Rightarrow> nat" where
  "worker_tokens (Hashing _) = 1"
| "worker_tokens Releasing = 1"
| "worker_tokens _ = 0"

text \<open>Works that have been read and whose results have not reached the resequencer.\<close>

definition in_workers :: "pipe \<Rightarrow> stemWork list" where
  "in_workers s = (case p_holding s of None \<Rightarrow> [] | Some w \<Rightarrow> [w]) @ p_workCh s @ concat (map worker_works (p_workers s))"

definition flight :: "pipe \<Rightarrow> nat multiset" where
  "flight s = mset (map sw_seqNum (in_workers s)) + mset (map sr_seqNum (p_resultCh s))"

definition numbered :: "stemWork list \<Rightarrow> bool" where
  "numbered works \<longleftrightarrow> map sw_seqNum works = [0..<length works]"

text \<open>Every work is in exactly one place, and the builder receives the results in the order of the stems.\<close>

definition flow_inv :: "hash_fun \<Rightarrow> stemWork list \<Rightarrow> pipe \<Rightarrow> bool" where
  "flow_inv sha works s \<longleftrightarrow>
     (\<exists>k \<le> length works. p_todo s = drop k works \<and> p_nextSeq s \<le> k \<and> finite (dom (p_pending s)) \<and>
        flight s + mset_set (dom (p_pending s)) = mset_set {p_nextSeq s..<k}) \<and>
     set (in_workers s) \<subseteq> set works \<and> set (p_resultCh s) \<subseteq> hashStem sha ` set works \<and>
     (\<forall>q r. p_pending s q = Some r \<longrightarrow> sr_seqNum r = q \<and> r \<in> hashStem sha ` set works) \<and>
     p_built s @ p_builderCh s = map (hashStem sha) (take (p_nextSeq s) works)"

text \<open>The semaphore counts the stems in flight; no channel exceeds its capacity.\<close>

definition bound_inv :: "nat \<Rightarrow> pipe \<Rightarrow> bool" where
  "bound_inv n s \<longleftrightarrow>
     p_sem s = (if p_holding s = None then 0 else 1) + length (p_workCh s) + sum_list (map worker_tokens (p_workers s)) \<and>
     p_sem s \<le> maxInFlight \<and> length (p_workCh s) \<le> 2 * n \<and> length (p_resultCh s) \<le> 2 * n \<and>
     length (p_builderCh s) \<le> builderCap \<and> length (p_workers s) = n"

text \<open>Channels close in order.\<close>

definition close_inv :: "pipe \<Rightarrow> bool" where
  "close_inv s \<longleftrightarrow>
     (p_workClosed s \<longrightarrow> p_todo s = [] \<and> p_holding s = None) \<and>
     (Exited \<in> set (p_workers s) \<longrightarrow> p_workClosed s \<and> p_workCh s = []) \<and>
     (p_resultClosed s \<longrightarrow> (\<forall>w \<in> set (p_workers s). w = Exited)) \<and>
     (p_builderClosed s \<longrightarrow> p_resultClosed s \<and> p_resultCh s = [] \<and> p_pending s (p_nextSeq s) = None) \<and>
     (p_finished s \<longrightarrow> p_builderClosed s \<and> p_builderCh s = [])"

lemma update_sum: "i < length ws \<Longrightarrow> sum_list (map g (ws[i := x])) + g (ws ! i) = sum_list (map g ws) + (g x :: nat)"
  by (induction ws arbitrary: i) (auto simp: less_Suc_eq_0_disj)

lemma update_works:
  "i < length ws \<Longrightarrow> mset (concat (map g (ws[i := x]))) + mset (g (ws ! i)) = mset (concat (map g ws)) + mset (g x)"
  by (induction ws arbitrary: i) (auto simp: less_Suc_eq_0_disj ac_simps)

lemma bound_step:
  assumes "pipe_step sha n s s'" "bound_inv n s"
  shows "bound_inv n s'"
  using assms
proof (cases rule: pipe_step.cases)
  case (take_work i w ws)
  then show ?thesis using assms(2) update_sum [of i "p_workers s" worker_tokens "Hashing w"] by (simp add: bound_inv_def)
next
  case (worker_exit i)
  then show ?thesis using assms(2) update_sum [of i "p_workers s" worker_tokens Exited] by (simp add: bound_inv_def)
next
  case (send_result i w)
  then show ?thesis using assms(2) update_sum [of i "p_workers s" worker_tokens Releasing] by (simp add: bound_inv_def)
next
  case (release i k)
  then show ?thesis using assms(2) update_sum [of i "p_workers s" worker_tokens Idle] by (simp add: bound_inv_def)
qed (simp_all add: bound_inv_def split: if_splits)

lemma close_step:
  assumes "pipe_step sha n s s'" "close_inv s"
  shows "close_inv s'"
  using assms
proof (cases rule: pipe_step.cases)
  case (take_work i w ws)
  then have "Idle \<in> set (p_workers s)" by (metis nth_mem)
  then show ?thesis using assms(2) take_work set_update_subset_insert [of "p_workers s" i "Hashing w"]
    by (auto simp: close_inv_def)
next
  case (worker_exit i)
  then show ?thesis using assms(2) set_update_subset_insert [of "p_workers s" i Exited] by (auto simp: close_inv_def)
next
  case (send_result i w)
  then have "Hashing w \<in> set (p_workers s)" by (metis nth_mem)
  then show ?thesis using assms(2) send_result set_update_subset_insert [of "p_workers s" i Releasing]
    by (auto simp: close_inv_def)
next
  case (release i k)
  then have "Releasing \<in> set (p_workers s)" by (metis nth_mem)
  then show ?thesis using assms(2) release set_update_subset_insert [of "p_workers s" i Idle]
    by (auto simp: close_inv_def)
qed (auto simp: close_inv_def split: if_splits)

lemma numbered_nth: "numbered works \<Longrightarrow> i < length works \<Longrightarrow> sw_seqNum (works ! i) = i"
  unfolding numbered_def by (metis add_0 nth_map nth_upt)

lemma numbered_mem: "numbered works \<Longrightarrow> w \<in> set works \<Longrightarrow> works ! sw_seqNum w = w \<and> sw_seqNum w < length works"
  by (metis in_set_conv_nth numbered_nth)

lemma flow_acquire:
  assumes "flow_inv sha works s" "numbered works" "p_todo s = w # ws" "p_holding s = None"
  shows "flow_inv sha works (s\<lparr>p_todo := ws, p_holding := Some w, p_sem := m\<rparr>)"
proof -
  let ?s = "s\<lparr>p_todo := ws, p_holding := Some w, p_sem := m\<rparr>"
  obtain k where k: "k \<le> length works" "p_todo s = drop k works" "p_nextSeq s \<le> k" "finite (dom (p_pending s))"
      "flight s + mset_set (dom (p_pending s)) = mset_set {p_nextSeq s..<k}"
    using assms(1) by (auto simp: flow_inv_def)
  have kl: "k < length works" using assms(3) k(1,2) by (cases "k = length works") auto
  have w: "w = works ! k" "ws = drop (Suc k) works" using assms(3) k(2) kl by (auto simp: Cons_nth_drop_Suc [symmetric])
  have "in_workers ?s = w # in_workers s" by (simp add: in_workers_def assms(4))
  then have "flight ?s = add_mset k (flight s)" "set (in_workers ?s) \<subseteq> set works"
    using numbered_nth [OF assms(2) kl] w(1) kl assms(1) by (simp_all add: flight_def flow_inv_def)
  moreover have "mset_set {p_nextSeq s..<Suc k} = add_mset k (mset_set {p_nextSeq s..<k})"
    using k(3) by (simp add: atLeastLessThanSuc)
  moreover have "set (p_resultCh s) \<subseteq> hashStem sha ` set works"
      "\<forall>q r. p_pending s q = Some r \<longrightarrow> sr_seqNum r = q \<and> r \<in> hashStem sha ` set works"
      "p_built s @ p_builderCh s = map (hashStem sha) (take (p_nextSeq s) works)"
    using assms(1) by (simp_all add: flow_inv_def)
  ultimately show ?thesis using k(3-5) kl w(2) unfolding flow_inv_def by (intro conjI exI [of _ "Suc k"]) simp_all
qed

lemma flow_move:
  assumes "flow_inv sha works s" "p_todo s' = p_todo s" "p_nextSeq s' = p_nextSeq s" "p_pending s' = p_pending s"
    "p_built s' @ p_builderCh s' = p_built s @ p_builderCh s"
    "mset (in_workers s') + xs = mset (in_workers s)" "mset (p_resultCh s') = mset (p_resultCh s) + image_mset (hashStem sha) xs"
  shows "flow_inv sha works s'"
proof -
  have "image_mset sw_seqNum (mset (in_workers s') + xs) = image_mset sw_seqNum (mset (in_workers s))" using assms(6) by simp
  then have "image_mset sw_seqNum (mset (in_workers s')) + image_mset sw_seqNum xs = image_mset sw_seqNum (mset (in_workers s))"
    by simp
  moreover have "image_mset sr_seqNum (mset (p_resultCh s')) = image_mset sr_seqNum (mset (p_resultCh s)) + image_mset sw_seqNum xs"
    by (simp add: assms(7) image_mset.compositionality comp_def hashStem_def)
  ultimately have f: "flight s' = flight s" by (simp add: flight_def ac_simps)
  have sub: "set_mset (mset (in_workers s') + xs) \<subseteq> set works" unfolding assms(6) using assms(1) by (simp add: flow_inv_def)
  moreover have "set (p_resultCh s') = set (p_resultCh s) \<union> hashStem sha ` set_mset xs"
    using arg_cong [OF assms(7), of set_mset] by simp
  ultimately show ?thesis using assms(1-5) f unfolding flow_inv_def by auto
qed

lemma flow_receive:
  assumes "flow_inv sha works s" "p_resultCh s = r # rs"
  shows "flow_inv sha works (s\<lparr>p_resultCh := rs, p_pending := (p_pending s)(sr_seqNum r \<mapsto> r)\<rparr>)"
proof -
  let ?s = "s\<lparr>p_resultCh := rs, p_pending := (p_pending s)(sr_seqNum r \<mapsto> r)\<rparr>" and ?D = "dom (p_pending s)"
  obtain k where k: "k \<le> length works" "p_todo s = drop k works" "p_nextSeq s \<le> k" "finite ?D"
      "flight s + mset_set ?D = mset_set {p_nextSeq s..<k}"
    using assms(1) by (auto simp: flow_inv_def)
  have w: "in_workers ?s = in_workers s" by (simp add: in_workers_def)
  then have f: "flight s = add_mset (sr_seqNum r) (flight ?s)" by (simp add: flight_def assms(2))
  have fresh: "sr_seqNum r \<notin> ?D"
  proof
    assume "sr_seqNum r \<in> ?D"
    then have "2 \<le> count (flight s + mset_set ?D) (sr_seqNum r)" using f k(4) by simp
    moreover have "count (mset_set {p_nextSeq s..<k}) (sr_seqNum r) \<le> 1" by (simp add: count_mset_set')
    ultimately show False unfolding k(5) by simp
  qed
  then have "mset_set (dom (p_pending ?s)) = add_mset (sr_seqNum r) (mset_set ?D)" using k(4) by simp
  then have "flight ?s + mset_set (dom (p_pending ?s)) = mset_set {p_nextSeq s..<k}" using f k(5) by simp
  then show ?thesis using assms k w unfolding flow_inv_def by (auto intro!: exI [of _ k] split: if_splits)
qed

lemma flow_emit:
  assumes "flow_inv sha works s" "numbered works" "p_pending s (p_nextSeq s) = Some r"
  shows "flow_inv sha works (s\<lparr>p_pending := (p_pending s)(p_nextSeq s := None), p_nextSeq := Suc (p_nextSeq s),
      p_builderCh := p_builderCh s @ [r]\<rparr>)"
    (is "flow_inv sha works ?s")
proof -
  let ?D = "dom (p_pending s)" and ?q = "p_nextSeq s"
  obtain k where k: "k \<le> length works" "p_todo s = drop k works" "?q \<le> k" "finite ?D"
      "flight s + mset_set ?D = mset_set {?q..<k}"
    using assms(1) by (auto simp: flow_inv_def)
  have q: "?q \<in> ?D" using assms(3) by auto
  then have "?q \<in># flight s + mset_set ?D" using k(4) by simp
  then have qk: "?q < k" unfolding k(5) by simp
  obtain w where w: "w \<in> set works" "r = hashStem sha w" "sr_seqNum r = ?q"
    using assms(1,3) unfolding flow_inv_def by blast
  then have r: "r = hashStem sha (works ! ?q)" using numbered_mem [OF assms(2) w(1)] by (simp add: hashStem_def)
  have "flight ?s = flight s" by (simp add: flight_def in_workers_def)
  moreover have "mset_set ?D = add_mset ?q (mset_set (?D - {?q}))" using q k(4) by (simp add: mset_set.remove)
  moreover have "mset_set {?q..<k} = add_mset ?q (mset_set {Suc ?q..<k})" 
  proof -
    have "{?q..<k} = insert ?q {Suc ?q..<k}" using qk by auto
    then show ?thesis by simp
  qed
  ultimately have "flight ?s + mset_set (dom (p_pending ?s)) = mset_set {Suc ?q..<k}" using k(5) by (simp add: dom_fun_upd)
  moreover have "p_built ?s @ p_builderCh ?s = map (hashStem sha) (take (Suc ?q) works)"
    using assms(1) r qk k(1) by (simp add: flow_inv_def take_Suc_conv_app_nth)
  ultimately show ?thesis using assms(1) k qk unfolding flow_inv_def
    by (auto simp: in_workers_def intro!: exI [of _ k] split: if_splits)
qed

lemma in_workers_update:
  assumes "i < length (p_workers s)"
  shows "mset (in_workers (s\<lparr>p_workers := (p_workers s)[i := x]\<rparr>)) + mset (worker_works (p_workers s ! i)) =
    mset (in_workers s) + mset (worker_works x)"
  using update_works [OF assms, of worker_works x] by (simp add: in_workers_def ac_simps)

lemma in_workers_simps [simp]:
  "in_workers (s\<lparr>p_sem := m\<rparr>) = in_workers s" "in_workers (s\<lparr>p_resultCh := rs\<rparr>) = in_workers s"
  "in_workers (s\<lparr>p_workClosed := c\<rparr>) = in_workers s" "in_workers (s\<lparr>p_resultClosed := c\<rparr>) = in_workers s"
  "in_workers (s\<lparr>p_builderClosed := c\<rparr>) = in_workers s" "in_workers (s\<lparr>p_finished := c\<rparr>) = in_workers s"
  "in_workers (s\<lparr>p_builderCh := rs\<rparr>) = in_workers s" "in_workers (s\<lparr>p_built := rs\<rparr>) = in_workers s"
  by (simp_all add: in_workers_def)

lemma flow_same:
  assumes "flow_inv sha works s" "p_todo s' = p_todo s" "p_nextSeq s' = p_nextSeq s" "p_pending s' = p_pending s"
    "p_built s' @ p_builderCh s' = p_built s @ p_builderCh s" "mset (in_workers s') = mset (in_workers s)" "p_resultCh s' = p_resultCh s"
  shows "flow_inv sha works s'"
  by (rule flow_move [OF assms(1-5), of "{#}"]) (simp_all add: assms(6,7))

lemma flow_step:
  assumes "pipe_step sha n s s'" "flow_inv sha works s" "numbered works"
  shows "flow_inv sha works s'"
  using assms(1)
proof (cases rule: pipe_step.cases)
  case (acquire w ws)
  show ?thesis unfolding acquire(1) by (rule flow_acquire [OF assms(2,3) acquire(2,3)])
next
  case (dispatch w)
  then have "mset (in_workers s') = mset (in_workers s)" by (simp add: in_workers_def)
  then show ?thesis by (rule flow_same [OF assms(2), rotated -2]) (simp_all add: dispatch(1))
next
  case (take_work i w ws)
  have "mset (in_workers s) = add_mset w (mset (in_workers (s\<lparr>p_workCh := ws\<rparr>)))" using take_work(4) by (simp add: in_workers_def)
  moreover have "mset (in_workers s') = add_mset w (mset (in_workers (s\<lparr>p_workCh := ws\<rparr>)))"
  proof -
    have "in_workers s' = in_workers (s\<lparr>p_workCh := ws, p_workers := (p_workers s)[i := Hashing w]\<rparr>)"
      by (simp add: take_work(1) in_workers_def)
    then show ?thesis using in_workers_update [of i "s\<lparr>p_workCh := ws\<rparr>" "Hashing w"] take_work(2,3) by simp
  qed
  ultimately have "mset (in_workers s') = mset (in_workers s)" by simp
  then show ?thesis by (rule flow_same [OF assms(2), rotated -2]) (simp_all add: take_work(1))
next
  case (worker_exit i)
  then have "mset (in_workers s') = mset (in_workers s)" using in_workers_update [of i s Exited] by simp
  then show ?thesis by (rule flow_same [OF assms(2), rotated -2]) (simp_all add: worker_exit(1))
next
  case (send_result i w)
  let ?s = "s\<lparr>p_workers := (p_workers s)[i := Releasing]\<rparr>"
  have "in_workers s' = in_workers ?s" using send_result(1) by (simp add: in_workers_def)
  then have "mset (in_workers s') + {#w#} = mset (in_workers s)" using in_workers_update [of i s Releasing] send_result(2,3) by simp
  then show ?thesis by (rule flow_move [OF assms(2), rotated -2]) (simp_all add: send_result(1))
next
  case (release i k)
  let ?s = "s\<lparr>p_workers := (p_workers s)[i := Idle]\<rparr>"
  have "in_workers s' = in_workers ?s" using release(1) by (simp add: in_workers_def)
  then have "mset (in_workers s') = mset (in_workers s)" using in_workers_update [of i s Idle] release(2,3) by simp
  then show ?thesis by (rule flow_same [OF assms(2), rotated -2]) (simp_all add: release(1))
next
  case (receive r rs)
  show ?thesis unfolding receive(1) by (rule flow_receive [OF assms(2) receive(2)])
next
  case (emit r)
  show ?thesis unfolding emit(1) by (rule flow_emit [OF assms(2,3) emit(2)])
next
  case close_work
  show ?thesis by (rule flow_same [OF assms(2)]) (simp_all add: close_work(1))
next
  case close_result
  show ?thesis by (rule flow_same [OF assms(2)]) (simp_all add: close_result(1))
next
  case close_builder
  show ?thesis by (rule flow_same [OF assms(2)]) (simp_all add: close_builder(1))
next
  case (build r rs)
  show ?thesis by (rule flow_same [OF assms(2)]) (simp_all add: build)
next
  case finish_build
  show ?thesis by (rule flow_same [OF assms(2)]) (simp_all add: finish_build(1))
qed

definition pipe_inv :: "hash_fun \<Rightarrow> nat \<Rightarrow> stemWork list \<Rightarrow> pipe \<Rightarrow> bool" where
  "pipe_inv sha n works s \<longleftrightarrow> flow_inv sha works s \<and> bound_inv n s \<and> close_inv s"

lemma pipe_inv_init: "pipe_inv sha n works (pipe_init n works)"
proof -
  have "flight (pipe_init n works) = {#}" "in_workers (pipe_init n works) = []"
    by (simp_all add: flight_def in_workers_def pipe_init_def map_replicate_const)
  moreover have "sum_list (map worker_tokens (replicate n Idle)) = 0" by (simp add: sum_list_replicate)
  ultimately show ?thesis
    by (auto simp: pipe_inv_def flow_inv_def bound_inv_def close_inv_def pipe_init_def intro!: exI [of _ 0])
qed

lemma pipe_inv_step: "pipe_step sha n s s' \<Longrightarrow> pipe_inv sha n works s \<Longrightarrow> numbered works \<Longrightarrow> pipe_inv sha n works s'"
  unfolding pipe_inv_def using flow_step bound_step close_step by blast

section \<open>Progress\<close>

lemma idle_tokens: "\<forall>w \<in> set ws. w = Idle \<or> w = Exited \<Longrightarrow> sum_list (map worker_tokens ws) = 0"
  by (induction ws) auto

lemma token_pos: "Releasing \<in> set ws \<Longrightarrow> 0 < sum_list (map worker_tokens ws)"
  by (induction ws) auto

text \<open>Before the results are closed the reader or a worker can move, if the result channel has room.\<close>

lemma upstream_progress:
  assumes "bound_inv n s" "0 < n" "p_resultCh s = []" "\<not> p_resultClosed s"
  shows "\<exists>s'. pipe_step sha n s s'"
proof -
  consider w where "Hashing w \<in> set (p_workers s)" | "Releasing \<in> set (p_workers s)"
    | "\<forall>w \<in> set (p_workers s). w = Exited" | "Idle \<in> set (p_workers s)" "\<forall>w \<in> set (p_workers s). w = Idle \<or> w = Exited"
    by (metis stem_worker.exhaust)
  then show ?thesis
  proof cases
    case (1 w)
    then obtain i where i: "i < length (p_workers s)" "p_workers s ! i = Hashing w" by (metis in_set_conv_nth)
    have "length (p_resultCh s) < 2 * n" using assms(2,3) by simp
    from send_result [OF i this] show ?thesis by blast
  next
    case 2
    then obtain i where i: "i < length (p_workers s)" "p_workers s ! i = Releasing" by (metis in_set_conv_nth)
    have "0 < p_sem s" using token_pos [OF 2] assms(1) by (simp add: bound_inv_def)
    then obtain k where "p_sem s = Suc k" by (metis gr0_conv_Suc)
    from release [OF i this] show ?thesis by blast
  next
    case 3
    from close_result [OF 3 assms(4)] show ?thesis by blast
  next
    case 4
    then obtain i where i: "i < length (p_workers s)" "p_workers s ! i = Idle" by (metis in_set_conv_nth)
    show ?thesis
    proof (cases "p_workCh s")
      case (Cons w ws)
      from take_work [OF i Cons] show ?thesis by blast
    next
      case Nil
      then have room: "length (p_workCh s) < 2 * n" using assms(2) by simp
      show ?thesis
      proof (cases "p_holding s")
        case (Some w)
        from dispatch [OF Some room] show ?thesis by blast
      next
        case None
        have sem: "p_sem s < maxInFlight" using assms(1) idle_tokens [OF 4(2)] None Nil by (simp add: bound_inv_def maxInFlight_def)
        show ?thesis
        proof (cases "p_todo s")
          case (Cons w ws)
          from acquire [OF Cons None sem] show ?thesis by blast
        next
          case todo: Nil
          then show ?thesis using close_work [OF todo None] worker_exit [OF i Nil] by blast
        qed
      qed
    qed
  qed
qed

text \<open>Some goroutine can always move until the builder has finished.\<close>

lemma pipe_progress:
  assumes "bound_inv n s" "0 < n" "\<not> p_finished s"
  shows "\<exists>s'. pipe_step sha n s s'"
proof (cases "p_builderCh s")
  case (Cons r rs)
  from build [OF Cons] show ?thesis by blast
next
  case empty: Nil
  show ?thesis
  proof (cases "p_builderClosed s")
    case True
    from finish_build [OF empty True assms(3)] show ?thesis by blast
  next
    case open_builder: False
    show ?thesis
    proof (cases "p_pending s (p_nextSeq s)")
      case (Some r)
      have "length (p_builderCh s) < builderCap" by (simp add: empty builderCap_def)
      from emit [OF Some this] show ?thesis by blast
    next
      case None
      show ?thesis
      proof (cases "p_resultCh s")
        case (Cons r rs)
        from receive [OF Cons None open_builder] show ?thesis by blast
      next
        case rs: Nil
        show ?thesis
        proof (cases "p_resultClosed s")
          case True
          from close_builder [OF rs True None open_builder] show ?thesis by blast
        qed (use upstream_progress [OF assms(1,2) rs] in blast)
      qed
    qed
  qed
qed

section \<open>Termination\<close>

fun worker_weight :: "stem_worker \<Rightarrow> nat" where
  "worker_weight Exited = 0"
| "worker_weight Idle = 1"
| "worker_weight Releasing = 2"
| "worker_weight (Hashing _) = 7"

definition pipe_weight :: "nat \<Rightarrow> pipe \<Rightarrow> nat" where
  "pipe_weight m s =
     9 * length (p_todo s) + (if p_holding s = None then 0 else 8) + 7 * length (p_workCh s) +
     sum_list (map worker_weight (p_workers s)) + 4 * length (p_resultCh s) + 2 * (m - p_nextSeq s) +
     length (p_builderCh s) + of_bool (\<not> p_workClosed s) + of_bool (\<not> p_resultClosed s) +
     of_bool (\<not> p_builderClosed s) + of_bool (\<not> p_finished s)"

lemma emit_below:
  assumes "flow_inv sha works s" "p_pending s (p_nextSeq s) = Some r"
  shows "p_nextSeq s < length works"
proof -
  obtain k where k: "k \<le> length works" "finite (dom (p_pending s))"
      "flight s + mset_set (dom (p_pending s)) = mset_set {p_nextSeq s..<k}"
    using assms(1) by (auto simp: flow_inv_def)
  have "p_nextSeq s \<in># flight s + mset_set (dom (p_pending s))" using assms(2) k(2) by auto
  then have "p_nextSeq s < k" unfolding k(3) by simp
  then show ?thesis using k(1) by simp
qed

lemma weight_step:
  assumes "pipe_step sha n s s'" "flow_inv sha works s"
  shows "pipe_weight (length works) s' < pipe_weight (length works) s"
  using assms(1)
proof (cases rule: pipe_step.cases)
  case (take_work i w ws)
  then show ?thesis using update_sum [of i "p_workers s" worker_weight "Hashing w"] by (simp add: pipe_weight_def)
next
  case (worker_exit i)
  then show ?thesis using update_sum [of i "p_workers s" worker_weight Exited] by (simp add: pipe_weight_def)
next
  case (send_result i w)
  then show ?thesis using update_sum [of i "p_workers s" worker_weight Releasing] by (simp add: pipe_weight_def)
next
  case (release i k)
  then show ?thesis using update_sum [of i "p_workers s" worker_weight Idle] by (simp add: pipe_weight_def)
next
  case (emit r)
  then show ?thesis using emit_below [OF assms(2) emit(2)] by (simp add: pipe_weight_def)
qed (simp_all add: pipe_weight_def)

section \<open>Runs\<close>

lemma run_inv:
  assumes "(pipe_step sha n ^^ k) (pipe_init n works) s" "numbered works"
  shows "pipe_inv sha n works s \<and> pipe_weight (length works) s + k \<le> pipe_weight (length works) (pipe_init n works)"
  using assms(1)
proof (induction k arbitrary: s)
  case 0
  then have "s = pipe_init n works" by simp
  then show ?case using pipe_inv_init by simp
next
  case (Suc k)
  then obtain s1 where s1: "(pipe_step sha n ^^ k) (pipe_init n works) s1" "pipe_step sha n s1 s" by auto
  from Suc.IH [OF s1(1)] have inv: "pipe_inv sha n works s1"
      "pipe_weight (length works) s1 + k \<le> pipe_weight (length works) (pipe_init n works)" by simp_all
  then show ?case using pipe_inv_step [OF s1(2) inv(1) assms(2)] weight_step [OF s1(2), of works] by (auto simp: pipe_inv_def)
qed

lemma init_weight: "pipe_weight (length works) (pipe_init n works) = 11 * length works + n + 4"
  by (simp add: pipe_weight_def pipe_init_def sum_list_replicate)

lemma finished_built:
  assumes "pipe_inv sha n works s" "0 < n" "p_finished s"
  shows "p_built s = map (hashStem sha) works"
proof -
  have c: "p_builderClosed s" "p_builderCh s = []" "p_resultClosed s" "p_resultCh s = []" "p_pending s (p_nextSeq s) = None"
      "\<forall>w \<in> set (p_workers s). w = Exited"
    using assms(1,3) by (simp_all add: pipe_inv_def close_inv_def)
  have "p_workers s \<noteq> []" using assms(1,2) by (auto simp: pipe_inv_def bound_inv_def)
  then have "Exited \<in> set (p_workers s)" using c(6) by (cases "p_workers s") auto
  then have d: "p_todo s = []" "p_holding s = None" "p_workCh s = []"
    using assms(1) by (simp_all add: pipe_inv_def close_inv_def)
  have "concat (map worker_works (p_workers s)) = []" using c(6) by auto
  then have "flight s = {#}" by (simp add: flight_def in_workers_def c(4) d)
  then obtain k where k: "k \<le> length works" "drop k works = []" "p_nextSeq s \<le> k" "finite (dom (p_pending s))"
      "mset_set (dom (p_pending s)) = mset_set {p_nextSeq s..<k}"
    using assms(1) d(1) by (auto simp: pipe_inv_def flow_inv_def)
  have "dom (p_pending s) = {p_nextSeq s..<k}" using k(4,5) by (metis finite_atLeastLessThan finite_set_mset_mset_set)
  then have "p_nextSeq s = k" using c(5) k(3) by (metis atLeastLessThan_iff domIff le_neq_implies_less order.refl)
  then have "take (p_nextSeq s) works = works" using k(1,2) by simp
  then show ?thesis using assms(1) c(2) by (simp add: pipe_inv_def flow_inv_def)
qed

section \<open>What the reader dispatches\<close>

lemma readerLoop_numbers: "map sw_seqNum (readerLoop q cur grp es) = [q..<q + length (readerLoop q cur grp es)]"
  by (induction q cur grp es rule: readerLoop.induct) (auto simp: upt_conv_Cons simp del: upt_Suc)

lemma readerLoop_numbered: "numbered (readerLoop 0 cur grp es)"
  using readerLoop_numbers [of 0 cur grp es] by (simp add: numbered_def)

lemma readerLoop_runs:
  "grp \<noteq> [] \<Longrightarrow> map (\<lambda>w. (sw_stem w, sw_entries w)) (readerLoop q cur grp es) = groupRuns cur grp es"
proof (induction cur grp es arbitrary: q rule: groupRuns.induct)
  case (2 cur grp e es)
  show ?case
  proof (cases "keyStem e = cur")
    case True
    then show ?thesis using 2 by (simp add: keyStem_def)
  next
    case False
    then show ?thesis using 2 by (simp add: keyStem_def)
  qed
qed simp

section \<open>The builder goroutine\<close>

type_synonym ('x, 'e) blob_writer = "bytes \<Rightarrow> bytes \<Rightarrow> 'x \<Rightarrow> 'e + 'x"

definition writeStemBlob ::
  "('x, 'e) blob_writer \<Rightarrow> bytes \<Rightarrow> trieEntry list \<Rightarrow> 'x option \<Rightarrow> 'e bin_error + 'x option" where
  "writeStemBlob wrs stem entries sbw =
     (case sbw of
        None \<Rightarrow> Inr None
      | Some x \<Rightarrow> (case wrs stem (serializeStemBlob entries) x of Inl e \<Rightarrow> Inl (WriteFatal e) | Inr x \<Rightarrow> Inr (Some x)))"

definition builderStem ::
  "hash_fun \<Rightarrow> ('w, 'e) node_writer \<Rightarrow> ('x, 'e) blob_writer \<Rightarrow> stemResult \<Rightarrow> 'w binBuilder \<times> 'x option \<Rightarrow>
   'e bin_error + 'w binBuilder \<times> 'x option" where
  "builderStem sha wr wrs r = (\<lambda>(sb, sbw).
     bindE (feedStem sha wr (sr_stem r) (sr_hash r) (sr_entries r) sb) (\<lambda>sb.
     bindE (writeStemBlob wrs (sr_stem r) (sr_entries r) sbw) (\<lambda>sbw. Inr (sb, sbw))))"

definition builderRun ::
  "hash_fun \<Rightarrow> ('w, 'e) node_writer \<Rightarrow> ('x, 'e) blob_writer \<Rightarrow> nat \<Rightarrow> 'w option \<Rightarrow> 'x option \<Rightarrow> stemResult list \<Rightarrow>
   'e bin_error + bytes \<times> 'w option \<times> 'x option" where
  "builderRun sha wr wrs gd tnw sbw rs =
     bindE (foldE (builderStem sha wr wrs) rs (newBinBuilder gd tnw, sbw)) (\<lambda>(sb, sbw).
     bindE (bin_finish sha wr sb) (\<lambda>(root, sb). Inr (root, bb_w sb, sbw)))"

text \<open>The loop of the sequential \<open>computeBinaryRootStreaming\<close>.\<close>

fun streamLoop ::
  "hash_fun \<Rightarrow> ('w, 'e) node_writer \<Rightarrow> bytes \<Rightarrow> trieEntry list \<Rightarrow> trieEntry list \<Rightarrow> 'w binBuilder \<Rightarrow> 'e bin_error + 'w binBuilder" where
  "streamLoop sha wr currentStem currentEntries [] b =
     (if currentEntries \<noteq> []
      then feedStem sha wr currentStem (computeStemNodeHash sha currentStem currentEntries) currentEntries b else Inr b)"
| "streamLoop sha wr currentStem currentEntries (e # es) b =
     (if currentEntries \<noteq> [] \<and> take stemSize (te_Key e) \<noteq> currentStem then
        bindE (feedStem sha wr currentStem (computeStemNodeHash sha currentStem currentEntries) currentEntries b)
          (streamLoop sha wr (take stemSize (te_Key e)) [e] es)
      else streamLoop sha wr (take stemSize (te_Key e)) (currentEntries @ [e]) es b)"

definition computeBinaryRootStreaming ::
  "hash_fun \<Rightarrow> ('w, 'e) node_writer \<Rightarrow> trieEntry list \<Rightarrow> 'w option \<Rightarrow> nat \<Rightarrow> 'e bin_error + bytes \<times> 'w option" where
  "computeBinaryRootStreaming sha wr entries w gd =
     bindE (streamLoop sha wr (replicate stemSize 0) [] entries (newBinBuilder gd w)) (\<lambda>b.
     bindE (bin_finish sha wr b) (\<lambda>(root, b). Inr (root, bb_w b)))"

lemma streamLoop_reader:
  "streamLoop sha wr cur grp es b =
     foldE (\<lambda>w. feedStem sha wr (sw_stem w) (computeStemNodeHash sha (sw_stem w) (sw_entries w)) (sw_entries w)) (readerLoop q cur grp es) b"
  by (induction sha wr cur grp es b arbitrary: q rule: streamLoop.induct) (auto simp: bindE_def split: sum.splits)

lemma streamLoop_slice: "grp \<noteq> [] \<Longrightarrow> streamLoop sha wr cur grp es b = feedGroups sha wr cur grp es b"
  by (induction sha wr cur grp es b rule: feedGroups.induct) (auto simp: bindE_def split: sum.splits)

lemma streaming_slice: "computeBinaryRootStreaming sha wr entries w gd = computeBinaryRootStreamingFromSlice sha wr entries w gd"
  by (cases entries) (simp_all add: computeBinaryRootStreaming_def computeBinaryRootStreamingFromSlice_def streamLoop_slice
    bin_finish_def newBinBuilder_def)

lemma foldE_pair:
  assumes "foldE g rs a = Inr a'" "foldE h rs x = Inr x'"
  shows "foldE (\<lambda>r (a, x). bindE (g r a) (\<lambda>a. bindE (h r x) (\<lambda>x. Inr (a, x)))) rs (a, x) = Inr (a', x')"
  using assms
proof (induction rs arbitrary: a x)
  case (Cons r rs)
  obtain a1 x1 where "g r a = Inr a1" "h r x = Inr x1"
    using Cons.prems by (cases "g r a"; cases "h r x") simp_all
  then show ?case using Cons by simp
qed simp

definition stem_blobs :: "stemWork list \<Rightarrow> (bytes \<times> bytes) list" where
  "stem_blobs works = map (\<lambda>w. (sw_stem w, serializeStemBlob (sw_entries w))) works"

lemma map_put_rows_Nil [simp]: "map_option (put_rows g []) x = x"
  by (cases x) simp_all

lemma blobs_written:
  "foldE (\<lambda>r. writeStemBlob (writes g :: ('x, 'e) blob_writer) (sr_stem r) (sr_entries r)) (map (hashStem sha) works) sbw =
     Inr (map_option (put_rows g (stem_blobs works)) sbw)"
  by (induction works arbitrary: sbw)
    (auto simp: stem_blobs_def writeStemBlob_def hashStem_def option.map_ident comp_def split: option.split)

text \<open>What the builder computes from the results in order is what the sequential function computes.\<close>

lemma builder_sequential:
  fixes g :: "bytes \<Rightarrow> bytes \<Rightarrow> 'x \<Rightarrow> 'x" and wr :: "('w, 'e) node_writer"
  assumes "computeBinaryRootStreaming sha wr entries w gd = Inr (root, w')" "works = readerLoop 0 (replicate stemSize 0) [] entries"
  shows "builderRun sha wr (writes g) gd w sbw (map (hashStem sha) works) =
    Inr (root, w', map_option (put_rows g (stem_blobs works)) sbw)"
proof -
  let ?f = "\<lambda>r. feedStem sha wr (sr_stem r) (sr_hash r) (sr_entries r)"
  have s: "streamLoop sha wr (replicate stemSize 0) [] entries (newBinBuilder gd w) = foldE ?f (map (hashStem sha) works) (newBinBuilder gd w)"
    by (simp add: streamLoop_reader [of _ _ _ _ _ _ 0] assms(2) foldE_map hashStem_def)
  obtain b where b: "foldE ?f (map (hashStem sha) works) (newBinBuilder gd w) = Inr b"
      "bindE (bin_finish sha wr b) (\<lambda>(root, b). Inr (root, bb_w b)) = Inr (root, w')"
    using assms(1) unfolding computeBinaryRootStreaming_def s by (auto simp: bindE_def split: sum.splits)
  have "foldE (builderStem sha wr (writes g)) (map (hashStem sha) works) (newBinBuilder gd w, sbw) =
      Inr (b, map_option (put_rows g (stem_blobs works)) sbw)"
    using foldE_pair [OF b(1) blobs_written [of g sha works sbw]] by (simp add: builderStem_def [abs_def])
  then show ?thesis using b(2) by (auto simp: builderRun_def bindE_def split: sum.splits)
qed

section \<open>Properties\<close>

definition pipeWorkers :: "nat \<Rightarrow> nat" where
  "pipeWorkers numWorkers = (if numWorkers < 1 then 1 else numWorkers)"

lemma pipeWorkers_pos: "0 < pipeWorkers n"
  by (simp add: pipeWorkers_def)

lemma run_finishes:
  assumes "numbered works" "0 < n" "(pipe_step sha n ^^ k) (pipe_init n works) s"
  shows "\<exists>j s'. (pipe_step sha n ^^ j) (pipe_init n works) s' \<and> p_finished s'"
  using assms(3)
proof (induction "pipe_weight (length works) s" arbitrary: k s rule: less_induct)
  case less
  show ?case
  proof (cases "p_finished s")
    case False
    have inv: "pipe_inv sha n works s" using run_inv [OF less.prems assms(1)] by simp
    then obtain s' where s': "pipe_step sha n s s'"
      using pipe_progress [of n s sha] assms(2) False by (auto simp: pipe_inv_def)
    have "(pipe_step sha n ^^ Suc k) (pipe_init n works) s'" using less.prems s' by auto
    moreover have "pipe_weight (length works) s' < pipe_weight (length works) s"
      using weight_step [OF s'] inv by (simp add: pipe_inv_def)
    ultimately show ?thesis using less.hyps by blast
  qed (use less.prems in blast)
qed

text \<open>
  C5: The pipeline never deadlocks and always ends: however the goroutines interleave, after any number of steps
  the builder has finished or some goroutine can move, and no run has more than eleven steps per stem plus
  one per worker plus four.
\<close>

theorem pipeline_never_stuck:
  assumes "(pipe_step sha (pipeWorkers n) ^^ k) (pipe_init (pipeWorkers n) (readerLoop 0 (replicate stemSize 0) [] entries)) s"
  shows "(p_finished s \<or> (\<exists>s'. pipe_step sha (pipeWorkers n) s s')) \<and>
    k \<le> 11 * length (readerLoop 0 (replicate stemSize 0) [] entries) + pipeWorkers n + 4"
proof -
  note r = run_inv [OF assms readerLoop_numbered, unfolded init_weight]
  then have b: "bound_inv (pipeWorkers n) s" by (simp add: pipe_inv_def)
  have "k \<le> 11 * length (readerLoop 0 (replicate stemSize 0) [] entries) + pipeWorkers n + 4" using r by linarith
  then show ?thesis using pipe_progress [OF b pipeWorkers_pos, of sha] by blast
qed

text \<open>A witness: the first step of a run over five entries with three workers.\<close>

theorem pipeline_never_stuck_witness:
  "(p_finished (pipe_init (pipeWorkers 3) (readerLoop 0 (replicate stemSize 0) [] demoEntries)) \<or>
    (\<exists>s'. pipe_step demoHash (pipeWorkers 3) (pipe_init (pipeWorkers 3) (readerLoop 0 (replicate stemSize 0) [] demoEntries)) s')) \<and>
   0 \<le> 11 * length (readerLoop 0 (replicate stemSize 0) [] demoEntries) + pipeWorkers 3 + 4"
  by (rule pipeline_never_stuck) simp

text \<open>
  C4: Whatever the interleaving of the reader, the workers, the resequencer and the builder, a finished pipeline
  over sorted entries has the root, the trie nodes and the flat-state blobs of the sequential run: the
  builder has fed the stems in key order.
\<close>

theorem parallel_root_equals_reference:
  fixes f :: "bytes \<Rightarrow> bytes \<Rightarrow> 'w \<Rightarrow> 'w" and g :: "bytes \<Rightarrow> bytes \<Rightarrow> 'x \<Rightarrow> 'x"
  assumes "(pipe_step sha (pipeWorkers n) ^^ k) (pipe_init (pipeWorkers n) (readerLoop 0 (replicate stemSize 0) [] entries)) s"
    "p_finished s" "entries_wf entries" "0 < gd" "maxDepth mod gd = 0" "nonzero_hash sha"
  shows "builderRun sha (writes f :: ('w, 'e) node_writer) (writes g) gd (Some w) (Some x) (p_built s) =
    Inr (bref sha gd 0 (stemLeaves sha entries), Some (put_rows f (grows sha gd 0 (stemLeaves sha entries)) w),
      Some (put_rows g (stem_blobs (readerLoop 0 (replicate stemSize 0) [] entries)) x))"
proof -
  let ?works = "readerLoop 0 (replicate stemSize 0) [] entries"
  have "pipe_inv sha (pipeWorkers n) ?works s" using run_inv [OF assms(1) readerLoop_numbered] by simp
  then have "p_built s = map (hashStem sha) ?works" using finished_built [OF _ pipeWorkers_pos assms(2)] by blast
  moreover have "computeBinaryRootStreaming sha (writes f :: ('w, 'e) node_writer) entries (Some w) gd =
      Inr (bref sha gd 0 (stemLeaves sha entries), Some (put_rows f (grows sha gd 0 (stemLeaves sha entries)) w))"
    unfolding streaming_slice using assms(3-6) by (rule grouped_entries_root)
  ultimately show ?thesis using builder_sequential [OF _ refl, of sha "writes f :: ('w, 'e) node_writer" entries "Some w" gd _ _ g "Some x"]
    by simp
qed

text \<open>A witness: a finished run over five entries with two workers, which exists because no run is stuck.\<close>

definition demoLog :: "bytes \<Rightarrow> bytes \<Rightarrow> (bytes \<times> bytes) list \<Rightarrow> (bytes \<times> bytes) list" where
  "demoLog path blob l = l @ [(path, blob)]"

theorem parallel_root_equals_reference_witness:
  "\<exists>s :: pipe. p_finished s \<and>
     builderRun demoHash (writes demoLog :: ((bytes \<times> bytes) list, unit) node_writer) (writes demoLog) 8
       (Some []) (Some []) (p_built s) =
     Inr (bref demoHash 8 0 (stemLeaves demoHash demoEntries),
       Some (put_rows demoLog (grows demoHash 8 0 (stemLeaves demoHash demoEntries)) []),
       Some (put_rows demoLog (stem_blobs (readerLoop 0 (replicate stemSize 0) [] demoEntries)) []))"
proof -
  let ?w = "readerLoop 0 (replicate stemSize 0) [] demoEntries"
  have g: "0 < (8 :: nat)" "maxDepth mod 8 = 0" by (simp_all add: maxDepth_def stemSize_def)
  have "(pipe_step demoHash (pipeWorkers 2) ^^ 0) (pipe_init (pipeWorkers 2) ?w) (pipe_init (pipeWorkers 2) ?w)" by simp
  from run_finishes [OF readerLoop_numbered pipeWorkers_pos this] obtain j s where
    s: "(pipe_step demoHash (pipeWorkers 2) ^^ j) (pipe_init (pipeWorkers 2) ?w) s" "p_finished s" by blast
  show ?thesis
    by (rule exI [of _ s], rule conjI, rule s(2), rule parallel_root_equals_reference [OF s demoEntries_wf g demoHash_nonzero])
qed

section \<open>What the semaphore does not bound\<close>

text \<open>
  A worker gives its token back once its result is in the channel, so results wait in the resequencer without
  a token.  With one worker held up on the first stem, the other one can bring any number of stems there.
\<close>

definition backlog :: "hash_fun \<Rightarrow> stemWork list \<Rightarrow> nat \<Rightarrow> pipe" where
  "backlog sha works j = (pipe_init 2 works)\<lparr>p_todo := drop (Suc j) works, p_sem := 1, p_workers := [Hashing (works ! 0), Idle],
     p_pending := (\<lambda>q. if 0 < q \<and> q \<le> j then Some (hashStem sha (works ! q)) else None)\<rparr>"

lemma backlog_start:
  assumes "works = w # ws"
  shows "(pipe_step sha 2)\<^sup>*\<^sup>* (pipe_init 2 works) (backlog sha works 0)"
proof -
  let ?s = "pipe_init 2 works"
  let ?s1 = "?s\<lparr>p_todo := ws, p_holding := Some w, p_sem := Suc (p_sem ?s)\<rparr>"
  let ?s2 = "?s1\<lparr>p_holding := None, p_workCh := p_workCh ?s1 @ [w]\<rparr>"
  let ?s3 = "?s2\<lparr>p_workers := (p_workers ?s2)[0 := Hashing w], p_workCh := []\<rparr>"
  have "(pipe_step sha 2)\<^sup>*\<^sup>* ?s ?s1"
    by (rule r_into_rtranclp, rule acquire) (simp_all add: pipe_init_def assms maxInFlight_def)
  also have "pipe_step sha 2 ?s1 ?s2" by (rule dispatch) (simp_all add: pipe_init_def)
  also have "pipe_step sha 2 ?s2 ?s3" by (rule take_work) (simp_all add: pipe_init_def)
  finally have run: "(pipe_step sha 2)\<^sup>*\<^sup>* ?s ?s3" .
  have "?s3 = backlog sha works 0" by (auto simp: backlog_def pipe_init_def assms numeral_2_eq_2 fun_eq_iff)
  then show ?thesis using run by (simp only:)
qed

lemma backlog_step:
  assumes "numbered works" "Suc j < length works"
  shows "(pipe_step sha 2)\<^sup>*\<^sup>* (backlog sha works j) (backlog sha works (Suc j))"
proof -
  let ?s = "backlog sha works j" and ?w = "works ! Suc j"
  let ?s1 = "?s\<lparr>p_todo := drop (Suc (Suc j)) works, p_holding := Some ?w, p_sem := Suc (p_sem ?s)\<rparr>"
  let ?s2 = "?s1\<lparr>p_holding := None, p_workCh := p_workCh ?s1 @ [?w]\<rparr>"
  let ?s3 = "?s2\<lparr>p_workers := (p_workers ?s2)[1 := Hashing ?w], p_workCh := []\<rparr>"
  let ?s4 = "?s3\<lparr>p_workers := (p_workers ?s3)[1 := Releasing], p_resultCh := p_resultCh ?s3 @ [hashStem sha ?w]\<rparr>"
  let ?s5 = "?s4\<lparr>p_workers := (p_workers ?s4)[1 := Idle], p_sem := 1\<rparr>"
  let ?s6 = "?s5\<lparr>p_resultCh := [], p_pending := (p_pending ?s5)(sr_seqNum (hashStem sha ?w) \<mapsto> hashStem sha ?w)\<rparr>"
  have "(pipe_step sha 2)\<^sup>*\<^sup>* ?s ?s1"
    by (rule r_into_rtranclp, rule acquire) (use assms(2) in \<open>simp_all add: backlog_def pipe_init_def maxInFlight_def Cons_nth_drop_Suc\<close>)
  also have "pipe_step sha 2 ?s1 ?s2" by (rule dispatch) (simp_all add: backlog_def pipe_init_def)
  also have "pipe_step sha 2 ?s2 ?s3" by (rule take_work) (simp_all add: backlog_def pipe_init_def)
  also have "pipe_step sha 2 ?s3 ?s4" by (rule send_result) (simp_all add: backlog_def pipe_init_def)
  also have "pipe_step sha 2 ?s4 ?s5" by (rule release) (simp_all add: backlog_def pipe_init_def)
  also have "pipe_step sha 2 ?s5 ?s6" by (rule receive) (simp_all add: backlog_def pipe_init_def)
  finally have run: "(pipe_step sha 2)\<^sup>*\<^sup>* ?s ?s6" .
  have "?s6 = backlog sha works (Suc j)"
    using numbered_nth [OF assms] by (auto simp: backlog_def pipe_init_def hashStem_def fun_eq_iff le_Suc_eq)
  then show ?thesis using run by (simp only:)
qed

text \<open>
  After any number of stems the pipeline can hold all of them but the first in the resequencer, none of them
  built, with a single token in use.
\<close>

theorem semaphore_leaves_backlog:
  assumes "numbered works" "length works = Suc m"
  shows "\<exists>s. (pipe_step sha 2)\<^sup>*\<^sup>* (pipe_init 2 works) s \<and> p_sem s = 1 \<and> p_built s = [] \<and> p_builderCh s = [] \<and>
    dom (p_pending s) = {1..m}"
proof -
  obtain w ws where ws: "works = w # ws" using assms(2) by (cases works) auto
  have "(pipe_step sha 2)\<^sup>*\<^sup>* (pipe_init 2 works) (backlog sha works j)" if "j \<le> m" for j
    using that
  proof (induction j)
    case (Suc j)
    then show ?case using backlog_step [OF assms(1), of j sha] assms(2) by (simp add: rtranclp_trans)
  qed (use backlog_start [OF ws] in simp)
  moreover have "dom (p_pending (backlog sha works m)) = {1..m}" by (auto simp: backlog_def dom_def)
  ultimately show ?thesis by (intro exI [of _ "backlog sha works m"]) (simp add: backlog_def pipe_init_def)
qed

end
