(* ===== verification/Bin_Regroup.thy ===== *)
theory Bin_Regroup
  imports Bin_Node
begin

text \<open>
  The hash of a stored node, as \<open>generator/regroup.go\<close> computes it from the bytes in the database, and that
  it is the hash the streaming builder gave the node when it was written.
\<close>

definition blobStep :: "hash_fun \<Rightarrow> bytes \<Rightarrow> bytes \<Rightarrow> bytes list \<times> nat \<Rightarrow> nat \<Rightarrow> bytes list \<times> nat" where
  "blobStep sha blob bitmapBytes = (\<lambda>(data, valueOffset) i.
     if slotSet bitmapBytes i \<and> valueOffset + hashSize \<le> length blob
     then (data[i := sha (take hashSize (drop valueOffset blob))], valueOffset + hashSize)
     else (data, valueOffset))"

definition computeNodeHashFromBlob :: "hash_fun \<Rightarrow> bytes \<Rightarrow> bytes" where
  "computeNodeHashFromBlob sha blob =
     (if blob = [] then noHash
      else if hd blob = nodeTypeInternal then
        (if length blob = 65 then sha (take 64 (drop 1 blob)) else sha (drop 1 blob))
      else if hd blob = nodeTypeStem then
        (if length blob < 1 + stemSize + hashSize then noHash
         else
           let stem = take stemSize (drop 1 blob);
               bitmapBytes = take hashSize (drop (1 + stemSize) blob);
               (data, valueOffset) = foldl (blobStep sha blob bitmapBytes)
                 (replicate stemNodeWidth noHash, 1 + stemSize + hashSize) [0..<stemNodeWidth];
               data = fold (\<lambda>level data. reduceLevel sha (stemNodeWidth div 2 ^ level) data) [1..<9] data
           in sha (stem @ [0x00] @ data ! 0))
      else sha blob)"

definition group_wf :: "bytes \<Rightarrow> trieEntry list \<Rightarrow> bool" where
  "group_wf stem entries \<longleftrightarrow> length stem = stemSize \<and> list_all (\<lambda>e. length (te_Value e) = hashSize) entries \<and>
     sorted_wrt (\<lambda>a b. te_suffix a < te_suffix b) entries"

lemma concat_values:
  assumes "list_all (\<lambda>e. length (te_Value e) = hashSize) (pre @ e # post)"
  shows "take hashSize (drop (length pre * hashSize) (concat (map te_Value (pre @ e # post)))) = te_Value e"
  using assms by (induction pre) simp_all

lemma length_concat_values:
  "list_all (\<lambda>e. length (te_Value e) = hashSize) es \<Longrightarrow> length (concat (map te_Value es)) = length es * hashSize"
  by (induction es) simp_all

lemma upto_slot:
  assumes "sorted_wrt (\<lambda>a b. te_suffix a < te_suffix b) entries" "k \<in> te_suffix ` set entries"
  obtains pre e post where "entries = pre @ e # post" "te_suffix e = k"
    "filter (\<lambda>e. te_suffix e < k) entries = pre" "filter (\<lambda>e. te_suffix e < Suc k) entries = pre @ [e]"
proof -
  obtain e where e: "e \<in> set entries" "te_suffix e = k" using assms(2) by auto
  then obtain pre post where s: "entries = pre @ e # post" by (meson split_list)
  then have "\<forall>x \<in> set pre. te_suffix x < k" "\<forall>x \<in> set post. k < te_suffix x"
    using assms(1) e(2) by (auto simp: sorted_wrt_append)
  then have "filter (\<lambda>e. te_suffix e < k) pre = pre" "filter (\<lambda>e. te_suffix e < k) post = []"
    "filter (\<lambda>e. te_suffix e < Suc k) pre = pre" "filter (\<lambda>e. te_suffix e < Suc k) post = []"
    by (fastforce simp: filter_id_conv filter_empty_conv)+
  then show thesis using that [of pre e post] s e(2) by simp
qed

text \<open>The scan over the bitmap reads the value of each present slot in turn.\<close>

lemma blob_scan:
  assumes "group_wf stem entries" "k \<le> stemNodeWidth" "blob = serializeStemNode stem entries"
  shows "foldl (blobStep sha blob (suffixBitmap entries)) (replicate stemNodeWidth noHash, 1 + stemSize + hashSize) [0..<k] =
    (stemSlots sha (filter (\<lambda>e. te_suffix e < k) entries),
     1 + stemSize + hashSize + length (filter (\<lambda>e. te_suffix e < k) entries) * hashSize)"
  using assms(2)
proof (induction k)
  case 0
  show ?case by (simp add: stemSlots_def map_replicate_const)
next
  case (Suc k)
  let ?A = "\<lambda>k. filter (\<lambda>e. te_suffix e < k) entries"
  have k: "k < stemNodeWidth" using Suc.prems by simp
  note IH = Suc.IH [OF less_imp_le [OF k]]
  have wf: "length stem = stemSize" "list_all (\<lambda>e. length (te_Value e) = hashSize) entries"
      "sorted_wrt (\<lambda>a b. te_suffix a < te_suffix b) entries"
    using assms(1) by (simp_all add: group_wf_def)
  have blob: "blob = (nodeTypeStem # stem @ suffixBitmap entries) @ concat (map te_Value entries)"
      "length (nodeTypeStem # stem @ suffixBitmap entries) = 1 + stemSize + hashSize"
    using wf(1) by (simp_all add: assms(3) serializeStemNode_def)
  show ?case
  proof (cases "k \<in> te_suffix ` set entries")
    case True
    from upto_slot [OF wf(3) this] obtain pre e post where
      s: "entries = pre @ e # post" "te_suffix e = k" "?A k = pre" "?A (Suc k) = pre @ [e]" .
    let ?o = "1 + stemSize + hashSize + length pre * hashSize"
    have "drop ?o blob = drop (length pre * hashSize) (concat (map te_Value entries))"
      unfolding blob(1) drop_append blob(2) by (simp add: blob(2) [simplified])
    then have v: "take hashSize (drop ?o blob) = te_Value e"
      using concat_values [of pre e post] wf(2) s(1) by simp
    have "?o + hashSize \<le> length blob"
      using length_concat_values [OF wf(2)] blob(2) unfolding blob(1) length_append s(1) by simp
    moreover have "slotSet (suffixBitmap entries) k" using slotSet_suffix [OF k] True by simp
    moreover have "(stemSlots sha pre)[k := sha (te_Value e)] = stemSlots sha (pre @ [e])"
      by (simp flip: foldl_slots add: s(2))
    moreover have "foldl (blobStep sha blob (suffixBitmap entries)) (replicate stemNodeWidth noHash, 1 + stemSize + hashSize) [0..<k] =
        (stemSlots sha pre, ?o)"
      using IH unfolding s(3) by simp
    ultimately show ?thesis using v unfolding s(4) by (simp add: blobStep_def)
  next
    case False
    then have "?A (Suc k) = ?A k" by (auto simp: less_Suc_eq intro!: filter_cong)
    moreover have "\<not> slotSet (suffixBitmap entries) k" using slotSet_suffix [OF k] False by simp
    ultimately show ?thesis using IH by (simp add: blobStep_def)
  qed
qed

text \<open>
  C32: The hash recomputed from the stored bytes of a stem node is the hash the builder computed from the
  entries, for entries of one stem in ascending suffix order with 32-byte values.
\<close>

theorem stem_blob_hash:
  assumes "group_wf stem entries"
  shows "computeNodeHashFromBlob sha (serializeStemNode stem entries) = computeStemNodeHash sha stem entries"
proof -
  let ?blob = "serializeStemNode stem entries"
  have l: "length stem = stemSize" using assms by (simp add: group_wf_def)
  have b: "take stemSize (drop 1 ?blob) = stem" "take hashSize (drop (1 + stemSize) ?blob) = suffixBitmap entries"
    using l by (simp_all add: serializeStemNode_def)
  have "filter (\<lambda>e. te_suffix e < stemNodeWidth) entries = entries" using te_suffix_less by (simp add: filter_id_conv)
  then have f: "fst (foldl (blobStep sha ?blob (suffixBitmap entries)) (replicate stemNodeWidth noHash, 1 + stemSize + hashSize)
      [0..<stemNodeWidth]) = stemSlots sha entries"
    using blob_scan [OF assms order.refl refl, of sha] by simp
  have "\<not> length ?blob < 1 + stemSize + hashSize" "?blob \<noteq> []" "hd ?blob = nodeTypeStem"
    using l by (simp_all add: serializeStemNode_def)
  then have "computeNodeHashFromBlob sha ?blob =
      sha (stem @ [0x00] @ fold (\<lambda>level data. reduceLevel sha (stemNodeWidth div 2 ^ level) data) [1..<9] (stemSlots sha entries) ! 0)"
    using f unfolding computeNodeHashFromBlob_def Let_def b
    by (simp add: nodeTypeStem_def nodeTypeInternal_def case_prod_beta)
  then show ?thesis unfolding reduce_slots [OF length_stemSlots] stem_hash_merkle using l by simp
qed

text \<open>A witness: three values at the first, the second and the last suffix of a stem.\<close>

definition demoGroup :: "trieEntry list" where
  "demoGroup = map (\<lambda>i. \<lparr>te_Key = replicate 31 5 @ [i], te_Value = replicate 32 i\<rparr>) [0, 1, 255]"

theorem stem_blob_hash_witness:
  "computeNodeHashFromBlob (\<lambda>x. take 32 (x @ noHash)) (serializeStemNode (replicate 31 5) demoGroup) =
     computeStemNodeHash (\<lambda>x. take 32 (x @ noHash)) (replicate 31 5) demoGroup"
proof (rule stem_blob_hash)
  show "group_wf (replicate 31 5) demoGroup"
    by (simp add: group_wf_def demoGroup_def stemSize_def hashSize_def te_suffix_def nth_append)
qed

end
