(* ===== verification/Entity_Blob.thy ===== *)
theory Entity_Blob
  imports Nimbus_Codec
begin

text \<open>
  The scratch records in which the writers of geth, ethrex, nimbus and besu spill one account between their
  two phases: \<open>client/geth/entity_blob.go\<close>, \<open>client/ethrex/state_writer_cgo.go\<close>,
  \<open>client/nimbus/node_sink_cgo.go\<close> and \<open>client/besu/state_writer_cgo.go\<close>.  The four codecs were written
  separately; they are shown to write the same bytes, to read each other's records back, and to refuse a
  record that was cut short.

  A decoder keeps a position in the blob; here it keeps the bytes from that position on.  A balance is
  written by \<open>uint256.Int.Bytes\<close>, or by \<open>ToBig().Bytes()\<close>, which are parameters with the same documented
  result, the shortest big-endian bytes.  Besu's slots are a Go map, here the list of its entries in the
  order in which \<open>range\<close> yields them, and a map after decoding.
\<close>

section \<open>Records\<close>

type_synonym slot_list = "(bytes \<times> bytes) list"
type_synonym u32 = "32 word"

datatype blob_error =
    BlobShort
  | BlobKind byte
  | BlobTruncated string
  | BlobTrailing nat

definition entityEOA :: byte where "entityEOA = 1"
definition entityContract :: byte where "entityContract = 2"

record entityBlob =
  eb_kind :: byte
  eb_nonce :: u64
  eb_balance :: uint256
  eb_code :: bytes
  eb_slots :: slot_list

definition putUint32BE :: "u32 \<Rightarrow> bytes" where
  "putUint32BE v = beBytes 4 (unat v)"

definition getUint32BE :: "bytes \<Rightarrow> nat" where
  "getUint32BE b = unat (of_nat (beNat b) :: u32)"

definition slotBytes :: "slot_list \<Rightarrow> bytes" where
  "slotBytes slots = concat (map (\<lambda>(k, v). k @ v) slots)"

section \<open>Encoders\<close>

definition geth_encodeEntityEOA :: "(uint256 \<Rightarrow> bytes) \<Rightarrow> u64 \<Rightarrow> uint256 \<Rightarrow> bytes" where
  "geth_encodeEntityEOA bigBytes nonce balance =
     (let balBytes = bigBytes balance
      in [entityEOA] @ putUint64BE nonce @ [of_nat (length balBytes)] @ balBytes)"

definition geth_encodeEntityContract :: "(uint256 \<Rightarrow> bytes) \<Rightarrow> u64 \<Rightarrow> uint256 \<Rightarrow> bytes \<Rightarrow> slot_list \<Rightarrow> bytes" where
  "geth_encodeEntityContract bigBytes nonce balance code slots =
     (let balBytes = bigBytes balance
      in [entityContract] @ putUint64BE nonce @ [of_nat (length balBytes)] @ balBytes @
         putUint32BE (of_nat (length code)) @ code @ putUint32BE (of_nat (length slots)) @ slotBytes slots)"

definition ethrex_encodeEntity :: "(uint256 \<Rightarrow> bytes) \<Rightarrow> u64 \<Rightarrow> uint256 \<Rightarrow> bytes \<Rightarrow> slot_list \<Rightarrow> bytes" where
  "ethrex_encodeEntity uBytes nonce balance code slots =
     (if length code = 0 \<and> length slots = 0 then
        let balBytes = uBytes balance
        in [entityEOA] @ putUint64BE nonce @ [of_nat (length balBytes)] @ balBytes
      else
        let balBytes = uBytes balance
        in [entityContract] @ putUint64BE nonce @ [of_nat (length balBytes)] @ balBytes @
           putUint32BE (of_nat (length code)) @ code @ putUint32BE (of_nat (length slots)) @ slotBytes slots)"

definition nimbus_encodeEntity :: "(uint256 \<Rightarrow> bytes) \<Rightarrow> u64 \<Rightarrow> uint256 \<Rightarrow> bytes \<Rightarrow> slot_list \<Rightarrow> bytes" where
  "nimbus_encodeEntity uBytes nonce balance code slots =
     (let balBytes = uBytes balance in
      if length code = 0 \<and> length slots = 0 then
        [entityEOA] @ putUint64BE nonce @ [of_nat (length balBytes)] @ balBytes
      else
        [entityContract] @ putUint64BE nonce @ [of_nat (length balBytes)] @ balBytes @
        putUint32BE (of_nat (length code)) @ code @ putUint32BE (of_nat (length slots)) @ slotBytes slots)"

definition besu_encodeEntityEOA :: "(uint256 \<Rightarrow> bytes) \<Rightarrow> u64 \<Rightarrow> uint256 \<Rightarrow> bytes" where
  "besu_encodeEntityEOA bigBytes nonce balance =
     (let balBytes = bigBytes balance
      in [entityEOA] @ putUint64BE nonce @ [of_nat (length balBytes)] @ balBytes)"

definition besu_encodeEntityContract :: "(uint256 \<Rightarrow> bytes) \<Rightarrow> u64 \<Rightarrow> uint256 \<Rightarrow> bytes \<Rightarrow> slot_list \<Rightarrow> bytes" where
  "besu_encodeEntityContract bigBytes nonce balance code ranged =
     (let balBytes = bigBytes balance
      in [entityContract] @ putUint64BE nonce @ [of_nat (length balBytes)] @ balBytes @
         putUint32BE (of_nat (length code)) @ code @ putUint32BE (of_nat (length ranged)) @ slotBytes ranged)"

section \<open>Decoders\<close>

definition blobTake :: "string \<Rightarrow> nat \<Rightarrow> bytes \<Rightarrow> blob_error + bytes \<times> bytes" where
  "blobTake what n rest = (if length rest < n then Inl (BlobTruncated what) else Inr (take n rest, drop n rest))"

text \<open>The slots of a blob whose length has been checked.\<close>

fun readSlots :: "nat \<Rightarrow> bytes \<Rightarrow> slot_list \<times> bytes" where
  "readSlots 0 rest = ([], rest)"
| "readSlots (Suc n) rest =
     (let (slots, rest') = readSlots n (drop 64 rest) in ((take 32 rest, take 32 (drop 32 rest)) # slots, rest'))"

definition decodeEntityBlob :: "(bytes \<Rightarrow> uint256) \<Rightarrow> bytes \<Rightarrow> blob_error + entityBlob" where
  "decodeEntityBlob setBytes blob =
     (if length blob < 1 then Inl BlobShort
      else let kind = blob ! 0; rest = drop 1 blob in
        if kind \<noteq> entityEOA \<and> kind \<noteq> entityContract then Inl (BlobKind kind)
        else if length rest < 8 + 1 then Inl (BlobTruncated ''nonce/balance header'')
        else let nonce = getUint64BE (take 8 rest); balLen = unat (rest ! 8); rest = drop 9 rest in
          bindE (blobTake ''balance bytes'' balLen rest) (\<lambda>(bal, rest).
          let balance = setBytes bal in
          if kind = entityEOA then
            if rest \<noteq> [] then Inl (BlobTrailing (length rest))
            else Inr \<lparr>eb_kind = kind, eb_nonce = nonce, eb_balance = balance, eb_code = [], eb_slots = []\<rparr>
          else
            bindE (blobTake ''code length'' 4 rest) (\<lambda>(lenB, rest).
            bindE (blobTake ''code bytes'' (getUint32BE lenB) rest) (\<lambda>(code, rest).
            bindE (blobTake ''slot count'' 4 rest) (\<lambda>(cntB, rest).
            let slotCount = getUint32BE cntB in
            if length rest < slotCount * 64 then Inl (BlobTruncated ''slots'')
            else let (slots, rest) = readSlots slotCount rest in
              if rest \<noteq> [] then Inl (BlobTrailing (length rest))
              else Inr \<lparr>eb_kind = kind, eb_nonce = nonce, eb_balance = balance, eb_code = code, eb_slots = slots\<rparr>)))))"

text \<open>Ethrex checks the length before every slot, nimbus before the first.  Neither looks at what follows.\<close>

fun readSlotsChecked :: "nat \<Rightarrow> bytes \<Rightarrow> blob_error + slot_list" where
  "readSlotsChecked 0 rest = Inr []"
| "readSlotsChecked (Suc n) rest =
     bindE (blobTake ''slot'' 64 rest) (\<lambda>(kv, rest).
     bindE (readSlotsChecked n rest) (\<lambda>slots. Inr ((take 32 kv, drop 32 kv) # slots)))"

definition decodeHead :: "(bytes \<Rightarrow> uint256) \<Rightarrow> bytes \<Rightarrow> blob_error + byte \<times> u64 \<times> uint256 \<times> bytes" where
  "decodeHead setBytes blob =
     bindE (blobTake ''kind'' 1 blob) (\<lambda>(kindB, rest).
     let kind = kindB ! 0 in
     if kind \<noteq> entityEOA \<and> kind \<noteq> entityContract then Inl (BlobKind kind)
     else
       bindE (blobTake ''nonce'' 8 rest) (\<lambda>(nonceB, rest).
       bindE (blobTake ''balance length'' 1 rest) (\<lambda>(lenB, rest).
       bindE (blobTake ''balance'' (unat (lenB ! 0)) rest) (\<lambda>(bal, rest).
       Inr (kind, getUint64BE nonceB, setBytes bal, rest)))))"

definition decodeBody :: "(nat \<Rightarrow> bytes \<Rightarrow> blob_error + slot_list) \<Rightarrow> bytes \<Rightarrow> blob_error + bytes \<times> slot_list" where
  "decodeBody readAll rest =
     bindE (blobTake ''code length'' 4 rest) (\<lambda>(lenB, rest).
     bindE (blobTake ''code'' (getUint32BE lenB) rest) (\<lambda>(code, rest).
     bindE (blobTake ''slot count'' 4 rest) (\<lambda>(cntB, rest).
     bindE (readAll (getUint32BE cntB) rest) (\<lambda>slots. Inr (code, slots)))))"

definition decodeEntityWith ::
  "(nat \<Rightarrow> bytes \<Rightarrow> blob_error + slot_list) \<Rightarrow> (bytes \<Rightarrow> uint256) \<Rightarrow> bytes \<Rightarrow> blob_error + entityBlob" where
  "decodeEntityWith readAll setBytes blob =
     bindE (decodeHead setBytes blob) (\<lambda>(kind, nonce, balance, rest).
     let e = \<lparr>eb_kind = kind, eb_nonce = nonce, eb_balance = balance, eb_code = [], eb_slots = []\<rparr> in
     if kind = entityContract then
       bindE (decodeBody readAll rest) (\<lambda>(code, slots). Inr (e\<lparr>eb_code := code, eb_slots := slots\<rparr>))
     else Inr e)"

definition ethrex_decodeEntity :: "(bytes \<Rightarrow> uint256) \<Rightarrow> bytes \<Rightarrow> blob_error + entityBlob" where
  "ethrex_decodeEntity = decodeEntityWith readSlotsChecked"

definition nimbus_decodeEntity :: "(bytes \<Rightarrow> uint256) \<Rightarrow> bytes \<Rightarrow> blob_error + entityBlob" where
  "nimbus_decodeEntity =
     decodeEntityWith (\<lambda>n rest. if length rest < n * 64 then Inl (BlobTruncated ''slots'') else Inr (fst (readSlots n rest)))"

record besuEntity =
  be_kind :: byte
  be_nonce :: u64
  be_balance :: uint256
  be_code :: bytes
  be_slots :: "bytes \<rightharpoonup> bytes"

definition besuTake :: "nat \<Rightarrow> bytes \<Rightarrow> (bytes \<times> bytes) option" where
  "besuTake n rest = (if length rest < n then None else Some (take n rest, drop n rest))"

fun besuSlots :: "nat \<Rightarrow> bytes \<Rightarrow> (bytes \<rightharpoonup> bytes) \<Rightarrow> (bytes \<rightharpoonup> bytes) option" where
  "besuSlots 0 rest m = Some m"
| "besuSlots (Suc n) rest m =
     Option.bind (besuTake 32 rest) (\<lambda>(k, rest).
     Option.bind (besuTake 32 rest) (\<lambda>(v, rest). besuSlots n rest (m(k \<mapsto> v))))"

text \<open>Besu's decoder panics on short input (the blob is a slice whose capacity is its length) and takes any other kind for an account without code.\<close>

definition besu_decodeEntity :: "(bytes \<Rightarrow> uint256) \<Rightarrow> bytes \<Rightarrow> besuEntity option" where
  "besu_decodeEntity setBytes blob =
     Option.bind (besuTake 1 blob) (\<lambda>(kindB, rest).
     Option.bind (besuTake 8 rest) (\<lambda>(nonceB, rest).
     Option.bind (besuTake 1 rest) (\<lambda>(lenB, rest).
     Option.bind (besuTake (unat (lenB ! 0)) rest) (\<lambda>(bal, rest).
     let e = \<lparr>be_kind = kindB ! 0, be_nonce = getUint64BE nonceB, be_balance = setBytes bal, be_code = [],
              be_slots = Map.empty\<rparr> in
     if kindB ! 0 = entityContract then
       Option.bind (besuTake 4 rest) (\<lambda>(lenB, rest).
       Option.bind (besuTake (getUint32BE lenB) rest) (\<lambda>(code, rest).
       Option.bind (besuTake 4 rest) (\<lambda>(cntB, rest).
       Option.bind (besuSlots (getUint32BE cntB) rest Map.empty) (\<lambda>m. Some (e\<lparr>be_code := code, be_slots := m\<rparr>)))))
     else Some e))))"

section \<open>Round trips\<close>

lemma length_putUint32BE [simp]: "length (putUint32BE v) = 4"
  by (simp add: putUint32BE_def)

lemma getUint32BE_put: "n < 2 ^ 32 \<Longrightarrow> getUint32BE (putUint32BE (of_nat n)) = n"
  by (simp add: getUint32BE_def putUint32BE_def beNat_beBytes unat_of_nat)

lemma length_slotBytes: "\<forall>(k, v) \<in> set slots. length k = 32 \<and> length v = 32 \<Longrightarrow> length (slotBytes slots) = length slots * 64"
  by (induction slots) (auto simp: slotBytes_def)

lemma readSlots_slotBytes:
  "\<forall>(k, v) \<in> set slots. length k = 32 \<and> length v = 32 \<Longrightarrow> readSlots (length slots) (slotBytes slots @ rest) = (slots, rest)"
  by (induction slots) (auto simp: slotBytes_def)

lemma readSlotsChecked_slotBytes:
  "\<forall>(k, v) \<in> set slots. length k = 32 \<and> length v = 32 \<Longrightarrow> readSlotsChecked (length slots) (slotBytes slots @ rest) = Inr slots"
  by (induction slots) (auto simp: slotBytes_def blobTake_def)

lemma besuSlots_slotBytes:
  "\<forall>(k, v) \<in> set slots. length k = 32 \<and> length v = 32 \<Longrightarrow>
   besuSlots (length slots) (slotBytes slots @ rest) m = Some (m ++ map_of (rev slots))"
  by (induction slots arbitrary: m) (auto simp: slotBytes_def besuTake_def)

text \<open>The record of an account, and when its fields fit.\<close>

definition entity_ok :: "entityBlob \<Rightarrow> bool" where
  "entity_ok e \<longleftrightarrow> length (eb_code e) < 2 ^ 32 \<and> length (eb_slots e) < 2 ^ 32 \<and>
     (\<forall>(k, v) \<in> set (eb_slots e). length k = 32 \<and> length v = 32) \<and>
     (if eb_kind e = entityContract then True else eb_kind e = entityEOA \<and> eb_code e = [] \<and> eb_slots e = [])"

definition entity_row :: "entityBlob \<Rightarrow> bytes" where
  "entity_row e =
     [eb_kind e] @ putUint64BE (eb_nonce e) @ [of_nat (length (minBEBytes (unat (eb_balance e))))] @
     minBEBytes (unat (eb_balance e)) @
     (if eb_kind e = entityContract then
        putUint32BE (of_nat (length (eb_code e))) @ eb_code e @ putUint32BE (of_nat (length (eb_slots e))) @ slotBytes (eb_slots e)
      else [])"

definition setBytes_spec :: "(bytes \<Rightarrow> uint256) \<Rightarrow> bool" where
  "setBytes_spec setBytes \<longleftrightarrow> (\<forall>b. length b \<le> 32 \<longrightarrow> setBytes b = of_nat (beNat b))"

lemma setBytes_minBE: "setBytes_spec setBytes \<Longrightarrow> setBytes (minBEBytes (unat v)) = v"
  using length_minBEBytes_u256 [of v] by (simp add: setBytes_spec_def)

lemma unat_balance_length: "unat (of_nat (length (minBEBytes (unat (v :: uint256)))) :: byte) = length (minBEBytes (unat v))"
  using length_minBEBytes_u256 [of v] by (simp add: unat_of_nat)

definition reads_slots :: "(nat \<Rightarrow> bytes \<Rightarrow> blob_error + slot_list) \<Rightarrow> bool" where
  "reads_slots readAll \<longleftrightarrow>
     (\<forall>slots rest. (\<forall>(k, v) \<in> set slots. length k = 32 \<and> length v = 32) \<longrightarrow>
        readAll (length slots) (slotBytes slots @ rest) = Inr slots) \<and>
     (\<forall>n rest slots. readAll n rest = Inr slots \<longrightarrow> length slots = n \<and> n * 64 \<le> length rest \<and>
        (\<forall>x. readAll n (rest @ x) = Inr slots))"

lemma decodeEntityWith_row:
  assumes "reads_slots readAll" "setBytes_spec setBytes" "entity_ok e"
  shows "decodeEntityWith readAll setBytes (entity_row e @ rest) = Inr e"
proof -
  have "readAll (length (eb_slots e)) (slotBytes (eb_slots e) @ rest) = Inr (eb_slots e)"
    using assms(1,3) by (simp add: reads_slots_def entity_ok_def)
  then show ?thesis
    using assms(2,3)
    by (cases e) (auto simp: decodeEntityWith_def decodeHead_def decodeBody_def entity_row_def blobTake_def Let_def entity_ok_def unat_balance_length
        setBytes_minBE getUint32BE_put entityEOA_def entityContract_def split: if_splits)
qed

lemma ethrex_reads: "reads_slots readSlotsChecked"
proof -
  have "readSlotsChecked n rest = Inr slots \<Longrightarrow> length slots = n \<and> n * 64 \<le> length rest \<and>
      (\<forall>x. readSlotsChecked n (rest @ x) = Inr slots)" for n rest slots
  proof (induction n arbitrary: rest slots)
    case (Suc n)
    then obtain s' where s: "64 \<le> length rest" "readSlotsChecked n (drop 64 rest) = Inr s'"
      "slots = (take 32 (take 64 rest), drop 32 (take 64 rest)) # s'"
      by (auto simp: blobTake_def bindE_eq_Inr split: if_splits)
    from Suc.IH [OF s(2)] s show ?case by (auto simp: blobTake_def)
  qed simp
  then show ?thesis unfolding reads_slots_def by (simp add: readSlotsChecked_slotBytes)
qed

lemma length_readSlots: "length (fst (readSlots n rest)) = n"
  by (induction n rest rule: readSlots.induct) (simp_all add: Let_def split_beta)

lemma readSlots_append: "n * 64 \<le> length rest \<Longrightarrow> readSlots n (rest @ x) = (fst (readSlots n rest), snd (readSlots n rest) @ x)"
  by (induction n rest rule: readSlots.induct) (simp_all add: Let_def split_beta)

lemma nimbus_reads:
  "reads_slots (\<lambda>n rest. if length rest < n * 64 then Inl (BlobTruncated ''slots'') else Inr (fst (readSlots n rest)))"
  unfolding reads_slots_def
  by (auto simp: readSlots_slotBytes readSlots_slotBytes [where rest = "[]", simplified] length_slotBytes length_readSlots
      readSlots_append)

section \<open>Truncated and overlong records\<close>

text \<open>How many bytes a successful reading has looked at.\<close>

definition read_size :: "bytes \<Rightarrow> entityBlob \<Rightarrow> nat" where
  "read_size blob e =
     10 + unat (blob ! 9) + (if eb_kind e = entityContract then 8 + length (eb_code e) + 64 * length (eb_slots e) else 0)"

lemma blobTake_Inr: "blobTake what n rest = Inr (a, r) \<longleftrightarrow> n \<le> length rest \<and> a = take n rest \<and> r = drop n rest"
  by (auto simp: blobTake_def)

lemma blobTake_append: "n \<le> length rest \<Longrightarrow> blobTake what n (rest @ x) = Inr (take n rest, drop n rest @ x)"
  by (simp add: blobTake_def)

lemma decodeHead_ext:
  assumes "decodeHead setBytes blob = Inr (kind, nonce, balance, rest)"
  shows "decodeHead setBytes (blob @ x) = Inr (kind, nonce, balance, rest @ x)"
    "10 + unat (blob ! 9) + length rest = length blob" "kind = entityEOA \<or> kind = entityContract"
proof -
  obtain r where r: "blob \<noteq> []" "r = drop 9 blob" "9 \<le> length blob" "r \<noteq> []"
    "unat (r ! 0) \<le> length (drop 1 r)" "rest = drop (unat (r ! 0)) (drop 1 r)"
    "kind = blob ! 0" "kind = entityEOA \<or> kind = entityContract"
    "nonce = getUint64BE (take 8 (drop 1 blob))" "balance = setBytes (take (unat (r ! 0)) (drop 1 r))"
    using assms by (auto simp: decodeHead_def bindE_eq_Inr blobTake_Inr Let_def Suc_le_eq add.commute split: if_splits)
  then show "10 + unat (blob ! 9) + length rest = length blob" "kind = entityEOA \<or> kind = entityContract" by auto
  have "blobTake w 1 (blob @ x) = Inr (take 1 blob, drop 1 blob @ x)" "blobTake w 8 (drop 1 blob @ x) = Inr (take 8 (drop 1 blob), r @ x)"
    "blobTake w 1 (r @ x) = Inr (take 1 r, drop 1 r @ x)"
    "blobTake w (unat (r ! 0)) (drop 1 r @ x) = Inr (take (unat (r ! 0)) (drop 1 r), rest @ x)" for w
    using r by (auto simp: blobTake_append Suc_le_eq)
  then show "decodeHead setBytes (blob @ x) = Inr (kind, nonce, balance, rest @ x)"
    using r by (simp add: decodeHead_def Let_def)
qed

lemma decodeBody_ext:
  assumes "reads_slots readAll" "decodeBody readAll rest = Inr (code, slots)"
  shows "decodeBody readAll (rest @ x) = Inr (code, slots)" "8 + length code + 64 * length slots \<le> length rest"
proof -
  obtain r n where r: "4 \<le> length rest" "getUint32BE (take 4 rest) \<le> length (drop 4 rest)"
    "code = take (getUint32BE (take 4 rest)) (drop 4 rest)" "r = drop (getUint32BE (take 4 rest)) (drop 4 rest)"
    "4 \<le> length r" "n = getUint32BE (take 4 r)" "readAll n (drop 4 r) = Inr slots"
    using assms(2) by (auto simp: decodeBody_def bindE_eq_Inr blobTake_Inr simp del: drop_drop)
  have s: "length slots = n" "n * 64 \<le> length (drop 4 r)" "readAll n (drop 4 r @ x) = Inr slots"
    using assms(1) r(7) unfolding reads_slots_def by blast+
  then show "8 + length code + 64 * length slots \<le> length rest" using r by simp
  show "decodeBody readAll (rest @ x) = Inr (code, slots)"
    using r s(3) blobTake_append [OF r(1)] blobTake_append [OF r(2)] blobTake_append [OF r(5)]
    by (simp add: decodeBody_def del: drop_drop)
qed

lemma decodeEntityWith_ext:
  assumes "reads_slots readAll" "decodeEntityWith readAll setBytes blob = Inr e"
  shows "decodeEntityWith readAll setBytes (blob @ x) = Inr e \<and> read_size blob e \<le> length blob"
proof -
  obtain kind nonce balance rest where h: "decodeHead setBytes blob = Inr (kind, nonce, balance, rest)"
    using assms(2) by (auto simp: decodeEntityWith_def bindE_eq_Inr)
  note x = decodeHead_ext [OF h]
  show ?thesis
  proof (cases "kind = entityContract")
    case True
    then obtain code slots where b: "decodeBody readAll rest = Inr (code, slots)"
      "e = \<lparr>eb_kind = kind, eb_nonce = nonce, eb_balance = balance, eb_code = code, eb_slots = slots\<rparr>"
      using assms(2) h by (auto simp: decodeEntityWith_def bindE_eq_Inr Let_def)
    then show ?thesis
      using True x(1) [of x] x(2) decodeBody_ext [OF assms(1) b(1)]
      by (simp add: decodeEntityWith_def read_size_def Let_def)
  next
    case False
    then have "e = \<lparr>eb_kind = kind, eb_nonce = nonce, eb_balance = balance, eb_code = [], eb_slots = []\<rparr>"
      using assms(2) h by (auto simp: decodeEntityWith_def)
    then show ?thesis using False x(1) [of x] x(2) by (simp add: decodeEntityWith_def read_size_def Let_def)
  qed
qed

lemma entity_row_size: "entity_ok e \<Longrightarrow> read_size (entity_row e @ x) e = length (entity_row e)"
proof -
  assume ok: "entity_ok e"
  have "(entity_row e @ x) ! 9 = of_nat (length (minBEBytes (unat (eb_balance e))))"
    by (simp add: entity_row_def nth_append)
  then show ?thesis
    using ok length_slotBytes [of "eb_slots e"]
    by (simp add: read_size_def unat_balance_length entity_row_def entity_ok_def)
qed

lemma entity_row_9: "9 < length (entity_row e)"
  by (simp add: entity_row_def)

lemma decodeEntityWith_truncated:
  assumes "reads_slots readAll" "setBytes_spec setBytes" "entity_ok e" "k < length (entity_row e)"
  shows "decodeEntityWith readAll setBytes (take k (entity_row e)) \<noteq> Inr e'"
proof
  assume d: "decodeEntityWith readAll setBytes (take k (entity_row e)) = Inr e'"
  have "decodeEntityWith readAll setBytes (entity_row e) = Inr e'"
    using decodeEntityWith_ext [OF assms(1) d, of "drop k (entity_row e)"] by simp
  then have e: "e' = e" using decodeEntityWith_row [OF assms(1-3), of "[]"] by simp
  have size: "read_size (take k (entity_row e)) e \<le> k"
    using decodeEntityWith_ext [OF assms(1) d] e assms(4) by simp
  then have "9 < k" by (simp add: read_size_def)
  then have "read_size (take k (entity_row e)) e = read_size (entity_row e) e" by (simp add: read_size_def)
  then show False using size assms(4) entity_row_size [OF assms(3), of "[]"] by simp
qed

section \<open>Geth's decoder\<close>

text \<open>Geth reads what nimbus reads, and refuses a record with bytes left over.\<close>

lemma length_readSlots_rest: "n * 64 \<le> length rest \<Longrightarrow> length (snd (readSlots n rest)) = length rest - n * 64"
  by (induction n rest rule: readSlots.induct) (simp_all add: Let_def split_beta)

lemma decodeHead_iff:
  "decodeHead setBytes b = Inr (kind, nonce, balance, rest) \<longleftrightarrow>
     10 \<le> length b \<and> kind = b ! 0 \<and> (kind = entityEOA \<or> kind = entityContract) \<and> unat (b ! 9) \<le> length b - 10 \<and>
     nonce = getUint64BE (take 8 (drop 1 b)) \<and> balance = setBytes (take (unat (b ! 9)) (drop 10 b)) \<and>
     rest = drop (unat (b ! 9)) (drop 10 b)"
  by (auto simp: decodeHead_def bindE_eq_Inr blobTake_Inr Let_def Suc_le_eq add.commute split: if_splits)

definition gethTail :: "bytes \<Rightarrow> byte \<Rightarrow> u64 \<Rightarrow> uint256 \<Rightarrow> blob_error + entityBlob" where
  "gethTail rest kind nonce balance =
     (if kind = entityEOA then
        if rest \<noteq> [] then Inl (BlobTrailing (length rest))
        else Inr \<lparr>eb_kind = kind, eb_nonce = nonce, eb_balance = balance, eb_code = [], eb_slots = []\<rparr>
      else
        bindE (blobTake ''code length'' 4 rest) (\<lambda>(lenB, rest).
        bindE (blobTake ''code bytes'' (getUint32BE lenB) rest) (\<lambda>(code, rest).
        bindE (blobTake ''slot count'' 4 rest) (\<lambda>(cntB, rest).
        let slotCount = getUint32BE cntB in
        if length rest < slotCount * 64 then Inl (BlobTruncated ''slots'')
        else let (slots, rest) = readSlots slotCount rest in
          if rest \<noteq> [] then Inl (BlobTrailing (length rest))
          else Inr \<lparr>eb_kind = kind, eb_nonce = nonce, eb_balance = balance, eb_code = code, eb_slots = slots\<rparr>))))"

lemma decodeEntityBlob_head:
  "decodeEntityBlob setBytes b = Inr e \<longleftrightarrow>
     (\<exists>kind nonce balance rest. decodeHead setBytes b = Inr (kind, nonce, balance, rest) \<and> gethTail rest kind nonce balance = Inr e)"
proof (cases "10 \<le> length b \<and> (b ! 0 = entityEOA \<or> b ! 0 = entityContract) \<and> unat (b ! 9) \<le> length b - 10")
  case True
  then have "decodeEntityBlob setBytes b =
      gethTail (drop (unat (b ! 9)) (drop 10 b)) (b ! 0) (getUint64BE (take 8 (drop 1 b))) (setBytes (take (unat (b ! 9)) (drop 10 b)))"
    by (auto simp: decodeEntityBlob_def gethTail_def Let_def blobTake_def)
  then show ?thesis using True by (simp add: decodeHead_iff)
next
  case False
  then have "decodeEntityBlob setBytes b \<noteq> Inr e"
    by (auto simp: decodeEntityBlob_def Let_def blobTake_def)
  then show ?thesis using False by (auto simp: decodeHead_iff)
qed

abbreviation nimbus_readAll :: "nat \<Rightarrow> bytes \<Rightarrow> blob_error + slot_list" where
  "nimbus_readAll \<equiv> \<lambda>n rest. if length rest < n * 64 then Inl (BlobTruncated ''slots'') else Inr (fst (readSlots n rest))"

lemma gethTail_Contract:
  "gethTail rest entityContract nonce balance = Inr e \<longleftrightarrow>
     (\<exists>code slots. decodeBody nimbus_readAll rest = Inr (code, slots) \<and> length rest = 8 + length code + 64 * length slots \<and>
        e = \<lparr>eb_kind = entityContract, eb_nonce = nonce, eb_balance = balance, eb_code = code, eb_slots = slots\<rparr>)"
proof -
  have k: "entityContract \<noteq> entityEOA" by (simp add: entityEOA_def entityContract_def)
  have left: "snd (readSlots n r) = [] \<longleftrightarrow> length r = n * 64" if "n * 64 \<le> length r" for n r
  proof -
    have "snd (readSlots n r) = [] \<longleftrightarrow> length (snd (readSlots n r)) = 0" by simp
    then show ?thesis using length_readSlots_rest [OF that] that by linarith
  qed
  define c where "c = getUint32BE (take 4 rest)"
  define r where "r = drop c (drop 4 rest)"
  define n where "n = getUint32BE (take 4 r)"
  show ?thesis
  proof (cases "4 \<le> length rest \<and> c \<le> length rest - 4 \<and> 4 \<le> length r \<and> n * 64 \<le> length (drop 4 r)")
    case True
    have body: "decodeBody nimbus_readAll rest = Inr (take c (drop 4 rest), fst (readSlots n (drop 4 r)))"
      using True by (simp add: decodeBody_def blobTake_def c_def [symmetric] r_def [symmetric] n_def [symmetric] del: drop_drop)
    have "length rest = 8 + c + length (drop 4 r)" using True by (auto simp: r_def)
    then have sz: "snd (readSlots n (drop 4 r)) = [] \<longleftrightarrow>
        length rest = 8 + length (take c (drop 4 rest)) + 64 * length (fst (readSlots n (drop 4 r)))"
      using left [of n "drop 4 r"] True by (auto simp: length_readSlots)
    have "gethTail rest entityContract nonce balance = (let (slots, over) = readSlots n (drop 4 r) in
        if over \<noteq> [] then Inl (BlobTrailing (length over))
        else Inr \<lparr>eb_kind = entityContract, eb_nonce = nonce, eb_balance = balance, eb_code = take c (drop 4 rest), eb_slots = slots\<rparr>)"
      using True k by (simp add: gethTail_def blobTake_def Let_def c_def [symmetric] r_def [symmetric] n_def [symmetric] del: drop_drop)
    then show ?thesis using body sz by (auto simp: split_beta)
  next
    case False
    then consider "length rest < 4" | "4 \<le> length rest" "length rest - 4 < c"
      | "4 \<le> length rest" "c \<le> length rest - 4" "length r < 4"
      | "4 \<le> length rest" "c \<le> length rest - 4" "4 \<le> length r" "length (drop 4 r) < n * 64"
      by linarith
    then have "gethTail rest entityContract nonce balance \<noteq> Inr e \<and> decodeBody nimbus_readAll rest \<noteq> Inr cs" for cs
      by cases (simp_all add: k [symmetric] k gethTail_def decodeBody_def blobTake_def Let_def c_def [symmetric] r_def [symmetric]
          n_def [symmetric] del: drop_drop length_drop, simp_all add: gethTail_def decodeBody_def blobTake_def)
    then show ?thesis by blast
  qed
qed

lemma geth_reads_nimbus:
  "decodeEntityBlob setBytes blob = Inr e \<longleftrightarrow>
   nimbus_decodeEntity setBytes blob = Inr e \<and> read_size blob e = length blob"
proof (cases "decodeHead setBytes blob")
  case (Inr h)
  obtain kind nonce balance rest where h: "h = (kind, nonce, balance, rest)" by (cases h) blast
  note x = decodeHead_ext(2,3) [OF Inr [unfolded h]]
  show ?thesis
  proof (cases "kind = entityContract")
    case True
    then show ?thesis
      using Inr h x gethTail_Contract [of rest nonce balance e]
      by (auto simp: decodeEntityBlob_head nimbus_decodeEntity_def decodeEntityWith_def bindE_eq_Inr Let_def read_size_def)
  next
    case False
    then show ?thesis
      using Inr h x
      by (auto simp: decodeEntityBlob_head nimbus_decodeEntity_def decodeEntityWith_def gethTail_def read_size_def
          split: if_splits)
  qed
qed (simp add: decodeEntityBlob_head nimbus_decodeEntity_def decodeEntityWith_def)


section \<open>The four codecs together\<close>

definition eoa_blob :: "u64 \<Rightarrow> uint256 \<Rightarrow> entityBlob" where
  "eoa_blob nonce bal = \<lparr>eb_kind = entityEOA, eb_nonce = nonce, eb_balance = bal, eb_code = [], eb_slots = []\<rparr>"

definition contract_blob :: "u64 \<Rightarrow> uint256 \<Rightarrow> bytes \<Rightarrow> slot_list \<Rightarrow> entityBlob" where
  "contract_blob nonce bal code slots =
     \<lparr>eb_kind = entityContract, eb_nonce = nonce, eb_balance = bal, eb_code = code, eb_slots = slots\<rparr>"

lemma entity_row_EOA:
  "entity_row (eoa_blob nonce bal) =
     [entityEOA] @ putUint64BE nonce @ [of_nat (length (minBEBytes (unat bal)))] @ minBEBytes (unat bal)"
  by (simp add: eoa_blob_def entity_row_def entityEOA_def entityContract_def)

lemma entity_row_Contract:
  "entity_row (contract_blob nonce bal code slots) =
     [entityContract] @ putUint64BE nonce @ [of_nat (length (minBEBytes (unat bal)))] @ minBEBytes (unat bal) @
     putUint32BE (of_nat (length code)) @ code @ putUint32BE (of_nat (length slots)) @ slotBytes slots"
  by (simp add: contract_blob_def entity_row_def)

text \<open>Which of the two kinds ethrex and nimbus choose: a contract has code or storage.\<close>

definition entity_of :: "u64 \<Rightarrow> uint256 \<Rightarrow> bytes \<Rightarrow> slot_list \<Rightarrow> entityBlob" where
  "entity_of nonce bal code slots =
     (if code = [] \<and> slots = [] then eoa_blob nonce bal else contract_blob nonce bal code slots)"

lemma encodeEntity_row:
  assumes "uint256_Bytes_spec uBytes"
  shows "ethrex_encodeEntity uBytes nonce bal code slots = entity_row (entity_of nonce bal code slots)"
    "nimbus_encodeEntity uBytes nonce bal code slots = entity_row (entity_of nonce bal code slots)"
    "geth_encodeEntityEOA uBytes nonce bal = entity_row (entity_of nonce bal [] [])"
    "besu_encodeEntityEOA uBytes nonce bal = entity_row (entity_of nonce bal [] [])"
  using assms
  by (simp_all add: entity_of_def entity_row_EOA entity_row_Contract ethrex_encodeEntity_def nimbus_encodeEntity_def
      geth_encodeEntityEOA_def besu_encodeEntityEOA_def uint256_Bytes_spec_def Let_def)

lemma encodeContract_row:
  assumes "uint256_Bytes_spec uBytes"
  shows "geth_encodeEntityContract uBytes nonce bal code slots =
      entity_row (contract_blob nonce bal code slots)"
    "besu_encodeEntityContract uBytes nonce bal code slots =
      entity_row (contract_blob nonce bal code slots)"
  using assms
  by (auto simp add: entity_row_Contract geth_encodeEntityContract_def besu_encodeEntityContract_def
      uint256_Bytes_spec_def Let_def)

text \<open>Besu's decoder is ethrex's on the two known kinds, with a panic for every error and the slots in a map.\<close>

definition besu_view :: "entityBlob \<Rightarrow> besuEntity" where
  "besu_view e = \<lparr>be_kind = eb_kind e, be_nonce = eb_nonce e, be_balance = eb_balance e, be_code = eb_code e,
     be_slots = map_of (rev (eb_slots e))\<rparr>"

definition unE :: "'e + 'a \<Rightarrow> 'a option" where
  "unE x = (case x of Inl _ \<Rightarrow> None | Inr a \<Rightarrow> Some a)"

lemma unE_simps [simp]: "unE (Inl e) = None" "unE (Inr a) = Some a"
  by (simp_all add: unE_def)

lemma unE_bindE: "unE (bindE x f) = Option.bind (unE x) (\<lambda>a. unE (f a))"
  by (cases x) simp_all

lemma unE_blobTake: "unE (blobTake w n rest) = besuTake n rest"
  by (simp add: blobTake_def besuTake_def)

lemma besuSlots_checked: "besuSlots n rest m = map_option (\<lambda>s. m ++ map_of (rev s)) (unE (readSlotsChecked n rest))"
proof (induction n arbitrary: rest m)
  case (Suc n)
  show ?case
  proof (cases "length rest < 64")
    case True
    then show ?thesis by (auto simp: besuTake_def blobTake_def)
  next
    case False
    then show ?thesis
      by (cases "readSlotsChecked n (drop 64 rest)") (auto simp: besuTake_def blobTake_def Suc.IH min_def drop_take, simp add: fun_upd_def)
  qed
qed simp

lemma besu_reads_ethrex:
  assumes "blob \<noteq> [] \<longrightarrow> blob ! 0 = entityEOA \<or> blob ! 0 = entityContract"
  shows "besu_decodeEntity setBytes blob = map_option besu_view (unE (ethrex_decodeEntity setBytes blob))"
proof (cases "blob = []")
  case True
  then show ?thesis by (simp add: besu_decodeEntity_def besuTake_def ethrex_decodeEntity_def decodeEntityWith_def decodeHead_def blobTake_def)
next
  case False
  then have k: "besuTake (Suc 0) blob = Some (take (Suc 0) blob, drop (Suc 0) blob)" "take (Suc 0) blob ! 0 = blob ! 0"
    by (auto simp: besuTake_def Suc_le_eq not_less)
  note simps = besu_decodeEntity_def ethrex_decodeEntity_def decodeEntityWith_def decodeHead_def decodeBody_def Let_def
    unE_bindE unE_blobTake besuSlots_checked bind_map_option map_option_bind case_prod_unfold comp_def besu_view_def k
  show ?thesis
  proof (cases "blob ! 0 = entityContract")
    case True
    then show ?thesis by (simp add: simps cong: if_cong)
  next
    case False
    then have "blob ! 0 = entityEOA" using assms \<open>blob \<noteq> []\<close> by simp
    then show ?thesis using False by (simp add: simps cong: if_cong)
  qed
qed

lemma map_of_rev_distinct: "distinct (map fst xs) \<Longrightarrow> map_of (rev xs) = map_of xs"
  by (rule map_of_inject_set [THEN iffD2]) (simp_all add: rev_map [symmetric])

lemma decode_row:
  assumes "setBytes_spec setBytes" "entity_ok e"
  shows "ethrex_decodeEntity setBytes (entity_row e @ x) = Inr e" "nimbus_decodeEntity setBytes (entity_row e @ x) = Inr e"
    "decodeEntityBlob setBytes (entity_row e) = Inr e"
    "besu_decodeEntity setBytes (entity_row e) = Some (besu_view e)"
proof -
  show ex: "ethrex_decodeEntity setBytes (entity_row e @ x) = Inr e" for x
    using decodeEntityWith_row [OF ethrex_reads assms] by (simp add: ethrex_decodeEntity_def)
  show ni: "nimbus_decodeEntity setBytes (entity_row e @ x) = Inr e" for x
    using decodeEntityWith_row [OF nimbus_reads assms] by (simp add: nimbus_decodeEntity_def)
  show "decodeEntityBlob setBytes (entity_row e) = Inr e"
    using ni [of "[]"] entity_row_size [OF assms(2), of "[]"] by (simp add: geth_reads_nimbus)
  have "entity_row e ! 0 = eb_kind e" "eb_kind e = entityEOA \<or> eb_kind e = entityContract"
    using assms(2) by (auto simp: entity_row_def entity_ok_def split: if_splits)
  then show "besu_decodeEntity setBytes (entity_row e) = Some (besu_view e)"
    using ex [of "[]"] by (simp add: besu_reads_ethrex)
qed

lemma decode_prefix:
  assumes "setBytes_spec setBytes" "entity_ok e" "k < length (entity_row e)"
  shows "ethrex_decodeEntity setBytes (take k (entity_row e)) \<noteq> Inr e'" "nimbus_decodeEntity setBytes (take k (entity_row e)) \<noteq> Inr e'"
    "decodeEntityBlob setBytes (take k (entity_row e)) \<noteq> Inr e'"
    "besu_decodeEntity setBytes (take k (entity_row e)) = None"
proof -
  show ex: "ethrex_decodeEntity setBytes (take k (entity_row e)) \<noteq> Inr e'" for e'
    using decodeEntityWith_truncated [OF ethrex_reads assms] by (simp add: ethrex_decodeEntity_def)
  show "nimbus_decodeEntity setBytes (take k (entity_row e)) \<noteq> Inr e'"
    using decodeEntityWith_truncated [OF nimbus_reads assms] by (simp add: nimbus_decodeEntity_def)
  then show "decodeEntityBlob setBytes (take k (entity_row e)) \<noteq> Inr e'" by (simp add: geth_reads_nimbus)
  have "take k (entity_row e) \<noteq> [] \<longrightarrow> take k (entity_row e) ! 0 = eb_kind e" "eb_kind e = entityEOA \<or> eb_kind e = entityContract"
    using assms(2) by (auto simp: entity_row_def entity_ok_def split: if_splits)
  moreover have "unE (ethrex_decodeEntity setBytes (take k (entity_row e))) = None"
    using ex by (cases "ethrex_decodeEntity setBytes (take k (entity_row e))") auto
  ultimately show "besu_decodeEntity setBytes (take k (entity_row e)) = None" by (simp add: besu_reads_ethrex)
qed

lemma geth_refuses_trailing:
  assumes "setBytes_spec setBytes" "entity_ok e" "x \<noteq> []"
  shows "decodeEntityBlob setBytes (entity_row e @ x) \<noteq> Inr e'"
proof
  assume "decodeEntityBlob setBytes (entity_row e @ x) = Inr e'"
  then have g: "nimbus_decodeEntity setBytes (entity_row e @ x) = Inr e'" "read_size (entity_row e @ x) e' = length (entity_row e @ x)"
    by (simp_all add: geth_reads_nimbus)
  then have "e' = e" using decode_row(2) [OF assms(1,2)] by simp
  then show False using g(2) entity_row_size [OF assms(2)] assms(3) by simp
qed

section \<open>Properties\<close>

text \<open>
  C36: an account spilled to the scratch store comes back as it was written, in each of the four writers: ethrex and
  nimbus read the nonce, the balance, the code and the slots in their order, geth reads both of its record
  kinds, and besu, whose slots are a map, reads the map that was written, whatever order \<open>range\<close> chose.
\<close>
theorem entity_blob_roundtrip:
  assumes "uint256_Bytes_spec uBytes" "setBytes_spec setBytes" "length code < 2 ^ 32" "length slots < 2 ^ 32"
    and "\<forall>(k, v) \<in> set slots. length k = 32 \<and> length v = 32" "distinct (map fst slots)"
  shows "ethrex_decodeEntity setBytes (ethrex_encodeEntity uBytes nonce bal code slots) = Inr (entity_of nonce bal code slots) \<and>
    nimbus_decodeEntity setBytes (nimbus_encodeEntity uBytes nonce bal code slots) = Inr (entity_of nonce bal code slots) \<and>
    decodeEntityBlob setBytes (geth_encodeEntityEOA uBytes nonce bal) = Inr (eoa_blob nonce bal) \<and>
    decodeEntityBlob setBytes (geth_encodeEntityContract uBytes nonce bal code slots) = Inr (contract_blob nonce bal code slots) \<and>
    besu_decodeEntity setBytes (besu_encodeEntityEOA uBytes nonce bal) =
      Some \<lparr>be_kind = entityEOA, be_nonce = nonce, be_balance = bal, be_code = [], be_slots = Map.empty\<rparr> \<and>
    besu_decodeEntity setBytes (besu_encodeEntityContract uBytes nonce bal code slots) =
      Some \<lparr>be_kind = entityContract, be_nonce = nonce, be_balance = bal, be_code = code, be_slots = map_of slots\<rparr>"
proof -
  have ok: "entity_ok (entity_of nonce bal code slots)" "entity_ok (eoa_blob nonce bal)" "entity_ok (contract_blob nonce bal code slots)"
    using assms(3-5) by (auto simp: entity_of_def eoa_blob_def contract_blob_def entity_ok_def entityEOA_def)
  have "map_of (rev slots) = map_of slots" using assms(6) by (rule map_of_rev_distinct)
  then have views: "besu_view (contract_blob nonce bal code slots) =
      \<lparr>be_kind = entityContract, be_nonce = nonce, be_balance = bal, be_code = code, be_slots = map_of slots\<rparr>"
    "besu_view (eoa_blob nonce bal) = \<lparr>be_kind = entityEOA, be_nonce = nonce, be_balance = bal, be_code = [], be_slots = Map.empty\<rparr>"
    by (simp_all add: besu_view_def contract_blob_def eoa_blob_def)
  have "entity_of nonce bal [] [] = eoa_blob nonce bal" by (simp add: entity_of_def)
  then show ?thesis
    using decode_row(1,2) [OF assms(2) ok(1), of "[]"] decode_row(3,4) [OF assms(2) ok(2)] decode_row(3,4) [OF assms(2) ok(3)] views
    by (simp add: encodeEntity_row [OF assms(1)] encodeContract_row [OF assms(1)])
qed

lemma uint256_Bytes_model: "uint256_Bytes_spec (\<lambda>v. minBEBytes (unat v))"
  by (simp add: uint256_Bytes_spec_def)

lemma setBytes_model: "setBytes_spec (\<lambda>b. of_nat (beNat b))"
  by (simp add: setBytes_spec_def)

theorem entity_blob_roundtrip_witness:
  "besu_decodeEntity (\<lambda>b. of_nat (beNat b)) (besu_encodeEntityContract (\<lambda>v. minBEBytes (unat v)) 1 300 [0x60]
      [(replicate 32 2, replicate 32 5), (replicate 32 1, replicate 32 7)]) =
   Some \<lparr>be_kind = entityContract, be_nonce = 1, be_balance = 300, be_code = [0x60],
     be_slots = map_of [(replicate 32 2, replicate 32 5), (replicate 32 1, replicate 32 7)]\<rparr>"
  using entity_blob_roundtrip [OF uint256_Bytes_model setBytes_model, of "[0x60]"
      "[(replicate 32 2, replicate 32 5), (replicate 32 1, replicate 32 7)]" 1 300] by simp





end
