(* ===== verification/Neth_Flat.thy ===== *)
theory Neth_Flat
  imports Besu_Keys Nimbus_Codec
begin

text \<open>
  The key space of nethermind's flat database: \<open>internal/neth/flat\<close> (\<open>columns.go\<close>, \<open>keys.go\<close>,
  \<open>markers.go\<close>) and \<open>packNibblesTo32\<close> of \<open>internal/neth/trie/builder.go\<close>.  A trie node goes to one of four
  column families by the length of its path, under a key that packs path and length into three, eight or
  thirty-four bytes; storage nodes carry twenty bytes of the hash of the address.  No two nodes share a key.
\<close>

section \<open>Columns and constants\<close>

datatype Column =
    ColDefault
  | ColMetadata
  | ColAccount
  | ColStorage
  | ColStateNodes
  | ColStateTopNodes
  | ColStorageNodes
  | ColFallbackNodes

definition accountKeyLen :: nat where "accountKeyLen = 20"
definition storagePrefixPortion :: nat where "storagePrefixPortion = 4"
definition storageSlotHashLen :: nat where "storageSlotHashLen = 32"
definition storagePostfixPortion :: nat where "storagePostfixPortion = 16"
definition storageKeyLen :: nat where
  "storageKeyLen = storagePrefixPortion + storageSlotHashLen + storagePostfixPortion"
definition stateTopThreshold :: nat where "stateTopThreshold = 5"
definition shortenedThreshold :: nat where "shortenedThreshold = 15"
definition addrHashPrefixLen :: nat where "addrHashPrefixLen = 20"
definition stateTopKeyLen :: nat where "stateTopKeyLen = 3"
definition shortenedKeyLen :: nat where "shortenedKeyLen = 8"

lemmas flat_consts = accountKeyLen_def storagePrefixPortion_def storageSlotHashLen_def storagePostfixPortion_def
  storageKeyLen_def stateTopThreshold_def shortenedThreshold_def addrHashPrefixLen_def stateTopKeyLen_def shortenedKeyLen_def

section \<open>Packed paths\<close>

text \<open>One round of the loop; it stops at the end of the 32-byte buffer, as every later round would.\<close>

definition packStep :: "bytes \<Rightarrow> nat \<times> byte \<Rightarrow> bytes" where
  "packStep out x =
     (case x of (i, n) \<Rightarrow>
        if i div 2 \<ge> 32 then out
        else if i mod 2 = 0 then out[i div 2 := push_bit 4 n]
        else out[i div 2 := out ! (i div 2) OR (n AND 0x0f)])"

definition packNibblesTo32 :: "bytes \<Rightarrow> bytes" where
  "packNibblesTo32 ns = foldl packStep (replicate 32 0) (enumerate 0 ns)"

section \<open>Keys\<close>

definition AccountKey :: "bytes \<Rightarrow> bytes" where
  "AccountKey addrHash = take accountKeyLen addrHash"

definition StorageKey :: "bytes \<Rightarrow> bytes \<Rightarrow> bytes" where
  "StorageKey addrHash slotKeyHash =
     take storagePrefixPortion addrHash @ slotKeyHash @
     subslice storagePrefixPortion (storagePrefixPortion + storagePostfixPortion) addrHash"

text \<open>The first \<open>n\<close> bytes of a path, with the length of the path in the low half of the last one.\<close>

definition withLength :: "nat \<Rightarrow> bytes \<Rightarrow> nat \<Rightarrow> bytes" where
  "withLength n path pathLen =
     (let out = take n path in out[n - 1 := (out ! (n - 1) AND 0xf0) OR of_nat (pathLen mod 16)])"

definition encodeWith8Byte :: "bytes \<Rightarrow> nat \<Rightarrow> bytes" where
  "encodeWith8Byte path pathLen = withLength shortenedKeyLen path pathLen"

definition StateNodeKey :: "bytes \<Rightarrow> nat \<Rightarrow> Column \<times> bytes" where
  "StateNodeKey path pathLen =
     (if pathLen \<le> stateTopThreshold then (ColStateTopNodes, withLength stateTopKeyLen path pathLen)
      else if pathLen \<le> shortenedThreshold then (ColStateNodes, encodeWith8Byte path pathLen)
      else (ColFallbackNodes, [0x00] @ take 32 path @ [of_nat pathLen]))"

definition StorageNodeKey :: "bytes \<Rightarrow> bytes \<Rightarrow> nat \<Rightarrow> Column \<times> bytes" where
  "StorageNodeKey addrHash path pathLen =
     (if pathLen \<le> shortenedThreshold then
        (ColStorageNodes,
         take storagePrefixPortion addrHash @ encodeWith8Byte path pathLen @
         subslice storagePrefixPortion addrHashPrefixLen addrHash)
      else
        (ColFallbackNodes,
         [0x01] @ take storagePrefixPortion addrHash @ take 32 path @ [of_nat pathLen] @
         subslice storagePrefixPortion addrHashPrefixLen addrHash))"

section \<open>Markers\<close>

definition CurrentStateKey :: "digest \<Rightarrow> bytes" where "CurrentStateKey keccak = keccak (asciiBytes ''CurrentState'')"
definition LayoutKey :: "digest \<Rightarrow> bytes" where "LayoutKey keccak = keccak (asciiBytes ''Layout'')"
definition SlotEncodingKey :: "digest \<Rightarrow> bytes" where "SlotEncodingKey keccak = keccak (asciiBytes ''SlotEncoding'')"

definition LayoutFlat :: byte where "LayoutFlat = 0x00"
definition SlotEncodingRLP :: byte where "SlotEncodingRLP = 0x01"

definition CurrentStateValue :: "64 word \<Rightarrow> bytes \<Rightarrow> bytes" where
  "CurrentStateValue blockNumber root = putUint64BE blockNumber @ root"

section \<open>A packed path is read back\<close>

definition nibbleAt :: "bytes \<Rightarrow> nat \<Rightarrow> byte" where
  "nibbleAt p i = (if i < length p then p ! i else 0)"

lemma packNibblesTo32_snoc: "packNibblesTo32 (ns @ [n]) = packStep (packNibblesTo32 ns) (length ns, n)"
  by (simp add: packNibblesTo32_def enumerate_append_eq)

lemma length_packNibblesTo32 [simp]: "length (packNibblesTo32 ns) = 32"
  by (induction ns rule: rev_induct) (simp_all add: packNibblesTo32_snoc packStep_def, simp add: packNibblesTo32_def)

lemma packNibblesTo32_nth:
  assumes "nibbly p" "length p \<le> 64" "j < 32"
  shows "packNibblesTo32 p ! j = push_bit 4 (nibbleAt p (2 * j)) OR nibbleAt p (2 * j + 1)"
  using assms(1,2)
proof (induction p rule: rev_induct)
  case Nil
  then show ?case using assms(3) by (simp add: packNibblesTo32_def nibbleAt_def)
next
  case (snoc n p)
  then have p: "nibbly p" "length p < 64" and n: "n AND 15 = n"
    by (auto simp: nibbly_def and_15_take_bit is_nibble_bits [symmetric] is_nibble_def)
  have at: "nibbleAt (p @ [n]) i = (if i = length p then n else nibbleAt p i)" for i
    by (auto simp: nibbleAt_def nth_append)
  have IH: "packNibblesTo32 p ! j = push_bit 4 (nibbleAt p (2 * j)) OR nibbleAt p (2 * j + 1)" using snoc p by simp
  consider "length p = 2 * j" | "length p = 2 * j + 1" | "length p \<noteq> 2 * j" "length p \<noteq> 2 * j + 1" by blast
  then show ?case
  proof cases
    case 1
    then show ?thesis using assms(3) by (simp add: packNibblesTo32_snoc packStep_def at) (simp add: nibbleAt_def)
  next
    case 2
    then show ?thesis using assms(3) n IH by (simp add: packNibblesTo32_snoc packStep_def at) (simp add: nibbleAt_def)
  next
    case 3
    then have "length p div 2 \<noteq> j" by presburger
    then show ?thesis using 3 IH by (auto simp: packNibblesTo32_snoc packStep_def at)
  qed
qed

lemma is_nibble_at: "nibbly p \<Longrightarrow> is_nibble (nibbleAt p i)"
  by (auto simp: nibbly_def nibbleAt_def is_nibble_def)

lemma packed_nibbles:
  assumes "nibbly p" "length p \<le> 64" "j < 32"
  shows "drop_bit 4 (packNibblesTo32 p ! j) = nibbleAt p (2 * j)" "packNibblesTo32 p ! j AND 15 = nibbleAt p (2 * j + 1)"
  unfolding packNibblesTo32_nth [OF assms] by (intro high_join low_join is_nibble_at assms(1))+

lemma nibbles_eqI:
  assumes "length p = length q" "\<forall>i < length p. nibbleAt p i = nibbleAt q i"
  shows "p = q"
  using assms by (intro nth_equalityI) (auto simp: nibbleAt_def)

text \<open>A key of \<open>n\<close> bytes holds \<open>2 n - 1\<close> nibbles and the length.\<close>

lemma mask_high: "((b :: byte) AND 0xf0) OR c = ((b' AND 0xf0) OR c') \<Longrightarrow> is_nibble c \<Longrightarrow> is_nibble c' \<Longrightarrow>
    drop_bit 4 b = drop_bit 4 b' \<and> c = c'"
proof -
  assume e: "(b AND 0xf0) OR c = (b' AND 0xf0) OR c'" and n: "is_nibble c" "is_nibble c'"
  have f: "x AND 0xf0 = push_bit 4 (drop_bit 4 x)" for x :: byte
  proof (rule bit_eqI)
    fix i
    assume "possible_bit TYPE(byte) i"
    then have "i < 8" by simp
    then have "i \<in> {0,1,2,3,4,5,6,7}" by auto
    then show "bit (x AND 0xf0) i = bit (push_bit 4 (drop_bit 4 x)) i" by (auto simp: bit_simps)
  qed
  show ?thesis
    using arg_cong [OF e, of "drop_bit 4"] arg_cong [OF e, of "\<lambda>x. x AND 15"]
    unfolding f high_join [OF is_nibble_high n(1)] high_join [OF is_nibble_high n(2)] low_join [OF n(1)] low_join [OF n(2)] by simp
qed

lemma withLength_inj:
  assumes "nibbly p" "nibbly q" "0 < n" "n \<le> 8" "length p < 2 * n" "length q < 2 * n"
    and "withLength n (packNibblesTo32 p) (length p) = withLength n (packNibblesTo32 q) (length q)"
  shows "p = q"
proof -
  have l: "length p < 16" "length q < 16" using assms(4-6) by auto
  have nth: "withLength n (packNibblesTo32 r) k ! j =
      (if j = n - 1 then (packNibblesTo32 r ! (n - 1) AND 0xf0) OR of_nat (k mod 16) else packNibblesTo32 r ! j)"
    if "j < n" for r k j using that assms(4) by (simp add: withLength_def Let_def)
  have small: "is_nibble (of_nat k)" if "k < 16" for k using that by (simp add: is_nibble_def unat_of_nat)
  have "drop_bit 4 (packNibblesTo32 p ! (n - 1)) = drop_bit 4 (packNibblesTo32 q ! (n - 1)) \<and>
      (of_nat (length p) :: byte) = of_nat (length q)"
    using arg_cong [OF assms(7), of "\<lambda>x. x ! (n - 1)"] assms(3) l small [OF l(1)] small [OF l(2)]
    by (intro mask_high) (simp_all add: nth)
  then have last: "nibbleAt p (2 * (n - 1)) = nibbleAt q (2 * (n - 1))" and len: "unat (of_nat (length p) :: byte) = unat (of_nat (length q) :: byte)"
    using packed_nibbles(1) [of p "n - 1"] packed_nibbles(1) [of q "n - 1"] assms(1-6) by simp_all
  have "nibbleAt p i = nibbleAt q i" if i: "i < length p" for i
  proof (cases "i div 2 = n - 1")
    case True
    then have "i = 2 * (n - 1)" using i assms(5) by presburger
    then show ?thesis using last by simp
  next
    case False
    then have j: "i div 2 < n" "i div 2 \<noteq> n - 1" "i div 2 < 32" using i assms(4,5) by auto
    then have "packNibblesTo32 p ! (i div 2) = packNibblesTo32 q ! (i div 2)"
      using arg_cong [OF assms(7), of "\<lambda>x. x ! (i div 2)"] by (simp add: nth)
    then have "nibbleAt p (2 * (i div 2)) = nibbleAt q (2 * (i div 2))" "nibbleAt p (2 * (i div 2) + 1) = nibbleAt q (2 * (i div 2) + 1)"
      using packed_nibbles [of p "i div 2"] packed_nibbles [of q "i div 2"] assms(1,2) l j by simp_all
    then show ?thesis by (cases "even i") (auto elim!: evenE oddE)
  qed
  then show ?thesis using len l by (intro nibbles_eqI) (simp_all add: unat_of_nat)
qed

lemma packed_inj:
  assumes "nibbly p" "nibbly q" "length p \<le> 64" "length q \<le> 64" "packNibblesTo32 p = packNibblesTo32 q" "length p = length q"
  shows "p = q"
proof -
  have "nibbleAt p i = nibbleAt q i" if i: "i < length p" for i
  proof -
    have j: "i div 2 < 32" using i assms(3) by auto
    have "nibbleAt p (2 * (i div 2)) = nibbleAt q (2 * (i div 2))" "nibbleAt p (2 * (i div 2) + 1) = nibbleAt q (2 * (i div 2) + 1)"
      using packed_nibbles [OF assms(1,3) j] packed_nibbles [OF assms(2,4) j] assms(5) by simp_all
    then show ?thesis by (cases "even i") (auto elim!: evenE oddE)
  qed
  then show ?thesis using assms(6) by (intro nibbles_eqI) simp_all
qed

section \<open>Properties\<close>

abbreviation stateKeyOf :: "bytes \<Rightarrow> Column \<times> bytes" where
  "stateKeyOf p \<equiv> StateNodeKey (packNibblesTo32 p) (length p)"

abbreviation storageKeyOf :: "bytes \<Rightarrow> bytes \<Rightarrow> Column \<times> bytes" where
  "storageKeyOf a p \<equiv> StorageNodeKey a (packNibblesTo32 p) (length p)"

lemma length_withLength: "0 < n \<Longrightarrow> n \<le> 32 \<Longrightarrow> length (withLength n (packNibblesTo32 p) k) = n"
  by (simp add: withLength_def Let_def)

lemma byte_of_nat_inj:
  assumes "m < 256" "n < 256" "(of_nat m :: byte) = of_nat n"
  shows "m = n"
proof -
  have "unat (of_nat k :: byte) = k" if "k < 256" for k using that by (simp add: unat_of_nat)
  then show ?thesis using assms by metis
qed

lemma key_fields:
  "length P = length Q \<Longrightarrow> [z] @ P @ [x] = [z'] @ Q @ [y] \<Longrightarrow> P = Q \<and> x = y"
  "length A = length B \<Longrightarrow> length P = length Q \<Longrightarrow> [z] @ A @ P @ [x] @ C = [z'] @ B @ Q @ [y] @ D \<Longrightarrow>
    A = B \<and> P = Q \<and> x = y \<and> C = D"
  by simp_all

lemma stateKeyOf_inj:
  assumes "nibbly p" "nibbly q" "length p \<le> 64" "length q \<le> 64" "stateKeyOf p = stateKeyOf q"
  shows "p = q"
proof -
  consider "length p \<le> 5" "length q \<le> 5" | "5 < length p" "length p \<le> 15" "5 < length q" "length q \<le> 15"
    | "15 < length p" "15 < length q"
    using assms(5) by (auto simp: StateNodeKey_def flat_consts split: if_splits)
  then show ?thesis
  proof cases
    case 1
    then show ?thesis
      using assms(5) by (intro withLength_inj [of p q 3] assms(1,2)) (auto simp: StateNodeKey_def flat_consts)
  next
    case 2
    then show ?thesis
      using assms(5) by (intro withLength_inj [of p q 8] assms(1,2)) (auto simp: StateNodeKey_def encodeWith8Byte_def flat_consts)
  next
    case 3
    then have "\<not> length p \<le> 5" "\<not> length q \<le> 5" "\<not> length p \<le> 15" "\<not> length q \<le> 15" by simp_all
    then have "[0] @ take 32 (packNibblesTo32 p) @ [of_nat (length p)] = [0] @ take 32 (packNibblesTo32 q) @ [of_nat (length q)]"
      using assms(5) unfolding StateNodeKey_def flat_consts by (simp only: if_False prod.inject)
    from key_fields(1) [OF _ this] have e: "take 32 (packNibblesTo32 p) = take 32 (packNibblesTo32 q) \<and>
        (of_nat (length p) :: byte) = of_nat (length q)" by (simp only: length_take length_packNibblesTo32)
    have "packNibblesTo32 p = packNibblesTo32 q" using conjunct1 [OF e] by simp
    moreover have "length p = length q" by (rule byte_of_nat_inj [OF _ _ conjunct2 [OF e]]) (use assms(3,4) in simp_all)
    ultimately show ?thesis by (rule packed_inj [OF assms(1-4)])
  qed
qed

lemma split_hash: "length a = 32 \<Longrightarrow> take 4 a @ subslice 4 20 a = take 20 a"
  by (simp add: slice_simps)

lemma storageKeyOf_inj:
  assumes "nibbly p" "nibbly q" "length p \<le> 64" "length q \<le> 64" "length a = 32" "length b = 32"
    and "storageKeyOf a p = storageKeyOf b q"
  shows "take 20 a = take 20 b \<and> p = q"
proof -
  consider "length p \<le> 15" "length q \<le> 15" | "15 < length p" "15 < length q"
    using assms(7) by (auto simp: StorageNodeKey_def flat_consts split: if_splits)
  then show ?thesis
  proof cases
    case 1
    then have "take 4 a @ withLength 8 (packNibblesTo32 p) (length p) @ subslice 4 20 a =
        take 4 b @ withLength 8 (packNibblesTo32 q) (length q) @ subslice 4 20 b"
      using assms(7) by (auto simp: StorageNodeKey_def encodeWith8Byte_def flat_consts)
    then have "take 4 a = take 4 b" "withLength 8 (packNibblesTo32 p) (length p) = withLength 8 (packNibblesTo32 q) (length q)"
      "subslice 4 20 a = subslice 4 20 b"
      using assms(5,6) by (simp_all add: length_withLength append_eq_append_conv)
    then show ?thesis
      using 1 split_hash [OF assms(5)] split_hash [OF assms(6)] withLength_inj [OF assms(1,2), of 8] by auto
  next
    case 2
    then have "\<not> length p \<le> 15" "\<not> length q \<le> 15" by simp_all
    then have "[1] @ take 4 a @ take 32 (packNibblesTo32 p) @ [of_nat (length p)] @ subslice 4 20 a =
        [1] @ take 4 b @ take 32 (packNibblesTo32 q) @ [of_nat (length q)] @ subslice 4 20 b"
      using assms(7) unfolding StorageNodeKey_def flat_consts by (simp only: if_False prod.inject)
    from key_fields(2) [OF _ _ this] have e: "take 4 a = take 4 b \<and> take 32 (packNibblesTo32 p) = take 32 (packNibblesTo32 q) \<and>
        (of_nat (length p) :: byte) = of_nat (length q) \<and> subslice 4 20 a = subslice 4 20 b"
      by (simp only: length_take length_packNibblesTo32 assms(5,6))
    have "packNibblesTo32 p = packNibblesTo32 q" using conjunct1 [OF conjunct2 [OF e]] by simp
    moreover have "length p = length q"
      by (rule byte_of_nat_inj [OF _ _ conjunct1 [OF conjunct2 [OF conjunct2 [OF e]]]]) (use assms(3,4) in simp_all)
    ultimately have "p = q" by (rule packed_inj [OF assms(1-4)])
    then show ?thesis
      using conjunct1 [OF e] conjunct2 [OF conjunct2 [OF conjunct2 [OF e]]] split_hash [OF assms(5)] split_hash [OF assms(6)] by metis
  qed
qed

text \<open>
  C39: the node columns of the flat database have no collisions.  For paths of at most 64 nibbles, the column and the
  key of a state node determine its path, those of a storage node determine its path and the twenty stored
  bytes of the address hash, and no state node shares column and key with a storage node; flat storage rows
  determine the slot and the same twenty bytes.
\<close>
theorem flat_keys_never_collide:
  assumes "nibbly p" "nibbly q" "length p \<le> 64" "length q \<le> 64" "length a = 32" "length b = 32" "length s = 32" "length s' = 32"
  shows "(stateKeyOf p = stateKeyOf q \<longleftrightarrow> p = q) \<and>
    (storageKeyOf a p = storageKeyOf b q \<longleftrightarrow> take 20 a = take 20 b \<and> p = q) \<and>
    stateKeyOf p \<noteq> storageKeyOf a q \<and>
    (StorageKey a s = StorageKey b s' \<longleftrightarrow> take 20 a = take 20 b \<and> s = s')"
proof (intro conjI)
  have cut: "take 20 a = take 20 b \<longleftrightarrow> take 4 a = take 4 b \<and> subslice 4 20 a = subslice 4 20 b"
    using assms(5,6) unfolding split_hash [OF assms(5), symmetric] split_hash [OF assms(6), symmetric]
    by (simp add: append_eq_append_conv)
  show "stateKeyOf p = stateKeyOf q \<longleftrightarrow> p = q" using stateKeyOf_inj [OF assms(1-4)] by auto
  show "storageKeyOf a p = storageKeyOf b q \<longleftrightarrow> take 20 a = take 20 b \<and> p = q"
  proof
    assume "take 20 a = take 20 b \<and> p = q"
    then show "storageKeyOf a p = storageKeyOf b q" using cut by (simp add: StorageNodeKey_def flat_consts)
  qed (rule storageKeyOf_inj [OF assms(1-6)])
  show "stateKeyOf p \<noteq> storageKeyOf a q" by (auto simp: StateNodeKey_def StorageNodeKey_def flat_consts)
  show "StorageKey a s = StorageKey b s' \<longleftrightarrow> take 20 a = take 20 b \<and> s = s'"
    using assms(5-8) cut by (auto simp: StorageKey_def flat_consts append_eq_append_conv)
qed

theorem flat_keys_never_collide_witness:
  "stateKeyOf [1, 2] \<noteq> stateKeyOf [1, 2, 0] \<and> stateKeyOf [1, 2] \<noteq> storageKeyOf (replicate 32 0) [1, 2, 0]"
  using flat_keys_never_collide [of "[1, 2]" "[1, 2, 0]" "replicate 32 0" "replicate 32 0" "replicate 32 1" "replicate 32 2"]
  by (simp add: nibbly_def)

end
