(* ===== verification/Neth_Trie.thy ===== *)
theory Neth_Trie
  imports Neth_Flat Client_Roots "HOL-Library.Multiset"
begin

text \<open>
  Nethermind's trie builder (\<open>internal/neth/trie/builder.go\<close>), the flat sink and state writer behind it
  (\<open>client/nethermind/flat_cgo.go\<close>) and the loop that feeds them (\<open>client/nethermind/entitygen_cgo.go\<close>).

  The builder drives go-ethereum's \<open>StackTrie\<close>, which is not in the repository and is a parameter: a record
  of its three operations, each returning the nodes it hands to the callback.  \<open>stackTrie_spec\<close> states what
  its documentation promises, that an empty value is refused, that ascending keys are accepted, that every node of the trie that is
  referenced by hash is handed out once, and that \<open>Hash\<close> returns the root.  RocksDB's atomic \<open>Write\<close> is a
  parameter too: it either appends the whole batch or fails.
\<close>

section \<open>Parameters\<close>

type_synonym trieNode = "bytes \<times> bytes \<times> bytes"

record 't stackTrie =
  stNew :: 't
  stUpdate :: "'t \<Rightarrow> bytes \<Rightarrow> bytes \<Rightarrow> 't \<times> trieNode list \<times> string option"
  stHash :: "'t \<Rightarrow> 't \<times> trieNode list \<times> bytes"

fun stFeed :: "'t stackTrie \<Rightarrow> bytes entry list \<Rightarrow> 't \<Rightarrow> 't \<times> trieNode list \<times> string option" where
  "stFeed ST [] t = (t, [], None)"
| "stFeed ST ((k, v) # kvs) t =
     (case stUpdate ST t k v of
        (t, ns, Some e) \<Rightarrow> (t, ns, Some e)
      | (t, ns, None) \<Rightarrow> (case stFeed ST kvs t of (t, ns', e) \<Rightarrow> (t, ns @ ns', e)))"

definition trie_nodes :: "digest \<Rightarrow> bytes entry list \<Rightarrow> row list" where
  "trie_nodes keccak kvs = (case mk 0 (nibble_entries kvs) of None \<Rightarrow> [] | Some t \<Rightarrow> bonsai_rows keccak t)"

definition node_of :: "digest \<Rightarrow> row \<Rightarrow> trieNode" where
  "node_of keccak r = (fst r, keccak (snd r), snd r)"

definition stackTrie_spec :: "'t stackTrie \<Rightarrow> digest \<Rightarrow> bool" where
  "stackTrie_spec ST keccak \<longleftrightarrow>
     (\<forall>t k. \<exists>e. stUpdate ST t k [] = (t, [], Some e)) \<and>
     (\<forall>kvs. sorted_hashes kvs \<and> (\<forall>kv \<in> set kvs. snd kv \<noteq> []) \<longrightarrow>
        (\<exists>t ns t' ns'. stFeed ST kvs (stNew ST) = (t, ns, None) \<and>
           stHash ST t = (t', ns', trie_root keccak (nibble_entries kvs)) \<and>
           mset (ns @ ns') = mset (map (node_of keccak) (trie_nodes keccak kvs))))"

section \<open>The builder\<close>

record ('s, 'e) NodeStorage =
  SetStateNode :: "bytes \<Rightarrow> nat \<Rightarrow> bytes \<Rightarrow> bytes \<Rightarrow> 's \<Rightarrow> 'e option \<times> 's"
  SetStorageNode :: "bytes \<Rightarrow> bytes \<Rightarrow> nat \<Rightarrow> bytes \<Rightarrow> bytes \<Rightarrow> 's \<Rightarrow> 'e option \<times> 's"

datatype 'e neth_error =
    SetStateNodeErr 'e
  | SetStorageNodeErr 'e
  | NewAddrHashErr bytes
  | StorageUpdateErr string
  | OpenStorageErr
  | AccountUpdateErr string
  | FlatRowErr 'e
  | EncodeSlotErr string
  | EncodeAccountErr string

record ('t, 's, 'e) nethBuilder =
  nb_storage :: 's
  nb_err :: "'e neth_error option"
  accountTrie :: 't
  accountCount :: nat
  hasStorageTrie :: bool
  currentStorageAddrHash :: bytes
  currentStorageTrie :: 't
  currentStorageCount :: nat

definition neth_NewBuilder :: "'t stackTrie \<Rightarrow> 's \<Rightarrow> ('t, 's, 'e) nethBuilder" where
  "neth_NewBuilder ST storage =
     \<lparr>nb_storage = storage, nb_err = None, accountTrie = stNew ST, accountCount = 0, hasStorageTrie = False,
      currentStorageAddrHash = replicate 32 0, currentStorageTrie = stNew ST, currentStorageCount = 0\<rparr>"

definition accountSink :: "('s, 'e) NodeStorage \<Rightarrow> trieNode \<Rightarrow> ('t, 's, 'e) nethBuilder \<Rightarrow> ('t, 's, 'e) nethBuilder" where
  "accountSink NS node b =
     (case node of (path, hash, blob) \<Rightarrow>
        if nb_err b \<noteq> None then b
        else case SetStateNode NS (packNibblesTo32 path) (length path) hash blob (nb_storage b) of
          (None, s) \<Rightarrow> b\<lparr>nb_storage := s\<rparr>
        | (Some e, s) \<Rightarrow> b\<lparr>nb_storage := s, nb_err := Some (SetStateNodeErr e)\<rparr>)"

definition storageSink ::
  "('s, 'e) NodeStorage \<Rightarrow> bytes \<Rightarrow> trieNode \<Rightarrow> ('t, 's, 'e) nethBuilder \<Rightarrow> ('t, 's, 'e) nethBuilder" where
  "storageSink NS addrHash node b =
     (case node of (path, hash, blob) \<Rightarrow>
        if nb_err b \<noteq> None then b
        else case SetStorageNode NS addrHash (packNibblesTo32 path) (length path) hash blob (nb_storage b) of
          (None, s) \<Rightarrow> b\<lparr>nb_storage := s\<rparr>
        | (Some e, s) \<Rightarrow> b\<lparr>nb_storage := s, nb_err := Some (SetStorageNodeErr e)\<rparr>)"

text \<open>
  \<open>currentStorageTrie\<close>, a nil pointer while no storage trie is open, is then an empty trie that is never read.
  The callbacks run inside \<open>Update\<close> and \<open>Hash\<close>, before they return.
\<close>

definition neth_AddStorageSlot ::
  "'t stackTrie \<Rightarrow> ('s, 'e) NodeStorage \<Rightarrow> bytes \<Rightarrow> bytes \<Rightarrow> bytes \<Rightarrow> ('t, 's, 'e) nethBuilder
    \<Rightarrow> 'e neth_error option \<times> ('t, 's, 'e) nethBuilder" where
  "neth_AddStorageSlot ST NS addrHash slotKeyHash valueRLP b =
     (if nb_err b \<noteq> None then (nb_err b, b)
      else if hasStorageTrie b \<and> currentStorageAddrHash b \<noteq> addrHash then
        (Some (NewAddrHashErr (currentStorageAddrHash b)), b)
      else
        let b = (if \<not> hasStorageTrie b
                 then b\<lparr>currentStorageAddrHash := addrHash, currentStorageTrie := stNew ST, currentStorageCount := 0,
                        hasStorageTrie := True\<rparr>
                 else b)
        in case stUpdate ST (currentStorageTrie b) slotKeyHash valueRLP of
          (t, ns, err) \<Rightarrow>
            let b = fold (storageSink NS (currentStorageAddrHash b)) ns (b\<lparr>currentStorageTrie := t\<rparr>)
            in case err of
              Some e \<Rightarrow> (Some (StorageUpdateErr e), b)
            | None \<Rightarrow> let b = b\<lparr>currentStorageCount := currentStorageCount b + 1\<rparr> in (nb_err b, b))"

definition neth_FinalizeStorageRoot ::
  "'t stackTrie \<Rightarrow> ('s, 'e) NodeStorage \<Rightarrow> bytes \<Rightarrow> ('t, 's, 'e) nethBuilder
    \<Rightarrow> (bytes \<times> 'e neth_error option) \<times> ('t, 's, 'e) nethBuilder" where
  "neth_FinalizeStorageRoot ST NS addrHash b =
     (if nb_err b \<noteq> None then ((replicate 32 0, nb_err b), b)
      else if \<not> hasStorageTrie b \<or> currentStorageAddrHash b \<noteq> addrHash then ((EmptyTrieHash, None), b)
      else if currentStorageCount b = 0 then
        ((EmptyTrieHash, None), b\<lparr>hasStorageTrie := False, currentStorageTrie := stNew ST\<rparr>)
      else case stHash ST (currentStorageTrie b) of
        (t, ns, root) \<Rightarrow>
          let b = fold (storageSink NS (currentStorageAddrHash b)) ns b;
              b = b\<lparr>hasStorageTrie := False, currentStorageTrie := stNew ST, currentStorageCount := 0\<rparr>
          in ((root, nb_err b), b))"

definition neth_AddAccount ::
  "'t stackTrie \<Rightarrow> ('s, 'e) NodeStorage \<Rightarrow> bytes \<Rightarrow> bytes \<Rightarrow> ('t, 's, 'e) nethBuilder
    \<Rightarrow> 'e neth_error option \<times> ('t, 's, 'e) nethBuilder" where
  "neth_AddAccount ST NS addrHash accountRLP b =
     (if nb_err b \<noteq> None then (nb_err b, b)
      else if hasStorageTrie b then (Some OpenStorageErr, b)
      else case stUpdate ST (accountTrie b) addrHash accountRLP of
        (t, ns, err) \<Rightarrow>
          let b = fold (accountSink NS) ns (b\<lparr>accountTrie := t\<rparr>)
          in case err of
            Some e \<Rightarrow> (Some (AccountUpdateErr e), b)
          | None \<Rightarrow> let b = b\<lparr>accountCount := accountCount b + 1\<rparr> in (nb_err b, b))"

definition neth_FinalizeStateRoot ::
  "'t stackTrie \<Rightarrow> ('s, 'e) NodeStorage \<Rightarrow> ('t, 's, 'e) nethBuilder
    \<Rightarrow> (bytes \<times> 'e neth_error option) \<times> ('t, 's, 'e) nethBuilder" where
  "neth_FinalizeStateRoot ST NS b =
     (if nb_err b \<noteq> None then ((replicate 32 0, nb_err b), b)
      else if accountCount b = 0 then ((EmptyTrieHash, None), b)
      else case stHash ST (accountTrie b) of
        (t, ns, root) \<Rightarrow>
          let b = fold (accountSink NS) ns (b\<lparr>accountTrie := t\<rparr>) in ((root, nb_err b), b))"

section \<open>The flat sink\<close>

type_synonym flatRow = "(Column \<times> bytes) \<times> bytes"

text \<open>
  The database is the list of rows written so far.  \<open>fs_wb\<close> and \<open>fs_wo\<close> are \<open>None\<close> and \<open>False\<close> once
  \<open>close\<close> has set the pointers to nil; \<open>NilHandles\<close> is a call of RocksDB with those.
\<close>

datatype 'e flat_error = FlushErr 'e | NilHandles

record flatSink =
  fs_db :: "flatRow list"
  fs_wo :: bool
  fs_wb :: "flatRow list option"
  fs_pending :: nat

definition stateBatchFlushBytes :: nat where
  "stateBatchFlushBytes = 64 * 1024 * 1024"

definition newFlatSink :: "flatRow list \<Rightarrow> flatSink" where
  "newFlatSink disk = \<lparr>fs_db = disk, fs_wo = True, fs_wb = Some [], fs_pending = 0\<rparr>"

type_synonym 'e rocksWrite = "flatRow list \<Rightarrow> flatRow list \<Rightarrow> 'e option"

definition flat_flush :: "'e rocksWrite \<Rightarrow> flatSink \<Rightarrow> 'e flat_error option \<times> flatSink" where
  "flat_flush fails s =
     (if fs_pending s = 0 then (None, s)
      else case fs_wb s of
        None \<Rightarrow> (Some NilHandles, s)
      | Some wb \<Rightarrow>
          if \<not> fs_wo s then (Some NilHandles, s)
          else case fails (fs_db s) wb of
            Some e \<Rightarrow> (Some (FlushErr e), s)
          | None \<Rightarrow> (None, s\<lparr>fs_db := fs_db s @ wb, fs_wb := Some [], fs_pending := 0\<rparr>))"

definition flat_putCF :: "'e rocksWrite \<Rightarrow> Column \<Rightarrow> bytes \<Rightarrow> bytes \<Rightarrow> flatSink \<Rightarrow> 'e flat_error option \<times> flatSink" where
  "flat_putCF fails col key val s =
     (case fs_wb s of
        None \<Rightarrow> (Some NilHandles, s)
      | Some wb \<Rightarrow>
          let s = s\<lparr>fs_wb := Some (wb @ [((col, key), val)]), fs_pending := fs_pending s + (length key + length val)\<rparr>
          in if fs_pending s \<ge> stateBatchFlushBytes then flat_flush fails s else (None, s))"

definition flat_close :: "'e rocksWrite \<Rightarrow> flatSink \<Rightarrow> 'e flat_error option \<times> flatSink" where
  "flat_close fails s = (case flat_flush fails s of (err, s) \<Rightarrow> (err, s\<lparr>fs_wb := None, fs_wo := False\<rparr>))"

definition flatNodes :: "(Column \<Rightarrow> bytes \<Rightarrow> bytes \<Rightarrow> 's \<Rightarrow> 'e option \<times> 's) \<Rightarrow> ('s, 'e) NodeStorage" where
  "flatNodes putCF =
     \<lparr>SetStateNode = (\<lambda>path pathLen hash rlpBlob s. case StateNodeKey path pathLen of (col, key) \<Rightarrow> putCF col key rlpBlob s),
      SetStorageNode = (\<lambda>addrHash path pathLen hash rlpBlob s.
        case StorageNodeKey addrHash path pathLen of (col, key) \<Rightarrow> putCF col key rlpBlob s)\<rparr>"

definition putFlatAccount :: "(Column \<Rightarrow> bytes \<Rightarrow> bytes \<Rightarrow> 's \<Rightarrow> 'e option \<times> 's) \<Rightarrow> bytes \<Rightarrow> bytes \<Rightarrow> 's \<Rightarrow> 'e option \<times> 's" where
  "putFlatAccount putCF addrHash slimRLP s = putCF ColAccount (AccountKey addrHash) slimRLP s"

definition putFlatStorage ::
  "(Column \<Rightarrow> bytes \<Rightarrow> bytes \<Rightarrow> 's \<Rightarrow> 'e option \<times> 's) \<Rightarrow> bytes \<Rightarrow> bytes \<Rightarrow> bytes \<Rightarrow> 's \<Rightarrow> 'e option \<times> 's" where
  "putFlatStorage putCF addrHash slotKeyHash valueRLP s = putCF ColStorage (StorageKey addrHash slotKeyHash) valueRLP s"

section \<open>The state writer\<close>

definition flat_AddStorageSlot ::
  "'t stackTrie \<Rightarrow> (Column \<Rightarrow> bytes \<Rightarrow> bytes \<Rightarrow> 's \<Rightarrow> 'e option \<times> 's) \<Rightarrow> bytes \<Rightarrow> bytes \<Rightarrow> bytes \<Rightarrow> ('t, 's, 'e) nethBuilder
    \<Rightarrow> 'e neth_error option \<times> ('t, 's, 'e) nethBuilder" where
  "flat_AddStorageSlot ST putCF addrHash slotKeyHash valueRLP b =
     (case putFlatStorage putCF addrHash slotKeyHash valueRLP (nb_storage b) of
        (Some e, s) \<Rightarrow> (Some (FlatRowErr e), b\<lparr>nb_storage := s\<rparr>)
      | (None, s) \<Rightarrow> neth_AddStorageSlot ST (flatNodes putCF) addrHash slotKeyHash valueRLP (b\<lparr>nb_storage := s\<rparr>))"

definition writeFlatAccountRow ::
  "(Column \<Rightarrow> bytes \<Rightarrow> bytes \<Rightarrow> 's \<Rightarrow> 'e option \<times> 's) \<Rightarrow> ('a \<Rightarrow> bytes) \<Rightarrow> bytes \<Rightarrow> 'a \<Rightarrow> ('t, 's, 'e) nethBuilder
    \<Rightarrow> 'e neth_error option \<times> ('t, 's, 'e) nethBuilder" where
  "writeFlatAccountRow putCF slim addrHash acc b =
     (case putFlatAccount putCF addrHash (slim acc) (nb_storage b) of
        (e, s) \<Rightarrow> (map_option FlatRowErr e, b\<lparr>nb_storage := s\<rparr>))"

definition neth_EncodeStorageValue :: "(bytes \<Rightarrow> string + bytes) \<Rightarrow> bytes \<Rightarrow> string + bytes option" where
  "neth_EncodeStorageValue rlpEncode val =
     (let v = dropWhile (\<lambda>b. b = 0) val in
      if v = [] then Inr None else bindE (rlpEncode v) (\<lambda>r. Inr (Some r)))"

text \<open>The loop over an account's slots, hashed and sorted, and the root at its end.\<close>

fun writeSlots ::
  "'t stackTrie \<Rightarrow> (Column \<Rightarrow> bytes \<Rightarrow> bytes \<Rightarrow> 's \<Rightarrow> 'e option \<times> 's) \<Rightarrow> (bytes \<Rightarrow> string + bytes) \<Rightarrow> bytes \<Rightarrow> bytes entry list
    \<Rightarrow> ('t, 's, 'e) nethBuilder \<Rightarrow> 'e neth_error option \<times> ('t, 's, 'e) nethBuilder" where
  "writeSlots ST putCF rlpEncode ah [] b = (None, b)"
| "writeSlots ST putCF rlpEncode ah ((keyHash, val) # slots) b =
     (case neth_EncodeStorageValue rlpEncode val of
        Inl e \<Rightarrow> (Some (EncodeSlotErr e), b)
      | Inr None \<Rightarrow> writeSlots ST putCF rlpEncode ah slots b
      | Inr (Some valRLP) \<Rightarrow>
          (case flat_AddStorageSlot ST putCF ah keyHash valRLP b of
             (Some e, b) \<Rightarrow> (Some e, b)
           | (None, b) \<Rightarrow> writeSlots ST putCF rlpEncode ah slots b))"

definition writeStorage ::
  "'t stackTrie \<Rightarrow> (Column \<Rightarrow> bytes \<Rightarrow> bytes \<Rightarrow> 's \<Rightarrow> 'e option \<times> 's) \<Rightarrow> (bytes \<Rightarrow> string + bytes) \<Rightarrow> bytes \<Rightarrow> bytes entry list
    \<Rightarrow> ('t, 's, 'e) nethBuilder \<Rightarrow> (bytes \<times> 'e neth_error option) \<times> ('t, 's, 'e) nethBuilder" where
  "writeStorage ST putCF rlpEncode ah slots b =
     (case writeSlots ST putCF rlpEncode ah slots b of
        (Some e, b) \<Rightarrow> ((replicate 32 0, Some e), b)
      | (None, b) \<Rightarrow> neth_FinalizeStorageRoot ST (flatNodes putCF) ah b)"

text \<open>The adapter through which phase 0 streams the slots of one account.\<close>

definition nethStorage_AddLeaf ::
  "'t stackTrie \<Rightarrow> (Column \<Rightarrow> bytes \<Rightarrow> bytes \<Rightarrow> 's \<Rightarrow> 'e option \<times> 's) \<Rightarrow> bytes \<Rightarrow> bytes \<Rightarrow> bytes \<Rightarrow> ('t, 's, 'e) nethBuilder
    \<Rightarrow> 'e neth_error + ('t, 's, 'e) nethBuilder" where
  "nethStorage_AddLeaf ST putCF ah keyHash valueRLP b =
     (case flat_AddStorageSlot ST putCF ah keyHash valueRLP b of (Some e, b) \<Rightarrow> Inl e | (None, b) \<Rightarrow> Inr b)"

definition nethStorage_Root ::
  "'t stackTrie \<Rightarrow> (Column \<Rightarrow> bytes \<Rightarrow> bytes \<Rightarrow> 's \<Rightarrow> 'e option \<times> 's) \<Rightarrow> bytes \<Rightarrow> ('t, 's, 'e) nethBuilder
    \<Rightarrow> 'e neth_error + bytes \<times> ('t, 's, 'e) nethBuilder" where
  "nethStorage_Root ST putCF ah b =
     (case neth_FinalizeStorageRoot ST (flatNodes putCF) ah b of ((root, Some e), b) \<Rightarrow> Inl e | ((root, None), b) \<Rightarrow> Inr (root, b))"

text \<open>Phase 2: the callback of \<open>Iterate\<close> over the sorted accounts, and the state root.\<close>

fun writeAccounts ::
  "'t stackTrie \<Rightarrow> ('s, 'e) NodeStorage \<Rightarrow> bytes entry list \<Rightarrow> ('t, 's, 'e) nethBuilder
    \<Rightarrow> 'e neth_error option \<times> ('t, 's, 'e) nethBuilder" where
  "writeAccounts ST NS [] b = (None, b)"
| "writeAccounts ST NS ((ah, rlp) # accs) b =
     (case neth_AddAccount ST NS ah rlp b of
        (Some e, b) \<Rightarrow> (Some e, b)
      | (None, b) \<Rightarrow> writeAccounts ST NS accs b)"

definition writeState ::
  "'t stackTrie \<Rightarrow> ('s, 'e) NodeStorage \<Rightarrow> bytes entry list \<Rightarrow> ('t, 's, 'e) nethBuilder
    \<Rightarrow> (bytes \<times> 'e neth_error option) \<times> ('t, 's, 'e) nethBuilder" where
  "writeState ST NS accs b =
     (case writeAccounts ST NS accs b of
        (Some e, b) \<Rightarrow> ((replicate 32 0, Some e), b)
      | (None, b) \<Rightarrow> neth_FinalizeStateRoot ST NS b)"

text \<open>The slots of an account, hashed and sorted by \<open>bytes.Compare\<close> on the hashes.\<close>

fun insertSlot :: "bytes entry \<Rightarrow> bytes entry list \<Rightarrow> bytes entry list" where
  "insertSlot x [] = [x]"
| "insertSlot x (y # ys) = (if bytesCompare (fst x) (fst y) < 0 then x # y # ys else y # insertSlot x ys)"

definition hashSlots :: "digest \<Rightarrow> bytes entry list \<Rightarrow> bytes entry list" where
  "hashSlots keccak slots = fold insertSlot (map (\<lambda>(k, v). (keccak k, v)) slots) []"

text \<open>
  Phase 1 for the accounts that come with their slots, once the code is in the code database and its hash in
  the account: the storage trie, then the account, queued for the sort with its full encoding and stored
  with the slim one.  \<open>setRoot\<close>, \<open>encodeAcc\<close> and \<open>slim\<close> are go-ethereum's account type and its two
  encoders.  The queue is what \<open>sorter.Put\<close> has received.
\<close>

fun writeGenesisAccounts ::
  "'t stackTrie \<Rightarrow> digest \<Rightarrow> (Column \<Rightarrow> bytes \<Rightarrow> bytes \<Rightarrow> 's \<Rightarrow> 'e option \<times> 's) \<Rightarrow> (bytes \<Rightarrow> string + bytes) \<Rightarrow>
    (bytes \<Rightarrow> 'a \<Rightarrow> 'a) \<Rightarrow> ('a \<Rightarrow> string + bytes) \<Rightarrow> ('a \<Rightarrow> bytes) \<Rightarrow> (bytes \<times> 'a \<times> bytes entry list) list
    \<Rightarrow> ('t, 's, 'e) nethBuilder \<Rightarrow> (bytes entry list \<times> 'e neth_error option) \<times> ('t, 's, 'e) nethBuilder" where
  "writeGenesisAccounts ST keccak putCF rlpEncode setRoot encodeAcc slim [] b = (([], None), b)"
| "writeGenesisAccounts ST keccak putCF rlpEncode setRoot encodeAcc slim ((addr, acc, slots) # accounts) b =
     (case (if slots = [] then ((acc, None), b)
            else case writeStorage ST putCF rlpEncode (keccak addr) (hashSlots keccak slots) b of
              ((storageRoot, None), b) \<Rightarrow> ((setRoot storageRoot acc, None), b)
            | ((_, Some e), b) \<Rightarrow> ((acc, Some e), b)) of
        ((acc, Some e), b) \<Rightarrow> (([], Some e), b)
      | ((acc, None), b) \<Rightarrow>
          let ah = keccak addr in
          (case encodeAcc acc of
             Inl e \<Rightarrow> (([], Some (EncodeAccountErr e)), b)
           | Inr rlp \<Rightarrow>
               (case writeFlatAccountRow putCF slim ah acc b of
                  (Some e, b) \<Rightarrow> (([(ah, rlp)], Some e), b)
                | (None, b) \<Rightarrow>
                    (case writeGenesisAccounts ST keccak putCF rlpEncode setRoot encodeAcc slim accounts b of
                       ((queue, err), b) \<Rightarrow> (((ah, rlp) # queue, err), b)))))"

section \<open>A store that keeps what it is given\<close>

text \<open>
  What the builder needs from the sink when the database does not fail: \<open>content\<close> is the list of the rows
  handed over so far, whether they are in the database or still in the batch.
\<close>

locale row_store =
  fixes store :: "Column \<Rightarrow> bytes \<Rightarrow> bytes \<Rightarrow> 's \<Rightarrow> 'e option \<times> 's"
    and invar :: "'s \<Rightarrow> bool"
    and content :: "'s \<Rightarrow> flatRow list"
  assumes store: "invar s \<Longrightarrow> k \<noteq> [] \<Longrightarrow> \<exists>s'. store c k v s = (None, s') \<and> invar s' \<and> content s' = content s @ [((c, k), v)]"

definition storageRow :: "bytes \<Rightarrow> trieNode \<Rightarrow> flatRow" where
  "storageRow a node = (case node of (path, hash, blob) \<Rightarrow> (storageKeyOf a path, blob))"

definition stateRow :: "trieNode \<Rightarrow> flatRow" where
  "stateRow node = (case node of (path, hash, blob) \<Rightarrow> (stateKeyOf path, blob))"

definition slotRow :: "bytes \<Rightarrow> bytes entry \<Rightarrow> flatRow" where
  "slotRow a kv = ((ColStorage, StorageKey a (fst kv)), snd kv)"

definition idle :: "('t, 's, 'e) nethBuilder \<Rightarrow> bool" where
  "idle b \<longleftrightarrow> nb_err b = None \<and> \<not> hasStorageTrie b"

definition openStorage :: "'t stackTrie \<Rightarrow> bytes \<Rightarrow> ('t, 's, 'e) nethBuilder \<Rightarrow> ('t, 's, 'e) nethBuilder" where
  "openStorage ST a b =
     b\<lparr>currentStorageAddrHash := a, currentStorageTrie := stNew ST, currentStorageCount := 0, hasStorageTrie := True\<rparr>"

text \<open>The slots that are written, with their values as the trie stores them.\<close>

definition encoded :: "bytes entry list \<Rightarrow> bytes entry list" where
  "encoded slots = map (apsnd trimmed_rlp) (filter (\<lambda>kv. dropWhile (\<lambda>b. b = 0) (snd kv) \<noteq> []) slots)"

lemma sorted_encoded: "sorted_hashes slots \<Longrightarrow> sorted_hashes (encoded slots)"
proof -
  assume s: "sorted_hashes slots"
  have m: "map fst (encoded slots) = map fst (filter (\<lambda>kv. dropWhile (\<lambda>b. b = 0) (snd kv) \<noteq> []) slots)"
    by (simp add: encoded_def)
  show ?thesis
    using s by (auto simp: sorted_hashes_def m sorted_wrt_map sorted_wrt_filter encoded_def)
qed

lemma encoded_nonempty: "kv \<in> set (encoded slots) \<Longrightarrow> snd kv \<noteq> []"
  by (auto simp: encoded_def rlpEncodeBytes_def Let_def split: if_splits)

lemma node_key_nonempty: "storageKeyOf a p = (c, k) \<Longrightarrow> k \<noteq> []" "stateKeyOf p = (c', k') \<Longrightarrow> k' \<noteq> []"
proof -
  have "packNibblesTo32 p \<noteq> []" by (metis length_packNibblesTo32 list.size(3) zero_neq_numeral)
  then show "storageKeyOf a p = (c, k) \<Longrightarrow> k \<noteq> []" "stateKeyOf p = (c', k') \<Longrightarrow> k' \<noteq> []"
    by (auto simp: StorageNodeKey_def StateNodeKey_def encodeWith8Byte_def withLength_def Let_def flat_consts split: if_splits)
qed

lemma stFeed_Cons_None:
  "stFeed ST ((k, v) # kvs) t = (t', ns, None) \<longleftrightarrow>
     (\<exists>t1 ns1 ns2. stUpdate ST t k v = (t1, ns1, None) \<and> stFeed ST kvs t1 = (t', ns2, None) \<and> ns = ns1 @ ns2)"
  by (auto split: prod.splits option.splits)

text \<open>What the writer stores for one account.\<close>

definition storedAccount :: "digest \<Rightarrow> (bytes \<Rightarrow> 'a \<Rightarrow> 'a) \<Rightarrow> 'a \<Rightarrow> bytes entry list \<Rightarrow> 'a" where
  "storedAccount keccak setRoot acc slots =
     (if slots = [] then acc else setRoot (trie_root keccak (nibble_entries (encoded (hashSlots keccak slots)))) acc)"

definition accountRows ::
  "digest \<Rightarrow> (bytes \<Rightarrow> 'a \<Rightarrow> 'a) \<Rightarrow> ('a \<Rightarrow> bytes) \<Rightarrow> bytes \<times> 'a \<times> bytes entry list \<Rightarrow> flatRow list" where
  "accountRows keccak setRoot slim x =
     (case x of (addr, acc, slots) \<Rightarrow>
        let ah = keccak addr; kvs = encoded (hashSlots keccak slots) in
        ((ColAccount, AccountKey ah), slim (storedAccount keccak setRoot acc slots)) #
        map (slotRow ah) kvs @ map (storageRow ah) (map (node_of keccak) (trie_nodes keccak kvs)))"

lemma set_insertSlot [simp]: "set (insertSlot x ys) = insert x (set ys)"
  by (induction ys) auto

lemma sorted_insertSlot:
  "sorted_wrt bytesLess (map fst ys) \<Longrightarrow> fst x \<notin> fst ` set ys \<Longrightarrow> sorted_wrt bytesLess (map fst (insertSlot x ys))"
proof (induction ys)
  case (Cons y ys)
  show ?case
  proof (cases "bytesLess (fst x) (fst y)")
    case True
    then show ?thesis using Cons.prems by (auto simp: bytesLess_def [symmetric] intro: bytesLess_trans)
  next
    case False
    then have "bytesLess (fst y) (fst x)" using Cons.prems(2) bytesLess_linear [of "fst x" "fst y"] by auto
    then show ?thesis using Cons False by (auto simp: bytesLess_def [symmetric])
  qed
qed simp

lemma sorted_hashSlots:
  assumes "keccak_spec keccak" "distinct (map (keccak \<circ> fst) slots)"
  shows "sorted_hashes (hashSlots keccak slots)"
proof -
  have "sorted_wrt bytesLess (map fst (fold insertSlot xs ys)) \<and> set (fold insertSlot xs ys) = set xs \<union> set ys"
    if "sorted_wrt bytesLess (map fst ys)" "distinct (map fst xs)" "fst ` set xs \<inter> fst ` set ys = {}"
    for xs ys :: "bytes entry list"
    using that by (induction xs arbitrary: ys) (auto simp: sorted_insertSlot)
  from this [of "[]" "map (\<lambda>(k, v). (keccak k, v)) slots"] show ?thesis
    using assms by (auto simp: sorted_hashes_def hashSlots_def keccak_spec_def comp_def case_prod_beta)
qed

context row_store
begin

lemma fold_storageSink:
  "nb_err b = None \<Longrightarrow> invar (nb_storage b) \<Longrightarrow>
   \<exists>s'. fold (storageSink (flatNodes store) a) ns b = b\<lparr>nb_storage := s'\<rparr> \<and> invar s' \<and>
     content s' = content (nb_storage b) @ map (storageRow a) ns"
proof (induction ns arbitrary: b)
  case Nil
  then show ?case by (intro exI [of _ "nb_storage b"]) simp
next
  case (Cons n ns)
  obtain p h blob where n: "n = (p, h, blob)" by (cases n)
  obtain c k where k: "storageKeyOf a p = (c, k)" by (cases "storageKeyOf a p")
  obtain s1 where s1: "store c k blob (nb_storage b) = (None, s1)" "invar s1"
    "content s1 = content (nb_storage b) @ [((c, k), blob)]" using store [OF Cons.prems(2) node_key_nonempty(1) [OF k]] by blast
  have "storageSink (flatNodes store) a n b = b\<lparr>nb_storage := s1\<rparr>"
    using Cons.prems(1) s1(1) by (simp add: storageSink_def n flatNodes_def k)
  then show ?case using Cons.IH [of "b\<lparr>nb_storage := s1\<rparr>"] Cons.prems(1) s1(2,3) by (auto simp: storageRow_def n k)
qed

lemma fold_accountSink:
  "nb_err b = None \<Longrightarrow> invar (nb_storage b) \<Longrightarrow>
   \<exists>s'. fold (accountSink (flatNodes store)) ns b = b\<lparr>nb_storage := s'\<rparr> \<and> invar s' \<and>
     content s' = content (nb_storage b) @ map stateRow ns"
proof (induction ns arbitrary: b)
  case Nil
  then show ?case by (intro exI [of _ "nb_storage b"]) simp
next
  case (Cons n ns)
  obtain p h blob where n: "n = (p, h, blob)" by (cases n)
  obtain c k where k: "stateKeyOf p = (c, k)" by (cases "stateKeyOf p")
  obtain s1 where s1: "store c k blob (nb_storage b) = (None, s1)" "invar s1"
    "content s1 = content (nb_storage b) @ [((c, k), blob)]" using store [OF Cons.prems(2) node_key_nonempty(2) [OF k]] by blast
  have "accountSink (flatNodes store) n b = b\<lparr>nb_storage := s1\<rparr>"
    using Cons.prems(1) s1(1) by (simp add: accountSink_def n flatNodes_def k)
  then show ?case using Cons.IH [of "b\<lparr>nb_storage := s1\<rparr>"] Cons.prems(1) s1(2,3) by (auto simp: stateRow_def n k)
qed

lemma add_slot:
  assumes "nb_err b = None" "invar (nb_storage b)" "hasStorageTrie b" "currentStorageAddrHash b = a"
    and "stUpdate ST (currentStorageTrie b) k v = (t, ns, None)" "k \<noteq> []"
  shows "\<exists>s'. flat_AddStorageSlot ST store a k v b =
      (None, b\<lparr>nb_storage := s', currentStorageTrie := t, currentStorageCount := currentStorageCount b + 1\<rparr>) \<and>
    invar s' \<and> content s' = content (nb_storage b) @ slotRow a (k, v) # map (storageRow a) ns"
proof -
  obtain s1 where s1: "store ColStorage (StorageKey a k) v (nb_storage b) = (None, s1)" "invar s1"
    "content s1 = content (nb_storage b) @ [slotRow a (k, v)]" using store [OF assms(2), of "StorageKey a k" ColStorage v] assms(6) by (auto simp: slotRow_def StorageKey_def)
  obtain s2 where s2: "fold (storageSink (flatNodes store) a) ns (b\<lparr>nb_storage := s1, currentStorageTrie := t\<rparr>) =
      b\<lparr>nb_storage := s2, currentStorageTrie := t\<rparr>" "invar s2" "content s2 = content s1 @ map (storageRow a) ns"
    using fold_storageSink [of "b\<lparr>nb_storage := s1, currentStorageTrie := t\<rparr>" a ns] assms(1) s1(2) by (cases b) auto
  show ?thesis
    using assms s1 s2 by (intro exI [of _ s2]) (simp add: flat_AddStorageSlot_def putFlatStorage_def neth_AddStorageSlot_def Let_def)
qed

lemma write_slots:
  assumes "\<forall>b. rlpEncode b = Inr (rlpEncodeBytes b)"
  shows "\<lbrakk>nb_err b = None; invar (nb_storage b); hasStorageTrie b; currentStorageAddrHash b = a; \<forall>kv \<in> set slots. fst kv \<noteq> [];
     stFeed ST (encoded slots) (currentStorageTrie b) = (t, ns, None)\<rbrakk> \<Longrightarrow>
   \<exists>s' R. writeSlots ST store rlpEncode a slots b =
      (None, b\<lparr>nb_storage := s', currentStorageTrie := t, currentStorageCount := currentStorageCount b + length (encoded slots)\<rparr>) \<and>
    invar s' \<and> content s' = content (nb_storage b) @ R \<and>
    mset R = mset (map (slotRow a) (encoded slots)) + mset (map (storageRow a) ns)"
proof (induction slots arbitrary: b ns)
  case Nil
  then show ?case by (intro exI [of _ "nb_storage b"]) (simp add: encoded_def)
next
  case (Cons kv slots)
  obtain k v where kv: "kv = (k, v)" by (cases kv)
  show ?case
  proof (cases "dropWhile (\<lambda>b. b = 0) v = []")
    case True
    then show ?thesis using Cons by (simp add: kv neth_EncodeStorageValue_def encoded_def)
  next
    case False
    then have e: "encoded (kv # slots) = (k, trimmed_rlp v) # encoded slots"
      and enc: "neth_EncodeStorageValue rlpEncode v = Inr (Some (trimmed_rlp v))"
      using assms by (simp_all add: encoded_def kv neth_EncodeStorageValue_def Let_def)
    obtain t1 ns1 ns2 where u: "stUpdate ST (currentStorageTrie b) k (trimmed_rlp v) = (t1, ns1, None)"
      "stFeed ST (encoded slots) t1 = (t, ns2, None)" "ns = ns1 @ ns2"
      using Cons.prems(6) unfolding e stFeed_Cons_None by blast
    from add_slot [OF Cons.prems(1-4) u(1)] Cons.prems(5) kv obtain s1 where s1: "flat_AddStorageSlot ST store a k (trimmed_rlp v) b =
        (None, b\<lparr>nb_storage := s1, currentStorageTrie := t1, currentStorageCount := currentStorageCount b + 1\<rparr>)"
      "invar s1" "content s1 = content (nb_storage b) @ slotRow a (k, trimmed_rlp v) # map (storageRow a) ns1" by auto
    from Cons.IH [of "b\<lparr>nb_storage := s1, currentStorageTrie := t1, currentStorageCount := currentStorageCount b + 1\<rparr>" ns2]
    obtain s' R where "writeSlots ST store rlpEncode a slots
        (b\<lparr>nb_storage := s1, currentStorageTrie := t1, currentStorageCount := currentStorageCount b + 1\<rparr>) =
      (None, b\<lparr>nb_storage := s', currentStorageTrie := t, currentStorageCount := currentStorageCount b + 1 + length (encoded slots)\<rparr>)"
      "invar s'" "content s' = content s1 @ R" "mset R = mset (map (slotRow a) (encoded slots)) + mset (map (storageRow a) ns2)"
      using Cons.prems s1(2) u(2) by auto
    then show ?thesis
      using s1 u(3) unfolding e
      by (intro exI [of _ s'] exI [of _ "slotRow a (k, trimmed_rlp v) # map (storageRow a) ns1 @ R"])
        (simp add: kv enc)
  qed
qed

lemma add_slot_idle:
  assumes "idle b" "invar (nb_storage b)" "k \<noteq> []"
  shows "flat_AddStorageSlot ST store a k v b = flat_AddStorageSlot ST store a k v (openStorage ST a b)"
proof -
  obtain s1 where "store ColStorage (StorageKey a k) v (nb_storage b) = (None, s1)"
    using store [OF assms(2), of "StorageKey a k"] assms(3) by (auto simp: StorageKey_def)
  then show ?thesis
    using assms(1)
    by (cases b) (simp add: flat_AddStorageSlot_def putFlatStorage_def openStorage_def idle_def neth_AddStorageSlot_def)
qed

lemma write_slots_idle:
  assumes "idle b" "invar (nb_storage b)" "\<forall>b. rlpEncode b = Inr (rlpEncodeBytes b)" "encoded slots \<noteq> []"
    and "\<forall>kv \<in> set slots. fst kv \<noteq> []"
  shows "writeSlots ST store rlpEncode a slots b = writeSlots ST store rlpEncode a slots (openStorage ST a b)"
  using assms(4,5)
proof (induction slots)
  case (Cons kv slots)
  obtain k v where kv: "kv = (k, v)" by (cases kv)
  show ?case
  proof (cases "dropWhile (\<lambda>b. b = 0) v = []")
    case True
    then show ?thesis using Cons by (simp add: kv neth_EncodeStorageValue_def encoded_def)
  next
    case False
    then have "neth_EncodeStorageValue rlpEncode v = Inr (Some (trimmed_rlp v))"
      using assms(3) by (simp add: neth_EncodeStorageValue_def Let_def)
    then show ?thesis using Cons.prems(2) by (simp add: kv add_slot_idle [OF assms(1,2)])
  qed
qed (simp add: encoded_def)

lemma write_storage:
  assumes "stackTrie_spec ST keccak" "\<forall>b. rlpEncode b = Inr (rlpEncodeBytes b)" "idle b" "invar (nb_storage b)" "sorted_hashes slots"
  shows "\<exists>b' R. writeStorage ST store rlpEncode a slots b = ((trie_root keccak (nibble_entries (encoded slots)), None), b') \<and>
    idle b' \<and> accountTrie b' = accountTrie b \<and> accountCount b' = accountCount b \<and> invar (nb_storage b') \<and>
    content (nb_storage b') = content (nb_storage b) @ R \<and>
    mset R = mset (map (slotRow a) (encoded slots)) +
      mset (map (storageRow a) (map (node_of keccak) (trie_nodes keccak (encoded slots))))"
proof (cases "encoded slots = []")
  case True
  have "writeSlots ST store rlpEncode a slots b = (None, b)"
    using True by (induction slots) (auto simp: encoded_def neth_EncodeStorageValue_def split: if_splits)
  then show ?thesis
    using assms(3,4) True
    by (simp add: writeStorage_def neth_FinalizeStorageRoot_def idle_def trie_root_def nibble_entries_def trie_nodes_def)
next
  case False
  obtain t ns t' ns' where st: "stFeed ST (encoded slots) (stNew ST) = (t, ns, None)"
    "stHash ST t = (t', ns', trie_root keccak (nibble_entries (encoded slots)))"
    "mset (ns @ ns') = mset (map (node_of keccak) (trie_nodes keccak (encoded slots)))"
    using assms(1) sorted_encoded [OF assms(5)] encoded_nonempty unfolding stackTrie_spec_def by blast
  have ne: "\<forall>kv \<in> set slots. fst kv \<noteq> []" using assms(5) by (auto simp: sorted_hashes_def simp flip: length_greater_0_conv)
  define b0 where "b0 = openStorage ST a b"
  have b0: "nb_err b0 = None" "invar (nb_storage b0)" "hasStorageTrie b0" "currentStorageAddrHash b0 = a"
    "currentStorageTrie b0 = stNew ST" "currentStorageCount b0 = 0" "nb_storage b0 = nb_storage b"
    "accountTrie b0 = accountTrie b" "accountCount b0 = accountCount b"
    using assms(3,4) by (simp_all add: b0_def openStorage_def idle_def)
  obtain s1 R where s1: "writeSlots ST store rlpEncode a slots b0 =
      (None, b0\<lparr>nb_storage := s1, currentStorageTrie := t, currentStorageCount := length (encoded slots)\<rparr>)"
    "invar s1" "content s1 = content (nb_storage b) @ R"
    "mset R = mset (map (slotRow a) (encoded slots)) + mset (map (storageRow a) ns)"
    using write_slots [OF assms(2) b0(1-4) ne, of ST t ns] st(1) b0(5,6,7) by auto
  define b1 where "b1 = b0\<lparr>nb_storage := s1, currentStorageTrie := t, currentStorageCount := length (encoded slots)\<rparr>"
  obtain s2 where s2: "fold (storageSink (flatNodes store) a) ns' b1 = b1\<lparr>nb_storage := s2\<rparr>" "invar s2"
    "content s2 = content s1 @ map (storageRow a) ns'"
    using fold_storageSink [of b1 a ns'] b0(1) s1(2) by (auto simp: b1_def)
  have fin: "neth_FinalizeStorageRoot ST (flatNodes store) a b1 = ((trie_root keccak (nibble_entries (encoded slots)), None),
      b1\<lparr>nb_storage := s2, hasStorageTrie := False, currentStorageTrie := stNew ST, currentStorageCount := 0\<rparr>)"
    using b0 False st(2) s2(1) by (simp add: neth_FinalizeStorageRoot_def b1_def)
  have "writeSlots ST store rlpEncode a slots b = (None, b1)"
    using s1(1) by (simp add: write_slots_idle [OF assms(3,4,2) False ne] b0_def b1_def)
  then have w: "writeStorage ST store rlpEncode a slots b = ((trie_root keccak (nibble_entries (encoded slots)), None),
      b1\<lparr>nb_storage := s2, hasStorageTrie := False, currentStorageTrie := stNew ST, currentStorageCount := 0\<rparr>)"
    using fin by (simp add: writeStorage_def)
  have m: "mset (R @ map (storageRow a) ns') = mset (map (slotRow a) (encoded slots)) +
      mset (map (storageRow a) (map (node_of keccak) (trie_nodes keccak (encoded slots))))"
    using arg_cong [OF st(3), of "image_mset (storageRow a)"] s1(4) by (simp add: multiset.map_comp)
  have i: "idle (b1\<lparr>nb_storage := s2, hasStorageTrie := False, currentStorageTrie := stNew ST, currentStorageCount := 0\<rparr>)"
    using b0(1) by (simp add: idle_def b1_def)
  show ?thesis using w m i s1(3) s2(2,3) b0(8,9) unfolding b1_def by (intro exI conjI) (assumption | simp)+
qed

lemma write_accounts:
  "\<lbrakk>idle b; invar (nb_storage b); stFeed ST accs (accountTrie b) = (t, ns, None)\<rbrakk> \<Longrightarrow>
   \<exists>s'. writeAccounts ST (flatNodes store) accs b =
      (None, b\<lparr>nb_storage := s', accountTrie := t, accountCount := accountCount b + length accs\<rparr>) \<and>
    invar s' \<and> content s' = content (nb_storage b) @ map stateRow ns"
proof (induction accs arbitrary: b ns)
  case Nil
  then show ?case by (intro exI [of _ "nb_storage b"]) simp
next
  case (Cons kv accs)
  obtain k v where kv: "kv = (k, v)" by (cases kv)
  obtain t1 ns1 ns2 where u: "stUpdate ST (accountTrie b) k v = (t1, ns1, None)" "stFeed ST accs t1 = (t, ns2, None)" "ns = ns1 @ ns2"
    using Cons.prems(3) unfolding kv stFeed_Cons_None by blast
  obtain s1 where s1: "fold (accountSink (flatNodes store)) ns1 (b\<lparr>accountTrie := t1\<rparr>) = b\<lparr>nb_storage := s1, accountTrie := t1\<rparr>" "invar s1"
    "content s1 = content (nb_storage b) @ map stateRow ns1"
    using fold_accountSink [of "b\<lparr>accountTrie := t1\<rparr>" ns1] Cons.prems(1,2) by (cases b) (auto simp: idle_def)
  define b1 where "b1 = b\<lparr>nb_storage := s1, accountTrie := t1, accountCount := accountCount b + 1\<rparr>"
  have add: "neth_AddAccount ST (flatNodes store) k v b = (None, b1)"
    using Cons.prems(1) u(1) s1(1) by (simp add: neth_AddAccount_def idle_def b1_def)
  from Cons.IH [of b1 ns2] obtain s' where "writeAccounts ST (flatNodes store) accs b1 =
      (None, b1\<lparr>nb_storage := s', accountTrie := t, accountCount := accountCount b1 + length accs\<rparr>)" "invar s'"
      "content s' = content s1 @ map stateRow ns2"
    using Cons.prems(1) s1(2) u(2) by (auto simp: b1_def idle_def)
  then show ?case using add s1(3) u(3) by (intro exI [of _ s']) (simp add: kv b1_def)
qed

lemma write_state:
  assumes "stackTrie_spec ST keccak" "idle b" "invar (nb_storage b)" "accountTrie b = stNew ST" "accountCount b = 0"
    and "sorted_hashes accs" "\<forall>kv \<in> set accs. snd kv \<noteq> []"
  shows "\<exists>b' R. writeState ST (flatNodes store) accs b = ((trie_root keccak (nibble_entries accs), None), b') \<and>
    nb_err b' = None \<and> invar (nb_storage b') \<and> content (nb_storage b') = content (nb_storage b) @ R \<and>
    mset R = mset (map stateRow (map (node_of keccak) (trie_nodes keccak accs)))"
proof -
  obtain t ns t' ns' where st: "stFeed ST accs (stNew ST) = (t, ns, None)"
    "stHash ST t = (t', ns', trie_root keccak (nibble_entries accs))"
    "mset (ns @ ns') = mset (map (node_of keccak) (trie_nodes keccak accs))"
    using assms(1,6,7) unfolding stackTrie_spec_def by blast
  obtain s1 where s1: "writeAccounts ST (flatNodes store) accs b =
      (None, b\<lparr>nb_storage := s1, accountTrie := t, accountCount := length accs\<rparr>)" "invar s1"
    "content s1 = content (nb_storage b) @ map stateRow ns"
    using write_accounts [OF assms(2,3), of ST accs t ns] st(1) assms(4,5) by auto
  define b1 where "b1 = b\<lparr>nb_storage := s1, accountTrie := t, accountCount := length accs\<rparr>"
  show ?thesis
  proof (cases "accs = []")
    case True
    then have "trie_nodes keccak accs = []" by (simp add: trie_nodes_def nibble_entries_def)
    then show ?thesis
      using True assms(2,3,5)
      by (simp add: writeState_def neth_FinalizeStateRoot_def idle_def trie_root_def nibble_entries_def)
  next
    case False
    obtain s2 where s2: "fold (accountSink (flatNodes store)) ns' (b1\<lparr>accountTrie := t'\<rparr>) = b1\<lparr>accountTrie := t', nb_storage := s2\<rparr>"
      "invar s2" "content s2 = content s1 @ map stateRow ns'"
      using fold_accountSink [of "b1\<lparr>accountTrie := t'\<rparr>" ns'] assms(2) s1(2) by (auto simp: b1_def idle_def)
    have "writeState ST (flatNodes store) accs b =
        ((trie_root keccak (nibble_entries accs), None), b1\<lparr>accountTrie := t', nb_storage := s2\<rparr>)"
      using False assms(2) s1(1) st(2) s2(1) by (simp add: writeState_def neth_FinalizeStateRoot_def idle_def b1_def)
    moreover have "mset (map stateRow (ns @ ns')) = mset (map stateRow (map (node_of keccak) (trie_nodes keccak accs)))"
      using arg_cong [OF st(3), of "image_mset stateRow"] by (simp add: multiset.map_comp)
    moreover have "nb_err b1 = None" using assms(2) by (simp add: b1_def idle_def)
    ultimately show ?thesis
      using s1(3) s2(2,3) by (intro exI [of _ "b1\<lparr>accountTrie := t', nb_storage := s2\<rparr>"] exI [of _ "map stateRow (ns @ ns')"]) simp
  qed
qed

lemma write_genesis_accounts:
  assumes "stackTrie_spec ST keccak" "keccak_spec keccak" "\<forall>b. rlpEncode b = Inr (rlpEncodeBytes b)" "\<forall>acc. encodeAcc acc = Inr (accRLP acc)"
  shows "\<lbrakk>idle b; invar (nb_storage b); \<forall>(addr, acc, slots) \<in> set accounts. distinct (map (keccak \<circ> fst) slots)\<rbrakk> \<Longrightarrow>
    \<exists>b' R. writeGenesisAccounts ST keccak store rlpEncode setRoot encodeAcc slim accounts b =
        ((map (\<lambda>(addr, acc, slots). (keccak addr, accRLP (storedAccount keccak setRoot acc slots))) accounts, None), b') \<and>
      idle b' \<and> accountTrie b' = accountTrie b \<and> accountCount b' = accountCount b \<and> invar (nb_storage b') \<and>
      content (nb_storage b') = content (nb_storage b) @ R \<and>
      mset R = mset (concat (map (accountRows keccak setRoot slim) accounts))"
proof (induction accounts arbitrary: b)
  case (Cons x accounts)
  obtain addr acc slots where x: "x = (addr, acc, slots)" by (cases x)
  define ah where "ah = keccak addr"
  define kvs where "kvs = hashSlots keccak slots"
  let ?acc = "storedAccount keccak setRoot acc slots"
  have sorted: "sorted_hashes kvs" unfolding kvs_def using Cons.prems(3) by (intro sorted_hashSlots [OF assms(2)]) (simp add: x comp_def)
  have "length ah = 32" using assms(2) by (simp add: ah_def keccak_spec_def)
  then have ah: "AccountKey ah \<noteq> []" by (auto simp: AccountKey_def flat_consts)
  obtain b1 R1 where b1: "(if slots = [] then ((acc, None), b)
        else case writeStorage ST store rlpEncode ah kvs b of
          ((storageRoot, None), b) \<Rightarrow> ((setRoot storageRoot acc, None), b)
        | ((_, Some e), b) \<Rightarrow> ((acc, Some e), b)) = ((?acc, None), b1)"
      "idle b1" "accountTrie b1 = accountTrie b" "accountCount b1 = accountCount b" "invar (nb_storage b1)"
      "content (nb_storage b1) = content (nb_storage b) @ R1"
      "mset R1 = mset (map (slotRow ah) (encoded kvs)) +
        mset (map (storageRow ah) (map (node_of keccak) (trie_nodes keccak (encoded kvs))))"
  proof (cases "slots = []")
    case True
    then show ?thesis
      using that [of b "[]"] Cons.prems by (simp add: kvs_def hashSlots_def storedAccount_def encoded_def trie_nodes_def nibble_entries_def)
  next
    case False
    from write_storage [OF assms(1,3) Cons.prems(1,2) sorted, of ah] obtain b' R where
      "writeStorage ST store rlpEncode ah kvs b = ((trie_root keccak (nibble_entries (encoded kvs)), None), b')"
      "idle b'" "accountTrie b' = accountTrie b" "accountCount b' = accountCount b" "invar (nb_storage b')"
      "content (nb_storage b') = content (nb_storage b) @ R"
      "mset R = mset (map (slotRow ah) (encoded kvs)) +
        mset (map (storageRow ah) (map (node_of keccak) (trie_nodes keccak (encoded kvs))))" by blast
    then show ?thesis using False by (intro that [of b' R]) (simp_all add: storedAccount_def kvs_def)
  qed
  obtain s2 where s2: "store ColAccount (AccountKey ah) (slim ?acc) (nb_storage b1) = (None, s2)" "invar s2"
    "content s2 = content (nb_storage b1) @ [((ColAccount, AccountKey ah), slim ?acc)]" using store [OF b1(5) ah] by blast
  define b2 where "b2 = b1\<lparr>nb_storage := s2\<rparr>"
  have row: "writeFlatAccountRow store slim ah ?acc b1 = (None, b2)"
    using s2(1) by (simp add: writeFlatAccountRow_def putFlatAccount_def b2_def)
  have "idle b2" "invar (nb_storage b2)" using b1(2) s2(2) by (simp_all add: b2_def idle_def)
  with Cons.IH [of b2] Cons.prems(3) obtain b' R where
    rec: "writeGenesisAccounts ST keccak store rlpEncode setRoot encodeAcc slim accounts b2 =
        ((map (\<lambda>(addr, acc, slots). (keccak addr, accRLP (storedAccount keccak setRoot acc slots))) accounts, None), b')"
      "idle b'" "accountTrie b' = accountTrie b2" "accountCount b' = accountCount b2" "invar (nb_storage b')"
      "content (nb_storage b') = content (nb_storage b2) @ R"
      "mset R = mset (concat (map (accountRows keccak setRoot slim) accounts))" by auto
  have "writeGenesisAccounts ST keccak store rlpEncode setRoot encodeAcc slim (x # accounts) b =
      ((map (\<lambda>(addr, acc, slots). (keccak addr, accRLP (storedAccount keccak setRoot acc slots))) (x # accounts), None), b')"
    unfolding x writeGenesisAccounts.simps b1(1) [unfolded ah_def kvs_def]
    using assms(4) row [unfolded ah_def] rec(1) by simp
  moreover have "content (nb_storage b') = content (nb_storage b) @ (R1 @ [((ColAccount, AccountKey ah), slim ?acc)] @ R)"
    using rec(6) s2(3) b1(6) by (simp add: b2_def)
  moreover have "mset (R1 @ [((ColAccount, AccountKey ah), slim ?acc)] @ R) =
      mset (concat (map (accountRows keccak setRoot slim) (x # accounts)))"
    using b1(7) rec(7) by (simp add: x accountRows_def Let_def ah_def kvs_def)
  ultimately show ?case using rec b1(3,4) by (intro exI conjI) (assumption | simp add: b2_def)+
qed (auto intro!: exI [of _ "[]"])

end

section \<open>The flat sink is such a store\<close>

definition rowSize :: "flatRow \<Rightarrow> nat" where
  "rowSize r = length (snd (fst r)) + length (snd r)"

definition flat_invar :: "flatSink \<Rightarrow> bool" where
  "flat_invar s \<longleftrightarrow> fs_wo s \<and> (\<exists>wb. fs_wb s = Some wb \<and> fs_pending s = sum_list (map rowSize wb) \<and> (\<forall>r \<in> set wb. snd (fst r) \<noteq> []) \<and>
     fs_pending s < stateBatchFlushBytes)"

definition flat_content :: "flatSink \<Rightarrow> flatRow list" where
  "flat_content s = fs_db s @ (case fs_wb s of None \<Rightarrow> [] | Some wb \<Rightarrow> wb)"

lemma flat_putCF_ok:
  assumes "flat_invar s" "k \<noteq> []"
  shows "\<exists>s'. flat_putCF (\<lambda>_ _. None) c k v s = (None, s') \<and> flat_invar s' \<and> flat_content s' = flat_content s @ [((c, k), v)]"
proof -
  obtain wb where wb: "fs_wb s = Some wb" "fs_pending s = sum_list (map rowSize wb)" "\<forall>r \<in> set wb. snd (fst r) \<noteq> []" "fs_wo s"
    using assms(1) by (auto simp: flat_invar_def)
  then show ?thesis
    using assms(2)
    by (auto simp: flat_putCF_def flat_flush_def flat_invar_def flat_content_def rowSize_def Let_def stateBatchFlushBytes_def)
qed

interpretation flat: row_store "flat_putCF (\<lambda>_ _. None)" flat_invar flat_content
  by unfold_locales (rule flat_putCF_ok)

lemma flat_close_ok:
  assumes "flat_invar s"
  shows "\<exists>s'. flat_close (\<lambda>_ _. None) s = (None :: 'e flat_error option, s') \<and> fs_db s' = flat_content s"
proof -
  obtain wb where wb: "fs_wb s = Some wb" "fs_pending s = sum_list (map rowSize wb)" "\<forall>r \<in> set wb. snd (fst r) \<noteq> []" "fs_wo s"
    using assms by (auto simp: flat_invar_def)
  have "wb = []" if "fs_pending s = 0"
    using that wb(2,3) by (cases wb) (auto simp: rowSize_def)
  then show ?thesis using wb by (auto simp: flat_close_def flat_flush_def flat_content_def)
qed

section \<open>The adapter behind the streaming interface\<close>

lemma fold_storageSink_fields:
  "hasStorageTrie (fold (storageSink NS a) ns b) = hasStorageTrie b \<and>
   currentStorageAddrHash (fold (storageSink NS a) ns b) = currentStorageAddrHash b \<and>
   currentStorageTrie (fold (storageSink NS a) ns b) = currentStorageTrie b \<and>
   currentStorageCount (fold (storageSink NS a) ns b) = currentStorageCount b"
proof (induction ns arbitrary: b)
  case (Cons n ns)
  have "hasStorageTrie (storageSink NS a n b) = hasStorageTrie b \<and>
      currentStorageAddrHash (storageSink NS a n b) = currentStorageAddrHash b \<and>
      currentStorageTrie (storageSink NS a n b) = currentStorageTrie b \<and>
      currentStorageCount (storageSink NS a n b) = currentStorageCount b"
    by (auto simp: storageSink_def split: prod.splits option.splits)
  then show ?case using Cons.IH by simp
qed simp

lemma AddLeaf_Inr:
  assumes "nethStorage_AddLeaf ST putCF ah k v b = Inr b'" "nb_err b = None" "hasStorageTrie b" "currentStorageAddrHash b = ah"
  shows "\<exists>ns. stUpdate ST (currentStorageTrie b) k v = (currentStorageTrie b', ns, None) \<and> nb_err b' = None \<and>
    hasStorageTrie b' \<and> currentStorageAddrHash b' = ah \<and> currentStorageCount b' = currentStorageCount b + 1"
proof -
  obtain s where r: "neth_AddStorageSlot ST (flatNodes putCF) ah k v (b\<lparr>nb_storage := s\<rparr>) = (None, b')"
    using assms(1) by (auto simp: nethStorage_AddLeaf_def flat_AddStorageSlot_def split: prod.splits option.splits)
  obtain t ns err where u: "stUpdate ST (currentStorageTrie b) k v = (t, ns, err)"
    by (cases "stUpdate ST (currentStorageTrie b) k v") auto
  show ?thesis
    using r assms(2-4) u
    by (auto simp: neth_AddStorageSlot_def Let_def fold_storageSink_fields split: option.splits)
qed

lemma fold_AddLeaf:
  "\<lbrakk>foldE (\<lambda>(k, v). nethStorage_AddLeaf ST putCF ah k v) kvs b = Inr b'; nb_err b = None; hasStorageTrie b;
    currentStorageAddrHash b = ah\<rbrakk> \<Longrightarrow>
   \<exists>ns. stFeed ST kvs (currentStorageTrie b) = (currentStorageTrie b', ns, None) \<and> nb_err b' = None \<and> hasStorageTrie b' \<and>
     currentStorageAddrHash b' = ah \<and> currentStorageCount b' = currentStorageCount b + length kvs"
proof (induction kvs arbitrary: b)
  case (Cons kv kvs)
  obtain k v where kv: "kv = (k, v)" by (cases kv)
  obtain b1 where b1: "nethStorage_AddLeaf ST putCF ah k v b = Inr b1"
    "foldE (\<lambda>(k, v). nethStorage_AddLeaf ST putCF ah k v) kvs b1 = Inr b'"
    using Cons.prems(1) by (auto simp: kv bindE_eq_Inr)
  obtain ns where 1: "stUpdate ST (currentStorageTrie b) k v = (currentStorageTrie b1, ns, None)" "nb_err b1 = None"
    "hasStorageTrie b1" "currentStorageAddrHash b1 = ah" "currentStorageCount b1 = currentStorageCount b + 1"
    using AddLeaf_Inr [OF b1(1) Cons.prems(2-4)] by blast
  then show ?case using Cons.IH [OF b1(2) 1(2-4)] by (auto simp: kv)
qed simp

lemma AddLeaf_idle:
  "idle b \<Longrightarrow> nethStorage_AddLeaf ST putCF ah k v b = nethStorage_AddLeaf ST putCF ah k v (openStorage ST ah b)"
  by (cases b) (auto simp: nethStorage_AddLeaf_def flat_AddStorageSlot_def openStorage_def idle_def neth_AddStorageSlot_def
      split: prod.splits option.splits)

context row_store
begin

lemma add_leaves:
  "\<lbrakk>nb_err b = None; invar (nb_storage b); hasStorageTrie b; currentStorageAddrHash b = a; \<forall>kv \<in> set kvs. fst kv \<noteq> [];
    stFeed ST kvs (currentStorageTrie b) = (t, ns, None)\<rbrakk> \<Longrightarrow>
   \<exists>s'. foldE (\<lambda>(k, v). nethStorage_AddLeaf ST store a k v) kvs b =
      Inr (b\<lparr>nb_storage := s', currentStorageTrie := t, currentStorageCount := currentStorageCount b + length kvs\<rparr>) \<and> invar s'"
proof (induction kvs arbitrary: b ns)
  case Nil
  then show ?case by (intro exI [of _ "nb_storage b"]) simp
next
  case (Cons kv kvs)
  obtain k v where kv: "kv = (k, v)" by (cases kv)
  obtain t1 ns1 ns2 where u: "stUpdate ST (currentStorageTrie b) k v = (t1, ns1, None)" "stFeed ST kvs t1 = (t, ns2, None)"
    using Cons.prems(6) unfolding kv stFeed_Cons_None by blast
  obtain s1 where s1: "flat_AddStorageSlot ST store a k v b =
      (None, b\<lparr>nb_storage := s1, currentStorageTrie := t1, currentStorageCount := currentStorageCount b + 1\<rparr>)" "invar s1"
    using add_slot [OF Cons.prems(1-4) u(1)] Cons.prems(5) kv by auto
  from Cons.IH [of "b\<lparr>nb_storage := s1, currentStorageTrie := t1, currentStorageCount := currentStorageCount b + 1\<rparr>" ns2]
  show ?case using Cons.prems s1 u(2) by (simp add: kv nethStorage_AddLeaf_def)
qed

lemma leaves_accepted:
  assumes "stackTrie_spec ST keccak" "sorted_hashes kvs" "\<forall>kv \<in> set kvs. snd kv \<noteq> []" "idle b" "invar (nb_storage b)"
  shows "\<exists>h r h'. foldE (\<lambda>(k, v). nethStorage_AddLeaf ST store a k v) kvs b = Inr h \<and> nethStorage_Root ST store a h = Inr (r, h')"
proof (cases kvs)
  case Nil
  then show ?thesis using assms(4) by (simp add: nethStorage_Root_def neth_FinalizeStorageRoot_def idle_def)
next
  case (Cons kv rest)
  obtain t ns t' ns' root where st: "stFeed ST kvs (stNew ST) = (t, ns, None)" "stHash ST t = (t', ns', root)"
    using assms(1-3) unfolding stackTrie_spec_def by blast
  have ne: "\<forall>kv \<in> set kvs. fst kv \<noteq> []" using assms(2) by (auto simp: sorted_hashes_def simp flip: length_greater_0_conv)
  obtain s' where f: "foldE (\<lambda>(k, v). nethStorage_AddLeaf ST store a k v) kvs (openStorage ST a b) =
      Inr (openStorage ST a b\<lparr>nb_storage := s', currentStorageTrie := t, currentStorageCount := length kvs\<rparr>)" "invar s'"
    using add_leaves [of "openStorage ST a b" a kvs ST t ns] assms(4,5) ne st(1) by (auto simp: openStorage_def idle_def)
  define h where "h = openStorage ST a b\<lparr>nb_storage := s', currentStorageTrie := t, currentStorageCount := length kvs\<rparr>"
  obtain s2 where s2: "fold (storageSink (flatNodes store) a) ns' h = h\<lparr>nb_storage := s2\<rparr>"
    using fold_storageSink [of h a ns'] assms(4) f(2) by (auto simp: h_def openStorage_def idle_def)
  have "foldE (\<lambda>(k, v). nethStorage_AddLeaf ST store a k v) kvs b = Inr h"
    using f(1) by (cases kv) (simp add: Cons AddLeaf_idle [OF assms(4)] h_def)
  moreover have "\<exists>h'. nethStorage_Root ST store a h = Inr (root, h')"
  proof -
    have "nb_err h = None" "hasStorageTrie h" "currentStorageAddrHash h = a" "currentStorageCount h \<noteq> 0" "currentStorageTrie h = t"
      using assms(4) Cons by (simp_all add: h_def openStorage_def idle_def)
    then show ?thesis using st(2) s2 by (simp add: nethStorage_Root_def neth_FinalizeStorageRoot_def)
  qed
  ultimately show ?thesis by blast
qed

end

lemma stFeed_nonempty:
  assumes "stackTrie_spec ST keccak" "stFeed ST kvs t = (t', ns, None)"
  shows "\<forall>kv \<in> set kvs. snd kv \<noteq> []"
  using assms(2)
proof (induction kvs arbitrary: t ns)
  case (Cons kv kvs)
  obtain k v where kv: "kv = (k, v)" by (cases kv)
  obtain t1 ns1 ns2 where u: "stUpdate ST t k v = (t1, ns1, None)" "stFeed ST kvs t1 = (t', ns2, None)"
    using Cons.prems unfolding kv stFeed_Cons_None by blast
  have "v \<noteq> []" using assms(1) u(1) unfolding stackTrie_spec_def by (metis option.distinct(1) prod.inject)
  then show ?case using Cons.IH [OF u(2)] by (simp add: kv)
qed simp

lemma neth_run:
  assumes "stackTrie_spec ST keccak" "sorted_hashes kvs" "idle b"
    and "foldE (\<lambda>(k, v). nethStorage_AddLeaf ST putCF ah k v) kvs b = Inr h" "nethStorage_Root ST putCF ah h = Inr (r, h')"
  shows "r = trie_root keccak (nibble_entries kvs)"
proof (cases kvs)
  case Nil
  then show ?thesis
    using assms(3-5) by (auto simp: nethStorage_Root_def neth_FinalizeStorageRoot_def idle_def trie_root_def nibble_entries_def)
next
  case (Cons kv rest)
  have "foldE (\<lambda>(k, v). nethStorage_AddLeaf ST putCF ah k v) kvs (openStorage ST ah b) = Inr h"
    using assms(4) by (cases kv) (simp add: Cons AddLeaf_idle [OF assms(3)])
  from fold_AddLeaf [OF this] assms(3) obtain ns where
    h: "stFeed ST kvs (stNew ST) = (currentStorageTrie h, ns, None)" "nb_err h = None" "hasStorageTrie h"
      "currentStorageAddrHash h = ah" "currentStorageCount h = length kvs"
    by (auto simp: openStorage_def idle_def)
  obtain t' ns' where "stHash ST (currentStorageTrie h) = (t', ns', trie_root keccak (nibble_entries kvs))"
    using assms(1,2) stFeed_nonempty [OF assms(1) h(1)] h(1) unfolding stackTrie_spec_def by (metis prod.inject)
  then show ?thesis
    using assms(5) h Cons
    by (auto simp: nethStorage_Root_def neth_FinalizeStorageRoot_def Let_def split: option.splits)
qed

interpretation neth_hb: hash_builder "stackTrie_spec ST keccak" "neth_NewBuilder ST s"
  "\<lambda>k v b. nethStorage_AddLeaf ST putCF ah k v b" "nethStorage_Root ST putCF ah"
  "\<lambda>kvs. trie_root keccak (nibble_entries kvs)"
  for ST keccak s putCF ah
proof unfold_locales
  fix kvs h r h'
  assume "stackTrie_spec ST keccak" "sorted_hashes kvs"
    and "foldE (\<lambda>(k, v). nethStorage_AddLeaf ST putCF ah k v) kvs (neth_NewBuilder ST s) = Inr h"
    and "nethStorage_Root ST putCF ah h = Inr (r, h')"
  then show "r = trie_root keccak (nibble_entries kvs)"
    using neth_run [of ST keccak kvs "neth_NewBuilder ST s"] by (auto simp: neth_NewBuilder_def idle_def)
qed

lemma newFlatSink_invar: "flat_invar (newFlatSink disk)"
  by (simp add: newFlatSink_def flat_invar_def stateBatchFlushBytes_def)

interpretation neth_pure: total_hash_builder "stackTrie_spec ST keccak" "neth_NewBuilder ST (newFlatSink disk)"
  "\<lambda>k v b. nethStorage_AddLeaf ST (flat_putCF (\<lambda>_ _. None)) ah k v b" "nethStorage_Root ST (flat_putCF (\<lambda>_ _. None)) ah"
  "\<lambda>kvs. trie_root keccak (nibble_entries kvs)"
  for ST keccak disk ah
  by unfold_locales
    (rule flat.leaves_accepted, assumption+, simp_all add: neth_NewBuilder_def idle_def newFlatSink_invar)

section \<open>Properties\<close>

text \<open>
  C14: phase 0 of the nethermind writer.  When \<open>StorageRoot\<close> over the adapter of the flat state writer returns, for
  any database behind the sink, its result is the root of the reference trie over the last non-zero values of
  the slots, as it is for the other clients.
\<close>
theorem neth_storage_root_correct:
  assumes "stackTrie_spec ST keccak" "\<forall>b. rlpEncode b = Inr (rlpEncodeBytes b)" "pebble_spec P V" "keccak_spec keccak"
    and "\<forall>kv \<in> set (nonzero_slots storage). length (fst kv) = 32 \<and> length (snd kv) = 32"
    and "StorageRoot P mkdir keccak rlpEncode (\<lambda>k v b. nethStorage_AddLeaf ST (flat_putCF fails) ah k v b)
      (nethStorage_Root ST (flat_putCF fails) ah) d storage (Some (neth_NewBuilder ST s)) slotSink w = Inr (r, h, w')"
  shows "\<exists>es. sorted_wrt bytesLess (map fst es) \<and> map_of es = slot_map keccak storage \<and>
    r = trie_root keccak (nibble_entries (map (apsnd trimmed_rlp) es))"
  using neth_hb.storage_root [OF assms] .

text \<open>
  C7: the nethermind state database.  With a \<open>StackTrie\<close> that does what it documents and a database whose writes
  succeed, writing accounts with their slots, then the queued accounts in hash order, then closing the sink
  raises no error; the state root is the root of the reference trie over the queued accounts, each of which
  carries the reference root of its non-zero slots; and the database then holds exactly one flat row per account, one
  per non-zero slot, and one row per hashed node of every storage trie and of the state trie, under the keys
  of the flat layout, however the batches were cut.
\<close>
theorem neth_state_database:
  assumes "stackTrie_spec ST keccak" "\<forall>b. rlpEncode b = Inr (rlpEncodeBytes b)"
    and "\<forall>acc. encodeAcc acc = Inr (accRLP acc)" "\<forall>acc. accRLP acc \<noteq> []"
    and "keccak_spec keccak" "\<forall>(addr, acc, slots) \<in> set accounts. distinct (map (keccak \<circ> fst) slots)"
    and "sorted_hashes accs"
    and "mset accs = mset (map (\<lambda>(addr, acc, slots). (keccak addr, accRLP (storedAccount keccak setRoot acc slots))) accounts)"
  shows "\<exists>queue b1 b2 s.
    writeGenesisAccounts ST keccak (flat_putCF (\<lambda>_ _. None)) rlpEncode setRoot encodeAcc slim accounts
      (neth_NewBuilder ST (newFlatSink [])) = ((queue, None :: 'e flat_error neth_error option), b1) \<and>
    mset accs = mset queue \<and>
    writeState ST (flatNodes (flat_putCF (\<lambda>_ _. None))) accs b1 = ((trie_root keccak (nibble_entries accs), None), b2) \<and>
    flat_close (\<lambda>_ _. None) (nb_storage b2) = (None :: 'e flat_error option, s) \<and>
    mset (fs_db s) = mset (concat (map (accountRows keccak setRoot slim) accounts)) +
      mset (map stateRow (map (node_of keccak) (trie_nodes keccak accs)))"
proof -
  let ?b = "neth_NewBuilder ST (newFlatSink []) :: (_, _, 'e flat_error) nethBuilder"
  have b: "idle ?b" "flat_invar (nb_storage ?b)" "accountTrie ?b = stNew ST" "accountCount ?b = 0"
    "flat_content (nb_storage ?b) = []"
    by (simp_all add: neth_NewBuilder_def idle_def newFlatSink_def flat_invar_def flat_content_def stateBatchFlushBytes_def)
  from flat.write_genesis_accounts [OF assms(1,5,2,3) b(1,2) assms(6), of setRoot slim] obtain b1 R where
    1: "writeGenesisAccounts ST keccak (flat_putCF (\<lambda>_ _. None)) rlpEncode setRoot encodeAcc slim accounts ?b =
        ((map (\<lambda>(addr, acc, slots). (keccak addr, accRLP (storedAccount keccak setRoot acc slots))) accounts, None), b1)"
      "idle b1" "accountTrie b1 = stNew ST" "accountCount b1 = 0" "flat_invar (nb_storage b1)"
      "flat_content (nb_storage b1) = R" "mset R = mset (concat (map (accountRows keccak setRoot slim) accounts))"
    using b(3-5) by auto
  have "\<forall>kv \<in> set accs. snd kv \<noteq> []"
  proof
    fix kv
    assume "kv \<in> set accs"
    then have "kv \<in> set (map (\<lambda>(addr, acc, slots). (keccak addr, accRLP (storedAccount keccak setRoot acc slots))) accounts)"
      using assms(8) by (metis set_mset_mset)
    then show "snd kv \<noteq> []" using assms(4) by auto
  qed
  from flat.write_state [OF assms(1) 1(2,5,3,4) assms(7) this] obtain b2 R2 where
    2: "writeState ST (flatNodes (flat_putCF (\<lambda>_ _. None))) accs b1 = ((trie_root keccak (nibble_entries accs), None), b2)"
      "flat_invar (nb_storage b2)" "flat_content (nb_storage b2) = R @ R2"
      "mset R2 = mset (map stateRow (map (node_of keccak) (trie_nodes keccak accs)))"
    using 1(6) by blast
  obtain s where "flat_close (\<lambda>_ _. None) (nb_storage b2) = (None :: 'e flat_error option, s)" "fs_db s = R @ R2"
    using flat_close_ok [OF 2(2)] 2(3) by metis
  then show ?thesis using 1(1,7) 2(1,4) assms(8) by (intro exI conjI) (assumption | simp)+
qed

text \<open>A \<open>StackTrie\<close> that keeps its entries and hands out all nodes at the end.\<close>

definition stackTrie_model :: "digest \<Rightarrow> bytes entry list stackTrie" where
  "stackTrie_model keccak =
     \<lparr>stNew = [], stUpdate = (\<lambda>t k v. if v = [] then (t, [], Some ''empty'') else (t @ [(k, v)], [], None)),
      stHash = (\<lambda>t. (t, map (node_of keccak) (trie_nodes keccak t), trie_root keccak (nibble_entries t)))\<rparr>"

lemma stackTrie_model_ok: "stackTrie_spec (stackTrie_model keccak) keccak"
proof -
  have "\<forall>kv \<in> set kvs. snd kv \<noteq> [] \<Longrightarrow> stFeed (stackTrie_model keccak) kvs t = (t @ kvs, [], None)" for kvs t
    by (induction kvs arbitrary: t) (auto simp: stackTrie_model_def)
  then show ?thesis by (simp add: stackTrie_spec_def) (simp add: stackTrie_model_def)
qed

theorem neth_storage_root_correct_witness:
  "\<exists>r h. StorageRoot pebble_model Inr (\<lambda>x. replicate 32 (last x)) (\<lambda>b. Inr (rlpEncodeBytes b))
      (\<lambda>k v b. nethStorage_AddLeaf (stackTrie_model (\<lambda>x. replicate 32 (last x))) (flat_putCF (\<lambda>_ _. None :: unit option)) (replicate 32 1) k v b)
      (nethStorage_Root (stackTrie_model (\<lambda>x. replicate 32 (last x))) (flat_putCF (\<lambda>_ _. None)) (replicate 32 1)) ''tmp''
      (Some [(replicate 32 2, replicate 32 7), (replicate 32 1, zeroHash), (replicate 32 2, replicate 32 9)])
      (Some (neth_NewBuilder (stackTrie_model (\<lambda>x. replicate 32 (last x))) (newFlatSink [])))
      (None :: (unit, unit) slot_sink option) () = Inr (r, h, ()) \<and>
    (\<exists>es. map_of es = [replicate 32 2 \<mapsto> replicate 32 9] \<and>
      r = trie_root (\<lambda>x. replicate 32 (last x)) (nibble_entries (map (apsnd trimmed_rlp) es)))"
proof -
  let ?slots = "Some [(replicate 32 2, replicate 32 7), (replicate 32 1, zeroHash), (replicate 32 2, replicate 32 9)]"
  let ?kec = "\<lambda>x :: bytes. replicate 32 (last x)"
  have n: "nonzero_slots ?slots = [(replicate 32 2, replicate 32 7), (replicate 32 2, replicate 32 9)]"
    by (simp add: zeroHash_def)
  have k: "keccak_spec ?kec" by (simp add: keccak_spec_def)
  have m: "slot_map ?kec ?slots = [replicate 32 2 \<mapsto> replicate 32 9]"
    unfolding slot_map_def n by (simp add: fun_eq_iff)
  have l: "\<forall>kv \<in> set (nonzero_slots ?slots). length (fst kv) = 32 \<and> length (snd kv) = 32" unfolding n by simp
  show ?thesis
    using neth_pure.storage_root_total [OF stackTrie_model_ok _ pebble_model_spec pebble_model_total _ k l,
        of "\<lambda>b. Inr (rlpEncodeBytes b)" Inr "''tmp''" "''tmp''" ?kec "replicate 32 1" "[]" "()"]
      neth_storage_root_correct [OF stackTrie_model_ok _ pebble_model_spec k l, of "\<lambda>b. Inr (rlpEncodeBytes b)" Inr
        "\<lambda>_ _. None :: unit option" "replicate 32 1" "''tmp''" "newFlatSink []" None "()"]
    unfolding m by fastforce
qed

abbreviation sample_accounts :: "(bytes \<times> byte \<times> bytes entry list) list" where
  "sample_accounts \<equiv> [([3], 5, [([4], [0, 0]), ([2], [0, 9])]), ([1], 6, [])]"

theorem neth_state_database_witness:
  "\<exists>queue b1 b2 s.
    writeGenesisAccounts (stackTrie_model (\<lambda>x. replicate 32 (last x))) (\<lambda>x. replicate 32 (last x)) (flat_putCF (\<lambda>_ _. None)) (\<lambda>b. Inr (rlpEncodeBytes b)) (\<lambda>r a. a)
      (\<lambda>a. Inr [a]) (\<lambda>a. [a]) sample_accounts (neth_NewBuilder (stackTrie_model (\<lambda>x. replicate 32 (last x))) (newFlatSink [])) =
      ((queue, None :: unit flat_error neth_error option), b1) \<and>
    mset [(replicate 32 1, [6]), (replicate 32 3, [5])] = mset queue \<and>
    writeState (stackTrie_model (\<lambda>x. replicate 32 (last x))) (flatNodes (flat_putCF (\<lambda>_ _. None)))
      [(replicate 32 1, [6]), (replicate 32 3, [5])] b1 =
      ((trie_root (\<lambda>x. replicate 32 (last x)) (nibble_entries [(replicate 32 1, [6]), (replicate 32 3, [5])]), None), b2) \<and>
    flat_close (\<lambda>_ _. None) (nb_storage b2) = (None :: unit flat_error option, s) \<and>
    mset (fs_db s) = mset (concat (map (accountRows (\<lambda>x. replicate 32 (last x)) (\<lambda>r a. a) (\<lambda>a. [a])) sample_accounts)) +
      mset (map stateRow (map (node_of (\<lambda>x. replicate 32 (last x)))
        (trie_nodes (\<lambda>x. replicate 32 (last x)) [(replicate 32 1, [6]), (replicate 32 3, [5])])))"
proof -
  have r: "replicate 32 x = x # replicate 31 x" for x :: byte
    unfolding replicate_Suc [symmetric] by simp
  have "bytesLess (replicate 32 1) (replicate 32 3)"
    unfolding r by (simp add: bytesLess_Cons)
  then show ?thesis
    by (intro neth_state_database [OF stackTrie_model_ok, where accRLP = "\<lambda>a. [a]"])
      (simp_all add: sorted_hashes_def storedAccount_def add_mset_commute keccak_spec_def r)
qed



text \<open>
  After a close whose last flush failed, the pending bytes are still counted and the handles are gone, so a
  second close, as the deferred one in \<open>writeSyntheticAccounts\<close>, calls the database with nil handles.
\<close>
lemma flat_close_twice:
  assumes "flat_close fails s = (Some (FlushErr e), s')"
  shows "flat_close fails s' = (Some NilHandles, s')"
  using assms by (auto simp: flat_close_def flat_flush_def split: if_splits option.splits prod.splits)

end
