(* ===== verification/Spec2Isabelle.thy ===== *)
theory Spec2Isabelle
  imports Client_Roots Reth_Table Reth_Types Nimbus_Verify Bin_Pipeline Bin_Regroup Entity_Blob Neth_Trie
begin

text \<open>
  A verification of the core of \<^bold>\<open>state-actor\<close>, a program that writes pre-populated databases for
  Ethereum clients directly in each client's on-disk format, so that a client starts on a large state
  without executing the transactions that would create it.

  \<^bold>\<open>The program.\<close>  A generator (\<open>generator/\<close>) or an explicit state (\<open>internal/spec\<close>,
  \<open>internal/specbuild\<close>, \<open>genesis/\<close>) produces accounts, codes and storage slots in no particular order.
  For each client, a writer (\<open>client/<name>/\<close>) spills them through an external sort
  (\<open>internal/streamsort\<close>, \<open>internal/streamingtrie\<close>), replays them in key order into the client's own
  streaming trie builder (\<open>internal/<name>\<close>), stores the rows that builder emits and puts the root it
  returns into the genesis block.  A client that finds a row missing, two rows under one key, or a root
  that differs from its own recomputation rejects the database; these are the failures the theorems
  exclude.

  \<^bold>\<open>Shared theory.\<close>
  \<^item> \<open>Prelude\<close>: bytes, fallible computations, Go's \<open>bytes.Compare\<close> and slicing, generic list lemmas.
  \<^item> \<open>Trie_Spec\<close>: the reference Merkle-Patricia trie, a recursive function \<open>mk\<close> of the sorted entries, with
    its open spine; \<open>Trie_Stream\<close>: how spine and closed nodes change when one entry is appended;
    \<open>Trie_Lookup\<close>: the trie stores exactly its entries; \<open>Trie_Canon\<close>: it is the only canonical trie
    over them; \<open>Trie_Branches\<close>: no branch is created twice; \<open>Trie_Masks\<close>: 16-bit occupancy masks.
    None of these models code: every builder is compared with them.
  \<^item> \<open>Hash_Engine\<close>: the mask-driven algorithm that besu's \<open>streamingBuilder\<close> and reth's \<open>HashBuilder\<close>
    share, in the locale \<open>hb_encoders\<close> over the node encoders, interpreted by each of them.

  \<^bold>\<open>Ethrex\<close> (\<open>internal/ethrex\<close>).  \<open>Ethrex_Nibbles\<close> is \<open>nibbles.go\<close>; \<open>Ethrex_Rlp\<close> the RLP helpers of
  \<open>node_rlp.go\<close> and \<open>account.go\<close>; \<open>Ethrex_Node\<close> the node encoders and the reference rule (inline below 32
  bytes, keccak otherwise); \<open>Ethrex_Builder\<close> the builder of \<open>builder.go\<close> with its stack of open frames and
  its row sink, and that it writes exactly the rows of the reference trie, returns its root, never
  panics and rejects keys that do not ascend; \<open>Ethrex_Account\<close> the account, storage and code rows with
  the jump-destination bitmap, and \<open>ComputeStorageRoot\<close>.

  \<^bold>\<open>Nimbus\<close> (\<open>internal/nimbus\<close>).  \<open>Nimbus_Codec\<close> is \<open>sbe.go\<close>, \<open>hexprefix.go\<close> and the key-value keys and
  saved-state record; \<open>Nimbus_Vid\<close> the static identifiers, the composite keys and the allocator of
  \<open>vid.go\<close>; \<open>Nimbus_Vertex\<close> the vertex records of \<open>vertex.go\<close> with their decoder; \<open>Nimbus_Builder\<close> the
  builder of \<open>builder.go\<close>, with identifiers allocated on the way; \<open>Nimbus_Trie\<close> its simulation proof;
  \<open>Nimbus_Rows\<close> the theorems about the rows: they are the reference trie's, their keys are
  distinct, every record fits its length fields.  \<open>Nimbus_Verify\<close> is the read-back check of \<open>verify.go\<close>: whatever it
  accepts is a canonical trie with the expected root, and it always ends.

  \<^bold>\<open>Besu\<close> (\<open>internal/besu\<close>).  \<open>Besu_Node\<close>: constants, node keys and node encodings; \<open>Besu_Stream\<close>: the
  streaming engine with its mask and reference stacks and both wrappers; \<open>Besu_Tree\<close>: the in-memory trie
  of \<open>node.go\<close> and \<open>builder.go\<close>, and that it commits the rows of the streaming one; \<open>Besu_Keys\<close>: the keys
  of the shared branch column never collide.

  \<^bold>\<open>Reth\<close> (\<open>internal/reth\<close>).  \<open>Popcount\<close> and \<open>Reth_Rows\<close> are \<open>trie_format.go\<close>; \<open>Reth_Format\<close> the node
  encoders of \<open>hash_builder.go\<close>; \<open>Reth_Builder\<close> the \<open>HashBuilder\<close> with its tree and hash masks;
  \<open>Reth_Masks\<close> says what those masks mean on the reference trie, \<open>Reth_Stream\<close> is the simulation and
  \<open>Reth_Table\<close> what ends up in the tables.  \<open>Reth_Codec\<close> is \<open>codec.go\<close>, the Compact integers and bit
  fields, and \<open>Reth_Types\<close> is \<open>types.go\<close> and \<open>prune.go\<close>: the rows of the plain tables are read back by
  their decoders and the history keys sort by their components.

  \<^bold>\<open>Sorting and composition.\<close>  \<open>Streamsort\<close> is the sorter of \<open>streamsort.go\<close> over an abstract Pebble: it
  refines a finite map read in key order, and each operation outside its phase is an error.
  \<open>Streaming_Trie\<close> is \<open>streamingtrie.go\<close>: drain, iterate and replay, with the client's builder behind the
  locale \<open>hash_builder\<close>; \<open>Client_Roots\<close> interprets that locale by each client's builder, and shows that
  the root of the sorted slots does not depend on the client and is the reference root.

  \<^bold>\<open>Geth's binary trie\<close> (\<open>generator/binary_stack_trie.go\<close>, \<open>generator/regroup.go\<close>).  \<open>Bin_Node\<close>: stem
  values, node formats and hashes; \<open>Bin_Builder\<close>: \<open>streamingBuilder\<close>, plain and grouped, and the sequential
  run; \<open>Bin_Ref\<close>: the reference binary trie; \<open>Bin_Stream\<close> and \<open>Bin_Root\<close>: the plain mode computes it;
  \<open>Bin_Slots\<close>, \<open>Bin_Group\<close>, \<open>Bin_Flush\<close> and \<open>Bin_Grouped\<close>: the grouped mode writes the rows of the grouped
  reference and returns the same root; \<open>Bin_Pipeline\<close>: the reader, the hashing workers and the
  re-ordering builder of \<open>computeBinaryRootStreamingParallel\<close> as an interleaving step relation, whose
  every maximal run ends with the sequential result; \<open>Bin_Regroup\<close>: the hash of a stored node.

  \<^bold>\<open>Nethermind\<close> (\<open>internal/neth\<close>).  \<open>Neth_Flat\<close> is the key space of the flat database (\<open>flat/\<close>,
  \<open>packNibblesTo32\<close>): no two nodes share column and key.  \<open>Neth_Trie\<close> is the trie builder of \<open>trie/builder.go\<close>
  over go-ethereum's \<open>StackTrie\<close>, the sink and state writer of \<open>client/nethermind/flat_cgo.go\<close> and the account
  loops of \<open>entitygen_cgo.go\<close>: the database holds exactly the rows of the reference tries, the roots are
  theirs, and an error is never lost.  The sink is an interpretation of the locale \<open>row_store\<close>, the storage
  adapter one of \<open>hash_builder\<close>.

  \<^bold>\<open>Writers\<close> (\<open>client/\<close>).  \<open>Entity_Blob\<close> is the scratch record in which the geth, ethrex, nimbus and besu
  writers spill an account between their two phases, written four times in the source: the same bytes, read
  back exactly, and never read from a truncated record.

  \<^bold>\<open>State, effects, errors.\<close>  A builder is a record passed through its operations; its sink is a list of
  rows or a writer function that may fail, and a Go error or panic is a value (\<open>Inl\<close>, \<open>None\<close> or a panic
  constructor).  Where Go shares a buffer between calls the model copies, and each such place is an
  encoder whose result is consumed before the buffer is reused.  Bytes are \<open>8 word\<close>, masks \<open>16 word\<close>,
  identifiers and lengths \<open>64 word\<close> where the source wraps and \<open>nat\<close> where it cannot.

  \<^bold>\<open>Parameters and assumptions.\<close>  Keccak-256 and SHA-256 are parameters of the definitions; where a theorem
  needs their results to have 32 bytes it says so.  The grouped binary trie is compared under
  \<open>nonzero_hash\<close>, since the code uses the zero hash for an empty child.  The \<open>uint256\<close> library,
  go-ethereum's \<open>rlp\<close> and \<open>StackTrie\<close>, RocksDB's \<open>Write\<close> and Pebble are parameters with their documented behaviour as hypotheses, each with a
  witness that instantiates it.

  \<^bold>\<open>Termination, bounds.\<close>  Every loop is a total function, by structural recursion or by a measure (remaining
  bytes, open depth, height of a stack), except the walk of the nimbus verifier, which follows references
  between rows: it takes fuel, one more than the number of rows, and is proved never to run out.  Every run of the parallel pipeline
  has at most 11 times the number of stems, plus the number of workers, plus 4 steps.  The grouped mode
  is proved for the group depths that divide 248; for the others the code loses the alignment of the
  last group, recorded as a finding.

  \<^bold>\<open>Not modelled.\<close>  The rest of the client writers (\<open>client/\<close>) and the command line are orchestration of RocksDB, MDBX
  and Pebble, mostly through cgo; the column family names are strings passed to those libraries.
  \<open>autofill\<close> and the size distributions of \<open>generator\<close> work on floating point numbers and pseudo-random
  streams.  The key derivation of the binary trie belongs to go-ethereum's \<open>bintrie\<close> package, which is
  not in the repository.  \<open>spec\<close>, \<open>specbuild\<close>,
  \<open>genesis\<close> and \<open>templates\<close> are front ends over YAML and JSON libraries.  Erigon's commitment trie
  (\<open>internal/erigon/hph\<close>) is ported from Erigon and is left out.
\<close>

end
